(* ===== verification/Prelude.thy ===== *)
theory Prelude
  imports Main "HOL-Library.AList"
begin

text \<open>
  Shared vocabulary of the development: Python exceptions as values of a sum type, the
  few string operations the code uses (on ASCII strings), decimal numerals, ordered
  dictionaries as association lists, binary search, and the list facts the component
  theories share.
\<close>

section \<open>Exceptions as values\<close>

text \<open>
  A Python call that may raise returns \<open>py_error + 'a\<close>: \<open>Inl\<close> of the exception that
  leaves the call, or \<open>Inr\<close> of its value. The constructors are the exception classes the
  modelled code raises itself or lets through from the standard library.
\<close>

datatype py_error =
    ValueError
  | TypeError
  | KeyError
  | IndexError
  | ZeroDivisionError
  | OverflowError
  | RuntimeError
  | CyclicDependencyError
  | UnresolvedDependencyError
  | UnsupportedInterval
  | DatasetMismatch
  | ScanLimitExceeded
  | CheckpointError
  | AssertionError
  | StateError
  | InvalidOperation
  | OrderRejected
  | RiskLimitExceeded
  | SessionEnded
  | InvalidStateTransition
  | JSONDecodeError
  | UnicodeDecodeError
  | UnicodeEncodeError
  | RecursionError

type_synonym 'a res = "py_error + 'a"

definition bindr :: "'e + 'a \<Rightarrow> ('a \<Rightarrow> 'e + 'b) \<Rightarrow> 'e + 'b" where
  "bindr m f = (case m of Inl e \<Rightarrow> Inl e | Inr v \<Rightarrow> f v)"

definition guardr :: "bool \<Rightarrow> 'e \<Rightarrow> 'e + unit" where
  "guardr b e = (if b then Inr () else Inl e)"

text \<open>Python's \<open>//\<close> rounds towards minus infinity, as \<open>div\<close> on \<open>int\<close> does, and raises on zero.\<close>

definition py_floordiv :: "int \<Rightarrow> int \<Rightarrow> int res" where
  "py_floordiv a b = (if b = 0 then Inl ZeroDivisionError else Inr (a div b))"

definition py_mod :: "int \<Rightarrow> int \<Rightarrow> int res" where
  "py_mod a b = (if b = 0 then Inl ZeroDivisionError else Inr (a mod b))"

fun mapr :: "('a \<Rightarrow> 'e + 'b) \<Rightarrow> 'a list \<Rightarrow> 'e + 'b list" where
  "mapr f [] = Inr []"
| "mapr f (x # xs) = bindr (f x) (\<lambda>y. bindr (mapr f xs) (\<lambda>ys. Inr (y # ys)))"

named_theorems res_simps \<open>evaluation and inversion of computations that may raise\<close>

lemma bindr_Inl [simp]: "bindr (Inl e) f = Inl e"
  by (simp add: bindr_def)

lemma bindr_Inr [simp]: "bindr (Inr v) f = f v"
  by (simp add: bindr_def)

lemma bindr_eq_Inr [res_simps]: "bindr m f = Inr r \<longleftrightarrow> (\<exists>v. m = Inr v \<and> f v = Inr r)"
  by (cases m) auto

lemma bindr_eq_Inl: "bindr m f = Inl e \<longleftrightarrow> m = Inl e \<or> (\<exists>v. m = Inr v \<and> f v = Inl e)"
  by (cases m) auto

lemma bindr_eq_InrE:
  assumes "bindr m f = Inr r"
  obtains v where "m = Inr v" "f v = Inr r"
  using assms by (cases m) auto

lemma guardr_simps [simp]:
  "guardr True e = Inr ()" "guardr False e = Inl e"
  "guardr b e = Inr u \<longleftrightarrow> b" "guardr b e = Inl e' \<longleftrightarrow> \<not> b \<and> e = e'"
  by (auto simp: guardr_def)

lemma py_floordiv_nz [simp]: "b \<noteq> 0 \<Longrightarrow> py_floordiv a b = Inr (a div b)"
  by (simp add: py_floordiv_def)

lemma py_mod_nz [simp]: "b \<noteq> 0 \<Longrightarrow> py_mod a b = Inr (a mod b)"
  by (simp add: py_mod_def)

lemma mapr_Inr_iff: "mapr f xs = Inr ys \<longleftrightarrow> list_all2 (\<lambda>x y. f x = Inr y) xs ys"
  by (induction xs arbitrary: ys) (auto simp: res_simps list_all2_Cons1)

text \<open>
  Computations that may raise and may also never return: \<open>None\<close> is a call that does not
  return.
\<close>

definition bindo :: "'a res option \<Rightarrow> ('a \<Rightarrow> 'b res option) \<Rightarrow> 'b res option" where
  "bindo m f = (case m of None \<Rightarrow> None | Some (Inl e) \<Rightarrow> Some (Inl e) | Some (Inr v) \<Rightarrow> f v)"

lemma bindo_simps [simp]:
  "bindo None f = None" "bindo (Some (Inl e)) f = Some (Inl e)" "bindo (Some (Inr v)) f = f v"
  by (simp_all add: bindo_def)

lemma bindo_eq_Inr [res_simps]:
  "bindo m f = Some (Inr r) \<longleftrightarrow> (\<exists>v. m = Some (Inr v) \<and> f v = Some (Inr r))"
  by (auto simp: bindo_def split: option.splits sum.splits)

lemma bindo_total: "m \<noteq> None \<Longrightarrow> (\<And>v. m = Some (Inr v) \<Longrightarrow> f v \<noteq> None) \<Longrightarrow> bindo m f \<noteq> None"
  by (auto simp: bindo_def split: option.splits sum.splits)

lemma mapr_total: "(\<And>x. x \<in> set xs \<Longrightarrow> f x = Inr (g x)) \<Longrightarrow> mapr f xs = Inr (map g xs)"
  by (induction xs) auto

section \<open>Strings\<close>

text \<open>
  Strings are ASCII: a Python \<open>str\<close> is a list of characters below 128. Over that range
  \<open>str.isspace\<close> is true of the codes 9 to 13 and 28 to 32, \<open>str.lower\<close> and \<open>str.upper\<close>
  move the 26 letters, and the regular expression class \<open>\d\<close> is the ten digits.
\<close>

definition py_isspace :: "char \<Rightarrow> bool" where
  "py_isspace c = (let n = (of_char c :: nat) in (9 \<le> n \<and> n \<le> 13) \<or> (28 \<le> n \<and> n \<le> 32))"

definition py_strip :: "string \<Rightarrow> string" where
  "py_strip s = rev (dropWhile py_isspace (rev (dropWhile py_isspace s)))"

definition lower_char :: "char \<Rightarrow> char" where
  "lower_char c = (let n = (of_char c :: nat) in if 65 \<le> n \<and> n \<le> 90 then char_of (n + 32) else c)"

definition upper_char :: "char \<Rightarrow> char" where
  "upper_char c = (let n = (of_char c :: nat) in if 97 \<le> n \<and> n \<le> 122 then char_of (n - 32) else c)"

definition py_lower :: "string \<Rightarrow> string" where
  "py_lower s = map lower_char s"

definition py_upper :: "string \<Rightarrow> string" where
  "py_upper s = map upper_char s"

definition is_digit :: "char \<Rightarrow> bool" where
  "is_digit c = (let n = (of_char c :: nat) in 48 \<le> n \<and> n \<le> 57)"

lemma py_strip_id:
  assumes "s \<noteq> [] \<Longrightarrow> \<not> py_isspace (hd s)" and "s \<noteq> [] \<Longrightarrow> \<not> py_isspace (last s)"
  shows "py_strip s = s"
proof (cases s)
  case Nil
  then show ?thesis by (simp add: py_strip_def)
next
  case (Cons c cs)
  have fwd: "dropWhile py_isspace s = s" using assms(1) Cons by simp
  have "rev s = last s # rev (butlast s)"
    using Cons by (metis append_butlast_last_id list.discI rev.simps(2) rev_rev_ident rev_swap)
  then have "dropWhile py_isspace (rev s) = rev s"
    using assms(2) Cons by simp
  then show ?thesis by (simp add: py_strip_def fwd)
qed

lemma lower_char_space [simp]: "py_isspace (lower_char c) = py_isspace c"
  by (auto simp: py_isspace_def lower_char_def Let_def)

lemma lower_char_idem [simp]: "lower_char (lower_char c) = lower_char c"
  by (auto simp: lower_char_def Let_def)

lemma py_lower_idem [simp]: "py_lower (py_lower s) = py_lower s"
  by (simp add: py_lower_def)

lemma strip_ends:
  assumes "py_strip s \<noteq> []"
  shows "\<not> py_isspace (hd (py_strip s)) \<and> \<not> py_isspace (last (py_strip s))"
proof -
  define t where "t = dropWhile py_isspace s"
  define u where "u = dropWhile py_isspace (rev t)"
  have st: "py_strip s = rev u" by (simp add: py_strip_def t_def u_def)
  then have u: "u \<noteq> []" using assms by simp
  then have ru: "rev t \<noteq> []" unfolding u_def by auto
  obtain w where w: "rev t = w @ u" unfolding u_def by (metis takeWhile_dropWhile_id)
  have "last u = hd t" using w u by (metis hd_rev last_appendR rev_rev_ident)
  moreover have "\<not> py_isspace (hd t)" using ru unfolding t_def by (simp add: hd_dropWhile)
  moreover have "\<not> py_isspace (hd u)" using u unfolding u_def by (simp add: hd_dropWhile)
  ultimately show ?thesis using st u by (simp add: hd_rev last_rev)
qed

lemma py_strip_idem [simp]: "py_strip (py_strip s) = py_strip s"
  using strip_ends by (intro py_strip_id) auto

lemma strip_lower_strip [simp]: "py_strip (py_lower (py_strip s)) = py_lower (py_strip s)"
  using strip_ends[of s] by (intro py_strip_id) (auto simp: py_lower_def hd_map last_map)

subsection \<open>Decimal numerals\<close>

definition digit_char :: "nat \<Rightarrow> char" where
  "digit_char d = char_of (48 + d)"

definition digit_value :: "char \<Rightarrow> nat" where
  "digit_value c = of_char c - 48"

fun dec_of_nat :: "nat \<Rightarrow> string" where
  "dec_of_nat n = (if n < 10 then [digit_char n] else dec_of_nat (n div 10) @ [digit_char (n mod 10)])"

declare dec_of_nat.simps [simp del]

definition nat_of_dec :: "string \<Rightarrow> nat" where
  "nat_of_dec s = foldl (\<lambda>a c. 10 * a + digit_value c) 0 s"

text \<open>\<open>str(n)\<close> of a Python integer.\<close>

definition dec_of_int :: "int \<Rightarrow> string" where
  "dec_of_int n = (if n < 0 then CHR ''-'' # dec_of_nat (nat (- n)) else dec_of_nat (nat n))"

lemma digit_value_char [simp]: "d < 10 \<Longrightarrow> digit_value (digit_char d) = d"
  by (simp add: digit_value_def digit_char_def)

lemma is_digit_char [simp]: "d < 10 \<Longrightarrow> is_digit (digit_char d)"
  by (simp add: is_digit_def digit_char_def)

lemma dec_of_nat_digits: "list_all is_digit (dec_of_nat n)"
proof (induction n rule: dec_of_nat.induct)
  case (1 n)
  then show ?case by (subst dec_of_nat.simps) simp
qed

lemma dec_of_nat_nonempty [simp]: "dec_of_nat n \<noteq> []"
  by (subst dec_of_nat.simps) simp

lemma nat_of_dec_snoc: "nat_of_dec (s @ [c]) = 10 * nat_of_dec s + digit_value c"
  by (simp add: nat_of_dec_def)

lemma nat_of_dec_of_nat [simp]: "nat_of_dec (dec_of_nat n) = n"
proof (induction n rule: dec_of_nat.induct)
  case (1 n)
  show ?case
  proof (cases "n < 10")
    case True
    then show ?thesis by (subst dec_of_nat.simps) (simp add: nat_of_dec_def)
  next
    case False
    then show ?thesis using "1.IH" by (subst dec_of_nat.simps) (simp add: nat_of_dec_snoc)
  qed
qed

lemma digit_char_0: "digit_char 0 = CHR ''0''" by code_simp

lemma dec_of_nat_times10: "0 < n \<Longrightarrow> dec_of_nat (10 * n) = dec_of_nat n @ ''0''"
  by (subst dec_of_nat.simps) (simp add: digit_char_0)

lemma dec_of_nat_bounds: "n < 10 ^ length (dec_of_nat n) \<and> (0 < n \<longrightarrow> 10 ^ (length (dec_of_nat n) - 1) \<le> n)"
proof (induction n rule: dec_of_nat.induct)
  case (1 n)
  show ?case
  proof (cases "n < 10")
    case True
    then show ?thesis by (subst (1 2) dec_of_nat.simps) simp
  next
    case False
    have l: "length (dec_of_nat n) = Suc (length (dec_of_nat (n div 10)))" using False by (subst dec_of_nat.simps) simp
    have i: "n div 10 < 10 ^ length (dec_of_nat (n div 10))" "10 ^ (length (dec_of_nat (n div 10)) - 1) \<le> n div 10"
      using 1[OF False] False by simp_all
    have "n = 10 * (n div 10) + n mod 10" "n mod 10 < 10" by simp_all
    then have "n < 10 * 10 ^ length (dec_of_nat (n div 10))" using i(1) by linarith
    moreover have "10 * 10 ^ (length (dec_of_nat (n div 10)) - 1) \<le> n" using i(2) by linarith
    moreover have "0 < length (dec_of_nat (n div 10))" by simp
    ultimately show ?thesis unfolding l by (cases "length (dec_of_nat (n div 10))") simp_all
  qed
qed

lemma is_digit_not_space: "is_digit c \<Longrightarrow> \<not> py_isspace c"
  by (auto simp: is_digit_def py_isspace_def Let_def)

section \<open>Ordered dictionaries\<close>

text \<open>
  An \<open>OrderedDict\<close> (and a plain \<open>dict\<close>, which also keeps insertion order) is an
  association list with distinct keys, oldest entry first: \<open>AList.update\<close> replaces a value
  in place or appends the new key, \<open>AList.delete\<close> removes it.
\<close>

definition od_keys :: "('k \<times> 'v) list \<Rightarrow> 'k list" where
  "od_keys d = map fst d"

definition od_wf :: "('k \<times> 'v) list \<Rightarrow> bool" where
  "od_wf d \<longleftrightarrow> distinct (map fst d)"

definition od_move_to_end :: "'k \<Rightarrow> ('k \<times> 'v) list \<Rightarrow> ('k \<times> 'v) list" where
  "od_move_to_end k d = (case map_of d k of None \<Rightarrow> d | Some v \<Rightarrow> AList.delete k d @ [(k, v)])"

lemma od_wf_update [simp, intro]: "od_wf d \<Longrightarrow> od_wf (AList.update k v d)"
  by (simp add: od_wf_def distinct_update)

lemma od_wf_delete [simp, intro]: "od_wf d \<Longrightarrow> od_wf (AList.delete k d)"
  by (simp add: od_wf_def distinct_delete)

lemma od_wf_tl [simp, intro]: "od_wf d \<Longrightarrow> od_wf (tl d)"
  by (cases d) (auto simp: od_wf_def)

lemma od_wf_Nil [simp]: "od_wf []"
  by (simp add: od_wf_def)

lemma delete_notin: "k \<notin> fst ` set d \<Longrightarrow> AList.delete k d = d"
  by (induction d) auto

lemma length_delete_in:
  "od_wf d \<Longrightarrow> map_of d k = Some v \<Longrightarrow> length d = Suc (length (AList.delete k d))"
proof (induction d)
  case Nil
  then show ?case by simp
next
  case (Cons p d)
  then show ?case
    by (cases "fst p = k") (auto simp: od_wf_def delete_notin split: if_splits)
qed

lemma od_wf_move_to_end [simp, intro]: "od_wf d \<Longrightarrow> od_wf (od_move_to_end k d)"
  by (auto simp: od_move_to_end_def od_wf_def delete_keys distinct_removeAll split: option.splits)

lemma map_of_delete: "map_of (AList.delete k d) = (map_of d)(k := None)"
  by (simp add: delete_conv')

lemma map_of_update: "map_of (AList.update k v d) = (map_of d)(k \<mapsto> v)"
  by (simp add: update_conv')

lemma map_of_move_to_end [simp]: "map_of (od_move_to_end k d) = map_of d"
  by (auto simp: od_move_to_end_def map_of_delete fun_eq_iff map_add_def split: option.splits)

lemma length_move_to_end [simp]: "od_wf d \<Longrightarrow> length (od_move_to_end k d) = length d"
  by (auto simp: od_move_to_end_def length_delete_in split: option.splits)

lemma length_update_in: "map_of d k \<noteq> None \<Longrightarrow> length (AList.update k v d) = length d"
  by (induction d) auto

lemma length_update_notin: "map_of d k = None \<Longrightarrow> length (AList.update k v d) = Suc (length d)"
  by (induction d) (auto split: if_splits)

lemma map_fst_update_in: "map_of d k = Some v \<Longrightarrow> map fst (AList.update k v' d) = map fst d"
  by (induction d) (auto split: if_splits)

lemma update_notin: "map_of d k = None \<Longrightarrow> AList.update k v d = d @ [(k, v)]"
  by (induction d) (auto split: if_splits)

end
