(* ===== verification/Gregorian.thy ===== *)
theory Gregorian
  imports Prelude
begin

text \<open>
  The part of Python's \<open>datetime\<close> the interval policy uses, on UTC instants: which
  calendar month an instant lies in and when a month starts. A month is its ordinal
  \<open>year * 12 + (month - 1)\<close>, as in \<open>_month_ordinal_to_datetime\<close>; a day is its number
  since 1970-01-01. The range checks of \<open>datetime\<close> (years 1 to 9999) are branches.
\<close>

section \<open>Days, months and years of the proleptic Gregorian calendar\<close>

definition leap_year :: "int \<Rightarrow> bool" where
  "leap_year y \<longleftrightarrow> y mod 4 = 0 \<and> (y mod 100 \<noteq> 0 \<or> y mod 400 = 0)"

definition jan1 :: "int \<Rightarrow> int" where
  "jan1 y = 365 * (y - 1) + (y - 1) div 4 - (y - 1) div 100 + (y - 1) div 400 - 719162"

definition days_before_month :: "bool \<Rightarrow> int \<Rightarrow> int" where
  "days_before_month lp m =
     (if m \<le> 0 then 0 else if m = 1 then 31
      else (if lp then 1 else 0) +
        (if m = 2 then 59 else if m = 3 then 90 else if m = 4 then 120 else if m = 5 then 151
         else if m = 6 then 181 else if m = 7 then 212 else if m = 8 then 243
         else if m = 9 then 273 else if m = 10 then 304 else 334))"

definition month_start_day :: "int \<Rightarrow> int" where
  "month_start_day n = jan1 (n div 12) + days_before_month (leap_year (n div 12)) (n mod 12)"

definition year_of_day :: "int \<Rightarrow> int" where
  "year_of_day d = (let y = (400 * (d + 719162)) div 146097 + 1 in
     if d < jan1 y then y - 1 else if jan1 (y + 1) \<le> d then y + 1 else y)"

function month_in_year :: "bool \<Rightarrow> int \<Rightarrow> int \<Rightarrow> int" where
  "month_in_year lp k m =
     (if 11 \<le> m \<or> k < days_before_month lp (m + 1) then m else month_in_year lp k (m + 1))"
  by pat_completeness auto
termination by (relation "measure (\<lambda>(lp, k, m). nat (11 - m))") auto

declare month_in_year.simps [simp del]

definition month_of_day :: "int \<Rightarrow> int" where
  "month_of_day d = (let y = year_of_day d in y * 12 + month_in_year (leap_year y) (d - jan1 y) 0)"

lemma div_bounds:
  fixes w k :: int
  assumes "0 < k"
  shows "k * (w div k) \<le> w \<and> w \<le> k * (w div k) + (k - 1)"
proof -
  have "k * (w div k) = w - w mod k" by (rule minus_mod_eq_mult_div [symmetric])
  moreover have "0 \<le> w mod k" "w mod k < k" using assms by simp_all
  ultimately show ?thesis by linarith
qed

lemma div_succ_int:
  fixes y k :: int
  assumes "0 < k"
  shows "y div k = (y - 1) div k + (if y mod k = 0 then 1 else 0)"
proof (cases "y mod k = 0")
  case True
  then have y: "y = k * (y div k)" by (metis add.right_neutral mult_div_mod_eq)
  have "(y - 1) div k = y div k - 1"
    by (rule int_div_pos_eq [of _ _ _ "k - 1"]) (use y assms in \<open>simp_all add: algebra_simps\<close>)
  then show ?thesis using True by simp
next
  case False
  have r: "0 \<le> y mod k" "y mod k < k" using assms by simp_all
  have y: "y = k * (y div k) + y mod k" by simp
  have "(y - 1) div k = y div k"
    by (rule int_div_pos_eq [of _ _ _ "y mod k - 1"]) (use y r False in linarith)+
  then show ?thesis using False by simp
qed

lemma leap_count:
  "(c \<Longrightarrow> b) \<Longrightarrow> (b \<Longrightarrow> a) \<Longrightarrow>
    x + (if a then 1 else 0) - (if b then 1 else 0) + (if c then 1 else 0) =
    x + (if a \<and> (\<not> b \<or> c) then 1 else (0::int))"
  by (cases a; cases b; cases c) simp_all

lemma jan1_succ: "jan1 (y + 1) = jan1 y + 365 + (if leap_year y then 1 else 0)"
proof -
  have "(100::int) dvd 400" "(4::int) dvd 100" by simp_all
  then have m: "y mod 400 = 0 \<Longrightarrow> y mod 100 = 0" "y mod 100 = 0 \<Longrightarrow> y mod 4 = 0"
    unfolding mod_eq_0_iff_dvd by (blast intro: dvd_trans)+
  have "jan1 (y + 1) = 365 * y + y div 4 - y div 100 + y div 400 - 719162"
    by (simp add: jan1_def)
  also have "\<dots> = jan1 y + 365 + (if y mod 4 = 0 then 1 else 0) - (if y mod 100 = 0 then 1 else 0)
      + (if y mod 400 = 0 then 1 else 0)"
    unfolding jan1_def div_succ_int [of 4 y, simplified] div_succ_int [of 100 y, simplified]
      div_succ_int [of 400 y, simplified] by (simp only: algebra_simps)
  also have "\<dots> = jan1 y + 365 + (if leap_year y then 1 else 0)"
    using leap_count [OF m] unfolding leap_year_def by fast
  finally show ?thesis .
qed

lemma month_index_cases:
  assumes "0 \<le> m" "m < (11::int)"
  shows "m \<in> {0, 1, 2, 3, 4, 5, 6, 7, 8, 9, 10}"
proof -
  have "m \<in> set [0..10]" using assms by simp
  then show ?thesis by (simp add: upto.simps del: set_upto)
qed

lemma days_before_month_step:
  assumes "0 \<le> m" "m < 11"
  shows "days_before_month lp m < days_before_month lp (m + 1)"
    and "days_before_month lp (m + 1) \<le> days_before_month lp m + 31"
  using month_index_cases [OF assms] by (elim insertE emptyE; simp add: days_before_month_def)+

lemma jan1_linear:
  shows "146097 * (y - 1) - 400 * 719162 - 699 \<le> 400 * jan1 y"
    and "400 * jan1 y \<le> 146097 * (y - 1) - 400 * 719162 + 396"
proof -
  define w a b c where "w = y - 1" and "a = w div 4" and "b = w div 100" and "c = w div 400"
  have ab: "4 * a \<le> w" "w \<le> 4 * a + 3" "100 * b \<le> w" "w \<le> 100 * b + 99"
    "400 * c \<le> w" "w \<le> 400 * c + 399"
    using div_bounds [of 4 w] div_bounds [of 100 w] div_bounds [of 400 w]
    by (simp_all add: a_def b_def c_def)
  have "jan1 y = 365 * w + a - b + c - 719162"
    by (simp add: jan1_def w_def a_def b_def c_def)
  then show "146097 * (y - 1) - 400 * 719162 - 699 \<le> 400 * jan1 y"
    and "400 * jan1 y \<le> 146097 * (y - 1) - 400 * 719162 + 396"
    using ab unfolding w_def [symmetric] by linarith+
qed

lemma month_split:
  fixes n :: int
  obtains q r where "n = q * 12 + r" "0 \<le> r" "r < 12" "n div 12 = q" "n mod 12 = r"
  by (rule that [of "n div 12" "n mod 12"]) simp_all

lemma month_start_day_split:
  "0 \<le> r \<Longrightarrow> r < 12 \<Longrightarrow> month_start_day (q * 12 + r) = jan1 q + days_before_month (leap_year q) r"
  by (simp add: month_start_day_def)

lemma month_start_day_year: "month_start_day (q * 12 + 12) = jan1 (q + 1)"
  using month_start_day_split [of 0 "q + 1"] by (simp add: algebra_simps days_before_month_def)

lemma month_start_step: "month_start_day n < month_start_day (n + 1)"
proof -
  obtain q r where n: "n = q * 12 + r" "0 \<le> r" "r < 12" by (rule month_split)
  show ?thesis
  proof (cases "r = 11")
    case True
    have "days_before_month (leap_year q) 11 < 336" by (simp add: days_before_month_def)
    moreover have "month_start_day n = jan1 q + days_before_month (leap_year q) 11"
      using month_start_day_split [of 11 q] n True by simp
    moreover have "month_start_day (n + 1) = jan1 (q + 1)"
      using month_start_day_year [of q] n True by (simp add: add.assoc)
    moreover have "jan1 q + 365 \<le> jan1 (q + 1)" unfolding jan1_succ by simp
    ultimately show ?thesis by linarith
  next
    case False
    with n have "month_start_day (n + 1) = jan1 q + days_before_month (leap_year q) (r + 1)"
      using month_start_day_split [of "r + 1" q] by (simp add: add.assoc)
    with n False show ?thesis using month_start_day_split [of r q] days_before_month_step(1) [of r]
      by simp
  qed
qed

lemma month_start_mono: "i < j \<Longrightarrow> month_start_day i < month_start_day j"
proof (induction "nat (j - i)" arbitrary: j)
  case 0
  then show ?case by simp
next
  case (Suc k)
  show ?case
  proof (cases "j = i + 1")
    case True
    then show ?thesis by (simp add: month_start_step)
  next
    case False
    with Suc.prems Suc.hyps(2) have "i < j - 1" "k = nat ((j - 1) - i)" by simp_all
    then have "month_start_day i < month_start_day (j - 1)" using Suc.hyps(1) by blast
    with month_start_step [of "j - 1"] show ?thesis by simp
  qed
qed

lemma month_start_step_le: "month_start_day (n + 1) \<le> month_start_day n + 31"
proof -
  obtain q r where n: "n = q * 12 + r" "0 \<le> r" "r < 12" by (rule month_split)
  show ?thesis
  proof (cases "r = 11")
    case True
    have "month_start_day (n + 1) = jan1 (q + 1)"
      using month_start_day_year [of q] n True by (simp add: add.assoc)
    then show ?thesis using month_start_day_split [of 11 q] n True jan1_succ [of q]
      by (simp add: days_before_month_def)
  next
    case False
    with n have "days_before_month (leap_year q) (r + 1) \<le> days_before_month (leap_year q) r + 31"
      using days_before_month_step(2) [of r] by simp
    moreover have "month_start_day (n + 1) = jan1 q + days_before_month (leap_year q) (r + 1)"
      using month_start_day_split [of "r + 1" q] n False by (simp add: add.assoc)
    ultimately show ?thesis using month_start_day_split [of r q] n by simp
  qed
qed

lemma month_start_span: "month_start_day (n + int k) \<le> month_start_day n + 31 * int k"
proof (induction k)
  case (Suc k)
  then show ?case using month_start_step_le [of "n + int k"] by (simp add: algebra_simps)
qed simp

lemma month_start_less_iff [simp]: "month_start_day i < month_start_day j \<longleftrightarrow> i < j"
  by (metis linorder_neqE_linordered_idom month_start_mono not_less_iff_gr_or_eq)

lemma month_start_le_iff [simp]: "month_start_day i \<le> month_start_day j \<longleftrightarrow> i \<le> j"
  by (meson linorder_not_less month_start_less_iff)

lemma month_start_eq_iff [simp]: "month_start_day i = month_start_day j \<longleftrightarrow> i = j"
  by (metis month_start_less_iff linorder_neqE_linordered_idom less_irrefl)

lemma year_of_day_bounds:
  "jan1 (year_of_day d) \<le> d \<and> d < jan1 (year_of_day d + 1)"
proof -
  define D where "D = d + 719162"
  define z where "z = (400 * D) div 146097"
  have z: "146097 * z \<le> 400 * D" "400 * D < 146097 * z + 146097"
    using div_bounds [of 146097 "400 * D"] unfolding z_def by simp_all
  have lo: "jan1 z \<le> d"
    using z jan1_linear [of z] unfolding D_def by simp
  have hi: "d < jan1 (z + 3)"
    using z jan1_linear [of "z + 3"] unfolding D_def by simp
  have "year_of_day d = (if d < jan1 (z + 1) then z else if jan1 (z + 2) \<le> d then z + 2 else z + 1)"
    by (simp add: year_of_day_def z_def D_def Let_def add.commute)
  with lo hi show ?thesis by (auto simp: add.assoc split: if_splits)
qed

lemma month_in_year_bounds:
  assumes "m \<le> 11" "days_before_month lp m \<le> k"
  shows "m \<le> month_in_year lp k m \<and> month_in_year lp k m \<le> 11 \<and>
    days_before_month lp (month_in_year lp k m) \<le> k \<and>
    (month_in_year lp k m < 11 \<longrightarrow> k < days_before_month lp (month_in_year lp k m + 1))"
  using assms
proof (induction lp k m rule: month_in_year.induct)
  case (1 lp k m)
  show ?case
  proof (cases "11 \<le> m \<or> k < days_before_month lp (m + 1)")
    case True
    then show ?thesis using "1.prems" by (subst (1 2 3 4 5) month_in_year.simps) auto
  next
    case False
    then have "month_in_year lp k m = month_in_year lp k (m + 1)"
      by (subst month_in_year.simps) simp
    with False "1.IH" show ?thesis by auto
  qed
qed

lemma month_of_day_bounds:
  "month_start_day (month_of_day d) \<le> d \<and> d < month_start_day (month_of_day d + 1)"
proof -
  define y where "y = year_of_day d"
  define k where "k = d - jan1 y"
  define m where "m = month_in_year (leap_year y) k 0"
  have k: "0 \<le> k" "k < 365 + (if leap_year y then 1 else 0)"
    using year_of_day_bounds [of d] jan1_succ [of y] by (simp_all add: y_def k_def)
  have mb: "0 \<le> m \<and> m \<le> 11 \<and> days_before_month (leap_year y) m \<le> k \<and>
      (m < 11 \<longrightarrow> k < days_before_month (leap_year y) (m + 1))"
    unfolding m_def by (rule month_in_year_bounds) (use k in \<open>simp_all add: days_before_month_def\<close>)
  have n: "month_of_day d = y * 12 + m"
    by (simp add: month_of_day_def y_def k_def m_def Let_def)
  have lo: "month_start_day (y * 12 + m) \<le> d"
    using mb month_start_day_split [of m y] by (simp add: k_def)
  have hi: "d < month_start_day (y * 12 + m + 1)"
  proof (cases "m = 11")
    case True
    then have "month_start_day (y * 12 + m + 1) = jan1 (y + 1)"
      using month_start_day_year [of y] by (simp add: add.assoc)
    then show ?thesis using k unfolding jan1_succ by (simp add: k_def)
  next
    case False
    with mb have "m < 11" by simp
    then show ?thesis using mb month_start_day_split [of "m + 1" y] by (simp add: k_def add.assoc)
  qed
  from lo hi show ?thesis by (simp add: n)
qed

lemma month_of_day_unique:
  assumes "month_start_day n \<le> d" "d < month_start_day (n + 1)"
  shows "month_of_day d = n"
  using month_of_day_bounds [of d] assms
  by (metis linorder_neqE_linordered_idom month_start_less_iff order.strict_trans1 zless_add1_eq
      less_irrefl order.strict_trans2 zle_add1_eq_le)

lemma month_of_day_start [simp]: "month_of_day (month_start_day n) = n"
  by (rule month_of_day_unique) (simp_all add: month_start_step)

section \<open>datetime on UTC milliseconds\<close>

abbreviation day_ms :: int where
  "day_ms \<equiv> 86400000"

definition month_of_ms :: "int \<Rightarrow> int" where
  "month_of_ms t = month_of_day (t div day_ms)"

definition month_start_ms :: "int \<Rightarrow> int" where
  "month_start_ms n = month_start_day n * day_ms"

text \<open>
  \<open>datetime.fromtimestamp(t / 1000, tz=utc)\<close>, of which the code reads year and month. The
  quotient is a float; for the years \<open>datetime\<close> accepts its error is below 0.1 ms, so no
  millisecond changes its month and the model divides exactly. Outside, CPython raises
  ValueError, or OverflowError once the year leaves the C \<open>int\<close> of \<open>gmtime\<close>.
\<close>

definition dt_month_of_ms :: "int \<Rightarrow> int res" where
  "dt_month_of_ms t = (let n = month_of_ms t; y = n div 12 in
     if 1 \<le> y \<and> y \<le> 9999 then Inr n
     else if - 2147481748 \<le> y \<and> y \<le> 2147485547 then Inl ValueError else Inl OverflowError)"

text \<open>\<open>int(datetime(year, month, 1, tzinfo=utc).timestamp() * 1000)\<close> for a month ordinal.\<close>

definition dt_month_start_ms :: "int \<Rightarrow> int res" where
  "dt_month_start_ms n = (let y = n div 12 in
     if 1 \<le> y \<and> y \<le> 9999 then Inr (month_start_ms n) else Inl ValueError)"

lemma month_start_ms_less_iff [simp]: "month_start_ms i < month_start_ms j \<longleftrightarrow> i < j"
  by (simp add: month_start_ms_def)

lemma month_start_ms_le_iff [simp]: "month_start_ms i \<le> month_start_ms j \<longleftrightarrow> i \<le> j"
  by (simp add: month_start_ms_def)

lemma month_start_ms_eq_iff [simp]: "month_start_ms i = month_start_ms j \<longleftrightarrow> i = j"
  by (simp add: month_start_ms_def)

lemma month_of_ms_bounds:
  "month_start_ms (month_of_ms t) \<le> t \<and> t < month_start_ms (month_of_ms t + 1)"
  using month_of_day_bounds [of "t div day_ms"]
  by (auto simp: month_start_ms_def month_of_ms_def)

lemma month_of_start_ms [simp]: "month_of_ms (month_start_ms n) = n"
  by (simp add: month_of_ms_def month_start_ms_def)

lemma month_start_le_ms_iff: "month_start_ms n \<le> t \<longleftrightarrow> n \<le> month_of_ms t"
  using month_of_ms_bounds [of t]
  by (metis linorder_not_less month_start_ms_le_iff month_start_ms_less_iff order.strict_trans2
      order_trans zless_imp_add1_zle)

lemma dt_month_of_ms_Inr: "dt_month_of_ms t = Inr n \<Longrightarrow> n = month_of_ms t"
  by (auto simp: dt_month_of_ms_def Let_def split: if_splits)

lemma dt_month_start_ms_Inr: "dt_month_start_ms n = Inr r \<Longrightarrow> r = month_start_ms n"
  by (auto simp: dt_month_start_ms_def Let_def split: if_splits)

lemma day_dvd_month_start: "day_ms dvd month_start_ms n"
  by (simp add: month_start_ms_def)

lemma month_start_ms_span:
  assumes "0 \<le> k"
  shows "month_start_ms (n + k) - month_start_ms n \<le> k * 31 * day_ms"
proof -
  have "(month_start_day (n + k) - month_start_day n) * day_ms \<le> (31 * k) * day_ms"
    using month_start_span [of n "nat k"] assms by (intro mult_right_mono) auto
  then show ?thesis by (simp add: month_start_ms_def algebra_simps)
qed

end
