(* ===== verification/Grid.thy ===== *)
theory Grid
  imports Prelude
begin

text \<open>
  The interface between the time components: a configuration \<open>c\<close> denotes a set of bucket
  boundaries, a floor operation returns the last boundary at or before an instant, and a
  step operation returns the boundary after a boundary. Either may raise (calendar
  arithmetic leaves the years 1 to 9999), so the laws speak of the calls that return.
  Everything a client of the grid needs (containment, idempotence, monotonicity, the
  bucket walk) is proved once here and instantiated by the components.
\<close>

section \<open>Walking a grid\<close>

lemma bindr_cong [fundef_cong]:
  "m = m' \<Longrightarrow> (\<And>v. m' = Inr v \<Longrightarrow> f v = f' v) \<Longrightarrow> bindr m f = bindr m' f'"
  by (cases m) auto

text \<open>
  The loop \<open>while cur < stop: out.append(cur); cur = nxt(cur)\<close>, leaving when the step does
  not advance.
\<close>

function walk :: "(int \<Rightarrow> int res) \<Rightarrow> int \<Rightarrow> int \<Rightarrow> int list res" where
  "walk nxt cur stop =
     (if cur < stop then bindr (nxt cur) (\<lambda>n. if n \<le> cur then Inr [cur]
        else bindr (walk nxt n stop) (\<lambda>xs. Inr (cur # xs)))
      else Inr [])"
  by pat_completeness auto
termination by (relation "measure (\<lambda>(_, cur, stop). nat (stop - cur))") auto

declare walk.simps [simp del]

lemma walk_done [simp]: "stop \<le> cur \<Longrightarrow> walk nxt cur stop = Inr []"
  by (simp add: walk.simps)

definition strictly_sorted :: "'a::linorder list \<Rightarrow> bool" where
  "strictly_sorted xs = sorted_wrt (<) xs"

lemma strictly_sorted_simps [simp]:
  "strictly_sorted []" "strictly_sorted (x # xs) \<longleftrightarrow> (\<forall>y\<in>set xs. x < y) \<and> strictly_sorted xs"
  by (simp_all add: strictly_sorted_def)

lemma strictly_sorted_append:
  "strictly_sorted (xs @ ys) \<longleftrightarrow>
     strictly_sorted xs \<and> strictly_sorted ys \<and> (\<forall>x\<in>set xs. \<forall>y\<in>set ys. x < y)"
  by (simp add: strictly_sorted_def sorted_wrt_append)

lemma strictly_sorted_distinct: "strictly_sorted xs \<Longrightarrow> distinct xs"
  by (induction xs) auto

lemma strictly_sorted_card: "strictly_sorted xs \<Longrightarrow> card (set xs) = length xs"
  by (simp add: distinct_card strictly_sorted_distinct)

lemma strictly_sorted_unique:
  "strictly_sorted xs \<Longrightarrow> strictly_sorted ys \<Longrightarrow> set xs = set ys \<Longrightarrow> xs = ys"
  unfolding strictly_sorted_def by (rule strict_sorted_equal) auto

lemma strictly_sorted_upto: "strictly_sorted [i..j]"
  unfolding strictly_sorted_def by (simp add: sorted_wrt_upto)

lemma strictly_sorted_sorted_list: "finite A \<Longrightarrow> strictly_sorted (sorted_list_of_set A)"
  unfolding strictly_sorted_def by (rule strict_sorted_list_of_set)

lemma strictly_sorted_eq_sorted_list:
  "strictly_sorted xs \<Longrightarrow> set xs = A \<Longrightarrow> xs = sorted_list_of_set A"
  by (rule strictly_sorted_unique) (auto intro: strictly_sorted_sorted_list)

lemma strictly_sorted_map:
  "strictly_sorted xs \<Longrightarrow> (\<And>x y. x < y \<Longrightarrow> f x < f y) \<Longrightarrow> strictly_sorted (map f xs)"
  by (induction xs) auto

lemma strictly_sorted_filter: "strictly_sorted xs \<Longrightarrow> strictly_sorted (filter P xs)"
  by (induction xs) auto

section \<open>Bucket grids\<close>

locale bucket_grid =
  fixes valid :: "'c \<Rightarrow> bool"
    and bounds :: "'c \<Rightarrow> int set"
    and floor_op :: "'c \<Rightarrow> int \<Rightarrow> int res"
    and next_op :: "'c \<Rightarrow> int \<Rightarrow> int res"
  assumes floor_greatest: "valid c \<Longrightarrow> floor_op c t = Inr b \<Longrightarrow>
      b \<in> bounds c \<and> b \<le> t \<and> (\<forall>x\<in>bounds c. x \<le> t \<longrightarrow> x \<le> b)"
    and next_least: "valid c \<Longrightarrow> b \<in> bounds c \<Longrightarrow> next_op c b = Inr e \<Longrightarrow>
      e \<in> bounds c \<and> b < e \<and> (\<forall>x\<in>bounds c. b < x \<longrightarrow> e \<le> x)"
begin

lemma floor_boundary: "valid c \<Longrightarrow> floor_op c t = Inr b \<Longrightarrow> b \<in> bounds c"
  using floor_greatest by blast

lemma floor_le: "valid c \<Longrightarrow> floor_op c t = Inr b \<Longrightarrow> b \<le> t"
  using floor_greatest by blast

lemma floor_ge_boundary: "valid c \<Longrightarrow> floor_op c t = Inr b \<Longrightarrow> x \<in> bounds c \<Longrightarrow> x \<le> t \<Longrightarrow> x \<le> b"
  using floor_greatest by blast

lemma next_boundary: "valid c \<Longrightarrow> b \<in> bounds c \<Longrightarrow> next_op c b = Inr e \<Longrightarrow> e \<in> bounds c"
  using next_least by blast

lemma next_greater: "valid c \<Longrightarrow> b \<in> bounds c \<Longrightarrow> next_op c b = Inr e \<Longrightarrow> b < e"
  using next_least by blast

lemma next_le_boundary:
  "valid c \<Longrightarrow> b \<in> bounds c \<Longrightarrow> next_op c b = Inr e \<Longrightarrow> x \<in> bounds c \<Longrightarrow> b < x \<Longrightarrow> e \<le> x"
  using next_least by blast

lemma floor_of_boundary: "valid c \<Longrightarrow> b \<in> bounds c \<Longrightarrow> floor_op c b = Inr r \<Longrightarrow> r = b"
  using floor_greatest by (meson order_antisym order_refl)

lemma floor_idempotent:
  "valid c \<Longrightarrow> floor_op c t = Inr b \<Longrightarrow> floor_op c b = Inr b' \<Longrightarrow> b' = b"
  using floor_of_boundary floor_boundary by blast

lemma floor_mono:
  "valid c \<Longrightarrow> s \<le> t \<Longrightarrow> floor_op c s = Inr a \<Longrightarrow> floor_op c t = Inr b \<Longrightarrow> a \<le> b"
  by (meson floor_boundary floor_ge_boundary floor_le order_trans)

lemma floor_contains:
  assumes "valid c" "floor_op c t = Inr b" "next_op c b = Inr e"
  shows "b \<le> t \<and> t < e"
  using assms floor_greatest next_least by (meson linorder_not_le)

lemma floor_unique:
  assumes "valid c" "b \<in> bounds c" "next_op c b = Inr e" "b \<le> t" "t < e" "floor_op c t = Inr r"
  shows "r = b"
proof -
  have "b \<le> r" "r \<in> bounds c" "r \<le> t"
    using assms floor_greatest by blast+
  moreover have "\<not> b < r"
    using next_le_boundary[OF assms(1,2,3) \<open>r \<in> bounds c\<close>] \<open>r \<le> t\<close> assms(5) by linarith
  ultimately show ?thesis by simp
qed

lemma same_bucket:
  assumes "valid c" "floor_op c t = Inr b" "next_op c b = Inr e" "floor_op c u = Inr b'"
  shows "b' = b \<longleftrightarrow> b \<le> u \<and> u < e"
  using assms floor_unique floor_boundary floor_contains by metis

lemma no_boundary_between:
  "valid c \<Longrightarrow> b \<in> bounds c \<Longrightarrow> next_op c b = Inr e \<Longrightarrow> x \<in> bounds c \<Longrightarrow> \<not> (b < x \<and> x < e)"
  using next_le_boundary by force

lemma walk_bounds:
  assumes "valid c" "b \<in> bounds c" "walk (next_op c) b stop = Inr xs"
  shows "set xs = {x \<in> bounds c. b \<le> x \<and> x < stop} \<and> strictly_sorted xs"
  using assms(2,3)
proof (induction "next_op c" b stop arbitrary: xs rule: walk.induct)
  case (1 cur stop)
  show ?case
  proof (cases "cur < stop")
    case False
    then show ?thesis using "1.prems" by auto
  next
    case True
    then obtain n where n: "next_op c cur = Inr n"
      using "1.prems"(2) by (cases "next_op c cur") (auto simp: walk.simps)
    have gt: "cur < n" and nb: "n \<in> bounds c"
      using next_greater[OF assms(1) "1.prems"(1) n] next_boundary[OF assms(1) "1.prems"(1) n] by auto
    obtain ys where ys: "walk (next_op c) n stop = Inr ys" and xs: "xs = cur # ys"
      using "1.prems"(2) True n gt
      by (cases "walk (next_op c) n stop") (auto simp: walk.simps[of _ cur])
    have IH: "set ys = {x \<in> bounds c. n \<le> x \<and> x < stop} \<and> strictly_sorted ys"
      using "1.hyps"[OF True n _ nb ys] gt by simp
    have "{x \<in> bounds c. cur \<le> x \<and> x < stop} = insert cur {x \<in> bounds c. n \<le> x \<and> x < stop}"
      using gt True "1.prems"(1) next_le_boundary[OF assms(1) "1.prems"(1) n] by force
    then show ?thesis using IH xs gt by auto
  qed
qed

lemma walk_unique:
  assumes "valid c" "b \<in> bounds c" "walk (next_op c) b stop = Inr xs"
  shows "xs = sorted_list_of_set {x \<in> bounds c. b \<le> x \<and> x < stop}"
  using walk_bounds[OF assms] strictly_sorted_eq_sorted_list by blast

end

text \<open>A grid whose configuration can also step back.\<close>

locale bucket_grid_prev = bucket_grid +
  fixes prev_op :: "'c \<Rightarrow> int \<Rightarrow> int res"
  assumes prev_greatest: "valid c \<Longrightarrow> b \<in> bounds c \<Longrightarrow> prev_op c b = Inr p \<Longrightarrow>
      p \<in> bounds c \<and> p < b \<and> (\<forall>x\<in>bounds c. x < b \<longrightarrow> x \<le> p)"
begin

lemma prev_next:
  assumes "valid c" "b \<in> bounds c" "prev_op c b = Inr p" "next_op c p = Inr n"
  shows "n = b"
  using assms next_least[of c p n] prev_greatest[of c b p] by (meson linorder_not_le order_antisym)

lemma next_prev:
  assumes "valid c" "b \<in> bounds c" "next_op c b = Inr n" "prev_op c n = Inr p"
  shows "p = b"
  using assms next_least[of c b n] prev_greatest[of c n p] by (meson linorder_not_le order_antisym)

lemma floor_before:
  assumes "valid c" "b \<in> bounds c" "prev_op c b = Inr p" "floor_op c (b - 1) = Inr r"
  shows "r = p"
proof -
  have "p \<in> bounds c" "p < b" and p: "\<forall>x\<in>bounds c. x < b \<longrightarrow> x \<le> p"
    using prev_greatest[OF assms(1,2,3)] by auto
  moreover have "r \<in> bounds c" "r \<le> b - 1" "\<forall>x\<in>bounds c. x \<le> b - 1 \<longrightarrow> x \<le> r"
    using floor_greatest[OF assms(1,4)] by auto
  ultimately have "p \<le> r" "r \<le> p" by simp_all
  then show ?thesis by simp
qed

end

end
