(* ===== verification/IntervalPolicy.thy ===== *)
theory IntervalPolicy
  imports Gregorian Grid
begin

text \<open>
  Interval strings and the bucket grids they denote
  (\<open>backend/app/data_engine/interval_policy.py\<close>): parsing and canonical spelling, the three
  alignment families, flooring and stepping, tiling, the closed-bar edge, and the choice of
  a base interval. The grid laws every later component relies on are the locale
  \<open>bucket_grid\<close>, interpreted here on \<open>floor_ms\<close> and \<open>next_ms\<close>.
\<close>

section \<open>Interval specifications\<close>

datatype interval_alignment = FIXED_EPOCH | WEEKLY_MONDAY | CALENDAR_MONTH

record interval_spec =
  requested :: string
  canonical :: string
  alignment :: interval_alignment
  nominal_ms :: int
  spec_count :: int
  signature :: "interval_alignment \<times> int"

definition WEEK_EPOCH_OFFSET_MS :: int where
  "WEEK_EPOCH_OFFSET_MS = 4 * day_ms"

definition MONTH_ANCHOR_ORDINAL :: int where
  "MONTH_ANCHOR_ORDINAL = 1970 * 12"

definition MAX_INTERVAL_MS :: int where
  "MAX_INTERVAL_MS = 2 ^ 63 - 1"

definition MAX_CALENDAR_MONTH_COUNT :: int where
  "MAX_CALENDAR_MONTH_COUNT = 12000"

definition calendar_month_floor_ms :: "int \<Rightarrow> int \<Rightarrow> int res" where
  "calendar_month_floor_ms timestamp_ms months =
     (if months \<le> 0 then Inl ValueError
      else bindr (dt_month_of_ms timestamp_ms) (\<lambda>ordinal.
        dt_month_start_ms (MONTH_ANCHOR_ORDINAL
          + ((ordinal - MONTH_ANCHOR_ORDINAL) div months) * months)))"

definition shift_calendar_month_open_ms :: "int \<Rightarrow> int \<Rightarrow> int res" where
  "shift_calendar_month_open_ms open_ms months =
     bindr (dt_month_of_ms open_ms) (\<lambda>ordinal. dt_month_start_ms (ordinal + months))"

definition anchor_ms :: "interval_spec \<Rightarrow> int" where
  "anchor_ms sp = (if alignment sp = WEEKLY_MONDAY then WEEK_EPOCH_OFFSET_MS else 0)"

definition floor_ms :: "interval_spec \<Rightarrow> int \<Rightarrow> int res" where
  "floor_ms sp timestamp_ms =
     (if alignment sp = CALENDAR_MONTH then calendar_month_floor_ms timestamp_ms (spec_count sp)
      else bindr (py_floordiv (timestamp_ms - anchor_ms sp) (nominal_ms sp)) (\<lambda>q.
        Inr (q * nominal_ms sp + anchor_ms sp)))"

definition next_ms :: "interval_spec \<Rightarrow> int \<Rightarrow> int res" where
  "next_ms sp open_ms =
     (if alignment sp = CALENDAR_MONTH then shift_calendar_month_open_ms open_ms (spec_count sp)
      else Inr (open_ms + nominal_ms sp))"

definition previous_ms :: "interval_spec \<Rightarrow> int \<Rightarrow> int res" where
  "previous_ms sp open_ms =
     (if alignment sp = CALENDAR_MONTH then shift_calendar_month_open_ms open_ms (- spec_count sp)
      else Inr (open_ms - nominal_ms sp))"

definition is_successor :: "interval_spec \<Rightarrow> int \<Rightarrow> int \<Rightarrow> bool res" where
  "is_successor sp prev cur = bindr (next_ms sp prev) (\<lambda>n. Inr (n = cur))"

subsection \<open>Parsing and canonical spelling\<close>

text \<open>The regular expression \<open>^(\d+)([smhdwM])$\<close>, matched against the whole string.\<close>

definition interval_match :: "string \<Rightarrow> (int \<times> char) option" where
  "interval_match s =
     (if s \<noteq> [] \<and> butlast s \<noteq> [] \<and> list_all is_digit (butlast s) \<and> last s \<in> set ''smhdwM''
      then Some (int (nat_of_dec (butlast s)), last s) else None)"

definition unit_ms :: "char \<Rightarrow> int" where
  "unit_ms u = (if u = CHR ''s'' then 1000 else if u = CHR ''m'' then 60000
     else if u = CHR ''h'' then 3600000 else 86400000)"

fun first_exact_unit :: "(char \<times> int) list \<Rightarrow> int \<Rightarrow> (string \<times> int \<times> int) option" where
  "first_exact_unit [] nominal = None"
| "first_exact_unit ((u, width) # rest) nominal =
     (if nominal mod width = 0
      then Some (dec_of_int (nominal div width) @ [u], nominal div width, nominal)
      else first_exact_unit rest nominal)"

text \<open>\<open>None\<close> is the final \<open>AssertionError\<close>, which no interval reaches (\<open>canonical_fixed_total\<close>).\<close>

definition canonical_fixed_interval :: "int \<Rightarrow> char \<Rightarrow> (string \<times> int \<times> int) option" where
  "canonical_fixed_interval value unit =
     first_exact_unit
       [(CHR ''d'', 86400000), (CHR ''h'', 3600000), (CHR ''m'', 60000), (CHR ''s'', 1000)]
       (value * unit_ms unit)"

definition parse_interval_spec :: "string \<Rightarrow> interval_spec option" where
  "parse_interval_spec value = (let req = py_strip value in
     case interval_match req of None \<Rightarrow> None
     | Some (raw_count, unit) \<Rightarrow>
       if raw_count \<le> 0 then None
       else if unit \<in> set ''smhd'' then
         (if raw_count > MAX_INTERVAL_MS div unit_ms unit then None
          else case canonical_fixed_interval raw_count unit of None \<Rightarrow> None
            | Some (can, cnt, nominal) \<Rightarrow>
                Some \<lparr>requested = req, canonical = can, alignment = FIXED_EPOCH,
                  nominal_ms = nominal, spec_count = cnt, signature = (FIXED_EPOCH, nominal)\<rparr>)
       else if unit = CHR ''w'' then
         (if raw_count > MAX_INTERVAL_MS div (7 * 86400000) then None
          else Some \<lparr>requested = req, canonical = dec_of_int raw_count @ ''w'',
                 alignment = WEEKLY_MONDAY, nominal_ms = raw_count * 7 * 86400000,
                 spec_count = raw_count, signature = (WEEKLY_MONDAY, raw_count)\<rparr>)
       else
         (if raw_count > MAX_CALENDAR_MONTH_COUNT then None
          else Some \<lparr>requested = req, canonical = dec_of_int raw_count @ ''M'',
                 alignment = CALENDAR_MONTH, nominal_ms = raw_count * 30 * 86400000,
                 spec_count = raw_count, signature = (CALENDAR_MONTH, raw_count)\<rparr>))"

definition intervals_equivalent :: "string \<Rightarrow> string \<Rightarrow> bool" where
  "intervals_equivalent left right =
     (case (parse_interval_spec left, parse_interval_spec right) of
        (Some l, Some r) \<Rightarrow> signature l = signature r
      | _ \<Rightarrow> False)"

definition interval_tiles :: "interval_spec \<Rightarrow> interval_spec \<Rightarrow> bool" where
  "interval_tiles source target =
     (if alignment source \<noteq> alignment target then
        alignment source = FIXED_EPOCH
        \<and> (alignment target = WEEKLY_MONDAY \<or> alignment target = CALENDAR_MONTH)
        \<and> nominal_ms source \<le> 86400000
        \<and> 86400000 mod nominal_ms source = 0
      else if alignment source = CALENDAR_MONTH then spec_count target mod spec_count source = 0
      else nominal_ms target mod nominal_ms source = 0)"

definition parse_custom_interval :: "string \<Rightarrow> int option" where
  "parse_custom_interval iv = map_option (\<lambda>sp. nominal_ms sp div 1000) (parse_interval_spec iv)"

definition parse_interval_ms :: "string \<Rightarrow> int option" where
  "parse_interval_ms iv = map_option nominal_ms (parse_interval_spec iv)"

definition INTERVAL_SECONDS :: "(string \<times> int) list" where
  "INTERVAL_SECONDS =
     [(''1s'', 1), (''1m'', 60), (''3m'', 180), (''5m'', 300), (''15m'', 900), (''30m'', 1800),
      (''1h'', 3600), (''2h'', 7200), (''4h'', 14400), (''6h'', 21600), (''8h'', 28800),
      (''12h'', 43200), (''1d'', 86400), (''3d'', 259200), (''1w'', 604800), (''1M'', 2592000)]"

definition is_standard_interval :: "string \<Rightarrow> bool" where
  "is_standard_interval iv =
     (case parse_interval_spec iv of None \<Rightarrow> False
      | Some sp \<Rightarrow> canonical sp \<in> set (map fst INTERVAL_SECONDS))"

definition is_custom_interval :: "string \<Rightarrow> bool" where
  "is_custom_interval iv = (\<not> is_standard_interval iv)"

definition is_ephemeral_interval :: "string \<Rightarrow> bool" where
  "is_ephemeral_interval iv =
     (case parse_interval_spec iv of None \<Rightarrow> False | Some sp \<Rightarrow> canonical sp \<in> {''1s''})"

definition is_weekly_interval :: "string \<Rightarrow> bool" where
  "is_weekly_interval iv =
     (case parse_interval_spec iv of None \<Rightarrow> False | Some sp \<Rightarrow> alignment sp = WEEKLY_MONDAY)"

definition is_monthly_interval :: "string \<Rightarrow> bool" where
  "is_monthly_interval iv =
     (case parse_interval_spec iv of None \<Rightarrow> False | Some sp \<Rightarrow> alignment sp = CALENDAR_MONTH)"

definition parse_monthly_count :: "string \<Rightarrow> int option" where
  "parse_monthly_count iv =
     (case parse_interval_spec iv of None \<Rightarrow> None
      | Some sp \<Rightarrow> if alignment sp \<noteq> CALENDAR_MONTH then None else Some (spec_count sp))"

definition get_tier_for_interval :: "string \<Rightarrow> string" where
  "get_tier_for_interval iv =
     (case parse_custom_interval iv of None \<Rightarrow> ''minutes''
      | Some seconds \<Rightarrow>
          if seconds < 60 then ''seconds'' else if seconds < 3600 then ''minutes''
          else if seconds < 86400 then ''hours'' else ''daily'')"

subsection \<open>Bucket helpers\<close>

definition compute_bucket_start :: "int \<Rightarrow> int \<Rightarrow> string option \<Rightarrow> int res" where
  "compute_bucket_start ts_seconds width iv =
     (case Option.bind iv parse_interval_spec of
        Some sp \<Rightarrow> bindr (floor_ms sp (ts_seconds * 1000)) (\<lambda>f. Inr (f div 1000))
      | None \<Rightarrow> bindr (py_floordiv ts_seconds width) (\<lambda>q. Inr (q * width)))"

definition compute_bucket_start_ms :: "int \<Rightarrow> int \<Rightarrow> string option \<Rightarrow> int res" where
  "compute_bucket_start_ms ts_ms width iv =
     (case Option.bind iv parse_interval_spec of
        Some sp \<Rightarrow> floor_ms sp ts_ms
      | None \<Rightarrow> bindr (py_floordiv ts_ms width) (\<lambda>q. Inr (q * width)))"

definition compute_bucket_end_ms :: "int \<Rightarrow> int \<Rightarrow> string option \<Rightarrow> int res" where
  "compute_bucket_end_ms bucket_start_ms width iv =
     (case Option.bind iv parse_interval_spec of
        Some sp \<Rightarrow> next_ms sp bucket_start_ms
      | None \<Rightarrow> Inr (bucket_start_ms + width))"

definition compute_bucket_close_ms :: "int \<Rightarrow> int \<Rightarrow> string option \<Rightarrow> int res" where
  "compute_bucket_close_ms bucket_start_ms width iv =
     bindr (compute_bucket_end_ms bucket_start_ms width iv) (\<lambda>e. Inr (e - 1))"

definition last_closed_bar_open_ms :: "int \<Rightarrow> string \<Rightarrow> int option res" where
  "last_closed_bar_open_ms now_ms iv =
     (case parse_interval_ms iv of None \<Rightarrow> Inr None
      | Some width \<Rightarrow>
        if width \<le> 0 then Inr None
        else bindr (compute_bucket_start_ms now_ms width (Some iv)) (\<lambda>current_open_ms.
          if current_open_ms \<le> 0 then Inr None
          else bindr (compute_bucket_start_ms (current_open_ms - 1) width (Some iv))
            (\<lambda>previous_open_ms.
              bindr (compute_bucket_end_ms previous_open_ms width (Some iv)) (\<lambda>end_ms.
                if end_ms > now_ms then Inr None else Inr (Some previous_open_ms)))))"

definition latest_eligible_bar_open_ms :: "int \<Rightarrow> string \<Rightarrow> int option \<Rightarrow> int option res" where
  "latest_eligible_bar_open_ms now_ms iv requested_end_ms =
     bindr (last_closed_bar_open_ms now_ms iv) (\<lambda>last_closed.
       case last_closed of None \<Rightarrow> Inr None
       | Some last_closed_ms \<Rightarrow>
         (case requested_end_ms of None \<Rightarrow> Inr (Some last_closed_ms)
          | Some req \<Rightarrow>
            (case parse_interval_ms iv of None \<Rightarrow> Inr None
             | Some width \<Rightarrow>
               if width \<le> 0 then Inr None
               else bindr (compute_bucket_start_ms req width (Some iv)) (\<lambda>requested_open_ms.
                 Inr (Some (min last_closed_ms requested_open_ms))))))"

section \<open>The grid of a specification\<close>

text \<open>
  What a specification promises: the boundaries of a fixed or weekly specification are an
  arithmetic progression of milliseconds, those of a monthly one are the first instants of
  every \<open>spec_count\<close>-th month counted from January 1970.
\<close>

definition wf_spec :: "interval_spec \<Rightarrow> bool" where
  "wf_spec sp \<longleftrightarrow> 0 < nominal_ms sp \<and> 0 < spec_count sp
     \<and> signature sp = (alignment sp, if alignment sp = FIXED_EPOCH then nominal_ms sp else spec_count sp)
     \<and> (alignment sp = FIXED_EPOCH \<longrightarrow> 1000 dvd nominal_ms sp)
     \<and> (alignment sp = WEEKLY_MONDAY \<longrightarrow> nominal_ms sp = spec_count sp * 7 * day_ms)
     \<and> (alignment sp = CALENDAR_MONTH \<longrightarrow> nominal_ms sp = spec_count sp * 30 * day_ms)"

definition boundary :: "interval_spec \<Rightarrow> int \<Rightarrow> bool" where
  "boundary sp t = (if alignment sp = CALENDAR_MONTH
     then month_start_ms (month_of_ms t) = t \<and> spec_count sp dvd month_of_ms t - MONTH_ANCHOR_ORDINAL
     else nominal_ms sp dvd t - anchor_ms sp)"

abbreviation boundaries :: "interval_spec \<Rightarrow> int set" where
  "boundaries sp \<equiv> {t. boundary sp t}"

lemma wf_specD [simp]:
  "wf_spec sp \<Longrightarrow> 0 < nominal_ms sp" "wf_spec sp \<Longrightarrow> 0 < spec_count sp"
  "wf_spec sp \<Longrightarrow> nominal_ms sp \<noteq> 0" "wf_spec sp \<Longrightarrow> \<not> nominal_ms sp \<le> 0" "wf_spec sp \<Longrightarrow> \<not> spec_count sp \<le> 0"
  by (simp_all add: wf_spec_def)

lemma boundary_month_start:
  "alignment sp = CALENDAR_MONTH \<Longrightarrow>
     boundary sp (month_start_ms n) \<longleftrightarrow> spec_count sp dvd n - MONTH_ANCHOR_ORDINAL"
  by (simp add: boundary_def)

lemma boundary_monthE:
  assumes "boundary sp t" "alignment sp = CALENDAR_MONTH"
  obtains n where "t = month_start_ms n" "spec_count sp dvd n - MONTH_ANCHOR_ORDINAL"
  using assms by (metis boundary_def)

subsection \<open>Progressions\<close>

lemma progression_floor_le:
  fixes w :: int
  assumes "0 < w"
  shows "(t - a) div w * w + a \<le> t"
  using div_bounds[OF assms, of "t - a"] by (simp add: mult.commute)

lemma progression_floor_greatest:
  fixes w :: int
  assumes "0 < w" "w dvd x - a" "x \<le> t"
  shows "x \<le> (t - a) div w * w + a"
proof -
  have "(x - a) div w * w = x - a" using assms(2) by simp
  moreover have "(x - a) div w \<le> (t - a) div w" using assms by (simp add: zdiv_mono1)
  ultimately show ?thesis using assms(1) by (metis diff_le_eq mult_right_mono order_less_imp_le)
qed

lemma progression_step:
  fixes w :: int
  assumes "0 < w" "w dvd b - a" "w dvd x - a" "b < x"
  shows "b + w \<le> x"
proof -
  have "w dvd x - b" using assms(2,3) by (metis dvd_diff diff_diff_eq2 diff_add_cancel)
  then have "w \<le> x - b" using assms(4) by (intro zdvd_imp_le) auto
  then show ?thesis by simp
qed

subsection \<open>The grid laws\<close>

lemma month_floor_Inr:
  assumes "alignment sp = CALENDAR_MONTH" "wf_spec sp" "floor_ms sp t = Inr b"
  shows "b = month_start_ms (MONTH_ANCHOR_ORDINAL
    + (month_of_ms t - MONTH_ANCHOR_ORDINAL) div spec_count sp * spec_count sp)"
  using assms
  by (auto simp: floor_ms_def calendar_month_floor_ms_def res_simps
      dest!: dt_month_of_ms_Inr dt_month_start_ms_Inr)

lemma month_shift_Inr:
  "shift_calendar_month_open_ms (month_start_ms n) k = Inr e \<Longrightarrow> e = month_start_ms (n + k)"
  by (auto simp: shift_calendar_month_open_ms_def res_simps
      dest!: dt_month_of_ms_Inr dt_month_start_ms_Inr)

lemma floor_ms_month:
  assumes al: "alignment sp = CALENDAR_MONTH" and wf: "wf_spec sp" and fl: "floor_ms sp t = Inr b"
  shows "boundary sp b \<and> b \<le> t \<and> (\<forall>x\<in>boundaries sp. x \<le> t \<longrightarrow> x \<le> b)"
proof (intro conjI ballI impI)
  note b = month_floor_Inr[OF al wf fl]
  show "boundary sp b" unfolding b using al by (simp add: boundary_month_start)
  show "b \<le> t" unfolding b month_start_le_ms_iff
    using progression_floor_le[of "spec_count sp" "month_of_ms t" MONTH_ANCHOR_ORDINAL] wf
    by (simp add: add.commute)
  fix x assume "x \<in> boundaries sp" and le: "x \<le> t"
  then obtain n where x: "x = month_start_ms n" and dv: "spec_count sp dvd n - MONTH_ANCHOR_ORDINAL"
    using al boundary_monthE by blast
  show "x \<le> b" unfolding b x
    using progression_floor_greatest[OF _ dv] wf le[unfolded x month_start_le_ms_iff] by (simp add: add.commute)
qed

lemma floor_ms_greatest:
  assumes "wf_spec sp" "floor_ms sp t = Inr b"
  shows "b \<in> boundaries sp \<and> b \<le> t \<and> (\<forall>x\<in>boundaries sp. x \<le> t \<longrightarrow> x \<le> b)"
proof (cases "alignment sp = CALENDAR_MONTH")
  case True
  then show ?thesis using floor_ms_month assms by simp
next
  case False
  then have b: "b = (t - anchor_ms sp) div nominal_ms sp * nominal_ms sp + anchor_ms sp"
    using assms by (auto simp: floor_ms_def res_simps)
  show ?thesis using False assms(1) unfolding b
    by (auto simp: boundary_def progression_floor_le progression_floor_greatest)
qed

lemma next_ms_least:
  assumes wf: "wf_spec sp" and b: "b \<in> boundaries sp" and nx: "next_ms sp b = Inr e"
  shows "e \<in> boundaries sp \<and> b < e \<and> (\<forall>x\<in>boundaries sp. b < x \<longrightarrow> e \<le> x)"
proof (cases "alignment sp = CALENDAR_MONTH")
  case True
  obtain n where n: "b = month_start_ms n" "spec_count sp dvd n - MONTH_ANCHOR_ORDINAL"
    using b True boundary_monthE by blast
  have e: "e = month_start_ms (n + spec_count sp)"
    using nx True n(1) month_shift_Inr by (simp add: next_ms_def)
  have "spec_count sp dvd n + spec_count sp - MONTH_ANCHOR_ORDINAL"
    using n(2) by (simp add: add_diff_eq[symmetric] add.commute[of n])
  moreover have "e \<le> x" if "x \<in> boundaries sp" "b < x" for x
  proof -
    obtain k where k: "x = month_start_ms k" "spec_count sp dvd k - MONTH_ANCHOR_ORDINAL"
      using \<open>x \<in> boundaries sp\<close> True boundary_monthE by blast
    show ?thesis using progression_step[OF _ n(2) k(2)] wf \<open>b < x\<close> by (simp add: e k n)
  qed
  ultimately show ?thesis using wf True by (auto simp: e n boundary_month_start)
next
  case False
  then have e: "e = b + nominal_ms sp" using nx by (simp add: next_ms_def)
  have "nominal_ms sp dvd b - anchor_ms sp" using b False by (simp add: boundary_def)
  then show ?thesis using False wf progression_step[of "nominal_ms sp" b "anchor_ms sp"]
    by (auto simp: e boundary_def add_diff_eq[symmetric] add.commute[of b])
qed

lemma previous_ms_greatest:
  assumes wf: "wf_spec sp" and b: "b \<in> boundaries sp" and pv: "previous_ms sp b = Inr p"
  shows "p \<in> boundaries sp \<and> p < b \<and> (\<forall>x\<in>boundaries sp. x < b \<longrightarrow> x \<le> p)"
proof (cases "alignment sp = CALENDAR_MONTH")
  case True
  obtain n where n: "b = month_start_ms n" "spec_count sp dvd n - MONTH_ANCHOR_ORDINAL"
    using b True boundary_monthE by blast
  have p: "p = month_start_ms (n - spec_count sp)"
    using pv True n(1) month_shift_Inr[of n "- spec_count sp"] by (simp add: previous_ms_def)
  have dp: "spec_count sp dvd n - spec_count sp - MONTH_ANCHOR_ORDINAL"
    using n(2) by (simp add: diff_right_commute[of n] dvd_diff)
  moreover have "x \<le> p" if "x \<in> boundaries sp" "x < b" for x
  proof -
    obtain k where k: "x = month_start_ms k" "spec_count sp dvd k - MONTH_ANCHOR_ORDINAL"
      using \<open>x \<in> boundaries sp\<close> True boundary_monthE by blast
    show ?thesis using progression_step[OF _ k(2) n(2)] wf \<open>x < b\<close> by (simp add: p k n)
  qed
  ultimately show ?thesis using wf True by (auto simp: p n boundary_month_start)
next
  case False
  then have p: "p = b - nominal_ms sp" using pv by (simp add: previous_ms_def)
  have db: "nominal_ms sp dvd b - anchor_ms sp" using b False by (simp add: boundary_def)
  then have "nominal_ms sp dvd b - nominal_ms sp - anchor_ms sp"
    by (simp add: diff_right_commute[of b] dvd_diff)
  then show ?thesis using False wf progression_step[OF _ _ db]
    by (fastforce simp: p boundary_def)
qed

interpretation sg: bucket_grid_prev wf_spec boundaries floor_ms next_ms previous_ms
  by unfold_locales (fact floor_ms_greatest next_ms_least previous_ms_greatest)+

section \<open>Parsing\<close>

lemma first_exact_unit_Some:
  "first_exact_unit us n = Some (can, cnt, nom) \<Longrightarrow>
     nom = n \<and> (\<exists>p\<in>set us. n mod snd p = 0 \<and> can = dec_of_int (n div snd p) @ [fst p]
       \<and> cnt = n div snd p)"
  by (induction us n rule: first_exact_unit.induct) (auto split: if_splits)

lemma unit_ms_pos [simp]: "0 < unit_ms u"
  by (simp add: unit_ms_def)

lemma unit_ms_second: "1000 dvd unit_ms u"
  by (simp add: unit_ms_def)

lemma canonical_fixed_Some:
  assumes "canonical_fixed_interval v unit = Some (can, cnt, nom)"
  shows "nom = v * unit_ms unit \<and> (\<exists>u\<in>set ''smhd''.
     can = dec_of_int cnt @ [u] \<and> cnt * unit_ms u = nom)"
proof -
  note fe = first_exact_unit_Some[OF assms[unfolded canonical_fixed_interval_def]]
  have nom: "nom = v * unit_ms unit" using fe by (rule conjunct1)
  obtain p where mem: "p \<in> set [(CHR ''d'', 86400000), (CHR ''h'', 3600000),
      (CHR ''m'', 60000), (CHR ''s'', 1000)]" and md: "nom mod snd p = 0"
    and can: "can = dec_of_int cnt @ [fst p]" "cnt = nom div snd p"
    using conjunct2[OF fe] unfolding nom by (elim bexE conjE) simp
  have "snd p = unit_ms (fst p)" "fst p \<in> set ''smhd''" using mem by (auto simp: unit_ms_def)
  then show ?thesis using nom can md by (metis dvd_div_mult_self mod_0_imp_dvd)
qed

lemma canonical_fixed_total: "canonical_fixed_interval v unit \<noteq> None"
proof -
  have "v * unit_ms unit mod 1000 = 0" using unit_ms_second dvd_mult by auto
  then show ?thesis by (simp add: canonical_fixed_interval_def)
qed

lemma dec_of_int_nonneg: "0 \<le> n \<Longrightarrow> dec_of_int n = dec_of_nat (nat n)"
  by (simp add: dec_of_int_def)

lemma unit_not_space: "u \<in> set ''smhdwM'' \<Longrightarrow> \<not> py_isspace u"
  by (auto simp: py_isspace_def)

lemma strip_numeral_unit: "u \<in> set ''smhdwM'' \<Longrightarrow> py_strip (dec_of_nat n @ [u]) = dec_of_nat n @ [u]"
  using dec_of_nat_digits[of n]
  by (intro py_strip_id) (auto simp: unit_not_space list_all_iff intro!: is_digit_not_space)

lemma interval_match_numeral:
  "u \<in> set ''smhdwM'' \<Longrightarrow> interval_match (dec_of_nat n @ [u]) = Some (int n, u)"
  using dec_of_nat_digits[of n] by (auto simp: interval_match_def)

lemma interval_match_SomeD: "interval_match s = Some (n, u) \<Longrightarrow> u \<in> set ''smhdwM'' \<and> 0 \<le> n"
  by (auto simp: interval_match_def split: if_splits)

lemma fits_div:
  assumes "0 < (w::int)"
  shows "n \<le> m div w \<longleftrightarrow> n * w \<le> m"
proof
  show "n * w \<le> m" if "n \<le> m div w"
  proof -
    have "n * w \<le> m div w * w" using that assms by (intro mult_right_mono) auto
    also have "\<dots> \<le> m" using div_bounds[OF assms, of m] by (simp add: mult.commute)
    finally show ?thesis .
  qed
  show "n \<le> m div w" if "n * w \<le> m"
    using zdiv_mono1[OF that assms] assms by simp
qed

text \<open>The three shapes of a successful parse.\<close>

lemma parse_interval_spec_cases:
  assumes "parse_interval_spec v = Some sp"
  obtains (fixed) u where "alignment sp = FIXED_EPOCH" "u \<in> set ''smhd''"
      "canonical sp = dec_of_int (spec_count sp) @ [u]" "nominal_ms sp = spec_count sp * unit_ms u"
      "signature sp = (FIXED_EPOCH, nominal_ms sp)" "nominal_ms sp \<le> MAX_INTERVAL_MS"
      "0 < spec_count sp" "canonical_fixed_interval (spec_count sp) u
         = Some (canonical sp, spec_count sp, nominal_ms sp)"
  | (weekly) "alignment sp = WEEKLY_MONDAY" "canonical sp = dec_of_int (spec_count sp) @ ''w''"
      "nominal_ms sp = spec_count sp * 7 * day_ms" "0 < spec_count sp"
      "signature sp = (WEEKLY_MONDAY, spec_count sp)" "spec_count sp \<le> MAX_INTERVAL_MS div (7 * day_ms)"
  | (monthly) "alignment sp = CALENDAR_MONTH" "canonical sp = dec_of_int (spec_count sp) @ ''M''"
      "nominal_ms sp = spec_count sp * 30 * day_ms" "0 < spec_count sp"
      "signature sp = (CALENDAR_MONTH, spec_count sp)" "spec_count sp \<le> MAX_CALENDAR_MONTH_COUNT"
proof -
  obtain n unit where m: "interval_match (py_strip v) = Some (n, unit)" and n: "0 < n"
    using assms by (auto simp: parse_interval_spec_def Let_def split: option.splits if_splits)
  consider (f) "unit \<in> set ''smhd''" | (w) "unit = CHR ''w''" | (mo) "unit = CHR ''M''"
    using interval_match_SomeD[OF m] by auto
  then show thesis
  proof cases
    case f
    then have le: "n \<le> MAX_INTERVAL_MS div unit_ms unit"
      using assms m n by (auto simp: parse_interval_spec_def Let_def split: if_splits)
    obtain can cnt nom where c: "canonical_fixed_interval n unit = Some (can, cnt, nom)"
      using canonical_fixed_total[of n unit] by (cases "canonical_fixed_interval n unit") auto
    have sp: "sp = \<lparr>requested = py_strip v, canonical = can, alignment = FIXED_EPOCH,
        nominal_ms = nom, spec_count = cnt, signature = (FIXED_EPOCH, nom)\<rparr>"
      using assms m n f le c by (auto simp: parse_interval_spec_def Let_def)
    obtain u where u: "nom = n * unit_ms unit" "u \<in> set ''smhd''" "can = dec_of_int cnt @ [u]"
        "cnt * unit_ms u = nom"
      using canonical_fixed_Some[OF c] by blast
    have "0 < cnt * unit_ms u" using u(1,4) n by simp
    then have "0 < cnt" using unit_ms_pos[of u] by (simp add: zero_less_mult_iff)
    moreover have "nom \<le> MAX_INTERVAL_MS" using le u(1) by (simp add: fits_div)
    moreover have "canonical_fixed_interval cnt u = Some (can, cnt, nom)"
      using c u(1,4) by (simp add: canonical_fixed_interval_def)
    ultimately show thesis using u by (intro fixed[of u]) (simp_all add: sp)
  next
    case w
    then show thesis using assms m n
      by (intro weekly) (auto simp: parse_interval_spec_def Let_def split: if_splits)
  next
    case mo
    then show thesis using assms m n
      by (intro monthly) (auto simp: parse_interval_spec_def Let_def split: if_splits)
  qed
qed

lemma thousand_dvd_unit: "1000 dvd n * unit_ms u"
  by (rule dvd_mult[OF unit_ms_second])

lemma parse_wf_spec:
  assumes "parse_interval_spec v = Some sp"
  shows "wf_spec sp"
  using assms
proof (cases rule: parse_interval_spec_cases)
  case (fixed u)
  have pos: "0 < spec_count sp * unit_ms u" by (rule mult_pos_pos[OF fixed(7) unit_ms_pos])
  show ?thesis using fixed(1,5,7) pos thousand_dvd_unit[of "spec_count sp" u]
    unfolding wf_spec_def fixed(4) by (simp only: interval_alignment.distinct if_True simp_thms)
next
  case weekly
  show ?thesis using weekly(1,3,4,5) by (simp add: wf_spec_def del: wf_specD)
next
  case monthly
  show ?thesis using monthly(1,3,4,5) by (simp add: wf_spec_def del: wf_specD)
qed

section \<open>Properties of interval strings\<close>

text \<open>C14: Every interval string that parses puts each instant in exactly one bucket: the
  floor of \<open>t\<close> is a boundary at or before \<open>t\<close>, the step from it ends strictly after \<open>t\<close>, and
  another instant has the same floor exactly when it lies in that half-open bucket. This
  holds for fixed, Monday-aligned and calendar-month intervals alike.\<close>

theorem parse_bucket_partition:
  assumes "parse_interval_spec iv = Some sp" and "floor_ms sp t = Inr b" and "next_ms sp b = Inr e"
    and "floor_ms sp u = Inr b'"
  shows "boundary sp b \<and> b \<le> t \<and> t < e \<and> (b' = b \<longleftrightarrow> b \<le> u \<and> u < e)"
  using sg.floor_contains sg.same_bucket sg.floor_boundary parse_wf_spec assms by blast

lemma canonical_parses:
  assumes "parse_interval_spec v = Some sp"
  shows "parse_interval_spec (canonical sp) = Some (sp\<lparr>requested := canonical sp\<rparr>)"
  using assms
proof (cases rule: parse_interval_spec_cases)
  case (fixed u)
  have u: "u \<in> set ''smhdwM''" using fixed(2) by auto
  have can: "canonical sp = dec_of_nat (nat (spec_count sp)) @ [u]"
    using fixed(3,7) by (simp add: dec_of_int_nonneg)
  have "spec_count sp \<le> MAX_INTERVAL_MS div unit_ms u"
    using fixed(6)[unfolded fixed(4)] by (simp add: fits_div)
  then show ?thesis using fixed(1,2,5,7,8)
    by (simp add: parse_interval_spec_def Let_def can strip_numeral_unit[OF u] interval_match_numeral[OF u]
        interval_spec.equality)
next
  case weekly
  have can: "canonical sp = dec_of_nat (nat (spec_count sp)) @ ''w''"
    using weekly(2,4) by (simp add: dec_of_int_nonneg)
  then show ?thesis using weekly
    by (simp add: parse_interval_spec_def Let_def strip_numeral_unit interval_match_numeral
        dec_of_int_nonneg interval_spec.equality)
next
  case monthly
  have can: "canonical sp = dec_of_nat (nat (spec_count sp)) @ ''M''"
    using monthly(2,4) by (simp add: dec_of_int_nonneg)
  then show ?thesis using monthly
    by (simp add: parse_interval_spec_def Let_def strip_numeral_unit interval_match_numeral
        dec_of_int_nonneg interval_spec.equality)
qed

text \<open>Canonical spellings are fixed points of the parser: parsing the canonical spelling
  of a parsed interval gives the same alignment, width, count, signature and canonical
  spelling.\<close>

lemma parse_canonical:
  assumes "parse_interval_spec v = Some sp"
  shows "parse_interval_spec (canonical sp) = Some (sp\<lparr>requested := canonical sp\<rparr>)"
  by (rule canonical_parses[OF assms])

lemma boundary_signature:
  assumes "wf_spec a" "wf_spec b" "signature a = signature b"
  shows "boundary a t \<longleftrightarrow> boundary b t"
proof -
  have al: "alignment a = alignment b"
    and sg: "alignment b = FIXED_EPOCH \<Longrightarrow> nominal_ms a = nominal_ms b"
      "alignment b \<noteq> FIXED_EPOCH \<Longrightarrow> spec_count a = spec_count b"
    using assms by (auto simp: wf_spec_def simp del: wf_specD)
  then show ?thesis using assms(1,2)
    by (cases "alignment b") (simp_all add: wf_spec_def boundary_def anchor_ms_def del: wf_specD)
qed

lemma floor_ms_signature:
  assumes "wf_spec a" "wf_spec b" "signature a = signature b"
  shows "floor_ms a t = floor_ms b t \<and> next_ms a t = next_ms b t \<and> previous_ms a t = previous_ms b t"
proof -
  have al: "alignment a = alignment b"
    and sg: "alignment b = FIXED_EPOCH \<Longrightarrow> nominal_ms a = nominal_ms b"
      "alignment b \<noteq> FIXED_EPOCH \<Longrightarrow> spec_count a = spec_count b \<and> nominal_ms a = nominal_ms b"
    using assms by (cases "alignment b"; auto simp: wf_spec_def simp del: wf_specD)+
  then show ?thesis
    by (cases "alignment b")
      (simp_all add: floor_ms_def next_ms_def previous_ms_def anchor_ms_def)
qed

text \<open>Two interval strings the code calls equivalent have the same floor, step and
  backward step at every instant, errors included, so one may stand for the other in a
  request (\<open>60m\<close> for \<open>1h\<close>, but never \<open>7d\<close> for \<open>1w\<close>).\<close>

lemma intervals_equivalent_same_grid:
  assumes "intervals_equivalent left right"
  shows "\<exists>a b. parse_interval_spec left = Some a \<and> parse_interval_spec right = Some b
    \<and> (\<forall>t. floor_ms a t = floor_ms b t \<and> next_ms a t = next_ms b t \<and> previous_ms a t = previous_ms b t)"
  using assms floor_ms_signature parse_wf_spec
  by (auto simp: intervals_equivalent_def split: option.splits)

lemma tiles_progression:
  fixes s :: int
  assumes "s dvd w" "s dvd a - a'" "w dvd t - a"
  shows "s dvd t - a'"
proof -
  have "s dvd (t - a) + (a - a')" using assms by (blast intro: dvd_add dvd_trans)
  then show ?thesis by simp
qed

lemma tiles_day:
  assumes "alignment source = FIXED_EPOCH" "day_ms mod nominal_ms source = 0"
    "wf_spec target" "alignment target \<noteq> FIXED_EPOCH" "boundary target t"
  shows "boundary source t"
proof -
  have day: "nominal_ms source dvd day_ms" using assms(2) by auto
  have "day_ms dvd t"
  proof (cases "alignment target = CALENDAR_MONTH")
    case True
    then show ?thesis using assms(5) day_dvd_month_start by (metis boundary_monthE)
  next
    case False
    then have wk: "alignment target = WEEKLY_MONDAY" using assms(4) by (cases "alignment target") auto
    then have "nominal_ms target = spec_count target * 7 * day_ms"
      using assms(3) by (simp add: wf_spec_def del: wf_specD)
    then have "day_ms dvd nominal_ms target" by simp
    moreover have "nominal_ms target dvd t - 4 * day_ms"
      using assms(5) wk by (simp add: boundary_def anchor_ms_def WEEK_EPOCH_OFFSET_MS_def)
    ultimately show ?thesis
      using tiles_progression[of day_ms "nominal_ms target" "4 * day_ms" 0 t] by simp
  qed
  then have "nominal_ms source dvd t" using day dvd_trans by blast
  then show ?thesis using assms(1) by (simp add: boundary_def anchor_ms_def)
qed

lemma tiles_boundaries:
  assumes "wf_spec source" "wf_spec target" "interval_tiles source target"
  shows "boundaries target \<subseteq> boundaries source"
proof
  fix t assume t: "t \<in> boundaries target"
  show "t \<in> boundaries source"
  proof (cases "alignment source = alignment target")
    case True
    have an: "anchor_ms source = anchor_ms target" using True by (simp add: anchor_ms_def)
    show ?thesis using t assms(3) True an
      by (auto simp: interval_tiles_def boundary_def mod_eq_0_iff_dvd
          intro: tiles_progression dvd_trans split: if_splits)
  next
    case False
    then show ?thesis using t assms tiles_day by (auto simp: interval_tiles_def)
  qed
qed

text \<open>Tiling is sound: when the code says that source bars tile a target interval, every
  target boundary is a source boundary, so no source bar straddles two target bars. The
  mixed case (fixed bars up to a day into weeks and calendar months) is included.\<close>

lemma interval_tiles_sound:
  assumes "wf_spec source" "wf_spec target" "interval_tiles source target"
  shows "boundaries target \<subseteq> boundaries source"
  by (rule tiles_boundaries[OF assms])

text \<open>The tiling test is conservative for multi-day bars: \<open>2d\<close> bars do tile the
  Monday-aligned \<open>2w\<close> interval (every \<open>2w\<close> boundary is a \<open>2d\<close> boundary), and the code answers
  that they do not.\<close>

lemma interval_tiles_rejects_2d_2w:
  "\<exists>s t. parse_interval_spec ''2d'' = Some s \<and> parse_interval_spec ''2w'' = Some t
     \<and> boundaries t \<subseteq> boundaries s \<and> \<not> interval_tiles s t"
proof (intro exI conjI)
  show "parse_interval_spec ''2d'' = Some \<lparr>requested = ''2d'', canonical = ''2d'',
      alignment = FIXED_EPOCH, nominal_ms = 172800000, spec_count = 2,
      signature = (FIXED_EPOCH, 172800000)\<rparr>" by code_simp
  show "parse_interval_spec ''2w'' = Some \<lparr>requested = ''2w'', canonical = ''2w'',
      alignment = WEEKLY_MONDAY, nominal_ms = 1209600000, spec_count = 2,
      signature = (WEEKLY_MONDAY, 2)\<rparr>" by code_simp
qed (auto simp: boundary_def anchor_ms_def WEEK_EPOCH_OFFSET_MS_def interval_tiles_def
    intro: tiles_progression[of 172800000 1209600000 345600000 0, simplified])

section \<open>The closed-bar edge\<close>

lemma compute_bucket_start_ms_spec:
  "parse_interval_spec iv = Some sp \<Longrightarrow> compute_bucket_start_ms t w (Some iv) = floor_ms sp t"
  by (simp add: compute_bucket_start_ms_def)

lemma compute_bucket_end_ms_spec:
  "parse_interval_spec iv = Some sp \<Longrightarrow> compute_bucket_end_ms t w (Some iv) = next_ms sp t"
  by (simp add: compute_bucket_end_ms_def)

lemma bucket_before:
  assumes wf: "wf_spec sp" and cur: "cur \<in> boundaries sp" and p: "floor_ms sp (cur - 1) = Inr p"
    and e: "next_ms sp p = Inr e"
  shows "e = cur"
proof -
  have pb: "p \<in> boundaries sp" "p < cur" using sg.floor_greatest[OF wf p] by auto
  then have "e \<le> cur" using sg.next_le_boundary[OF wf _ e cur] by simp
  moreover have "\<not> e < cur"
    using sg.floor_ge_boundary[OF wf p] sg.next_boundary[OF wf pb(1) e] sg.next_greater[OF wf pb(1) e]
    by force
  ultimately show ?thesis by simp
qed

text \<open>C35: The closed-bar edge is exact: when it returns an open, that bar ends precisely where
  the forming bucket containing \<open>now\<close> starts, it is a boundary, and no later boundary has a
  bar that is already over; it returns nothing only for an interval that does not parse or
  when the forming bucket opens at or before the epoch.\<close>

theorem last_closed_bar_exact:
  assumes "parse_interval_spec iv = Some sp" and "last_closed_bar_open_ms now iv = Inr r"
  shows "\<exists>cur. floor_ms sp now = Inr cur \<and> (case r of None \<Rightarrow> cur \<le> 0
    | Some p \<Rightarrow> boundary sp p \<and> next_ms sp p = Inr cur \<and> cur \<le> now
        \<and> (\<forall>x e. boundary sp x \<and> next_ms sp x = Inr e \<and> e \<le> now \<longrightarrow> x \<le> p))"
proof -
  have wf: "wf_spec sp" using parse_wf_spec assms(1) by blast
  note lc = assms(2)[unfolded last_closed_bar_open_ms_def parse_interval_ms_def assms(1)
      compute_bucket_start_ms_spec[OF assms(1)] compute_bucket_end_ms_spec[OF assms(1)]]
  then obtain cur where cur: "floor_ms sp now = Inr cur"
    using wf by (auto simp: res_simps)
  have curb: "cur \<in> boundaries sp" and "cur \<le> now"
    using sg.floor_boundary[OF wf cur] sg.floor_le[OF wf cur] by auto
  show ?thesis
  proof (cases "cur \<le> 0")
    case True
    then show ?thesis using lc cur wf by auto
  next
    case False
    then obtain p e where p: "floor_ms sp (cur - 1) = Inr p" and e: "next_ms sp p = Inr e"
      and r: "r = (if e > now then None else Some p)"
      using lc cur wf by (auto simp: res_simps split: if_splits)
    have "e = cur" using bucket_before[OF wf curb p e] .
    moreover have "x \<le> p" if "boundary sp x" "next_ms sp x = Inr e'" "e' \<le> now" for x e'
    proof -
      have "e' \<in> boundaries sp" "x < e'"
        using sg.next_least[OF wf _ that(2)] that(1) by auto
      then have "x < cur" using sg.floor_ge_boundary[OF wf cur _ that(3)] by force
      then show ?thesis using sg.floor_ge_boundary[OF wf p, of x] that(1) by simp
    qed
    ultimately show ?thesis
      using r cur e sg.floor_boundary[OF wf p] \<open>cur \<le> now\<close> by auto
  qed
qed

section \<open>Witnesses\<close>

definition spec_2M :: interval_spec where
  "spec_2M = \<lparr>requested = ''2M'', canonical = ''2M'', alignment = CALENDAR_MONTH,
     nominal_ms = 5184000000, spec_count = 2, signature = (CALENDAR_MONTH, 2)\<rparr>"

lemma parse_2M: "parse_interval_spec ''2M'' = Some spec_2M"
  by code_simp

lemma spec_2M_floor: "floor_ms spec_2M 1709210096000 = Inr 1704067200000"
  by code_simp

lemma spec_2M_next: "next_ms spec_2M 1704067200000 = Inr 1709251200000"
  by code_simp

theorem parse_bucket_partition_witness:
  "(1704067200000::int) \<le> 1709210096000 \<and> (1709210096000::int) < 1709251200000 \<and>
   parse_interval_spec ''2M'' = Some spec_2M"
  using parse_bucket_partition[OF parse_2M spec_2M_floor spec_2M_next spec_2M_floor] parse_2M by simp

lemma parse_canonical_example:
  "\<exists>sp. parse_interval_spec ''0120m'' = Some sp \<and> canonical sp = ''2h''
     \<and> parse_interval_spec ''2h'' = Some (sp\<lparr>requested := ''2h''\<rparr>)"
proof -
  obtain sp where sp: "parse_interval_spec ''0120m'' = Some sp" "canonical sp = ''2h''"
  proof -
    have "map_option canonical (parse_interval_spec ''0120m'') = Some ''2h''" by code_simp
    then show ?thesis using that by (cases "parse_interval_spec ''0120m''") auto
  qed
  then show ?thesis using parse_canonical[OF sp(1)] by auto
qed

lemma intervals_equivalent_same_grid_example:
  "intervals_equivalent ''60m'' ''1h'' \<and> \<not> intervals_equivalent ''7d'' ''1w''
   \<and> parse_interval_spec ''60m'' \<noteq> None"
proof -
  have "intervals_equivalent ''60m'' ''1h''" "\<not> intervals_equivalent ''7d'' ''1w''" by code_simp+
  then show ?thesis using intervals_equivalent_same_grid[of "''60m''" "''1h''"] by auto
qed

lemma interval_tiles_sound_example:
  "\<exists>s. parse_interval_spec ''12h'' = Some s \<and> boundaries spec_2M \<subseteq> boundaries s"
proof -
  have "parse_interval_spec ''12h'' \<noteq> None"
    "case parse_interval_spec ''12h'' of None \<Rightarrow> False | Some s \<Rightarrow> interval_tiles s spec_2M"
    by code_simp+
  then obtain s where s: "parse_interval_spec ''12h'' = Some s" "interval_tiles s spec_2M" by auto
  then show ?thesis
    using interval_tiles_sound[OF parse_wf_spec[OF s(1)] parse_wf_spec[OF parse_2M]] by auto
qed

theorem last_closed_bar_exact_witness:
  "last_closed_bar_open_ms 1709210096000 ''2M'' = Inr (Some 1698796800000)
   \<and> next_ms spec_2M 1698796800000 = floor_ms spec_2M 1709210096000"
proof -
  have lc: "last_closed_bar_open_ms 1709210096000 ''2M'' = Inr (Some 1698796800000)" by code_simp
  then show ?thesis using last_closed_bar_exact[OF parse_2M lc] by auto
qed

end
