(* ===== verification/TimeBucket.thy ===== *)
theory TimeBucket
  imports IntervalPolicy
begin

text \<open>
  The bucket engine of the bar aggregator
  (\<open>backend/app/data_engine/bar_aggregator/time_bucket.py\<close>): fixed-width buckets from an
  anchor chosen by the alignment mode, or a replaceable calculator. The monthly and weekly
  calculators are the two the repository ships; a calculator supplied by a user is a pair of
  functions, and \<open>calc_ok\<close> states what the engine relies on.
\<close>

section \<open>Engine and calculators\<close>

datatype alignment_mode = EPOCH | MIDNIGHT | MARKET | CUSTOM | NONE

record bucket_calculator =
  calc_bucket :: "int \<Rightarrow> int res"
  calc_range :: "int \<Rightarrow> (int \<times> int) res"

record time_bucket_engine =
  engine_interval_ms :: int
  engine_alignment :: alignment_mode
  engine_epoch_ms :: int
  custom_calculator :: "bucket_calculator option"
  engine_anchor_ms :: int

definition MIDNIGHT_ANCHOR_MS :: int where
  "MIDNIGHT_ANCHOR_MS = 946684800000"

definition resolve_anchor :: "alignment_mode \<Rightarrow> int \<Rightarrow> int" where
  "resolve_anchor mode epoch =
     (case mode of EPOCH \<Rightarrow> 0 | MIDNIGHT \<Rightarrow> MIDNIGHT_ANCHOR_MS | MARKET \<Rightarrow> MIDNIGHT_ANCHOR_MS
      | CUSTOM \<Rightarrow> epoch | NONE \<Rightarrow> 0)"

definition new_engine ::
    "int \<Rightarrow> alignment_mode \<Rightarrow> int \<Rightarrow> bucket_calculator option \<Rightarrow> time_bucket_engine res" where
  "new_engine width mode epoch calc =
     (if width \<le> 0 then Inl ValueError
      else Inr \<lparr>engine_interval_ms = width, engine_alignment = mode, engine_epoch_ms = epoch,
        custom_calculator = calc, engine_anchor_ms = resolve_anchor mode epoch\<rparr>)"

definition engine_compute_bucket :: "time_bucket_engine \<Rightarrow> int \<Rightarrow> int res" where
  "engine_compute_bucket eng open_time_ms =
     (case custom_calculator eng of
        Some calc \<Rightarrow> calc_bucket calc open_time_ms
      | None \<Rightarrow> bindr (py_floordiv (open_time_ms - engine_anchor_ms eng) (engine_interval_ms eng))
          (\<lambda>bucket_index. Inr (engine_anchor_ms eng + bucket_index * engine_interval_ms eng)))"

definition engine_bucket_range :: "time_bucket_engine \<Rightarrow> int \<Rightarrow> (int \<times> int) res" where
  "engine_bucket_range eng b =
     (case custom_calculator eng of
        Some calc \<Rightarrow> calc_range calc b
      | None \<Rightarrow> Inr (b, b + engine_interval_ms eng))"

definition is_in_bucket :: "time_bucket_engine \<Rightarrow> int \<Rightarrow> int \<Rightarrow> bool res" where
  "is_in_bucket eng t b = bindr (engine_bucket_range eng b) (\<lambda>(s, e). Inr (s \<le> t \<and> t < e))"

definition next_bucket :: "time_bucket_engine \<Rightarrow> int \<Rightarrow> int res" where
  "next_bucket eng b =
     (case custom_calculator eng of
        Some calc \<Rightarrow> bindr (calc_range calc b) (\<lambda>(_, e). Inr e)
      | None \<Rightarrow> Inr (b + engine_interval_ms eng))"

definition prev_bucket :: "time_bucket_engine \<Rightarrow> int \<Rightarrow> int res" where
  "prev_bucket eng b =
     (case custom_calculator eng of
        Some _ \<Rightarrow> engine_compute_bucket eng (b - 1)
      | None \<Rightarrow> Inr (b - engine_interval_ms eng))"

text \<open>
  The loop of \<open>buckets_between\<close> has no guard against a calculator that does not advance, so
  it is a partial function: \<open>None\<close> is a call that never returns.
\<close>

partial_function (option) buckets_loop ::
    "time_bucket_engine \<Rightarrow> int \<Rightarrow> int \<Rightarrow> int list res option" where
  "buckets_loop eng current end_ms =
     (if current \<le> end_ms then
        (case next_bucket eng current of
           Inl err \<Rightarrow> Some (Inl err)
         | Inr n \<Rightarrow> Option.bind (buckets_loop eng n end_ms)
             (\<lambda>r. Some (bindr r (\<lambda>result. Inr (current # result)))))
      else Some (Inr []))"

definition buckets_between :: "time_bucket_engine \<Rightarrow> int \<Rightarrow> int \<Rightarrow> int list res option" where
  "buckets_between eng start_ms end_ms =
     (case engine_compute_bucket eng start_ms of
        Inl err \<Rightarrow> Some (Inl err)
      | Inr first_bucket \<Rightarrow> buckets_loop eng first_bucket end_ms)"

definition is_last_component :: "time_bucket_engine \<Rightarrow> int \<Rightarrow> int \<Rightarrow> int \<Rightarrow> bool res" where
  "is_last_component eng input_open_ms input_close_ms b =
     bindr (engine_bucket_range eng b) (\<lambda>(_, bucket_end_ms). Inr (input_close_ms \<ge> bucket_end_ms - 1))"

definition monthly_calculator :: "int \<Rightarrow> bucket_calculator res" where
  "monthly_calculator months =
     (if months \<le> 0 then Inl ValueError
      else case parse_interval_spec (dec_of_int months @ ''M'') of
        None \<Rightarrow> Inl ValueError
      | Some sp \<Rightarrow> Inr \<lparr>calc_bucket = floor_ms sp,
          calc_range = (\<lambda>b. bindr (floor_ms sp b) (\<lambda>s. bindr (next_ms sp s) (\<lambda>e. Inr (s, e))))\<rparr>)"

definition MONDAY_EPOCH_MS :: int where
  "MONDAY_EPOCH_MS = 4 * 86400000"

definition weekly_calculator :: "int \<Rightarrow> bucket_calculator res" where
  "weekly_calculator weeks =
     (if weeks \<le> 0 then Inl ValueError
      else let bucket_ms = weeks * 7 * 86400000 in
        Inr \<lparr>calc_bucket = (\<lambda>t. Inr (MONDAY_EPOCH_MS + (t - MONDAY_EPOCH_MS) div bucket_ms * bucket_ms)),
             calc_range = (\<lambda>b. Inr (b, b + bucket_ms))\<rparr>)"

section \<open>The grid of an engine\<close>

text \<open>
  \<open>calc_ok calc B\<close>: the calculator floors to the set \<open>B\<close> and its range of a boundary ends at
  the next one. \<open>engine_ok eng B\<close>: \<open>B\<close> is the set of bucket starts of the engine.
\<close>

definition calc_ok :: "bucket_calculator \<Rightarrow> int set \<Rightarrow> bool" where
  "calc_ok calc B \<longleftrightarrow>
     (\<forall>t b. calc_bucket calc t = Inr b \<longrightarrow> b \<in> B \<and> b \<le> t \<and> (\<forall>x\<in>B. x \<le> t \<longrightarrow> x \<le> b))
     \<and> (\<forall>b s e. b \<in> B \<longrightarrow> calc_range calc b = Inr (s, e) \<longrightarrow>
          s = b \<and> e \<in> B \<and> b < e \<and> (\<forall>x\<in>B. b < x \<longrightarrow> e \<le> x))"

definition engine_ok :: "time_bucket_engine \<Rightarrow> int set \<Rightarrow> bool" where
  "engine_ok eng B \<longleftrightarrow> 0 < engine_interval_ms eng
     \<and> (case custom_calculator eng of
          None \<Rightarrow> B = {t. engine_interval_ms eng dvd t - engine_anchor_ms eng}
        | Some calc \<Rightarrow> calc_ok calc B)"

lemma calc_okD:
  "calc_ok calc B \<Longrightarrow> calc_bucket calc t = Inr b \<Longrightarrow> b \<in> B \<and> b \<le> t \<and> (\<forall>x\<in>B. x \<le> t \<longrightarrow> x \<le> b)"
  "calc_ok calc B \<Longrightarrow> b \<in> B \<Longrightarrow> calc_range calc b = Inr (s, e) \<Longrightarrow>
     s = b \<and> e \<in> B \<and> b < e \<and> (\<forall>x\<in>B. b < x \<longrightarrow> e \<le> x)"
  unfolding calc_ok_def by blast+

lemma new_engine_ok:
  "new_engine width mode epoch None = Inr eng \<Longrightarrow>
     engine_ok eng {t. width dvd t - resolve_anchor mode epoch}"
  by (auto simp: new_engine_def engine_ok_def split: if_splits)

lemma new_engine_calc_ok:
  "new_engine width mode epoch (Some calc) = Inr eng \<Longrightarrow> calc_ok calc B \<Longrightarrow> engine_ok eng B"
  by (auto simp: new_engine_def engine_ok_def split: if_splits)

lemma engine_floor:
  assumes "engine_ok eng B" "engine_compute_bucket eng t = Inr b"
  shows "b \<in> B \<and> b \<le> t \<and> (\<forall>x\<in>B. x \<le> t \<longrightarrow> x \<le> b)"
proof (cases "custom_calculator eng")
  case None
  then have w: "0 < engine_interval_ms eng" and B: "B = {t. engine_interval_ms eng dvd t - engine_anchor_ms eng}"
    and b: "b = (t - engine_anchor_ms eng) div engine_interval_ms eng * engine_interval_ms eng + engine_anchor_ms eng"
    using assms by (auto simp: engine_ok_def engine_compute_bucket_def res_simps)
  show ?thesis using w by (auto simp: B b progression_floor_le progression_floor_greatest)
next
  case (Some calc)
  then show ?thesis using assms calc_okD(1)[of calc B t b]
    by (simp add: engine_ok_def engine_compute_bucket_def)
qed

lemma engine_next:
  assumes "engine_ok eng B" "b \<in> B" "next_bucket eng b = Inr e"
  shows "e \<in> B \<and> b < e \<and> (\<forall>x\<in>B. b < x \<longrightarrow> e \<le> x)"
proof (cases "custom_calculator eng")
  case None
  then have w: "0 < engine_interval_ms eng" and B: "B = {t. engine_interval_ms eng dvd t - engine_anchor_ms eng}"
    and e: "e = b + engine_interval_ms eng"
    using assms by (auto simp: engine_ok_def next_bucket_def)
  show ?thesis using w assms(2) progression_step[OF w, of b "engine_anchor_ms eng"]
    by (auto simp: B e add_diff_eq[symmetric] add.commute[of b])
next
  case (Some calc)
  then show ?thesis using assms
    by (auto simp: engine_ok_def next_bucket_def res_simps dest: calc_okD(2))
qed

lemma engine_prev:
  assumes "engine_ok eng B" "b \<in> B" "prev_bucket eng b = Inr p"
  shows "p \<in> B \<and> p < b \<and> (\<forall>x\<in>B. x < b \<longrightarrow> x \<le> p)"
proof (cases "custom_calculator eng")
  case None
  then have w: "0 < engine_interval_ms eng" and B: "B = {t. engine_interval_ms eng dvd t - engine_anchor_ms eng}"
    and p: "p = b - engine_interval_ms eng"
    using assms by (auto simp: engine_ok_def prev_bucket_def)
  have "engine_interval_ms eng dvd b - engine_interval_ms eng - engine_anchor_ms eng"
    using assms(2) by (simp add: B diff_right_commute[of b] dvd_diff)
  moreover have "x \<le> p" if "x \<in> B" "x < b" for x
    using progression_step[OF w, of x "engine_anchor_ms eng" b] that assms(2) by (simp add: B p)
  ultimately show ?thesis using w by (simp add: B p)
next
  case (Some calc)
  then have "engine_compute_bucket eng (b - 1) = Inr p" using assms(3) by (simp add: prev_bucket_def)
  then show ?thesis using engine_floor[OF assms(1), of "b - 1" p] by simp
qed

interpretation eg: bucket_grid_prev "\<lambda>(eng, B). engine_ok eng B" snd
    "\<lambda>(eng, B). engine_compute_bucket eng" "\<lambda>(eng, B). next_bucket eng" "\<lambda>(eng, B). prev_bucket eng"
proof unfold_locales
  fix c :: "time_bucket_engine \<times> int set" and t b p
  assume c: "case c of (eng, B) \<Rightarrow> engine_ok eng B"
  show "b \<in> snd c \<and> b \<le> t \<and> (\<forall>x\<in>snd c. x \<le> t \<longrightarrow> x \<le> b)"
    if "(case c of (eng, B) \<Rightarrow> engine_compute_bucket eng) t = Inr b"
    using engine_floor[of "fst c" "snd c" t b] that c by (simp add: case_prod_beta)
  show "p \<in> snd c \<and> b < p \<and> (\<forall>x\<in>snd c. b < x \<longrightarrow> p \<le> x)"
    if "b \<in> snd c" "(case c of (eng, B) \<Rightarrow> next_bucket eng) b = Inr p"
    using engine_next[of "fst c" "snd c" b p] that c by (simp add: case_prod_beta)
  show "p \<in> snd c \<and> p < b \<and> (\<forall>x\<in>snd c. x < b \<longrightarrow> x \<le> p)"
    if "b \<in> snd c" "(case c of (eng, B) \<Rightarrow> prev_bucket eng) b = Inr p"
    using engine_prev[of "fst c" "snd c" b p] that c by (simp add: case_prod_beta)
qed

lemmas engine_walk = eg.walk_unique[of "(eng, B)" for eng B, simplified]

section \<open>The calculators shipped with the engine\<close>

lemma monthly_calculator_ok:
  assumes "monthly_calculator months = Inr calc"
  shows "\<exists>sp. parse_interval_spec (dec_of_int months @ ''M'') = Some sp \<and> calc_ok calc (boundaries sp)"
proof -
  obtain sp where sp: "parse_interval_spec (dec_of_int months @ ''M'') = Some sp"
    and calc: "calc = \<lparr>calc_bucket = floor_ms sp,
      calc_range = (\<lambda>b. bindr (floor_ms sp b) (\<lambda>s. bindr (next_ms sp s) (\<lambda>e. Inr (s, e))))\<rparr>"
    using assms by (auto simp: monthly_calculator_def split: if_splits option.splits)
  have wf: "wf_spec sp" using parse_wf_spec[OF sp] .
  have "calc_ok calc (boundaries sp)"
    unfolding calc_ok_def calc bucket_calculator.simps
  proof (intro conjI allI impI)
    fix b s e assume b: "b \<in> boundaries sp"
      and "bindr (floor_ms sp b) (\<lambda>s. bindr (next_ms sp s) (\<lambda>e. Inr (s, e))) = Inr (s, e)"
    then have s: "floor_ms sp b = Inr s" and e: "next_ms sp s = Inr e" by (auto simp: res_simps)
    show sb: "s = b" using sg.floor_of_boundary[OF wf b s] .
    show "e \<in> boundaries sp" "b < e" "\<forall>x\<in>boundaries sp. b < x \<longrightarrow> e \<le> x"
      using next_ms_least[OF wf b e[unfolded sb]] by auto
  qed (use floor_ms_greatest[OF wf] in blast)+
  then show ?thesis using sp by blast
qed

lemma weekly_calculator_ok:
  assumes "weekly_calculator weeks = Inr calc"
  shows "calc_ok calc {t. weeks * 7 * day_ms dvd t - MONDAY_EPOCH_MS}"
proof -
  define w where "w = weeks * 7 * day_ms"
  have w: "0 < w" using assms by (simp add: weekly_calculator_def w_def split: if_splits)
  have calc: "calc = \<lparr>calc_bucket = (\<lambda>t. Inr (MONDAY_EPOCH_MS + (t - MONDAY_EPOCH_MS) div w * w)),
      calc_range = (\<lambda>b. Inr (b, b + w))\<rparr>"
    using assms by (simp add: weekly_calculator_def w_def Let_def split: if_splits)
  show ?thesis unfolding w_def[symmetric] calc_ok_def calc bucket_calculator.simps
    using w progression_step[OF w, of _ MONDAY_EPOCH_MS]
    by (auto simp: progression_floor_le progression_floor_greatest add.commute[of MONDAY_EPOCH_MS]
        add_diff_eq[symmetric] add.commute[of _ w])
qed

section \<open>Properties\<close>

lemma buckets_loop_walk:
  assumes "engine_ok eng B" "cur \<in> B"
  shows "buckets_loop eng cur stop = Some (walk (next_bucket eng) cur (stop + 1))"
  using assms(2)
proof (induction "nat (stop + 1 - cur)" arbitrary: cur rule: less_induct)
  case less
  show ?case
  proof (cases "cur \<le> stop")
    case False
    then show ?thesis by (simp add: buckets_loop.simps)
  next
    case True
    show ?thesis
    proof (cases "next_bucket eng cur")
      case (Inl e)
      then show ?thesis using True by (simp add: buckets_loop.simps walk.simps)
    next
      case (Inr n)
      then have n: "n \<in> B" "cur < n" using engine_next[OF assms(1) less.prems Inr] by auto
      have IH: "buckets_loop eng n stop = Some (walk (next_bucket eng) n (stop + 1))"
        using less.hyps[of n] True n by simp
      show ?thesis using True Inr n(2) IH
        by (subst buckets_loop.simps, subst walk.simps) simp
    qed
  qed
qed

text \<open>\<open>buckets_between\<close> returns for every engine whose calculator keeps its contract (the
  loop cannot spin), and when calendar arithmetic does not raise it lists, in order and
  without repetition, exactly the bucket starts from the bucket containing \<open>start\<close> up to
  \<open>end\<close> inclusive.\<close>

lemma buckets_between_exact:
  assumes "engine_ok eng B"
  shows "\<exists>r. buckets_between eng start_ms end_ms = Some r \<and>
    (\<forall>xs. r = Inr xs \<longrightarrow> (\<exists>b. engine_compute_bucket eng start_ms = Inr b
       \<and> xs = sorted_list_of_set {x \<in> B. b \<le> x \<and> x \<le> end_ms}))"
proof (cases "engine_compute_bucket eng start_ms")
  case (Inl e)
  then show ?thesis by (simp add: buckets_between_def)
next
  case (Inr b)
  have b: "b \<in> B" using engine_floor[OF assms Inr] by simp
  have "buckets_between eng start_ms end_ms = Some (walk (next_bucket eng) b (end_ms + 1))"
    using Inr buckets_loop_walk[OF assms b] by (simp add: buckets_between_def)
  moreover have "xs = sorted_list_of_set {x \<in> B. b \<le> x \<and> x \<le> end_ms}"
    if "walk (next_bucket eng) b (end_ms + 1) = Inr xs" for xs
    using engine_walk[OF assms b that] by (simp add: zle_add1_eq_le)
  ultimately show ?thesis using Inr by auto
qed

text \<open>The bucket range agrees with bucket membership: for an engine in good order, an
  instant lies in the range of the bucket computed for \<open>t\<close> exactly when the engine computes
  that same bucket for it; \<open>t\<close> itself always does.\<close>

lemma engine_range_membership:
  assumes "engine_ok eng B" and "engine_compute_bucket eng t = Inr b"
    and "is_in_bucket eng u b = Inr inside" and "engine_compute_bucket eng u = Inr b'"
  shows "inside = (b' = b) \<and> is_in_bucket eng t b = Inr True"
proof -
  obtain s e where r: "engine_bucket_range eng b = Inr (s, e)" and i: "inside = (s \<le> u \<and> u < e)"
    using assms(3) by (auto simp: is_in_bucket_def res_simps)
  have b: "b \<in> B" using engine_floor[OF assms(1,2)] by simp
  have "s = b \<and> next_bucket eng b = Inr e"
    using r b assms(1) by (auto simp: engine_bucket_range_def next_bucket_def engine_ok_def
        split: option.splits dest: calc_okD(2))
  then show ?thesis
    using eg.same_bucket[of "(eng, B)" t b e u b'] eg.floor_contains[of "(eng, B)" t b e] assms r i
    by (auto simp: is_in_bucket_def)
qed

text \<open>Stepping forwards and backwards are inverse on bucket starts, in every alignment
  mode and for the calendar calculators.\<close>

lemma engine_prev_next:
  assumes "engine_ok eng B" and "b \<in> B" and "next_bucket eng b = Inr n" and "prev_bucket eng n = Inr p"
  shows "p = b"
  using eg.next_prev[of "(eng, B)" b n p] assms by simp

section \<open>Witnesses\<close>

definition weekly_engine :: time_bucket_engine where
  "weekly_engine = \<lparr>engine_interval_ms = 604800000, engine_alignment = EPOCH, engine_epoch_ms = 0,
     custom_calculator = (case weekly_calculator 1 of Inl _ \<Rightarrow> None | Inr c \<Rightarrow> Some c),
     engine_anchor_ms = 0\<rparr>"

lemma weekly_engine_ok: "engine_ok weekly_engine {t. 604800000 dvd t - 345600000}"
proof -
  obtain c where c: "weekly_calculator 1 = Inr c" by (simp add: weekly_calculator_def Let_def)
  show ?thesis using weekly_calculator_ok[OF c] c
    by (simp add: weekly_engine_def engine_ok_def MONDAY_EPOCH_MS_def)
qed

lemma weekly_engine_floor: "engine_compute_bucket weekly_engine 1709210096000 = Inr 1708905600000"
  by code_simp

lemma buckets_between_exact_example:
  "\<exists>r. buckets_between weekly_engine 1709210096000 1710115200000 = Some r \<and> engine_compute_bucket weekly_engine 1709210096000 = Inr 1708905600000"
  using buckets_between_exact[OF weekly_engine_ok, of 1709210096000 1710115200000] weekly_engine_floor
  by blast

lemma engine_range_membership_example:
  "is_in_bucket weekly_engine 1709510400000 1708905600000 = Inr False
   \<and> is_in_bucket weekly_engine 1709210096000 1708905600000 = Inr True"
proof -
  have "is_in_bucket weekly_engine 1709510400000 1708905600000 = Inr False"
    "engine_compute_bucket weekly_engine 1709510400000 = Inr 1709510400000" by code_simp+
  then show ?thesis using engine_range_membership[OF weekly_engine_ok weekly_engine_floor] by blast
qed

lemma engine_prev_next_example:
  "next_bucket weekly_engine 1708905600000 = Inr 1709510400000
   \<and> prev_bucket weekly_engine 1709510400000 = Inr 1708905600000"
proof -
  have n: "next_bucket weekly_engine 1708905600000 = Inr 1709510400000"
    and p: "prev_bucket weekly_engine 1709510400000 = Inr 1708905600000" by code_simp+
  have "(1708905600000::int) \<in> {t. 604800000 dvd t - 345600000}" by simp
  then show ?thesis using engine_prev_next[OF weekly_engine_ok _ n p] n p by simp
qed

end
