(* ===== verification/HistoryModels.thy ===== *)
theory HistoryModels
  imports Grid
begin

text \<open>
  The typed contracts of historical planning
  (\<open>backend/app/data_engine/history/models.py\<close>): inclusive time ranges with their
  lexicographic order, availability bounds, requests, exclusions and plans. Constructors
  that validate are functions into \<open>res\<close>.
\<close>

section \<open>Time ranges\<close>

datatype time_range = TimeRange (start_ms: int) (end_ms: int)

definition new_time_range :: "int \<Rightarrow> int \<Rightarrow> time_range res" where
  "new_time_range s e = (if e < s then Inl ValueError else Inr (TimeRange s e))"

definition wf_range :: "time_range \<Rightarrow> bool" where
  "wf_range r \<longleftrightarrow> start_ms r \<le> end_ms r"

definition intersection :: "time_range \<Rightarrow> time_range \<Rightarrow> time_range option" where
  "intersection a b = (let s = max (start_ms a) (start_ms b); e = min (end_ms a) (end_ms b) in
     if s \<le> e then Some (TimeRange s e) else None)"

definition contains :: "time_range \<Rightarrow> int \<Rightarrow> bool" where
  "contains r t \<longleftrightarrow> start_ms r \<le> t \<and> t \<le> end_ms r"

text \<open>\<open>@dataclass(order=True)\<close>: the fields are compared in order.\<close>

instantiation time_range :: linorder
begin

definition less_eq_time_range :: "time_range \<Rightarrow> time_range \<Rightarrow> bool" where
  "a \<le> b \<longleftrightarrow> start_ms a < start_ms b \<or> (start_ms a = start_ms b \<and> end_ms a \<le> end_ms b)"

definition less_time_range :: "time_range \<Rightarrow> time_range \<Rightarrow> bool" where
  "a < b \<longleftrightarrow> start_ms a < start_ms b \<or> (start_ms a = start_ms b \<and> end_ms a < end_ms b)"

instance
  by standard (auto simp: less_eq_time_range_def less_time_range_def time_range.expand)

end

text \<open>The instants a range, or a list of ranges, covers.\<close>

definition range_set :: "time_range \<Rightarrow> int set" where
  "range_set r = {start_ms r..end_ms r}"

definition ranges_set :: "time_range list \<Rightarrow> int set" where
  "ranges_set rs = (\<Union>r\<in>set rs. range_set r)"

definition ranges_ordered :: "time_range list \<Rightarrow> bool" where
  "ranges_ordered rs \<longleftrightarrow> sorted_wrt (\<lambda>a b. end_ms a < start_ms b) rs \<and> (\<forall>r\<in>set rs. wf_range r)"

lemma contains_range_set [simp]: "contains r t \<longleftrightarrow> t \<in> range_set r"
  by (auto simp: contains_def range_set_def)

lemma range_set_TimeRange [simp]: "range_set (TimeRange s e) = {s..e}"
  by (simp add: range_set_def)

lemma wf_range_TimeRange [simp]: "wf_range (TimeRange s e) \<longleftrightarrow> s \<le> e"
  by (simp add: wf_range_def)

lemma new_time_range_Inr [simp]: "new_time_range s e = Inr r \<longleftrightarrow> s \<le> e \<and> r = TimeRange s e"
  by (auto simp: new_time_range_def)

lemma ranges_set_simps [simp]:
  "ranges_set [] = {}" "ranges_set (r # rs) = range_set r \<union> ranges_set rs"
  "ranges_set (rs @ qs) = ranges_set rs \<union> ranges_set qs"
  by (auto simp: ranges_set_def)

lemma ranges_ordered_simps [simp]:
  "ranges_ordered []"
  "ranges_ordered (r # rs) \<longleftrightarrow> wf_range r \<and> (\<forall>q\<in>set rs. end_ms r < start_ms q) \<and> ranges_ordered rs"
  by (auto simp: ranges_ordered_def)

lemma ranges_ordered_append:
  "ranges_ordered (xs @ ys) \<longleftrightarrow>
     ranges_ordered xs \<and> ranges_ordered ys \<and> (\<forall>a\<in>set xs. \<forall>b\<in>set ys. end_ms a < start_ms b)"
  by (auto simp: ranges_ordered_def sorted_wrt_append)

lemma intersection_Some_iff:
  "intersection a b = Some r \<longleftrightarrow> wf_range r \<and> r = TimeRange (max (start_ms a) (start_ms b)) (min (end_ms a) (end_ms b))"
  by (auto simp: intersection_def Let_def)

lemma intersection_range_set:
  "(case intersection a b of None \<Rightarrow> {} | Some r \<Rightarrow> range_set r) = range_set a \<inter> range_set b"
  by (auto simp: intersection_def Let_def range_set_def)

section \<open>Boundaries, requests and plans\<close>

datatype boundary_state = CANDIDATE | CONFIRMED

datatype boundary_reason =
    DATA_START | DATA_END | LISTING | DELISTING | UPSTREAM_START | UPSTREAM_END
  | PROVIDER_RETENTION | SOURCE_EXHAUSTED | MARKET_CLOSED | FORMING_BAR | CALENDAR_UNKNOWN
  | TEMPORARY_UNAVAILABLE | AVAILABILITY_UNKNOWN | MANUAL

datatype history_disposition = FETCH | NOT_EXPECTED | TERMINAL | RETRYABLE | UNKNOWN

record time_bound =
  value_ms :: int
  bound_reason :: boundary_reason
  bound_state :: boundary_state
  bound_retryable :: bool
  bound_revision :: string
  revalidate_at_ms :: "int option"
  bound_dynamic :: bool

definition confirmed :: "time_bound \<Rightarrow> bool" where
  "confirmed b = (bound_state b = CONFIRMED)"

definition is_active :: "time_bound \<Rightarrow> int option \<Rightarrow> string option \<Rightarrow> bool" where
  "is_active b now_ms revis =
     (\<not> (case revis of None \<Rightarrow> False | Some r \<Rightarrow> bound_revision b \<noteq> r)
      \<and> \<not> (case (now_ms, revalidate_at_ms b) of (Some n, Some at) \<Rightarrow> at \<le> n | _ \<Rightarrow> False))"

record history_availability =
  data_start :: "time_bound option"
  data_end :: "time_bound option"
  upstream_start :: "time_bound option"
  upstream_end :: "time_bound option"
  rolling_retention_ms :: "int option"
  avail_disposition :: history_disposition
  status_reason :: "boundary_reason option"
  avail_retry_at_ms :: "int option"
  avail_calendar_id :: "string option"
  avail_revision :: string

definition new_availability :: "history_availability \<Rightarrow> history_availability res" where
  "new_availability a =
     (if (case rolling_retention_ms a of None \<Rightarrow> False | Some r \<Rightarrow> r \<le> 0) then Inl ValueError
      else if avail_disposition a \<notin> {FETCH, RETRYABLE, UNKNOWN, TERMINAL} then Inl ValueError
      else Inr (a\<lparr>avail_calendar_id := (case avail_calendar_id a of
             None \<Rightarrow> None | Some c \<Rightarrow> if c = [] then None else Some (py_strip c))\<rparr>))"

definition default_availability :: history_availability where
  "default_availability = \<lparr>data_start = None, data_end = None, upstream_start = None,
     upstream_end = None, rolling_retention_ms = None, avail_disposition = FETCH,
     status_reason = None, avail_retry_at_ms = None, avail_calendar_id = None, avail_revision = []\<rparr>"

record history_series_key =
  key_exchange :: string
  key_market_type :: string
  key_symbol :: string
  key_channel :: string
  key_variant :: string
  key_params_hash :: string

definition new_series_key ::
    "string \<Rightarrow> string \<Rightarrow> string \<Rightarrow> string \<Rightarrow> string \<Rightarrow> string \<Rightarrow> history_series_key res" where
  "new_series_key exchange market_type symbol channel variant params_hash =
     (if \<exists>v\<in>set [exchange, market_type, symbol, channel]. py_strip v = [] then Inl ValueError
      else Inr \<lparr>key_exchange = py_lower (py_strip exchange),
        key_market_type = py_lower (py_strip market_type),
        key_symbol = py_upper (py_strip symbol), key_channel = py_lower (py_strip channel),
        key_variant = py_strip variant, key_params_hash = py_strip params_hash\<rparr>)"

record history_request =
  req_series :: history_series_key
  req_interval :: string
  req_start_ms :: int
  req_end_ms :: int

definition new_history_request ::
    "history_series_key \<Rightarrow> string \<Rightarrow> int \<Rightarrow> int \<Rightarrow> history_request res" where
  "new_history_request series iv s e =
     (if py_strip iv = [] then Inl ValueError
      else if e < s then Inl ValueError
      else Inr \<lparr>req_series = series, req_interval = py_strip iv, req_start_ms = s, req_end_ms = e\<rparr>)"

definition request_range :: "history_request \<Rightarrow> time_range res" where
  "request_range r = new_time_range (req_start_ms r) (req_end_ms r)"

record history_exclusion =
  excl_range :: time_range
  excl_disposition :: history_disposition
  excl_reason :: boundary_reason
  excl_bound :: "time_bound option"

record history_plan =
  plan_request :: history_request
  plan_disposition :: history_disposition
  fetch_ranges :: "time_range list"
  exclusions :: "history_exclusion list"
  effective_range :: "time_range option"
  plan_terminal :: bool
  plan_retryable :: bool
  plan_unknown :: bool
  plan_calendar_id :: "string option"
  plan_retry_at_ms :: "int option"

definition has_fetch_work :: "history_plan \<Rightarrow> bool" where
  "has_fetch_work p = (fetch_ranges p \<noteq> [])"

definition has_terminal_boundary :: "history_plan \<Rightarrow> bool" where
  "has_terminal_boundary p = (\<exists>x\<in>set (exclusions p). excl_disposition x = TERMINAL)"

definition plan_expected_count :: "history_plan \<Rightarrow> nat" where
  "plan_expected_count p = length (fetch_ranges p)"

end
