(* ===== verification/TradingCalendar.thy ===== *)
theory TradingCalendar
  imports HistoryModels IntervalPolicy
begin

text \<open>
  Trading calendars (\<open>backend/app/data_engine/history/calendar.py\<close>): the calendar protocol
  as a record of operations, the closed-edge helpers that work on any calendar, and the
  always-open calendar. What the helpers and their callers rely on is the locale
  \<open>lawful_calendar\<close>, interpreted on the always-open calendar for every interval string.
\<close>

section \<open>The protocol and the helpers on any calendar\<close>

record trading_calendar =
  calendar_id :: string
  first_expected_open :: "int \<Rightarrow> int \<Rightarrow> string \<Rightarrow> int option res"
  last_expected_open :: "int \<Rightarrow> int \<Rightarrow> string \<Rightarrow> int option res"
  next_expected_open :: "int \<Rightarrow> string \<Rightarrow> int option res"
  previous_expected_open :: "int \<Rightarrow> string \<Rightarrow> int option res"
  count_expected :: "int \<Rightarrow> int \<Rightarrow> string \<Rightarrow> int res"
  expected_opens :: "int \<Rightarrow> int \<Rightarrow> string \<Rightarrow> int list res"
  open_segments :: "int \<Rightarrow> int \<Rightarrow> string \<Rightarrow> time_range list res"
  bucket_end_resolver :: "(int \<Rightarrow> string \<Rightarrow> int res) option"

definition SEARCH_HORIZON_MS :: int where
  "SEARCH_HORIZON_MS = 10 * 366 * day_ms"

definition interval_width_ms :: "string \<Rightarrow> int res" where
  "interval_width_ms iv = (case parse_interval_ms iv of
     None \<Rightarrow> Inl ValueError | Some v \<Rightarrow> if v \<le> 0 then Inl ValueError else Inr v)"

definition next_bucket_of :: "int \<Rightarrow> string \<Rightarrow> int res" where
  "next_bucket_of open_ms iv = (case parse_interval_spec iv of
     None \<Rightarrow> Inl ValueError | Some sp \<Rightarrow> next_ms sp open_ms)"

definition previous_bucket_of :: "int \<Rightarrow> string \<Rightarrow> int res" where
  "previous_bucket_of open_ms iv = (case parse_interval_spec iv of
     None \<Rightarrow> Inl ValueError | Some sp \<Rightarrow> previous_ms sp open_ms)"

definition expected_bucket_end_ms :: "trading_calendar \<Rightarrow> int \<Rightarrow> string \<Rightarrow> int res" where
  "expected_bucket_end_ms cal open_ms iv =
     bindr (interval_width_ms iv) (\<lambda>width.
     bindr (compute_bucket_end_ms open_ms width (Some iv)) (\<lambda>natural_end.
       case bucket_end_resolver cal of
         None \<Rightarrow> Inr natural_end
       | Some resolver \<Rightarrow>
         (case resolver open_ms iv of
            Inl err \<Rightarrow> if err \<in> {TypeError, ValueError} then Inr natural_end else Inl err
          | Inr resolved \<Rightarrow> Inr (if resolved > open_ms then resolved else natural_end))))"

definition containing_expected_open_ms :: "trading_calendar \<Rightarrow> int \<Rightarrow> string \<Rightarrow> int option res" where
  "containing_expected_open_ms cal t iv =
     bindr (interval_width_ms iv) (\<lambda>width.
     bindr (last_expected_open cal
         (max 0 (t - min SEARCH_HORIZON_MS (max (width * 2) day_ms))) t iv) (\<lambda>candidate.
       case candidate of None \<Rightarrow> Inr None
       | Some c \<Rightarrow>
         if c \<le> t then bindr (expected_bucket_end_ms cal c iv) (\<lambda>e.
           Inr (if t < e then Some c else None))
         else Inr None))"

text \<open>
  The loop steps back through the calendar for as long as it answers; \<open>None\<close> is a call that
  never returns.
\<close>

partial_function (option) closed_search ::
    "trading_calendar \<Rightarrow> string \<Rightarrow> int \<Rightarrow> int option \<Rightarrow> int option res option" where
  "closed_search cal iv now_ms candidate =
     (if candidate = None then Some (Inr None)
      else let c = the candidate in
        (case expected_bucket_end_ms cal c iv of
           Inl err \<Rightarrow> Some (Inl err)
         | Inr bucket_end \<Rightarrow>
           if bucket_end \<le> now_ms then Some (Inr (Some c))
           else (case previous_expected_open cal c iv of
             Inl err \<Rightarrow> Some (Inl err)
           | Inr p \<Rightarrow> closed_search cal iv now_ms p)))"

definition latest_closed_expected_open_ms ::
    "trading_calendar \<Rightarrow> int \<Rightarrow> string \<Rightarrow> int option \<Rightarrow> int option res option" where
  "latest_closed_expected_open_ms cal now_ms iv requested_end_ms =
     (case parse_interval_ms iv of None \<Rightarrow> Some (Inr None)
      | Some width \<Rightarrow>
        if width \<le> 0 then Some (Inr None)
        else let edge = min now_ms (case requested_end_ms of None \<Rightarrow> now_ms | Some e \<Rightarrow> e) in
          (case last_expected_open cal (max 0 (edge - SEARCH_HORIZON_MS)) edge iv of
             Inl err \<Rightarrow> Some (Inl err)
           | Inr candidate \<Rightarrow> closed_search cal iv now_ms candidate))"

section \<open>The always-open calendar\<close>

definition ao_first :: "int \<Rightarrow> int \<Rightarrow> string \<Rightarrow> int option res" where
  "ao_first s e iv =
     (if e < s then Inr None
      else bindr (interval_width_ms iv) (\<lambda>width.
        bindr (compute_bucket_start_ms s width (Some iv)) (\<lambda>current.
        bindr (if current < s then next_bucket_of current iv else Inr current) (\<lambda>current'.
          Inr (if current' \<le> e then Some current' else None)))))"

definition ao_last :: "int \<Rightarrow> int \<Rightarrow> string \<Rightarrow> int option res" where
  "ao_last s e iv =
     (if e < s then Inr None
      else bindr (interval_width_ms iv) (\<lambda>width.
        bindr (compute_bucket_start_ms e width (Some iv)) (\<lambda>current.
          Inr (if current \<ge> s then Some current else None))))"

definition ao_next :: "int \<Rightarrow> string \<Rightarrow> int option res" where
  "ao_next open_ms iv = bindr (next_bucket_of open_ms iv) (\<lambda>n. Inr (Some n))"

definition ao_previous :: "int \<Rightarrow> string \<Rightarrow> int option res" where
  "ao_previous open_ms iv = bindr (previous_bucket_of open_ms iv) (\<lambda>n. Inr (Some n))"

lemma next_ms_advances:
  assumes "wf_spec sp" "next_ms sp t = Inr n"
  shows "t < n"
proof (cases "alignment sp = CALENDAR_MONTH")
  case True
  then have "n = month_start_ms (month_of_ms t + spec_count sp)"
    using assms(2) by (auto simp: next_ms_def shift_calendar_month_open_ms_def res_simps
        dest!: dt_month_of_ms_Inr dt_month_start_ms_Inr)
  moreover have "month_start_ms (month_of_ms t + 1) \<le> month_start_ms (month_of_ms t + spec_count sp)"
    using wf_specD(2)[OF assms(1)] by simp
  ultimately show ?thesis using month_of_ms_bounds[of t] by linarith
next
  case False
  then show ?thesis using assms(2) wf_specD(1)[OF assms(1)] by (auto simp: next_ms_def)
qed

lemma next_bucket_of_advances: "next_bucket_of t iv = Inr n \<Longrightarrow> t < n"
  by (auto simp: next_bucket_of_def split: option.splits dest: next_ms_advances[OF parse_wf_spec])

text \<open>\<open>while current <= end_ms: yield current; current = _next_bucket(current, interval)\<close>.\<close>

function ao_opens_from :: "string \<Rightarrow> int \<Rightarrow> int \<Rightarrow> int list res" where
  "ao_opens_from iv current e =
     (if current \<le> e then bindr (next_bucket_of current iv) (\<lambda>n.
        bindr (ao_opens_from iv n e) (\<lambda>xs. Inr (current # xs)))
      else Inr [])"
  by pat_completeness auto
termination by (relation "measure (\<lambda>(_, cur, stop). nat (stop + 1 - cur))")
  (auto dest: next_bucket_of_advances)

declare ao_opens_from.simps [simp del]

definition ao_expected_opens :: "int \<Rightarrow> int \<Rightarrow> string \<Rightarrow> int list res" where
  "ao_expected_opens s e iv =
     bindr (ao_first s e iv) (\<lambda>f. case f of None \<Rightarrow> Inr [] | Some current \<Rightarrow> ao_opens_from iv current e)"

function ao_count_loop :: "string \<Rightarrow> int \<Rightarrow> int \<Rightarrow> int res" where
  "ao_count_loop iv current lst =
     (if current \<le> lst then bindr (next_bucket_of current iv) (\<lambda>n.
        bindr (ao_count_loop iv n lst) (\<lambda>k. Inr (k + 1)))
      else Inr 0)"
  by pat_completeness auto
termination by (relation "measure (\<lambda>(_, cur, stop). nat (stop + 1 - cur))")
  (auto dest: next_bucket_of_advances)

declare ao_count_loop.simps [simp del]

definition ao_count :: "int \<Rightarrow> int \<Rightarrow> string \<Rightarrow> int res" where
  "ao_count s e iv =
     bindr (ao_first s e iv) (\<lambda>f. case f of None \<Rightarrow> Inr 0 | Some f' \<Rightarrow>
     bindr (ao_last s e iv) (\<lambda>l. case l of None \<Rightarrow> Inr 0 | Some l' \<Rightarrow>
       if \<not> is_monthly_interval iv
       then bindr (interval_width_ms iv) (\<lambda>width. Inr ((l' - f') div width + 1))
       else ao_count_loop iv f' l'))"

definition ao_open_segments :: "int \<Rightarrow> int \<Rightarrow> string \<Rightarrow> time_range list res" where
  "ao_open_segments s e iv =
     bindr (ao_first s e iv) (\<lambda>f. bindr (ao_last s e iv) (\<lambda>l.
       case (f, l) of
         (Some f', Some l') \<Rightarrow> bindr (new_time_range f' l') (\<lambda>r. Inr [r])
       | _ \<Rightarrow> Inr []))"

definition always_open_calendar :: "string \<Rightarrow> trading_calendar" where
  "always_open_calendar cid = \<lparr>calendar_id = cid, first_expected_open = ao_first,
     last_expected_open = ao_last, next_expected_open = ao_next,
     previous_expected_open = ao_previous, count_expected = ao_count,
     expected_opens = ao_expected_opens, open_segments = ao_open_segments,
     bucket_end_resolver = None\<rparr>"

section \<open>What callers rely on\<close>

text \<open>
  \<open>E\<close> is the set of expected opens of a calendar for one interval. \<open>least_in\<close> and
  \<open>greatest_in\<close> say that an optional answer is the first or last member of \<open>E\<close> in an
  inclusive range, absence included.
\<close>

definition least_in :: "int set \<Rightarrow> int \<Rightarrow> int \<Rightarrow> int option \<Rightarrow> bool" where
  "least_in E s e r \<longleftrightarrow> (case r of None \<Rightarrow> E \<inter> {s..e} = {}
     | Some x \<Rightarrow> x \<in> E \<and> s \<le> x \<and> x \<le> e \<and> (\<forall>y\<in>E. s \<le> y \<longrightarrow> x \<le> y))"

definition greatest_in :: "int set \<Rightarrow> int \<Rightarrow> int \<Rightarrow> int option \<Rightarrow> bool" where
  "greatest_in E s e r \<longleftrightarrow> (case r of None \<Rightarrow> E \<inter> {s..e} = {}
     | Some x \<Rightarrow> x \<in> E \<and> s \<le> x \<and> x \<le> e \<and> (\<forall>y\<in>E. y \<le> e \<longrightarrow> y \<le> x))"

locale lawful_calendar =
  fixes cal :: trading_calendar and iv :: string and E :: "int set"
  assumes first_law: "first_expected_open cal s e iv = Inr r \<Longrightarrow> least_in E s e r"
    and last_law: "last_expected_open cal s e iv = Inr r \<Longrightarrow> greatest_in E s e r"
    and next_law: "x \<in> E \<Longrightarrow> next_expected_open cal x iv = Inr (Some n) \<Longrightarrow>
        n \<in> E \<and> x < n \<and> (\<forall>y\<in>E. x < y \<longrightarrow> n \<le> y)"
    and previous_law: "x \<in> E \<Longrightarrow> previous_expected_open cal x iv = Inr (Some p) \<Longrightarrow>
        p \<in> E \<and> p < x \<and> (\<forall>y\<in>E. y < x \<longrightarrow> y \<le> p)"
    and count_law: "count_expected cal s e iv = Inr k \<Longrightarrow> k = int (card (E \<inter> {s..e}))"
    and opens_law: "expected_opens cal s e iv = Inr xs \<Longrightarrow>
        strictly_sorted xs \<and> set xs = E \<inter> {s..e}"
    and segments_law: "open_segments cal s e iv = Inr segs \<Longrightarrow>
        ranges_ordered segs \<and> E \<inter> {s..e} \<subseteq> ranges_set segs
        \<and> (\<forall>r\<in>set segs. s \<le> start_ms r \<and> end_ms r \<le> e)"
begin

lemma opens_unique:
  assumes "expected_opens cal s e iv = Inr xs"
  shows "xs = sorted_list_of_set (E \<inter> {s..e})"
  using opens_law[OF assms] by (intro strictly_sorted_eq_sorted_list) auto

lemma count_opens:
  assumes "expected_opens cal s e iv = Inr xs" "count_expected cal s e iv = Inr k"
  shows "k = int (length xs)"
  using opens_law[OF assms(1)] count_law[OF assms(2)] strictly_sorted_card[of xs] by simp

lemma containing_open_member:
  assumes "containing_expected_open_ms cal t iv = Inr (Some x)"
  shows "x \<in> E \<and> x \<le> t \<and> (\<forall>y\<in>E. y \<le> t \<longrightarrow> y \<le> x)
    \<and> (\<exists>e. expected_bucket_end_ms cal x iv = Inr e \<and> t < e)"
proof -
  obtain s where l: "last_expected_open cal s t iv = Inr (Some x)"
    and e: "\<exists>e. expected_bucket_end_ms cal x iv = Inr e \<and> t < e"
    using assms
    by (auto simp: containing_expected_open_ms_def res_simps split: option.splits if_splits)
  show ?thesis using last_law[OF l] e by (simp add: greatest_in_def)
qed

abbreviation still_open :: "int \<Rightarrow> int \<Rightarrow> bool" where
  "still_open now y \<equiv> \<exists>e. expected_bucket_end_ms cal y iv = Inr e \<and> now < e"

abbreviation closed_answer :: "int \<Rightarrow> int \<Rightarrow> int \<Rightarrow> bool" where
  "closed_answer now c x \<equiv> x \<in> E \<and> x \<le> c \<and> (\<forall>y\<in>E. x < y \<and> y \<le> c \<longrightarrow> still_open now y)
    \<and> (\<exists>e. expected_bucket_end_ms cal x iv = Inr e \<and> e \<le> now)"

lemma closed_answer_step:
  assumes "closed_answer now p x" "previous_expected_open cal c iv = Inr (Some p)" "c \<in> E"
    "still_open now c"
  shows "closed_answer now c x"
proof -
  have "p < c" and low: "\<And>y. y \<in> E \<Longrightarrow> y < c \<Longrightarrow> y \<le> p" using previous_law[OF assms(3,2)] by auto
  moreover have "still_open now y" if "y \<in> E" "x < y" "y \<le> c" for y
    using assms(1,4) that low[of y] by (cases "y = c") force+
  ultimately show ?thesis using assms(1) by auto
qed

lemma closed_search_correct:
  assumes "closed_search cal iv now (Some c) = Some (Inr (Some x))" and "c \<in> E"
  shows "closed_answer now c x"
proof -
  define Q where "Q = (\<lambda>cal' iv' now' cand (r :: int option res). cal' = cal \<longrightarrow> iv' = iv \<longrightarrow>
    now' = now \<longrightarrow> r = Inr (Some x) \<longrightarrow> (\<exists>c. cand = Some c \<and> (c \<in> E \<longrightarrow> closed_answer now c x)))"
  have "Q cal iv now (Some c) (Inr (Some x))"
  proof (rule closed_search.raw_induct[where P = Q, OF _ assms(1)])
    fix rec cal' iv' now' cand r
    assume IH: "\<And>a b cc d y. rec a b cc d = Some y \<Longrightarrow> Q a b cc d y"
      and body: "(if cand = None then Some (Inr None)
        else let c = the cand in
          case expected_bucket_end_ms cal' c iv' of Inl err \<Rightarrow> Some (Inl err)
          | Inr bucket_end \<Rightarrow>
            if bucket_end \<le> now' then Some (Inr (Some c))
            else case previous_expected_open cal' c iv' of Inl err \<Rightarrow> Some (Inl err)
              | Inr p \<Rightarrow> rec cal' iv' now' p) = Some r"
    have "\<exists>c. cand = Some c \<and> (c \<in> E \<longrightarrow> closed_answer now c x)"
      if eq: "cal' = cal" "iv' = iv" "now' = now" "r = Inr (Some x)"
    proof -
      obtain c where cand: "cand = Some c" using body eq by (auto split: if_splits)
      obtain e where e: "expected_bucket_end_ms cal c iv = Inr e"
        using body eq cand by (auto split: sum.splits)
      have "closed_answer now c x" if c: "c \<in> E"
      proof (cases "e \<le> now")
        case True
        then show ?thesis using body eq cand e c by auto
      next
        case False
        then obtain p where p: "previous_expected_open cal c iv = Inr p"
          and r: "rec cal iv now p = Some (Inr (Some x))"
          using body eq cand e by (auto split: sum.splits)
        obtain p' where p': "p = Some p'" and q: "p' \<in> E \<Longrightarrow> closed_answer now p' x"
          using IH[OF r] unfolding Q_def by auto
        have "p' \<in> E" using previous_law[OF c] p p' by simp
        then show ?thesis using closed_answer_step[OF q _ c] p p' e False by auto
      qed
      then show ?thesis using cand by simp
    qed
    then show "Q cal' iv' now' cand r" unfolding Q_def by simp
  qed
  then show ?thesis using assms(2) unfolding Q_def by simp
qed

lemma latest_closed_correct:
  assumes "latest_closed_expected_open_ms cal now iv req = Some (Inr (Some x))"
  shows "\<exists>edge. edge = min now (case req of None \<Rightarrow> now | Some e \<Rightarrow> e) \<and> x \<in> E \<and> x \<le> edge
    \<and> (\<exists>e. expected_bucket_end_ms cal x iv = Inr e \<and> e \<le> now)
    \<and> (\<forall>y\<in>E. x < y \<and> y \<le> edge \<longrightarrow> still_open now y)"
proof -
  define edge where "edge = min now (case req of None \<Rightarrow> now | Some e \<Rightarrow> e)"
  obtain cand where l: "last_expected_open cal (max 0 (edge - SEARCH_HORIZON_MS)) edge iv = Inr cand"
    and cs: "closed_search cal iv now cand = Some (Inr (Some x))"
    using assms unfolding latest_closed_expected_open_ms_def Let_def edge_def[symmetric]
    by (auto split: option.splits if_splits sum.splits)
  then obtain c where c: "cand = Some c" by (cases cand) (auto simp: closed_search.simps)
  have g: "c \<in> E" "c \<le> edge" "\<And>y. y \<in> E \<Longrightarrow> y \<le> edge \<Longrightarrow> y \<le> c"
    using last_law[OF l] c by (auto simp: greatest_in_def)
  have "closed_answer now c x" using closed_search_correct cs c g(1) by simp
  then show ?thesis using g unfolding edge_def[symmetric] by force
qed

end

text \<open>A calendar that steps through all its expected opens, however far apart they are.\<close>

locale complete_calendar = lawful_calendar +
  assumes next_none: "x \<in> E \<Longrightarrow> next_expected_open cal x iv = Inr None \<Longrightarrow> y \<in> E \<Longrightarrow> y \<le> x"
    and previous_none: "x \<in> E \<Longrightarrow> previous_expected_open cal x iv = Inr None \<Longrightarrow> y \<in> E \<Longrightarrow> x \<le> y"

section \<open>The always-open calendar is lawful\<close>

definition always_expected :: "string \<Rightarrow> int set" where
  "always_expected iv = (case parse_interval_spec iv of None \<Rightarrow> {} | Some sp \<Rightarrow> boundaries sp)"

lemma interval_width_Inr: "interval_width_ms iv = Inr w \<Longrightarrow>
    \<exists>sp. parse_interval_spec iv = Some sp \<and> w = nominal_ms sp \<and> wf_spec sp"
  by (auto simp: interval_width_ms_def parse_interval_ms_def parse_wf_spec split: option.splits if_splits)

lemma always_expected_spec [simp]:
  "parse_interval_spec iv = Some sp \<Longrightarrow> always_expected iv = boundaries sp"
  by (simp add: always_expected_def)

lemma ao_first_least:
  assumes "ao_first s e iv = Inr r"
  shows "least_in (always_expected iv) s e r"
proof (cases "e < s")
  case True
  then show ?thesis using assms by (auto simp: ao_first_def least_in_def)
next
  case False
  then obtain w cur cur' where w: "interval_width_ms iv = Inr w"
    and cur: "compute_bucket_start_ms s w (Some iv) = Inr cur"
    and cur': "(if cur < s then next_bucket_of cur iv else Inr cur) = Inr cur'"
    and r: "r = (if cur' \<le> e then Some cur' else None)"
    using assms by (auto simp: ao_first_def res_simps)
  obtain sp where sp: "parse_interval_spec iv = Some sp" and wf: "wf_spec sp"
    using interval_width_Inr[OF w] by blast
  have fl: "floor_ms sp s = Inr cur" using cur compute_bucket_start_ms_spec[OF sp] by simp
  note fg = floor_ms_greatest[OF wf fl]
  have "boundary sp cur' \<and> s \<le> cur' \<and> (\<forall>y. boundary sp y \<and> s \<le> y \<longrightarrow> cur' \<le> y)"
  proof (cases "cur < s")
    case True
    then have nx: "next_ms sp cur = Inr cur'" using cur' sp by (simp add: next_bucket_of_def)
    show ?thesis using next_ms_least[OF wf _ nx] sg.floor_contains[OF wf fl nx] fg True by force
  next
    case False
    then show ?thesis using cur' fg by auto
  qed
  then show ?thesis using sp r by (force simp: least_in_def)
qed

lemma ao_last_greatest:
  assumes "ao_last s e iv = Inr r"
  shows "greatest_in (always_expected iv) s e r"
proof (cases "e < s")
  case True
  then show ?thesis using assms by (auto simp: ao_last_def greatest_in_def)
next
  case False
  then obtain w cur where w: "interval_width_ms iv = Inr w"
    and cur: "compute_bucket_start_ms e w (Some iv) = Inr cur"
    and r: "r = (if cur \<ge> s then Some cur else None)"
    using assms by (auto simp: ao_last_def res_simps)
  obtain sp where sp: "parse_interval_spec iv = Some sp" and wf: "wf_spec sp"
    using interval_width_Inr[OF w] by blast
  have fl: "floor_ms sp e = Inr cur" using cur compute_bucket_start_ms_spec[OF sp] by simp
  show ?thesis using floor_ms_greatest[OF wf fl] sp r by (force simp: greatest_in_def)
qed

lemma ao_opens_walk: "ao_opens_from iv cur e = walk (\<lambda>t. next_bucket_of t iv) cur (e + 1)"
proof (induction iv cur e rule: ao_opens_from.induct)
  case (1 iv cur e)
  show ?case
  proof (cases "cur \<le> e")
    case True
    then show ?thesis using "1.IH"
      by (cases "next_bucket_of cur iv")
        (auto simp: ao_opens_from.simps[of iv cur] walk.simps[of _ cur] dest: next_bucket_of_advances)
  qed (simp add: ao_opens_from.simps)
qed

lemma ao_opens_bounds:
  assumes sp: "parse_interval_spec iv = Some sp" and b: "boundary sp b"
    and xs: "ao_opens_from iv b e = Inr xs"
  shows "strictly_sorted xs \<and> set xs = boundaries sp \<inter> {b..e}"
proof -
  have "walk (next_ms sp) b (e + 1) = Inr xs"
    using xs by (simp add: ao_opens_walk next_bucket_of_def sp)
  then have "set xs = {x \<in> boundaries sp. b \<le> x \<and> x < e + 1} \<and> strictly_sorted xs"
    using sg.walk_bounds[OF parse_wf_spec[OF sp]] b by simp
  moreover have "{x \<in> boundaries sp. b \<le> x \<and> x < e + 1} = boundaries sp \<inter> {b..e}" by auto
  ultimately show ?thesis by simp
qed

lemma ao_opens_spec:
  assumes "ao_expected_opens s e iv = Inr xs"
  shows "strictly_sorted xs \<and> set xs = always_expected iv \<inter> {s..e}"
proof -
  obtain f where f: "ao_first s e iv = Inr f"
    and xs: "(case f of None \<Rightarrow> Inr [] | Some c \<Rightarrow> ao_opens_from iv c e) = Inr xs"
    using assms by (auto simp: ao_expected_opens_def res_simps)
  note ls = ao_first_least[OF f]
  show ?thesis
  proof (cases f)
    case None
    then show ?thesis using ls xs by (simp add: least_in_def)
  next
    case (Some c)
    then have "always_expected iv \<noteq> {}" using ls by (auto simp: least_in_def)
    then obtain sp where sp: "parse_interval_spec iv = Some sp"
      by (auto simp: always_expected_def split: option.splits)
    show ?thesis using ao_opens_bounds[OF sp, of c e xs] ls Some xs sp
      by (auto simp: least_in_def)
  qed
qed

lemma ao_count_loop_length:
  "ao_count_loop iv cur l = bindr (ao_opens_from iv cur l) (\<lambda>xs. Inr (int (length xs)))"
proof (induction iv cur l rule: ao_opens_from.induct)
  case (1 iv cur l)
  then show ?case
    by (cases "next_bucket_of cur iv"; cases "ao_opens_from iv (projr (next_bucket_of cur iv)) l")
      (auto simp: ao_opens_from.simps[of iv cur] ao_count_loop.simps[of iv cur])
qed

lemma progression_card:
  fixes w :: int
  assumes w: "0 < w" and f: "w dvd f - a" and l: "w dvd l - a" and fl: "f \<le> l"
  shows "int (card ({x. w dvd x - a} \<inter> {f..l})) = (l - f) div w + 1"
proof -
  have "{x. w dvd x - a} \<inter> {f..l} = (\<lambda>i. f + i * w) ` {0..(l - f) div w}"
  proof (intro equalityI subsetI)
    fix x assume "x \<in> {x. w dvd x - a} \<inter> {f..l}"
    then have x: "w dvd x - a" "f \<le> x" "x \<le> l" by auto
    have "w dvd (x - a) - (f - a)" using x(1) f by (rule dvd_diff)
    then obtain i where i: "x - f = w * i" by (auto simp: dvd_def)
    have "0 \<le> w * i" using i x(2) by linarith
    then have "0 \<le> i" using w by (simp add: zero_le_mult_iff)
    moreover have "i \<le> (l - f) div w" using i x(3) w by (subst fits_div) (auto simp: mult.commute)
    ultimately show "x \<in> (\<lambda>i. f + i * w) ` {0..(l - f) div w}"
      using i by (auto simp: image_iff mult.commute intro!: bexI[of _ i])
  next
    fix x assume "x \<in> (\<lambda>i. f + i * w) ` {0..(l - f) div w}"
    then obtain i where i: "0 \<le> i" "i \<le> (l - f) div w" "x = f + i * w" by auto
    have "i * w \<le> l - f" using i(2) w by (simp add: fits_div)
    moreover have "w dvd (f - a) + i * w" using f by simp
    ultimately show "x \<in> {x. w dvd x - a} \<inter> {f..l}" using i w by (simp add: add_diff_eq diff_add_eq)
  qed
  moreover have "inj_on (\<lambda>i. f + i * w) {0..(l - f) div w}" using w by (simp add: inj_on_def)
  moreover have "0 \<le> (l - f) div w" using w fl by (simp add: pos_imp_zdiv_nonneg_iff)
  ultimately show ?thesis by (simp add: card_image)
qed

lemma least_greatest_window:
  assumes "least_in E s e (Some f)" "greatest_in E s e (Some l)"
  shows "E \<inter> {s..e} = E \<inter> {f..l}" and "f \<in> E" "l \<in> E" "f \<le> l" "s \<le> f" "l \<le> e"
  using assms by (auto simp: least_in_def greatest_in_def)

lemma least_greatest_None:
  assumes "least_in E s e f" "greatest_in E s e l"
  shows "f = None \<longleftrightarrow> l = None"
  using assms by (auto simp: least_in_def greatest_in_def split: option.splits)

lemma ao_count_card:
  assumes "ao_count s e iv = Inr k"
  shows "k = int (card (always_expected iv \<inter> {s..e}))"
proof -
  obtain f where f: "ao_first s e iv = Inr f" using assms by (auto simp: ao_count_def res_simps)
  note lf = ao_first_least[OF f]
  show ?thesis
  proof (cases f)
    case None
    then show ?thesis using lf assms f by (simp add: ao_count_def least_in_def)
  next
    case (Some f')
    obtain l where l: "ao_last s e iv = Inr l"
      using assms f Some by (auto simp: ao_count_def res_simps)
    note gl = ao_last_greatest[OF l]
    obtain l' where l': "l = Some l'" using least_greatest_None[OF lf gl] Some by auto
    note win = least_greatest_window[OF lf[unfolded Some] gl[unfolded l']]
    obtain sp where sp: "parse_interval_spec iv = Some sp"
      using win(2) by (auto simp: always_expected_def split: option.splits)
    note wf = parse_wf_spec[OF sp]
    show ?thesis
    proof (cases "alignment sp = CALENDAR_MONTH")
      case True
      then have "ao_count_loop iv f' l' = Inr k"
        using assms f l Some l' sp by (simp add: ao_count_def is_monthly_interval_def)
      then obtain xs where xs: "ao_opens_from iv f' l' = Inr xs" "k = int (length xs)"
        by (auto simp: ao_count_loop_length res_simps)
      have "strictly_sorted xs \<and> set xs = always_expected iv \<inter> {f'..l'}"
        using ao_opens_bounds[OF sp _ xs(1)] win(2) unfolding always_expected_spec[OF sp] by blast
      then show ?thesis using xs(2) strictly_sorted_card[of xs] win(1) by simp
    next
      case False
      then have k: "k = (l' - f') div nominal_ms sp + 1"
        using assms f l Some l' sp wf
        by (auto simp: ao_count_def is_monthly_interval_def res_simps dest!: interval_width_Inr)
      show ?thesis
        using progression_card[OF wf_specD(1)[OF wf], of f' "anchor_ms sp" l'] win sp False k
        by (simp add: boundary_def)
    qed
  qed
qed

lemma ao_segments_spec:
  assumes "ao_open_segments s e iv = Inr segs"
  shows "ranges_ordered segs \<and> always_expected iv \<inter> {s..e} \<subseteq> ranges_set segs
    \<and> (\<forall>r\<in>set segs. s \<le> start_ms r \<and> end_ms r \<le> e)"
proof -
  obtain f l where f: "ao_first s e iv = Inr f" and l: "ao_last s e iv = Inr l"
    using assms by (auto simp: ao_open_segments_def res_simps)
  note lf = ao_first_least[OF f] note gl = ao_last_greatest[OF l]
  show ?thesis
  proof (cases f)
    case None
    then show ?thesis using assms f l lf by (auto simp: ao_open_segments_def least_in_def)
  next
    case (Some f')
    obtain l' where l': "l = Some l'" using least_greatest_None[OF lf gl] Some by auto
    note win = least_greatest_window[OF lf[unfolded Some] gl[unfolded l']]
    have "segs = [TimeRange f' l']"
      using assms f l Some l' by (simp add: ao_open_segments_def res_simps)
    then show ?thesis using win by auto
  qed
qed

lemma ao_next_step:
  assumes "x \<in> always_expected iv" "ao_next x iv = Inr (Some n)"
  shows "n \<in> always_expected iv \<and> x < n \<and> (\<forall>y\<in>always_expected iv. x < y \<longrightarrow> n \<le> y)"
proof -
  obtain sp where sp: "parse_interval_spec iv = Some sp"
    using assms(1) by (auto simp: always_expected_def split: option.splits)
  then have "next_ms sp x = Inr n" using assms(2) by (auto simp: ao_next_def next_bucket_of_def res_simps)
  then show ?thesis using next_ms_least[OF parse_wf_spec[OF sp]] assms(1) sp by simp
qed

lemma ao_previous_step:
  assumes "x \<in> always_expected iv" "ao_previous x iv = Inr (Some p)"
  shows "p \<in> always_expected iv \<and> p < x \<and> (\<forall>y\<in>always_expected iv. y < x \<longrightarrow> y \<le> p)"
proof -
  obtain sp where sp: "parse_interval_spec iv = Some sp"
    using assms(1) by (auto simp: always_expected_def split: option.splits)
  then have "previous_ms sp x = Inr p"
    using assms(2) by (auto simp: ao_previous_def previous_bucket_of_def res_simps)
  then show ?thesis using previous_ms_greatest[OF parse_wf_spec[OF sp]] assms(1) sp by simp
qed

interpretation ao: lawful_calendar "always_open_calendar cid" iv "always_expected iv" for cid iv
  unfolding always_open_calendar_def
  by (unfold_locales; unfold trading_calendar.select_convs)
    (erule ao_first_least, erule ao_last_greatest, erule (1) ao_next_step,
     erule (1) ao_previous_step, erule ao_count_card, erule ao_opens_spec, erule ao_segments_spec)

interpretation aoc: complete_calendar "always_open_calendar cid" iv "always_expected iv" for cid iv
  by unfold_locales (auto simp: always_open_calendar_def ao_next_def ao_previous_def res_simps)

section \<open>Properties of the always-open calendar\<close>

lemma always_open_simps [simp]:
  "first_expected_open (always_open_calendar cid) = ao_first"
  "last_expected_open (always_open_calendar cid) = ao_last"
  "next_expected_open (always_open_calendar cid) = ao_next"
  "previous_expected_open (always_open_calendar cid) = ao_previous"
  "count_expected (always_open_calendar cid) = ao_count"
  "expected_opens (always_open_calendar cid) = ao_expected_opens"
  "open_segments (always_open_calendar cid) = ao_open_segments"
  "bucket_end_resolver (always_open_calendar cid) = None"
  by (simp_all add: always_open_calendar_def)

text \<open>The calendar's closed-form count and its enumeration agree with the set of bucket
  boundaries in the requested inclusive range: the enumeration is that set in order, and the
  count (a division for fixed and weekly intervals, a loop for months) is its size.\<close>

lemma ao_count_enumerates:
  assumes "ao_expected_opens s e iv = Inr xs" and "ao_count s e iv = Inr k"
  shows "xs = sorted_list_of_set (always_expected iv \<inter> {s..e}) \<and> k = int (length xs)"
  using ao.opens_unique[where iv = iv] ao.count_opens[where iv = iv] assms by simp

lemma ao_bucket_end:
  assumes "parse_interval_spec iv = Some sp"
  shows "expected_bucket_end_ms (always_open_calendar cid) t iv = next_ms sp t"
  using parse_wf_spec[OF assms] assms
  by (cases "next_ms sp t")
    (simp_all add: expected_bucket_end_ms_def interval_width_ms_def parse_interval_ms_def
      compute_bucket_end_ms_spec)

lemma ao_closed_search_total:
  assumes sp: "parse_interval_spec iv = Some sp" and c: "boundary sp c" "c \<le> now"
  shows "\<exists>r. closed_search (always_open_calendar cid) iv now (Some c) = Some r"
proof -
  note wf = parse_wf_spec[OF sp]
  show ?thesis
  proof (cases "next_ms sp c")
    case (Inl e)
    then show ?thesis using sp by (simp add: closed_search.simps ao_bucket_end)
  next
    case (Inr e)
    show ?thesis
    proof (cases "previous_ms sp c")
      case (Inl err)
      then show ?thesis using Inr sp
        by (simp add: closed_search.simps ao_bucket_end ao_previous_def previous_bucket_of_def)
    next
      case p: (Inr p)
      have "\<exists>r. closed_search (always_open_calendar cid) iv now (Some p) = Some r"
      proof (cases "next_ms sp p")
        case (Inl err)
        then show ?thesis using sp by (simp add: closed_search.simps ao_bucket_end)
      next
        case n: (Inr n)
        have "n = c" using sg.prev_next[OF wf _ p n] c(1) by simp
        then show ?thesis using n sp c(2) by (simp add: closed_search.simps ao_bucket_end)
      qed
      then show ?thesis using Inr p sp
        by (subst closed_search.simps) (simp add: ao_bucket_end ao_previous_def previous_bucket_of_def)
    qed
  qed
qed

text \<open>On the always-open calendar the search for the latest closed open always returns, and
  an answer is exact: an expected open at or before both \<open>now\<close> and the requested end whose
  bucket is over, with every later expected open up to that edge still forming.\<close>

lemma ao_latest_closed:
  "\<exists>r. latest_closed_expected_open_ms (always_open_calendar cid) now iv req = Some r \<and>
     (\<forall>x. r = Inr (Some x) \<longrightarrow> (\<exists>edge. edge = min now (case req of None \<Rightarrow> now | Some e \<Rightarrow> e)
       \<and> x \<in> always_expected iv \<and> x \<le> edge
       \<and> (\<exists>e. expected_bucket_end_ms (always_open_calendar cid) x iv = Inr e \<and> e \<le> now)
       \<and> (\<forall>y\<in>always_expected iv. x < y \<and> y \<le> edge \<longrightarrow>
            (\<exists>e. expected_bucket_end_ms (always_open_calendar cid) y iv = Inr e \<and> now < e))))"
proof -
  let ?edge = "min now (case req of None \<Rightarrow> now | Some e \<Rightarrow> e)"
  have "\<exists>r. latest_closed_expected_open_ms (always_open_calendar cid) now iv req = Some r"
  proof (cases "parse_interval_spec iv")
    case None
    then show ?thesis by (simp add: latest_closed_expected_open_ms_def parse_interval_ms_def)
  next
    case (Some sp)
    note wf = parse_wf_spec[OF Some]
    show ?thesis
    proof (cases "ao_last (max 0 (?edge - SEARCH_HORIZON_MS)) ?edge iv")
      case (Inl err)
      then show ?thesis using Some wf
        by (simp add: latest_closed_expected_open_ms_def parse_interval_ms_def Let_def)
    next
      case (Inr cand)
      have "\<exists>r. closed_search (always_open_calendar cid) iv now cand = Some r"
      proof (cases cand)
        case None
        then show ?thesis by (simp add: closed_search.simps)
      next
        case c: (Some c)
        then show ?thesis using ao_last_greatest[OF Inr] Some
            ao_closed_search_total[OF Some, of c now] by (simp add: greatest_in_def)
      qed
      then show ?thesis using Some wf Inr
        by (simp add: latest_closed_expected_open_ms_def parse_interval_ms_def Let_def)
    qed
  qed
  then show ?thesis using ao.latest_closed_correct[of cid now iv req] by blast
qed

text \<open>The open containing an instant is unique: when the helper answers on the always-open
  calendar, the answer is the bucket boundary that starts the half-open bucket holding it.\<close>

lemma ao_containing_open:
  assumes "containing_expected_open_ms (always_open_calendar cid) t iv = Inr (Some x)"
  shows "\<exists>sp e. parse_interval_spec iv = Some sp \<and> floor_ms sp t = Inr x
    \<and> next_ms sp x = Inr e \<and> x \<le> t \<and> t < e"
proof -
  obtain w where "interval_width_ms iv = Inr w"
    using assms by (auto simp: containing_expected_open_ms_def res_simps)
  then obtain sp where sp: "parse_interval_spec iv = Some sp" using interval_width_Inr by blast
  obtain e where e: "next_ms sp x = Inr e" "t < e" and x: "boundary sp x" "x \<le> t"
    using ao.containing_open_member[OF assms] sp by (auto simp: ao_bucket_end)
  obtain s where "ao_last s t iv = Inr (Some x)"
    using assms by (auto simp: containing_expected_open_ms_def res_simps split: option.splits if_splits)
  then have "floor_ms sp t = Inr x"
    using sp by (auto simp: ao_last_def res_simps compute_bucket_start_ms_spec split: if_splits)
  then show ?thesis using sp e x by blast
qed

section \<open>Witnesses\<close>

lemma ao_count_enumerates_example:
  "sorted_list_of_set (always_expected ''2M'' \<inter> {1704067200000..1719792000000})
     = [1704067200000, 1709251200000, 1714521600000, 1719792000000]
   \<and> ao_count 1704067200000 1719792000000 ''2M'' = Inr 4"
proof -
  have opens: "ao_expected_opens 1704067200000 1719792000000 ''2M''
      = Inr [1704067200000, 1709251200000, 1714521600000, 1719792000000]"
    and cnt: "ao_count 1704067200000 1719792000000 ''2M'' = Inr 4" by code_simp+
  show ?thesis using conjunct1[OF ao_count_enumerates[OF opens cnt]] cnt by (intro conjI) (erule sym, assumption)
qed

lemma ao_containing_open_example:
  "containing_expected_open_ms (always_open_calendar ''crypto.24x7.utc'') 1709210096000 ''2M''
     = Inr (Some 1704067200000)
   \<and> (\<exists>sp. parse_interval_spec ''2M'' = Some sp \<and> floor_ms sp 1709210096000 = Inr 1704067200000)"
proof -
  have "containing_expected_open_ms (always_open_calendar ''crypto.24x7.utc'') 1709210096000 ''2M''
     = Inr (Some 1704067200000)" by code_simp
  note this ao_containing_open[OF this]
  then show ?thesis by blast
qed

lemma ao_latest_closed_example:
  "\<exists>edge. edge = (1709210096000::int) \<and> (1698796800000::int) \<in> always_expected ''2M''
   \<and> latest_closed_expected_open_ms (always_open_calendar ''a'') 1709210096000 ''2M'' None
       = Some (Inr (Some 1698796800000))"
proof -
  have "ao_last (max 0 (1709210096000 - SEARCH_HORIZON_MS)) 1709210096000 ''2M'' = Inr (Some 1704067200000)"
    "expected_bucket_end_ms (always_open_calendar ''a'') 1704067200000 ''2M'' = Inr 1709251200000"
    "expected_bucket_end_ms (always_open_calendar ''a'') 1698796800000 ''2M'' = Inr 1704067200000"
    "ao_previous 1704067200000 ''2M'' = Inr (Some 1698796800000)"
    "parse_interval_ms ''2M'' = Some 5184000000" by code_simp+
  then have "latest_closed_expected_open_ms (always_open_calendar ''a'') 1709210096000 ''2M'' None
       = Some (Inr (Some 1698796800000))"
    by (simp add: latest_closed_expected_open_ms_def closed_search.simps)
  then show ?thesis using ao_latest_closed[of "''a''" 1709210096000 "''2M''" None] by auto
qed

end
