(* ===== verification/HistoryPlan.thy ===== *)
theory HistoryPlan
  imports TradingCalendar
begin

text \<open>
  The historical request planner (\<open>backend/app/data_engine/history/planner.py\<close>): a request
  is intersected with lifetime and retention bounds, its forming tail is cut off, and what
  remains is split by the calendar into fetch ranges and closed ranges. The planner is a
  client of the calendar interface: its lemmas are proved in \<open>lawful_calendar\<close>.
\<close>

section \<open>Segments\<close>

fun merge_segments :: "time_range list \<Rightarrow> time_range list \<Rightarrow> time_range list" where
  "merge_segments merged [] = merged"
| "merge_segments merged (seg # rest) = (let previous = last merged in
     if start_ms seg \<le> end_ms previous
     then merge_segments
       (butlast merged @ [TimeRange (start_ms previous) (max (end_ms previous) (end_ms seg))]) rest
     else merge_segments (merged @ [seg]) rest)"

definition normalise_segments :: "time_range list \<Rightarrow> time_range \<Rightarrow> time_range list" where
  "normalise_segments segments effective =
     (let clipped = List.map_filter (\<lambda>seg. intersection seg effective) segments in
      case sort clipped of [] \<Rightarrow> [] | seg # rest \<Rightarrow> merge_segments [seg] rest)"

definition closed_exclusion :: "int \<Rightarrow> int \<Rightarrow> history_exclusion" where
  "closed_exclusion s e = \<lparr>excl_range = TimeRange s e, excl_disposition = NOT_EXPECTED,
     excl_reason = MARKET_CLOSED, excl_bound = None\<rparr>"

fun closed_from :: "int \<Rightarrow> int \<Rightarrow> time_range list \<Rightarrow> history_exclusion list" where
  "closed_from cursor stop [] = (if cursor \<le> stop then [closed_exclusion cursor stop] else [])"
| "closed_from cursor stop (seg # rest) =
     (if cursor < start_ms seg then [closed_exclusion cursor (start_ms seg - 1)] else [])
     @ closed_from (max cursor (end_ms seg + 1)) stop rest"

definition closed_ranges :: "time_range \<Rightarrow> time_range list \<Rightarrow> history_exclusion list" where
  "closed_ranges effective segments =
     (if segments = [] then [closed_exclusion (start_ms effective) (end_ms effective)]
      else closed_from (start_ms effective) (end_ms effective) segments)"

section \<open>Bounds\<close>

text \<open>
  The loop over the four declared bounds, each with the side it limits (\<open>True\<close> for lower).
  \<open>Inl b\<close> is the early return on a retryable bound.
\<close>

fun classify_bounds :: "int \<Rightarrow> string \<Rightarrow> (time_bound option \<times> bool) list \<Rightarrow>
    time_bound list \<Rightarrow> time_bound list \<Rightarrow> bool \<Rightarrow> time_bound + (time_bound list \<times> time_bound list \<times> bool)" where
  "classify_bounds now revis [] lowers uppers unknown = Inr (lowers, uppers, unknown)"
| "classify_bounds now revis ((None, lower) # rest) lowers uppers unknown =
     classify_bounds now revis rest lowers uppers unknown"
| "classify_bounds now revis ((Some b, lower) # rest) lowers uppers unknown =
     (if \<not> is_active b (Some now) (if revis = [] then None else Some revis)
      then classify_bounds now revis rest lowers uppers True
      else if \<not> confirmed b then classify_bounds now revis rest lowers uppers True
      else if bound_retryable b then Inl b
      else if lower then classify_bounds now revis rest (lowers @ [b]) uppers unknown
      else classify_bounds now revis rest lowers (uppers @ [b]) unknown)"

text \<open>\<open>max(..., key=value_ms, default=None)\<close> and \<open>min\<close>: the first of equal bounds wins.\<close>

fun max_bound :: "time_bound list \<Rightarrow> time_bound option" where
  "max_bound [] = None"
| "max_bound (b # bs) = Some (foldl (\<lambda>m x. if value_ms x > value_ms m then x else m) b bs)"

fun min_bound :: "time_bound list \<Rightarrow> time_bound option" where
  "min_bound [] = None"
| "min_bound (b # bs) = Some (foldl (\<lambda>m x. if value_ms x < value_ms m then x else m) b bs)"

definition retention_bound :: "history_availability \<Rightarrow> int \<Rightarrow> time_bound list" where
  "retention_bound a now = (case rolling_retention_ms a of None \<Rightarrow> []
     | Some r \<Rightarrow> [\<lparr>value_ms = now - r, bound_reason = PROVIDER_RETENTION, bound_state = CONFIRMED,
         bound_retryable = False, bound_revision = avail_revision a, revalidate_at_ms = None,
         bound_dynamic = True\<rparr>])"

definition bound_exclusion :: "int \<Rightarrow> int \<Rightarrow> time_bound \<Rightarrow> history_exclusion" where
  "bound_exclusion s e b = \<lparr>excl_range = TimeRange s e, excl_disposition = TERMINAL,
     excl_reason = bound_reason b, excl_bound = Some b\<rparr>"

text \<open>The two clipping steps return the new effective edge and the exclusion they add.\<close>

definition clip_lower :: "time_bound option \<Rightarrow> int \<Rightarrow> int \<Rightarrow> int \<times> history_exclusion list" where
  "clip_lower lower s e = (case lower of None \<Rightarrow> (s, [])
     | Some b \<Rightarrow>
       if s < value_ms b then
         (let excluded_end = min e (value_ms b - 1) in
          (max s (value_ms b), if s \<le> excluded_end then [bound_exclusion s excluded_end b] else []))
       else (s, []))"

definition clip_upper :: "time_bound option \<Rightarrow> int \<Rightarrow> int \<Rightarrow> int \<times> history_exclusion list" where
  "clip_upper upper s e = (case upper of None \<Rightarrow> (e, [])
     | Some b \<Rightarrow>
       if e > value_ms b then
         (let excluded_start = max s (value_ms b + 1) in
          (min e (value_ms b), if excluded_start \<le> e then [bound_exclusion excluded_start e b] else []))
       else (e, []))"

section \<open>The plan\<close>

definition empty_plan :: "history_request \<Rightarrow> history_disposition \<Rightarrow> string option \<Rightarrow> history_plan" where
  "empty_plan req disp cid = \<lparr>plan_request = req, plan_disposition = disp, fetch_ranges = [],
     exclusions = [], effective_range = None, plan_terminal = False, plan_retryable = False,
     plan_unknown = False, plan_calendar_id = cid, plan_retry_at_ms = None\<rparr>"

text \<open>
  The tail of a K-line request: the effective end moves to the open of the bar that holds
  it, and a bar that is still forming is cut off. \<open>None\<close> is a search that does not return.
\<close>

definition kline_tail :: "trading_calendar \<Rightarrow> int \<Rightarrow> string \<Rightarrow> string \<Rightarrow> int \<Rightarrow> int \<Rightarrow>
    (int \<times> history_exclusion list) res option" where
  "kline_tail cal now iv revis s e =
     bindo (Some (last_expected_open cal s e iv)) (\<lambda>requested_end_open.
     bindo (latest_closed_expected_open_ms cal now iv requested_end_open) (\<lambda>last_closed.
       case requested_end_open of None \<Rightarrow> Some (Inr (e, []))
       | Some q \<Rightarrow>
         if (case last_closed of None \<Rightarrow> True | Some c \<Rightarrow> q > c) then
           (let excluded_start = max s q;
                new_end = (case last_closed of None \<Rightarrow> s - 1 | Some c \<Rightarrow> min q c) in
            if excluded_start \<le> q then
              bindo (Some (open_segments cal excluded_start q iv)) (\<lambda>tail.
                let reason = (if tail \<noteq> [] then FORMING_BAR else MARKET_CLOSED);
                    b = \<lparr>value_ms = (case last_closed of None \<Rightarrow> q | Some c \<Rightarrow> c),
                      bound_reason = reason, bound_state = CONFIRMED, bound_retryable = False,
                      bound_revision = revis, revalidate_at_ms = None, bound_dynamic = True\<rparr> in
                Some (Inr (new_end, [\<lparr>excl_range = TimeRange excluded_start q,
                  excl_disposition = NOT_EXPECTED, excl_reason = reason, excl_bound = Some b\<rparr>])))
            else Some (Inr (new_end, [])))
         else Some (Inr (q, []))))"

definition excluded_plan :: "history_request \<Rightarrow> string option \<Rightarrow> time_bound option \<Rightarrow> time_bound option \<Rightarrow>
    bool \<Rightarrow> history_exclusion list \<Rightarrow> history_plan" where
  "excluded_plan req cid lower upper unknown excl =
     (let deciding = (case lower of None \<Rightarrow> upper | Some b \<Rightarrow> Some b);
          excl' = (if excl = [] then [\<lparr>excl_range = TimeRange (req_start_ms req) (req_end_ms req),
              excl_disposition = TERMINAL,
              excl_reason = (case deciding of None \<Rightarrow> AVAILABILITY_UNKNOWN | Some b \<Rightarrow> bound_reason b),
              excl_bound = deciding\<rparr>] else excl);
          terminal = (\<exists>x\<in>set excl'. excl_disposition x = TERMINAL) in
      (empty_plan req (if terminal then TERMINAL else NOT_EXPECTED) cid)
        \<lparr>exclusions := excl', plan_terminal := terminal, plan_unknown := unknown\<rparr>)"

definition segment_plan :: "trading_calendar \<Rightarrow> history_request \<Rightarrow> bool \<Rightarrow>
    history_exclusion list \<Rightarrow> int \<Rightarrow> int \<Rightarrow> history_plan res" where
  "segment_plan cal req unknown excl s e =
     bindr (new_time_range s e) (\<lambda>effective.
     bindr (open_segments cal (start_ms effective) (end_ms effective) (req_interval req)) (\<lambda>raw.
       let segments = normalise_segments raw effective;
           excl' = sort_key (\<lambda>x. start_ms (excl_range x)) (excl @ closed_ranges effective segments);
           disp = (if unknown then UNKNOWN else if segments = [] then NOT_EXPECTED else FETCH) in
       Inr ((empty_plan req disp (Some (calendar_id cal)))
         \<lparr>fetch_ranges := segments, exclusions := excl', effective_range := Some effective,
          plan_unknown := unknown\<rparr>)))"

definition bounded_plan :: "trading_calendar \<Rightarrow> history_request \<Rightarrow> history_availability \<Rightarrow> int \<Rightarrow>
    time_bound option \<Rightarrow> time_bound option \<Rightarrow> bool \<Rightarrow> history_plan res option" where
  "bounded_plan cal req avail now lower upper unknown =
     (let (s, lower_excl) = clip_lower lower (req_start_ms req) (req_end_ms req);
          (e, upper_excl) = clip_upper upper s (req_end_ms req) in
      bindo (if key_channel (req_series req) = ''kline''
             then kline_tail cal now (req_interval req) (avail_revision avail) s e
             else Some (Inr (e, []))) (\<lambda>(e', tail_excl).
        let excl = lower_excl @ upper_excl @ tail_excl in
        if s > e' then Some (Inr (excluded_plan req (Some (calendar_id cal)) lower upper unknown excl))
        else Some (segment_plan cal req unknown excl s e')))"

definition history_plan_of :: "trading_calendar \<Rightarrow> history_request \<Rightarrow> history_availability \<Rightarrow> int \<Rightarrow>
    history_plan res option" where
  "history_plan_of cal req avail now =
     bindo (Some (request_range req)) (\<lambda>requested.
     let cid = Some (calendar_id cal) in
     if avail_disposition avail = RETRYABLE then
       Some (Inr ((empty_plan req RETRYABLE cid)
         \<lparr>exclusions := [\<lparr>excl_range = requested, excl_disposition = RETRYABLE,
            excl_reason = (case status_reason avail of None \<Rightarrow> TEMPORARY_UNAVAILABLE | Some r \<Rightarrow> r),
            excl_bound = None\<rparr>], plan_retryable := True, plan_retry_at_ms := avail_retry_at_ms avail\<rparr>))
     else if avail_disposition avail = TERMINAL then
       Some (Inr ((empty_plan req TERMINAL cid)
         \<lparr>exclusions := [\<lparr>excl_range = requested, excl_disposition = TERMINAL,
            excl_reason = (case status_reason avail of None \<Rightarrow> SOURCE_EXHAUSTED | Some r \<Rightarrow> r),
            excl_bound = None\<rparr>], plan_terminal := True\<rparr>))
     else
       (case classify_bounds now (avail_revision avail)
            [(data_start avail, True), (upstream_start avail, True),
             (data_end avail, False), (upstream_end avail, False)] [] []
            (avail_disposition avail = UNKNOWN) of
          Inl b \<Rightarrow> Some (Inr ((empty_plan req RETRYABLE cid)
            \<lparr>exclusions := [\<lparr>excl_range = requested, excl_disposition = RETRYABLE,
               excl_reason = bound_reason b, excl_bound = Some b\<rparr>], plan_retryable := True,
             plan_retry_at_ms := revalidate_at_ms b\<rparr>))
        | Inr (lowers, uppers, unknown) \<Rightarrow>
            bounded_plan cal req avail now (max_bound (lowers @ retention_bound avail now))
              (min_bound uppers) unknown))"

definition fail_closed :: "history_request \<Rightarrow> boundary_reason \<Rightarrow> string option \<Rightarrow> history_plan res" where
  "fail_closed req reason cid = bindr (request_range req) (\<lambda>r.
     Inr ((empty_plan req UNKNOWN cid)
       \<lparr>exclusions := [\<lparr>excl_range = r, excl_disposition = UNKNOWN, excl_reason = reason,
          excl_bound = None\<rparr>], plan_unknown := True\<rparr>))"

section \<open>Segments are merged soundly\<close>

lemma merge_segments_spec:
  assumes "merged \<noteq> []" "ranges_ordered merged" "sorted rest" "\<forall>r\<in>set rest. wf_range r"
    "\<forall>r\<in>set rest. start_ms (last merged) \<le> start_ms r"
  shows "ranges_ordered (merge_segments merged rest)
    \<and> ranges_set (merge_segments merged rest) = ranges_set merged \<union> ranges_set rest"
  using assms
proof (induction merged rest rule: merge_segments.induct)
  case (1 merged)
  then show ?case by simp
next
  case (2 merged seg rest)
  obtain ini lst where m: "merged = ini @ [lst]" using "2.prems"(1) by (metis rev_exhaust)
  have le: "\<forall>r\<in>set rest. start_ms seg \<le> start_ms r"
    using "2.prems"(3) by (auto simp: less_eq_time_range_def)
  have ord: "ranges_ordered ini" "wf_range lst" "\<forall>a\<in>set ini. end_ms a < start_ms lst"
    and seg: "wf_range seg" "start_ms lst \<le> start_ms seg"
    using "2.prems"(2,4,5) m by (auto simp: ranges_ordered_append)
  show ?case
  proof (cases "start_ms seg \<le> end_ms lst")
    case True
    let ?m = "ini @ [TimeRange (start_ms lst) (max (end_ms lst) (end_ms seg))]"
    have "ranges_ordered ?m" using ord by (auto simp: ranges_ordered_append wf_range_def)
    moreover have "\<forall>r\<in>set rest. start_ms (last ?m) \<le> start_ms r" using le seg(2) by auto
    moreover have "ranges_set ?m = ranges_set merged \<union> range_set seg"
      using True seg ord(2) m by (auto simp: range_set_def wf_range_def)
    ultimately show ?thesis
      using "2.IH"(1)[of lst] "2.prems"(3,4) True m by (simp add: Let_def Un_assoc)
  next
    case False
    have "ranges_ordered (merged @ [seg])"
      using ord seg(1) False m by (fastforce simp: ranges_ordered_append wf_range_def)
    then show ?thesis
      using "2.IH"(2)[of lst] "2.prems"(3,4) False le m by (simp add: Let_def Un_assoc)
  qed
qed

lemma clipped_range_set:
  "ranges_set (List.map_filter (\<lambda>seg. intersection seg eff) segs) = ranges_set segs \<inter> range_set eff"
proof (induction segs)
  case (Cons seg segs)
  then show ?case using intersection_range_set[of seg eff]
    by (auto simp: map_filter_simps split: option.splits)
qed (simp add: map_filter_simps)

lemma clipped_wf: "r \<in> set (List.map_filter (\<lambda>seg. intersection seg eff) segs) \<Longrightarrow> wf_range r"
  by (auto simp: map_filter_def intersection_def Let_def split: if_splits)

lemma ranges_set_sort [simp]: "ranges_set (sort rs) = ranges_set rs"
  by (simp add: ranges_set_def)

lemma normalise_segments_spec:
  "ranges_ordered (normalise_segments segs eff)
   \<and> ranges_set (normalise_segments segs eff) = ranges_set segs \<inter> range_set eff"
proof -
  let ?c = "List.map_filter (\<lambda>seg. intersection seg eff) segs"
  have wf: "\<forall>r\<in>set (sort ?c). wf_range r" using clipped_wf by auto
  show ?thesis
  proof (cases "sort ?c")
    case Nil
    then have "?c = []" by (metis length_0_conv length_sort)
    then show ?thesis using clipped_range_set[of eff segs] by (simp add: normalise_segments_def)
  next
    case (Cons seg rest)
    have "sorted (seg # rest)" using Cons sorted_sort[of ?c] by simp
    then have "ranges_ordered (merge_segments [seg] rest)
      \<and> ranges_set (merge_segments [seg] rest) = ranges_set [seg] \<union> ranges_set rest"
      using wf unfolding Cons
      by (intro merge_segments_spec) (auto simp: less_eq_time_range_def)
    moreover have "ranges_set [seg] \<union> ranges_set rest = ranges_set ?c"
      using Cons by (metis ranges_set_simps(2) ranges_set_simps(1) ranges_set_sort Un_empty_right)
    ultimately show ?thesis
      using Cons clipped_range_set[of eff segs] by (simp add: normalise_segments_def)
  qed
qed

lemma closed_from_spec:
  assumes "ranges_ordered segs" "\<forall>r\<in>set segs. cursor \<le> start_ms r \<and> end_ms r \<le> stop"
  shows "ranges_set (map excl_range (closed_from cursor stop segs)) = {cursor..stop} - ranges_set segs"
  using assms
proof (induction cursor stop segs rule: closed_from.induct)
  case (1 cursor stop)
  then show ?case by (simp add: closed_exclusion_def)
next
  case (2 cursor stop seg rest)
  have wf: "start_ms seg \<le> end_ms seg" and after: "\<forall>r\<in>set rest. end_ms seg < start_ms r"
    and le: "cursor \<le> start_ms seg" "end_ms seg \<le> stop"
    using "2.prems" by (auto simp: wf_range_def)
  have cur: "max cursor (end_ms seg + 1) = end_ms seg + 1" using wf le by simp
  have IH: "ranges_set (map excl_range (closed_from (end_ms seg + 1) stop rest))
      = {end_ms seg + 1..stop} - ranges_set rest"
    using "2.IH" "2.prems" after unfolding cur by fastforce
  have "ranges_set rest \<subseteq> {end_ms seg + 1..}"
    using after by (fastforce simp: ranges_set_def range_set_def)
  then show ?case using IH wf le unfolding closed_from.simps cur
    by (auto simp: closed_exclusion_def range_set_def)
qed

lemma ranges_set_bounds:
  assumes "ranges_ordered segs" "ranges_set segs \<subseteq> {a..b}" "r \<in> set segs"
  shows "a \<le> start_ms r \<and> end_ms r \<le> b"
proof -
  have "wf_range r" using assms(1,3) by (simp add: ranges_ordered_def)
  then have "start_ms r \<in> ranges_set segs" "end_ms r \<in> ranges_set segs"
    using assms(3) by (auto simp: ranges_set_def range_set_def wf_range_def)
  then show ?thesis using assms(2) by auto
qed

text \<open>The calendar split of an effective range is a partition: the fetch ranges and the
  market-closed ranges together cover every millisecond of it and never overlap, and the
  fetch ranges are in order and pairwise disjoint.\<close>

lemma closed_ranges_partition:
  assumes "wf_range eff" and "segments = normalise_segments raw eff"
  shows "ranges_ordered segments
    \<and> ranges_set (map excl_range (closed_ranges eff segments)) \<union> ranges_set segments = range_set eff
    \<and> ranges_set (map excl_range (closed_ranges eff segments)) \<inter> ranges_set segments = {}"
proof -
  have ord: "ranges_ordered segments" and sub: "ranges_set segments \<subseteq> {start_ms eff..end_ms eff}"
    using normalise_segments_spec[of raw eff] assms(2) by (auto simp: range_set_def)
  have "ranges_set (map excl_range (closed_ranges eff segments)) = range_set eff - ranges_set segments"
  proof (cases "segments = []")
    case True
    then show ?thesis by (simp add: closed_ranges_def closed_exclusion_def range_set_def)
  next
    case False
    then show ?thesis using closed_from_spec[OF ord] ranges_set_bounds[OF ord sub]
      by (simp add: closed_ranges_def range_set_def)
  qed
  then show ?thesis using ord sub by (auto simp: range_set_def)
qed

section \<open>Bounds are respected\<close>

lemma classify_bounds_keep:
  "classify_bounds now revis items ls us u = Inr (ls', us', u') \<Longrightarrow> set ls \<subseteq> set ls' \<and> set us \<subseteq> set us'"
  by (induction now revis items ls us u rule: classify_bounds.induct) (auto split: if_splits)

definition usable_bound :: "int \<Rightarrow> string \<Rightarrow> time_bound \<Rightarrow> bool" where
  "usable_bound now revis b \<longleftrightarrow> is_active b (Some now) (if revis = [] then None else Some revis) \<and> confirmed b"

lemma classify_bounds_usable:
  assumes "classify_bounds now revis items ls us u = Inr (ls', us', u')"
    and "(Some b, lower) \<in> set items" "usable_bound now revis b"
  shows "if lower then b \<in> set ls' else b \<in> set us'"
  using assms
proof (induction now revis items ls us u rule: classify_bounds.induct)
  case (3 now revis b' lower' rest lowers uppers unknown)
  then show ?case
    by (auto simp: usable_bound_def split: if_splits dest: classify_bounds_keep)
qed auto

lemma fold_max_bound:
  "value_ms (foldl (\<lambda>m x. if value_ms x > value_ms m then x else m) b bs) \<ge> value_ms b
   \<and> (\<forall>x\<in>set bs. value_ms x \<le> value_ms (foldl (\<lambda>m x. if value_ms x > value_ms m then x else m) b bs))"
proof (induction bs arbitrary: b)
  case (Cons a bs)
  show ?case using Cons[of "if value_ms a > value_ms b then a else b"] by (auto split: if_splits)
qed simp

lemma fold_min_bound:
  "value_ms (foldl (\<lambda>m x. if value_ms x < value_ms m then x else m) b bs) \<le> value_ms b
   \<and> (\<forall>x\<in>set bs. value_ms x \<ge> value_ms (foldl (\<lambda>m x. if value_ms x < value_ms m then x else m) b bs))"
proof (induction bs arbitrary: b)
  case (Cons a bs)
  show ?case using Cons[of "if value_ms a < value_ms b then a else b"] by (auto split: if_splits)
qed simp

lemma max_bound_upper: "b \<in> set bs \<Longrightarrow> \<exists>m. max_bound bs = Some m \<and> value_ms b \<le> value_ms m"
  using fold_max_bound[of "hd bs" "tl bs"] by (cases bs) auto

lemma min_bound_lower: "b \<in> set bs \<Longrightarrow> \<exists>m. min_bound bs = Some m \<and> value_ms m \<le> value_ms b"
  using fold_min_bound[of "hd bs" "tl bs"] by (cases bs) auto

lemma clip_lower_spec:
  "clip_lower lower s e = (s', x) \<Longrightarrow> s \<le> s' \<and> (\<forall>b. lower = Some b \<longrightarrow> value_ms b \<le> s')"
  by (auto simp: clip_lower_def Let_def split: option.splits if_splits)

lemma clip_upper_spec:
  "clip_upper upper s e = (e', x) \<Longrightarrow> e' \<le> e \<and> (\<forall>b. upper = Some b \<longrightarrow> e' \<le> value_ms b)"
  by (auto simp: clip_upper_def Let_def split: option.splits if_splits)

context lawful_calendar
begin

definition closed_edge :: "int \<Rightarrow> int \<Rightarrow> int \<Rightarrow> int \<Rightarrow> bool" where
  "closed_edge now s e e' \<longleftrightarrow> E \<inter> {s..e} = {}
     \<or> (e' \<in> E \<and> (\<exists>x. expected_bucket_end_ms cal e' iv = Inr x \<and> x \<le> now))"

lemma kline_tail_spec:
  assumes k: "kline_tail cal now iv revis s e = Some (Inr (e', excl))" and le: "s \<le> e'"
  shows "e' \<le> e \<and> closed_edge now s e e'"
proof -
  obtain q c where q: "last_expected_open cal s e iv = Inr q"
    and c: "latest_closed_expected_open_ms cal now iv q = Some (Inr c)"
    using k by (auto simp: kline_tail_def res_simps)
  note gl = last_law[OF q]
  show ?thesis
  proof (cases q)
    case None
    then show ?thesis using k q c gl
      by (auto simp: kline_tail_def greatest_in_def closed_edge_def)
  next
    case (Some q')
    have qe: "q' \<le> e" "s \<le> q'" using gl Some by (auto simp: greatest_in_def)
    obtain c' where c': "c = Some c'"
      using k q c le Some by (cases c) (auto simp: kline_tail_def Let_def res_simps split: if_splits)
    have lc: "c' \<in> E" "c' \<le> q'" "\<exists>x. expected_bucket_end_ms cal c' iv = Inr x \<and> x \<le> now"
      using latest_closed_correct[OF c[unfolded c' Some]] by auto
    have "e' = c'"
      using k q c Some c' lc(2)
      by (auto simp: kline_tail_def Let_def res_simps split: if_splits)
    then show ?thesis using lc qe by (simp add: closed_edge_def)
  qed
qed

lemma segment_plan_fields:
  assumes "segment_plan cal req unknown excl s e = Inr p" "req_interval req = iv"
  shows "effective_range p = Some (TimeRange s e) \<and> s \<le> e \<and> ranges_ordered (fetch_ranges p)
    \<and> ranges_set (fetch_ranges p) \<subseteq> {s..e} \<and> E \<inter> {s..e} \<subseteq> ranges_set (fetch_ranges p)"
proof -
  obtain raw where se: "s \<le> e" and raw: "open_segments cal s e iv = Inr raw"
    and f: "fetch_ranges p = normalise_segments raw (TimeRange s e)"
    and eff: "effective_range p = Some (TimeRange s e)"
    using assms by (auto simp: segment_plan_def res_simps Let_def)
  show ?thesis using normalise_segments_spec[of raw "TimeRange s e"] segments_law[OF raw] se eff f
    by auto
qed

lemma bounded_plan_fields:
  assumes "bounded_plan cal req avail now lower upper unknown = Some (Inr p)" "req_interval req = iv"
    "req_start_ms req \<le> req_end_ms req"
  shows "fetch_ranges p = [] \<and> effective_range p = None \<or> (\<exists>s e e'. effective_range p = Some (TimeRange s e')
    \<and> req_start_ms req \<le> s \<and> e' \<le> e \<and> e \<le> req_end_ms req
    \<and> (\<forall>b. lower = Some b \<longrightarrow> value_ms b \<le> s) \<and> (\<forall>b. upper = Some b \<longrightarrow> e \<le> value_ms b)
    \<and> (key_channel (req_series req) = ''kline'' \<longrightarrow> closed_edge now s e e')
    \<and> ranges_ordered (fetch_ranges p) \<and> ranges_set (fetch_ranges p) \<subseteq> {s..e'}
    \<and> E \<inter> {s..e'} \<subseteq> ranges_set (fetch_ranges p))"
proof -
  obtain s lx where s: "clip_lower lower (req_start_ms req) (req_end_ms req) = (s, lx)" by fastforce
  obtain e ux where e: "clip_upper upper s (req_end_ms req) = (e, ux)" by fastforce
  obtain e' tx where k: "(if key_channel (req_series req) = ''kline''
       then kline_tail cal now (req_interval req) (avail_revision avail) s e else Some (Inr (e, [])))
       = Some (Inr (e', tx))"
    and p: "(if s > e' then Some (Inr (excluded_plan req (Some (calendar_id cal)) lower upper unknown (lx @ ux @ tx)))
       else Some (segment_plan cal req unknown (lx @ ux @ tx) s e')) = Some (Inr p)"
    using assms(1) by (auto simp: bounded_plan_def s e res_simps Let_def)
  show ?thesis
  proof (cases "s > e'")
    case True
    then show ?thesis using p by (auto simp: excluded_plan_def empty_plan_def Let_def)
  next
    case False
    then have sp: "segment_plan cal req unknown (lx @ ux @ tx) s e' = Inr p" and le: "s \<le> e'"
      using p by simp_all
    have "e' \<le> e \<and> (key_channel (req_series req) = ''kline'' \<longrightarrow> closed_edge now s e e')"
    proof (cases "key_channel (req_series req) = ''kline''")
      case True
      then have kt: "kline_tail cal now iv (avail_revision avail) s e = Some (Inr (e', tx))"
        using k assms(2) by simp
      show ?thesis using kline_tail_spec[OF kt le] by simp
    next
      case False
      then show ?thesis using k by auto
    qed
    then show ?thesis
      using segment_plan_fields[OF sp assms(2)] clip_lower_spec[OF s] clip_upper_spec[OF e] by blast
  qed
qed


lemma history_plan_fields:
  assumes "history_plan_of cal req avail now = Some (Inr p)" "req_interval req = iv"
  shows "fetch_ranges p = [] \<and> effective_range p = None \<or> (\<exists>lowers uppers unknown.
     classify_bounds now (avail_revision avail)
            [(data_start avail, True), (upstream_start avail, True),
             (data_end avail, False), (upstream_end avail, False)] [] []
            (avail_disposition avail = UNKNOWN) = Inr (lowers, uppers, unknown)
     \<and> req_start_ms req \<le> req_end_ms req
     \<and> bounded_plan cal req avail now (max_bound (lowers @ retention_bound avail now))
              (min_bound uppers) unknown = Some (Inr p))"
  using assms
  by (auto simp: history_plan_of_def request_range_def res_simps Let_def empty_plan_def
      split: if_splits sum.splits)

end

section \<open>Properties of the planner\<close>

definition respects_bounds :: "history_availability \<Rightarrow> int \<Rightarrow> int set \<Rightarrow> bool" where
  "respects_bounds avail now T \<longleftrightarrow>
     (\<forall>b. (data_start avail = Some b \<or> upstream_start avail = Some b)
        \<and> usable_bound now (avail_revision avail) b \<longrightarrow> T \<subseteq> {value_ms b..})
     \<and> (\<forall>b. (data_end avail = Some b \<or> upstream_end avail = Some b)
        \<and> usable_bound now (avail_revision avail) b \<longrightarrow> T \<subseteq> {..value_ms b})
     \<and> (\<forall>r. rolling_retention_ms avail = Some r \<longrightarrow> T \<subseteq> {now - r..})"

lemma bounded_respects:
  assumes "classify_bounds now (avail_revision avail)
            [(data_start avail, True), (upstream_start avail, True),
             (data_end avail, False), (upstream_end avail, False)] [] [] u0 = Inr (lowers, uppers, unknown)"
    and lo: "\<forall>b. max_bound (lowers @ retention_bound avail now) = Some b \<longrightarrow> value_ms b \<le> s"
    and hi: "\<forall>b. min_bound uppers = Some b \<longrightarrow> e \<le> value_ms b"
  shows "respects_bounds avail now {s..e}"
proof -
  note us = classify_bounds_usable[OF assms(1)]
  have lower: "value_ms b \<le> s" if "b \<in> set (lowers @ retention_bound avail now)" for b
    using max_bound_upper[OF that] lo by force
  have upper: "e \<le> value_ms b" if "b \<in> set uppers" for b
    using min_bound_lower[OF that] hi by force
  have "b \<in> set lowers" if "data_start avail = Some b \<or> upstream_start avail = Some b"
    "usable_bound now (avail_revision avail) b" for b
    using us[of b True] that by auto
  moreover have "b \<in> set uppers" if "data_end avail = Some b \<or> upstream_end avail = Some b"
    "usable_bound now (avail_revision avail) b" for b
    using us[of b False] that by auto
  moreover have "now - r \<le> s" if "rolling_retention_ms avail = Some r" for r
    using lower that by (force simp: retention_bound_def)
  ultimately show ?thesis using lower upper unfolding respects_bounds_def by fastforce
qed

lemma respects_bounds_mono: "respects_bounds avail now T \<Longrightarrow> S \<subseteq> T \<Longrightarrow> respects_bounds avail now S"
  unfolding respects_bounds_def by (meson subset_trans)

text \<open>C12: Whatever a plan fetches was asked for and is allowed: the fetch ranges are ordered and
  disjoint, lie inside the request, and respect every active confirmed lifetime bound on
  either side and the provider's rolling retention, for any lawful calendar.\<close>

theorem plan_fetch_allowed:
  assumes "lawful_calendar cal (req_interval req) E"
    and "history_plan_of cal req avail now = Some (Inr p)"
  shows "ranges_ordered (fetch_ranges p)
    \<and> ranges_set (fetch_ranges p) \<subseteq> {req_start_ms req..req_end_ms req}
    \<and> respects_bounds avail now (ranges_set (fetch_ranges p))"
proof -
  note fields = lawful_calendar.history_plan_fields[OF assms(1,2) refl]
  show ?thesis
  proof (cases "fetch_ranges p = []")
    case True
    then show ?thesis by (simp add: respects_bounds_def)
  next
    case False
    then obtain lowers uppers unknown where cb: "classify_bounds now (avail_revision avail)
            [(data_start avail, True), (upstream_start avail, True),
             (data_end avail, False), (upstream_end avail, False)] [] []
            (avail_disposition avail = UNKNOWN) = Inr (lowers, uppers, unknown)"
      and le: "req_start_ms req \<le> req_end_ms req"
      and bp: "bounded_plan cal req avail now (max_bound (lowers @ retention_bound avail now))
              (min_bound uppers) unknown = Some (Inr p)"
      using fields by blast
    obtain s e e' where f: "req_start_ms req \<le> s" "e' \<le> e" "e \<le> req_end_ms req"
      "\<forall>b. max_bound (lowers @ retention_bound avail now) = Some b \<longrightarrow> value_ms b \<le> s"
      "\<forall>b. min_bound uppers = Some b \<longrightarrow> e \<le> value_ms b"
      "ranges_ordered (fetch_ranges p)" "ranges_set (fetch_ranges p) \<subseteq> {s..e'}"
      using lawful_calendar.bounded_plan_fields[OF assms(1) bp refl le] False by blast
    have sub: "ranges_set (fetch_ranges p) \<subseteq> {s..e}" using f(2,7) by fastforce
    show ?thesis
      using f(1,3,6) sub respects_bounds_mono[OF bounded_respects[OF cb f(4,5)] sub] by fastforce
  qed
qed

text \<open>C34: A plan misses no bar of its effective range: every expected open inside it lies in a
  fetch range. For K-lines the range ends at a bar that is already closed at \<open>now\<close> (or holds
  no expected bar at all), so no forming bar is fetched as history.\<close>

theorem plan_fetch_complete:
  assumes "lawful_calendar cal (req_interval req) E"
    and "history_plan_of cal req avail now = Some (Inr p)"
    and "effective_range p = Some r"
  shows "E \<inter> range_set r \<subseteq> ranges_set (fetch_ranges p)
    \<and> (key_channel (req_series req) = ''kline'' \<longrightarrow> E \<inter> range_set r = {}
        \<or> (end_ms r \<in> E \<and> (\<exists>x. expected_bucket_end_ms cal (end_ms r) (req_interval req) = Inr x \<and> x \<le> now)))"
proof -
  obtain lowers uppers unknown where le: "req_start_ms req \<le> req_end_ms req"
    and bp: "bounded_plan cal req avail now (max_bound (lowers @ retention_bound avail now))
              (min_bound uppers) unknown = Some (Inr p)"
    using lawful_calendar.history_plan_fields[OF assms(1,2) refl] assms(3) by auto
  obtain s e e' where f: "r = TimeRange s e'" "e' \<le> e" "E \<inter> {s..e'} \<subseteq> ranges_set (fetch_ranges p)"
    "key_channel (req_series req) = ''kline'' \<longrightarrow> lawful_calendar.closed_edge cal (req_interval req) E now s e e'"
    using lawful_calendar.bounded_plan_fields[OF assms(1) bp refl le] assms(3) by auto
  have "E \<inter> {s..e'} \<subseteq> E \<inter> {s..e}" using f(2) by auto
  then show ?thesis using f lawful_calendar.closed_edge_def[OF assms(1)] by auto
qed

section \<open>A worked request\<close>

definition hour_key :: history_series_key where
  "hour_key = \<lparr>key_exchange = ''binance'', key_market_type = ''spot'', key_symbol = ''BTCUSDT'',
     key_channel = ''kline'', key_variant = ''1h'', key_params_hash = []\<rparr>"

definition hour_request :: history_request where
  "hour_request = \<lparr>req_series = hour_key, req_interval = ''1h'', req_start_ms = 28800000,
     req_end_ms = 54000000\<rparr>"

abbreviation hour_calendar :: trading_calendar where
  "hour_calendar \<equiv> always_open_calendar ''crypto.24x7.utc''"

text \<open>At 10:00:00.001 a request for 08:00 to 15:00 is planned; the last closed bar is 09:00.\<close>

lemma hour_latest_closed:
  "latest_closed_expected_open_ms hour_calendar 36000001 ''1h'' (Some 54000000) = Some (Inr (Some 32400000))"
proof -
  have "ao_last (max 0 (36000001 - SEARCH_HORIZON_MS)) 36000001 ''1h'' = Inr (Some 36000000)"
    "expected_bucket_end_ms hour_calendar 36000000 ''1h'' = Inr 39600000"
    "expected_bucket_end_ms hour_calendar 32400000 ''1h'' = Inr 36000000"
    "ao_previous 36000000 ''1h'' = Inr (Some 32400000)"
    "parse_interval_ms ''1h'' = Some 3600000" by code_simp+
  then show ?thesis by (simp add: latest_closed_expected_open_ms_def closed_search.simps)
qed

lemma hour_tail:
  "kline_tail hour_calendar 36000001 ''1h'' [] 28800000 54000000 = Some (Inr (32400000,
     [\<lparr>excl_range = TimeRange 54000000 54000000, excl_disposition = NOT_EXPECTED,
       excl_reason = FORMING_BAR, excl_bound = Some \<lparr>value_ms = 32400000, bound_reason = FORMING_BAR,
         bound_state = CONFIRMED, bound_retryable = False, bound_revision = [],
         revalidate_at_ms = None, bound_dynamic = True\<rparr>\<rparr>]))"
proof -
  have "ao_last 28800000 54000000 ''1h'' = Inr (Some 54000000)"
    "ao_open_segments 54000000 54000000 ''1h'' = Inr [TimeRange 54000000 54000000]" by code_simp+
  then show ?thesis by (simp add: kline_tail_def hour_latest_closed Let_def)
qed

lemma hour_plan:
  "\<exists>p. history_plan_of hour_calendar hour_request default_availability 36000001 = Some (Inr p)
    \<and> fetch_ranges p = [TimeRange 28800000 32400000]
    \<and> effective_range p = Some (TimeRange 28800000 32400000)
    \<and> map excl_range (exclusions p) = [TimeRange 54000000 54000000]"
proof -
  have seg: "ao_open_segments 28800000 32400000 ''1h'' = Inr [TimeRange 28800000 32400000]" by code_simp
  have norm: "normalise_segments [TimeRange 28800000 32400000] (TimeRange 28800000 32400000)
      = [TimeRange 28800000 32400000]" by code_simp
  show ?thesis
    by (simp add: history_plan_of_def bounded_plan_def segment_plan_def request_range_def
        hour_request_def hour_key_def default_availability_def clip_lower_def clip_upper_def
        retention_bound_def hour_tail seg norm Let_def closed_ranges_def empty_plan_def new_time_range_def)
qed

text \<open>A request that reaches past the forming bar leaves bars unaccounted for: here the bars
  from 10:00 to 14:00 are expected by the calendar and requested, yet lie in no fetch range
  and in no exclusion, because the forming tail is excluded from the last requested bar and
  not, as the comment in the planner has it, from the first forming one.\<close>

lemma plan_forming_tail_gap:
  "\<exists>p. history_plan_of hour_calendar hour_request default_availability 36000001 = Some (Inr p)
     \<and> req_start_ms hour_request \<le> 36000000 \<and> 36000000 \<le> req_end_ms hour_request
     \<and> 36000000 \<in> always_expected (req_interval hour_request)
     \<and> 36000000 \<notin> ranges_set (fetch_ranges p) \<union> ranges_set (map excl_range (exclusions p))"
proof -
  obtain p where p: "history_plan_of hour_calendar hour_request default_availability 36000001 = Some (Inr p)"
    "fetch_ranges p = [TimeRange 28800000 32400000]"
    "map excl_range (exclusions p) = [TimeRange 54000000 54000000]" using hour_plan by (elim exE conjE) (rule that; assumption)
  have "boundary (the (parse_interval_spec ''1h'')) 36000000 \<and> parse_interval_spec ''1h'' \<noteq> None"
    by code_simp
  then have "36000000 \<in> always_expected (req_interval hour_request)"
    unfolding hour_request_def history_request.simps by (auto simp: always_expected_def)
  moreover have "36000000 \<notin> ranges_set (fetch_ranges p) \<union> ranges_set (map excl_range (exclusions p))"
    unfolding p(2,3) by (simp add: ranges_set_def)
  moreover have "req_start_ms hour_request \<le> 36000000 \<and> 36000000 \<le> req_end_ms hour_request"
    by (simp add: hour_request_def)
  ultimately show ?thesis using p(1) by blast
qed

section \<open>Witnesses\<close>

lemma closed_ranges_partition_example:
  "ranges_set (map excl_range (closed_ranges (TimeRange 0 99) [TimeRange 10 19, TimeRange 30 39])) \<union>
     ranges_set [TimeRange 10 19, TimeRange 30 39] = {0..(99::int)}"
proof -
  have n: "[TimeRange 10 19, TimeRange 30 39] = normalise_segments [TimeRange 30 39, TimeRange 10 19] (TimeRange 0 99)"
    by code_simp
  show ?thesis using closed_ranges_partition[OF _ n] by (simp only: wf_range_TimeRange range_set_TimeRange)
qed

lemma hour_lawful: "lawful_calendar hour_calendar (req_interval hour_request) (always_expected ''1h'')"
proof -
  have "req_interval hour_request = ''1h''" by (simp add: hour_request_def)
  then show ?thesis using ao.lawful_calendar_axioms[of "''crypto.24x7.utc''" "''1h''"] by simp
qed

theorem plan_fetch_allowed_witness:
  "\<exists>p. history_plan_of hour_calendar hour_request default_availability 36000001 = Some (Inr p)
     \<and> fetch_ranges p = [TimeRange 28800000 32400000]
     \<and> ranges_set (fetch_ranges p) \<subseteq> {28800000..54000000}"
proof -
  obtain p where p: "history_plan_of hour_calendar hour_request default_availability 36000001 = Some (Inr p)"
    "fetch_ranges p = [TimeRange 28800000 32400000]" using hour_plan by (elim exE conjE) (rule that; assumption)
  show ?thesis using plan_fetch_allowed[OF hour_lawful p(1)] p
    by (intro exI[of _ p]) (simp add: hour_request_def)
qed

theorem plan_fetch_complete_witness:
  "\<exists>p. history_plan_of hour_calendar hour_request default_availability 36000001 = Some (Inr p)
     \<and> always_expected ''1h'' \<inter> {28800000..32400000} \<subseteq> ranges_set (fetch_ranges p)"
proof -
  obtain p where p: "history_plan_of hour_calendar hour_request default_availability 36000001 = Some (Inr p)"
    "effective_range p = Some (TimeRange 28800000 32400000)" using hour_plan by (elim exE conjE) (rule that; assumption)
  show ?thesis using plan_fetch_complete[OF hour_lawful p] p(1) by (intro exI[of _ p]) simp
qed

end
