(* ===== verification/GapDetector.thy ===== *)
theory GapDetector
  imports TradingCalendar
begin

text \<open>
  Detection of missing bars (\<open>backend/app/data_engine/backfill/gap_detector.py\<close>): what the
  calendar expects is compared with what the storage holds, as head, tail and interior gaps.
  Storage is the four queries the detector sends; the calendar is any record of
  \<open>TradingCalendar\<close>. Soundness and completeness are proved over the calendar interface.
\<close>

section \<open>Gaps, configuration, storage\<close>

datatype gap_type = TAIL | HEAD | INTERIOR

record gap_info =
  gap_symbol :: string
  gap_interval :: string
  gap_kind :: gap_type
  gap_start_ms :: int
  gap_end_ms :: int
  missing_bars :: int
  gap_exchange :: string
  gap_db_latest_ms :: "int option"
  gap_reference_ms :: "int option"
  gap_market_type :: string

record gap_config =
  gap_tolerance_bars :: int
  gap_max_interior_holes :: int
  gap_scan_interior :: bool

record storage_backend =
  get_earliest_time :: "int option res"
  get_latest_time :: "int option res"
  get_existing_open_times :: "int \<Rightarrow> int \<Rightarrow> int list res"
  query_time_range :: "int \<Rightarrow> int \<Rightarrow> int list res"

record gap_series =
  gs_symbol :: string
  gs_interval :: string
  gs_exchange :: string
  gs_market_type :: string

definition gap_of ::
    "gap_series \<Rightarrow> gap_type \<Rightarrow> int option \<Rightarrow> int \<Rightarrow> int \<Rightarrow> int \<Rightarrow> int \<Rightarrow> gap_info" where
  "gap_of ser kind latest ref s e n = \<lparr>gap_symbol = gs_symbol ser, gap_interval = gs_interval ser,
     gap_kind = kind, gap_start_ms = s, gap_end_ms = e, missing_bars = n,
     gap_exchange = gs_exchange ser, gap_db_latest_ms = latest, gap_reference_ms = Some ref,
     gap_market_type = gs_market_type ser\<rparr>"

text \<open>
  The shape every case shares: count the expected opens from \<open>s\<close> to \<open>e\<close> and report them when
  they exceed the tolerance. \<open>range_gap\<close> is the guarded form of the interior scan, where the
  last missing open may be absent and an empty range counts zero.
\<close>

definition counted_gap :: "trading_calendar \<Rightarrow> gap_config \<Rightarrow> string \<Rightarrow>
    (int \<Rightarrow> int \<Rightarrow> int \<Rightarrow> gap_info) \<Rightarrow> int \<Rightarrow> int \<Rightarrow> gap_info list res" where
  "counted_gap cal cfg iv mk s e = bindr (count_expected cal s e iv) (\<lambda>missing.
     Inr (if missing > gap_tolerance_bars cfg then [mk s e missing] else []))"

definition range_gap :: "trading_calendar \<Rightarrow> gap_config \<Rightarrow> string \<Rightarrow>
    (int \<Rightarrow> int \<Rightarrow> int \<Rightarrow> gap_info) \<Rightarrow> int \<Rightarrow> int option \<Rightarrow> gap_info list res" where
  "range_gap cal cfg iv mk s gap_end = (case gap_end of None \<Rightarrow> Inr []
     | Some e \<Rightarrow>
       if s \<le> e then counted_gap cal cfg iv mk s e
       else Inr (if 0 > gap_tolerance_bars cfg then [mk s e 0] else []))"

section \<open>Interior holes\<close>

definition hole_between :: "trading_calendar \<Rightarrow> gap_config \<Rightarrow> string \<Rightarrow>
    (int \<Rightarrow> int \<Rightarrow> int \<Rightarrow> gap_info) \<Rightarrow> int \<Rightarrow> int \<Rightarrow> gap_info list res" where
  "hole_between cal cfg iv mk current next_time =
     bindr (next_expected_open cal current iv) (\<lambda>expected_next.
       case expected_next of None \<Rightarrow> Inr []
       | Some n \<Rightarrow>
         if next_time > n then bindr (previous_expected_open cal next_time iv) (\<lambda>gap_end.
           range_gap cal cfg iv mk n gap_end)
         else Inr [])"

text \<open>The scan over consecutive stored opens; it returns the gaps and the hole count.\<close>

fun hole_scan :: "trading_calendar \<Rightarrow> gap_config \<Rightarrow> string \<Rightarrow> (int \<Rightarrow> int \<Rightarrow> int \<Rightarrow> gap_info) \<Rightarrow>
    int \<Rightarrow> int list \<Rightarrow> (gap_info list \<times> int) res" where
  "hole_scan cal cfg iv mk holes (current # next_time # rest) =
     (if holes \<ge> gap_max_interior_holes cfg then Inr ([], holes)
      else bindr (hole_between cal cfg iv mk current next_time) (\<lambda>found.
        bindr (hole_scan cal cfg iv mk (holes + int (length found)) (next_time # rest)) (\<lambda>(gaps, h).
          Inr (found @ gaps, h))))"
| "hole_scan cal cfg iv mk holes ts = Inr ([], holes)"

definition leading_hole :: "trading_calendar \<Rightarrow> gap_config \<Rightarrow> string \<Rightarrow>
    (int \<Rightarrow> int \<Rightarrow> int \<Rightarrow> gap_info) \<Rightarrow> int \<Rightarrow> int \<Rightarrow> gap_info list res" where
  "leading_hole cal cfg iv mk first_expected first_stored =
     (if first_stored > first_expected
      then bindr (previous_expected_open cal first_stored iv) (\<lambda>gap_end.
        range_gap cal cfg iv mk first_expected gap_end)
      else Inr [])"

definition trailing_hole :: "trading_calendar \<Rightarrow> gap_config \<Rightarrow> string \<Rightarrow>
    (int \<Rightarrow> int \<Rightarrow> int \<Rightarrow> gap_info) \<Rightarrow> int \<Rightarrow> int \<Rightarrow> int \<Rightarrow> gap_info list res" where
  "trailing_hole cal cfg iv mk holes last_stored last_expected =
     bindr (next_expected_open cal last_stored iv) (\<lambda>trailing_start.
       case trailing_start of None \<Rightarrow> Inr []
       | Some s \<Rightarrow>
         if holes < gap_max_interior_holes cfg \<and> s \<le> last_expected
         then counted_gap cal cfg iv mk s last_expected else Inr [])"

definition stored_opens :: "storage_backend \<Rightarrow> int \<Rightarrow> int \<Rightarrow> int list res" where
  "stored_opens st s e = (case get_existing_open_times st s e of
     Inr ts \<Rightarrow> Inr ts | Inl _ \<Rightarrow> query_time_range st s e)"

definition detect_interior_gaps :: "trading_calendar \<Rightarrow> gap_config \<Rightarrow> storage_backend \<Rightarrow>
    gap_series \<Rightarrow> int \<Rightarrow> int \<Rightarrow> int \<Rightarrow> gap_info list res" where
  "detect_interior_gaps cal cfg st ser scan_start scan_end ref =
     (if scan_start > scan_end then Inr []
      else bindr (stored_opens st scan_start scan_end) (\<lambda>existing.
        bindr (first_expected_open cal scan_start scan_end (gs_interval ser)) (\<lambda>f.
        bindr (last_expected_open cal scan_start scan_end (gs_interval ser)) (\<lambda>l.
          case (f, l) of
            (Some first_expected, Some last_expected) \<Rightarrow>
              (let iv = gs_interval ser;
                   ts = sort (remdups (filter (\<lambda>t. first_expected \<le> t \<and> t \<le> last_expected) existing)) in
               if ts = [] then counted_gap cal cfg iv (gap_of ser INTERIOR None ref) first_expected last_expected
               else let mk = gap_of ser INTERIOR (Some (last ts)) ref in
                 bindr (leading_hole cal cfg iv mk first_expected (hd ts)) (\<lambda>lead.
                 bindr (hole_scan cal cfg iv mk (int (length lead)) ts) (\<lambda>(holes, hole_count).
                 bindr (trailing_hole cal cfg iv mk hole_count (last ts) last_expected) (\<lambda>trail.
                   Inr (lead @ holes @ trail)))))
          | _ \<Rightarrow> Inr []))))"

section \<open>One interval\<close>

definition tail_gap :: "trading_calendar \<Rightarrow> gap_config \<Rightarrow> gap_series \<Rightarrow> int option \<Rightarrow> int \<Rightarrow>
    int \<Rightarrow> int \<Rightarrow> gap_info list res" where
  "tail_gap cal cfg ser latest ref s e =
     bindr (first_expected_open cal s e (gs_interval ser)) (\<lambda>f.
     bindr (last_expected_open cal s e (gs_interval ser)) (\<lambda>l.
       case (f, l) of
         (Some s', Some e') \<Rightarrow>
           if s' \<le> e' \<or> latest = None
           then counted_gap cal cfg (gs_interval ser) (gap_of ser TAIL latest ref) s' e' else Inr []
       | _ \<Rightarrow> Inr []))"

definition head_gap :: "trading_calendar \<Rightarrow> gap_config \<Rightarrow> gap_series \<Rightarrow> int \<Rightarrow> int \<Rightarrow>
    int \<Rightarrow> int \<Rightarrow> gap_info list res" where
  "head_gap cal cfg ser earliest latest ref range_start =
     bindr (first_expected_open cal range_start (min ref (earliest - 1)) (gs_interval ser)) (\<lambda>f.
     bindr (previous_expected_open cal earliest (gs_interval ser)) (\<lambda>head_end.
       case (f, head_end) of
         (Some s, Some e) \<Rightarrow>
           if s \<le> e then counted_gap cal cfg (gs_interval ser) (gap_of ser HEAD (Some latest) ref) s e
           else Inr []
       | _ \<Rightarrow> Inr []))"

definition detect_gaps_to :: "trading_calendar \<Rightarrow> gap_config \<Rightarrow> storage_backend \<Rightarrow> gap_series \<Rightarrow>
    int \<Rightarrow> int \<Rightarrow> int \<Rightarrow> gap_info list res" where
  "detect_gaps_to cal cfg st ser range_start range_end ref =
     bindr (get_earliest_time st) (\<lambda>db_earliest. bindr (get_latest_time st) (\<lambda>db_latest.
       case (db_earliest, db_latest) of
         (Some earliest, Some latest) \<Rightarrow>
           bindr (head_gap cal cfg ser earliest latest ref range_start) (\<lambda>head.
           bindr (tail_gap cal cfg ser (Some latest) ref (max range_start (latest + 1))
             (min range_end ref)) (\<lambda>tail.
           bindr (if gap_scan_interior cfg
             then detect_interior_gaps cal cfg st ser (max range_start earliest) (min range_end latest) ref
             else Inr []) (\<lambda>interior.
             Inr (head @ tail @ interior))))
       | _ \<Rightarrow> tail_gap cal cfg ser None ref range_start ref))"

text \<open>
  \<open>_apply_filter_and_notify\<close>: the filter keeps gaps, every callback runs on every kept gap
  and its exceptions are counted, not raised.
\<close>

definition apply_filter_and_notify :: "(gap_info \<Rightarrow> bool) option \<Rightarrow> (gap_info \<Rightarrow> unit res) list \<Rightarrow>
    gap_info list \<Rightarrow> gap_info list \<times> nat" where
  "apply_filter_and_notify flt callbacks gaps =
     (let kept = (case flt of None \<Rightarrow> gaps | Some p \<Rightarrow> filter p gaps) in
      (kept, length (filter (\<lambda>(g, cb). \<exists>e. cb g = Inl e) (List.product kept callbacks))))"

text \<open>\<open>_get_reference_time\<close>: provider first (its exceptions ignored), then the ingestion cache.\<close>

definition reference_key :: "string \<Rightarrow> string \<Rightarrow> string \<Rightarrow> string \<Rightarrow> string" where
  "reference_key exchange market_type symbol iv =
     py_lower (py_strip exchange) @ '':'' @ py_lower (py_strip market_type) @ '':'' @ symbol @ ''@'' @ iv"

definition get_reference_time :: "(string \<Rightarrow> string \<Rightarrow> string \<Rightarrow> string \<Rightarrow> int option res) option \<Rightarrow>
    (string \<rightharpoonup> int) \<Rightarrow> gap_series \<Rightarrow> int \<Rightarrow> int" where
  "get_reference_time provider cache ser fallback =
     (case (case provider of None \<Rightarrow> None
            | Some p \<Rightarrow> (case p (gs_symbol ser) (gs_interval ser) (gs_exchange ser) (gs_market_type ser) of
                Inr (Some ref) \<Rightarrow> Some ref | _ \<Rightarrow> None)) of
        Some ref \<Rightarrow> ref
      | None \<Rightarrow>
        (case cache (reference_key (gs_exchange ser) (gs_market_type ser) (gs_symbol ser) (gs_interval ser)) of
           Some ref \<Rightarrow> ref | None \<Rightarrow> fallback))"

definition update_ingestion_reference :: "(string \<rightharpoonup> int) \<Rightarrow> gap_series \<Rightarrow> int \<Rightarrow> (string \<rightharpoonup> int)" where
  "update_ingestion_reference cache ser open_time =
     (let key = reference_key (gs_exchange ser) (gs_market_type ser) (gs_symbol ser) (gs_interval ser) in
      case cache key of None \<Rightarrow> cache(key \<mapsto> open_time)
      | Some current \<Rightarrow> if open_time > current then cache(key \<mapsto> open_time) else cache)"

text \<open>
  A resolver may answer a calendar object, a registered id, nothing, or something else; it
  may also raise. \<open>None\<close> means the series is skipped.
\<close>

datatype resolved = NoCalendar | CalendarId string | CalendarObject trading_calendar | InvalidResult

record gap_detector =
  gd_config :: gap_config
  gd_storage :: "gap_series \<Rightarrow> storage_backend"
  gd_registry :: "string \<rightharpoonup> trading_calendar"
  gd_resolver :: "(string \<Rightarrow> string \<Rightarrow> string \<Rightarrow> resolved res) option"
  gd_default :: trading_calendar
  gd_provider :: "(string \<Rightarrow> string \<Rightarrow> string \<Rightarrow> string \<Rightarrow> int option res) option"
  gd_filter :: "(gap_info \<Rightarrow> bool) option"
  gd_callbacks :: "(gap_info \<Rightarrow> unit res) list"
  gd_reference :: "string \<rightharpoonup> int"

definition resolve_calendar :: "gap_detector \<Rightarrow> gap_series \<Rightarrow> trading_calendar option" where
  "resolve_calendar det ser = (case gd_resolver det of None \<Rightarrow> Some (gd_default det)
     | Some resolver \<Rightarrow> (case resolver (gs_exchange ser) (gs_market_type ser) (gs_symbol ser) of
         Inl _ \<Rightarrow> None
       | Inr NoCalendar \<Rightarrow> Some (gd_default det)
       | Inr (CalendarId cid) \<Rightarrow> if cid = [] then None else gd_registry det (py_strip cid)
       | Inr (CalendarObject cal) \<Rightarrow> Some cal
       | Inr InvalidResult \<Rightarrow> None))"

definition detect_interval :: "gap_detector \<Rightarrow> gap_series \<Rightarrow> int \<Rightarrow> int \<Rightarrow> int \<Rightarrow>
    (gap_info list \<times> nat) res option" where
  "detect_interval det ser now range_start range_end =
     (case parse_interval_ms (gs_interval ser) of None \<Rightarrow> Some (Inr ([], 0))
      | Some _ \<Rightarrow> (case resolve_calendar det ser of None \<Rightarrow> Some (Inr ([], 0))
        | Some cal \<Rightarrow>
          let reference = get_reference_time (gd_provider det) (gd_reference det) ser range_end in
          bindo (latest_closed_expected_open_ms cal now (gs_interval ser) (Some reference)) (\<lambda>last_closed.
            case last_closed of None \<Rightarrow> Some (Inr ([], 0))
            | Some c \<Rightarrow> bindo (Some (detect_gaps_to cal (gd_config det) (gd_storage det ser) ser
                range_start range_end (min reference c))) (\<lambda>gaps.
                Some (Inr (apply_filter_and_notify (gd_filter det) (gd_callbacks det) gaps))))))"

text \<open>
  \<open>detect\<close> over the intervals: an interval whose scan raises is counted and skipped, and the
  callback errors add up. A scan that does not return makes the whole call not return.
\<close>

fun detect :: "gap_detector \<Rightarrow> string \<Rightarrow> string \<Rightarrow> string \<Rightarrow> string list \<Rightarrow> int \<Rightarrow> int \<Rightarrow> int \<Rightarrow>
    (gap_info list \<times> nat \<times> nat) option" where
  "detect det symbol exchange market [] now rs re = Some ([], 0, 0)"
| "detect det symbol exchange market (iv # ivs) now rs re =
     (case detect_interval det \<lparr>gs_symbol = symbol, gs_interval = iv, gs_exchange = exchange,
          gs_market_type = market\<rparr> now rs re of
        None \<Rightarrow> None
      | Some r \<Rightarrow> Option.bind (detect det symbol exchange market ivs now rs re)
          (\<lambda>(gaps, detect_errors, callback_errors).
            Some (case r of Inl _ \<Rightarrow> (gaps, detect_errors + 1, callback_errors)
              | Inr (found, errs) \<Rightarrow> (found @ gaps, detect_errors, callback_errors + errs))))"

section \<open>What a gap report means\<close>

lemma gap_of_simps [simp]:
  "gap_start_ms (gap_of ser kind latest ref s e n) = s"
  "gap_end_ms (gap_of ser kind latest ref s e n) = e"
  "missing_bars (gap_of ser kind latest ref s e n) = n"
  "gap_kind (gap_of ser kind latest ref s e n) = kind"
  by (simp_all add: gap_of_def)

text \<open>
  \<open>gap_sound E D g\<close>: \<open>g\<close> starts and ends at expected opens, counts the expected opens between
  them, and none of those is stored. \<open>covered gs X\<close>: every member of \<open>X\<close> lies in a gap.
\<close>

definition gap_sound :: "int set \<Rightarrow> int set \<Rightarrow> gap_info \<Rightarrow> bool" where
  "gap_sound E D g \<longleftrightarrow> gap_start_ms g \<in> E \<and> gap_end_ms g \<in> E \<and> gap_start_ms g \<le> gap_end_ms g
     \<and> missing_bars g = int (card (E \<inter> {gap_start_ms g..gap_end_ms g}))
     \<and> E \<inter> {gap_start_ms g..gap_end_ms g} \<inter> D = {}"

definition covered :: "gap_info list \<Rightarrow> int set \<Rightarrow> bool" where
  "covered gs X \<longleftrightarrow> (\<forall>x\<in>X. \<exists>g\<in>set gs. gap_start_ms g \<le> x \<and> x \<le> gap_end_ms g)"

lemma covered_empty [simp]: "covered gs {}"
  by (simp add: covered_def)

lemma covered_mono: "covered gs X \<Longrightarrow> set gs \<subseteq> set hs \<Longrightarrow> Y \<subseteq> X \<Longrightarrow> covered hs Y"
  unfolding covered_def by (meson subset_iff)

lemma covered_append: "covered xs X \<or> covered ys X \<Longrightarrow> covered (xs @ ys) X"
  by (auto simp: covered_def)

lemma covered_Un: "covered gs (X \<union> Y) \<longleftrightarrow> covered gs X \<and> covered gs Y"
  by (auto simp: covered_def)

context lawful_calendar
begin

lemma counted_gap_spec:
  assumes "counted_gap cal cfg iv (gap_of ser kind latest ref) s e = Inr gs"
    and "s \<in> E" "e \<in> E" "s \<le> e" "E \<inter> {s..e} \<inter> D = {}" "0 \<le> gap_tolerance_bars cfg"
  shows "(\<forall>g\<in>set gs. gap_sound E D g \<and> gap_start_ms g = s \<and> gap_end_ms g = e)
    \<and> (gap_tolerance_bars cfg = 0 \<longrightarrow> covered gs {s..e})"
proof -
  obtain n where n: "count_expected cal s e iv = Inr n"
    and gs: "gs = (if n > gap_tolerance_bars cfg then [gap_of ser kind latest ref s e n] else [])"
    using assms(1) by (auto simp: counted_gap_def res_simps)
  have card: "n = int (card (E \<inter> {s..e}))" using count_law[OF n] .
  have "0 < card (E \<inter> {s..e})" using assms(2,4) by (auto simp: card_gt_0_iff)
  then show ?thesis using gs card assms by (auto simp: gap_sound_def covered_def)
qed

lemma counted_gap_window:
  assumes "counted_gap cal cfg iv (gap_of ser kind latest ref) f l = Inr gs"
    and "least_in E s e (Some f)" "greatest_in E s e (Some l)" "E \<inter> {s..e} \<inter> D = {}"
    and "0 \<le> gap_tolerance_bars cfg"
  shows "(\<forall>g\<in>set gs. gap_sound E D g \<and> s \<le> gap_start_ms g \<and> gap_end_ms g \<le> e)
    \<and> (gap_tolerance_bars cfg = 0 \<longrightarrow> covered gs (E \<inter> {s..e}))"
proof -
  note w = least_greatest_window[OF assms(2,3)]
  have "E \<inter> {f..l} \<inter> D = {}" using w(1) assms(4) by simp
  then show ?thesis
    using counted_gap_spec[OF assms(1) w(2,3,4) _ assms(5)] w(1,5,6) covered_mono[of gs "{f..l}" gs "E \<inter> {s..e}"]
    by auto
qed

text \<open>Two consecutive stored opens \<open>t < u\<close> with nothing stored between them.\<close>

lemma hole_between_sound:
  assumes "hole_between cal cfg iv (gap_of ser kind latest ref) t u = Inr gs"
    and "t \<in> E" "u \<in> E" "t < u" "D \<inter> {t<..<u} = {}" "0 \<le> gap_tolerance_bars cfg"
  shows "\<forall>g\<in>set gs. gap_sound E D g \<and> t < gap_start_ms g \<and> gap_end_ms g < u"
proof -
  obtain en where en: "next_expected_open cal t iv = Inr en"
    using assms(1) by (auto simp: hole_between_def res_simps)
  show ?thesis
  proof (cases "\<exists>n. en = Some n \<and> n < u")
    case False
    then show ?thesis using assms(1) en by (auto simp: hole_between_def split: option.splits)
  next
    case True
    then obtain n where n: "en = Some n" "n < u" by blast
    obtain ge where ge: "previous_expected_open cal u iv = Inr ge"
      and rg: "range_gap cal cfg iv (gap_of ser kind latest ref) n ge = Inr gs"
      using assms(1) en n by (auto simp: hole_between_def res_simps)
    have nE: "n \<in> E" "t < n" using next_law[OF assms(2) en[unfolded n(1)]] by auto
    show ?thesis
    proof (cases ge)
      case None
      then show ?thesis using rg by (simp add: range_gap_def)
    next
      case (Some g)
      have g: "g \<in> E" "g < u" "n \<le> g" using previous_law[OF assms(3) ge[unfolded Some]] nE n(2) by auto
      then have cg: "counted_gap cal cfg iv (gap_of ser kind latest ref) n g = Inr gs"
        using rg Some by (simp add: range_gap_def)
      have "E \<inter> {n..g} \<inter> D = {}" using assms(5) nE(2) g(2) by force
      then show ?thesis using counted_gap_spec[OF cg nE(1) g(1,3) _ assms(6)] nE(2) g(2) by auto
    qed
  qed
qed

end

context complete_calendar
begin

lemma hole_between_complete:
  assumes "hole_between cal cfg iv (gap_of ser kind latest ref) t u = Inr gs"
    and "t \<in> E" "u \<in> E" "t < u" "gap_tolerance_bars cfg = 0"
  shows "covered gs (E \<inter> {t<..<u})"
proof (cases "E \<inter> {t<..<u} = {}")
  case False
  then obtain x where x: "x \<in> E" "t < x" "x < u" by auto
  obtain en where en: "next_expected_open cal t iv = Inr en"
    using assms(1) by (auto simp: hole_between_def res_simps)
  obtain n where n: "en = Some n" using next_none[OF assms(2)] en x by (cases en) force+
  have nE: "n \<in> E" "t < n" "\<forall>y\<in>E. t < y \<longrightarrow> n \<le> y" using next_law[OF assms(2) en[unfolded n]] by auto
  have "n < u" using nE(3) x by force
  then obtain ge where ge: "previous_expected_open cal u iv = Inr ge"
    and rg: "range_gap cal cfg iv (gap_of ser kind latest ref) n ge = Inr gs"
    using assms(1) en n by (auto simp: hole_between_def res_simps)
  obtain g where g: "ge = Some g" using previous_none[OF assms(3)] ge x by (cases ge) force+
  have gE: "g \<in> E" "g < u" "\<forall>y\<in>E. y < u \<longrightarrow> y \<le> g" using previous_law[OF assms(3) ge[unfolded g]] by auto
  have ng: "n \<le> g" using gE(3) nE(1) \<open>n < u\<close> by simp
  then have "counted_gap cal cfg iv (gap_of ser kind latest ref) n g = Inr gs"
    using rg g by (simp add: range_gap_def)
  from counted_gap_spec[OF this nE(1) gE(1) ng, of "{}"] have "covered gs {n..g}"
    using assms(5) by simp
  then show ?thesis by (rule covered_mono) (use nE gE in auto)
qed simp

end

section \<open>Interior scan\<close>

lemma sorted_times_spec:
  "strictly_sorted (sort (remdups (filter P xs)))"
  "set (sort (remdups (filter P xs))) = {x \<in> set xs. P x}"
  for xs :: "int list"
proof -
  have "sorted (sort (remdups (filter P xs)))" "distinct (sort (remdups (filter P xs)))" by simp_all
  then show "strictly_sorted (sort (remdups (filter P xs)))"
    unfolding strictly_sorted_def by (simp add: strict_sorted_iff)
qed auto

lemma strictly_sorted_hd_last:
  "strictly_sorted ts \<Longrightarrow> ts \<noteq> [] \<Longrightarrow> x \<in> set ts \<Longrightarrow> hd ts \<le> x \<and> x \<le> last ts"
proof (induction ts)
  case (Cons t ts)
  then show ?case by (cases "ts = []") (auto intro: less_imp_le order.strict_implies_order)
qed simp

lemma between_consecutive:
  assumes "strictly_sorted (t # u # rest)" "D \<inter> {t..last (t # u # rest)} = set (t # u # rest)"
  shows "t < u" "D \<inter> {t<..<u} = {}" "D \<inter> {u..last (u # rest)} = set (u # rest)" "u \<le> last (u # rest)"
proof -
  show tu: "t < u" using assms(1) by simp
  show ul: "u \<le> last (u # rest)" using strictly_sorted_hd_last[of "u # rest" u] assms(1) by simp
  have inD: "x \<in> D" if "x \<in> set (t # u # rest)" for x using assms(2) that by blast
  have inset: "x \<in> set (t # u # rest)" if "x \<in> D" "t \<le> x" "x \<le> last (u # rest)" for x
    using assms(2) that by (metis IntI atLeastAtMost_iff last_ConsR list.distinct(1))
  have lo: "u \<le> x \<and> x \<le> last (u # rest)" if "x \<in> set (u # rest)" for x
    using strictly_sorted_hd_last[of "u # rest" x] assms(1) that by simp
  have ne: "x \<noteq> t" if "u \<le> x" for x using tu that by simp
  show "D \<inter> {t<..<u} = {}" using inset lo ul by fastforce
  show "D \<inter> {u..last (u # rest)} = set (u # rest)" using inset inD lo tu by fastforce
qed

lemma hole_scan_cons:
  assumes "hole_scan cal cfg iv mk holes (t # u # rest) = Inr (gs, h)" "holes < gap_max_interior_holes cfg"
  obtains found gs' where "hole_between cal cfg iv mk t u = Inr found"
    "hole_scan cal cfg iv mk (holes + int (length found)) (u # rest) = Inr (gs', h)" "gs = found @ gs'"
  using assms by (auto simp: res_simps)

context lawful_calendar
begin

lemma hole_scan_sound:
  assumes "hole_scan cal cfg iv (gap_of ser kind latest ref) holes ts = Inr (gs, h)"
    and "strictly_sorted ts" "set ts \<subseteq> E" "ts \<noteq> []" "D \<inter> {hd ts..last ts} = set ts"
    and "0 \<le> gap_tolerance_bars cfg"
  shows "\<forall>g\<in>set gs. gap_sound E D g \<and> hd ts < gap_start_ms g \<and> gap_end_ms g < last ts"
  using assms(1-5)
proof (induction ts arbitrary: holes gs rule: induct_list012)
  case (3 t u rest)
  note bc = between_consecutive[OF "3.prems"(2), of D]
  have D: "t < u" "D \<inter> {t<..<u} = {}" "D \<inter> {u..last (u # rest)} = set (u # rest)" "u \<le> last (u # rest)"
    using bc "3.prems"(5) by simp_all
  show ?case
  proof (cases "holes < gap_max_interior_holes cfg")
    case True
    obtain found gs' where f: "hole_between cal cfg iv (gap_of ser kind latest ref) t u = Inr found"
      "hole_scan cal cfg iv (gap_of ser kind latest ref) (holes + int (length found)) (u # rest) = Inr (gs', h)"
      "gs = found @ gs'"
      by (rule hole_scan_cons[OF "3.prems"(1) True])
    have "\<forall>g\<in>set gs'. gap_sound E D g \<and> u < gap_start_ms g \<and> gap_end_ms g < last (u # rest)"
      using "3.IH"(2)[OF f(2)] "3.prems"(2,3) D by simp
    then show ?thesis using hole_between_sound[OF f(1) _ _ D(1,2) assms(6)] "3.prems"(3) f(3) D by fastforce
  next
    case False
    then show ?thesis using "3.prems"(1) by simp
  qed
qed auto

lemma leading_hole_sound:
  assumes "leading_hole cal cfg iv (gap_of ser kind latest ref) f t = Inr gs"
    and "f \<in> E" "t \<in> E" "f \<le> t" "D \<inter> {f..<t} = {}" "0 \<le> gap_tolerance_bars cfg"
  shows "\<forall>g\<in>set gs. gap_sound E D g \<and> f \<le> gap_start_ms g \<and> gap_end_ms g < t"
proof (cases "f < t")
  case False
  then show ?thesis using assms(1) by (simp add: leading_hole_def)
next
  case True
  then obtain ge where ge: "previous_expected_open cal t iv = Inr ge"
    and rg: "range_gap cal cfg iv (gap_of ser kind latest ref) f ge = Inr gs"
    using assms(1) by (auto simp: leading_hole_def res_simps)
  show ?thesis
  proof (cases ge)
    case None
    then show ?thesis using rg by (simp add: range_gap_def)
  next
    case (Some g)
    have g: "g \<in> E" "g < t" "f \<le> g" using previous_law[OF assms(3) ge[unfolded Some]] assms(2) True by auto
    then have cg: "counted_gap cal cfg iv (gap_of ser kind latest ref) f g = Inr gs"
      using rg Some by (simp add: range_gap_def)
    have "E \<inter> {f..g} \<inter> D = {}" using assms(5) g(2) by force
    then show ?thesis using counted_gap_spec[OF cg assms(2) g(1,3) _ assms(6)] g(2) by auto
  qed
qed

lemma trailing_hole_sound:
  assumes "trailing_hole cal cfg iv (gap_of ser kind latest ref) holes t l = Inr gs"
    and "t \<in> E" "l \<in> E" "D \<inter> {t<..l} = {}" "0 \<le> gap_tolerance_bars cfg"
  shows "\<forall>g\<in>set gs. gap_sound E D g \<and> t < gap_start_ms g \<and> gap_end_ms g \<le> l"
proof -
  obtain st where st: "next_expected_open cal t iv = Inr st"
    using assms(1) by (auto simp: trailing_hole_def res_simps)
  show ?thesis
  proof (cases "\<exists>s. st = Some s \<and> holes < gap_max_interior_holes cfg \<and> s \<le> l")
    case False
    then show ?thesis using assms(1) st by (auto simp: trailing_hole_def split: option.splits)
  next
    case True
    then obtain s where s: "st = Some s" "s \<le> l" and h: "holes < gap_max_interior_holes cfg" by blast
    have sE: "s \<in> E" "t < s" using next_law[OF assms(2) st[unfolded s(1)]] by auto
    have cg: "counted_gap cal cfg iv (gap_of ser kind latest ref) s l = Inr gs"
      using assms(1) st s h by (simp add: trailing_hole_def)
    have "E \<inter> {s..l} \<inter> D = {}" using assms(4) sE(2) by force
    then show ?thesis using counted_gap_spec[OF cg sE(1) assms(3) s(2) _ assms(5)] sE(2) by auto
  qed
qed

end

context complete_calendar
begin

lemma hole_scan_complete:
  assumes "hole_scan cal cfg iv (gap_of ser kind latest ref) holes ts = Inr (gs, h)"
    and "h < gap_max_interior_holes cfg" "strictly_sorted ts" "set ts \<subseteq> E" "ts \<noteq> []"
    and "gap_tolerance_bars cfg = 0"
  shows "covered gs (E \<inter> {hd ts..last ts} - set ts)"
  using assms(1-5)
proof (induction ts arbitrary: holes gs rule: induct_list012)
  case (3 t u rest)
  have tu: "t < u" and ul: "u \<le> last (u # rest)"
    using "3.prems"(3) strictly_sorted_hd_last[of "u # rest" u] by auto
  have lim: "holes < gap_max_interior_holes cfg" using "3.prems"(1,2) by (auto split: if_splits)
  obtain found gs' where f: "hole_between cal cfg iv (gap_of ser kind latest ref) t u = Inr found"
    "hole_scan cal cfg iv (gap_of ser kind latest ref) (holes + int (length found)) (u # rest) = Inr (gs', h)"
    "gs = found @ gs'"
    by (rule hole_scan_cons[OF "3.prems"(1) lim])
  have "covered gs' (E \<inter> {u..last (u # rest)} - set (u # rest))"
    using "3.IH"(2)[OF f(2) "3.prems"(2)] "3.prems"(3,4) by simp
  moreover have "covered found (E \<inter> {t<..<u})"
    using hole_between_complete[OF f(1) _ _ tu assms(6)] "3.prems"(4) by simp
  ultimately have "covered gs ((E \<inter> {t<..<u}) \<union> (E \<inter> {u..last (u # rest)} - set (u # rest)))"
    using f(3) covered_mono[of found _ gs] covered_mono[of gs' _ gs] by (auto simp: covered_Un)
  then show ?case by (rule covered_mono) auto
qed auto

lemma leading_hole_complete:
  assumes "leading_hole cal cfg iv (gap_of ser kind latest ref) f t = Inr gs"
    and "f \<in> E" "t \<in> E" "gap_tolerance_bars cfg = 0"
  shows "covered gs (E \<inter> {f..<t})"
proof (cases "f < t")
  case True
  then obtain ge where ge: "previous_expected_open cal t iv = Inr ge"
    and rg: "range_gap cal cfg iv (gap_of ser kind latest ref) f ge = Inr gs"
    using assms(1) by (auto simp: leading_hole_def res_simps)
  obtain g where g: "ge = Some g" using previous_none[OF assms(3)] ge assms(2) True by (cases ge) force+
  have gE: "g \<in> E" "\<forall>y\<in>E. y < t \<longrightarrow> y \<le> g" using previous_law[OF assms(3) ge[unfolded g]] by auto
  have fg: "f \<le> g" using gE(2) assms(2) True by simp
  then have "counted_gap cal cfg iv (gap_of ser kind latest ref) f g = Inr gs"
    using rg g by (simp add: range_gap_def)
  from counted_gap_spec[OF this assms(2) gE(1) fg, of "{}"] have "covered gs {f..g}"
    using assms(4) by simp
  then show ?thesis by (rule covered_mono) (use gE in auto)
qed simp

lemma trailing_hole_complete:
  assumes "trailing_hole cal cfg iv (gap_of ser kind latest ref) holes t l = Inr gs"
    and "t \<in> E" "l \<in> E" "holes < gap_max_interior_holes cfg" "gap_tolerance_bars cfg = 0"
  shows "covered gs (E \<inter> {t<..l})"
proof (cases "t < l")
  case True
  obtain st where st: "next_expected_open cal t iv = Inr st"
    using assms(1) by (auto simp: trailing_hole_def res_simps)
  obtain s where s: "st = Some s" using next_none[OF assms(2)] st assms(3) True by (cases st) force+
  have sE: "s \<in> E" "t < s" "\<forall>y\<in>E. t < y \<longrightarrow> s \<le> y" using next_law[OF assms(2) st[unfolded s]] by auto
  have sl: "s \<le> l" using sE(3) assms(3) True by simp
  then have "counted_gap cal cfg iv (gap_of ser kind latest ref) s l = Inr gs"
    using assms(1,4) st s by (simp add: trailing_hole_def)
  from counted_gap_spec[OF this sE(1) assms(3) sl, of "{}"] have "covered gs {s..l}"
    using assms(5) by simp
  then show ?thesis by (rule covered_mono) (use sE in auto)
qed simp

end

section \<open>The interior scan as a whole\<close>

text \<open>
  A storage that holds exactly the finite set \<open>D\<close> of opens of the series. The two range
  queries stand for one answer: the detector falls back to the second when the first raises.
\<close>

definition storage_holds :: "storage_backend \<Rightarrow> int set \<Rightarrow> bool" where
  "storage_holds st D \<longleftrightarrow> finite D
     \<and> get_earliest_time st = Inr (if D = {} then None else Some (Min D))
     \<and> get_latest_time st = Inr (if D = {} then None else Some (Max D))
     \<and> (\<forall>s e ts. stored_opens st s e = Inr ts \<longrightarrow> set ts = D \<inter> {s..e})"

lemma hole_scan_count: "hole_scan cal cfg iv mk holes ts = Inr (gs, h) \<Longrightarrow> h = holes + int (length gs)"
proof (induction ts arbitrary: holes gs rule: induct_list012)
  case (3 t u rest)
  then show ?case by (fastforce simp: res_simps split: if_splits)
qed auto

lemma interior_cases:
  assumes "detect_interior_gaps cal cfg st ser ss se ref = Inr gs" "ss \<le> se"
  obtains f l where "first_expected_open cal ss se (gs_interval ser) = Inr f"
      "last_expected_open cal ss se (gs_interval ser) = Inr l" "f = None \<or> l = None" "gs = []"
  | existing f l where "stored_opens st ss se = Inr existing"
      "first_expected_open cal ss se (gs_interval ser) = Inr (Some f)"
      "last_expected_open cal ss se (gs_interval ser) = Inr (Some l)"
      "sort (remdups (filter (\<lambda>t. f \<le> t \<and> t \<le> l) existing)) = []"
      "counted_gap cal cfg (gs_interval ser) (gap_of ser INTERIOR None ref) f l = Inr gs"
  | existing f l ts mk lead holes h trail where "stored_opens st ss se = Inr existing"
      "first_expected_open cal ss se (gs_interval ser) = Inr (Some f)"
      "last_expected_open cal ss se (gs_interval ser) = Inr (Some l)"
      "ts = sort (remdups (filter (\<lambda>t. f \<le> t \<and> t \<le> l) existing))" "ts \<noteq> []"
      "mk = gap_of ser INTERIOR (Some (last ts)) ref"
      "leading_hole cal cfg (gs_interval ser) mk f (hd ts) = Inr lead"
      "hole_scan cal cfg (gs_interval ser) mk (int (length lead)) ts = Inr (holes, h)"
      "trailing_hole cal cfg (gs_interval ser) mk h (last ts) l = Inr trail"
      "gs = lead @ holes @ trail"
proof -
  obtain existing f l where ex: "stored_opens st ss se = Inr existing"
    and f: "first_expected_open cal ss se (gs_interval ser) = Inr f"
    and l: "last_expected_open cal ss se (gs_interval ser) = Inr l"
    using assms by (auto simp: detect_interior_gaps_def res_simps)
  consider "f = None \<or> l = None" | f' l' where "f = Some f'" "l = Some l'" by (cases f; cases l) auto
  then show thesis
  proof cases
    case 1
    then show ?thesis using that(1)[OF f l] assms ex f l
      by (auto simp: detect_interior_gaps_def split: option.splits)
  next
    case (2 f' l')
    let ?ts = "sort (remdups (filter (\<lambda>t. f' \<le> t \<and> t \<le> l') existing))"
    show ?thesis
    proof (cases "?ts = []")
      case True
      then show ?thesis using that(2)[OF ex f[unfolded 2] l[unfolded 2] True] assms ex f l 2
        by (simp add: detect_interior_gaps_def)
    next
      case False
      then show ?thesis using that(3)[OF ex f[unfolded 2] l[unfolded 2] refl False refl] assms ex f l 2
        by (auto simp: detect_interior_gaps_def Let_def res_simps)
    qed
  qed
qed

context lawful_calendar
begin

lemma stored_window:
  assumes "storage_holds st D" "D \<subseteq> E" "stored_opens st ss se = Inr existing"
    and "least_in E ss se (Some f)" "greatest_in E ss se (Some l)"
    and "ts = sort (remdups (filter (\<lambda>t. f \<le> t \<and> t \<le> l) existing))"
  shows "strictly_sorted ts" "set ts = D \<inter> {f..l}" "D \<inter> {ss..se} = D \<inter> {f..l}"
proof -
  have ex: "set existing = D \<inter> {ss..se}" using assms(1,3) by (simp add: storage_holds_def)
  note w = least_greatest_window[OF assms(4,5)]
  show D: "D \<inter> {ss..se} = D \<inter> {f..l}" using w(1) assms(2) by blast
  show "strictly_sorted ts" unfolding assms(6) by (rule sorted_times_spec)
  show "set ts = D \<inter> {f..l}" unfolding assms(6) sorted_times_spec using ex w by auto
qed

lemma interior_sound:
  assumes gs: "detect_interior_gaps cal cfg st ser ss se ref = Inr gs" and iv: "gs_interval ser = iv"
    and D: "storage_holds st D" "D \<subseteq> E" and tol: "0 \<le> gap_tolerance_bars cfg"
  shows "\<forall>g\<in>set gs. gap_sound E D g \<and> ss \<le> gap_start_ms g \<and> gap_end_ms g \<le> se"
proof (cases "ss \<le> se")
  case False
  then show ?thesis using gs by (simp add: detect_interior_gaps_def)
next
  case True
  show ?thesis using gs True
  proof (cases rule: interior_cases)
    case (2 existing f l)
    note lg = first_law[OF 2(2)[unfolded iv]] last_law[OF 2(3)[unfolded iv]]
    have "E \<inter> {ss..se} \<inter> D = {}" using stored_window[OF D 2(1) lg refl] 2(4) by auto
    then show ?thesis using counted_gap_window[OF 2(5)[unfolded iv] lg _ tol] by blast
  next
    case (3 existing f l ts mk lead holes h trail)
    note lg = first_law[OF 3(2)[unfolded iv]] last_law[OF 3(3)[unfolded iv]]
    note w = least_greatest_window[OF lg]
    note ts = stored_window[OF D 3(1) lg 3(4)]
    have hl: "hd ts \<in> D \<inter> {f..l}" "last ts \<in> D \<inter> {f..l}"
      unfolding ts(2)[symmetric] using 3(5) by simp_all
    have bnd: "hd ts \<le> x \<and> x \<le> last ts" if "x \<in> D" "f \<le> x" "x \<le> l" for x
      using strictly_sorted_hd_last[OF ts(1) 3(5)] ts(2) that by auto
    have a: "D \<inter> {f..<hd ts} = {}" using bnd hl by fastforce
    have b: "D \<inter> {last ts<..l} = {}" using bnd hl by fastforce
    have "D \<inter> {hd ts..last ts} = D \<inter> {f..l}" using bnd hl by fastforce
    then have c: "D \<inter> {hd ts..last ts} = set ts" using ts(2) by simp
    have hE: "hd ts \<in> E" "last ts \<in> E" "f \<le> hd ts" "last ts \<le> l" and sub: "set ts \<subseteq> E"
      using hl D(2) ts(2) by auto
    note A = leading_hole_sound[OF 3(7)[unfolded iv 3(6)] w(2) hE(1,3) a tol]
    note B = hole_scan_sound[OF 3(8)[unfolded iv 3(6)] ts(1) sub 3(5) c tol]
    note C = trailing_hole_sound[OF 3(9)[unfolded iv 3(6)] hE(2) w(3) b tol]
    have mono: "gap_sound E D g \<and> ss \<le> gap_start_ms g \<and> gap_end_ms g \<le> se" if gin: "g \<in> set gs" for g
    proof -
      have hd_last: "hd ts \<le> last ts" using bnd hl by simp
      consider "g \<in> set lead" | "g \<in> set holes" | "g \<in> set trail" using gin 3(10) by auto
      then show ?thesis
        by cases (use A B C w(5,6) hE hd_last in force)+
    qed
    then show ?thesis by blast
  qed simp
qed

end

context complete_calendar
begin

lemma interior_complete:
  assumes gs: "detect_interior_gaps cal cfg st ser ss se ref = Inr gs" and iv: "gs_interval ser = iv"
    and D: "storage_holds st D" "D \<subseteq> E" and tol: "gap_tolerance_bars cfg = 0"
    and len: "int (length gs) < gap_max_interior_holes cfg"
  shows "covered gs (E \<inter> {ss..se} - D)"
proof (cases "ss \<le> se")
  case True
  show ?thesis using gs True
  proof (cases rule: interior_cases)
    case (1 f l)
    then show ?thesis using first_law[OF 1(1)[unfolded iv]] last_law[OF 1(2)[unfolded iv]]
      by (auto simp: least_in_def greatest_in_def)
  next
    case (2 existing f l)
    note lg = first_law[OF 2(2)[unfolded iv]] last_law[OF 2(3)[unfolded iv]]
    have "covered gs (E \<inter> {ss..se})"
      using counted_gap_window[OF 2(5)[unfolded iv] lg, of "{}"] tol by simp
    then show ?thesis by (rule covered_mono) auto
  next
    case (3 existing f l ts mk lead holes h trail)
    note lg = first_law[OF 3(2)[unfolded iv]] last_law[OF 3(3)[unfolded iv]]
    note w = least_greatest_window[OF lg]
    note ts = stored_window[OF D 3(1) lg 3(4)]
    have "set ts \<subseteq> E" unfolding ts(2) using D(2) by blast
    then have hl: "hd ts \<in> E" "last ts \<in> E" using 3(5) by auto
    have h: "h < gap_max_interior_holes cfg" using hole_scan_count[OF 3(8)] len 3(10) by simp
    have "covered lead (E \<inter> {f..<hd ts})"
      by (rule leading_hole_complete[OF 3(7)[unfolded iv 3(6)] w(2) hl(1) tol])
    moreover have "covered holes (E \<inter> {hd ts..last ts} - set ts)"
      using hole_scan_complete[OF 3(8)[unfolded iv 3(6)] h ts(1) _ 3(5) tol] ts(2) D(2) by auto
    moreover have "covered trail (E \<inter> {last ts<..l})"
      by (rule trailing_hole_complete[OF 3(9)[unfolded iv 3(6)] hl(2) w(3) h tol])
    ultimately have "covered gs ((E \<inter> {f..<hd ts}) \<union> (E \<inter> {hd ts..last ts} - set ts) \<union> (E \<inter> {last ts<..l}))"
      unfolding covered_Un 3(10) by (simp only: covered_append simp_thms)
    moreover have "E \<inter> {ss..se} - D \<subseteq> (E \<inter> {f..<hd ts}) \<union> (E \<inter> {hd ts..last ts} - set ts) \<union> (E \<inter> {last ts<..l})"
    proof
      fix x assume "x \<in> E \<inter> {ss..se} - D"
      then have "x \<in> E \<inter> {f..l} - D" unfolding w(1) .
      then have "x \<in> E" "x \<notin> set ts" "f \<le> x" "x \<le> l" unfolding ts(2) by simp_all
      then show "x \<in> (E \<inter> {f..<hd ts}) \<union> (E \<inter> {hd ts..last ts} - set ts) \<union> (E \<inter> {last ts<..l})" by auto
    qed
    ultimately show ?thesis by (rule covered_mono[OF _ subset_refl])
  qed
qed simp

end

section \<open>Head and tail\<close>

context lawful_calendar
begin

lemma tail_gap_spec:
  assumes gs: "tail_gap cal cfg ser latest ref s e = Inr gs" and iv: "gs_interval ser = iv"
    and tol: "0 \<le> gap_tolerance_bars cfg" and none: "E \<inter> {s..e} \<inter> D = {}"
  shows "(\<forall>g\<in>set gs. gap_sound E D g \<and> s \<le> gap_start_ms g \<and> gap_end_ms g \<le> e)
    \<and> (gap_tolerance_bars cfg = 0 \<longrightarrow> covered gs (E \<inter> {s..e}))"
proof -
  obtain f l where f: "first_expected_open cal s e iv = Inr f" and l: "last_expected_open cal s e iv = Inr l"
    and r: "(case (f, l) of (Some s', Some e') \<Rightarrow>
        if s' \<le> e' \<or> latest = None
        then counted_gap cal cfg iv (gap_of ser TAIL latest ref) s' e' else Inr [] | _ \<Rightarrow> Inr []) = Inr gs"
    using gs iv by (auto simp: tail_gap_def res_simps)
  note lf = first_law[OF f] and gl = last_law[OF l]
  show ?thesis
  proof (cases f)
    case None
    then show ?thesis using r lf by (simp add: least_in_def)
  next
    case (Some f')
    obtain l' where l': "l = Some l'" using least_greatest_None[OF lf gl] Some by auto
    have "f' \<le> l'" using least_greatest_window(4)[OF lf[unfolded Some] gl[unfolded l']] .
    then have "counted_gap cal cfg iv (gap_of ser TAIL latest ref) f' l' = Inr gs" using r Some l' by simp
    from counted_gap_window[OF this lf[unfolded Some] gl[unfolded l'] none tol] show ?thesis .
  qed
qed

lemma head_gap_cases:
  assumes gs: "head_gap cal cfg ser earliest latest ref rs = Inr gs" and iv: "gs_interval ser = iv"
  obtains f h where "first_expected_open cal rs (min ref (earliest - 1)) iv = Inr f"
    "previous_expected_open cal earliest iv = Inr h" "gs = []" "\<forall>s e. f = Some s \<and> h = Some e \<longrightarrow> e < s"
  | f h where "first_expected_open cal rs (min ref (earliest - 1)) iv = Inr (Some f)"
    "previous_expected_open cal earliest iv = Inr (Some h)" "f \<le> h"
    "counted_gap cal cfg iv (gap_of ser HEAD (Some latest) ref) f h = Inr gs"
proof -
  obtain f h where fh: "first_expected_open cal rs (min ref (earliest - 1)) iv = Inr f"
    "previous_expected_open cal earliest iv = Inr h"
    using gs iv by (auto simp: head_gap_def res_simps)
  show thesis
  proof (cases "\<exists>f' h'. f = Some f' \<and> h = Some h' \<and> f' \<le> h'")
    case True
    then show ?thesis using that(2) fh gs iv by (auto simp: head_gap_def)
  next
    case False
    then have "gs = []" using fh gs iv by (auto simp: head_gap_def split: option.splits if_splits)
    then show ?thesis using that(1)[OF fh] False by force
  qed
qed

lemma head_gap_sound:
  assumes gs: "head_gap cal cfg ser earliest latest ref rs = Inr gs" and iv: "gs_interval ser = iv"
    and tol: "0 \<le> gap_tolerance_bars cfg" and e: "earliest \<in> E" "\<forall>x\<in>D. earliest \<le> x"
  shows "\<forall>g\<in>set gs. gap_sound E D g \<and> rs \<le> gap_start_ms g \<and> gap_end_ms g < earliest"
  using gs iv
proof (cases rule: head_gap_cases)
  case (2 f h)
  have f: "f \<in> E" "rs \<le> f" using first_law[OF 2(1)] by (auto simp: least_in_def)
  have h: "h \<in> E" "h < earliest" using previous_law[OF e(1) 2(2)] by auto
  have "E \<inter> {f..h} \<inter> D = {}" using e(2) h(2) by force
  then show ?thesis using counted_gap_spec[OF 2(4) f(1) h(1) 2(3) _ tol] f(2) h(2) by auto
qed auto

end

context complete_calendar
begin

lemma head_gap_complete:
  assumes gs: "head_gap cal cfg ser earliest latest ref rs = Inr gs" and iv: "gs_interval ser = iv"
    and tol: "gap_tolerance_bars cfg = 0" and e: "earliest \<in> E"
  shows "covered gs (E \<inter> {rs..min ref (earliest - 1)})"
  using gs iv
proof (cases rule: head_gap_cases)
  case (1 f h)
  note lf = first_law[OF 1(1)]
  have "f = None"
  proof (rule ccontr)
    assume "f \<noteq> None"
    then obtain f' where f': "f = Some f'" by auto
    then have f'E: "f' \<in> E" "f' < earliest" using lf by (auto simp: least_in_def)
    obtain h' where h: "h = Some h'" using previous_none[OF e] 1(2) f'E by (cases h) force+
    have "f' \<le> h'" using previous_law[OF e] 1(2) h f'E by auto
    then show False using 1(4) f' h by force
  qed
  then show ?thesis using lf by (simp add: least_in_def)
next
  case (2 f h)
  have f: "f \<in> E" "\<forall>y\<in>E. rs \<le> y \<longrightarrow> f \<le> y" using first_law[OF 2(1)] by (auto simp: least_in_def)
  have h: "h \<in> E" "\<forall>y\<in>E. y < earliest \<longrightarrow> y \<le> h" using previous_law[OF e 2(2)] by auto
  have "covered gs {f..h}" using counted_gap_spec[OF 2(4) f(1) h(1) 2(3), of "{}"] tol by simp
  then show ?thesis by (rule covered_mono) (use f h in auto)
qed

end

section \<open>Properties of the detector\<close>

lemma storage_holdsD:
  assumes "storage_holds st D" "get_earliest_time st = Inr (Some earliest)" "get_latest_time st = Inr (Some latest)"
  shows "earliest \<in> D" "latest \<in> D" "\<forall>x\<in>D. earliest \<le> x" "\<forall>x\<in>D. x \<le> latest"
  using assms by (auto simp: storage_holds_def split: if_splits)

lemma storage_holds_empty:
  assumes "storage_holds st D" "get_earliest_time st = Inr a" "get_latest_time st = Inr b" "a = None \<or> b = None"
  shows "D = {}"
  using assms by (auto simp: storage_holds_def split: if_splits)

lemma detect_gaps_cases:
  assumes "detect_gaps_to cal cfg st ser rs re ref = Inr gs"
  obtains a b where "get_earliest_time st = Inr a" "get_latest_time st = Inr b" "a = None \<or> b = None"
    "tail_gap cal cfg ser None ref rs ref = Inr gs"
  | earliest latest hd_gaps tl_gaps int_gaps where "get_earliest_time st = Inr (Some earliest)"
    "get_latest_time st = Inr (Some latest)"
    "head_gap cal cfg ser earliest latest ref rs = Inr hd_gaps"
    "tail_gap cal cfg ser (Some latest) ref (max rs (latest + 1)) (min re ref) = Inr tl_gaps"
    "(if gap_scan_interior cfg
      then detect_interior_gaps cal cfg st ser (max rs earliest) (min re latest) ref else Inr []) = Inr int_gaps"
    "gs = hd_gaps @ tl_gaps @ int_gaps"
proof -
  obtain a b where ab: "get_earliest_time st = Inr a" "get_latest_time st = Inr b"
    using assms by (auto simp: detect_gaps_to_def res_simps)
  consider "a = None \<or> b = None" | x y where "a = Some x" "b = Some y" by (cases a; cases b) auto
  then show thesis
  proof cases
    case 1
    then show ?thesis using that(1)[OF ab 1] assms ab
      by (auto simp: detect_gaps_to_def split: option.splits)
  next
    case (2 x y)
    then show ?thesis using that(2)[OF ab(1)[unfolded 2] ab(2)[unfolded 2]] assms ab
      by (auto simp: detect_gaps_to_def res_simps)
  qed
qed

text \<open>C13: Every reported gap is a real one: for a lawful calendar and a storage holding the opens
  \<open>D\<close>, a gap starts and ends at expected opens not before the scanned range, none of the bars
  between its edges is stored, and the reported count is exactly the number of expected bars
  between them. This covers the empty-storage, head, tail and interior cases.\<close>

theorem detect_gaps_sound:
  assumes "lawful_calendar cal (gs_interval ser) E" and "storage_holds st D" and "D \<subseteq> E"
    and "0 \<le> gap_tolerance_bars cfg" and "detect_gaps_to cal cfg st ser rs re ref = Inr gs"
  shows "\<forall>g\<in>set gs. gap_sound E D g \<and> rs \<le> gap_start_ms g"
  using assms(5)
proof (cases rule: detect_gaps_cases)
  case (1 a b)
  have "D = {}" using storage_holds_empty[OF assms(2) 1(1-3)] .
  then show ?thesis using lawful_calendar.tail_gap_spec[OF assms(1) 1(4) refl assms(4), of D] by blast
next
  case (2 earliest latest hd_gaps tl_gaps int_gaps)
  note D = storage_holdsD[OF assms(2) 2(1,2)]
  have eE: "earliest \<in> E" using D(1) assms(3) by blast
  have A: "\<forall>g\<in>set hd_gaps. gap_sound E D g \<and> rs \<le> gap_start_ms g"
    using lawful_calendar.head_gap_sound[OF assms(1) 2(3) refl assms(4) eE D(3)] by blast
  have none: "E \<inter> {max rs (latest + 1)..min re ref} \<inter> D = {}" using D(4) by force
  have B: "\<forall>g\<in>set tl_gaps. gap_sound E D g \<and> max rs (latest + 1) \<le> gap_start_ms g"
    using lawful_calendar.tail_gap_spec[OF assms(1) 2(4) refl assms(4) none] by blast
  have C: "\<forall>g\<in>set int_gaps. gap_sound E D g \<and> max rs earliest \<le> gap_start_ms g"
  proof (cases "gap_scan_interior cfg")
    case True
    then have "detect_interior_gaps cal cfg st ser (max rs earliest) (min re latest) ref = Inr int_gaps"
      using 2(5) by simp
    from lawful_calendar.interior_sound[OF assms(1) this refl assms(2,3,4)] show ?thesis by blast
  next
    case False
    then show ?thesis using 2(5) by simp
  qed
  show ?thesis unfolding 2(6) using A B C by auto
qed

text \<open>C33: No missing bar is overlooked: with zero tolerance, interior scanning on and fewer gaps
  than the hole limit, every expected open of the scanned range up to the reference that the
  storage lacks lies inside a reported gap.\<close>

theorem detect_gaps_complete:
  assumes "complete_calendar cal (gs_interval ser) E" and "storage_holds st D" and "D \<subseteq> E"
    and "gap_tolerance_bars cfg = 0" and "gap_scan_interior cfg"
    and "detect_gaps_to cal cfg st ser rs re ref = Inr gs" and "int (length gs) < gap_max_interior_holes cfg"
  shows "covered gs (E \<inter> {rs..min re ref} - D)"
proof -
  note law = complete_calendar.axioms(1)[OF assms(1)]
  have tol: "0 \<le> gap_tolerance_bars cfg" using assms(4) by simp
  show ?thesis using assms(6)
  proof (cases rule: detect_gaps_cases)
    case (1 a b)
    have "covered gs (E \<inter> {rs..ref})"
      using lawful_calendar.tail_gap_spec[OF law 1(4) refl tol, of "{}"] assms(4) by simp
    then show ?thesis by (rule covered_mono) auto
  next
    case (2 earliest latest hd_gaps tl_gaps int_gaps)
    note D = storage_holdsD[OF assms(2) 2(1,2)]
    have eE: "earliest \<in> E" using D(1) assms(3) by blast
    have A: "covered hd_gaps (E \<inter> {rs..min ref (earliest - 1)})"
      using complete_calendar.head_gap_complete[OF assms(1) 2(3) refl assms(4) eE] .
    have B: "covered tl_gaps (E \<inter> {max rs (latest + 1)..min re ref})"
      using lawful_calendar.tail_gap_spec[OF law 2(4) refl tol, of "{}"] assms(4) by simp
    have "int (length int_gaps) < gap_max_interior_holes cfg" using assms(7) 2(6) by simp
    then have C: "covered int_gaps (E \<inter> {max rs earliest..min re latest} - D)"
      using complete_calendar.interior_complete[OF assms(1) _ refl assms(2,3,4)] 2(5) assms(5) by simp
    have "covered gs ((E \<inter> {rs..min ref (earliest - 1)}) \<union> (E \<inter> {max rs (latest + 1)..min re ref})
        \<union> (E \<inter> {max rs earliest..min re latest} - D))"
      unfolding covered_Un 2(6) using A B C by (simp only: covered_append simp_thms)
    moreover have "E \<inter> {rs..min re ref} - D \<subseteq> (E \<inter> {rs..min ref (earliest - 1)})
        \<union> (E \<inter> {max rs (latest + 1)..min re ref}) \<union> (E \<inter> {max rs earliest..min re latest} - D)"
      by (auto simp: min_def max_def)
    ultimately show ?thesis by (rule covered_mono[OF _ subset_refl])
  qed
qed

section \<open>Witnesses\<close>

definition minute_storage :: storage_backend where
  "minute_storage = \<lparr>get_earliest_time = Inr (Some 120000), get_latest_time = Inr (Some 360000),
     get_existing_open_times = (\<lambda>s e. Inr (filter (\<lambda>t. s \<le> t \<and> t \<le> e) [120000, 180000, 360000])),
     query_time_range = (\<lambda>s e. Inl RuntimeError)\<rparr>"

definition minute_series :: gap_series where
  "minute_series = \<lparr>gs_symbol = ''BTCUSDT'', gs_interval = ''1m'', gs_exchange = ''binance'',
     gs_market_type = ''spot''\<rparr>"

definition minute_config :: gap_config where
  "minute_config = \<lparr>gap_tolerance_bars = 0, gap_max_interior_holes = 100, gap_scan_interior = True\<rparr>"

abbreviation minute_calendar :: trading_calendar where
  "minute_calendar \<equiv> always_open_calendar ''crypto.24x7.utc''"

definition minute_gaps :: "gap_info list" where
  "minute_gaps = (case detect_gaps_to minute_calendar minute_config minute_storage minute_series 0 480000 420000
     of Inr gs \<Rightarrow> gs | Inl _ \<Rightarrow> [])"

lemma minute_report:
  "map_sum id (map (\<lambda>g. (gap_start_ms g, gap_end_ms g, missing_bars g)))
     (detect_gaps_to minute_calendar minute_config minute_storage minute_series 0 480000 420000)
   = Inr [(0, 60000, 2), (420000, 420000, 1), (240000, 300000, 2)]"
  by code_simp

lemma minute_detect:
  "detect_gaps_to minute_calendar minute_config minute_storage minute_series 0 480000 420000 = Inr minute_gaps"
  "map (\<lambda>g. (gap_start_ms g, gap_end_ms g, missing_bars g)) minute_gaps
     = [(0, 60000, 2), (420000, 420000, 1), (240000, 300000, 2)]"
  using minute_report unfolding minute_gaps_def
  by (cases "detect_gaps_to minute_calendar minute_config minute_storage minute_series 0 480000 420000"; simp)+

lemma minute_holds: "storage_holds minute_storage {120000, 180000, 360000}"
  by (auto simp: storage_holds_def minute_storage_def stored_opens_def)

lemma minute_expected: "{120000, 180000, 360000} \<subseteq> always_expected (gs_interval minute_series)"
proof -
  have "parse_interval_spec ''1m'' \<noteq> None
    \<and> (\<forall>t\<in>set [120000, 180000, 360000]. boundary (the (parse_interval_spec ''1m'')) t)" by code_simp
  then show ?thesis by (auto simp: always_expected_def minute_series_def)
qed

theorem detect_gaps_sound_witness:
  "minute_gaps \<noteq> [] \<and> list_all (\<lambda>g.
     gap_sound (always_expected (gs_interval minute_series)) {120000, 180000, 360000} g \<and> 0 \<le> gap_start_ms g) minute_gaps"
proof -
  have "0 \<le> gap_tolerance_bars minute_config" by (simp add: minute_config_def)
  from detect_gaps_sound[OF ao.lawful_calendar_axioms minute_holds minute_expected this minute_detect(1)]
  show ?thesis using minute_detect(2) by (auto simp: list_all_iff)
qed

theorem detect_gaps_complete_witness:
  "covered minute_gaps (always_expected (gs_interval minute_series) \<inter> {0..420000} - {120000, 180000, 360000})"
proof -
  have "length minute_gaps = 3" using arg_cong[OF minute_detect(2), of length] by simp
  then have "gap_tolerance_bars minute_config = 0" "gap_scan_interior minute_config"
    "int (length minute_gaps) < gap_max_interior_holes minute_config" by (simp_all add: minute_config_def)
  from detect_gaps_complete[OF aoc.complete_calendar_axioms minute_holds minute_expected this(1,2) minute_detect(1) this(3)]
  show ?thesis by simp
qed

end
