(* ===== verification/SourceQuality.thy ===== *)
theory SourceQuality
  imports Prelude
begin

text \<open>
  Provenance of K-lines (\<open>backend/app/data_engine/kline_quality.py\<close>): the rank table, the
  replacement rule every merge of the cache and the storage uses, and the test whether a
  repair needs trusted finality.
\<close>

datatype finality_trust = UNTRUSTED | AMBIGUOUS | TRUSTED_FINAL

record source_quality =
  rank :: int
  finality :: finality_trust

definition trusted_final :: "source_quality \<Rightarrow> bool" where
  "trusted_final q = (finality q = TRUSTED_FINAL)"

definition SOURCE_QUALITY :: "(string \<times> source_quality) list" where
  "SOURCE_QUALITY =
     [(''data_manager_closed'', \<lparr>rank = 10, finality = AMBIGUOUS\<rparr>),
      (''data_manager_exchange_closed'', \<lparr>rank = 50, finality = TRUSTED_FINAL\<rparr>),
      (''data_manager_composite_closed'', \<lparr>rank = 60, finality = TRUSTED_FINAL\<rparr>),
      (''backfill_aggregated'', \<lparr>rank = 60, finality = TRUSTED_FINAL\<rparr>),
      (''backfill'', \<lparr>rank = 70, finality = TRUSTED_FINAL\<rparr>),
      (''backfill_archive_verified'', \<lparr>rank = 70, finality = TRUSTED_FINAL\<rparr>),
      (''backfill_archive_confirmed'', \<lparr>rank = 70, finality = TRUSTED_FINAL\<rparr>),
      (''data_manager_amended'', \<lparr>rank = 80, finality = TRUSTED_FINAL\<rparr>),
      (''backfill_rest_verified'', \<lparr>rank = 90, finality = TRUSTED_FINAL\<rparr>),
      (''repair_binance_rest_verified'', \<lparr>rank = 100, finality = TRUSTED_FINAL\<rparr>),
      (''repair_derived_verified'', \<lparr>rank = 100, finality = TRUSTED_FINAL\<rparr>),
      (''settings_manual_repair'', \<lparr>rank = 10, finality = AMBIGUOUS\<rparr>)]"

definition UNKNOWN_SOURCE_QUALITY :: source_quality where
  "UNKNOWN_SOURCE_QUALITY = \<lparr>rank = 0, finality = UNTRUSTED\<rparr>"

definition normalize_kline_source :: "string \<Rightarrow> string" where
  "normalize_kline_source source = py_lower (py_strip source)"

definition kline_source_quality :: "string \<Rightarrow> source_quality" where
  "kline_source_quality source =
     (case map_of SOURCE_QUALITY (normalize_kline_source source) of
        Some q \<Rightarrow> q | None \<Rightarrow> UNKNOWN_SOURCE_QUALITY)"

definition source_rank :: "string \<Rightarrow> int" where
  "source_rank source = rank (kline_source_quality source)"

definition source_is_trusted_final :: "string \<Rightarrow> bool" where
  "source_is_trusted_final source = trusted_final (kline_source_quality source)"

definition incoming_source_can_replace :: "string \<Rightarrow> string \<Rightarrow> bool" where
  "incoming_source_can_replace existing incoming = (source_rank incoming \<ge> source_rank existing)"

text \<open>
  The metadata of a repair: the durable flag, the two reason fields and the reason list (empty
  when it is absent or not a collection). A reason is split at plus signs.
\<close>

record repair_metadata =
  requires_trusted_finality :: bool
  meta_reason :: string
  meta_query_reason :: string
  meta_query_reasons :: "string list"

fun split_plus :: "string \<Rightarrow> string list" where
  "split_plus [] = [[]]"
| "split_plus (c # cs) =
     (if c = CHR ''+'' then [] # split_plus cs
      else case split_plus cs of [] \<Rightarrow> [[c]] | w # ws \<Rightarrow> (c # w) # ws)"

definition TRUSTED_FINALITY_REPAIR_REASONS :: "string list" where
  "TRUSTED_FINALITY_REPAIR_REASONS = [''query_untrusted_finality'']"

definition repair_requires_trusted_finality :: "repair_metadata \<Rightarrow> string \<Rightarrow> bool" where
  "repair_requires_trusted_finality details reason =
     (if requires_trusted_finality details then True
      else list_ex (\<lambda>candidate. list_ex (\<lambda>part. py_strip part \<in> set TRUSTED_FINALITY_REPAIR_REASONS)
        (split_plus candidate))
        ([reason, meta_reason details, meta_query_reason details] @ meta_query_reasons details))"

lemma can_replace_trans:
  "incoming_source_can_replace a b \<Longrightarrow> incoming_source_can_replace b c \<Longrightarrow> incoming_source_can_replace a c"
  by (simp add: incoming_source_can_replace_def)

lemma can_replace_refl [simp]: "incoming_source_can_replace a a"
  by (simp add: incoming_source_can_replace_def)

lemma not_can_replace: "\<not> incoming_source_can_replace a b \<Longrightarrow> source_rank b < source_rank a"
  by (simp add: incoming_source_can_replace_def)

lemma table_trusted:
  "\<forall>q\<in>set (map snd SOURCE_QUALITY). trusted_final q \<longleftrightarrow> 50 \<le> rank q"
  by (simp add: SOURCE_QUALITY_def trusted_final_def)

lemma trusted_rank: "source_is_trusted_final s \<longleftrightarrow> 50 \<le> source_rank s"
proof (cases "map_of SOURCE_QUALITY (normalize_kline_source s)")
  case None
  then show ?thesis
    by (simp add: source_is_trusted_final_def source_rank_def kline_source_quality_def
        UNKNOWN_SOURCE_QUALITY_def trusted_final_def)
next
  case (Some q)
  then have "q \<in> set (map snd SOURCE_QUALITY)" by (force dest: map_of_SomeD)
  then have "trusted_final q \<longleftrightarrow> 50 \<le> rank q" using table_trusted by blast
  then show ?thesis using Some
    by (simp add: source_is_trusted_final_def source_rank_def kline_source_quality_def)
qed

text \<open>Trusted finality is never lost to a replacement: a source that may replace a
  trusted-final one is itself trusted-final, and replacement is transitive, so no chain of
  allowed replacements turns a verified bar back into an unverified one.\<close>

lemma replacement_keeps_trust:
  assumes "source_is_trusted_final a" and "incoming_source_can_replace a b"
    and "incoming_source_can_replace b c"
  shows "source_is_trusted_final b \<and> source_is_trusted_final c \<and> incoming_source_can_replace a c"
  using assms by (simp add: trusted_rank incoming_source_can_replace_def)

lemma replacement_keeps_trust_example:
  "source_is_trusted_final ''backfill'' \<and> source_is_trusted_final '' Data_Manager_Amended ''
   \<and> \<not> source_is_trusted_final ''data_manager_closed''"
proof -
  have "source_is_trusted_final ''backfill''"
    "incoming_source_can_replace ''backfill'' '' Data_Manager_Amended ''"
    "incoming_source_can_replace '' Data_Manager_Amended '' ''repair_derived_verified''"
    "\<not> source_is_trusted_final ''data_manager_closed''" by code_simp+
  then show ?thesis using replacement_keeps_trust[of "''backfill''"] by blast
qed

end
