(* ===== verification/Bisect.thy ===== *)
theory Bisect
  imports Grid
begin

text \<open>
  Binary search on sorted lists (\<open>bisect\<close> of the standard library), which the bar series and
  the order book index their sorted lists with.
\<close>

section \<open>Binary search\<close>

text \<open>\<open>bisect.bisect_left\<close> and \<open>bisect.bisect_right\<close> as CPython implements them.\<close>

function bisect_loop :: "('a \<Rightarrow> bool) \<Rightarrow> 'a list \<Rightarrow> nat \<Rightarrow> nat \<Rightarrow> nat" where
  "bisect_loop below xs lo hi =
     (if lo < hi then
        let mid = (lo + hi) div 2 in
        if below (xs ! mid) then bisect_loop below xs (mid + 1) hi else bisect_loop below xs lo mid
      else lo)"
  by pat_completeness auto
termination by (relation "measure (\<lambda>(_, _, lo, hi). hi - lo)") auto

declare bisect_loop.simps [simp del]

definition bisect_left :: "'a::linorder list \<Rightarrow> 'a \<Rightarrow> nat" where
  "bisect_left xs x = bisect_loop (\<lambda>y. y < x) xs 0 (length xs)"

definition bisect_right :: "'a::linorder list \<Rightarrow> 'a \<Rightarrow> nat" where
  "bisect_right xs x = bisect_loop (\<lambda>y. \<not> x < y) xs 0 (length xs)"

lemma bisect_loop_spec:
  assumes "lo \<le> hi" "hi \<le> length xs" "\<forall>i<lo. below (xs ! i)" "\<forall>i. hi \<le> i \<and> i < length xs \<longrightarrow> \<not> below (xs ! i)"
    and mono: "\<forall>i j. i \<le> j \<and> j < length xs \<and> below (xs ! j) \<longrightarrow> below (xs ! i)"
  shows "bisect_loop below xs lo hi \<le> length xs
    \<and> (\<forall>i<length xs. below (xs ! i) \<longleftrightarrow> i < bisect_loop below xs lo hi)"
  using assms
proof (induction below xs lo hi rule: bisect_loop.induct)
  case (1 below xs lo hi)
  show ?case
  proof (cases "lo < hi")
    case False
    then have "bisect_loop below xs lo hi = lo" by (simp add: bisect_loop.simps)
    then show ?thesis using "1.prems" False by (metis le_antisym linorder_not_le)
  next
    case True
    let ?mid = "(lo + hi) div 2"
    have mid: "lo \<le> ?mid" "?mid < hi" using True by auto
    show ?thesis
    proof (cases "below (xs ! ?mid)")
      case b: True
      have lower: "\<forall>i<?mid + 1. below (xs ! i)"
        using b mid "1.prems"(2,5) by (metis Suc_eq_plus1 less_Suc_eq_le order_less_le_trans)
      have eq: "bisect_loop below xs lo hi = bisect_loop below xs (?mid + 1) hi"
        using True b by (simp add: bisect_loop.simps[of below xs lo hi])
      have "?mid + 1 \<le> hi" using mid by simp
      from "1.IH"(1)[OF True refl b this "1.prems"(2) lower "1.prems"(4,5)]
      show ?thesis unfolding eq .
    next
      case nb: False
      have upper: "\<forall>i. ?mid \<le> i \<and> i < length xs \<longrightarrow> \<not> below (xs ! i)" using nb "1.prems"(5) by blast
      have eq: "bisect_loop below xs lo hi = bisect_loop below xs lo ?mid"
        using True nb by (simp add: bisect_loop.simps[of below xs lo hi])
      have "?mid \<le> length xs" using mid "1.prems"(2) by simp
      from "1.IH"(2)[OF True refl nb mid(1) this "1.prems"(3) upper "1.prems"(5)]
      show ?thesis unfolding eq .
    qed
  qed
qed

lemma bisect_takeWhile:
  assumes "\<forall>i j. i \<le> j \<and> j < length xs \<and> below (xs ! j) \<longrightarrow> below (xs ! i)"
  shows "bisect_loop below xs 0 (length xs) = length (takeWhile below xs)"
proof -
  let ?k = "bisect_loop below xs 0 (length xs)"
  have k: "?k \<le> length xs \<and> (\<forall>i<length xs. below (xs ! i) \<longleftrightarrow> i < ?k)"
    by (rule bisect_loop_spec) (use assms in auto)
  have "takeWhile below xs = take ?k xs"
    by (rule takeWhile_eq_take_P_nth) (use k in auto)
  then show ?thesis using k by simp
qed

lemma sorted_nth_before:
  "strictly_sorted xs \<Longrightarrow> i \<le> j \<Longrightarrow> j < length xs \<Longrightarrow> xs ! i \<le> xs ! j"
  unfolding strictly_sorted_def by (metis le_neq_implies_less order_less_imp_le order_refl sorted_wrt_nth_less)

text \<open>On a strictly sorted list the searches count the smaller (or not larger) elements.\<close>

lemma bisect_left_sorted:
  assumes "strictly_sorted xs"
  shows "bisect_left xs x = length (takeWhile (\<lambda>y. y < x) xs)"
  unfolding bisect_left_def
  by (rule bisect_takeWhile) (use sorted_nth_before[OF assms] in \<open>auto intro: order_le_less_trans\<close>)

lemma bisect_right_sorted:
  assumes "strictly_sorted xs"
  shows "bisect_right xs x = length (takeWhile (\<lambda>y. y \<le> x) xs)"
  unfolding bisect_right_def linorder_not_less
  by (rule bisect_takeWhile) (use sorted_nth_before[OF assms] in \<open>auto intro: order_trans\<close>)

lemma takeWhile_sorted:
  assumes "strictly_sorted (map t bs)" "\<And>x y. x < y \<Longrightarrow> P y \<Longrightarrow> P x"
  shows "takeWhile (\<lambda>b. P (t b)) bs = filter (\<lambda>b. P (t b)) bs
    \<and> dropWhile (\<lambda>b. P (t b)) bs = filter (\<lambda>b. \<not> P (t b)) bs"
  using assms(1)
proof (induction bs)
  case (Cons b bs)
  show ?case
  proof (cases "P (t b)")
    case False
    then have "\<forall>c\<in>set bs. \<not> P (t c)" using Cons.prems assms(2) by auto
    then show ?thesis using False by (auto simp: filter_empty_conv filter_id_conv)
  qed (use Cons in simp)
qed simp

lemma length_takeWhile_map: "length (takeWhile P (map t bs)) = length (takeWhile (\<lambda>b. P (t b)) bs)"
  by (induction bs) auto

lemma split_by_time:
  assumes "strictly_sorted (map t bs)"
  shows "take (bisect_left (map t bs) x) bs = filter (\<lambda>b. t b < x) bs"
    "drop (bisect_left (map t bs) x) bs = filter (\<lambda>b. x \<le> t b) bs"
    "take (bisect_right (map t bs) x) bs = filter (\<lambda>b. t b \<le> x) bs"
    "drop (bisect_right (map t bs) x) bs = filter (\<lambda>b. x < t b) bs"
proof -
  have l: "bisect_left (map t bs) x = length (takeWhile (\<lambda>b. t b < x) bs)"
    using bisect_left_sorted[OF assms] by (simp add: length_takeWhile_map)
  have r: "bisect_right (map t bs) x = length (takeWhile (\<lambda>b. t b \<le> x) bs)"
    using bisect_right_sorted[OF assms] by (simp add: length_takeWhile_map)
  have "takeWhile (\<lambda>b. t b < x) bs = filter (\<lambda>b. t b < x) bs
      \<and> dropWhile (\<lambda>b. t b < x) bs = filter (\<lambda>b. \<not> t b < x) bs"
    by (rule takeWhile_sorted[OF assms]) simp
  then show "take (bisect_left (map t bs) x) bs = filter (\<lambda>b. t b < x) bs"
    "drop (bisect_left (map t bs) x) bs = filter (\<lambda>b. x \<le> t b) bs"
    unfolding l takeWhile_eq_take[symmetric] dropWhile_eq_drop[symmetric] by (simp_all add: not_less)
  have "takeWhile (\<lambda>b. t b \<le> x) bs = filter (\<lambda>b. t b \<le> x) bs
      \<and> dropWhile (\<lambda>b. t b \<le> x) bs = filter (\<lambda>b. \<not> t b \<le> x) bs"
    by (rule takeWhile_sorted[OF assms]) simp
  then show "take (bisect_right (map t bs) x) bs = filter (\<lambda>b. t b \<le> x) bs"
    "drop (bisect_right (map t bs) x) bs = filter (\<lambda>b. x < t b) bs"
    unfolding r takeWhile_eq_take[symmetric] dropWhile_eq_drop[symmetric] by (simp_all add: not_le)
qed

end
