(* ===== verification/BarSeries.thy ===== *)
theory BarSeries
  imports SourceQuality Bisect
begin

text \<open>
  One cached series (\<open>BarSeries\<close> of \<open>backend/app/data_engine/data_manager/cache.py\<close>): bars
  sorted by time beside an index of their times, a capacity, and the arbitration by source
  quality at equal times. The wall clock of the access stamp is an argument.
\<close>

section \<open>The series\<close>

text \<open>
  A bar is its time in seconds, its (normalised) source and a payload the series never reads.
  Capacities are natural numbers: the configuration holds positive integers.
\<close>

record 'p bar_data =
  bar_time :: int
  bar_source :: string
  bar_payload :: 'p

record 'p bar_series =
  series_bars :: "'p bar_data list"
  max_bars :: nat
  last_access_ms :: int
  generation :: int
  revision :: int
  access_revision :: int
  time_index :: "int list"

definition new_series :: "nat \<Rightarrow> int \<Rightarrow> int \<Rightarrow> 'p bar_series" where
  "new_series cap gen now = \<lparr>series_bars = [], max_bars = cap, last_access_ms = now,
     generation = gen, revision = 0, access_revision = 0, time_index = []\<rparr>"

definition series_count :: "'p bar_series \<Rightarrow> nat" where
  "series_count s = length (series_bars s)"

definition earliest_time :: "'p bar_series \<Rightarrow> int option" where
  "earliest_time s = (if series_bars s = [] then None else Some (bar_time (hd (series_bars s))))"

definition latest_time :: "'p bar_series \<Rightarrow> int option" where
  "latest_time s = (if series_bars s = [] then None else Some (bar_time (last (series_bars s))))"

text \<open>\<open>while len(self._bars) > self._max_bars: evicted.append(self._bars.pop(0)); ...\<close>\<close>

function pop_overflow :: "'p bar_series \<Rightarrow> 'p bar_data list \<Rightarrow> 'p bar_series \<times> 'p bar_data list" where
  "pop_overflow s evicted =
     (if length (series_bars s) > max_bars s
      then pop_overflow (s\<lparr>series_bars := tl (series_bars s), time_index := tl (time_index s)\<rparr>)
        (evicted @ [hd (series_bars s)])
      else (s, evicted))"
  by pat_completeness auto
termination by (relation "measure (\<lambda>(s, _). length (series_bars s))") auto

declare pop_overflow.simps [simp del]

text \<open>Replacing the bar at an index when the incoming source may.\<close>

definition replace_at :: "'p bar_series \<Rightarrow> nat \<Rightarrow> 'p bar_data \<Rightarrow> 'p bar_series" where
  "replace_at s i bar =
     (if incoming_source_can_replace (bar_source (series_bars s ! i)) (bar_source bar)
      then s\<lparr>series_bars := (series_bars s)[i := bar]\<rparr> else s)"

definition insert_at :: "nat \<Rightarrow> 'a \<Rightarrow> 'a list \<Rightarrow> 'a list" where
  "insert_at i x xs = take i xs @ x # drop i xs"

definition insert_sorted :: "'p bar_data \<Rightarrow> 'p bar_series \<Rightarrow> 'p bar_series \<times> 'p bar_data list" where
  "insert_sorted bar s =
     (let idx = bisect_left (time_index s) (bar_time bar) in
      if idx < length (time_index s) \<and> time_index s ! idx = bar_time bar
      then (replace_at s idx bar, [])
      else pop_overflow (s\<lparr>series_bars := insert_at idx bar (series_bars s),
        time_index := insert_at idx (bar_time bar) (time_index s)\<rparr>) [])"

definition touch_write :: "int \<Rightarrow> 'p bar_series \<Rightarrow> 'p bar_series" where
  "touch_write now s = s\<lparr>last_access_ms := now, revision := revision s + 1\<rparr>"

definition append_bar :: "int \<Rightarrow> 'p bar_data \<Rightarrow> 'p bar_series \<Rightarrow> 'p bar_series \<times> 'p bar_data list" where
  "append_bar now bar s0 =
     (let s = touch_write now s0 in
      if series_bars s \<noteq> [] \<and> bar_time (last (series_bars s)) = bar_time bar
      then (replace_at s (length (series_bars s) - 1) bar, [])
      else if series_bars s \<noteq> [] \<and> bar_time bar < bar_time (last (series_bars s))
      then insert_sorted bar s
      else pop_overflow (s\<lparr>series_bars := series_bars s @ [bar],
        time_index := time_index s @ [bar_time bar]\<rparr>) [])"

definition upsert_bar :: "int \<Rightarrow> 'p bar_data \<Rightarrow> 'p bar_series \<Rightarrow> 'p bar_series \<times> 'p bar_data list" where
  "upsert_bar now bar s0 =
     (let s = touch_write now s0; idx = bisect_left (time_index s) (bar_time bar) in
      if idx < length (time_index s) \<and> time_index s ! idx = bar_time bar
      then (replace_at s idx bar, [])
      else insert_sorted bar s)"

text \<open>
  The dictionary merge both branches of \<open>bulk_load\<close> use: a bar takes the place of the one at
  its time when there is none or its source may replace it.
\<close>

definition arbitrate :: "(int \<times> 'p bar_data) list \<Rightarrow> 'p bar_data \<Rightarrow> (int \<times> 'p bar_data) list" where
  "arbitrate d bar = (case map_of d (bar_time bar) of
       None \<Rightarrow> AList.update (bar_time bar) bar d
     | Some existing \<Rightarrow>
         if incoming_source_can_replace (bar_source existing) (bar_source bar)
         then AList.update (bar_time bar) bar d else d)"

definition dict_of_bars :: "'p bar_data list \<Rightarrow> (int \<times> 'p bar_data) list" where
  "dict_of_bars bs = foldl (\<lambda>d b. AList.update (bar_time b) b d) [] bs"

definition merge_bars :: "'p bar_data list \<Rightarrow> 'p bar_data list \<Rightarrow> 'p bar_data list" where
  "merge_bars existing incoming =
     sort_key bar_time (map snd (foldl arbitrate (dict_of_bars existing) incoming))"

fun not_increasing :: "'p bar_data list \<Rightarrow> bool" where
  "not_increasing (a # b # rest) = (bar_time b \<le> bar_time a \<or> not_increasing (b # rest))"
| "not_increasing _ = False"

definition enforce_capacity :: "'p bar_series \<Rightarrow> 'p bar_data list \<Rightarrow> 'p bar_series \<times> 'p bar_data list" where
  "enforce_capacity s evicted =
     (if length (series_bars s) > max_bars s
      then let overflow = length (series_bars s) - max_bars s in
        (s\<lparr>series_bars := drop overflow (series_bars s), time_index := drop overflow (time_index s)\<rparr>,
         take overflow (series_bars s))
      else (s, evicted))"

definition bulk_load :: "int \<Rightarrow> 'p bar_data list \<Rightarrow> 'p bar_series \<Rightarrow> 'p bar_series \<times> 'p bar_data list" where
  "bulk_load now loaded s0 =
     (if loaded = [] then (s0, [])
      else let bs = (if not_increasing loaded then merge_bars [] loaded else loaded);
               s = touch_write now s0;
               cur = series_bars s in
        if cur = [] then
          enforce_capacity (s\<lparr>series_bars := bs, time_index := map bar_time bs\<rparr>) []
        else if bar_time (last bs) < bar_time (hd cur) then
          (let available = max_bars s - length cur in
           if available = 0 then enforce_capacity s bs
           else if length bs \<le> available then
             enforce_capacity (s\<lparr>series_bars := bs @ cur, time_index := map bar_time bs @ time_index s\<rparr>) []
           else let overflow = length bs - available; retained = drop overflow bs in
             enforce_capacity (s\<lparr>series_bars := retained @ cur,
               time_index := map bar_time retained @ time_index s\<rparr>) (take overflow bs))
        else if bar_time (hd bs) > bar_time (last cur) then
          enforce_capacity (s\<lparr>series_bars := cur @ bs, time_index := time_index s @ map bar_time bs\<rparr>) []
        else let merged = merge_bars cur bs in
          enforce_capacity (s\<lparr>series_bars := merged, time_index := map bar_time merged\<rparr>) [])"

definition set_max_bars :: "int \<Rightarrow> 'p bar_series \<Rightarrow> 'p bar_series \<times> 'p bar_data list" where
  "set_max_bars cap s =
     (let normalized = nat (max 1 cap) in
      if normalized = max_bars s then (s, [])
      else let s' = s\<lparr>max_bars := normalized, revision := revision s + 1\<rparr> in
        if length (series_bars s) \<le> normalized then (s', [])
        else let overflow = length (series_bars s) - normalized in
          (s'\<lparr>series_bars := drop overflow (series_bars s), time_index := drop overflow (time_index s)\<rparr>,
           take overflow (series_bars s)))"

definition clear_series :: "'p bar_series \<Rightarrow> 'p bar_series" where
  "clear_series s = s\<lparr>revision := (if series_bars s \<noteq> [] then revision s + 1 else revision s),
     series_bars := [], time_index := []\<rparr>"

subsection \<open>Reads\<close>

definition mark_access :: "int \<Rightarrow> 'p bar_series \<Rightarrow> 'p bar_series" where
  "mark_access now s = s\<lparr>last_access_ms := now, access_revision := access_revision s + 1\<rparr>"

text \<open>\<open>xs[-limit:]\<close>; a limit of zero is \<open>xs[0:]\<close>.\<close>

definition slice_last :: "int \<Rightarrow> 'a list \<Rightarrow> 'a list" where
  "slice_last limit xs =
     drop (if limit > 0 then nat (max 0 (int (length xs) - limit)) else nat (- limit)) xs"

definition get_latest :: "int \<Rightarrow> int \<Rightarrow> 'p bar_series \<Rightarrow> 'p bar_series \<times> 'p bar_data list" where
  "get_latest now limit s0 =
     (let s = mark_access now s0 in
      (s, if limit \<ge> int (length (series_bars s)) then series_bars s
          else slice_last limit (series_bars s)))"

definition query_range :: "int \<Rightarrow> int option \<Rightarrow> int option \<Rightarrow> int option \<Rightarrow> 'p bar_series \<Rightarrow>
    'p bar_series \<times> 'p bar_data list" where
  "query_range now start_time end_time limit s0 =
     (let s = mark_access now s0 in
      if series_bars s = [] then (s, [])
      else let lo = (case start_time of None \<Rightarrow> 0 | Some t \<Rightarrow> bisect_left (time_index s) t);
               hi = (case end_time of None \<Rightarrow> length (series_bars s)
                 | Some t \<Rightarrow> bisect_right (time_index s) t);
               result = drop lo (take hi (series_bars s)) in
        (s, case limit of None \<Rightarrow> result
          | Some l \<Rightarrow> if int (length result) > l then slice_last l result else result))"

definition get_bar_at :: "int \<Rightarrow> int \<Rightarrow> 'p bar_series \<Rightarrow> 'p bar_series \<times> 'p bar_data option" where
  "get_bar_at now t s0 =
     (let s = mark_access now s0; idx = bisect_left (time_index s) t in
      (s, if idx < length (time_index s) \<and> time_index s ! idx = t then Some (series_bars s ! idx) else None))"

definition get_before :: "int \<Rightarrow> int \<Rightarrow> int \<Rightarrow> 'p bar_series \<Rightarrow> 'p bar_series \<times> 'p bar_data list" where
  "get_before now before_time limit s0 =
     (let s = mark_access now s0;
          idx = bisect_left (time_index s) before_time;
          start = nat (max 0 (int idx - limit)) in
      (s, drop start (take idx (series_bars s))))"

section \<open>What a series promises\<close>

text \<open>
  The invariant: the index is the list of bar times, strictly increasing, and the capacity
  holds. The reference for every write is one sorted insertion with arbitration.
\<close>

definition bars_sorted :: "'p bar_data list \<Rightarrow> bool" where
  "bars_sorted bs = strictly_sorted (map bar_time bs)"

definition series_ok :: "'p bar_series \<Rightarrow> bool" where
  "series_ok s \<longleftrightarrow> time_index s = map bar_time (series_bars s) \<and> bars_sorted (series_bars s)
     \<and> length (series_bars s) \<le> max_bars s"

fun ref_insert :: "'p bar_data \<Rightarrow> 'p bar_data list \<Rightarrow> 'p bar_data list" where
  "ref_insert bar [] = [bar]"
| "ref_insert bar (b # bs) =
     (if bar_time bar < bar_time b then bar # b # bs
      else if bar_time bar = bar_time b
      then (if incoming_source_can_replace (bar_source b) (bar_source bar) then bar else b) # bs
      else b # ref_insert bar bs)"

definition lookup :: "'p bar_data list \<Rightarrow> int \<rightharpoonup> 'p bar_data" where
  "lookup bs = map_of (map (\<lambda>b. (bar_time b, b)) bs)"

definition arb :: "(int \<rightharpoonup> 'p bar_data) \<Rightarrow> 'p bar_data \<Rightarrow> (int \<rightharpoonup> 'p bar_data)" where
  "arb m bar = (case m (bar_time bar) of None \<Rightarrow> m(bar_time bar \<mapsto> bar)
     | Some e \<Rightarrow> if incoming_source_can_replace (bar_source e) (bar_source bar)
         then m(bar_time bar \<mapsto> bar) else m)"

lemma bars_sorted_simps [simp]:
  "bars_sorted []" "bars_sorted (b # bs) \<longleftrightarrow> (\<forall>c\<in>set bs. bar_time b < bar_time c) \<and> bars_sorted bs"
  by (auto simp: bars_sorted_def)

lemma bars_sorted_append:
  "bars_sorted (xs @ ys) \<longleftrightarrow> bars_sorted xs \<and> bars_sorted ys \<and> (\<forall>a\<in>set xs. \<forall>b\<in>set ys. bar_time a < bar_time b)"
  by (auto simp: bars_sorted_def strictly_sorted_append)

lemma lookup_simps [simp]: "lookup [] = Map.empty" "lookup (b # bs) = (lookup bs)(bar_time b \<mapsto> b)"
  by (simp_all add: lookup_def)

lemma lookup_append: "lookup (xs @ ys) = lookup ys ++ lookup xs"
  by (simp add: lookup_def)

lemma lookup_notin: "t \<notin> bar_time ` set bs \<Longrightarrow> lookup bs t = None"
  by (induction bs) auto

lemma lookup_Some: "lookup bs t = Some b \<Longrightarrow> b \<in> set bs \<and> bar_time b = t"
  by (induction bs) (auto split: if_splits)

lemma times_ref_insert: "bar_time ` set (ref_insert bar bs) = insert (bar_time bar) (bar_time ` set bs)"
  by (induction bs) auto

lemma ref_insert_sorted: "bars_sorted bs \<Longrightarrow> bars_sorted (ref_insert bar bs)"
proof (induction bs)
  case (Cons b bs)
  have "\<forall>t\<in>bar_time ` set (ref_insert bar bs). bar_time b < t" if "bar_time b < bar_time bar"
    using Cons.prems that by (auto simp: times_ref_insert)
  then show ?case using Cons by auto
qed simp

lemma lookup_ref_insert: "bars_sorted bs \<Longrightarrow> lookup (ref_insert bar bs) = arb (lookup bs) bar"
proof (induction bs)
  case (Cons b bs)
  have "lookup bs (bar_time b) = None" using Cons.prems by (intro lookup_notin) auto
  moreover have "lookup bs (bar_time bar) = None" if "bar_time bar < bar_time b"
    using Cons.prems that by (intro lookup_notin) force
  ultimately show ?case using Cons
    by (auto simp: arb_def fun_eq_iff split: option.splits)
qed (simp add: arb_def)

lemma dom_lookup: "dom (lookup bs) = bar_time ` set bs"
  by (simp add: lookup_def dom_map_of_conv_image_fst image_image)

lemma lookup_member: "bars_sorted bs \<Longrightarrow> b \<in> set bs \<Longrightarrow> lookup bs (bar_time b) = Some b"
  by (induction bs) auto

lemma lookup_sorted_eq:
  assumes "bars_sorted xs" "bars_sorted ys" "lookup xs = lookup ys"
  shows "xs = ys"
proof -
  have "bar_time ` set xs = bar_time ` set ys" unfolding dom_lookup[symmetric] assms(3) ..
  then have times: "map bar_time xs = map bar_time ys"
    using strictly_sorted_unique[OF assms(1,2)[unfolded bars_sorted_def]] by simp
  then have len: "length xs = length ys" by (metis length_map)
  have "xs ! i = ys ! i" if i: "i < length xs" for i
  proof -
    have iy: "i < length ys" using i unfolding len .
    have t: "bar_time (xs ! i) = bar_time (ys ! i)"
      using arg_cong[OF times, of "\<lambda>ts. ts ! i"] unfolding nth_map[OF i] nth_map[OF iy] .
    have "Some (xs ! i) = lookup ys (bar_time (xs ! i))"
      unfolding assms(3)[symmetric] by (rule lookup_member[OF assms(1) nth_mem[OF i], symmetric])
    also have "\<dots> = Some (ys ! i)" unfolding t by (rule lookup_member[OF assms(2) nth_mem[OF iy]])
    finally show ?thesis by (rule option.inject[THEN iffD1])
  qed
  then show ?thesis by (rule nth_equalityI[OF len])
qed

lemma ref_insert_prefix:
  "\<forall>a\<in>set as. bar_time a < bar_time bar \<Longrightarrow> ref_insert bar (as @ bs) = as @ ref_insert bar bs"
  by (induction as) auto

lemma pop_overflow_eq:
  "pop_overflow s ev = (let k = length (series_bars s) - max_bars s in
     (s\<lparr>series_bars := drop k (series_bars s), time_index := drop k (time_index s)\<rparr>,
      ev @ take k (series_bars s)))"
proof (induction s ev rule: pop_overflow.induct)
  case (1 s ev)
  show ?case
  proof (cases "length (series_bars s) > max_bars s")
    case True
    then obtain b bs where b: "series_bars s = b # bs" by (cases "series_bars s") auto
    have "length (series_bars s) - max_bars s = Suc (length bs - max_bars s)" using True b by simp
    then show ?thesis using "1.IH"[OF True] True b
      by (simp add: pop_overflow.simps[of s] Let_def drop_Suc)
  next
    case False
    then show ?thesis by (simp add: pop_overflow.simps[of s])
  qed
qed

subsection \<open>Single-bar writes\<close>

lemma series_okD:
  assumes "series_ok s"
  shows "time_index s = map bar_time (series_bars s)" "bars_sorted (series_bars s)"
    "length (series_bars s) \<le> max_bars s" "strictly_sorted (map bar_time (series_bars s))"
  using assms by (simp_all add: series_ok_def bars_sorted_def)

lemma series_ok_touch [simp]: "series_ok (touch_write now s) = series_ok s"
  "series_ok (mark_access now s) = series_ok s" "series_bars (touch_write now s) = series_bars s"
  "series_bars (mark_access now s) = series_bars s" "time_index (touch_write now s) = time_index s"
  "max_bars (touch_write now s) = max_bars s" "time_index (mark_access now s) = time_index s"
  by (simp_all add: series_ok_def touch_write_def mark_access_def)

lemma bars_sorted_drop: "bars_sorted bs \<Longrightarrow> bars_sorted (drop k bs)"
  by (metis append_take_drop_id bars_sorted_append)

text \<open>The common end of a write: the new sorted list, cut to its newest bars.\<close>

definition written :: "'p bar_series \<Rightarrow> 'p bar_data list \<Rightarrow> 'p bar_series \<times> 'p bar_data list \<Rightarrow> bool" where
  "written s full r \<longleftrightarrow> series_ok (fst r) \<and> snd r @ series_bars (fst r) = full
     \<and> length (series_bars (fst r)) = min (max_bars s) (length full) \<and> max_bars (fst r) = max_bars s"

lemma pop_overflow_written:
  assumes "bars_sorted full" "max_bars s' = max_bars s" "series_bars s' = full" "time_index s' = map bar_time full"
  shows "written s full (pop_overflow s' [])"
  using assms by (auto simp: written_def pop_overflow_eq Let_def series_ok_def bars_sorted_drop drop_map)

lemma replace_at_written:
  assumes s: "series_ok s" and i: "i < length (series_bars s)" "bar_time (series_bars s ! i) = bar_time bar"
  shows "written s (ref_insert bar (series_bars s)) (replace_at s i bar, [])"
proof -
  let ?bs = "series_bars s"
  have split: "?bs = take i ?bs @ ?bs ! i # drop (Suc i) ?bs" using i(1) by (rule id_take_nth_drop)
  have before: "\<forall>a\<in>set (take i ?bs). bar_time a < bar_time bar"
    using series_okD(2)[OF s] split i(2) by (metis bars_sorted_append list.set_intros(1))
  have ref: "ref_insert bar ?bs = take i ?bs
      @ (if incoming_source_can_replace (bar_source (?bs ! i)) (bar_source bar) then bar else ?bs ! i)
      # drop (Suc i) ?bs"
    using ref_insert_prefix[OF before, of "?bs ! i # drop (Suc i) ?bs"] split i(2) by simp
  have new: "series_bars (replace_at s i bar) = ref_insert bar ?bs"
    using ref split i(1) by (auto simp: replace_at_def upd_conv_take_nth_drop)
  have "(map bar_time ?bs)[i := bar_time bar] = map bar_time ?bs"
    using i by (metis list_update_id nth_map)
  then have "time_index (replace_at s i bar) = map bar_time (series_bars (replace_at s i bar))"
    using series_okD(1)[OF s] by (auto simp: replace_at_def map_update)
  moreover have "max_bars (replace_at s i bar) = max_bars s" by (simp add: replace_at_def)
  moreover have "length (ref_insert bar ?bs) = length ?bs" using ref i(1) by simp
  ultimately show ?thesis
    using new series_okD(3)[OF s] ref_insert_sorted[OF series_okD(2)[OF s]]
    by (simp add: written_def series_ok_def)
qed

lemma bisect_position:
  assumes s: "series_ok s" and ix: "i = bisect_left (time_index s) t"
  shows "i \<le> length (series_bars s)" "\<forall>a\<in>set (take i (series_bars s)). bar_time a < t"
    "\<forall>b\<in>set (drop i (series_bars s)). t \<le> bar_time b"
proof -
  have i: "i = bisect_left (map bar_time (series_bars s)) t" using series_okD(1)[OF s] by (simp add: ix)
  note split = split_by_time[OF series_okD(4)[OF s], of t]
  show "\<forall>a\<in>set (take i (series_bars s)). bar_time a < t" unfolding i split(1) by simp
  show "\<forall>b\<in>set (drop i (series_bars s)). t \<le> bar_time b" unfolding i split(2) by simp
  show "i \<le> length (series_bars s)"
    unfolding i bisect_left_sorted[OF series_okD(4)[OF s]] by (metis length_map length_takeWhile_le)
qed

lemma insert_at_written:
  assumes s: "series_ok s" and i: "i = bisect_left (time_index s) (bar_time bar)"
    and new: "\<not> (i < length (time_index s) \<and> time_index s ! i = bar_time bar)"
  shows "insert_at i bar (series_bars s) = ref_insert bar (series_bars s)"
proof -
  let ?bs = "series_bars s"
  note pos = bisect_position[OF s i]
  have "\<forall>b\<in>set (drop i ?bs). bar_time bar < bar_time b"
  proof (cases "i < length ?bs")
    case True
    then have d: "drop i ?bs = ?bs ! i # drop (Suc i) ?bs" by (rule Cons_nth_drop_Suc[symmetric])
    have "bar_time bar \<noteq> bar_time (?bs ! i)" using new True series_okD(1)[OF s] by simp
    moreover have "bar_time bar \<le> bar_time (?bs ! i)" using pos(3) d by simp
    moreover have "\<forall>b\<in>set (drop (Suc i) ?bs). bar_time (?bs ! i) < bar_time b"
      using bars_sorted_drop[OF series_okD(2)[OF s], of i] d by simp
    ultimately show ?thesis using d by force
  qed simp
  then have "ref_insert bar (drop i ?bs) = bar # drop i ?bs" by (cases "drop i ?bs") auto
  then show ?thesis
    using ref_insert_prefix[OF pos(2), of "drop i ?bs"] by (simp add: insert_at_def)
qed

lemma insert_sorted_written:
  assumes s: "series_ok s"
  shows "written s (ref_insert bar (series_bars s)) (insert_sorted bar s)"
proof -
  let ?i = "bisect_left (time_index s) (bar_time bar)"
  show ?thesis
  proof (cases "?i < length (time_index s) \<and> time_index s ! ?i = bar_time bar")
    case True
    then show ?thesis using replace_at_written[OF s, of ?i bar] series_okD(1)[OF s]
      by (auto simp: insert_sorted_def Let_def)
  next
    case False
    have ins: "insert_at ?i bar (series_bars s) = ref_insert bar (series_bars s)"
      by (rule insert_at_written[OF s refl False])
    have "insert_at ?i (bar_time bar) (time_index s) = map bar_time (insert_at ?i bar (series_bars s))"
      using series_okD(1)[OF s] by (simp add: insert_at_def take_map drop_map)
    then have "written s (ref_insert bar (series_bars s)) (pop_overflow (s\<lparr>series_bars := insert_at ?i bar (series_bars s),
        time_index := insert_at ?i (bar_time bar) (time_index s)\<rparr>) [])"
      using ins ref_insert_sorted[OF series_okD(2)[OF s]] by (intro pop_overflow_written) simp_all
    then show ?thesis by (simp only: insert_sorted_def Let_def False if_False)
  qed
qed

lemma written_touch: "written (touch_write now s) full r = written s full r"
  by (simp add: written_def)

lemma ref_insert_newer: "\<forall>b\<in>set bs. bar_time b < bar_time bar \<Longrightarrow> ref_insert bar bs = bs @ [bar]"
  using ref_insert_prefix[of bs bar "[]"] by simp

lemma sorted_last_greatest:
  "bars_sorted bs \<Longrightarrow> b \<in> set bs \<Longrightarrow> bar_time b \<le> bar_time (last bs)"
proof (induction bs)
  case (Cons a bs)
  then show ?case by (cases "bs = []") (auto intro: less_imp_le)
qed simp

lemma append_written:
  assumes s: "series_ok s"
  shows "written s (ref_insert bar (series_bars s)) (append_bar now bar s)"
proof -
  let ?t = "touch_write now s" and ?bs = "series_bars s"
  have t: "series_ok ?t" using s by simp
  note le = sorted_last_greatest[OF series_okD(2)[OF s]]
  consider (eq) "?bs \<noteq> []" "bar_time (last ?bs) = bar_time bar"
    | (old) "?bs \<noteq> []" "bar_time bar < bar_time (last ?bs)"
    | (newer) "?bs = [] \<or> bar_time (last ?bs) < bar_time bar" by linarith
  then show ?thesis
  proof cases
    case eq
    then show ?thesis using replace_at_written[OF t, of "length ?bs - 1" bar]
      by (simp add: append_bar_def Let_def written_touch last_conv_nth)
  next
    case old
    then show ?thesis using insert_sorted_written[OF t, of bar]
      by (simp add: append_bar_def Let_def written_touch)
  next
    case newer
    have "\<forall>b\<in>set ?bs. bar_time b < bar_time bar" using newer le by force
    then have ref: "?bs @ [bar] = ref_insert bar ?bs" using ref_insert_newer by metis
    have "written s (ref_insert bar ?bs) (pop_overflow (?t\<lparr>series_bars := ?bs @ [bar],
        time_index := time_index ?t @ [bar_time bar]\<rparr>) [])"
      unfolding ref[symmetric]
    proof (rule pop_overflow_written)
      show "bars_sorted (?bs @ [bar])" unfolding ref by (rule ref_insert_sorted[OF series_okD(2)[OF s]])
    qed (use series_okD(1)[OF s] in simp_all)
    moreover have "append_bar now bar s = pop_overflow (?t\<lparr>series_bars := ?bs @ [bar],
        time_index := time_index ?t @ [bar_time bar]\<rparr>) []"
      using newer by (auto simp: append_bar_def Let_def)
    ultimately show ?thesis by simp
  qed
qed

lemma upsert_written:
  assumes s: "series_ok s"
  shows "written s (ref_insert bar (series_bars s)) (upsert_bar now bar s)"
proof -
  let ?t = "touch_write now s" and ?i = "bisect_left (time_index s) (bar_time bar)"
  have t: "series_ok ?t" using s by simp
  show ?thesis
  proof (cases "?i < length (time_index s) \<and> time_index s ! ?i = bar_time bar")
    case True
    then show ?thesis using replace_at_written[OF t, of ?i bar] series_okD(1)[OF s]
      by (auto simp: upsert_bar_def Let_def written_touch)
  next
    case False
    show ?thesis using insert_sorted_written[OF t, of bar]
      by (simp only: upsert_bar_def Let_def series_ok_touch False if_False written_touch)
  qed
qed

subsection \<open>Bulk loads\<close>

definition ref_load :: "'p bar_data list \<Rightarrow> 'p bar_data list \<Rightarrow> 'p bar_data list" where
  "ref_load bs incoming = foldl (\<lambda>acc b. ref_insert b acc) bs incoming"

lemma ref_load_sorted: "bars_sorted bs \<Longrightarrow> bars_sorted (ref_load bs incoming)"
  unfolding ref_load_def by (induction incoming arbitrary: bs) (simp_all add: ref_insert_sorted)

lemma lookup_ref_load: "bars_sorted bs \<Longrightarrow> lookup (ref_load bs incoming) = foldl arb (lookup bs) incoming"
  unfolding ref_load_def
  by (induction incoming arbitrary: bs) (simp_all add: ref_insert_sorted lookup_ref_insert)

text \<open>What arbitration does at one time: the bars of that time fold into one.\<close>

fun prefer_bar :: "'p bar_data option \<Rightarrow> 'p bar_data \<Rightarrow> 'p bar_data option" where
  "prefer_bar None b = Some b"
| "prefer_bar (Some e) b = (if incoming_source_can_replace (bar_source e) (bar_source b) then Some b else Some e)"

lemma arb_at: "arb m b t = (if bar_time b = t then prefer_bar (m t) b else m t)"
  by (auto simp: arb_def split: option.splits)

lemma foldl_arb_at: "foldl arb m bs t = foldl prefer_bar (m t) (filter (\<lambda>b. bar_time b = t) bs)"
  by (induction bs arbitrary: m) (auto simp: arb_at)

lemma prefer_two_stage:
  "foldl prefer_bar (Some e) bs = (case foldl prefer_bar None bs of None \<Rightarrow> Some e | Some x \<Rightarrow> prefer_bar (Some e) x)"
proof (induction bs rule: rev_induct)
  case (snoc b bs)
  then show ?case
    by (cases "foldl prefer_bar None bs") (auto simp: incoming_source_can_replace_def)
qed simp

lemma foldl_prefer_two_stage:
  "foldl prefer_bar m (case foldl prefer_bar None bs of None \<Rightarrow> [] | Some x \<Rightarrow> [x]) = foldl prefer_bar m bs"
proof (cases m)
  case None
  then show ?thesis by (cases "foldl prefer_bar None bs") (auto split: option.splits)
next
  case (Some e)
  then show ?thesis by (simp add: prefer_two_stage split: option.splits)
qed

lemma filter_time_sorted:
  "bars_sorted bs \<Longrightarrow> filter (\<lambda>b. bar_time b = t) bs = (case lookup bs t of None \<Rightarrow> [] | Some x \<Rightarrow> [x])"
proof (induction bs)
  case (Cons b bs)
  have "lookup bs (bar_time b) = None" using Cons.prems by (intro lookup_notin) auto
  then show ?case using Cons
    by (auto simp: filter_empty_conv split: option.splits dest: lookup_Some)
qed simp

lemma foldl_arb_merged:
  assumes "bars_sorted merged" "lookup merged = foldl arb Map.empty bs"
  shows "foldl arb m merged = foldl arb m bs"
proof
  fix t
  show "foldl arb m merged t = foldl arb m bs t"
    unfolding foldl_arb_at filter_time_sorted[OF assms(1)] assms(2)
    by (simp add: foldl_prefer_two_stage)
qed

lemma arbitrate_map: "map_of (arbitrate d b) = arb (map_of d) b"
  by (simp add: arbitrate_def arb_def map_of_update split: option.splits)

definition times_dict :: "(int \<times> 'p bar_data) list \<Rightarrow> bool" where
  "times_dict d \<longleftrightarrow> distinct (map fst d) \<and> (\<forall>(t, b)\<in>set d. bar_time b = t)"

lemma times_dict_update: "times_dict d \<Longrightarrow> times_dict (AList.update (bar_time b) b d)"
proof -
  have "set (AList.update k v d) \<subseteq> insert (k, v) (set d)" for k v
    by (induction d) auto
  then show "times_dict d \<Longrightarrow> times_dict (AList.update (bar_time b) b d)"
    unfolding times_dict_def by (fastforce simp: distinct_update)
qed

lemma times_dict_arbitrate: "times_dict d \<Longrightarrow> times_dict (arbitrate d b)"
  by (simp add: arbitrate_def times_dict_update split: option.splits)

lemma dict_of_bars_spec: "times_dict (dict_of_bars bs) \<and> map_of (dict_of_bars bs) = lookup (rev bs)"
proof -
  have "times_dict (foldl (\<lambda>d b. AList.update (bar_time b) b d) d bs)
    \<and> map_of (foldl (\<lambda>d b. AList.update (bar_time b) b d) d bs) = map_of d ++ lookup (rev bs)"
    if "times_dict d" for d :: "(int \<times> 'a bar_data) list"
    using that
  proof (induction bs arbitrary: d)
    case (Cons b bs)
    then show ?case using times_dict_update[of d b]
      by (auto simp: map_of_update lookup_append fun_eq_iff map_add_def split: option.splits)
  qed simp
  from this[of "[]"] show ?thesis by (simp add: dict_of_bars_def times_dict_def)
qed

lemma foldl_arbitrate_spec:
  "times_dict d \<Longrightarrow> times_dict (foldl arbitrate d bs) \<and> map_of (foldl arbitrate d bs) = foldl arb (map_of d) bs"
  by (induction bs arbitrary: d) (simp_all add: times_dict_arbitrate arbitrate_map)

lemma times_dict_values:
  assumes d: "times_dict d"
  shows "bars_sorted (sort_key bar_time (map snd d)) \<and> lookup (sort_key bar_time (map snd d)) = map_of d"
proof -
  let ?s = "sort_key bar_time (map snd d)"
  have keys: "map bar_time (map snd d) = map fst d"
    using d by (induction d) (auto simp: times_dict_def)
  then have "distinct (map bar_time (map snd d))" unfolding keys using d by (simp add: times_dict_def)
  then have "distinct (map bar_time ?s)"
    unfolding distinct_map[of bar_time "map snd d"] distinct_map[of bar_time ?s]
    by (simp only: distinct_sort set_sort)
  then have sorted: "bars_sorted ?s"
    unfolding bars_sorted_def strictly_sorted_def strict_sorted_iff by simp
  have "lookup ?s t = map_of d t" for t
  proof (cases "map_of d t")
    case None
    then have "t \<notin> fst ` set d" by (simp add: map_of_eq_None_iff)
    then have "t \<notin> bar_time ` set ?s" using arg_cong[OF keys, of set] by (simp add: image_image)
    then show ?thesis unfolding None by (rule lookup_notin)
  next
    case (Some b)
    then have m: "(t, b) \<in> set d" by (rule map_of_SomeD)
    then have "b \<in> set ?s" by force
    moreover have "bar_time b = t" using m d by (auto simp: times_dict_def)
    ultimately show ?thesis using lookup_member[OF sorted, of b] Some by simp
  qed
  then show ?thesis using sorted by auto
qed

lemma lookup_rev: "bars_sorted bs \<Longrightarrow> lookup (rev bs) = lookup bs"
proof (induction bs)
  case (Cons b bs)
  have "lookup bs (bar_time b) = None" using Cons.prems by (intro lookup_notin) auto
  then show ?case using Cons
    by (auto simp: lookup_append fun_eq_iff map_add_def split: option.splits)
qed simp

lemma merge_bars_spec:
  assumes "bars_sorted existing"
  shows "bars_sorted (merge_bars existing incoming)
    \<and> lookup (merge_bars existing incoming) = foldl arb (lookup existing) incoming"
proof -
  have "times_dict (foldl arbitrate (dict_of_bars existing) incoming)
    \<and> map_of (foldl arbitrate (dict_of_bars existing) incoming) = foldl arb (lookup existing) incoming"
    using foldl_arbitrate_spec dict_of_bars_spec[of existing] lookup_rev[OF assms] by metis
  then show ?thesis unfolding merge_bars_def using times_dict_values by metis
qed

lemma merge_bars_load: "bars_sorted bs \<Longrightarrow> merge_bars bs incoming = ref_load bs incoming"
  by (intro lookup_sorted_eq) (simp_all add: merge_bars_spec ref_load_sorted lookup_ref_load)

text \<open>Normalising the page first does not change what loading it does.\<close>

lemma ref_load_normalised:
  assumes "bars_sorted bs"
  shows "ref_load bs (merge_bars [] incoming) = ref_load bs incoming"
proof (rule lookup_sorted_eq)
  have m: "bars_sorted (merge_bars [] incoming)" "lookup (merge_bars [] incoming) = foldl arb Map.empty incoming"
    using merge_bars_spec[of "[]" incoming] by simp_all
  show "lookup (ref_load bs (merge_bars [] incoming)) = lookup (ref_load bs incoming)"
    unfolding lookup_ref_load[OF assms] by (rule foldl_arb_merged[OF m])
qed (simp_all add: assms ref_load_sorted)

lemma increasing_sorted: "\<not> not_increasing bs \<longleftrightarrow> bars_sorted bs"
proof (induction bs rule: not_increasing.induct)
  case (1 a b rest)
  then show ?case by (auto simp: not_le dest: order_less_trans)
qed auto

lemma ref_load_append:
  "bars_sorted (bs @ incoming) \<Longrightarrow> ref_load bs incoming = bs @ incoming"
proof (induction incoming arbitrary: bs)
  case (Cons b incoming)
  then have "ref_insert b bs = bs @ [b]" by (intro ref_insert_newer) (auto simp: bars_sorted_append)
  then show ?case using Cons.IH[of "bs @ [b]"] Cons.prems by (simp add: ref_load_def)
qed (simp add: ref_load_def)

lemma ref_load_prepend:
  assumes "bars_sorted (incoming @ bs)"
  shows "ref_load bs incoming = incoming @ bs"
proof (rule lookup_sorted_eq)
  have s: "bars_sorted bs" "bars_sorted incoming" using assms by (auto simp: bars_sorted_append)
  have "lookup (ref_load bs incoming) t = lookup (incoming @ bs) t" for t
  proof (cases "lookup incoming t")
    case None
    then show ?thesis unfolding lookup_ref_load[OF s(1)] foldl_arb_at filter_time_sorted[OF s(2)]
      by (simp add: lookup_append map_add_def)
  next
    case (Some x)
    then have x: "x \<in> set incoming" "bar_time x = t" using lookup_Some by blast+
    have "lookup bs t = None" using assms x by (intro lookup_notin) (force simp: bars_sorted_append)
    then show ?thesis unfolding lookup_ref_load[OF s(1)] foldl_arb_at filter_time_sorted[OF s(2)]
      using Some by (simp add: lookup_append)
  qed
  then show "lookup (ref_load bs incoming) = lookup (incoming @ bs)" by auto
qed (use assms in \<open>auto simp: ref_load_sorted bars_sorted_append\<close>)

lemma merge_bars_nonempty: "incoming \<noteq> [] \<Longrightarrow> ref_load bs incoming \<noteq> []"
proof (induction incoming rule: rev_induct)
  case (snoc b incoming)
  have "ref_insert b xs \<noteq> []" for xs by (cases xs) auto
  then show ?case by (simp add: ref_load_def)
qed simp

lemma enforce_written:
  assumes full: "bars_sorted (ev @ series_bars s')" and m: "max_bars s' = max_bars s"
    and ti: "time_index s' = map bar_time (series_bars s')"
    and ev: "ev = [] \<or> length (series_bars s') = max_bars s"
  shows "written s (ev @ series_bars s') (enforce_capacity s' ev)"
proof (cases "ev = []")
  case True
  then show ?thesis using full m ti
    by (auto simp: written_def enforce_capacity_def Let_def series_ok_def bars_sorted_drop drop_map)
next
  case False
  then show ?thesis using full m ti ev
    by (auto simp: written_def enforce_capacity_def Let_def series_ok_def bars_sorted_append)
qed

lemma page_before:
  assumes "bars_sorted page" "bars_sorted cur" "page \<noteq> []" "cur \<noteq> []" "bar_time (last page) < bar_time (hd cur)"
  shows "bars_sorted (page @ cur)"
proof -
  have "bar_time (hd cur) \<le> bar_time b" if "b \<in> set cur" for b
    using assms(2,4) that by (cases cur) (auto intro: less_imp_le)
  then show ?thesis
    using assms sorted_last_greatest[OF assms(1)] unfolding bars_sorted_append by force
qed

lemma bulk_load_written:
  assumes s: "series_ok s"
  shows "written s (ref_load (series_bars s) loaded) (bulk_load now loaded s)"
proof (cases "loaded = []")
  case True
  then show ?thesis using s
    by (simp add: bulk_load_def written_def ref_load_def series_ok_def)
next
  case False
  let ?cur = "series_bars s" and ?t = "touch_write now s"
  define page where "page = (if not_increasing loaded then merge_bars [] loaded else loaded)"
  have srt: "bars_sorted page" using increasing_sorted[of loaded] merge_bars_spec[of "[]" loaded]
    by (auto simp: page_def)
  have ne: "page \<noteq> []" using False merge_bars_load[of "[]" loaded] merge_bars_nonempty[OF False]
    by (auto simp: page_def)
  note cur = series_okD[OF s]
  have ref: "ref_load ?cur loaded = ref_load ?cur page"
    using ref_load_normalised[OF cur(2), of loaded] by (simp add: page_def)
  have bl: "bulk_load now loaded s = (if ?cur = [] then
          enforce_capacity (?t\<lparr>series_bars := page, time_index := map bar_time page\<rparr>) []
        else if bar_time (last page) < bar_time (hd ?cur) then
          (let available = max_bars s - length ?cur in
           if available = 0 then enforce_capacity ?t page
           else if length page \<le> available then
             enforce_capacity (?t\<lparr>series_bars := page @ ?cur, time_index := map bar_time page @ time_index s\<rparr>) []
           else let overflow = length page - available; retained = drop overflow page in
             enforce_capacity (?t\<lparr>series_bars := retained @ ?cur,
               time_index := map bar_time retained @ time_index s\<rparr>) (take overflow page))
        else if bar_time (hd page) > bar_time (last ?cur) then
          enforce_capacity (?t\<lparr>series_bars := ?cur @ page, time_index := time_index s @ map bar_time page\<rparr>) []
        else let merged = merge_bars ?cur page in
          enforce_capacity (?t\<lparr>series_bars := merged, time_index := map bar_time merged\<rparr>) [])"
    using False by (simp add: bulk_load_def page_def[symmetric] Let_def)
  consider (empty) "?cur = []" | (before) "?cur \<noteq> []" "bar_time (last page) < bar_time (hd ?cur)"
    | (after) "?cur \<noteq> []" "\<not> bar_time (last page) < bar_time (hd ?cur)" "bar_time (hd page) > bar_time (last ?cur)"
    | (overlap) "?cur \<noteq> []" "\<not> bar_time (last page) < bar_time (hd ?cur)" "\<not> bar_time (hd page) > bar_time (last ?cur)"
    by blast
  then show ?thesis
  proof cases
    case empty
    have "ref_load ?cur page = page" using ref_load_append[of "[]" page] srt empty by simp
    then show ?thesis unfolding ref bl
      using enforce_written[of "[]" "?t\<lparr>series_bars := page, time_index := map bar_time page\<rparr>" s] srt empty by simp
  next
    case before
    have all: "bars_sorted (page @ ?cur)" by (rule page_before[OF srt cur(2) ne before])
    have r: "ref_load ?cur page = page @ ?cur" by (rule ref_load_prepend[OF all])
    let ?a = "max_bars s - length ?cur"
    consider "?a = 0" | "?a \<noteq> 0" "length page \<le> ?a" | "?a \<noteq> 0" "\<not> length page \<le> ?a" by blast
    then show ?thesis
    proof cases
      case 1
      have "written s (page @ series_bars ?t) (enforce_capacity ?t page)"
        by (rule enforce_written) (use all cur 1 in simp_all)
      then show ?thesis unfolding ref bl r using before 1 by (simp add: Let_def)
    next
      case 2
      have "written s ([] @ (page @ ?cur)) (enforce_capacity (?t\<lparr>series_bars := page @ ?cur,
          time_index := map bar_time page @ time_index s\<rparr>) [])"
        using enforce_written[of "[]" "?t\<lparr>series_bars := page @ ?cur,
          time_index := map bar_time page @ time_index s\<rparr>" s] all cur by simp
      then show ?thesis unfolding ref bl r using before 2 by (simp add: Let_def)
    next
      case 3
      let ?o = "length page - ?a"
      define x where "x = ?t\<lparr>series_bars := drop ?o page @ ?cur,
          time_index := map bar_time (drop ?o page) @ time_index s\<rparr>"
      have tk: "take ?o page @ (drop ?o page @ ?cur) = page @ ?cur"
        by (simp only: append_assoc[symmetric] append_take_drop_id)
      have xb: "series_bars x = drop ?o page @ ?cur" by (simp add: x_def)
      have len: "length (series_bars x) = max_bars s" unfolding xb using cur(3) 3 by simp
      have "written s (take ?o page @ series_bars x) (enforce_capacity x (take ?o page))"
      proof (rule enforce_written)
        show "bars_sorted (take ?o page @ series_bars x)" unfolding xb tk by (rule all)
        show "time_index x = map bar_time (series_bars x)" using cur(1) by (simp add: x_def)
        show "take ?o page = [] \<or> length (series_bars x) = max_bars s" using len by simp
      qed (simp add: x_def)
      then have "written s (page @ ?cur) (enforce_capacity x (take ?o page))" unfolding xb tk .
      moreover have "bulk_load now loaded s = enforce_capacity x (take ?o page)"
        unfolding bl x_def Let_def using before 3 by (simp only: if_False if_True simp_thms)
      ultimately show ?thesis unfolding ref r by simp
    qed
  next
    case after
    have all: "bars_sorted (?cur @ page)" by (rule page_before[OF cur(2) srt after(1) ne after(3)])
    have r: "ref_load ?cur page = ?cur @ page" by (rule ref_load_append[OF all])
    show ?thesis unfolding ref bl r
      using enforce_written[of "[]" "?t\<lparr>series_bars := ?cur @ page,
        time_index := time_index s @ map bar_time page\<rparr>" s] all cur after by simp
  next
    case overlap
    have r: "merge_bars ?cur page = ref_load ?cur page" by (rule merge_bars_load[OF cur(2)])
    show ?thesis unfolding ref bl r[symmetric]
      using enforce_written[of "[]" "?t\<lparr>series_bars := merge_bars ?cur page,
        time_index := map bar_time (merge_bars ?cur page)\<rparr>" s] ref_load_sorted[OF cur(2), of page] overlap
      by (simp add: r Let_def)
  qed
qed

section \<open>Properties of a series\<close>

text \<open>A full series of two verified bars, for the concrete instances.\<close>

definition sample_bar :: "int \<Rightarrow> string \<Rightarrow> int bar_data" where
  "sample_bar t src = \<lparr>bar_time = t, bar_source = src, bar_payload = t\<rparr>"

definition sample_series :: "int bar_series" where
  "sample_series = \<lparr>series_bars = [sample_bar 60 ''backfill'', sample_bar 120 ''backfill''],
     max_bars = 2, last_access_ms = 0, generation = 1, revision = 2, access_revision = 0,
     time_index = [60, 120]\<rparr>"

lemma sample_series_ok: "series_ok sample_series"
  by (simp add: series_ok_def sample_series_def sample_bar_def)

text \<open>The hot append path and the upsert path are the same operation: both keep the series
  invariant (index, order, capacity) and refine one sorted insertion with source arbitration;
  what they return is exactly the oldest bars that no longer fit.\<close>

lemma series_write_refines:
  assumes "series_ok s" and "r = append_bar now bar s \<or> r = upsert_bar now bar s"
  shows "series_ok (fst r) \<and> snd r @ series_bars (fst r) = ref_insert bar (series_bars s)
    \<and> length (series_bars (fst r)) = min (max_bars s) (length (ref_insert bar (series_bars s)))"
  using append_written[OF assms(1), of bar now] upsert_written[OF assms(1), of bar now] assms(2)
  by (auto simp: written_def)

lemma series_write_refines_example:
  "let r = append_bar 9 (sample_bar 180 ''backfill'') sample_series in
    series_ok (fst r) \<and> snd r = [sample_bar 60 ''backfill'']"
proof -
  let ?b = "sample_bar 180 ''backfill''"
  let ?r = "append_bar 9 ?b sample_series"
  have "snd ?r = [sample_bar 60 ''backfill'']" by code_simp
  then show ?thesis using series_write_refines[OF sample_series_ok, of ?r 9 ?b] by simp
qed

text \<open>C32: A bulk load refines inserting its bars one by one: whichever of its paths runs (empty
  series, page wholly before, page wholly after, overlap; page sorted or not), the evicted
  bars followed by the kept ones are the reference merge, the newest bars are kept, and the
  invariant holds.\<close>

theorem bulk_load_refines:
  assumes "series_ok s" and "bulk_load now loaded s = (s', evicted)"
  shows "series_ok s' \<and> evicted @ series_bars s' = ref_load (series_bars s) loaded
    \<and> length (series_bars s') = min (max_bars s) (length (ref_load (series_bars s) loaded))"
  using bulk_load_written[OF assms(1), of loaded now] assms(2) by (simp add: written_def)

theorem bulk_load_refines_witness:
  "\<exists>s'. bulk_load 9 [sample_bar 120 ''x'', sample_bar 90 ''backfill''] sample_series
      = (s', [sample_bar 60 ''backfill''])
    \<and> series_ok s' \<and> series_bars s' = [sample_bar 90 ''backfill'', sample_bar 120 ''backfill'']"
proof -
  let ?l = "[sample_bar 120 ''x'', sample_bar 90 ''backfill'']"
  obtain s' ev where r: "bulk_load 9 ?l sample_series = (s', ev)" by fastforce
  have "snd (bulk_load 9 ?l sample_series) = [sample_bar 60 ''backfill'']"
    "series_bars (fst (bulk_load 9 ?l sample_series)) = [sample_bar 90 ''backfill'', sample_bar 120 ''backfill'']"
    by code_simp+
  then show ?thesis using bulk_load_refines[OF sample_series_ok r] r by auto
qed

lemma lookup_suffix:
  assumes "bars_sorted (ev @ kept)" "lookup kept t = Some b"
  shows "lookup (ev @ kept) t = Some b"
proof -
  have "b \<in> set kept" "bar_time b = t" using lookup_Some[OF assms(2)] by auto
  then show ?thesis using lookup_member[OF assms(1), of b] by simp
qed

lemma arb_rank:
  "m t = Some b \<Longrightarrow> \<exists>b'. arb m x t = Some b' \<and> source_rank (bar_source b) \<le> source_rank (bar_source b')"
  by (auto simp: arb_def incoming_source_can_replace_def split: option.splits)

lemma foldl_arb_rank:
  "m t = Some b \<Longrightarrow> \<exists>b'. foldl arb m xs t = Some b' \<and> source_rank (bar_source b) \<le> source_rank (bar_source b')"
proof (induction xs arbitrary: m b)
  case (Cons x xs)
  obtain b1 where "arb m x t = Some b1" "source_rank (bar_source b) \<le> source_rank (bar_source b1)"
    using arb_rank[of m t b x, OF Cons.prems] by blast
  then show ?case using Cons.IH[of "arb m x" b1] by fastforce
qed simp

text \<open>Source quality is monotone at every timestamp: after any write, a bar that is still
  held at a time has a source rank at least that of the bar it replaced, so a forming or
  ambiguous update never displaces a verified one.\<close>

lemma series_rank_monotone:
  assumes "series_ok s"
    and "r = append_bar now bar s \<or> r = upsert_bar now bar s \<or> r = bulk_load now loaded s"
    and "lookup (series_bars s) t = Some b" and "lookup (series_bars (fst r)) t = Some b'"
  shows "source_rank (bar_source b) \<le> source_rank (bar_source b')"
proof -
  have one: "ref_insert x bs = ref_load bs [x]" for x and bs :: "'a bar_data list" by (simp add: ref_load_def)
  obtain xs where w: "written s (ref_load (series_bars s) xs) r"
    using append_written[OF assms(1), of bar now] upsert_written[OF assms(1), of bar now]
      bulk_load_written[OF assms(1), of loaded now] assms(2) unfolding one by blast
  note srt = series_okD(2)[OF assms(1)]
  have full: "snd r @ series_bars (fst r) = ref_load (series_bars s) xs" using w by (simp add: written_def)
  have "lookup (snd r @ series_bars (fst r)) t = Some b'"
    by (rule lookup_suffix[OF _ assms(4)]) (simp add: full ref_load_sorted[OF srt])
  then have "foldl arb (lookup (series_bars s)) xs t = Some b'"
    unfolding full lookup_ref_load[OF srt] .
  then show ?thesis using foldl_arb_rank[of "lookup (series_bars s)" t b xs, OF assms(3)] by auto
qed

lemma series_rank_monotone_example:
  "source_rank ''backfill'' \<le> source_rank (bar_source (sample_bar 120 ''data_manager_amended''))"
proof -
  let ?b = "sample_bar 120 ''data_manager_amended''"
  let ?r = "upsert_bar 9 ?b sample_series"
  have l: "lookup (series_bars sample_series) 120 = Some (sample_bar 120 ''backfill'')"
    "lookup (series_bars (fst ?r)) 120 = Some ?b" by code_simp+
  have "bar_source (sample_bar 120 ''backfill'') = ''backfill''" by (simp add: sample_bar_def)
  then show ?thesis
    using series_rank_monotone[OF sample_series_ok _ l(1), of ?r 9 ?b "[]" ?b] l(2) by simp
qed

lemma lookup_nth:
  assumes s: "series_ok s" and i: "i = bisect_left (time_index s) t"
  shows "(if i < length (time_index s) \<and> time_index s ! i = t then Some (series_bars s ! i) else None)
    = lookup (series_bars s) t"
proof (cases "i < length (time_index s) \<and> time_index s ! i = t")
  case True
  then have il: "i < length (series_bars s)" and "bar_time (series_bars s ! i) = t"
    using series_okD(1)[OF s] by auto
  then show ?thesis using True lookup_member[OF series_okD(2)[OF s] nth_mem[OF il]] by simp
next
  case False
  have "t \<notin> bar_time ` set (series_bars s)"
  proof
    assume "t \<in> bar_time ` set (series_bars s)"
    then obtain b where b: "b \<in> set (series_bars s)" "bar_time b = t" by auto
    note pos = bisect_position[OF s i]
    have "b \<in> set (take i (series_bars s)) \<or> b \<in> set (drop i (series_bars s))"
      using b(1) by (metis Un_iff append_take_drop_id set_append)
    then have d: "b \<in> set (drop i (series_bars s))" using pos(2) b(2) by auto
    then have il: "i < length (series_bars s)" by (metis drop_all empty_iff empty_set not_le)
    then have dd: "drop i (series_bars s) = series_bars s ! i # drop (Suc i) (series_bars s)"
      by (rule Cons_nth_drop_Suc[symmetric])
    have "bar_time (series_bars s ! i) \<le> t"
      using d dd b(2) bars_sorted_drop[OF series_okD(2)[OF s], of i] by (auto intro: less_imp_le)
    then have "bar_time (series_bars s ! i) = t" using pos(3) dd by force
    then show False using False il series_okD(1)[OF s] by simp
  qed
  then have "lookup (series_bars s) t = None" by (rule lookup_notin)
  then show ?thesis using False by simp
qed

lemma drop_take_filter:
  assumes "take lo bs = filter (\<lambda>b. \<not> P b) bs" "drop lo bs = filter P bs"
  shows "drop lo (take hi bs) = filter P (take hi bs)"
proof -
  have low: "filter P (take lo bs) = []" unfolding assms(1) by simp
  have high: "\<forall>b\<in>set (drop lo (take hi bs)). P b"
    using set_take_subset[of "hi - lo" "drop lo bs"] unfolding drop_take assms(2) by auto
  have "filter P (take hi bs) = filter P (take lo (take hi bs)) @ filter P (drop lo (take hi bs))"
    by (metis append_take_drop_id filter_append)
  also have "filter P (take lo (take hi bs)) = []"
    using low set_take_subset[of hi "take lo bs"] by (auto simp: filter_empty_conv take_take min.commute)
  finally show ?thesis using high by (simp add: filter_id_conv)
qed

text \<open>The binary-search reads answer what a scan would: a range query without limit is the
  bars of the inclusive time range, a query before a time is the last \<open>limit\<close> bars strictly
  older than it, and a point read finds the bar of exactly that time if there is one.\<close>

lemma series_reads_exact:
  assumes "series_ok s"
  shows "snd (query_range now (Some a) (Some z) None s) = filter (\<lambda>b. a \<le> bar_time b \<and> bar_time b \<le> z) (series_bars s)
    \<and> snd (get_bar_at now t s) = lookup (series_bars s) t
    \<and> snd (get_before now t limit s) =
        drop (nat (max 0 (int (length (filter (\<lambda>b. bar_time b < t) (series_bars s))) - limit)))
          (filter (\<lambda>b. bar_time b < t) (series_bars s))"
proof (intro conjI)
  note ti = series_okD(1)[OF assms]
  note sp = split_by_time[OF series_okD(4)[OF assms]]
  let ?bs = "series_bars s"
  have "drop (bisect_left (map bar_time ?bs) a) (take n ?bs) = filter (\<lambda>b. a \<le> bar_time b) (take n ?bs)" for n
    by (rule drop_take_filter) (simp_all add: sp not_le)
  from this[of "bisect_right (map bar_time ?bs) z"]
  show "snd (query_range now (Some a) (Some z) None s) = filter (\<lambda>b. a \<le> bar_time b \<and> bar_time b \<le> z) ?bs"
    by (auto simp: query_range_def Let_def ti sp intro!: filter_cong)
  show "snd (get_bar_at now t s) = lookup ?bs t"
    unfolding lookup_nth[OF assms refl, of t, symmetric] by (simp add: get_bar_at_def Let_def)
  have older: "take (bisect_left (time_index s) t) ?bs = filter (\<lambda>b. bar_time b < t) ?bs" unfolding ti by (rule sp)
  have len: "length (filter (\<lambda>b. bar_time b < t) ?bs) = bisect_left (time_index s) t"
    using bisect_position(1)[OF assms refl, of t] unfolding older[symmetric] by simp
  show "snd (get_before now t limit s) =
        drop (nat (max 0 (int (length (filter (\<lambda>b. bar_time b < t) ?bs)) - limit)))
          (filter (\<lambda>b. bar_time b < t) ?bs)"
    by (simp add: get_before_def Let_def older len)
qed

lemma series_reads_exact_example:
  "snd (query_range 9 (Some 61) (Some 120) None sample_series) = [sample_bar 120 ''backfill'']
    \<and> snd (get_bar_at 9 60 sample_series) = Some (sample_bar 60 ''backfill'')"
proof -
  have "filter (\<lambda>b. 61 \<le> bar_time b \<and> bar_time b \<le> 120) (series_bars sample_series) = [sample_bar 120 ''backfill'']"
    "lookup (series_bars sample_series) 60 = Some (sample_bar 60 ''backfill'')" by code_simp+
  then show ?thesis using series_reads_exact[OF sample_series_ok, of 9 61 120 60 100] by simp
qed

text \<open>The newest-bars read returns at most \<open>limit\<close> bars, the last ones, for every positive
  limit; a limit of zero returns the whole series, against its docstring, because the slice
  \<open>[-0:]\<close> starts at the first bar.\<close>

lemma get_latest_behaviour:
  "(limit > 0 \<longrightarrow> snd (get_latest now limit s) = drop (length (series_bars s) - nat limit) (series_bars s))
    \<and> snd (get_latest now 0 s) = series_bars s"
  by (auto simp: get_latest_def slice_last_def Let_def nat_diff_distrib' int_ops max_def)

lemma get_latest_behaviour_example:
  "snd (get_latest 9 1 sample_series) = [sample_bar 120 ''backfill'']
    \<and> snd (get_latest 9 0 sample_series) = [sample_bar 60 ''backfill'', sample_bar 120 ''backfill'']"
  using get_latest_behaviour[of 1 9 sample_series] by (simp add: sample_series_def)

end
