(* ===== verification/BarCache.thy ===== *)
theory BarCache
  imports BarSeries IntervalPolicy
begin

text \<open>
  The bounded cache of all series (\<open>BarCache\<close> of
  \<open>backend/app/data_engine/data_manager/cache.py\<close>): the LRU dictionary of series, the
  LRU-bounded history capacities, and every public operation under the lock. An operation
  takes the wall clock as an argument and returns the new cache with the batches it hands to
  the eviction callbacks after the lock is released.
\<close>

section \<open>State\<close>

record series_key =
  sk_symbol :: string
  sk_interval :: string
  sk_exchange :: string
  sk_market_type :: string
  sk_provider_id :: "string option"
  sk_venue :: "string option"
  sk_asset_class :: string
  sk_series_variant :: string
  sk_price_adjustment :: string
  sk_session_variant :: string
  sk_volume_semantics :: string

record cache_config =
  max_bars_per_series :: nat
  max_series :: nat
  prewarm_bars :: nat
  ttl_seconds :: int
  history_max_bars_per_series :: nat
  history_max_series :: nat

type_synonym 'p series_dict = "(series_key \<times> 'p bar_series) list"
type_synonym 'p batches = "(series_key \<times> 'p bar_data list) list"

record 'p bar_cache =
  cache_cfg :: cache_config
  series :: "'p series_dict"
  history_capacities :: "(series_key \<times> nat) list"
  next_series_generation :: int
  ephemeral_max_bars :: nat
  hits :: int
  misses :: int
  evictions :: int
  history_reservation_requests :: int
  history_reservation_capped :: int
  history_reservation_demotions :: int

definition new_cache :: "cache_config \<Rightarrow> 'p bar_cache" where
  "new_cache config = \<lparr>cache_cfg = config, series = [], history_capacities = [],
     next_series_generation = 0, ephemeral_max_bars = 86400, hits = 0, misses = 0, evictions = 0,
     history_reservation_requests = 0, history_reservation_capped = 0,
     history_reservation_demotions = 0\<rparr>"

record history_capacity_reservation =
  requested_bars :: nat
  capacity_bars :: nat
  active :: bool
  capped :: bool

definition normal_capacity :: "'p bar_cache \<Rightarrow> nat" where
  "normal_capacity c = max 1 (max_bars_per_series (cache_cfg c))"

definition history_capacity :: "'p bar_cache \<Rightarrow> nat" where
  "history_capacity c = max (normal_capacity c) (history_max_bars_per_series (cache_cfg c))"

abbreviation key_ephemeral :: "series_key \<Rightarrow> bool" where
  "key_ephemeral k \<equiv> is_ephemeral_interval (sk_interval k)"

section \<open>Internal operations\<close>

text \<open>
  \<open>while len(self._series) >= max_series: popitem(last=False)\<close>; \<open>popitem\<close> on an empty
  dictionary raises.
\<close>

fun evict_lru :: "nat \<Rightarrow> 'p series_dict \<Rightarrow> (series_key \<times> nat) list \<Rightarrow> int \<Rightarrow>
    ('p series_dict \<times> (series_key \<times> nat) list \<times> int) res" where
  "evict_lru limit [] caps ev = (if limit = 0 then Inl KeyError else Inr ([], caps, ev))"
| "evict_lru limit ((k, s) # rest) caps ev =
     (if length ((k, s) # rest) \<ge> limit then evict_lru limit rest (AList.delete k caps) (ev + 1)
      else Inr ((k, s) # rest, caps, ev))"

definition capacity_for :: "'p bar_cache \<Rightarrow> series_key \<Rightarrow> nat" where
  "capacity_for c key =
     (if key_ephemeral key then ephemeral_max_bars c
      else case map_of (history_capacities c) key of
        Some v \<Rightarrow> v | None \<Rightarrow> max_bars_per_series (cache_cfg c))"

definition get_or_create :: "int \<Rightarrow> series_key \<Rightarrow> 'p bar_cache \<Rightarrow> ('p bar_cache \<times> 'p bar_series) res" where
  "get_or_create now key c =
     (case map_of (series c) key of
       Some s \<Rightarrow> Inr (c\<lparr>series := od_move_to_end key (series c)\<rparr>, s)
     | None \<Rightarrow>
         bindr (evict_lru (max_series (cache_cfg c)) (series c) (history_capacities c) (evictions c))
           (\<lambda>(kept, caps, ev).
             let c1 = c\<lparr>series := kept, history_capacities := caps, evictions := ev,
                        next_series_generation := next_series_generation c + 1\<rparr>;
                 s = new_series (capacity_for c1 key) (next_series_generation c1) now
             in Inr (c1\<lparr>series := AList.update key s kept\<rparr>, s)))"

definition touch :: "series_key \<Rightarrow> 'p bar_cache \<Rightarrow> 'p bar_cache \<times> 'p bar_series option" where
  "touch key c =
     (case map_of (series c) key of
       None \<Rightarrow> (c, None)
     | Some s \<Rightarrow> (c\<lparr>series := od_move_to_end key (series c)\<rparr>, Some s))"

text \<open>Storing the mutated series object: its place in the dictionary does not change.\<close>

definition put :: "series_key \<Rightarrow> 'p bar_series \<Rightarrow> 'p bar_cache \<Rightarrow> 'p bar_cache" where
  "put key s c = c\<lparr>series := AList.update key s (series c)\<rparr>"

definition batch :: "series_key \<Rightarrow> 'p bar_data list \<Rightarrow> 'p batches" where
  "batch key evicted = (if evicted = [] then [] else [(key, evicted)])"

definition configured_max_total_bars :: "'p bar_cache \<Rightarrow> nat" where
  "configured_max_total_bars c =
     (let cfg = cache_cfg c; normal = max_bars_per_series cfg;
          history = max normal (history_max_bars_per_series cfg);
          expanded_series = min (max_series cfg) (history_max_series cfg)
      in normal * max_series cfg + (history - normal) * expanded_series)"

section \<open>Writes\<close>

definition cache_append :: "int \<Rightarrow> series_key \<Rightarrow> 'p bar_data \<Rightarrow> 'p bar_cache \<Rightarrow> ('p bar_cache \<times> 'p batches) res" where
  "cache_append now key bar c =
     bindr (get_or_create now key c) (\<lambda>(c1, s).
       let (s', evicted) = append_bar now bar s in Inr (put key s' c1, batch key evicted))"

definition cache_upsert :: "int \<Rightarrow> series_key \<Rightarrow> 'p bar_data \<Rightarrow> 'p bar_cache \<Rightarrow> ('p bar_cache \<times> 'p batches) res" where
  "cache_upsert now key bar c =
     bindr (get_or_create now key c) (\<lambda>(c1, s).
       let (s', evicted) = upsert_bar now bar s in Inr (put key s' c1, batch key evicted))"

definition upsert_if_accepted :: "int \<Rightarrow> series_key \<Rightarrow> 'p bar_data \<Rightarrow> 'p bar_cache \<Rightarrow>
    ('p bar_cache \<times> 'p batches \<times> bool \<times> 'p bar_data) res" where
  "upsert_if_accepted now key bar c =
     bindr (get_or_create now key c) (\<lambda>(c1, s).
       let (s1, existing) = get_bar_at now (bar_time bar) s;
           rejected = (case existing of None \<Rightarrow> None | Some e \<Rightarrow>
             if incoming_source_can_replace (bar_source e) (bar_source bar) then None else Some e)
       in case rejected of
         Some e \<Rightarrow> Inr (put key s1 c1, [], False, e)
       | None \<Rightarrow> let (s', evicted) = upsert_bar now bar s1 in
           Inr (put key s' c1, batch key evicted, True, bar))"

definition can_accept_upsert :: "int \<Rightarrow> series_key \<Rightarrow> 'p bar_data \<Rightarrow> 'p bar_cache \<Rightarrow>
    'p bar_cache \<times> bool \<times> 'p bar_data option" where
  "can_accept_upsert now key bar c =
     (case map_of (series c) key of
       None \<Rightarrow> (c, True, None)
     | Some s \<Rightarrow> let (s1, existing) = get_bar_at now (bar_time bar) s; c1 = put key s1 c in
         case existing of None \<Rightarrow> (c1, True, None)
         | Some e \<Rightarrow> (c1, incoming_source_can_replace (bar_source e) (bar_source bar), Some e))"

definition cache_bulk_load :: "int \<Rightarrow> series_key \<Rightarrow> 'p bar_data list \<Rightarrow> 'p bar_cache \<Rightarrow> ('p bar_cache \<times> 'p batches) res" where
  "cache_bulk_load now key bars c =
     (if bars = [] then Inr (c, [])
      else bindr (get_or_create now key c) (\<lambda>(c1, s).
        let (s', evicted) = bulk_load now bars s in Inr (put key s' c1, batch key evicted)))"

definition invalidate :: "series_key \<Rightarrow> 'p bar_cache \<Rightarrow> 'p bar_cache" where
  "invalidate key c = c\<lparr>series := AList.delete key (series c)\<rparr>"

definition remove_series :: "series_key \<Rightarrow> 'p bar_cache \<Rightarrow> 'p bar_cache \<times> nat" where
  "remove_series key c =
     (c\<lparr>series := AList.delete key (series c), history_capacities := AList.delete key (history_capacities c)\<rparr>,
      case map_of (series c) key of None \<Rightarrow> 0 | Some s \<Rightarrow> series_count s)"

datatype maintenance_status = Missing | Stale | Removed | Unchanged | Trimmed

record plan_snapshot =
  expected_generation :: int
  expected_revision :: int
  expected_access_revision :: int
  expected_last_access_ms :: int

definition plan_current :: "plan_snapshot \<Rightarrow> 'p bar_series \<Rightarrow> bool" where
  "plan_current p s = (\<not> (generation s \<noteq> expected_generation p \<or> revision s \<noteq> expected_revision p
     \<or> access_revision s \<noteq> expected_access_revision p \<or> last_access_ms s \<noteq> expected_last_access_ms p))"

definition remove_series_if_unchanged :: "series_key \<Rightarrow> plan_snapshot \<Rightarrow> 'p bar_cache \<Rightarrow>
    'p bar_cache \<times> nat \<times> maintenance_status" where
  "remove_series_if_unchanged key p c =
     (case map_of (series c) key of
       None \<Rightarrow> (c, 0, Missing)
     | Some s \<Rightarrow> if \<not> plan_current p s then (c, 0, Stale)
         else (c\<lparr>series := AList.delete key (series c),
             history_capacities := AList.delete key (history_capacities c)\<rparr>, series_count s, Removed))"

definition clear_cache :: "'p bar_cache \<Rightarrow> 'p bar_cache" where
  "clear_cache c = c\<lparr>series := [], history_capacities := []\<rparr>"

section \<open>History reservations\<close>

text \<open>The demotion loop: the least recently reserved keys lose their capacity until one is free.\<close>

fun demote :: "nat \<Rightarrow> nat \<Rightarrow> (series_key \<times> nat) list \<Rightarrow> 'p series_dict \<Rightarrow> 'p batches \<Rightarrow> int \<Rightarrow>
    (series_key \<times> nat) list \<times> 'p series_dict \<times> 'p batches \<times> int" where
  "demote limit normal [] ss out n = ([], ss, out, n)"
| "demote limit normal ((k, v) # rest) ss out n =
     (if length ((k, v) # rest) \<ge> limit then
        (case map_of ss k of
          None \<Rightarrow> demote limit normal rest ss out (n + 1)
        | Some s \<Rightarrow> let (s', evicted) = set_max_bars (int normal) s in
            demote limit normal rest (AList.update k s' ss) (out @ batch k evicted) (n + 1))
      else ((k, v) # rest, ss, out, n))"

definition reserve_expanded :: "series_key \<Rightarrow> nat \<Rightarrow> 'p bar_cache \<Rightarrow>
    'p bar_cache \<times> 'p batches \<times> history_capacity_reservation" where
  "reserve_expanded key wanted_bars c =
     (let previous = map_of (history_capacities c) key;
          (caps, ss, out, demotions) =
            demote (history_max_series (cache_cfg c)) (normal_capacity c)
              (AList.delete key (history_capacities c)) (series c) [] (history_reservation_demotions c);
          held = (case previous of None \<Rightarrow> normal_capacity c | Some v \<Rightarrow> if v = 0 then normal_capacity c else v);
          capacity = min (history_capacity c) (max wanted_bars held);
          is_capped = wanted_bars > capacity;
          c1 = c\<lparr>history_reservation_requests := history_reservation_requests c + 1,
            history_reservation_demotions := demotions,
            history_reservation_capped := history_reservation_capped c + (if is_capped then 1 else 0),
            history_capacities := AList.update key capacity caps, series := ss\<rparr>;
          (c2, out2) = (case map_of ss key of
             None \<Rightarrow> (c1, out)
           | Some s \<Rightarrow> let (s', evicted) = set_max_bars (int capacity) s in
               (put key s' c1, out @ batch key evicted))
      in (c2, out2, \<lparr>requested_bars = wanted_bars, capacity_bars = capacity, active = True, capped = is_capped\<rparr>))"

definition reserve_history_capacity :: "series_key \<Rightarrow> int \<Rightarrow> 'p bar_cache \<Rightarrow>
    'p bar_cache \<times> 'p batches \<times> history_capacity_reservation" where
  "reserve_history_capacity key wanted c =
     (let wanted_bars = nat (max 0 wanted); normal = normal_capacity c in
      if history_capacity c \<le> normal \<or> history_max_series (cache_cfg c) = 0 \<or> key_ephemeral key then
        (c, [], \<lparr>requested_bars = wanted_bars, capacity_bars = normal, active = False, capped = wanted_bars > normal\<rparr>)
      else if wanted_bars \<le> normal then
        (case map_of (history_capacities c) key of
          None \<Rightarrow> (c, [], \<lparr>requested_bars = wanted_bars, capacity_bars = normal, active = False, capped = False\<rparr>)
        | Some v \<Rightarrow>
            (c\<lparr>history_capacities := od_move_to_end key (history_capacities c),
               history_reservation_requests := history_reservation_requests c + 1\<rparr>, [],
             \<lparr>requested_bars = wanted_bars, capacity_bars = (if v = 0 then normal else v), active = True, capped = False\<rparr>))
      else reserve_expanded key wanted_bars c)"

section \<open>Reads and maintenance\<close>

text \<open>The three counted reads share their frame; \<open>read\<close> is the series operation.\<close>

definition counted_read :: "(('p bar_series \<Rightarrow> 'p bar_series \<times> 'p bar_data list)) \<Rightarrow> series_key \<Rightarrow>
    'p bar_cache \<Rightarrow> 'p bar_cache \<times> 'p bar_data list" where
  "counted_read read key c =
     (case touch key c of
       (c1, None) \<Rightarrow> (c1\<lparr>misses := misses c1 + 1\<rparr>, [])
     | (c1, Some s) \<Rightarrow> let (s', bars) = read s in (put key s' (c1\<lparr>hits := hits c1 + 1\<rparr>), bars))"

definition cache_get_latest :: "int \<Rightarrow> series_key \<Rightarrow> int \<Rightarrow> 'p bar_cache \<Rightarrow> 'p bar_cache \<times> 'p bar_data list" where
  "cache_get_latest now key limit = counted_read (get_latest now limit) key"

definition cache_query :: "int \<Rightarrow> series_key \<Rightarrow> int option \<Rightarrow> int option \<Rightarrow> int option \<Rightarrow> 'p bar_cache \<Rightarrow>
    'p bar_cache \<times> 'p bar_data list" where
  "cache_query now key start_time end_time limit = counted_read (query_range now start_time end_time limit) key"

definition cache_get_before :: "int \<Rightarrow> series_key \<Rightarrow> int \<Rightarrow> int \<Rightarrow> 'p bar_cache \<Rightarrow> 'p bar_cache \<times> 'p bar_data list" where
  "cache_get_before now key before_time limit = counted_read (get_before now before_time limit) key"

definition cache_get_bar_at :: "int \<Rightarrow> series_key \<Rightarrow> int \<Rightarrow> 'p bar_cache \<Rightarrow> 'p bar_cache \<times> 'p bar_data option" where
  "cache_get_bar_at now key t c =
     (case touch key c of
       (c1, None) \<Rightarrow> (c1, None)
     | (c1, Some s) \<Rightarrow> let (s', b) = get_bar_at now t s in (put key s' c1, b))"

definition has_series :: "series_key \<Rightarrow> 'p bar_cache \<Rightarrow> bool" where
  "has_series key c = (map_of (series c) key \<noteq> None)"

definition cache_series_count :: "series_key \<Rightarrow> 'p bar_cache \<Rightarrow> nat" where
  "cache_series_count key c = (case map_of (series c) key of None \<Rightarrow> 0 | Some s \<Rightarrow> series_count s)"

definition get_bounds :: "series_key \<Rightarrow> 'p bar_cache \<Rightarrow> int option \<times> int option" where
  "get_bounds key c = (case map_of (series c) key of
     None \<Rightarrow> (None, None) | Some s \<Rightarrow> (earliest_time s, latest_time s))"

definition evict_idle :: "int \<Rightarrow> 'p bar_cache \<Rightarrow> 'p bar_cache \<times> nat" where
  "evict_idle now c =
     (let ttl = ttl_seconds (cache_cfg c) in
      if ttl \<le> 0 then (c, 0)
      else let cutoff_ms = now - ttl * 1000;
               to_remove = map fst (filter (\<lambda>(k, s). last_access_ms s < cutoff_ms) (series c)) in
        (foldl (\<lambda>c k. c\<lparr>series := AList.delete k (series c),
             history_capacities := AList.delete k (history_capacities c), evictions := evictions c + 1\<rparr>)
           c to_remove, length to_remove))"

definition trim_bars :: "int \<Rightarrow> 'p bar_series \<Rightarrow> 'p bar_series" where
  "trim_bars keep s =
     (let overflow = nat (int (series_count s) - keep) in
      s\<lparr>series_bars := drop overflow (series_bars s), time_index := drop overflow (time_index s),
        revision := revision s + 1\<rparr>)"

definition trim_series :: "series_key \<Rightarrow> int \<Rightarrow> 'p bar_cache \<Rightarrow> 'p bar_cache \<times> int" where
  "trim_series key keep c =
     (case map_of (series c) key of
       None \<Rightarrow> (c, 0)
     | Some s \<Rightarrow> if int (series_count s) \<le> keep then (c, 0)
         else (put key (trim_bars keep s) c, int (series_count s) - keep))"

definition trim_series_if_unchanged :: "series_key \<Rightarrow> int \<Rightarrow> plan_snapshot \<Rightarrow> 'p bar_cache \<Rightarrow>
    'p bar_cache \<times> int \<times> maintenance_status" where
  "trim_series_if_unchanged key keep p c =
     (case map_of (series c) key of
       None \<Rightarrow> (c, 0, Missing)
     | Some s \<Rightarrow> if \<not> plan_current p s then (c, 0, Stale)
         else if int (series_count s) \<le> keep then (c, 0, Unchanged)
         else (put key (trim_bars keep s) c, int (series_count s) - keep, Trimmed))"

definition set_ephemeral_limit :: "int \<Rightarrow> 'p bar_cache \<Rightarrow> 'p bar_cache res" where
  "set_ephemeral_limit bars c =
     (if bars < 1 \<or> bars > 1000000 then Inl ValueError else Inr (c\<lparr>ephemeral_max_bars := nat bars\<rparr>))"

section \<open>Histories of a cache\<close>

datatype 'p cache_op =
    Append series_key "'p bar_data"
  | Upsert series_key "'p bar_data"
  | UpsertIfAccepted series_key "'p bar_data"
  | CanAccept series_key "'p bar_data"
  | BulkLoad series_key "'p bar_data list"
  | Invalidate series_key
  | RemoveSeries series_key
  | RemoveIfUnchanged series_key plan_snapshot
  | Clear
  | Reserve series_key int
  | GetLatest series_key int
  | Query series_key "int option" "int option" "int option"
  | GetBefore series_key int int
  | GetBarAt series_key int
  | EvictIdle
  | Trim series_key int
  | TrimIfUnchanged series_key int plan_snapshot
  | SetEphemeralLimit int

definition state_after :: "'p bar_cache \<Rightarrow> ('p bar_cache \<times> 'x) res \<Rightarrow> 'p bar_cache" where
  "state_after c r = (case r of Inl _ \<Rightarrow> c | Inr (c', _) \<Rightarrow> c')"

fun cache_step :: "int \<Rightarrow> 'p cache_op \<Rightarrow> 'p bar_cache \<Rightarrow> 'p bar_cache" where
  "cache_step now (Append k b) c = state_after c (cache_append now k b c)"
| "cache_step now (Upsert k b) c = state_after c (cache_upsert now k b c)"
| "cache_step now (UpsertIfAccepted k b) c = state_after c (upsert_if_accepted now k b c)"
| "cache_step now (CanAccept k b) c = fst (can_accept_upsert now k b c)"
| "cache_step now (BulkLoad k bs) c = state_after c (cache_bulk_load now k bs c)"
| "cache_step now (Invalidate k) c = invalidate k c"
| "cache_step now (RemoveSeries k) c = fst (remove_series k c)"
| "cache_step now (RemoveIfUnchanged k p) c = fst (remove_series_if_unchanged k p c)"
| "cache_step now Clear c = clear_cache c"
| "cache_step now (Reserve k n) c = fst (reserve_history_capacity k n c)"
| "cache_step now (GetLatest k l) c = fst (cache_get_latest now k l c)"
| "cache_step now (Query k a z l) c = fst (cache_query now k a z l c)"
| "cache_step now (GetBefore k t l) c = fst (cache_get_before now k t l c)"
| "cache_step now (GetBarAt k t) c = fst (cache_get_bar_at now k t c)"
| "cache_step now EvictIdle c = fst (evict_idle now c)"
| "cache_step now (Trim k n) c = fst (trim_series k n c)"
| "cache_step now (TrimIfUnchanged k n p) c = fst (trim_series_if_unchanged k n p c)"
| "cache_step now (SetEphemeralLimit n) c = (case set_ephemeral_limit n c of Inl _ \<Rightarrow> c | Inr c' \<Rightarrow> c')"

definition cache_run :: "(int \<times> 'p cache_op) list \<Rightarrow> 'p bar_cache \<Rightarrow> 'p bar_cache" where
  "cache_run ops c = foldl (\<lambda>c (now, op). cache_step now op c) c ops"

section \<open>How one series evolves\<close>

text \<open>
  A snapshot of the counters identifies the whole series: while the generation is the same
  the two revisions never decrease, and when both are unchanged nothing has changed.
\<close>

definition evolves :: "'p bar_series \<Rightarrow> 'p bar_series \<Rightarrow> bool" where
  "evolves s s' \<longleftrightarrow> generation s' = generation s \<and> revision s \<le> revision s'
     \<and> access_revision s \<le> access_revision s'
     \<and> (revision s' = revision s \<and> access_revision s' = access_revision s \<longrightarrow> s' = s)"

lemma evolves_refl [simp, intro]: "evolves s s"
  by (simp add: evolves_def)

lemma evolves_trans: "evolves a b \<Longrightarrow> evolves b c \<Longrightarrow> evolves a c"
  unfolding evolves_def by (metis order_antisym order_trans)

named_theorems counters \<open>the counters of a series after an operation\<close>

lemma pop_overflow_counters [counters]:
  "generation (fst (pop_overflow s ev)) = generation s" "revision (fst (pop_overflow s ev)) = revision s"
  "access_revision (fst (pop_overflow s ev)) = access_revision s"
  by (simp_all add: pop_overflow_eq Let_def)

lemma replace_at_counters [counters]:
  "generation (replace_at s i b) = generation s" "revision (replace_at s i b) = revision s"
  "access_revision (replace_at s i b) = access_revision s"
  by (simp_all add: replace_at_def)

lemma touch_counters [counters]:
  "generation (touch_write now s) = generation s" "revision (touch_write now s) = revision s + 1"
  "access_revision (touch_write now s) = access_revision s"
  "generation (mark_access now s) = generation s" "revision (mark_access now s) = revision s"
  "access_revision (mark_access now s) = access_revision s + 1"
  by (simp_all add: touch_write_def mark_access_def)

lemma insert_sorted_counters [counters]:
  "generation (fst (insert_sorted b s)) = generation s" "revision (fst (insert_sorted b s)) = revision s"
  "access_revision (fst (insert_sorted b s)) = access_revision s"
  by (simp_all add: insert_sorted_def Let_def counters)

lemma enforce_counters [counters]:
  "generation (fst (enforce_capacity s ev)) = generation s" "revision (fst (enforce_capacity s ev)) = revision s"
  "access_revision (fst (enforce_capacity s ev)) = access_revision s"
  by (simp_all add: enforce_capacity_def Let_def)

lemma evolves_write: "generation s' = generation s \<Longrightarrow> revision s' = revision s + 1 \<Longrightarrow>
    access_revision s' = access_revision s \<Longrightarrow> evolves s s'"
  by (simp add: evolves_def)

lemma append_evolves: "evolves s (fst (append_bar now b s))"
  by (rule evolves_write) (simp_all add: append_bar_def Let_def counters)

lemma upsert_evolves: "evolves s (fst (upsert_bar now b s))"
  by (rule evolves_write) (simp_all add: upsert_bar_def Let_def counters)

lemma bulk_load_evolves: "evolves s (fst (bulk_load now bs s))"
proof (cases "bs = []")
  case False
  then show ?thesis
    by (intro evolves_write) (simp_all add: bulk_load_def Let_def counters)
qed (simp add: bulk_load_def)

lemma set_max_bars_evolves: "evolves s (fst (set_max_bars n s))"
  by (simp add: evolves_def set_max_bars_def Let_def)

lemma trim_bars_evolves: "evolves s (trim_bars n s)"
  by (simp add: evolves_def trim_bars_def Let_def)

lemma mark_access_evolves: "evolves s (mark_access now s)"
  by (simp add: evolves_def counters)

lemma read_states [simp]:
  "fst (get_latest now l s) = mark_access now s" "fst (query_range now a z lo s) = mark_access now s"
  "fst (get_bar_at now t s) = mark_access now s" "fst (get_before now t l s) = mark_access now s"
  by (simp_all add: get_latest_def query_range_def get_bar_at_def get_before_def Let_def)

text \<open>What an operation that keeps the capacity does to a well-formed series.\<close>

definition series_step :: "'p bar_series \<Rightarrow> 'p bar_series \<Rightarrow> bool" where
  "series_step s s' \<longleftrightarrow> series_ok s' \<and> max_bars s' = max_bars s \<and> evolves s s'"

lemma mark_access_max [simp]: "max_bars (mark_access now s) = max_bars s"
  by (simp add: mark_access_def)

lemma series_steps:
  assumes "series_ok s"
  shows "series_step s (fst (append_bar now b s))" "series_step s (fst (upsert_bar now b s))"
    "series_step s (fst (bulk_load now bs s))" "series_step s (mark_access now s)"
    "series_step s (trim_bars n s)"
proof -
  show "series_step s (fst (append_bar now b s))"
    using append_written[OF assms, of b now] append_evolves by (simp add: series_step_def written_def)
  show "series_step s (fst (upsert_bar now b s))"
    using upsert_written[OF assms, of b now] upsert_evolves by (simp add: series_step_def written_def)
  show "series_step s (fst (bulk_load now bs s))"
    using bulk_load_written[OF assms, of bs now] bulk_load_evolves by (simp add: series_step_def written_def)
  show "series_step s (mark_access now s)"
    using assms mark_access_evolves by (simp add: series_step_def)
  have "series_ok (trim_bars n s)"
    using assms by (auto simp: series_ok_def trim_bars_def Let_def bars_sorted_drop drop_map)
  then show "series_step s (trim_bars n s)"
    using trim_bars_evolves by (simp add: series_step_def trim_bars_def Let_def)
qed

lemma series_step_trans: "series_step a b \<Longrightarrow> series_step b c \<Longrightarrow> series_step a c"
  using evolves_trans by (auto simp: series_step_def)

lemma set_max_bars_ok:
  assumes "series_ok s"
  shows "series_ok (fst (set_max_bars n s)) \<and> max_bars (fst (set_max_bars n s)) = nat (max 1 n)"
  using assms by (auto simp: series_ok_def set_max_bars_def Let_def bars_sorted_drop drop_map)

section \<open>The invariant of the cache\<close>

definition held :: "nat \<Rightarrow> (series_key \<rightharpoonup> nat) \<Rightarrow> int \<Rightarrow> series_key \<Rightarrow> 'p bar_series \<Rightarrow> bool" where
  "held normal caps gen k s \<longleftrightarrow> series_ok s \<and> generation s \<le> gen
     \<and> (\<not> key_ephemeral k \<longrightarrow> max_bars s = (case caps k of Some v \<Rightarrow> v | None \<Rightarrow> normal))"

definition dict_ok :: "nat \<Rightarrow> (series_key \<rightharpoonup> nat) \<Rightarrow> int \<Rightarrow> 'p series_dict \<Rightarrow> bool" where
  "dict_ok normal caps gen ss \<longleftrightarrow> od_wf ss \<and> (\<forall>k s. map_of ss k = Some s \<longrightarrow> held normal caps gen k s)"

definition caps_ok :: "nat \<Rightarrow> nat \<Rightarrow> (series_key \<times> nat) list \<Rightarrow> bool" where
  "caps_ok normal history caps \<longleftrightarrow> od_wf caps
     \<and> (\<forall>k v. map_of caps k = Some v \<longrightarrow> normal < v \<and> v \<le> history \<and> \<not> key_ephemeral k)"

definition config_ok :: "cache_config \<Rightarrow> bool" where
  "config_ok cfg \<longleftrightarrow> 1 \<le> max_bars_per_series cfg \<and> 1 \<le> max_series cfg"

definition cache_ok :: "'p bar_cache \<Rightarrow> bool" where
  "cache_ok c \<longleftrightarrow> config_ok (cache_cfg c)
     \<and> dict_ok (normal_capacity c) (map_of (history_capacities c)) (next_series_generation c) (series c)
     \<and> length (series c) \<le> max_series (cache_cfg c)
     \<and> caps_ok (normal_capacity c) (history_capacity c) (history_capacities c)
     \<and> length (history_capacities c) \<le> history_max_series (cache_cfg c)"

text \<open>
  What survives between two cache states: every series now held is either an incarnation
  created since, or an evolution of the one held then.
\<close>

definition descends :: "int \<Rightarrow> (series_key \<rightharpoonup> 'p bar_series) \<Rightarrow> (series_key \<rightharpoonup> 'p bar_series) \<Rightarrow> bool" where
  "descends gen m m' \<longleftrightarrow> (\<forall>k s'. m' k = Some s' \<longrightarrow>
     generation s' > gen \<or> (\<exists>s. m k = Some s \<and> evolves s s'))"

definition follows :: "'p bar_cache \<Rightarrow> 'p bar_cache \<Rightarrow> bool" where
  "follows c c' \<longleftrightarrow> cache_ok c' \<and> cache_cfg c' = cache_cfg c
     \<and> next_series_generation c \<le> next_series_generation c'
     \<and> descends (next_series_generation c) (map_of (series c)) (map_of (series c'))"

lemma descends_refl [simp, intro]: "descends g m m"
  by (auto simp: descends_def)

lemma follows_trans: 
  assumes "follows a b" "follows b c"
  shows "follows a c"
proof -
  have "generation s' > next_series_generation a \<or> (\<exists>s. map_of (series a) k = Some s \<and> evolves s s')"
    if s': "map_of (series c) k = Some s'" for k s'
  proof (cases "generation s' > next_series_generation b")
    case True
    then show ?thesis using assms(1) by (auto simp: follows_def)
  next
    case False
    then obtain s1 where s1: "map_of (series b) k = Some s1" "evolves s1 s'"
      using assms(2) s' by (auto simp: follows_def descends_def)
    have g: "generation s' = generation s1" using s1(2) by (simp add: evolves_def)
    from s1(1) assms(1) consider "generation s1 > next_series_generation a"
      | s where "map_of (series a) k = Some s" "evolves s s1" by (auto simp: follows_def descends_def)
    then show ?thesis using g evolves_trans[OF _ s1(2)] by cases auto
  qed
  then show ?thesis using assms by (auto simp: follows_def descends_def)
qed

lemma dict_ok_update:
  "dict_ok n m g ss \<Longrightarrow> held n m g k s \<Longrightarrow> dict_ok n m g (AList.update k s ss)"
  by (auto simp: dict_ok_def map_of_update)

lemma dict_ok_delete: "dict_ok n m g ss \<Longrightarrow> dict_ok n m g (AList.delete k ss)"
  by (auto simp: dict_ok_def map_of_delete)

lemma dict_ok_drop_key:
  "dict_ok n m g ss \<Longrightarrow> map_of ss k = None \<Longrightarrow> dict_ok n (m(k := None)) g ss"
  by (auto simp: dict_ok_def held_def)

lemma dict_ok_delete_both: "dict_ok n m g ss \<Longrightarrow> dict_ok n (m(k := None)) g (AList.delete k ss)"
  by (rule dict_ok_drop_key[OF dict_ok_delete]) (simp_all only: map_of_delete fun_upd_same)

lemma dict_ok_move [simp]: "dict_ok n m g ss \<Longrightarrow> dict_ok n m g (od_move_to_end k ss)"
  by (auto simp: dict_ok_def)

lemma dict_ok_newer: "dict_ok n m g ss \<Longrightarrow> g \<le> g' \<Longrightarrow> dict_ok n m g' ss"
  by (fastforce simp: dict_ok_def held_def)

lemma caps_ok_delete: "caps_ok n h caps \<Longrightarrow> caps_ok n h (AList.delete k caps)"
  by (auto simp: caps_ok_def map_of_delete)

lemma length_delete_le: "length (AList.delete k d) \<le> length d"
  by (simp add: AList.delete_eq)

lemma descends_delete [simp, intro]: "descends g (map_of ss) (map_of (AList.delete k ss))"
  by (auto simp: descends_def map_of_delete)

lemma descends_put: "m k = Some s \<Longrightarrow> evolves s s' \<Longrightarrow> descends g m (m(k \<mapsto> s'))"
  by (auto simp: descends_def)


lemma cache_okD:
  assumes "cache_ok c"
  shows "config_ok (cache_cfg c)"
    "dict_ok (normal_capacity c) (map_of (history_capacities c)) (next_series_generation c) (series c)"
    "length (series c) \<le> max_series (cache_cfg c)"
    "caps_ok (normal_capacity c) (history_capacity c) (history_capacities c)"
    "length (history_capacities c) \<le> history_max_series (cache_cfg c)"
    "normal_capacity c = max_bars_per_series (cache_cfg c)" "1 \<le> max_series (cache_cfg c)"
    "od_wf (series c)" "od_wf (history_capacities c)"
  using assms by (auto simp: cache_ok_def config_ok_def normal_capacity_def dict_ok_def caps_ok_def)

lemma cache_held: "cache_ok c \<Longrightarrow> map_of (series c) k = Some s \<Longrightarrow>
    held (normal_capacity c) (map_of (history_capacities c)) (next_series_generation c) k s"
  using cache_okD(2) by (auto simp: dict_ok_def)

lemma follows_refl: "cache_ok c \<Longrightarrow> follows c c"
  by (simp add: follows_def)

lemma put_follows:
  assumes "cache_ok c" "map_of (series c) k = Some s" "series_step s s'"
  shows "follows c (put k s' c)"
proof -
  have h: "held (normal_capacity c) (map_of (history_capacities c)) (next_series_generation c) k s'"
    using cache_held[OF assms(1,2)] assms(3) by (auto simp: held_def series_step_def evolves_def)
  have "length (AList.update k s' (series c)) = length (series c)"
    by (rule length_update_in) (simp add: assms(2) del: map_of_eq_None_iff)
  then have "cache_ok (put k s' c)"
    using cache_okD[OF assms(1)] dict_ok_update[OF cache_okD(2)[OF assms(1)] h]
    by (simp add: cache_ok_def put_def normal_capacity_def history_capacity_def)
  moreover have "descends (next_series_generation c) (map_of (series c)) (map_of (series (put k s' c)))"
    using descends_put[of "map_of (series c)" k s s', OF assms(2)] assms(3) by (simp add: put_def map_of_update series_step_def)
  ultimately show ?thesis by (simp add: follows_def put_def)
qed

text \<open>The order of the series dictionary after an access.\<close>

definition lru_access :: "nat \<Rightarrow> 'k \<Rightarrow> 'k list \<Rightarrow> 'k list" where
  "lru_access limit k ks =
     (if k \<in> set ks then removeAll k ks @ [k] else drop (Suc (length ks) - limit) ks @ [k])"

lemma keys_move_to_end: "map_of d k = Some v \<Longrightarrow> map fst (od_move_to_end k d) = removeAll k (map fst d) @ [k]"
  by (simp add: od_move_to_end_def delete_keys)

lemma od_wf_drop: "od_wf d \<Longrightarrow> od_wf (drop i d)"
  by (simp add: od_wf_def drop_map[symmetric])

lemma map_of_drop: "od_wf d \<Longrightarrow> map_of (drop i d) k = Some v \<Longrightarrow> map_of d k = Some v"
  by (simp add: od_wf_def map_of_eq_Some_iff od_wf_drop[unfolded od_wf_def]) (meson in_set_dropD)

lemma evict_lru_spec:
  assumes "1 \<le> limit" "dict_ok n (map_of caps) g ss" "caps_ok n h caps"
  shows "\<exists>caps'. evict_lru limit ss caps ev
      = Inr (drop (Suc (length ss) - limit) ss, caps', ev + int (Suc (length ss) - limit))
    \<and> dict_ok n (map_of caps') g (drop (Suc (length ss) - limit) ss)
    \<and> caps_ok n h caps' \<and> length caps' \<le> length caps"
  using assms
proof (induction limit ss caps ev rule: evict_lru.induct)
  case (1 limit caps ev)
  then show ?case by simp
next
  case (2 limit k s rest caps ev)
  show ?case
  proof (cases "length ((k, s) # rest) \<ge> limit")
    case True
    have wf: "od_wf ((k, s) # rest)" using "2.prems"(2) by (simp add: dict_ok_def)
    then have "AList.delete k rest = rest" by (intro delete_notin) (auto simp: od_wf_def)
    then have "dict_ok n (map_of (AList.delete k caps)) g rest"
      using dict_ok_delete_both[OF "2.prems"(2), of k] by (simp add: map_of_delete)
    from "2.IH"[OF True "2.prems"(1) this caps_ok_delete[OF "2.prems"(3)]]
    show ?thesis using True length_delete_le[of k caps] by (force simp: Suc_diff_le)
  next
    case False
    then have "Suc (length ((k, s) # rest)) - limit = 0" by simp
    then show ?thesis using "2.prems" False by simp
  qed
qed

lemma get_or_create_ok:
  assumes "cache_ok c"
  obtains c1 s where "get_or_create now key c = Inr (c1, s)" "follows c c1"
    "map_of (series c1) key = Some s" "series_ok s"
    "map fst (series c1) = lru_access (max_series (cache_cfg c)) key (map fst (series c))"
proof (cases "map_of (series c) key")
  case (Some s)
  let ?c1 = "c\<lparr>series := od_move_to_end key (series c)\<rparr>"
  have "cache_ok ?c1"
    using cache_okD[OF assms] by (simp add: cache_ok_def normal_capacity_def history_capacity_def)
  then have "follows c ?c1" by (simp add: follows_def)
  moreover have "key \<in> set (map fst (series c))" using Some by (force dest: map_of_SomeD)
  ultimately show ?thesis
    using that[of ?c1 s] Some cache_held[OF assms Some] keys_move_to_end[OF Some]
    by (simp add: get_or_create_def held_def lru_access_def)
next
  case None
  let ?k = "Suc (length (series c)) - max_series (cache_cfg c)"
  obtain caps' where e: "evict_lru (max_series (cache_cfg c)) (series c) (history_capacities c) (evictions c)
      = Inr (drop ?k (series c), caps', evictions c + int ?k)"
    "dict_ok (normal_capacity c) (map_of caps') (next_series_generation c) (drop ?k (series c))"
    "caps_ok (normal_capacity c) (history_capacity c) caps'" "length caps' \<le> length (history_capacities c)"
    using evict_lru_spec[OF cache_okD(7,2,4)[OF assms], of "evictions c"] by blast
  define c1 where "c1 = c\<lparr>series := drop ?k (series c), history_capacities := caps',
    evictions := evictions c + int ?k, next_series_generation := next_series_generation c + 1\<rparr>"
  define s where "s = (new_series (capacity_for c1 key) (next_series_generation c1) now :: 'a bar_series)"
  define c2 where "c2 = c1\<lparr>series := AList.update key s (drop ?k (series c))\<rparr>"
  have g: "get_or_create now key c = Inr (c2, s)"
    unfolding get_or_create_def None c2_def s_def c1_def by (simp add: e(1) Let_def)
  have notin: "map_of (drop ?k (series c)) key = None"
    using None map_of_drop[OF cache_okD(8)[OF assms], of ?k key] by (metis not_None_eq)
  have hs: "held (normal_capacity c) (map_of caps') (next_series_generation c + 1) key s"
    using cache_okD(6)[OF assms]
    by (simp add: held_def s_def new_series_def series_ok_def capacity_for_def c1_def split: option.splits)
  have "dict_ok (normal_capacity c) (map_of caps') (next_series_generation c + 1)
      (AList.update key s (drop ?k (series c)))"
    by (rule dict_ok_update[OF dict_ok_newer[OF e(2)] hs]) simp
  then have ok: "cache_ok c2"
    using cache_okD[OF assms] e(3,4) length_update_notin[OF notin, of s]
    by (simp add: cache_ok_def c2_def c1_def normal_capacity_def history_capacity_def)
  have "descends (next_series_generation c) (map_of (series c)) (map_of (series c2))"
    using map_of_drop[OF cache_okD(8)[OF assms]]
    by (auto simp: descends_def c2_def map_of_update s_def new_series_def c1_def)
  then have f: "follows c c2" using ok by (simp add: follows_def c2_def c1_def)
  have "key \<notin> set (map fst (series c))" using None by (auto simp: map_of_eq_None_iff)
  then have keys: "map fst (series c2) = lru_access (max_series (cache_cfg c)) key (map fst (series c))"
    using update_notin[OF notin, of s] by (simp add: lru_access_def c2_def drop_map)
  show ?thesis
    by (rule that[OF g f _ _ keys]) (simp_all add: c2_def map_of_update s_def new_series_def series_ok_def)
qed


subsection \<open>Every operation keeps the invariant\<close>

lemma write_follows:
  assumes "cache_ok c" "\<And>s. series_ok s \<Longrightarrow> series_step s (fst (w s))"
  shows "\<exists>c' out. bindr (get_or_create now key c) (\<lambda>(c1, s).
      let (s', evicted) = w s in Inr (put key s' c1, batch key evicted)) = Inr (c', out) \<and> follows c c'"
proof -
  obtain c1 s where g: "get_or_create now key c = Inr (c1, s)" "follows c c1"
    "map_of (series c1) key = Some s" "series_ok s" by (rule get_or_create_ok[OF assms(1)])
  have "cache_ok c1" using g(2) by (simp add: follows_def)
  then have "follows c (put key (fst (w s)) c1)"
    using follows_trans[OF g(2) put_follows[OF _ g(3) assms(2)[OF g(4)]]] by blast
  then show ?thesis by (simp add: g(1) split_def Let_def)
qed

lemma state_after_Inr: "\<exists>c' x. r = Inr (c', x) \<and> follows c c' \<Longrightarrow> follows c (state_after c r)"
  by (auto simp: state_after_def)

lemma upsert_if_accepted_follows:
  assumes "cache_ok c"
  shows "\<exists>c' x. upsert_if_accepted now key bar c = Inr (c', x) \<and> follows c c'"
proof -
  obtain c1 s where g: "get_or_create now key c = Inr (c1, s)" "follows c c1"
    "map_of (series c1) key = Some s" "series_ok s" by (rule get_or_create_ok[OF assms])
  have c1: "cache_ok c1" using g(2) by (simp add: follows_def)
  let ?s1 = "mark_access now s"
  have s1: "series_step s ?s1" by (rule series_steps(4)[OF g(4)])
  have s2: "series_step s (fst (upsert_bar now bar ?s1))"
    by (rule series_step_trans[OF s1 series_steps(2)]) (use g(4) in simp)
  have "(\<exists>x. upsert_if_accepted now key bar c = Inr (put key ?s1 c1, x))
      \<or> (\<exists>x. upsert_if_accepted now key bar c = Inr (put key (fst (upsert_bar now bar ?s1)) c1, x))"
    by (auto simp: upsert_if_accepted_def g(1) split_def Let_def split: option.split)
  then show ?thesis
    using follows_trans[OF g(2) put_follows[OF c1 g(3) s1]] follows_trans[OF g(2) put_follows[OF c1 g(3) s2]]
    by auto
qed

lemma touch_follows:
  assumes "cache_ok c"
  shows "follows c (fst (touch key c))"
proof (cases "map_of (series c) key")
  case (Some s)
  have "cache_ok (c\<lparr>series := od_move_to_end key (series c)\<rparr>)"
    using cache_okD[OF assms] by (simp add: cache_ok_def normal_capacity_def history_capacity_def)
  then show ?thesis using Some by (simp add: follows_def touch_def)
qed (simp add: touch_def follows_refl[OF assms])

lemma touch_held: "touch key c = (c1, Some s) \<Longrightarrow> map_of (series c1) key = Some s \<and> map_of (series c) key = Some s"
  by (auto simp: touch_def split: option.splits)

text \<open>The metrics play no part in the invariant.\<close>

lemma follows_metrics [simp]:
  "follows c (d\<lparr>hits := h\<rparr>) = follows c d" "follows c (d\<lparr>misses := h\<rparr>) = follows c d"
  "cache_ok (d\<lparr>hits := h\<rparr>) = cache_ok d" "cache_ok (d\<lparr>misses := h\<rparr>) = cache_ok d"
  by (simp_all add: follows_def cache_ok_def normal_capacity_def history_capacity_def)

lemma counted_read_follows:
  assumes "cache_ok c" "\<And>s. fst (read s) = mark_access now s"
  shows "follows c (fst (counted_read read key c))"
proof -
  obtain c1 so where t: "touch key c = (c1, so)" by fastforce
  have f: "follows c c1" using touch_follows[OF assms(1), of key] t by simp
  show ?thesis
  proof (cases so)
    case None
    then show ?thesis using f t by (simp add: counted_read_def)
  next
    case (Some s)
    note h = touch_held[OF t[unfolded Some]]
    have ok: "series_ok s" using cache_held[OF assms(1)] h by (auto simp: held_def)
    let ?c2 = "c1\<lparr>hits := hits c1 + 1\<rparr>"
    have "cache_ok ?c2" using f by (simp add: follows_def)
    then have "follows ?c2 (put key (mark_access now s) ?c2)"
      by (rule put_follows[OF _ _ series_steps(4)[OF ok]]) (use h in simp)
    then have "follows c (put key (mark_access now s) ?c2)"
      by (rule follows_trans[rotated]) (use f in simp)
    then show ?thesis using assms(2) t Some by (simp add: counted_read_def split_def Let_def)
  qed
qed

lemma get_bar_at_follows:
  assumes "cache_ok c"
  shows "follows c (fst (cache_get_bar_at now key t c))"
proof -
  obtain c1 so where t: "touch key c = (c1, so)" by fastforce
  have f: "follows c c1" using touch_follows[OF assms(1), of key] t by simp
  show ?thesis
  proof (cases so)
    case None
    then show ?thesis using f t by (simp add: cache_get_bar_at_def)
  next
    case (Some s)
    note h = touch_held[OF t[unfolded Some]]
    have ok: "series_ok s" using cache_held[OF assms(1)] h by (auto simp: held_def)
    have "cache_ok c1" using f by (simp add: follows_def)
    then have "follows c (put key (mark_access now s) c1)"
      using follows_trans[OF f put_follows[OF _ _ series_steps(4)[OF ok]]] h by blast
    then show ?thesis using t Some by (simp add: cache_get_bar_at_def split_def Let_def)
  qed
qed

lemma put_step_follows:
  assumes "cache_ok c" "map_of (series c) key = Some s"
  shows "follows c (put key (trim_bars n s) c)" "follows c (put key (mark_access now s) c)"
proof -
  have ok: "series_ok s" using cache_held[OF assms] by (simp add: held_def)
  show "follows c (put key (trim_bars n s) c)" "follows c (put key (mark_access now s) c)"
    using put_follows[OF assms series_steps(5)[OF ok]] put_follows[OF assms series_steps(4)[OF ok]] by auto
qed

lemma trim_follows:
  assumes "cache_ok c"
  shows "follows c (fst (trim_series key n c))" "follows c (fst (trim_series_if_unchanged key n p c))"
    "follows c (fst (can_accept_upsert now key b c))"
  using put_step_follows[OF assms] follows_refl[OF assms]
  by (auto simp: trim_series_def trim_series_if_unchanged_def can_accept_upsert_def split_def Let_def
      split: option.splits)

text \<open>Dropping a key from the series, or from both dictionaries.\<close>

lemma invalidate_follows:
  assumes "cache_ok c"
  shows "follows c (invalidate key c)"
proof -
  have "cache_ok (invalidate key c)"
    using cache_okD[OF assms] dict_ok_delete[OF cache_okD(2)[OF assms]] length_delete_le[of key "series c"]
    by (simp add: cache_ok_def invalidate_def normal_capacity_def history_capacity_def)
  then show ?thesis by (simp add: follows_def invalidate_def descends_delete)
qed

definition drop_both :: "series_key \<Rightarrow> 'p bar_cache \<Rightarrow> 'p bar_cache" where
  "drop_both key c = c\<lparr>series := AList.delete key (series c),
     history_capacities := AList.delete key (history_capacities c)\<rparr>"

lemma drop_both_follows:
  assumes "cache_ok c"
  shows "follows c (drop_both key c)" "follows c (drop_both key c\<lparr>evictions := n\<rparr>)"
proof -
  have d: "dict_ok (normal_capacity c) (map_of (AList.delete key (history_capacities c)))
      (next_series_generation c) (AList.delete key (series c))"
    unfolding map_of_delete by (rule dict_ok_delete_both[OF cache_okD(2)[OF assms]])
  have "cache_ok (drop_both key c\<lparr>evictions := n\<rparr>)" "cache_ok (drop_both key c)"
    using cache_okD[OF assms] d caps_ok_delete[OF cache_okD(4)[OF assms]]
      length_delete_le[of key "series c"] length_delete_le[of key "history_capacities c"]
    by (simp_all add: cache_ok_def drop_both_def normal_capacity_def history_capacity_def)
  then show "follows c (drop_both key c)" "follows c (drop_both key c\<lparr>evictions := n\<rparr>)"
    by (simp_all add: follows_def drop_both_def descends_delete)
qed

lemma evict_loop_follows:
  "cache_ok c \<Longrightarrow> follows c (foldl (\<lambda>c k. drop_both k c\<lparr>evictions := evictions c + 1\<rparr>) c ks)"
proof (induction ks arbitrary: c)
  case Nil
  then show ?case by (simp add: follows_refl)
next
  case (Cons k ks)
  have f: "follows c (drop_both k c\<lparr>evictions := evictions c + 1\<rparr>)" by (rule drop_both_follows(2)[OF Cons.prems])
  then have "cache_ok (drop_both k c\<lparr>evictions := evictions c + 1\<rparr>)" by (simp add: follows_def)
  from follows_trans[OF f Cons.IH[OF this]] show ?case by simp
qed

lemma evict_idle_follows:
  assumes "cache_ok c"
  shows "follows c (fst (evict_idle now c))"
proof -
  have eq: "(\<lambda>c k. c\<lparr>series := AList.delete k (series c),
      history_capacities := AList.delete k (history_capacities c), evictions := evictions c + 1\<rparr>)
    = (\<lambda>c k. drop_both k c\<lparr>evictions := evictions c + 1\<rparr>)" by (simp add: drop_both_def fun_eq_iff)
  show ?thesis unfolding evict_idle_def eq Let_def
    using evict_loop_follows[OF assms] follows_refl[OF assms] by simp
qed

lemma removal_follows:
  assumes "cache_ok c"
  shows "follows c (fst (remove_series key c))" "follows c (fst (remove_series_if_unchanged key p c))"
    "follows c (clear_cache c)"
proof -
  show "follows c (fst (remove_series key c))" "follows c (fst (remove_series_if_unchanged key p c))"
    using drop_both_follows(1)[OF assms, of key] follows_refl[OF assms]
    by (auto simp: remove_series_def remove_series_if_unchanged_def drop_both_def split: option.splits)
  show "follows c (clear_cache c)"
    using cache_okD[OF assms]
    by (simp add: follows_def clear_cache_def cache_ok_def dict_ok_def caps_ok_def descends_def)
qed


subsection \<open>Reservations keep the invariant\<close>

lemma descends_trans: "descends g a b \<Longrightarrow> descends g b d \<Longrightarrow> descends g a d"
  unfolding descends_def by (metis evolves_def evolves_trans)

lemma dict_ok_recap:
  assumes "dict_ok n m g ss" "map_of ss k = Some s" "w = (case cap of None \<Rightarrow> n | Some v \<Rightarrow> v)" "1 \<le> w"
  shows "dict_ok n (m(k := cap)) g (AList.update k (fst (set_max_bars (int w) s)) ss)"
proof -
  have h: "held n m g k s" using assms(1,2) by (simp add: dict_ok_def)
  have e: "evolves s (fst (set_max_bars (int w) s))" by (rule set_max_bars_evolves)
  have "max_bars (fst (set_max_bars (int w) s)) = w"
    using set_max_bars_ok[of s "int w"] h assms(4) by (simp add: held_def)
  then have "held n (m(k := cap)) g k (fst (set_max_bars (int w) s))"
    using set_max_bars_ok[of s "int w"] h e assms(3) by (simp add: held_def evolves_def)
  moreover have "held n (m(k := cap)) g k' s'" if "map_of ss k' = Some s'" "k' \<noteq> k" for k' s'
    using assms(1) that by (auto simp: dict_ok_def held_def)
  ultimately show ?thesis using assms(1) by (auto simp: dict_ok_def map_of_update)
qed

lemma dict_ok_absent: "dict_ok n m g ss \<Longrightarrow> map_of ss k = None \<Longrightarrow> dict_ok n (m(k := cap)) g ss"
  by (auto simp: dict_ok_def held_def)

lemma keys_update_in: "map_of d k = Some v \<Longrightarrow> map fst (AList.update k v' d) = map fst d"
  by (induction d) (auto split: if_splits)

lemma demote_spec:
  assumes "demote limit n caps ss out d = (caps', ss', out', d')" "1 \<le> limit" "1 \<le> n"
    "od_wf caps" "key \<notin> fst ` set caps" "dict_ok n ((map_of caps)(key := z)) g ss"
  shows "(\<exists>i. caps' = drop i caps) \<and> length caps' < limit
    \<and> dict_ok n ((map_of caps')(key := z)) g ss' \<and> map fst ss' = map fst ss
    \<and> descends h (map_of ss) (map_of ss')"
  using assms
proof (induction limit n caps ss out d rule: demote.induct)
  case (1 limit n ss out d)
  then show ?case by auto
next
  case (2 limit n k v rest ss out d)
  show ?case
  proof (cases "length ((k, v) # rest) \<ge> limit")
    case False
    then show ?thesis using "2.prems" by (auto intro: exI[of _ 0])
  next
    case full: True
    have kk: "k \<noteq> key" using "2.prems"(5) by auto
    have "k \<notin> fst ` set rest" using "2.prems"(4) by (auto simp: od_wf_def)
    then have rest: "(map_of ((k, v) # rest))(key := z, k := None) = (map_of rest)(key := z)"
      using kk map_of_eq_None_iff[of rest k] by (auto simp: fun_eq_iff)
    have wf: "od_wf rest" "key \<notin> fst ` set rest" using "2.prems"(4,5) by (auto simp: od_wf_def)
    show ?thesis
    proof (cases "map_of ss k")
      case None
      have "dict_ok n ((map_of rest)(key := z)) g ss"
        using dict_ok_absent[OF "2.prems"(6) None, of None] unfolding rest .
      moreover have "demote limit n rest ss out (d + 1) = (caps', ss', out', d')"
        using "2.prems"(1) full None by simp
      ultimately have ih: "(\<exists>i. caps' = drop i rest) \<and> length caps' < limit
          \<and> dict_ok n ((map_of caps')(key := z)) g ss' \<and> map fst ss' = map fst ss
          \<and> descends h (map_of ss) (map_of ss')"
        using "2.IH"(1)[OF full None] "2.prems"(2,3) wf by blast
      then show ?thesis by (metis drop_Suc_Cons)
    next
      case (Some s)
      let ?s' = "fst (set_max_bars (int n) s)" and ?ev = "snd (set_max_bars (int n) s)"
      let ?ss = "AList.update k ?s' ss"
      have dd: "dict_ok n ((map_of rest)(key := z)) g ?ss"
        using dict_ok_recap[OF "2.prems"(6) Some, of n None] "2.prems"(3) unfolding rest by simp
      have "demote limit n rest ?ss (out @ batch k ?ev) (d + 1) = (caps', ss', out', d')"
        using "2.prems"(1) full Some by (simp add: split_def Let_def)
      then have ih: "(\<exists>i. caps' = drop i rest) \<and> length caps' < limit
          \<and> dict_ok n ((map_of caps')(key := z)) g ss' \<and> map fst ss' = map fst ?ss
          \<and> descends h (map_of ?ss) (map_of ss')"
        using "2.IH"(2)[OF full Some refl prod.collapse] "2.prems"(2,3) wf dd by blast
      have "descends h (map_of ss) (map_of ?ss)"
        unfolding map_of_update
        by (rule descends_put[of "map_of ss" k s, OF Some set_max_bars_evolves])
      then show ?thesis using ih descends_trans keys_update_in[OF Some] by (metis drop_Suc_Cons)
    qed
  qed
qed

lemma caps_ok_drop: "caps_ok n h caps \<Longrightarrow> caps_ok n h (drop i caps)"
  unfolding caps_ok_def using map_of_drop od_wf_drop by metis

lemma caps_ok_update:
  "caps_ok n h caps \<Longrightarrow> n < v \<Longrightarrow> v \<le> h \<Longrightarrow> \<not> key_ephemeral k \<Longrightarrow> caps_ok n h (AList.update k v caps)"
  by (auto simp: caps_ok_def map_of_update)

text \<open>An expanded reservation, as its state and its answer.\<close>

lemma reserve_expanded_follows:
  assumes ok: "cache_ok c" and "1 \<le> history_max_series (cache_cfg c)" "normal_capacity c < history_capacity c"
    "\<not> key_ephemeral key" "normal_capacity c < wanted"
  shows "follows c (fst (reserve_expanded key wanted c))"
proof -
  let ?n = "normal_capacity c" and ?g = "next_series_generation c"
  define z where "z = map_of (history_capacities c) key"
  define caps0 where "caps0 = AList.delete key (history_capacities c)"
  have caps0: "(map_of caps0)(key := z) = map_of (history_capacities c)" by (simp add: caps0_def z_def map_of_delete)
  obtain caps ss out d where dem: "demote (history_max_series (cache_cfg c)) ?n caps0 (series c) []
      (history_reservation_demotions c) = (caps, ss, out, d)" by (metis prod_cases4)
  have n1: "1 \<le> ?n" by (simp add: normal_capacity_def)
  have wf0: "od_wf caps0" "key \<notin> fst ` set caps0"
    using cache_okD(9)[OF ok] map_of_eq_None_iff[of caps0 key] by (auto simp: caps0_def map_of_delete)
  have sp: "(\<exists>i. caps = drop i caps0) \<and> length caps < history_max_series (cache_cfg c)
    \<and> dict_ok ?n ((map_of caps)(key := z)) ?g ss \<and> map fst ss = map fst (series c)
    \<and> descends ?g (map_of (series c)) (map_of ss)"
    using demote_spec[OF dem assms(2) n1 wf0, of z ?g ?g] cache_okD(2)[OF ok] unfolding caps0 by blast
  then obtain i where i: "caps = drop i caps0" by blast
  define cap where "cap = min (history_capacity c) (max wanted (case z of None \<Rightarrow> ?n | Some v \<Rightarrow> if v = 0 then ?n else v))"
  have cap: "?n < cap" "cap \<le> history_capacity c" "1 \<le> cap" using assms(3,5) by (auto simp: cap_def)
  have caps1: "caps_ok ?n (history_capacity c) (AList.update key cap caps)"
    unfolding i caps0_def
    by (rule caps_ok_update[OF caps_ok_drop[OF caps_ok_delete[OF cache_okD(4)[OF ok]]] cap(1,2) assms(4)])
  have "map_of caps key = None"
    using map_of_drop[OF wf0(1), of i key] wf0(2) i by (metis map_of_eq_None_iff not_None_eq)
  then have len: "length (AList.update key cap caps) \<le> history_max_series (cache_cfg c)"
    using length_update_notin[of caps key cap] sp by simp
  have upd: "((map_of caps)(key := z))(key := Some cap) = map_of (AList.update key cap caps)"
    by (simp add: map_of_update)
  define ss' where "ss' = (case map_of ss key of None \<Rightarrow> ss
    | Some s \<Rightarrow> AList.update key (fst (set_max_bars (int cap) s)) ss)"
  have dss: "dict_ok ?n (map_of (AList.update key cap caps)) ?g ss'
      \<and> map fst ss' = map fst (series c) \<and> descends ?g (map_of (series c)) (map_of ss')"
  proof (cases "map_of ss key")
    case None
    have "dict_ok ?n (map_of (AList.update key cap caps)) ?g ss"
      unfolding upd[symmetric] by (rule dict_ok_absent[OF _ None]) (use sp in blast)
    then show ?thesis using sp None by (simp add: ss'_def)
  next
    case (Some s)
    have "descends ?g (map_of ss) (map_of ss')" unfolding ss'_def Some option.case map_of_update
      by (rule descends_put[of "map_of ss" key s, OF Some set_max_bars_evolves])
    then show ?thesis
      using sp dict_ok_recap[of ?n "(map_of caps)(key := z)" ?g ss key s cap "Some cap", OF _ Some _ cap(3)]
        keys_update_in[OF Some] descends_trans by (auto simp: ss'_def Some upd[symmetric])
  qed
  define r where "r = fst (reserve_expanded key wanted c)"
  have r: "series r = ss'" "history_capacities r = AList.update key cap caps" "cache_cfg r = cache_cfg c"
    "next_series_generation r = ?g"
    by (auto simp: r_def reserve_expanded_def caps0_def[symmetric] z_def[symmetric] dem cap_def[symmetric]
        Let_def split_def put_def ss'_def split: option.splits)
  have "length ss' \<le> max_series (cache_cfg c)"
    using dss cache_okD(3)[OF ok] by (metis length_map)
  then have "cache_ok r" using dss caps1 len cache_okD(1)[OF ok]
    by (simp add: cache_ok_def r normal_capacity_def history_capacity_def)
  then show ?thesis using dss r unfolding r_def[symmetric] by (simp add: follows_def)
qed

lemma reserve_follows:
  assumes "cache_ok c"
  shows "follows c (fst (reserve_history_capacity key n c))"
proof -
  have "cache_ok (c\<lparr>history_capacities := od_move_to_end key (history_capacities c),
      history_reservation_requests := m\<rparr>)" for m
    using cache_okD[OF assms] by (simp add: cache_ok_def normal_capacity_def history_capacity_def caps_ok_def)
  then have "follows c (c\<lparr>history_capacities := od_move_to_end key (history_capacities c),
      history_reservation_requests := m\<rparr>)" for m by (simp add: follows_def)
  then show ?thesis
    using reserve_expanded_follows[OF assms, of key "nat (max 0 n)"] follows_refl[OF assms]
    by (auto simp: reserve_history_capacity_def Let_def split: option.splits)
qed

text \<open>Every operation of the cache leads to a state that follows the one before.\<close>

lemma cache_step_follows:
  assumes "cache_ok c"
  shows "follows c (cache_step now op c)"
proof (cases op)
  case (Append k b)
  then show ?thesis
    using state_after_Inr[OF write_follows[OF assms series_steps(1)]] by (simp add: cache_append_def)
next
  case (Upsert k b)
  then show ?thesis
    using state_after_Inr[OF write_follows[OF assms series_steps(2)]] by (simp add: cache_upsert_def)
next
  case (UpsertIfAccepted k b)
  then show ?thesis using state_after_Inr[OF upsert_if_accepted_follows[OF assms]] by simp
next
  case (BulkLoad k bs)
  then show ?thesis
    using state_after_Inr[OF write_follows[OF assms series_steps(3)]] follows_refl[OF assms]
    by (simp add: cache_bulk_load_def state_after_def)
next
  case (SetEphemeralLimit n)
  have "cache_ok (c\<lparr>ephemeral_max_bars := m\<rparr>)" for m
    using cache_okD[OF assms] by (simp add: cache_ok_def normal_capacity_def history_capacity_def)
  then show ?thesis using SetEphemeralLimit follows_refl[OF assms]
    by (simp add: set_ephemeral_limit_def follows_def)
qed (simp_all add: trim_follows[OF assms] invalidate_follows[OF assms] removal_follows[OF assms]
    reserve_follows[OF assms] evict_idle_follows[OF assms] get_bar_at_follows[OF assms]
    cache_get_latest_def cache_query_def cache_get_before_def counted_read_follows[OF assms, of _ now])

lemma cache_run_follows: "cache_ok c \<Longrightarrow> follows c (cache_run ops c)"
  unfolding cache_run_def
proof (induction ops arbitrary: c)
  case Nil
  then show ?case by (simp add: follows_refl)
next
  case (Cons p ops)
  have f: "follows c (cache_step (fst p) (snd p) c)" by (rule cache_step_follows[OF Cons.prems])
  then have "cache_ok (cache_step (fst p) (snd p) c)" by (simp add: follows_def)
  from follows_trans[OF f Cons.IH[OF this]] show ?case by (simp add: split_def)
qed

lemma new_cache_ok: "config_ok cfg \<Longrightarrow> cache_ok (new_cache cfg)"
  by (simp add: cache_ok_def new_cache_def dict_ok_def caps_ok_def)


section \<open>Properties of the cache\<close>

lemma cache_reachable: "config_ok cfg \<Longrightarrow> cache_ok (cache_run ops (new_cache cfg))"
  using cache_run_follows[OF new_cache_ok] by (auto simp: follows_def)

lemma cache_step_total:
  assumes "cache_ok c"
  shows "\<exists>c' out. cache_append now k b c = Inr (c', out)" "\<exists>c' out. cache_upsert now k b c = Inr (c', out)"
    "\<exists>c' out. cache_bulk_load now k bs c = Inr (c', out)" "\<exists>c' x. upsert_if_accepted now k b c = Inr (c', x)"
proof -
  show "\<exists>c' out. cache_append now k b c = Inr (c', out)"
    unfolding cache_append_def
    using write_follows[OF assms, of "append_bar now b" now k, OF series_steps(1)] by blast
  show "\<exists>c' out. cache_upsert now k b c = Inr (c', out)"
    unfolding cache_upsert_def
    using write_follows[OF assms, of "upsert_bar now b" now k, OF series_steps(2)] by blast
  show "\<exists>c' out. cache_bulk_load now k bs c = Inr (c', out)"
    unfolding cache_bulk_load_def
    using write_follows[OF assms, of "bulk_load now bs" now k, OF series_steps(3)] by auto
  show "\<exists>c' x. upsert_if_accepted now k b c = Inr (c', x)"
    using upsert_if_accepted_follows[OF assms, of now k b] by blast
qed

definition sample_config :: "nat \<Rightarrow> cache_config" where
  "sample_config n = \<lparr>max_bars_per_series = 2, max_series = n, prewarm_bars = 10, ttl_seconds = 0,
     history_max_bars_per_series = 5, history_max_series = 1\<rparr>"

definition sample_key :: "string \<Rightarrow> series_key" where
  "sample_key nm = \<lparr>sk_symbol = nm, sk_interval = ''1m'', sk_exchange = ''binance'',
     sk_market_type = ''spot'', sk_provider_id = None, sk_venue = None, sk_asset_class = ''crypto'',
     sk_series_variant = ''trade'', sk_price_adjustment = ''raw'', sk_session_variant = ''all'',
     sk_volume_semantics = ''base''\<rparr>"

lemma sample_config_ok: "config_ok (sample_config (Suc n))"
  by (simp add: config_ok_def sample_config_def)

text \<open>C2: The cache invariant holds after any sequence of operations, at any clock, on a cache
  configured for at least one series and one bar per series: both dictionaries have distinct keys,
  every held series keeps index, order and capacity, at most \<open>max_series\<close> series and
  \<open>history_max_series\<close> reservations are held, and a durable series has exactly the capacity its
  reservation grants (the normal one without a reservation). In such a state none of the four
  writes (append, upsert, upsert-if-accepted, bulk load) raises, whatever it is given.\<close>

theorem cache_invariant:
  assumes "config_ok cfg" and "c = cache_run ops (new_cache cfg)"
  shows "cache_ok c \<and> length (series c) \<le> max_series cfg \<and> length (history_capacities c) \<le> history_max_series cfg
    \<and> (\<forall>k s. map_of (series c) k = Some s \<longrightarrow> series_ok s
        \<and> (\<not> key_ephemeral k \<longrightarrow> max_bars s = capacity_for c k))
    \<and> (\<forall>now key bar bars.
        (\<exists>c' out. cache_append now key bar c = Inr (c', out)) \<and> (\<exists>c' out. cache_upsert now key bar c = Inr (c', out))
        \<and> (\<exists>c' out. upsert_if_accepted now key bar c = Inr (c', out))
        \<and> (\<exists>c' out. cache_bulk_load now key bars c = Inr (c', out)))"
proof -
  have f: "follows (new_cache cfg) c" unfolding assms(2) by (rule cache_run_follows[OF new_cache_ok[OF assms(1)]])
  then have ok: "cache_ok c" and cfg: "cache_cfg c = cfg" by (simp_all add: follows_def new_cache_def)
  have "series_ok s \<and> (\<not> key_ephemeral k \<longrightarrow> max_bars s = capacity_for c k)"
    if "map_of (series c) k = Some s" for k s
    using cache_held[OF ok that] cache_okD(6)[OF ok] by (simp add: held_def capacity_for_def split: option.splits)
  then show ?thesis using ok cache_okD(3,5)[OF ok] cache_step_total[OF ok] cfg by simp
qed

theorem cache_invariant_witness:
  "\<exists>c. c = cache_run [(5, Append (sample_key ''A'') (sample_bar 60 ''backfill'')),
      (6, Append (sample_key ''B'') (sample_bar 60 ''backfill''))] (new_cache (sample_config 1))
    \<and> length (series c) \<le> 1 \<and> cache_ok c"
proof -
  have ok: "config_ok (sample_config 1)" using sample_config_ok[of 0] by simp
  let ?ops = "[(5, Append (sample_key ''A'') (sample_bar 60 ''backfill'')), (6, Append (sample_key ''B'') (sample_bar 60 ''backfill''))]"
  let ?c = "cache_run ?ops (new_cache (sample_config 1))"
  have "cache_ok ?c" "length (series ?c) \<le> max_series (sample_config 1)" using cache_invariant[OF ok refl, of ?ops] by blast+
  moreover have "max_series (sample_config 1) = 1" by (simp add: sample_config_def)
  ultimately show ?thesis by auto
qed

text \<open>A cache configured for no series at all raises \<open>KeyError\<close> on the first write: the
  eviction loop pops from an empty dictionary, since zero series is never below the limit.\<close>

lemma zero_series_raises:
  "cache_append now key bar (new_cache (sample_config 0)) = Inl KeyError
    \<and> cache_upsert now key bar (new_cache (sample_config 0)) = Inl KeyError
    \<and> cache_bulk_load now key [bar] (new_cache (sample_config 0)) = Inl KeyError
    \<and> cache_bulk_load now key [] (new_cache (sample_config 0)) = Inr (new_cache (sample_config 0), [])"
  by (simp add: cache_append_def cache_upsert_def cache_bulk_load_def get_or_create_def new_cache_def sample_config_def)

subsection \<open>The memory budget\<close>

definition durable_bars :: "'p series_dict \<Rightarrow> nat" where
  "durable_bars ss = sum_list (map (\<lambda>(k, s). if key_ephemeral k then 0 else series_count s) ss)"

lemma durable_bars_bound:
  assumes "dict_ok n caps g ss" "\<forall>k v. caps k = Some v \<longrightarrow> n < v \<and> v \<le> h"
  shows "durable_bars ss \<le> n * length ss + (h - n) * card (fst ` set ss \<inter> dom caps)"
  using assms(1)
proof (induction ss)
  case (Cons p ss)
  obtain k s where p: "p = (k, s)" by fastforce
  have wf: "od_wf ss" "k \<notin> fst ` set ss" using Cons.prems p by (auto simp: dict_ok_def od_wf_def)
  have "held n caps g k' s'" if "map_of ss k' = Some s'" for k' s'
  proof -
    have "k' \<noteq> k" using map_of_SomeD[OF that] wf(2) by force
    then show ?thesis using Cons.prems that p by (simp add: dict_ok_def)
  qed
  then have ih: "durable_bars ss \<le> n * length ss + (h - n) * card (fst ` set ss \<inter> dom caps)"
    using Cons.IH wf(1) by (simp add: dict_ok_def)
  have "held n caps g k s" using Cons.prems p by (simp add: dict_ok_def)
  then have one: "(if key_ephemeral k then 0 else series_count s) \<le> n + (h - n) * (if k \<in> dom caps then 1 else 0)"
    using assms(2) by (auto simp: held_def series_ok_def series_count_def split: option.splits) fastforce
  have "card (insert k (fst ` set ss) \<inter> dom caps)
      = card (fst ` set ss \<inter> dom caps) + (if k \<in> dom caps then 1 else 0)"
    using wf(2) by (simp add: Int_insert_left)
  then show ?case using ih one p
    by (simp add: durable_bars_def algebra_simps del: One_nat_def)
qed (simp add: durable_bars_def)

text \<open>Hard memory budget: in every reachable state the bars held for durable (non-ephemeral)
  series together stay within the configured total, although reservations come and go and
  series are evicted, recreated, trimmed and resized in between.\<close>

lemma cache_budget:
  assumes "config_ok cfg" and "c = cache_run ops (new_cache cfg)"
  shows "durable_bars (series c) \<le> configured_max_total_bars c"
proof -
  have ok: "cache_ok c" unfolding assms(2) by (rule cache_reachable[OF assms(1)])
  note D = cache_okD[OF ok]
  let ?n = "normal_capacity c" and ?h = "history_capacity c" and ?caps = "map_of (history_capacities c)"
  have "durable_bars (series c) \<le> ?n * length (series c) + (?h - ?n) * card (fst ` set (series c) \<inter> dom ?caps)"
    by (rule durable_bars_bound[OF D(2)]) (use D(4) in \<open>simp add: caps_ok_def\<close>)
  also have "\<dots> \<le> ?n * max_series (cache_cfg c)
      + (?h - ?n) * min (max_series (cache_cfg c)) (history_max_series (cache_cfg c))"
  proof (intro add_mono mult_le_mono order_refl min.boundedI D(3))
    have "card (fst ` set (series c) \<inter> dom ?caps) \<le> card (fst ` set (series c))" by (rule card_mono) auto
    also have "\<dots> \<le> length (map fst (series c))" by (metis card_length list.set_map)
    finally show "card (fst ` set (series c) \<inter> dom ?caps) \<le> max_series (cache_cfg c)" using D(3) by simp
    have "card (fst ` set (series c) \<inter> dom ?caps) \<le> card (dom ?caps)" by (rule card_mono) (auto simp: finite_dom_map_of)
    also have "\<dots> \<le> length (map fst (history_capacities c))"
      by (metis card_length dom_map_of_conv_image_fst list.set_map)
    finally show "card (fst ` set (series c) \<inter> dom ?caps) \<le> history_max_series (cache_cfg c)" using D(5) by simp
  qed
  also have "\<dots> = configured_max_total_bars c"
    by (simp add: configured_max_total_bars_def Let_def history_capacity_def D(6))
  finally show ?thesis .
qed

lemma cache_budget_example:
  "durable_bars (series (cache_run [(5, Reserve (sample_key ''A'') 9),
      (6, BulkLoad (sample_key ''A'') [sample_bar 60 ''x'', sample_bar 120 ''x'', sample_bar 180 ''x''])]
      (new_cache (sample_config 1)))) \<le> 5"
proof -
  have ok: "config_ok (sample_config 1)" using sample_config_ok[of 0] by simp
  let ?ops = "[(5, Reserve (sample_key ''A'') 9),
      (6, BulkLoad (sample_key ''A'') [sample_bar 60 ''x'', sample_bar 120 ''x'', sample_bar 180 ''x''])]"
  have "cache_cfg (cache_run ?ops (new_cache (sample_config 1))) = sample_config 1"
    using cache_run_follows[OF new_cache_ok[OF ok], of ?ops] by (simp add: follows_def new_cache_def)
  then have "configured_max_total_bars (cache_run ?ops (new_cache (sample_config 1))) = 5"
    by (simp add: configured_max_total_bars_def sample_config_def)
  then show ?thesis using cache_budget[OF ok refl, of ?ops] by simp
qed


subsection \<open>Least recently used order\<close>

definition newest :: "nat \<Rightarrow> 'k list \<Rightarrow> 'k list" where
  "newest n ks = drop (length ks - n) ks"

lemma remdups_snoc: "remdups (ks @ [k]) = removeAll k (remdups ks) @ [k]"
  by (induction ks) auto

lemma lru_access_newest:
  assumes "distinct r" "1 \<le> n"
  shows "lru_access n k (newest n r) = newest n (removeAll k r @ [k])"
proof -
  let ?i = "length r - n"
  have r: "r = take ?i r @ drop ?i r" by simp
  have rem: "removeAll k r = removeAll k (take ?i r) @ removeAll k (drop ?i r)"
    by (subst (1) r) (simp only: removeAll_append)
  have len: "k \<in> set xs \<Longrightarrow> distinct xs \<Longrightarrow> Suc (length (removeAll k xs)) = length xs" for xs
    by (metis One_nat_def Suc_pred distinct_remove1_removeAll length_pos_if_in_set length_remove1)
  consider (new) "k \<in> set (drop ?i r)" | (old) "k \<in> set (take ?i r)" "k \<notin> set (drop ?i r)" | (none) "k \<notin> set r"
    by (metis Un_iff r set_append)
  then show ?thesis
  proof cases
    case new
    then have "k \<notin> set (take ?i r)" using assms(1) set_take_disj_set_drop_if_distinct[of r ?i ?i] by auto
    then have e: "removeAll k r = take ?i r @ removeAll k (drop ?i r)" using rem by simp
    have "k \<in> set r" using new by (meson in_set_dropD)
    then have "length (removeAll k r @ [k]) = length r" using len[OF _ assms(1)] by simp
    then show ?thesis using new unfolding newest_def lru_access_def by (simp add: e)
  next
    case old
    have "k \<in> set r" using old(1) by (meson in_set_takeD)
    then have l: "length (removeAll k r @ [k]) = length r" using len[OF _ assms(1)] by simp
    have i: "0 < ?i" using old(1) by (cases ?i) auto
    have lt: "length (removeAll k (take ?i r)) = ?i - 1" using len[OF old(1)] assms(1) i by simp
    have e: "removeAll k r = removeAll k (take ?i r) @ drop ?i r" using rem old(2) by simp
    have one: "Suc (length (drop ?i r)) - n = 1" using i by simp
    have "newest n (removeAll k r @ [k]) = drop ?i (removeAll k r @ [k])" unfolding newest_def l ..
    also have "\<dots> = drop 1 (drop ?i r @ [k])" unfolding e using lt i by simp
    also have "\<dots> = drop 1 (drop ?i r) @ [k]" using i assms(2) by simp
    finally show ?thesis using old(2) one by (simp add: lru_access_def newest_def)
  next
    case none
    then have "k \<notin> set (drop ?i r)" by (meson in_set_dropD)
    moreover have "drop (Suc (length (drop ?i r)) - n) (drop ?i r) = drop (Suc (length r) - n) r"
      by (cases "n \<le> length r") (auto simp: Suc_diff_le)
    ultimately show ?thesis using none assms(2) by (simp add: lru_access_def newest_def)
  qed
qed

lemma append_keys:
  assumes "cache_ok c"
  shows "map fst (series (cache_step now (Append k b) c)) = lru_access (max_series (cache_cfg c)) k (map fst (series c))"
proof -
  obtain c1 s where g: "get_or_create now k c = Inr (c1, s)" "follows c c1" "map_of (series c1) k = Some s" "series_ok s"
    "map fst (series c1) = lru_access (max_series (cache_cfg c)) k (map fst (series c))"
    by (rule get_or_create_ok[OF assms])
  then show ?thesis
    by (simp add: cache_append_def state_after_def split_def Let_def put_def keys_update_in)
qed

text \<open>The series held are the least-recently-used promise: after any sequence of appends, the
  keys of the cache are the \<open>max_series\<close> most recently written distinct keys, in the order of
  their last write.\<close>

lemma lru_keys:
  assumes "config_ok cfg"
  shows "map fst (series (cache_run (map (\<lambda>(t, k, b). (t, Append k b)) writes) (new_cache cfg)))
    = newest (max_series cfg) (remdups (map (\<lambda>(t, k, b). k) writes))"
proof (induction writes rule: rev_induct)
  case Nil
  then show ?case by (simp add: cache_run_def new_cache_def newest_def)
next
  case (snoc w ws)
  obtain t k b where w: "w = (t, k, b)" by (cases w)
  let ?c = "cache_run (map (\<lambda>(t, k, b). (t, Append k b)) ws) (new_cache cfg)"
  have f: "follows (new_cache cfg) ?c" by (rule cache_run_follows[OF new_cache_ok[OF assms]])
  then have ok: "cache_ok ?c" and cfg: "cache_cfg ?c = cfg" by (simp_all add: follows_def new_cache_def)
  have "1 \<le> max_series cfg" using assms by (simp add: config_ok_def)
  then show ?case
    using append_keys[OF ok, of t k b] lru_access_newest[OF distinct_remdups] snoc.IH cfg
    by (simp add: w cache_run_def remdups_snoc[symmetric] del: cache_step.simps)
qed

lemma lru_keys_example:
  "map fst (series (cache_run (map (\<lambda>(t, k, b). (t, Append k b))
      [(1, sample_key ''A'', sample_bar 60 ''x''), (2, sample_key ''B'', sample_bar 60 ''x''),
       (3, sample_key ''A'', sample_bar 120 ''x''), (4, sample_key ''C'', sample_bar 60 ''x'')])
      (new_cache (sample_config 2)))) = [sample_key ''A'', sample_key ''C'']"
proof -
  have ok: "config_ok (sample_config 2)" using sample_config_ok[of 1] by (simp add: numeral_2_eq_2)
  have "newest 2 (remdups [sample_key ''A'', sample_key ''B'', sample_key ''A'', sample_key ''C''])
      = [sample_key ''A'', sample_key ''C'']" by (simp add: newest_def sample_key_def)
  then show ?thesis by (subst lru_keys[OF ok]) (simp add: sample_config_def)
qed

subsection \<open>Conditional maintenance\<close>

definition snapshot_of :: "'p bar_series \<Rightarrow> plan_snapshot" where
  "snapshot_of s = \<lparr>expected_generation = generation s, expected_revision = revision s,
     expected_access_revision = access_revision s, expected_last_access_ms = last_access_ms s\<rparr>"

text \<open>C31: A stale maintenance plan never acts: if a plan was made from the series held for a key,
  and after any further operations (removals, evictions and recreations of the key included) the
  conditional trim or removal with that plan does not answer \<open>missing\<close> or \<open>stale\<close>, the series is
  still exactly the planned one, bars and all.\<close>

theorem stale_plan_never_acts:
  assumes "cache_ok c" and "map_of (series c) key = Some s" and "c' = cache_run ops c"
    and "snd (snd (trim_series_if_unchanged key keep (snapshot_of s) c')) \<notin> {Missing, Stale}
      \<or> snd (snd (remove_series_if_unchanged key (snapshot_of s) c')) \<notin> {Missing, Stale}"
  shows "map_of (series c') key = Some s"
proof -
  obtain s' where s': "map_of (series c') key = Some s'" "plan_current (snapshot_of s) s'"
    using assms(4)
    by (auto simp: trim_series_if_unchanged_def remove_series_if_unchanged_def split: option.splits if_splits)
  have "generation s \<le> next_series_generation c" using cache_held[OF assms(1,2)] by (simp add: held_def)
  moreover have same: "generation s' = generation s" "revision s' = revision s" "access_revision s' = access_revision s"
    using s'(2) by (simp_all add: plan_current_def snapshot_of_def)
  moreover have "generation s' > next_series_generation c \<or> (\<exists>s0. map_of (series c) key = Some s0 \<and> evolves s0 s')"
    using cache_run_follows[OF assms(1), of ops] s'(1) assms(3) by (auto simp: follows_def descends_def)
  ultimately have "evolves s s'" using assms(2) by auto
  then have "s' = s" using same by (simp add: evolves_def)
  then show ?thesis using s'(1) by simp
qed

theorem stale_plan_never_acts_witness:
  "\<exists>(c :: int bar_cache) s. cache_ok c \<and> map_of (series c) (sample_key ''A'') = Some s
    \<and> snd (snd (remove_series_if_unchanged (sample_key ''A'') (snapshot_of s) (cache_run [] c))) = Removed
    \<and> map_of (series (cache_run [] c)) (sample_key ''A'') = Some s"
proof -
  let ?k = "sample_key ''A''"
  have ok: "config_ok (sample_config 1)" using sample_config_ok[of 0] by simp
  note new = new_cache_ok[OF ok]
  define c where "c = cache_run [(1, Append ?k (sample_bar 60 ''x''))] (new_cache (sample_config 1))"
  have c: "cache_ok c" unfolding c_def by (rule cache_reachable[OF ok])
  have "map fst (series c) = [?k]"
    using append_keys[OF new, of 1 ?k "sample_bar 60 ''x''"]
    by (simp add: c_def cache_run_def lru_access_def new_cache_def del: cache_step.simps)
  then obtain s where s: "map_of (series c) ?k = Some s" by (cases "series c") auto
  have r: "cache_run [] c = c" by (simp add: cache_run_def)
  have st: "snd (snd (remove_series_if_unchanged ?k (snapshot_of s) (cache_run [] c))) = Removed"
    unfolding r remove_series_if_unchanged_def s by (simp add: plan_current_def snapshot_of_def)
  have "map_of (series (cache_run [] c)) ?k = Some s"
    by (rule stale_plan_never_acts[OF c s refl, where keep = 0]) (simp add: st)
  then show ?thesis using c s st by blast
qed

subsection \<open>Atomic arbitration\<close>

definition bars_at :: "'p bar_cache \<Rightarrow> series_key \<Rightarrow> 'p bar_data list" where
  "bars_at c key = (case map_of (series c) key of None \<Rightarrow> [] | Some s \<Rightarrow> series_bars s)"

lemma get_or_create_bars: "get_or_create now key c = Inr (c1, s) \<Longrightarrow> series_bars s = bars_at c key"
  by (auto simp: get_or_create_def bars_at_def new_series_def Let_def bindr_eq_Inr split: option.splits)

lemma snd_get_bar_at: "series_ok s \<Longrightarrow> snd (get_bar_at now t s) = lookup (series_bars s) t"
  by (subst lookup_nth[OF _ refl, symmetric]) (simp_all add: get_bar_at_def Let_def)

lemma bars_at_new: "bars_at (new_cache cfg) key = []"
  by (simp add: bars_at_def new_cache_def)

lemma bars_at_put: "bars_at (put key s c) key = series_bars s"
  by (simp add: bars_at_def put_def map_of_update)

lemma concat_batch: "concat (map snd (batch key ev)) = ev"
  by (simp add: batch_def)

text \<open>The atomic upsert answers what it did: it accepts exactly when there is no bar at that
  time or the incoming source may replace it; an accepted bar is inserted as the reference
  insertion does, the evicted bars going to the callbacks; a rejected one leaves the bars of
  the series as they were, notifies nobody, and returns the bar that is held.\<close>

lemma upsert_if_accepted_answers:
  assumes "cache_ok c" and "upsert_if_accepted now key bar c = Inr (c', out, accepted, held_bar)"
  shows "accepted = (case lookup (bars_at c key) (bar_time bar) of None \<Rightarrow> True
      | Some e \<Rightarrow> incoming_source_can_replace (bar_source e) (bar_source bar))
    \<and> (if accepted then held_bar = bar \<and> concat (map snd out) @ bars_at c' key = ref_insert bar (bars_at c key)
       else out = [] \<and> lookup (bars_at c key) (bar_time bar) = Some held_bar \<and> bars_at c' key = bars_at c key)"
proof -
  obtain c1 s where g: "get_or_create now key c = Inr (c1, s)" "series_ok s" by (rule get_or_create_ok[OF assms(1)])
  note b = get_or_create_bars[OF g(1)]
  let ?s1 = "mark_access now s" and ?old = "lookup (bars_at c key) (bar_time bar)"
  have old: "snd (get_bar_at now (bar_time bar) s) = ?old" using snd_get_bar_at[OF g(2)] b by simp
  have s1: "series_ok ?s1" using g(2) by simp
  have up: "snd (upsert_bar now bar ?s1) @ series_bars (fst (upsert_bar now bar ?s1)) = ref_insert bar (bars_at c key)"
    using upsert_written[OF s1, of bar now] b by (simp add: written_def)
  show ?thesis
  proof (cases "\<exists>e. ?old = Some e \<and> \<not> incoming_source_can_replace (bar_source e) (bar_source bar)")
    case True
    then obtain e where e: "?old = Some e" "\<not> incoming_source_can_replace (bar_source e) (bar_source bar)" by blast
    then have "c' = put key ?s1 c1" "out = []" "\<not> accepted" "held_bar = e"
      using assms(2) g(1) old by (auto simp: upsert_if_accepted_def split_def Let_def)
    then show ?thesis using e b by (simp add: bars_at_put)
  next
    case False
    then have "c' = put key (fst (upsert_bar now bar ?s1)) c1" "out = batch key (snd (upsert_bar now bar ?s1))"
      "accepted" "held_bar = bar"
      using assms(2) g(1) old by (auto simp: upsert_if_accepted_def split_def Let_def split: option.splits)
    then show ?thesis using False up by (simp add: bars_at_put concat_batch split: option.splits)
  qed
qed

lemma upsert_if_accepted_answers_example:
  "\<exists>c' out. upsert_if_accepted 1 (sample_key ''A'') (sample_bar 60 ''x'') (new_cache (sample_config 1))
      = Inr (c', out, True, sample_bar 60 ''x'')
    \<and> concat (map snd out) @ bars_at c' (sample_key ''A'') = [sample_bar 60 ''x'']"
proof -
  have ok: "config_ok (sample_config 1)" using sample_config_ok[of 0] by simp
  let ?r = "upsert_if_accepted 1 (sample_key ''A'') (sample_bar 60 ''x'') (new_cache (sample_config 1))"
  obtain c' out a cn where r: "?r = Inr (c', out, a, cn)"
    using cache_step_total(4)[OF new_cache_ok[OF ok]] by (metis prod_cases4)
  have "a" "cn = sample_bar 60 ''x''" "concat (map snd out) @ bars_at c' (sample_key ''A'') = [sample_bar 60 ''x'']"
    using upsert_if_accepted_answers[OF new_cache_ok[OF ok] r] by (auto simp: bars_at_new)
  then show ?thesis using r by simp
qed


end
