(* ===== verification/IntervalRouting.thy ===== *)
theory IntervalRouting
  imports IntervalPolicy
begin

text \<open>
  Exchange-aware interval routing (\<open>backend/app/data_engine/interval_resolution.py\<close>) and the
  source-row work planning over a route (\<open>backend/app/data_engine/interval_work_plan.py\<close>).
  The exchange registry is a parameter: a map from exchange names to capability documents.
\<close>

section \<open>Data\<close>

datatype interval_purpose = HISTORY | REALTIME

datatype interval_route_kind = NATIVE | DERIVED

datatype interval_resolution_error_code =
    INVALID_INTERVAL
  | UNKNOWN_EXCHANGE
  | KLINE_CHANNEL_UNAVAILABLE
  | PURPOSE_UNSUPPORTED
  | NO_NATIVE_INTERVALS
  | NO_EXACT_BASE
  | SERIES_IDENTITY_UNSUPPORTED

text \<open>What leaves \<open>resolve\<close>: the typed error, or the \<open>ValueError\<close> of an unknown purpose name.\<close>

datatype resolve_error =
    IntervalResolutionError interval_resolution_error_code
  | PurposeValueError

record interval_route =
  rt_exchange :: string
  rt_market_type :: string
  requested_interval :: string
  canonical_interval :: string
  rt_purpose :: interval_purpose
  rt_kind :: interval_route_kind
  rt_spec :: interval_spec
  native_interval :: "string option"
  base_interval :: "string option"

definition source_interval :: "interval_route \<Rightarrow> string res" where
  "source_interval r =
     (case (if rt_kind r = NATIVE then native_interval r else base_interval r) of
        None \<Rightarrow> Inl RuntimeError | Some s \<Rightarrow> Inr s)"

text \<open>
  A capability document as the resolver reads it: the schema version (1 when the attribute is
  missing), the two resolver methods where the document has them, and the legacy list. The
  channel resolver is asked for the K-line channel of a market.
\<close>

record kline_channel =
  ch_history :: bool
  ch_realtime :: bool

record exchange_capabilities =
  capability_schema_version :: int
  channel_capability :: "(string \<Rightarrow> kline_channel option) option"
  kline_intervals :: "(string \<Rightarrow> bool \<Rightarrow> string list) option"
  native_intervals_attr :: "string list"

datatype purpose_arg = Purpose interval_purpose | PurposeName string

section \<open>Resolution\<close>

definition purpose_of_arg :: "purpose_arg \<Rightarrow> resolve_error + interval_purpose" where
  "purpose_of_arg p = (case p of Purpose q \<Rightarrow> Inr q
     | PurposeName s \<Rightarrow> let n = py_lower (py_strip s) in
         if n = ''history'' then Inr HISTORY else if n = ''realtime'' then Inr REALTIME
         else Inl PurposeValueError)"

fun unique_from :: "string list \<Rightarrow> string list \<Rightarrow> string list" where
  "unique_from seen [] = []"
| "unique_from seen (raw # rest) = (let value = py_strip raw in
     if value = [] \<or> value \<in> set seen \<or> parse_interval_spec value = None then unique_from seen rest
     else value # unique_from (value # seen) rest)"

definition unique_interval_strings :: "string list \<Rightarrow> string list" where
  "unique_interval_strings values = unique_from [] values"

definition capability_market :: "string \<Rightarrow> string" where
  "capability_market m = (if m = ''swap'' \<or> m = ''perpetual'' then ''futures'' else m)"

definition native_intervals :: "exchange_capabilities \<Rightarrow> string \<Rightarrow> interval_purpose \<Rightarrow>
    resolve_error + string list" where
  "native_intervals caps market purpose =
     (let cm = capability_market market;
          channel = (case channel_capability caps of None \<Rightarrow> None | Some f \<Rightarrow> f cm) in
      bindr (if capability_schema_version caps \<ge> 2 then
               (case channel of
                  None \<Rightarrow> Inl (IntervalResolutionError KLINE_CHANNEL_UNAVAILABLE)
                | Some ch \<Rightarrow> guardr (if purpose = HISTORY then ch_history ch else ch_realtime ch)
                    (IntervalResolutionError PURPOSE_UNSUPPORTED))
             else Inr ()) (\<lambda>_.
      let values = (case kline_intervals caps of
            Some f \<Rightarrow> f cm (purpose = HISTORY)
          | None \<Rightarrow> if capability_schema_version caps \<le> 1 then native_intervals_attr caps else []);
          intervals = unique_interval_strings values in
      if intervals = [] then Inl (IntervalResolutionError NO_NATIVE_INTERVALS) else Inr intervals))"

definition get_capabilities :: "(string \<rightharpoonup> exchange_capabilities) \<Rightarrow> string \<Rightarrow>
    resolve_error + exchange_capabilities" where
  "get_capabilities registry exchange =
     (case registry exchange of None \<Rightarrow> Inl (IntervalResolutionError UNKNOWN_EXCHANGE) | Some c \<Rightarrow> Inr c)"

text \<open>The scan for the widest native interval that tiles the target; the first of equals stays.\<close>

fun best_base_from :: "interval_spec \<Rightarrow> string list \<Rightarrow> (string \<times> interval_spec) option \<Rightarrow>
    (string \<times> interval_spec) option" where
  "best_base_from spec [] best = best"
| "best_base_from spec (n # rest) best =
     (case parse_interval_spec n of
        None \<Rightarrow> best_base_from spec rest best
      | Some ns \<Rightarrow>
          if nominal_ms ns \<ge> nominal_ms spec \<or> \<not> interval_tiles ns spec then best_base_from spec rest best
          else if (case best of None \<Rightarrow> True | Some (_, bs) \<Rightarrow> nominal_ms ns > nominal_ms bs)
          then best_base_from spec rest (Some (n, ns)) else best_base_from spec rest best)"

definition resolve :: "(string \<rightharpoonup> exchange_capabilities) \<Rightarrow> string \<Rightarrow> string \<Rightarrow> string \<Rightarrow> purpose_arg \<Rightarrow>
    resolve_error + interval_route" where
  "resolve registry exchange market_type interval purpose =
     (let ex = py_lower (py_strip exchange); mt = py_lower (py_strip market_type); iv = py_strip interval in
      bindr (purpose_of_arg purpose) (\<lambda>p.
      case parse_interval_spec iv of
        None \<Rightarrow> Inl (IntervalResolutionError INVALID_INTERVAL)
      | Some spec \<Rightarrow>
        bindr (get_capabilities registry ex) (\<lambda>caps.
        bindr (native_intervals caps mt p) (\<lambda>natives.
        let route = \<lparr>rt_exchange = ex, rt_market_type = mt, requested_interval = iv,
              canonical_interval = canonical spec, rt_purpose = p, rt_kind = NATIVE, rt_spec = spec,
              native_interval = None, base_interval = None\<rparr> in
        case find (\<lambda>n. intervals_equivalent iv n) natives of
          Some n \<Rightarrow> Inr (route\<lparr>native_interval := Some n\<rparr>)
        | None \<Rightarrow> (case best_base_from spec natives None of
              None \<Rightarrow> Inl (IntervalResolutionError NO_EXACT_BASE)
            | Some (b, _) \<Rightarrow> Inr (route\<lparr>rt_kind := DERIVED, base_interval := Some b\<rparr>))))))"

section \<open>Work plans\<close>

record interval_work_plan =
  requested_target_bars :: int
  effective_target_bars :: int
  wp_base_interval :: string
  source_factor_of :: int
  source_padding_bars :: int
  planned_source_rows :: int
  source_row_budget :: "int option"
  budget_limited :: bool
  wp_derived :: bool

definition provider_pages :: "interval_work_plan \<Rightarrow> int \<Rightarrow> int" where
  "provider_pages p page_size =
     (let n = max 1 page_size in
      if planned_source_rows p \<le> 0 then 0 else (planned_source_rows p + n - 1) div n)"

definition MAX_MONTH_DAYS :: int where
  "MAX_MONTH_DAYS = 31"

definition source_factor :: "interval_route \<Rightarrow> int res" where
  "source_factor route =
     (if rt_kind route = NATIVE then Inr 1
      else bindr (source_interval route) (\<lambda>src.
        case parse_interval_ms src of
          None \<Rightarrow> Inl ValueError
        | Some source_ms \<Rightarrow>
          if source_ms \<le> 0 then Inl ValueError
          else let nominal_factor = max 1 ((nominal_ms (rt_spec route) + source_ms - 1) div source_ms) in
            case parse_monthly_count (canonical_interval route) of
              None \<Rightarrow> Inr nominal_factor
            | Some month_count \<Rightarrow>
                let maximum_month_ms = month_count * MAX_MONTH_DAYS * 86400000 in
                Inr (max nominal_factor ((maximum_month_ms + source_ms - 1) div source_ms))))"

definition build_interval_work_plan :: "interval_route \<Rightarrow> int \<Rightarrow> int option \<Rightarrow> int \<Rightarrow> interval_work_plan res" where
  "build_interval_work_plan route target_bars row_budget padding_bars =
     (let req = max 0 target_bars; derived = (rt_kind route = DERIVED) in
      bindr (source_factor route) (\<lambda>factor.
      bindr (source_interval route) (\<lambda>base.
      let padding = (if derived then max 0 padding_bars else 0);
          budget = map_option (max 0) row_budget;
          effective = (case budget of None \<Rightarrow> req
            | Some b \<Rightarrow> min req (max 0 (b div factor - padding)));
          planned = (if effective > 0 then (effective + padding) * factor else 0) in
      Inr \<lparr>requested_target_bars = req, effective_target_bars = effective, wp_base_interval = base,
        source_factor_of = factor, source_padding_bars = padding, planned_source_rows = planned,
        source_row_budget = budget, budget_limited = (effective < req), wp_derived = derived\<rparr>)))"

definition resolve_interval_work_plan :: "(string \<rightharpoonup> exchange_capabilities) \<Rightarrow> string \<Rightarrow> string \<Rightarrow> string \<Rightarrow>
    int \<Rightarrow> int option \<Rightarrow> int \<Rightarrow> purpose_arg \<Rightarrow> resolve_error + interval_work_plan res" where
  "resolve_interval_work_plan registry exchange market_type interval target_bars row_budget padding purpose =
     bindr (resolve registry exchange market_type interval purpose) (\<lambda>route.
       Inr (build_interval_work_plan route target_bars row_budget padding))"

section \<open>What a resolution promises\<close>

lemma unique_from_spec: "v \<in> set (unique_from seen vs) \<Longrightarrow> parse_interval_spec v \<noteq> None"
  by (induction seen vs rule: unique_from.induct) (auto simp: Let_def split: if_splits)

lemma native_intervals_parse:
  assumes "native_intervals caps m p = Inr ns" "n \<in> set ns"
  shows "parse_interval_spec n \<noteq> None"
proof -
  obtain vs where "ns = unique_interval_strings vs"
    using assms(1) unfolding native_intervals_def Let_def by (auto simp: bindr_eq_Inr split: if_splits)
  then show ?thesis using assms(2) unique_from_spec unfolding unique_interval_strings_def by blast
qed

definition usable_base :: "interval_spec \<Rightarrow> string \<Rightarrow> interval_spec \<Rightarrow> bool" where
  "usable_base spec n ns \<longleftrightarrow> parse_interval_spec n = Some ns \<and> nominal_ms ns < nominal_ms spec
     \<and> interval_tiles ns spec"

lemma best_base_from_spec:
  "case best_base_from spec ns best of
     None \<Rightarrow> best = None \<and> (\<forall>n\<in>set ns. \<forall>s. \<not> usable_base spec n s)
   | Some (b, bs) \<Rightarrow> (best = Some (b, bs) \<or> b \<in> set ns \<and> usable_base spec b bs)
       \<and> (\<forall>n\<in>set ns. \<forall>s. usable_base spec n s \<longrightarrow> nominal_ms s \<le> nominal_ms bs)
       \<and> (\<forall>x y. best = Some (x, y) \<longrightarrow> nominal_ms y \<le> nominal_ms bs)"
proof (induction spec ns best rule: best_base_from.induct)
  case (1 spec best)
  then show ?case by (auto split: option.split)
next
  case (2 spec n rest best)
  show ?case
  proof (cases "parse_interval_spec n")
    case None
    then show ?thesis using "2.IH"(1)[OF None] by (auto simp: usable_base_def split: option.splits)
  next
    case (Some ns)
    show ?thesis
    proof (cases "nominal_ms ns \<ge> nominal_ms spec \<or> \<not> interval_tiles ns spec")
      case True
      then have "\<not> usable_base spec n s" for s using Some by (auto simp: usable_base_def)
      then show ?thesis using "2.IH"(2)[OF Some True] Some True by (auto split: option.splits)
    next
      case False
      then have use: "usable_base spec n s \<longleftrightarrow> s = ns" for s using Some by (auto simp: usable_base_def)
      show ?thesis
      proof (cases "case best of None \<Rightarrow> True | Some (_, bs) \<Rightarrow> nominal_ms ns > nominal_ms bs")
        case True
        then show ?thesis using "2.IH"(3)[OF Some False True] Some False use
          by (fastforce split: option.splits)
      next
        case keep: False
        then show ?thesis using "2.IH"(4)[OF Some False keep] Some False use
          by (fastforce split: option.splits)
      qed
    qed
  qed
qed

lemma resolve_cases:
  assumes "resolve registry ex mt iv purpose = Inr route"
  obtains caps natives spec p where "registry (py_lower (py_strip ex)) = Some caps"
    "native_intervals caps (py_lower (py_strip mt)) p = Inr natives" "rt_purpose route = p"
    "parse_interval_spec (py_strip iv) = Some spec" "rt_spec route = spec" "canonical_interval route = canonical spec"
    "(\<exists>n\<in>set natives. intervals_equivalent (py_strip iv) n \<and> rt_kind route = NATIVE
        \<and> source_interval route = Inr n)
     \<or> (\<exists>n ns. n \<in> set natives \<and> usable_base spec n ns \<and> rt_kind route = DERIVED
        \<and> source_interval route = Inr n
        \<and> (\<forall>x\<in>set natives. \<not> intervals_equivalent (py_strip iv) x)
        \<and> (\<forall>x\<in>set natives. \<forall>s. usable_base spec x s \<longrightarrow> nominal_ms s \<le> nominal_ms ns))"
proof -
  let ?iv = "py_strip iv"
  obtain p where p: "purpose_of_arg purpose = Inr p"
    using assms by (auto simp: resolve_def Let_def bindr_eq_Inr)
  obtain spec where sp: "parse_interval_spec ?iv = Some spec"
    using assms p by (cases "parse_interval_spec ?iv") (simp_all add: resolve_def Let_def)
  obtain caps where c: "registry (py_lower (py_strip ex)) = Some caps"
    using assms p sp by (cases "registry (py_lower (py_strip ex))") (simp_all add: resolve_def Let_def get_capabilities_def)
  obtain natives where n: "native_intervals caps (py_lower (py_strip mt)) p = Inr natives"
    using assms p sp c by (cases "native_intervals caps (py_lower (py_strip mt)) p")
      (simp_all add: resolve_def Let_def get_capabilities_def)
  define r0 where "r0 = \<lparr>rt_exchange = py_lower (py_strip ex), rt_market_type = py_lower (py_strip mt),
    requested_interval = ?iv, canonical_interval = canonical spec, rt_purpose = p, rt_kind = NATIVE,
    rt_spec = spec, native_interval = None, base_interval = None\<rparr>"
  have R: "(case find (\<lambda>n. intervals_equivalent ?iv n) natives of
      Some n \<Rightarrow> Inr (r0\<lparr>native_interval := Some n\<rparr>)
    | None \<Rightarrow> (case best_base_from spec natives None of
        None \<Rightarrow> Inl (IntervalResolutionError NO_EXACT_BASE)
      | Some (b, _) \<Rightarrow> Inr (r0\<lparr>rt_kind := DERIVED, base_interval := Some b\<rparr>))) = Inr route"
    using assms unfolding r0_def by (simp add: resolve_def Let_def get_capabilities_def p sp c n)
  show thesis
  proof (cases "find (intervals_equivalent ?iv) natives")
    case (Some x)
    then have "x \<in> set natives" "intervals_equivalent ?iv x"
      by (auto simp: find_Some_iff)
    then show thesis using R Some by (intro that[OF c n _ sp]) (auto simp: source_interval_def r0_def)
  next
    case None
    then have no: "\<forall>x\<in>set natives. \<not> intervals_equivalent ?iv x" by (simp add: find_None_iff)
    obtain b bs where bb: "best_base_from spec natives None = Some (b, bs)"
      using R None by (cases "best_base_from spec natives None") auto
    have "b \<in> set natives \<and> usable_base spec b bs
        \<and> (\<forall>x\<in>set natives. \<forall>s. usable_base spec x s \<longrightarrow> nominal_ms s \<le> nominal_ms bs)"
      using best_base_from_spec[where spec = spec and ns = natives and best = None] by (simp add: bb)
    then show thesis using R None bb no by (intro that[OF c n _ sp] disjI2 exI[of _ b] exI[of _ bs]) (auto simp: source_interval_def r0_def)
  qed
qed

section \<open>Properties of routing and work planning\<close>

text \<open>A resolved route can rebuild what was asked for: its source is one of the intervals the
  exchange declares for that market and purpose, every boundary of the requested interval is a
  boundary of the source, a native route has exactly the requested grid, and a derived route is
  taken only when no declared interval is equivalent, and then from the widest usable base.\<close>

lemma route_reconstructs:
  assumes "resolve registry ex mt iv purpose = Inr route"
  shows "\<exists>caps natives src sp. registry (py_lower (py_strip ex)) = Some caps
    \<and> native_intervals caps (py_lower (py_strip mt)) (rt_purpose route) = Inr natives
    \<and> source_interval route = Inr src \<and> src \<in> set natives \<and> parse_interval_spec src = Some sp
    \<and> boundaries (rt_spec route) \<subseteq> boundaries sp
    \<and> (if rt_kind route = NATIVE
       then \<forall>t. floor_ms sp t = floor_ms (rt_spec route) t \<and> next_ms sp t = next_ms (rt_spec route) t
       else list_all (\<lambda>n. \<not> intervals_equivalent (py_strip iv) n
         \<and> (\<forall>s. usable_base (rt_spec route) n s \<longrightarrow> nominal_ms s \<le> nominal_ms sp)) natives)"
  using assms
proof (cases rule: resolve_cases)
  case (1 caps natives spec p)
  note wf = parse_wf_spec[OF 1(4)]
  from 1(7) show ?thesis
  proof (elim disjE bexE exE conjE)
    fix n assume n: "n \<in> set natives" "intervals_equivalent (py_strip iv) n" "rt_kind route = NATIVE"
      "source_interval route = Inr n"
    then obtain sp where sp: "parse_interval_spec n = Some sp" "signature sp = signature spec"
      using 1(4) by (auto simp: intervals_equivalent_def split: option.splits)
    note same = boundary_signature[OF parse_wf_spec[OF sp(1)] wf sp(2)]
      floor_ms_signature[OF parse_wf_spec[OF sp(1)] wf sp(2)]
    show ?thesis using 1 n sp same by (intro exI[of _ caps] exI[of _ natives] exI[of _ n] exI[of _ sp]) auto
  next
    fix n ns assume n: "n \<in> set natives" "usable_base spec n ns" "rt_kind route = DERIVED"
      "source_interval route = Inr n" "\<forall>x\<in>set natives. \<not> intervals_equivalent (py_strip iv) x"
      "\<forall>x\<in>set natives. \<forall>s. usable_base spec x s \<longrightarrow> nominal_ms s \<le> nominal_ms ns"
    have sp: "parse_interval_spec n = Some ns" "interval_tiles ns spec" using n(2) by (auto simp: usable_base_def)
    have "boundaries spec \<subseteq> boundaries ns" by (rule tiles_boundaries[OF parse_wf_spec[OF sp(1)] wf sp(2)])
    then show ?thesis using 1 n sp
      by (intro exI[of _ caps] exI[of _ natives] exI[of _ n] exI[of _ ns]) (auto simp: list_all_iff)
  qed
qed

lemma ceil_div_covers: "0 < s \<Longrightarrow> x \<le> (x + s - 1) div s * (s::int)"
  using div_bounds[of s "x + s - 1"] by (simp add: algebra_simps)

lemma bucket_length:
  assumes "wf_spec sp" "boundary sp b" "next_ms sp b = Inr e"
  shows "e - b \<le> (if alignment sp = CALENDAR_MONTH then spec_count sp * 31 * day_ms else nominal_ms sp)"
proof (cases "alignment sp = CALENDAR_MONTH")
  case True
  obtain n where n: "b = month_start_ms n" by (rule boundary_monthE[OF assms(2) True])
  have "e = month_start_ms (n + spec_count sp)"
    using assms(3) True n
    by (auto simp: next_ms_def shift_calendar_month_open_ms_def bindr_eq_Inr
        dest!: dt_month_of_ms_Inr dt_month_start_ms_Inr)
  then show ?thesis using month_start_ms_span[of "spec_count sp" n, OF less_imp_le[OF wf_specD(2)[OF assms(1)]]] True n by simp
qed (use assms in \<open>simp add: next_ms_def\<close>)

lemma source_factor_resolved:
  assumes "resolve registry ex mt iv purpose = Inr route"
  shows "\<exists>f src sp. source_factor route = Inr f \<and> 1 \<le> f \<and> source_interval route = Inr src
    \<and> parse_interval_spec src = Some sp
    \<and> (\<forall>b e. boundary (rt_spec route) b \<and> next_ms (rt_spec route) b = Inr e \<and> rt_kind route = DERIVED
        \<longrightarrow> e - b \<le> f * nominal_ms sp)"
  using assms
proof (cases rule: resolve_cases)
  case (1 caps natives spec p)
  note wf = parse_wf_spec[OF 1(4)]
  from 1(7) show ?thesis
  proof (elim disjE bexE exE conjE)
    fix n assume n: "n \<in> set natives" "intervals_equivalent (py_strip iv) n" "rt_kind route = NATIVE"
      "source_interval route = Inr n"
    then obtain sp where "parse_interval_spec n = Some sp"
      by (auto simp: intervals_equivalent_def split: option.splits)
    then show ?thesis using n by (simp add: source_factor_def)
  next
    fix n ns assume n: "n \<in> set natives" "usable_base spec n ns" "rt_kind route = DERIVED"
      "source_interval route = Inr n"
    have ns: "parse_interval_spec n = Some ns" using n(2) by (simp add: usable_base_def)
    let ?s = "nominal_ms ns"
    have s: "0 < ?s" using parse_wf_spec[OF ns] by simp
    let ?nf = "max 1 ((nominal_ms spec + ?s - 1) div ?s)"
    let ?mf = "(spec_count spec * 31 * day_ms + ?s - 1) div ?s"
    define f where "f = (if alignment spec = CALENDAR_MONTH then max ?nf ?mf else ?nf)"
    have f: "source_factor route = Inr f"
      using n ns s 1(5,6) canonical_parses[OF 1(4)]
      by (simp add: source_factor_def parse_interval_ms_def parse_monthly_count_def Let_def f_def MAX_MONTH_DAYS_def)
    have "nominal_ms spec \<le> f * ?s"
    proof -
      have "nominal_ms spec \<le> (nominal_ms spec + ?s - 1) div ?s * ?s" by (rule ceil_div_covers[OF s])
      also have "\<dots> \<le> f * ?s" using s by (intro mult_right_mono) (auto simp: f_def)
      finally show ?thesis .
    qed
    moreover have "spec_count spec * 31 * day_ms \<le> f * ?s" if "alignment spec = CALENDAR_MONTH"
    proof -
      have "spec_count spec * 31 * day_ms \<le> ?mf * ?s" by (rule ceil_div_covers[OF s])
      also have "\<dots> \<le> f * ?s" using s that by (intro mult_right_mono) (auto simp: f_def)
      finally show ?thesis .
    qed
    ultimately have "e - b \<le> f * ?s" if "boundary spec b" "next_ms spec b = Inr e" for b e
      using bucket_length[OF wf that] by (auto split: if_splits)
    moreover have "1 \<le> f" by (auto simp: f_def le_max_iff_disj)
    ultimately show ?thesis using f n ns 1(5) by auto
  qed
qed

text \<open>Work planning on a resolved route never raises and is budget-safe: the planned source
  rows stay within a given budget, no more bars are planned than requested, the plan falls short
  only when one more padded target bar would exceed the budget, and on a derived route the
  source factor covers even the longest target bucket (calendar months included).\<close>

lemma work_plan_budget:
  assumes "resolve registry ex mt iv purpose = Inr route"
  shows "\<exists>p src sp. build_interval_work_plan route target budget padding = Inr p
    \<and> source_interval route = Inr src \<and> parse_interval_spec src = Some sp
    \<and> 0 \<le> effective_target_bars p \<and> effective_target_bars p \<le> max 0 target
    \<and> (case source_row_budget p of None \<Rightarrow> effective_target_bars p = max 0 target
       | Some b \<Rightarrow> planned_source_rows p \<le> b
         \<and> (budget_limited p \<longrightarrow> b < (effective_target_bars p + 1 + source_padding_bars p) * source_factor_of p))
    \<and> (\<forall>b e. boundary (rt_spec route) b \<and> next_ms (rt_spec route) b = Inr e \<and> rt_kind route = DERIVED
        \<longrightarrow> e - b \<le> source_factor_of p * nominal_ms sp)"
proof -
  obtain f src sp where f: "source_factor route = Inr f" "1 \<le> f" "source_interval route = Inr src"
    "parse_interval_spec src = Some sp"
    "\<forall>b e. boundary (rt_spec route) b \<and> next_ms (rt_spec route) b = Inr e \<and> rt_kind route = DERIVED
        \<longrightarrow> e - b \<le> f * nominal_ms sp"
    using source_factor_resolved[OF assms] by blast
  define pad where "pad = (if rt_kind route = DERIVED then max 0 padding else 0)"
  have pad: "0 \<le> pad" by (simp add: pad_def)
  define bud where "bud = map_option (max 0) budget"
  define eff where "eff = (case bud of None \<Rightarrow> max 0 target
    | Some b \<Rightarrow> min (max 0 target) (max 0 (b div f - pad)))"
  define planned where "planned = (if eff > 0 then (eff + pad) * f else 0)"
  define p where "p = \<lparr>requested_target_bars = max 0 target, effective_target_bars = eff,
    wp_base_interval = src, source_factor_of = f, source_padding_bars = pad, planned_source_rows = planned,
    source_row_budget = bud, budget_limited = (eff < max 0 target),
    wp_derived = (rt_kind route = DERIVED)\<rparr>"
  have b: "build_interval_work_plan route target budget padding = Inr p"
    by (simp only: build_interval_work_plan_def f(1,3) Let_def bindr_Inr p_def eff_def planned_def pad_def bud_def)
  have lim: "planned \<le> x \<and> (eff < max 0 target \<longrightarrow> x < (eff + 1 + pad) * f)"
    if "bud = Some x" for x
  proof -
    have x: "0 \<le> x" and e: "eff = min (max 0 target) (max 0 (x div f - pad))" using that by (auto simp: eff_def bud_def)
    have f0: "0 < f" using f(2) by simp
    have "(eff + pad) * f \<le> x" if "eff > 0"
    proof -
      have "eff + pad \<le> x div f" using that e by linarith
      then show ?thesis by (simp only: fits_div[OF f0])
    qed
    moreover have "x < (eff + 1 + pad) * f" if "eff < max 0 target"
    proof -
      have "\<not> eff + 1 + pad \<le> x div f" using that e by linarith
      then show ?thesis by (simp only: fits_div[OF f0] not_le)
    qed
    ultimately show ?thesis using x by (simp add: planned_def)
  qed
  have "0 \<le> eff" "eff \<le> max 0 target" by (auto simp: eff_def split: option.split)
  moreover have "bud = None \<Longrightarrow> eff = max 0 target" by (simp add: eff_def)
  ultimately have "0 \<le> effective_target_bars p \<and> effective_target_bars p \<le> max 0 target
    \<and> (case source_row_budget p of None \<Rightarrow> effective_target_bars p = max 0 target
       | Some b \<Rightarrow> planned_source_rows p \<le> b
         \<and> (budget_limited p \<longrightarrow> b < (effective_target_bars p + 1 + source_padding_bars p) * source_factor_of p))"
    using lim by (cases bud) (simp_all add: p_def)
  moreover have "source_factor_of p = f" by (simp add: p_def)
  ultimately show ?thesis using b f(3,4,5) by blast
qed

definition sample_registry :: "string \<rightharpoonup> exchange_capabilities" where
  "sample_registry e = (if e = ''binance'' then Some \<lparr>capability_schema_version = 2,
      channel_capability = Some (\<lambda>m. Some \<lparr>ch_history = True, ch_realtime = True\<rparr>),
      kline_intervals = Some (\<lambda>m h. [''1m'', ''1h'', ''60m'', ''1d'']), native_intervals_attr = []\<rparr>
    else None)"

definition sample_route :: "interval_route" where
  "sample_route = projr (resolve sample_registry ''Binance'' ''swap'' '' 2M'' (PurposeName ''History''))"

lemma sample_resolves:
  "resolve sample_registry ''Binance'' ''swap'' '' 2M'' (PurposeName ''History'') = Inr sample_route"
  "rt_kind sample_route = DERIVED" "base_interval sample_route = Some ''1d''"
proof -
  have "isl (resolve sample_registry ''Binance'' ''swap'' '' 2M'' (PurposeName ''History'')) = False" by code_simp
  then show "resolve sample_registry ''Binance'' ''swap'' '' 2M'' (PurposeName ''History'') = Inr sample_route"
    by (simp add: sample_route_def sum.collapse)
  show "rt_kind sample_route = DERIVED" "base_interval sample_route = Some ''1d''" by code_simp+
qed

lemma route_reconstructs_example:
  "source_interval sample_route = Inr ''1d'' \<and> (\<exists>sp. parse_interval_spec ''1d'' = Some sp
    \<and> boundaries (rt_spec sample_route) \<subseteq> boundaries sp)"
  using route_reconstructs[OF sample_resolves(1)] sample_resolves(2,3) by (auto simp: source_interval_def)

lemma work_plan_budget_example:
  "\<exists>p. build_interval_work_plan sample_route 100 (Some 1000) 3 = Inr p
    \<and> effective_target_bars p \<le> 100"
  using work_plan_budget[OF sample_resolves(1), of 100 "Some 1000" 3] by auto

end
