(* ===== verification/BarState.thy ===== *)
theory BarState
  imports TimeBucket "HOL-Library.Multiset"
begin

text \<open>
  The accumulation state of forming bars (\<open>backend/app/data_engine/bar_aggregator/bar_state.py\<close>,
  with the types of \<open>models.py\<close> beside it): the two merge strategies, the engine with its
  active and closed dictionaries, and its eviction at the two limits. Prices and volumes are
  values of a type \<open>'f\<close>; the float operations the code applies to them are a parameter.
  The wall clock is an argument.
\<close>

section \<open>Data\<close>

text \<open>
  The operations on floats the code uses: literal zero, comparison, equality, addition, the
  built-in \<open>sum\<close> of a list, and \<open>round(x, 8)\<close>.
\<close>

record 'f float_ops =
  f_zero :: 'f
  f_lt :: "'f \<Rightarrow> 'f \<Rightarrow> bool"
  f_eq :: "'f \<Rightarrow> 'f \<Rightarrow> bool"
  f_add :: "'f \<Rightarrow> 'f \<Rightarrow> 'f"
  f_sum :: "'f list \<Rightarrow> 'f"
  f_round8 :: "'f \<Rightarrow> 'f"

text \<open>\<open>max(a, b)\<close> and \<open>min(a, b)\<close> keep the first of equal arguments; over a list they fold.\<close>

definition py_max :: "'f float_ops \<Rightarrow> 'f \<Rightarrow> 'f \<Rightarrow> 'f" where
  "py_max F a b = (if f_lt F a b then b else a)"

definition py_min :: "'f float_ops \<Rightarrow> 'f \<Rightarrow> 'f \<Rightarrow> 'f" where
  "py_min F a b = (if f_lt F b a then b else a)"

definition py_max_list :: "'f float_ops \<Rightarrow> 'f list \<Rightarrow> 'f" where
  "py_max_list F xs = foldl (py_max F) (hd xs) (tl xs)"

definition py_min_list :: "'f float_ops \<Rightarrow> 'f list \<Rightarrow> 'f" where
  "py_min_list F xs = foldl (py_min F) (hd xs) (tl xs)"

datatype bar_input_source = SRC_REALTIME | SRC_BACKFILL | SRC_CORRECTION | SRC_MANUAL | SRC_ADAPTER

datatype merge_mode = SNAPSHOT | INCREMENTAL | COMPONENT | PRICE_ONLY

datatype bar_status = FORMING | CLOSED | EXPIRED

datatype bar_finality = PROVISIONAL | AUTHORITATIVE

datatype bar_state_change = CREATED | UPDATED | AMENDED | NO_CHANGE

datatype enhanced_field = Quote_volume | Trades | Taker_buy_base | Taker_buy_quote

text \<open>An input; \<open>in_key\<close> is its \<open>input_key\<close> property (route, interval and open time).\<close>

record 'f bar_input =
  in_source_interval :: string
  in_open_time_ms :: int
  in_close_time_ms :: int
  in_open :: 'f
  in_high :: 'f
  in_low :: 'f
  in_close :: 'f
  in_volume :: 'f
  in_source :: bar_input_source
  in_is_closed :: bool
  in_merge_mode :: "merge_mode option"
  in_quote_volume :: 'f
  in_trades :: int
  in_taker_buy_base :: 'f
  in_taker_buy_quote :: 'f
  in_enhanced_fields :: "enhanced_field set"
  in_sequence :: "int option"
  in_key :: string

text \<open>The snapshot of one source component (a dictionary in the code).\<close>

record 'f snapshot =
  sn_open_time_ms :: int
  sn_close_time_ms :: int
  sn_open :: 'f
  sn_high :: 'f
  sn_low :: 'f
  sn_close :: 'f
  sn_volume :: 'f
  sn_quote_volume :: 'f
  sn_trades :: int
  sn_taker_buy_base :: 'f
  sn_taker_buy_quote :: 'f
  sn_enhanced_fields :: "enhanced_field set"
  sn_is_closed :: bool
  sn_sequence :: "int option"

record 'f bar_state =
  bs_symbol :: string
  bs_interval :: string
  bucket_start_ms :: int
  bucket_end_ms :: int
  bs_open :: 'f
  bs_high :: 'f
  bs_low :: 'f
  bs_close :: 'f
  bs_volume :: 'f
  bs_exchange :: string
  bs_market_type :: string
  bs_quote_volume :: 'f
  bs_trades :: int
  bs_taker_buy_base :: 'f
  bs_taker_buy_quote :: 'f
  bs_enhanced_fields :: "enhanced_field set"
  tick_count :: int
  first_input_at_ms :: int
  last_input_at_ms :: int
  last_close_received :: bool
  requires_authoritative_close :: bool
  finality :: bar_finality
  close_reason :: "string option"
  source_snapshots :: "(string \<times> 'f snapshot) list"
  status :: bar_status
  created_at_ms :: int
  updated_at_ms :: int

section \<open>Merging\<close>

definition effective_merge_mode :: "'f bar_input \<Rightarrow> merge_mode" where
  "effective_merge_mode i = (case in_merge_mode i of
     Some m \<Rightarrow> m
   | None \<Rightarrow> if in_source_interval i = ''tick'' then INCREMENTAL else SNAPSHOT)"

text \<open>The four additive fields as a snapshot replaces them, and as a tick adds to them.\<close>

definition replace_additive :: "'f float_ops \<Rightarrow> 'f bar_input \<Rightarrow> 'f bar_state \<Rightarrow> 'f bar_state" where
  "replace_additive F i s = s\<lparr>bs_volume := f_round8 F (in_volume i),
     bs_quote_volume := f_round8 F (in_quote_volume i), bs_trades := in_trades i,
     bs_taker_buy_base := f_round8 F (in_taker_buy_base i),
     bs_taker_buy_quote := f_round8 F (in_taker_buy_quote i),
     bs_enhanced_fields := in_enhanced_fields i\<rparr>"

definition add_additive :: "'f float_ops \<Rightarrow> 'f bar_input \<Rightarrow> 'f bar_state \<Rightarrow> 'f bar_state" where
  "add_additive F i s = s\<lparr>bs_volume := f_round8 F (f_add F (bs_volume s) (in_volume i)),
     bs_quote_volume := f_round8 F (f_add F (bs_quote_volume s) (in_quote_volume i)),
     bs_trades := bs_trades s + in_trades i,
     bs_taker_buy_base := f_round8 F (f_add F (bs_taker_buy_base s) (in_taker_buy_base i)),
     bs_taker_buy_quote := f_round8 F (f_add F (bs_taker_buy_quote s) (in_taker_buy_quote i)),
     bs_enhanced_fields := bs_enhanced_fields s \<inter> in_enhanced_fields i\<rparr>"

definition zero_additive :: "'f float_ops \<Rightarrow> 'f bar_state \<Rightarrow> 'f bar_state" where
  "zero_additive F s = s\<lparr>bs_volume := f_zero F, bs_quote_volume := f_zero F, bs_trades := 0,
     bs_taker_buy_base := f_zero F, bs_taker_buy_quote := f_zero F, bs_enhanced_fields := {}\<rparr>"

definition standard_merge :: "'f float_ops \<Rightarrow> int \<Rightarrow> 'f bar_state \<Rightarrow> 'f bar_input \<Rightarrow> bool \<Rightarrow> 'f bar_state" where
  "standard_merge F now s i is_new =
     (let m = effective_merge_mode i;
          s1 = (if is_new then
              (let s0 = s\<lparr>bs_open := in_open i, bs_high := in_high i, bs_low := in_low i, bs_close := in_close i\<rparr>;
                   s0' = (if m = PRICE_ONLY then zero_additive F s0 else replace_additive F i s0) in
               s0'\<lparr>tick_count := 1, first_input_at_ms := in_open_time_ms i,
                 last_input_at_ms := in_open_time_ms i, created_at_ms := now\<rparr>)
            else
              (let s0 = (if m = SNAPSHOT then s\<lparr>bs_open := in_open i\<rparr> else s);
                   s0 = s0\<lparr>bs_high := py_max F (bs_high s) (in_high i),
                     bs_low := py_min F (bs_low s) (in_low i), bs_close := in_close i\<rparr>;
                   s0' = (if m = INCREMENTAL then add_additive F i s0
                     else if m = PRICE_ONLY then s0 else replace_additive F i s0) in
               s0'\<lparr>tick_count := tick_count s0' + 1, last_input_at_ms := in_open_time_ms i\<rparr>));
          s2 = (if m = SNAPSHOT \<or> m = INCREMENTAL then s1\<lparr>last_close_received := in_is_closed i\<rparr> else s1)
      in s2\<lparr>updated_at_ms := now\<rparr>)"

subsection \<open>Components\<close>

definition snapshot_from_input :: "'f bar_input \<Rightarrow> 'f snapshot" where
  "snapshot_from_input i = \<lparr>sn_open_time_ms = in_open_time_ms i, sn_close_time_ms = in_close_time_ms i,
     sn_open = in_open i, sn_high = in_high i, sn_low = in_low i, sn_close = in_close i,
     sn_volume = in_volume i, sn_quote_volume = in_quote_volume i, sn_trades = in_trades i,
     sn_taker_buy_base = in_taker_buy_base i, sn_taker_buy_quote = in_taker_buy_quote i,
     sn_enhanced_fields = in_enhanced_fields i, sn_is_closed = in_is_closed i,
     sn_sequence = in_sequence i\<rparr>"

text \<open>\<open>candidate == existing\<close> of two dictionaries, floats compared as floats.\<close>

definition snapshot_eq :: "'f float_ops \<Rightarrow> 'f snapshot \<Rightarrow> 'f snapshot \<Rightarrow> bool" where
  "snapshot_eq F a b \<longleftrightarrow> sn_open_time_ms a = sn_open_time_ms b \<and> sn_close_time_ms a = sn_close_time_ms b
     \<and> f_eq F (sn_open a) (sn_open b) \<and> f_eq F (sn_high a) (sn_high b) \<and> f_eq F (sn_low a) (sn_low b)
     \<and> f_eq F (sn_close a) (sn_close b) \<and> f_eq F (sn_volume a) (sn_volume b)
     \<and> f_eq F (sn_quote_volume a) (sn_quote_volume b) \<and> sn_trades a = sn_trades b
     \<and> f_eq F (sn_taker_buy_base a) (sn_taker_buy_base b) \<and> f_eq F (sn_taker_buy_quote a) (sn_taker_buy_quote b)
     \<and> sn_enhanced_fields a = sn_enhanced_fields b \<and> sn_is_closed a = sn_is_closed b
     \<and> sn_sequence a = sn_sequence b"

text \<open>\<open>a[field] < b[field]\<close> of an enhanced field.\<close>

definition field_lt :: "'f float_ops \<Rightarrow> 'f snapshot \<Rightarrow> 'f snapshot \<Rightarrow> enhanced_field \<Rightarrow> bool" where
  "field_lt F a b fld = (case fld of
     Trades \<Rightarrow> sn_trades a < sn_trades b
   | Quote_volume \<Rightarrow> f_lt F (sn_quote_volume a) (sn_quote_volume b)
   | Taker_buy_base \<Rightarrow> f_lt F (sn_taker_buy_base a) (sn_taker_buy_base b)
   | Taker_buy_quote \<Rightarrow> f_lt F (sn_taker_buy_quote a) (sn_taker_buy_quote b))"

definition is_monotonic_candidate :: "'f float_ops \<Rightarrow> 'f snapshot \<Rightarrow> 'f snapshot \<Rightarrow> bool" where
  "is_monotonic_candidate F existing candidate =
     (if sn_close_time_ms candidate \<noteq> sn_close_time_ms existing then False
      else if \<not> f_eq F (sn_open candidate) (sn_open existing) then False
      else if sn_is_closed existing \<and> \<not> sn_is_closed candidate then False
      else if f_lt F (sn_high candidate) (sn_high existing) then False
      else if f_lt F (sn_low existing) (sn_low candidate) then False
      else if f_lt F (sn_volume candidate) (sn_volume existing) then False
      else if \<not> sn_enhanced_fields existing \<subseteq> sn_enhanced_fields candidate then False
      else \<forall>fld\<in>sn_enhanced_fields existing. \<not> field_lt F candidate existing fld)"

definition has_monotonic_progress :: "'f float_ops \<Rightarrow> 'f snapshot \<Rightarrow> 'f snapshot \<Rightarrow> bool" where
  "has_monotonic_progress F existing candidate =
     (if \<not> sn_is_closed existing \<and> sn_is_closed candidate then True
      else if f_lt F (sn_high existing) (sn_high candidate) then True
      else if f_lt F (sn_low candidate) (sn_low existing) then True
      else if f_lt F (sn_volume existing) (sn_volume candidate) then True
      else \<exists>fld\<in>sn_enhanced_fields existing. field_lt F existing candidate fld)"

definition should_replace :: "'f float_ops \<Rightarrow> 'f snapshot \<Rightarrow> 'f snapshot \<Rightarrow> bool \<Rightarrow> bool" where
  "should_replace F existing candidate allow_correction =
     (if snapshot_eq F candidate existing then False
      else if allow_correction \<and> sn_close_time_ms candidate = sn_close_time_ms existing
        \<and> (case (sn_sequence existing, sn_sequence candidate) of
             (Some e, Some c) \<Rightarrow> c > e | _ \<Rightarrow> False) then True
      else if \<not> is_monotonic_candidate F existing candidate then False
      else case (sn_sequence existing, sn_sequence candidate) of
          (Some e, Some c) \<Rightarrow> if c < e then False else if c > e then True
            else has_monotonic_progress F existing candidate
        | _ \<Rightarrow> has_monotonic_progress F existing candidate)"

text \<open>Tuples of integers compare lexicographically; a missing sequence sorts as -1.\<close>

definition sequence_or :: "int option \<Rightarrow> int" where
  "sequence_or q = (case q of Some n \<Rightarrow> n | None \<Rightarrow> -1)"

fun insert_by :: "('a \<Rightarrow> 'a \<Rightarrow> bool) \<Rightarrow> 'a \<Rightarrow> 'a list \<Rightarrow> 'a list" where
  "insert_by lt x [] = [x]"
| "insert_by lt x (y # ys) = (if lt y x then y # insert_by lt x ys else x # y # ys)"

text \<open>A stable sort by a strict order on keys, as \<open>sorted\<close> is.\<close>

definition sort_by :: "('a \<Rightarrow> 'a \<Rightarrow> bool) \<Rightarrow> 'a list \<Rightarrow> 'a list" where
  "sort_by lt xs = foldr (insert_by lt) xs []"

definition span_lt :: "'f snapshot \<Rightarrow> 'f snapshot \<Rightarrow> bool" where
  "span_lt a b = (sn_open_time_ms a < sn_open_time_ms b
     \<or> sn_open_time_ms a = sn_open_time_ms b \<and> sn_close_time_ms a < sn_close_time_ms b)"

definition rebuild_lt :: "'f snapshot \<Rightarrow> 'f snapshot \<Rightarrow> bool" where
  "rebuild_lt a b = (span_lt a b \<or> \<not> span_lt b a \<and> sequence_or (sn_sequence a) < sequence_or (sn_sequence b))"

fun contiguous :: "'f snapshot list \<Rightarrow> bool" where
  "contiguous (p # c # rest) = (sn_open_time_ms c = sn_close_time_ms p + 1 \<and> contiguous (c # rest))"
| "contiguous _ = True"

definition complete_coverage :: "'f bar_state \<Rightarrow> bool" where
  "complete_coverage s =
     (let ordered = sort_by span_lt (map snd (source_snapshots s)) in
      if ordered = [] \<or> \<not> list_all sn_is_closed ordered then False
      else if sn_open_time_ms (hd ordered) \<noteq> bucket_start_ms s then False
      else if sn_close_time_ms (last ordered) + 1 < bucket_end_ms s then False
      else contiguous ordered)"

definition rebuild_from :: "'f float_ops \<Rightarrow> int \<Rightarrow> bool \<Rightarrow> 'f snapshot list \<Rightarrow> 'f bar_state \<Rightarrow> 'f bar_state" where
  "rebuild_from F now is_new ordered s =
     (let first = hd ordered; lst = last ordered;
          fields = \<Inter> (set (map sn_enhanced_fields ordered));
          contiguous_components = (sn_open_time_ms first = bucket_start_ms s \<and> contiguous ordered);
          covers = (sn_close_time_ms lst + 1 \<ge> bucket_end_ms s \<or> \<not> sn_is_closed lst)
      in s\<lparr>bs_open := sn_open first, bs_high := py_max_list F (map sn_high ordered),
        bs_low := py_min_list F (map sn_low ordered), bs_close := sn_close lst,
        bs_volume := f_round8 F (f_sum F (map sn_volume ordered)),
        bs_quote_volume := f_round8 F (f_sum F (map sn_quote_volume ordered)),
        bs_trades := sum_list (map sn_trades ordered),
        bs_taker_buy_base := f_round8 F (f_sum F (map sn_taker_buy_base ordered)),
        bs_taker_buy_quote := f_round8 F (f_sum F (map sn_taker_buy_quote ordered)),
        bs_enhanced_fields := (if \<not> contiguous_components \<or> \<not> covers then {} else fields),
        tick_count := int (length ordered), first_input_at_ms := sn_open_time_ms first,
        last_input_at_ms := sn_open_time_ms lst, last_close_received := sn_is_closed lst,
        created_at_ms := (if is_new \<and> created_at_ms s = 0 then now else created_at_ms s),
        updated_at_ms := now\<rparr>)"

text \<open>The merge and whether it stored the candidate (the code compares object identity).\<close>

definition component_merge :: "'f float_ops \<Rightarrow> int \<Rightarrow> 'f bar_state \<Rightarrow> 'f bar_input \<Rightarrow> bool \<Rightarrow>
    'f bar_state \<times> bool" where
  "component_merge F now s i is_new =
     (let candidate = snapshot_from_input i;
          allow = ((in_source i = SRC_BACKFILL \<or> in_source i = SRC_CORRECTION) \<and> in_is_closed i) in
      if (case map_of (source_snapshots s) (in_key i) of None \<Rightarrow> False
          | Some existing \<Rightarrow> \<not> should_replace F existing candidate allow)
      then (s, False)
      else let snaps = AList.update (in_key i) candidate (source_snapshots s) in
        (rebuild_from F now is_new (sort_by rebuild_lt (map snd snaps)) (s\<lparr>source_snapshots := snaps\<rparr>), True))"

section \<open>The engine\<close>

type_synonym bar_key = "string \<times> string \<times> string \<times> int"

record 'f bar_state_engine =
  max_active_bars :: nat
  max_closed_bars_in_memory :: nat
  eng_time_bucket :: time_bucket_engine
  eng_interval :: string
  merge_override :: "('f bar_state \<Rightarrow> 'f bar_input \<Rightarrow> bool \<Rightarrow> 'f bar_state) option"
  active :: "(bar_key \<times> 'f bar_state) list"
  closed :: "(bar_key \<times> 'f bar_state) list"
  evicted_closed :: "'f bar_state list"
  evicted_expired :: "'f bar_state list"

definition new_bar_state_engine :: "nat \<Rightarrow> nat \<Rightarrow> time_bucket_engine \<Rightarrow> string \<Rightarrow> 'f bar_state_engine" where
  "new_bar_state_engine amax cmax tb iv = \<lparr>max_active_bars = amax, max_closed_bars_in_memory = cmax,
     eng_time_bucket = tb, eng_interval = iv, merge_override = None, active = [], closed = [],
     evicted_closed = [], evicted_expired = []\<rparr>"

definition set_merge_strategy :: "('f bar_state \<Rightarrow> 'f bar_input \<Rightarrow> bool \<Rightarrow> 'f bar_state) \<Rightarrow>
    'f bar_state_engine \<Rightarrow> 'f bar_state_engine" where
  "set_merge_strategy m e = e\<lparr>merge_override := Some m\<rparr>"

definition is_component :: "'f bar_state_engine \<Rightarrow> 'f bar_input \<Rightarrow> bool" where
  "is_component e i = (merge_override e = None \<and> in_merge_mode i = Some COMPONENT)"

text \<open>\<open>_strategy_for(bar_input).apply(...)\<close>; a user's strategy overrides the shipped two, and the flag is false for an ignored component.\<close>

definition run_merge :: "'f float_ops \<Rightarrow> int \<Rightarrow> 'f bar_state_engine \<Rightarrow> 'f bar_state \<Rightarrow> 'f bar_input \<Rightarrow> bool \<Rightarrow>
    'f bar_state \<times> bool" where
  "run_merge F now e s i is_new =
     (case merge_override e of
        Some m \<Rightarrow> (m s i is_new, True)
      | None \<Rightarrow> if in_merge_mode i = Some COMPONENT then component_merge F now s i is_new
          else (standard_merge F now s i is_new, True))"

definition mark_authoritative :: "'f bar_input \<Rightarrow> 'f bar_state \<Rightarrow> 'f bar_state" where
  "mark_authoritative i s =
     (let m = effective_merge_mode i in
      if m = SNAPSHOT \<or> m = PRICE_ONLY then s\<lparr>requires_authoritative_close := True\<rparr> else s)"

definition fresh_state :: "'f float_ops \<Rightarrow> int \<Rightarrow> string \<Rightarrow> string \<Rightarrow> string \<Rightarrow> string \<Rightarrow> int \<Rightarrow> int \<Rightarrow> 'f bar_state" where
  "fresh_state F now symb iv ex mt b e = \<lparr>bs_symbol = symb, bs_interval = iv, bucket_start_ms = b,
     bucket_end_ms = e, bs_open = f_zero F, bs_high = f_zero F, bs_low = f_zero F, bs_close = f_zero F,
     bs_volume = f_zero F, bs_exchange = ex, bs_market_type = mt, bs_quote_volume = f_zero F,
     bs_trades = 0, bs_taker_buy_base = f_zero F, bs_taker_buy_quote = f_zero F,
     bs_enhanced_fields = {}, tick_count = 0, first_input_at_ms = 0, last_input_at_ms = 0,
     last_close_received = False, requires_authoritative_close = False, finality = PROVISIONAL,
     close_reason = None, source_snapshots = [], status = FORMING, created_at_ms = now,
     updated_at_ms = now\<rparr>"

definition same_symbol :: "string \<Rightarrow> string \<Rightarrow> string \<Rightarrow> bar_key \<Rightarrow> bool" where
  "same_symbol ex mt symb k = (case k of (e, m, s, _) \<Rightarrow> e = ex \<and> m = mt \<and> s = symb)"

definition symbol_keys :: "string \<Rightarrow> string \<Rightarrow> string \<Rightarrow> (bar_key \<times> 'f bar_state) list \<Rightarrow> bar_key list" where
  "symbol_keys ex mt symb d = filter (same_symbol ex mt symb) (map fst d)"

text \<open>One active bar evicted at capacity.\<close>

definition evict_active :: "int \<Rightarrow> bar_key \<Rightarrow> 'f bar_state_engine \<Rightarrow> 'f bar_state_engine" where
  "evict_active now k e =
     (case map_of (active e) k of None \<Rightarrow> e
      | Some s \<Rightarrow>
        if requires_authoritative_close s \<and> \<not> last_close_received s
        then e\<lparr>active := AList.delete k (active e), evicted_expired := evicted_expired e @
            [s\<lparr>close_reason := Some ''active_capacity_unconfirmed'', finality := PROVISIONAL,
               status := EXPIRED, updated_at_ms := now\<rparr>]\<rparr>
        else let s' = s\<lparr>status := CLOSED, close_reason := Some ''active_capacity_fallback'',
               finality := PROVISIONAL, updated_at_ms := now\<rparr> in
          e\<lparr>active := AList.delete k (active e), closed := AList.update k s' (closed e),
            evicted_closed := evicted_closed e @ [s']\<rparr>)"

definition enforce_active_limit :: "int \<Rightarrow> string \<Rightarrow> string \<Rightarrow> string \<Rightarrow> 'f bar_state_engine \<Rightarrow> 'f bar_state_engine" where
  "enforce_active_limit now ex mt symb e =
     (let ks = symbol_keys ex mt symb (active e) in
      foldl (\<lambda>e k. evict_active now k e) e (take (length ks - max_active_bars e) ks))"

definition evict_closed :: "bar_key \<Rightarrow> 'f bar_state_engine \<Rightarrow> 'f bar_state_engine" where
  "evict_closed k e =
     (case map_of (closed e) k of None \<Rightarrow> e
      | Some s \<Rightarrow> e\<lparr>closed := AList.delete k (closed e),
          evicted_expired := evicted_expired e @ [s\<lparr>status := EXPIRED\<rparr>]\<rparr>)"

definition enforce_closed_limit :: "string \<Rightarrow> string \<Rightarrow> string \<Rightarrow> 'f bar_state_engine \<Rightarrow> 'f bar_state_engine" where
  "enforce_closed_limit ex mt symb e =
     (let ks = symbol_keys ex mt symb (closed e) in
      foldl (\<lambda>e k. evict_closed k e) e (take (length ks - max_closed_bars_in_memory e) ks))"

definition norm :: "string \<Rightarrow> string" where
  "norm s = py_lower (py_strip s)"

definition apply_active :: "'f float_ops \<Rightarrow> int \<Rightarrow> bar_key \<Rightarrow> 'f bar_state \<Rightarrow> 'f bar_input \<Rightarrow> 'f bar_state_engine \<Rightarrow>
    'f bar_state_engine \<times> 'f bar_state \<times> bar_state_change" where
  "apply_active F now key s i e =
     (let (s1, stored) = run_merge F now e s i False; s2 = mark_authoritative i s1;
          e1 = e\<lparr>active := AList.update key s2 (active e)\<rparr> in
      if is_component e i \<and> map_of (source_snapshots s) (in_key i) \<noteq> None \<and> \<not> stored
      then (e1, s2, NO_CHANGE)
      else (e1\<lparr>active := od_move_to_end key (active e1)\<rparr>, s2, UPDATED))"

definition apply_closed :: "'f float_ops \<Rightarrow> int \<Rightarrow> bar_key \<Rightarrow> 'f bar_state \<Rightarrow> 'f bar_input \<Rightarrow> 'f bar_state_engine \<Rightarrow>
    'f bar_state_engine \<times> 'f bar_state \<times> bar_state_change" where
  "apply_closed F now key old i e =
     (if in_source i = SRC_BACKFILL \<or> in_source i = SRC_CORRECTION then
        let (s1, stored) = run_merge F now e old i True; s2 = s1\<lparr>status := CLOSED\<rparr>;
            s3 = (if in_merge_mode i \<noteq> Some COMPONENT \<or> complete_coverage s2
              then s2\<lparr>finality := AUTHORITATIVE, close_reason := Some ''backfill_amendment''\<rparr> else s2);
            e1 = e\<lparr>closed := AList.update key s3 (closed e)\<rparr> in
        if is_component e i \<and> map_of (source_snapshots old) (in_key i) \<noteq> None \<and> \<not> stored
           \<and> (finality old = AUTHORITATIVE) = (finality s3 = AUTHORITATIVE)
        then (e1, s3, NO_CHANGE) else (e1, s3, AMENDED)
      else (e, old, NO_CHANGE))"

definition apply_input :: "'f float_ops \<Rightarrow> int \<Rightarrow> string \<Rightarrow> string \<Rightarrow> string \<Rightarrow> int \<Rightarrow> 'f bar_input \<Rightarrow> 'f bar_state_engine \<Rightarrow>
    ('f bar_state_engine \<times> 'f bar_state \<times> bar_state_change) res" where
  "apply_input F now exchange market_type symb bucket i e =
     (let ex = norm exchange; mt = norm market_type; key = (ex, mt, symb, bucket) in
      case map_of (active e) key of
        Some s \<Rightarrow> Inr (apply_active F now key s i e)
      | None \<Rightarrow> (case map_of (closed e) key of
          Some old \<Rightarrow> Inr (apply_closed F now key old i e)
        | None \<Rightarrow>
          bindr (engine_bucket_range (eng_time_bucket e) bucket) (\<lambda>(b, stop).
            let s0 = fresh_state F now (py_strip (py_upper symb)) (eng_interval e) ex mt b stop;
                s1 = mark_authoritative i (fst (run_merge F now e s0 i True));
                e1 = e\<lparr>active := AList.update key s1 (active e)\<rparr>;
                e2 = enforce_active_limit now ex mt symb e1;
                s' = (case map_of (active e2) key of Some x \<Rightarrow> x
                  | None \<Rightarrow> (case map_of (closed e2) key of Some x \<Rightarrow> x | None \<Rightarrow> last (evicted_expired e2)))
            in Inr (e2, s', CREATED))))"

section \<open>Lifecycle and queries\<close>

definition close_bar :: "int \<Rightarrow> string \<Rightarrow> string \<Rightarrow> string \<Rightarrow> int \<Rightarrow> 'f bar_state_engine \<Rightarrow>
    'f bar_state_engine \<times> 'f bar_state option" where
  "close_bar now exchange market_type symb bucket e =
     (let ex = norm exchange; mt = norm market_type; key = (ex, mt, symb, bucket) in
      case map_of (active e) key of
        None \<Rightarrow> (e, None)
      | Some s \<Rightarrow> let s' = s\<lparr>status := CLOSED, updated_at_ms := now\<rparr>;
            e1 = e\<lparr>active := AList.delete key (active e), closed := AList.update key s' (closed e)\<rparr> in
          (enforce_closed_limit ex mt symb e1, Some s'))"

definition expire_bar :: "string \<Rightarrow> string \<Rightarrow> string \<Rightarrow> int \<Rightarrow> 'f bar_state_engine \<Rightarrow>
    'f bar_state_engine \<times> 'f bar_state option" where
  "expire_bar exchange market_type symb bucket e =
     (let key = (norm exchange, norm market_type, symb, bucket) in
      case map_of (active e) key of
        Some s \<Rightarrow> (e\<lparr>active := AList.delete key (active e)\<rparr>, Some (s\<lparr>status := EXPIRED\<rparr>))
      | None \<Rightarrow> (case map_of (closed e) key of
          Some s \<Rightarrow> (e\<lparr>closed := AList.delete key (closed e)\<rparr>, Some (s\<lparr>status := EXPIRED\<rparr>))
        | None \<Rightarrow> (e, None)))"

fun close_all :: "int \<Rightarrow> bar_key list \<Rightarrow> 'f bar_state_engine \<Rightarrow> 'f bar_state_engine \<times> 'f bar_state list" where
  "close_all now [] e = (e, [])"
| "close_all now ((ex, mt, symb, b) # ks) e =
     (let (e1, s) = close_bar now ex mt symb b e; (e2, rest) = close_all now ks e1 in
      (e2, (case s of None \<Rightarrow> rest | Some x \<Rightarrow> x # rest)))"

definition force_close_all_active :: "int \<Rightarrow> string \<Rightarrow> string \<Rightarrow> string \<Rightarrow> 'f bar_state_engine \<Rightarrow>
    'f bar_state_engine \<times> 'f bar_state list" where
  "force_close_all_active now exchange market_type symb e =
     close_all now (symbol_keys (norm exchange) (norm market_type) symb (active e)) e"

definition clear_symbol :: "string option \<Rightarrow> string option \<Rightarrow> string option \<Rightarrow> 'f bar_state_engine \<Rightarrow> 'f bar_state_engine" where
  "clear_symbol symb exchange market_type e =
     (case symb of
        None \<Rightarrow> e\<lparr>active := [], closed := []\<rparr>
      | Some s \<Rightarrow>
        let ex = (case exchange of Some x \<Rightarrow> if x = [] then None else Some (norm x) | None \<Rightarrow> None);
            mt = (case market_type of Some x \<Rightarrow> if x = [] then None else Some (norm x) | None \<Rightarrow> None);
            keep = (\<lambda>((a, b, c, d), v). c \<noteq> s \<or> (ex \<noteq> None \<and> Some a \<noteq> ex) \<or> (mt \<noteq> None \<and> Some b \<noteq> mt))
        in e\<lparr>active := filter keep (active e), closed := filter keep (closed e)\<rparr>)"

definition get_state :: "string \<Rightarrow> string \<Rightarrow> string \<Rightarrow> int \<Rightarrow> 'f bar_state_engine \<Rightarrow> 'f bar_state option" where
  "get_state exchange market_type symb bucket e =
     (let key = (norm exchange, norm market_type, symb, bucket) in
      case map_of (active e) key of Some s \<Rightarrow> Some s | None \<Rightarrow> map_of (closed e) key)"

definition get_all_active :: "string \<Rightarrow> string \<Rightarrow> string \<Rightarrow> 'f bar_state_engine \<Rightarrow> 'f bar_state list" where
  "get_all_active exchange market_type symb e =
     sort_key bucket_start_ms (map snd (filter (\<lambda>p. same_symbol (norm exchange) (norm market_type) symb (fst p)) (active e)))"

definition get_recent_closed :: "string \<Rightarrow> string \<Rightarrow> string \<Rightarrow> nat \<Rightarrow> 'f bar_state_engine \<Rightarrow> 'f bar_state list" where
  "get_recent_closed exchange market_type symb limit e =
     take limit (sort_key (\<lambda>s. - bucket_start_ms s)
       (map snd (filter (\<lambda>p. same_symbol (norm exchange) (norm market_type) symb (fst p)) (closed e))))"

definition get_latest_bar :: "string \<Rightarrow> string \<Rightarrow> string \<Rightarrow> 'f bar_state_engine \<Rightarrow> 'f bar_state option" where
  "get_latest_bar exchange market_type symb e =
     (let act = get_all_active exchange market_type symb e in
      if act \<noteq> [] then Some (last act)
      else case get_recent_closed exchange market_type symb 1 e of [] \<Rightarrow> None | s # _ \<Rightarrow> Some s)"

section \<open>Coverage\<close>

lemma mset_insert_by [simp]: "mset (insert_by lt x xs) = add_mset x (mset xs)"
  by (induction xs) auto

lemma mset_sort_by [simp]: "mset (sort_by lt xs) = mset xs"
  by (induction xs) (simp_all add: sort_by_def)

lemma set_sort_by [simp]: "set (sort_by lt xs) = set xs"
  by (metis mset_sort_by set_mset_mset)

definition spans :: "int \<Rightarrow> 'f snapshot \<Rightarrow> bool" where
  "spans t sn = (sn_open_time_ms sn \<le> t \<and> t \<le> sn_close_time_ms sn)"

lemma contiguous_later:
  assumes "contiguous (p # rest)" "list_all (\<lambda>x. sn_open_time_ms x \<le> sn_close_time_ms x) (p # rest)" "x \<in> set rest"
  shows "sn_close_time_ms p < sn_open_time_ms x"
  using assms
proof (induction rest arbitrary: p)
  case (Cons c rest)
  then show ?case by (cases "x = c") force+
qed simp

lemma contiguous_counts_one:
  assumes "contiguous xs" "xs \<noteq> []" "list_all (\<lambda>x. sn_open_time_ms x \<le> sn_close_time_ms x) xs"
    "sn_open_time_ms (hd xs) \<le> t" "t \<le> sn_close_time_ms (last xs)"
  shows "length (filter (spans t) xs) = 1"
  using assms
proof (induction xs)
  case (Cons p rest)
  show ?case
  proof (cases "t \<le> sn_close_time_ms p")
    case True
    have "\<not> spans t x" if "x \<in> set rest" for x
      using contiguous_later[OF Cons.prems(1,3) that] True by (simp add: spans_def)
    then have "filter (spans t) rest = []" by (simp add: filter_empty_conv)
    then show ?thesis using Cons.prems True by (simp add: spans_def[of t p])
  next
    case False
    then obtain c more where r: "rest = c # more" using Cons.prems by (cases rest) auto
    then have "length (filter (spans t) rest) = 1" using Cons False by (intro Cons.IH) auto
    then show ?thesis using False by (simp add: spans_def[of t p])
  qed
qed simp

text \<open>C27: The authority proof of a derived bar is real: when the code finds complete closed
  coverage, every component is closed and every millisecond of the target bucket lies in
  exactly one component, in whatever order the components arrived.\<close>

theorem coverage_partitions_bucket:
  assumes "complete_coverage s" and "bucket_start_ms s \<le> t" and "t < bucket_end_ms s"
    and "list_all (\<lambda>x. sn_open_time_ms x \<le> sn_close_time_ms x) (map snd (source_snapshots s))"
  shows "length (filter (spans t) (map snd (source_snapshots s))) = 1
    \<and> list_all sn_is_closed (map snd (source_snapshots s))"
proof -
  let ?o = "sort_by span_lt (map snd (source_snapshots s))"
  have c: "?o \<noteq> []" "list_all sn_is_closed ?o" "sn_open_time_ms (hd ?o) = bucket_start_ms s"
    "bucket_end_ms s \<le> sn_close_time_ms (last ?o) + 1" "contiguous ?o"
    using assms(1) unfolding complete_coverage_def Let_def by (simp_all split: if_splits)
  have "list_all (\<lambda>x. sn_open_time_ms x \<le> sn_close_time_ms x) ?o" using assms(4) by (simp add: list_all_iff)
  then have "length (filter (spans t) ?o) = 1"
    by (intro contiguous_counts_one) (use c assms(2,3) in auto)
  moreover have "mset (filter (spans t) ?o) = mset (filter (spans t) (map snd (source_snapshots s)))"
    by (simp only: mset_filter mset_sort_by)
  ultimately show ?thesis using c(2) by (metis mset_eq_length list_all_iff set_sort_by)
qed

text \<open>Concrete data for the checks by evaluation: prices in whole ticks.\<close>

definition tick_ops :: "int float_ops" where
  "tick_ops = \<lparr>f_zero = 0, f_lt = (<), f_eq = (=), f_add = (+), f_sum = sum_list, f_round8 = (\<lambda>x. x)\<rparr>"

definition component_input :: "int \<Rightarrow> int \<Rightarrow> bool \<Rightarrow> string \<Rightarrow> int bar_input" where
  "component_input b stop is_closed key = \<lparr>in_source_interval = ''1m'', in_open_time_ms = b, in_close_time_ms = stop,
     in_open = 10, in_high = 12, in_low = 9, in_close = 11, in_volume = 5, in_source = SRC_REALTIME,
     in_is_closed = is_closed, in_merge_mode = Some COMPONENT, in_quote_volume = 0, in_trades = 1,
     in_taker_buy_base = 0, in_taker_buy_quote = 0, in_enhanced_fields = {}, in_sequence = None, in_key = key\<rparr>"

definition two_minutes :: "int bar_state" where
  "two_minutes = (fresh_state tick_ops 0 ''BTCUSDT'' ''2m'' ''binance'' ''spot'' 0 120000)\<lparr>source_snapshots :=
     [(''b'', snapshot_from_input (component_input 60000 119999 True ''b'')),
      (''a'', snapshot_from_input (component_input 0 59999 True ''a''))]\<rparr>"

lemmas concrete_bar = two_minutes_def fresh_state_def component_input_def snapshot_from_input_def tick_ops_def

theorem coverage_partitions_bucket_witness:
  "length (filter (spans 70000) (map snd (source_snapshots two_minutes))) = 1
    \<and> list_all sn_is_closed (map snd (source_snapshots two_minutes))"
  by (rule coverage_partitions_bucket)
    (simp_all add: concrete_bar complete_coverage_def sort_by_def span_lt_def)

section \<open>Components never regress\<close>

lemma rebuild_keeps [simp]:
  "source_snapshots (rebuild_from F now b xs s) = source_snapshots s" "status (rebuild_from F now b xs s) = status s"
  "requires_authoritative_close (rebuild_from F now b xs s) = requires_authoritative_close s"
  by (simp_all add: rebuild_from_def Let_def)

lemma should_replace_closed:
  assumes "should_replace F e c allow" "sn_is_closed e" "allow \<longrightarrow> sn_is_closed c"
  shows "sn_is_closed c \<and> sn_close_time_ms c = sn_close_time_ms e"
  using assms
  by (auto simp: should_replace_def is_monotonic_candidate_def split: if_splits option.splits)

lemma component_merge_closed:
  assumes "map_of (source_snapshots s) k = Some e" "sn_is_closed e"
  shows "\<exists>c. map_of (source_snapshots (fst (component_merge F now s i b))) k = Some c \<and> sn_is_closed c
    \<and> sn_close_time_ms c = sn_close_time_ms e"
proof -
  let ?allow = "(in_source i = SRC_BACKFILL \<or> in_source i = SRC_CORRECTION) \<and> in_is_closed i"
  have cand: "sn_is_closed (snapshot_from_input i) = in_is_closed i" by (simp add: snapshot_from_input_def)
  show ?thesis
  proof (cases "k = in_key i \<and> should_replace F e (snapshot_from_input i) ?allow")
    case True
    have "sn_is_closed (snapshot_from_input i) \<and> sn_close_time_ms (snapshot_from_input i) = sn_close_time_ms e"
      by (rule should_replace_closed[of F e _ ?allow]) (use True assms(2) cand in auto)
    then show ?thesis using assms True by (auto simp: component_merge_def Let_def map_of_update)
  next
    case False
    then show ?thesis using assms by (auto simp: component_merge_def Let_def map_of_update)
  qed
qed

text \<open>C22: A closed component never reopens: through any sequence of component merges into a
  bucket (live updates, backfills, corrections, stale replays), a component that was once
  stored closed stays closed with the same end, whatever later inputs claim.\<close>

theorem closed_component_stays:
  assumes "map_of (source_snapshots s) k = Some e" and "sn_is_closed e"
    and "s' = foldl (\<lambda>s (now, i, is_new). fst (component_merge F now s i is_new)) s inputs"
  shows "\<exists>c. map_of (source_snapshots s') k = Some c \<and> sn_is_closed c \<and> sn_close_time_ms c = sn_close_time_ms e"
  using assms
proof (induction inputs arbitrary: s e s')
  case (Cons x inputs)
  obtain now i b where x: "x = (now, i, b)" by (cases x)
  obtain c where c: "map_of (source_snapshots (fst (component_merge F now s i b))) k = Some c" "sn_is_closed c"
    "sn_close_time_ms c = sn_close_time_ms e" using component_merge_closed[OF Cons.prems(1,2)] by blast
  from Cons.IH[OF c(1,2) refl] c(3) show ?case using Cons.prems(3) x by simp
qed simp

theorem closed_component_stays_witness:
  "\<exists>c. map_of (source_snapshots (foldl (\<lambda>s (now, i, is_new). fst (component_merge tick_ops now s i is_new)) two_minutes
        [(5, component_input 0 59999 False ''a'', False), (6, component_input 0 30000 True ''a'', False)])) ''a'' = Some c
    \<and> sn_is_closed c \<and> sn_close_time_ms c = 59999"
  using closed_component_stays[of two_minutes "''a''" "snapshot_from_input (component_input 0 59999 True ''a'')" _
      tick_ops "[(5, component_input 0 59999 False ''a'', False), (6, component_input 0 30000 True ''a'', False)]"]
  by (simp add: two_minutes_def) (simp add: component_input_def snapshot_from_input_def)

section \<open>The engine invariant\<close>

definition engine_inv :: "'f bar_state_engine \<Rightarrow> bool" where
  "engine_inv e \<longleftrightarrow> merge_override e = None \<and> od_wf (active e) \<and> od_wf (closed e)
     \<and> (\<forall>k. map_of (active e) k = None \<or> map_of (closed e) k = None)
     \<and> (\<forall>k s. map_of (active e) k = Some s \<longrightarrow> status s = FORMING)
     \<and> (\<forall>k s. map_of (closed e) k = Some s \<longrightarrow> status s = CLOSED)
     \<and> (\<forall>s\<in>set (evicted_closed e). status s = CLOSED \<and> finality s = PROVISIONAL
          \<and> \<not> (requires_authoritative_close s \<and> \<not> last_close_received s))
     \<and> (\<forall>s\<in>set (evicted_expired e). status s = EXPIRED)"

definition active_bounded :: "'f bar_state_engine \<Rightarrow> bool" where
  "active_bounded e \<longleftrightarrow> (\<forall>ex mt sy. length (symbol_keys ex mt sy (active e)) \<le> max_active_bars e)"

lemma run_merge_status: "merge_override e = None \<Longrightarrow> status (fst (run_merge F now e s i b)) = status s"
  by (auto simp: run_merge_def component_merge_def standard_merge_def replace_additive_def add_additive_def
      zero_additive_def Let_def)

lemma mark_status [simp]: "status (mark_authoritative i s) = status s"
  by (simp add: mark_authoritative_def Let_def)

lemma od_wf_filter: "od_wf d \<Longrightarrow> od_wf (filter P d)"
  by (induction d) (auto simp: od_wf_def)

lemma keys_delete: "map fst (AList.delete k d) = removeAll k (map fst d)"
  by (simp add: delete_keys)

lemma symbol_keys_cong: "map fst d = map fst d' \<Longrightarrow> symbol_keys ex mt sy d = symbol_keys ex mt sy d'"
  by (simp add: symbol_keys_def)

lemma symbol_keys_filter:
  "map fst d' = filter P (map fst d) \<Longrightarrow> symbol_keys ex mt sy d' = filter P (symbol_keys ex mt sy d)"
  by (simp add: symbol_keys_def conj_commute)

lemma evict_active_keys: "map fst (active (evict_active now k e)) = removeAll k (map fst (active e))"
proof (cases "map_of (active e) k")
  case None
  then have "k \<notin> set (map fst (active e))" by (simp add: map_of_eq_None_iff)
  then show ?thesis using None by (simp add: evict_active_def)
qed (simp add: evict_active_def keys_delete Let_def)

lemma evict_active_inv: "engine_inv e \<Longrightarrow> engine_inv (evict_active now k e)"
  by (auto simp: engine_inv_def evict_active_def Let_def map_of_delete map_of_update split: option.splits)

lemma evict_closed_inv: "engine_inv e \<Longrightarrow> engine_inv (evict_closed k e)"
  by (auto simp: engine_inv_def evict_closed_def map_of_delete split: option.splits)

lemma evict_closed_active [simp]: "active (evict_closed k e) = active e" "max_active_bars (evict_closed k e) = max_active_bars e"
  by (simp_all add: evict_closed_def split: option.splits)

lemma enforce_closed_inv:
  assumes "engine_inv e"
  shows "engine_inv (enforce_closed_limit ex mt sy e)"
    and "active (enforce_closed_limit ex mt sy e) = active e"
    and "max_active_bars (enforce_closed_limit ex mt sy e) = max_active_bars e"
proof -
  have "engine_inv (foldl (\<lambda>e k. evict_closed k e) e ks) \<and> active (foldl (\<lambda>e k. evict_closed k e) e ks) = active e
      \<and> max_active_bars (foldl (\<lambda>e k. evict_closed k e) e ks) = max_active_bars e" for ks
    using assms by (induction ks arbitrary: e) (simp_all add: evict_closed_inv)
  then show "engine_inv (enforce_closed_limit ex mt sy e)" "active (enforce_closed_limit ex mt sy e) = active e"
    "max_active_bars (enforce_closed_limit ex mt sy e) = max_active_bars e"
    by (simp_all add: enforce_closed_limit_def Let_def)
qed

lemma evict_active_cap [simp]: "max_active_bars (evict_active now k e) = max_active_bars e"
  by (simp add: evict_active_def Let_def split: option.splits)

lemma evict_all_active:
  assumes "engine_inv e"
  shows "engine_inv (foldl (\<lambda>e k. evict_active now k e) e ks)
    \<and> map fst (active (foldl (\<lambda>e k. evict_active now k e) e ks)) = filter (\<lambda>k. k \<notin> set ks) (map fst (active e))
    \<and> max_active_bars (foldl (\<lambda>e k. evict_active now k e) e ks) = max_active_bars e"
  using assms
proof (induction ks arbitrary: e)
  case (Cons k ks)
  have "filter (\<lambda>k. k \<notin> set ks) (removeAll k xs) = filter (\<lambda>x. x \<notin> set (k # ks)) xs" for xs
    by (induction xs) auto
  then show ?case using Cons.IH[OF evict_active_inv[OF Cons.prems], of now k] by (simp add: evict_active_keys)
qed simp

lemma filter_drop_distinct: "distinct xs \<Longrightarrow> filter (\<lambda>x. x \<notin> set (take n xs)) xs = drop n xs"
  by (metis (no_types, lifting) append_take_drop_id distinct_append disjoint_iff filter_False filter_True
      filter_append self_append_conv2)

lemma enforce_active_inv:
  assumes "engine_inv e" and "\<And>ex' mt' sy'. (ex', mt', sy') \<noteq> (ex, mt, sy) \<Longrightarrow>
      length (symbol_keys ex' mt' sy' (active e)) \<le> max_active_bars e"
  shows "engine_inv (enforce_active_limit now ex mt sy e) \<and> active_bounded (enforce_active_limit now ex mt sy e)"
proof -
  let ?ks = "symbol_keys ex mt sy (active e)"
  let ?out = "take (length ?ks - max_active_bars e) ?ks"
  let ?e = "foldl (\<lambda>e k. evict_active now k e) e ?out"
  note ev = evict_all_active[OF assms(1), of now ?out]
  have dist: "distinct ?ks" using assms(1) by (simp add: engine_inv_def od_wf_def symbol_keys_def)
  have keys: "symbol_keys ex' mt' sy' (active ?e) = filter (\<lambda>k. k \<notin> set ?out) (symbol_keys ex' mt' sy' (active e))"
    for ex' mt' sy' by (rule symbol_keys_filter) (use ev in blast)
  have "symbol_keys ex mt sy (active ?e) = drop (length ?ks - max_active_bars e) ?ks"
    unfolding keys by (rule filter_drop_distinct[OF dist])
  then have "length (symbol_keys ex mt sy (active ?e)) \<le> max_active_bars e" by simp
  moreover have "length (symbol_keys ex' mt' sy' (active ?e)) \<le> max_active_bars e"
    if "(ex', mt', sy') \<noteq> (ex, mt, sy)" for ex' mt' sy'
    unfolding keys using assms(2)[OF that] by (rule order_trans[OF length_filter_le])
  ultimately have "active_bounded ?e" using ev unfolding active_bounded_def by (metis prod.inject)
  then show ?thesis using ev by (simp add: enforce_active_limit_def Let_def)
qed

subsection \<open>The operations of the engine\<close>

lemma length_symbol_keys_mset:
  "mset (map fst d) = mset (map fst d') \<Longrightarrow> length (symbol_keys ex mt sy d) = length (symbol_keys ex mt sy d')"
  unfolding symbol_keys_def by (metis mset_filter size_mset)

lemma symbol_keys_delete: "length (symbol_keys ex mt sy (AList.delete k d)) \<le> length (symbol_keys ex mt sy d)"
proof -
  have "removeAll k (map fst d) = filter (\<lambda>x. x \<noteq> k) (map fst d)" by (induction d) auto
  then have "symbol_keys ex mt sy (AList.delete k d) = filter (\<lambda>x. x \<noteq> k) (symbol_keys ex mt sy d)"
    by (intro symbol_keys_filter) (simp add: keys_delete)
  then show ?thesis by simp
qed

lemma mset_removeAll_snoc: "distinct xs \<Longrightarrow> k \<in> set xs \<Longrightarrow> mset (removeAll k xs @ [k]) = mset xs"
  by (induction xs) (auto simp: removeAll_id)

lemma symbol_keys_move:
  assumes "od_wf d"
  shows "length (symbol_keys ex mt sy (od_move_to_end k d)) = length (symbol_keys ex mt sy d)"
proof (cases "map_of d k")
  case (Some v)
  have "mset (map fst (od_move_to_end k d)) = mset (map fst d)"
    using mset_removeAll_snoc[of "map fst d" k] assms Some map_of_SomeD[OF Some]
    by (simp add: od_move_to_end_def od_wf_def keys_delete image_iff) force
  then show ?thesis by (rule length_symbol_keys_mset)
qed (simp add: od_move_to_end_def)

lemma bounded_mono:
  assumes "active_bounded e" "max_active_bars e' = max_active_bars e"
    "\<And>ex mt sy. length (symbol_keys ex mt sy (active e')) \<le> length (symbol_keys ex mt sy (active e))"
  shows "active_bounded e'"
  using assms unfolding active_bounded_def by (metis order_trans)

lemma engine_invD:
  assumes "engine_inv e"
  shows "merge_override e = None" "od_wf (active e)" "od_wf (closed e)"
    "map_of (active e) k = Some s \<Longrightarrow> map_of (closed e) k = None"
    "map_of (active e) k = Some s \<Longrightarrow> status s = FORMING"
    "map_of (closed e) k = Some s \<Longrightarrow> map_of (active e) k = None \<and> status s = CLOSED"
  proof -
  note inv = assms[unfolded engine_inv_def]
  show "merge_override e = None" "od_wf (active e)" "od_wf (closed e)" using inv by blast+
  show "map_of (closed e) k = None" if "map_of (active e) k = Some s" using inv that by (metis option.distinct(1))
  show "status s = FORMING" if "map_of (active e) k = Some s" using inv that by blast
  show "map_of (active e) k = None \<and> status s = CLOSED" if "map_of (closed e) k = Some s"
    using inv that by (metis option.distinct(1))
qed

lemma run_merge_forming:
  "engine_inv e \<Longrightarrow> status s = FORMING \<Longrightarrow> status (mark_authoritative i (fst (run_merge F now e s i b))) = FORMING"
  by (simp add: run_merge_status engine_invD(1))

lemma update_active_inv:
  "engine_inv e \<Longrightarrow> map_of (closed e) k = None \<Longrightarrow> status s = FORMING \<Longrightarrow>
    engine_inv (e\<lparr>active := AList.update k s (active e)\<rparr>)"
  by (auto simp: engine_inv_def map_of_update)

lemma apply_active_ok:
  assumes "engine_inv e" "active_bounded e" "map_of (active e) key = Some s"
    "apply_active F now key s i e = (e', s', ch)"
  shows "engine_inv e' \<and> active_bounded e' \<and> map_of (active e') key = Some s' \<and> status s' = FORMING"
proof -
  let ?s2 = "mark_authoritative i (fst (run_merge F now e s i False))"
  let ?e1 = "e\<lparr>active := AList.update key ?s2 (active e)\<rparr>"
  have st: "status ?s2 = FORMING" by (rule run_merge_forming[OF assms(1) engine_invD(5)[OF assms(1,3)]])
  have inv: "engine_inv ?e1" by (rule update_active_inv[OF assms(1) engine_invD(4)[OF assms(1,3)] st])
  have b1: "active_bounded ?e1"
    by (rule bounded_mono[OF assms(2)]) (simp_all add: symbol_keys_cong[OF map_fst_update_in[OF assms(3)]])
  let ?e2 = "?e1\<lparr>active := od_move_to_end key (active ?e1)\<rparr>"
  have "engine_inv ?e2" using inv by (simp add: engine_inv_def)
  moreover have "active_bounded ?e2"
    by (rule bounded_mono[OF b1]) (use engine_invD(2)[OF inv] in \<open>simp_all add: symbol_keys_move\<close>)
  moreover have "s' = ?s2" "e' = ?e1 \<or> e' = ?e2"
    using assms(4) by (auto simp: apply_active_def split_def Let_def split: if_splits)
  moreover have "map_of (active ?e1) key = Some ?s2" "map_of (active ?e2) key = Some ?s2"
    by (simp_all add: map_of_update)
  ultimately show ?thesis using inv b1 st by metis
qed

lemma apply_closed_ok:
  assumes "engine_inv e" "active_bounded e" "map_of (closed e) key = Some old"
    "apply_closed F now key old i e = (e', s', ch)"
  shows "engine_inv e' \<and> active_bounded e' \<and> status s' = CLOSED"
proof (cases "in_source i = SRC_BACKFILL \<or> in_source i = SRC_CORRECTION")
  case True
  then have s: "status s' = CLOSED \<and> e' = e\<lparr>closed := AList.update key s' (closed e)\<rparr>"
    using assms(4) by (auto simp: apply_closed_def split_def Let_def split: if_splits)
  moreover have "engine_inv (e\<lparr>closed := AList.update key s' (closed e)\<rparr>)" if "status s' = CLOSED"
    using assms(1) engine_invD(6)[OF assms(1,3)] that by (auto simp: engine_inv_def map_of_update)
  ultimately show ?thesis using assms(2) by (auto simp: active_bounded_def)
next
  case False
  then show ?thesis using assms engine_invD(6)[OF assms(1,3)] by (auto simp: apply_closed_def)
qed

lemma evict_active_elsewhere:
  assumes "engine_inv e" "map_of (active e) key = Some s" "key \<notin> set ks"
  shows "map_of (active (foldl (\<lambda>e k. evict_active now k e) e ks)) key = Some s"
  using assms
proof (induction ks arbitrary: e)
  case (Cons k ks)
  have "map_of (active (evict_active now k e)) key = Some s"
    using Cons.prems by (auto simp: evict_active_def Let_def map_of_delete split: option.split)
  then show ?case using Cons.IH[OF evict_active_inv[OF Cons.prems(1)]] Cons.prems(3) by simp
qed simp

lemma evicted_somewhere:
  assumes "map_of (active e) k \<noteq> None \<or> map_of (closed e) k \<noteq> None \<or> evicted_expired e \<noteq> []"
  shows "let e' = foldl (\<lambda>e k. evict_active now k e) e ks in
    map_of (active e') k \<noteq> None \<or> map_of (closed e') k \<noteq> None \<or> evicted_expired e' \<noteq> []"
  using assms
proof (induction ks arbitrary: e)
  case (Cons x ks)
  have "map_of (active (evict_active now x e)) k \<noteq> None \<or> map_of (closed (evict_active now x e)) k \<noteq> None
      \<or> evicted_expired (evict_active now x e) \<noteq> []"
    using Cons.prems by (auto simp: evict_active_def Let_def map_of_delete map_of_update split: option.split)
  from Cons.IH[OF this] show ?case by simp
qed simp

lemma expired_status:
  assumes "engine_inv (enforce_active_limit now ex mt sy e)" "map_of (active e) k \<noteq> None"
    "map_of (active (enforce_active_limit now ex mt sy e)) k = None"
    "map_of (closed (enforce_active_limit now ex mt sy e)) k = None"
  shows "status (last (evicted_expired (enforce_active_limit now ex mt sy e))) = EXPIRED"
proof -
  have "evicted_expired (enforce_active_limit now ex mt sy e) \<noteq> []"
    using evicted_somewhere[of e k] assms(2,3,4) unfolding enforce_active_limit_def Let_def by metis
  then show ?thesis using assms(1) by (simp add: engine_inv_def)
qed

lemma apply_input_ok:
  assumes "engine_inv e" "active_bounded e" "apply_input F now ex mt sy bucket i e = Inr (e', s', ch)"
  shows "engine_inv e' \<and> active_bounded e'
    \<and> (status s' = FORMING \<longrightarrow> map_of (active e') (norm ex, norm mt, sy, bucket) = Some s')"
proof -
  let ?key = "(norm ex, norm mt, sy, bucket)"
  consider (a) s where "map_of (active e) ?key = Some s"
    | (c) old where "map_of (active e) ?key = None" "map_of (closed e) ?key = Some old"
    | (n) "map_of (active e) ?key = None" "map_of (closed e) ?key = None"
    by (cases "map_of (active e) ?key"; cases "map_of (closed e) ?key") auto
  then show ?thesis
  proof cases
    case a
    then have "apply_active F now ?key s i e = (e', s', ch)" using assms(3) by (simp add: apply_input_def Let_def)
    then show ?thesis using apply_active_ok[OF assms(1,2) a] by blast
  next
    case c
    then have "apply_closed F now ?key old i e = (e', s', ch)" using assms(3) by (simp add: apply_input_def Let_def)
    then show ?thesis using apply_closed_ok[OF assms(1,2) c(2)] by auto
  next
    case n
    obtain b stop where r: "engine_bucket_range (eng_time_bucket e) bucket = Inr (b, stop)"
      using assms(3) n by (auto simp: apply_input_def Let_def bindr_eq_Inr simp del: map_of_eq_None_iff)
    define s1 where "s1 = mark_authoritative i (fst (run_merge F now e
      (fresh_state F now (py_strip (py_upper sy)) (eng_interval e) (norm ex) (norm mt) b stop) i True))"
    define e1 where "e1 = e\<lparr>active := AList.update ?key s1 (active e)\<rparr>"
    have st: "status s1 = FORMING"
      unfolding s1_def by (rule run_merge_forming[OF assms(1)]) (simp add: fresh_state_def)
    have inv: "engine_inv e1" unfolding e1_def by (rule update_active_inv[OF assms(1) n(2) st])
    have e': "e' = enforce_active_limit now (norm ex) (norm mt) sy e1"
      "s' = (case map_of (active e') ?key of Some x \<Rightarrow> x
          | None \<Rightarrow> (case map_of (closed e') ?key of Some x \<Rightarrow> x | None \<Rightarrow> last (evicted_expired e')))"
      using assms(3) n r by (auto simp: apply_input_def Let_def s1_def e1_def simp del: map_of_eq_None_iff)
    have keys: "map fst (active e1) = map fst (active e) @ [?key]"
      using update_notin[OF n(1), of s1] by (simp add: e1_def)
    have others: "length (symbol_keys ex' mt' sy' (active e1)) \<le> max_active_bars e1"
      if "(ex', mt', sy') \<noteq> (norm ex, norm mt, sy)" for ex' mt' sy'
    proof -
      have "\<not> same_symbol ex' mt' sy' ?key" using that by (auto simp: same_symbol_def)
      then have "symbol_keys ex' mt' sy' (active e1) = symbol_keys ex' mt' sy' (active e)"
        unfolding symbol_keys_def keys by simp
      then show ?thesis using assms(2) by (simp add: active_bounded_def e1_def)
    qed
    have ok: "engine_inv e' \<and> active_bounded e'"
      unfolding e'(1) by (rule enforce_active_inv[OF inv others])
    have "status s' \<noteq> FORMING" if none: "map_of (active e') ?key = None"
    proof (cases "map_of (closed e') ?key")
      case (Some x)
      then have "s' = x" "status x = CLOSED" using e'(2) none engine_invD(6)[of e' ?key x] ok by (auto split: option.splits)
      then show ?thesis by simp
    next
      case None
      have "map_of (active e1) ?key \<noteq> None" by (simp add: e1_def map_of_update)
      then have "status (last (evicted_expired e')) = EXPIRED"
        using expired_status[of now "norm ex" "norm mt" sy e1 ?key] ok none None unfolding e'(1) by blast
      then show ?thesis using e'(2) none None by simp
    qed
    then show ?thesis using ok e'(2) by (auto split: option.splits)
  qed
qed

lemma close_bar_ok:
  assumes "engine_inv e" "active_bounded e"
  shows "engine_inv (fst (close_bar now ex mt sy b e)) \<and> active_bounded (fst (close_bar now ex mt sy b e))"
proof (cases "map_of (active e) (norm ex, norm mt, sy, b)")
  case (Some s)
  let ?k = "(norm ex, norm mt, sy, b)"
  let ?e = "e\<lparr>active := AList.delete ?k (active e),
    closed := AList.update ?k (s\<lparr>status := CLOSED, updated_at_ms := now\<rparr>) (closed e)\<rparr>"
  have "engine_inv ?e" using assms(1) by (auto simp: engine_inv_def map_of_delete map_of_update)
  moreover have "active_bounded ?e" by (rule bounded_mono[OF assms(2)]) (simp_all add: symbol_keys_delete)
  ultimately show ?thesis using Some enforce_closed_inv[of ?e]
    by (simp add: close_bar_def Let_def active_bounded_def)
qed (simp add: close_bar_def Let_def assms)

lemma expire_bar_ok:
  assumes "engine_inv e" "active_bounded e"
  shows "engine_inv (fst (expire_bar ex mt sy b e)) \<and> active_bounded (fst (expire_bar ex mt sy b e))"
proof -
  let ?k = "(norm ex, norm mt, sy, b)"
  have "engine_inv (e\<lparr>active := AList.delete ?k (active e)\<rparr>)" "engine_inv (e\<lparr>closed := AList.delete ?k (closed e)\<rparr>)"
    using assms(1) by (auto simp: engine_inv_def map_of_delete)
  moreover have "active_bounded (e\<lparr>active := AList.delete ?k (active e)\<rparr>)"
    by (rule bounded_mono[OF assms(2)]) (simp_all add: symbol_keys_delete)
  ultimately show ?thesis using assms
    by (auto simp: expire_bar_def Let_def active_bounded_def split: option.split)
qed

lemma close_all_ok:
  "engine_inv e \<Longrightarrow> active_bounded e \<Longrightarrow>
    engine_inv (fst (close_all now ks e)) \<and> active_bounded (fst (close_all now ks e))"
proof (induction now ks e rule: close_all.induct)
  case (2 now ex mt sy b ks e)
  obtain e1 s where c: "close_bar now ex mt sy b e = (e1, s)" by fastforce
  have "engine_inv e1 \<and> active_bounded e1" using close_bar_ok[OF 2(2,3), of now ex mt sy b] c by simp
  then show ?case using 2(1)[OF c[symmetric] refl] c by (simp add: split_def Let_def)
qed simp

lemma map_of_filter_Some: "od_wf d \<Longrightarrow> map_of (filter P d) k = Some v \<Longrightarrow> map_of d k = Some v"
  by (auto simp: od_wf_def dest: map_of_SomeD)

lemma clear_symbol_ok:
  assumes "engine_inv e" "active_bounded e"
  shows "engine_inv (clear_symbol sy ex mt e) \<and> active_bounded (clear_symbol sy ex mt e)"
proof (cases sy)
  case None
  then show ?thesis using assms by (auto simp: clear_symbol_def engine_inv_def active_bounded_def od_wf_def symbol_keys_def)
next
  case (Some s)
  have "engine_inv (e\<lparr>active := filter P (active e), closed := filter P (closed e)\<rparr>)
      \<and> active_bounded (e\<lparr>active := filter P (active e), closed := filter P (closed e)\<rparr>)" for P
  proof -
    have sub: "map_of (filter P (active e)) k = Some v \<Longrightarrow> map_of (active e) k = Some v"
      "map_of (filter P (closed e)) k = Some v \<Longrightarrow> map_of (closed e) k = Some v" for k v
      using engine_invD(2,3)[OF assms(1)] by (blast intro: map_of_filter_Some)+
    have "engine_inv (e\<lparr>active := filter P (active e), closed := filter P (closed e)\<rparr>)"
      using assms(1) sub unfolding engine_inv_def by (simp add: od_wf_filter del: not_None_eq) (metis not_Some_eq)
    moreover have "length (filter f (map fst (filter P d))) \<le> length (filter f (map fst d))"
      for f and d :: "(bar_key \<times> 'a bar_state) list" by (induction d) auto
    then have "active_bounded (e\<lparr>active := filter P (active e), closed := filter P (closed e)\<rparr>)"
      by (intro bounded_mono[OF assms(2)]) (simp_all add: symbol_keys_def)
    ultimately show ?thesis by blast
  qed
  then show ?thesis by (simp add: clear_symbol_def Some Let_def)
qed

subsection \<open>The closed limit\<close>

lemma fold_evict_closed:
  "map fst (closed (foldl (\<lambda>e k. evict_closed k e) e ks)) = filter (\<lambda>k. k \<notin> set ks) (map fst (closed e))
    \<and> max_closed_bars_in_memory (foldl (\<lambda>e k. evict_closed k e) e ks) = max_closed_bars_in_memory e"
proof (induction ks arbitrary: e)
  case (Cons k ks)
  have "map fst (closed (evict_closed k e)) = removeAll k (map fst (closed e))"
  proof (cases "map_of (closed e) k")
    case None
    then have "k \<notin> set (map fst (closed e))" by (simp add: map_of_eq_None_iff)
    then show ?thesis using None by (simp add: evict_closed_def)
  qed (simp add: evict_closed_def keys_delete)
  moreover have "max_closed_bars_in_memory (evict_closed k e) = max_closed_bars_in_memory e"
    by (simp add: evict_closed_def split: option.split)
  moreover have "filter (\<lambda>k. k \<notin> set ks) (removeAll k xs) = filter (\<lambda>x. x \<notin> set (k # ks)) xs" for xs
    by (induction xs) auto
  ultimately show ?case using Cons.IH[of "evict_closed k e"] by simp
qed simp

lemma fold_evict_closed_active: "active (foldl (\<lambda>e k. evict_closed k e) e ks) = active e"
  by (induction ks arbitrary: e) simp_all

lemma enforce_closed_bounded:
  assumes "od_wf (closed e)"
  shows "length (symbol_keys ex mt sy (closed (enforce_closed_limit ex mt sy e)))
      = min (length (symbol_keys ex mt sy (closed e))) (max_closed_bars_in_memory e)"
proof -
  let ?ks = "symbol_keys ex mt sy (closed e)"
  let ?out = "take (length ?ks - max_closed_bars_in_memory e) ?ks"
  have "distinct ?ks" using assms by (simp add: od_wf_def symbol_keys_def)
  moreover have "symbol_keys ex mt sy (closed (foldl (\<lambda>e k. evict_closed k e) e ?out)) = filter (\<lambda>k. k \<notin> set ?out) ?ks"
    by (rule symbol_keys_filter) (use fold_evict_closed in blast)
  ultimately have "symbol_keys ex mt sy (closed (enforce_closed_limit ex mt sy e))
      = drop (length ?ks - max_closed_bars_in_memory e) ?ks"
    by (simp add: filter_drop_distinct enforce_closed_limit_def Let_def)
  then show ?thesis by simp
qed

text \<open>Closing a bar leaves at most the configured number of closed bars of its symbol in
  memory, the bar itself being sealed CLOSED and no longer active.\<close>

lemma close_bar_bounded:
  assumes "engine_inv e" and "close_bar now ex mt sy b e = (e', Some s)"
  shows "length (symbol_keys (norm ex) (norm mt) sy (closed e')) \<le> max_closed_bars_in_memory e'
    \<and> map_of (active e') (norm ex, norm mt, sy, b) = None \<and> status s = CLOSED"
proof -
  let ?k = "(norm ex, norm mt, sy, b)"
  obtain s0 where a: "map_of (active e) ?k = Some s0"
    using assms(2) by (auto simp: close_bar_def Let_def split: option.splits)
  define e1 where "e1 = e\<lparr>active := AList.delete ?k (active e),
    closed := AList.update ?k (s0\<lparr>status := CLOSED, updated_at_ms := now\<rparr>) (closed e)\<rparr>"
  have e': "e' = enforce_closed_limit (norm ex) (norm mt) sy e1" "s = s0\<lparr>status := CLOSED, updated_at_ms := now\<rparr>"
    using assms(2) a by (auto simp: close_bar_def Let_def e1_def)
  have "od_wf (closed e1)" using engine_invD(3)[OF assms(1)] by (simp add: e1_def)
  moreover have "max_closed_bars_in_memory e' = max_closed_bars_in_memory e1"
    unfolding e'(1) enforce_closed_limit_def Let_def using fold_evict_closed by blast
  moreover have "active e' = active e1" unfolding e'(1)
    by (simp add: enforce_closed_limit_def Let_def fold_evict_closed_active)
  ultimately show ?thesis using enforce_closed_bounded[of e1 "norm ex" "norm mt" sy] e'(1,2)
    by (simp add: e1_def map_of_delete)
qed

definition minute_engine :: "nat \<Rightarrow> nat \<Rightarrow> int bar_state_engine" where
  "minute_engine amax cmax = new_bar_state_engine amax cmax \<lparr>engine_interval_ms = 60000,
     engine_alignment = EPOCH, engine_epoch_ms = 0, custom_calculator = None, engine_anchor_ms = 0\<rparr> ''1m''"

definition tick_input :: "int \<Rightarrow> int bar_input" where
  "tick_input t = (component_input t t False ''t'')\<lparr>in_source_interval := ''tick'', in_merge_mode := None\<rparr>"

definition after_tick :: "int \<Rightarrow> int bar_state_engine \<Rightarrow> int bar_state_engine" where
  "after_tick t e = (case apply_input tick_ops t ''binance'' ''spot'' ''BTCUSDT'' t (tick_input t) e of
     Inr (e', _, _) \<Rightarrow> e' | Inl _ \<Rightarrow> e)"

lemma new_engine_inv:
  "engine_inv (new_bar_state_engine amax cmax tb iv) \<and> active_bounded (new_bar_state_engine amax cmax tb iv)"
  by (simp add: engine_inv_def new_bar_state_engine_def od_wf_def active_bounded_def symbol_keys_def)

lemma after_tick_ok: "engine_inv e \<and> active_bounded e \<Longrightarrow> engine_inv (after_tick t e) \<and> active_bounded (after_tick t e)"
  unfolding after_tick_def by (auto split: sum.split dest: apply_input_ok)

lemma close_bar_bounded_example:
  "case close_bar 9 ''binance'' ''spot'' ''BTCUSDT'' 0 (after_tick 0 (minute_engine 1 0)) of
     (e', s) \<Rightarrow> (case s of None \<Rightarrow> False | Some x \<Rightarrow> length (symbol_keys ''binance'' ''spot'' ''BTCUSDT'' (closed e')) = 0
        \<and> status x = CLOSED)"
proof -
  let ?c = "close_bar 9 ''binance'' ''spot'' ''BTCUSDT'' 0 (after_tick 0 (minute_engine 1 0))"
  have s: "case snd ?c of None \<Rightarrow> False | Some _ \<Rightarrow> True" by code_simp
  have m: "max_closed_bars_in_memory (fst ?c) = 0" by code_simp
  have n: "norm ''binance'' = ''binance'' \<and> norm ''spot'' = ''spot''" by code_simp
  have i: "engine_inv (after_tick 0 (minute_engine 1 0))"
    using after_tick_ok[OF new_engine_inv] unfolding minute_engine_def by blast
  obtain e' x where c: "?c = (e', Some x)" using s by (cases ?c) (auto split: option.splits)
  show ?thesis using close_bar_bounded[OF i c] m c n by simp
qed

text \<open>
  Eviction at the active limit adds to the closed dictionary without looking at the closed
  limit: only a later \<open>close_bar\<close> of the symbol trims it.
\<close>

lemma eviction_ignores_closed_limit:
  "length (closed (after_tick 120000 (after_tick 60000 (after_tick 0 (minute_engine 1 1))))) = 2"
  by code_simp

end
