(* ===== verification/Finalizer.thy ===== *)
theory Finalizer
  imports BarState
begin

text \<open>
  Sealing bars: the finalizer strategies and their chain
  (\<open>backend/app/data_engine/bar_aggregator/finalizer.py\<close>), and the interval pipeline that drives
  time bucket, bar state and finalizer for one input, one timer tick and the shutdown flush
  (\<open>_handle_bar_input\<close>, \<open>_check_event_driven_close\<close>, \<open>_check_timeouts\<close> and \<open>_flush_all\<close> of
  \<open>aggregator.py\<close>). A pipeline step returns the lifecycle events it emits, in order.
\<close>

section \<open>Strategies\<close>

record 'f finalize_trigger =
  trigger_type :: string
  tr_input :: "'f bar_input option"
  current_time_ms :: int
  next_bucket_start :: "int option"
  is_backfill :: bool

text \<open>A user-registered strategy may answer or raise (\<open>None\<close>).\<close>

datatype 'f strategy =
    BatchFinalizer bool
  | SourceCloseFinalizer
  | CompositeCloseFinalizer
  | EventDrivenFinalizer
  | TimeBasedFinalizer int
  | CustomStrategy "'f bar_state \<Rightarrow> 'f finalize_trigger \<Rightarrow> bool option"

definition unconfirmed :: "'f bar_state \<Rightarrow> bool" where
  "unconfirmed s = (requires_authoritative_close s \<and> \<not> last_close_received s)"

fun should_close :: "'f strategy \<Rightarrow> 'f bar_state \<Rightarrow> 'f finalize_trigger \<Rightarrow> bool option" where
  "should_close SourceCloseFinalizer s tr = Some
     (if trigger_type tr \<noteq> ''input'' then False
      else case tr_input tr of None \<Rightarrow> False
        | Some i \<Rightarrow> effective_merge_mode i = SNAPSHOT \<and> last_close_received s)"
| "should_close CompositeCloseFinalizer s tr = Some
     (if trigger_type tr \<noteq> ''input'' then False
      else case tr_input tr of None \<Rightarrow> False
        | Some i \<Rightarrow> in_merge_mode i = Some COMPONENT \<and> in_is_closed i \<and> complete_coverage s)"
| "should_close EventDrivenFinalizer s tr = Some
     (if trigger_type tr \<noteq> ''next_bucket'' then False
      else if unconfirmed s then False
      else case next_bucket_start tr of None \<Rightarrow> False | Some n \<Rightarrow> n > bucket_start_ms s)"
| "should_close (TimeBasedFinalizer timeout_ms) s tr = Some
     (if unconfirmed s then False else current_time_ms tr \<ge> bucket_end_ms s + timeout_ms)"
| "should_close (BatchFinalizer has_time_bucket) s tr = Some
     (if \<not> is_backfill tr then False
      else case tr_input tr of None \<Rightarrow> True
        | Some i \<Rightarrow> if in_merge_mode i \<noteq> Some COMPONENT then True
            else if \<not> in_is_closed i \<or> \<not> has_time_bucket then False
            else complete_coverage s)"
| "should_close (CustomStrategy f) s tr = f s tr"

section \<open>The chain\<close>

type_synonym 'f chain = "(string \<times> 'f strategy) list"

record aggregator_config =
  use_event_driven_close :: bool
  use_composite_close :: bool
  finalize_timeout_ms :: int

definition default_chain :: "aggregator_config \<Rightarrow> 'f chain" where
  "default_chain cfg =
     [(''batch'', BatchFinalizer True), (''source_close'', SourceCloseFinalizer)]
     @ (if use_composite_close cfg then [(''composite_close'', CompositeCloseFinalizer)] else [])
     @ (if use_event_driven_close cfg then [(''event_driven'', EventDrivenFinalizer)] else [])
     @ [(''time_based'', TimeBasedFinalizer (finalize_timeout_ms cfg))]"

definition add_strategy :: "string \<Rightarrow> 'f strategy \<Rightarrow> int option \<Rightarrow> 'f chain \<Rightarrow> 'f chain" where
  "add_strategy name s priority chain =
     (let rest = filter (\<lambda>(n, _). n \<noteq> name) chain in
      case priority of
        Some p \<Rightarrow> if 0 \<le> p \<and> p < int (length rest)
          then take (nat p) rest @ (name, s) # drop (nat p) rest else rest @ [(name, s)]
      | None \<Rightarrow> rest @ [(name, s)])"

definition remove_strategy :: "string \<Rightarrow> 'f chain \<Rightarrow> 'f chain" where
  "remove_strategy name chain = filter (\<lambda>(n, _). n \<noteq> name) chain"

fun check_chain :: "'f chain \<Rightarrow> 'f bar_state \<Rightarrow> 'f finalize_trigger \<Rightarrow> 'f bar_state option" where
  "check_chain [] s tr = None"
| "check_chain ((name, st) # rest) s tr =
     (if is_backfill tr \<and> name \<noteq> ''batch'' then check_chain rest s tr
      else if should_close st s tr = Some True
      then Some (s\<lparr>close_reason := Some name,
             finality := (if name \<in> {''batch'', ''source_close'', ''composite_close''}
               then AUTHORITATIVE else PROVISIONAL)\<rparr>)
      else check_chain rest s tr)"

text \<open>\<open>check\<close> returns the event of the mutated bar, or nothing (the bar is then untouched).\<close>

definition finalizer_check :: "'f chain \<Rightarrow> 'f bar_state \<Rightarrow> 'f finalize_trigger \<Rightarrow> 'f bar_state option" where
  "finalizer_check chain s tr = (if status s \<noteq> FORMING then None else check_chain chain s tr)"

definition check_timeout :: "'f chain \<Rightarrow> int \<Rightarrow> 'f bar_state \<Rightarrow> 'f bar_state option" where
  "check_timeout chain now s = finalizer_check chain s
     \<lparr>trigger_type = ''timer'', tr_input = None, current_time_ms = now, next_bucket_start = None, is_backfill = False\<rparr>"

definition must_fail_closed :: "'f bar_state \<Rightarrow> bool" where
  "must_fail_closed s = (status s = FORMING \<and> unconfirmed s)"

datatype bar_event_type = EV_CREATED | EV_UPDATED | EV_CLOSED | EV_AMENDED | EV_EXPIRED

definition finalizer_flush :: "'f bar_state \<Rightarrow> bar_event_type \<times> 'f bar_state" where
  "finalizer_flush s = (if must_fail_closed s then EV_EXPIRED else EV_CLOSED,
     s\<lparr>close_reason := Some (if must_fail_closed s then ''shutdown_unconfirmed'' else ''shutdown_fallback''),
       finality := PROVISIONAL\<rparr>)"

definition flush_states :: "'f bar_state list \<Rightarrow> (bar_event_type \<times> 'f bar_state) list" where
  "flush_states ss = map finalizer_flush (filter (\<lambda>s. status s = FORMING) ss)"

definition should_expire_unconfirmed :: "aggregator_config \<Rightarrow> 'f bar_state \<Rightarrow> 'f finalize_trigger \<Rightarrow> bool" where
  "should_expire_unconfirmed cfg s tr =
     (if \<not> must_fail_closed s then False
      else if trigger_type tr = ''flush'' then True
      else if trigger_type tr = ''next_bucket'' then
        (case next_bucket_start tr of None \<Rightarrow> False | Some n \<Rightarrow> n > bucket_start_ms s)
      else if trigger_type tr = ''timer'' then current_time_ms tr \<ge> bucket_end_ms s + finalize_timeout_ms cfg
      else False)"

section \<open>The pipeline\<close>

type_synonym 'f events = "(bar_event_type \<times> 'f bar_state) list"

text \<open>The finalizer mutates the bar object the active dictionary holds.\<close>

definition mutate_active :: "bar_key \<Rightarrow> 'f bar_state \<Rightarrow> 'f bar_state_engine \<Rightarrow> 'f bar_state_engine" where
  "mutate_active key s e =
     (if map_of (active e) key = None then e else e\<lparr>active := AList.update key s (active e)\<rparr>)"

definition drain_eviction_buffers :: "'f bar_state_engine \<Rightarrow> 'f bar_state_engine \<times> 'f events" where
  "drain_eviction_buffers e =
     (e\<lparr>evicted_closed := [], evicted_expired := []\<rparr>,
      map (Pair EV_CLOSED) (evicted_closed e) @ map (Pair EV_EXPIRED) (evicted_expired e))"

text \<open>
  One active bar under a trigger, as the event-driven and the timer pass treat it: close it if
  a strategy says so, else expire it if it must fail closed. \<open>drain\<close> is set where the code
  drains the eviction buffers after a close, \<open>ex\<close>, \<open>mt\<close>, \<open>symb\<close> are what the code passes on.
\<close>

definition settle_bar :: "'f chain \<Rightarrow> aggregator_config \<Rightarrow> int \<Rightarrow> bool \<Rightarrow> string \<Rightarrow> 'f finalize_trigger \<Rightarrow>
    (bar_key \<times> 'f bar_state) \<Rightarrow> string \<Rightarrow> string \<Rightarrow> string \<Rightarrow> 'f bar_state_engine \<Rightarrow>
    'f bar_state_engine \<times> 'f events" where
  "settle_bar chain cfg now drain reason tr entry ex mt symb e =
     (let (key, s) = entry in
      case finalizer_check chain s tr of
        Some s' \<Rightarrow>
          (let (e1, c) = close_bar now ex mt symb (bucket_start_ms s) (mutate_active key s' e) in
           case c of None \<Rightarrow> (e1, [])
           | Some x \<Rightarrow> let (e2, ev) = (if drain then drain_eviction_buffers e1 else (e1, [])) in
               (e2, (EV_CLOSED, x) # ev))
      | None \<Rightarrow>
          if should_expire_unconfirmed cfg s tr then
            (let (e1, x) = expire_bar ex mt symb (bucket_start_ms s)
                   (mutate_active key (s\<lparr>close_reason := Some reason\<rparr>) e) in
             (e1, case x of None \<Rightarrow> [] | Some b \<Rightarrow> [(EV_EXPIRED, b)]))
          else (e, []))"

fun event_driven_pass :: "'f chain \<Rightarrow> aggregator_config \<Rightarrow> int \<Rightarrow> string \<Rightarrow> string \<Rightarrow> string \<Rightarrow> int \<Rightarrow>
    (bar_key \<times> 'f bar_state) list \<Rightarrow> 'f bar_state_engine \<Rightarrow> 'f bar_state_engine \<times> 'f events" where
  "event_driven_pass chain cfg now ex mt symb bucket [] e = (e, [])"
| "event_driven_pass chain cfg now ex mt symb bucket ((k, s) # rest) e =
     (let (e1, ev1) = (if bucket_start_ms s < bucket
            then settle_bar chain cfg now True ''next_bucket_unconfirmed''
              \<lparr>trigger_type = ''next_bucket'', tr_input = None, current_time_ms = now,
               next_bucket_start = Some bucket, is_backfill = False\<rparr> (k, s) ex mt symb e
            else (e, []));
          (e2, ev2) = event_driven_pass chain cfg now ex mt symb bucket rest e1
      in (e2, ev1 @ ev2))"

definition symbol_entries :: "string \<Rightarrow> string \<Rightarrow> string \<Rightarrow> 'f bar_state_engine \<Rightarrow> (bar_key \<times> 'f bar_state) list" where
  "symbol_entries ex mt symb e =
     sort_key (\<lambda>p. bucket_start_ms (snd p)) (filter (\<lambda>p. same_symbol (norm ex) (norm mt) symb (fst p)) (active e))"

definition event_driven_close :: "'f chain \<Rightarrow> aggregator_config \<Rightarrow> int \<Rightarrow> string \<Rightarrow> string \<Rightarrow> string \<Rightarrow> int \<Rightarrow>
    'f bar_state_engine \<Rightarrow> 'f bar_state_engine \<times> 'f events" where
  "event_driven_close chain cfg now ex mt symb bucket e =
     (if \<not> use_event_driven_close cfg then (e, [])
      else event_driven_pass chain cfg now ex mt symb bucket (symbol_entries ex mt symb e) e)"

definition change_event :: "bar_state_change \<Rightarrow> 'f bar_state \<Rightarrow> 'f events" where
  "change_event c s = (case c of CREATED \<Rightarrow> [(EV_CREATED, s)] | UPDATED \<Rightarrow> [(EV_UPDATED, s)]
     | AMENDED \<Rightarrow> [(EV_AMENDED, s)] | NO_CHANGE \<Rightarrow> [])"

definition input_trigger :: "int \<Rightarrow> 'f bar_input \<Rightarrow> 'f finalize_trigger" where
  "input_trigger now i = \<lparr>trigger_type = ''input'', tr_input = Some i, current_time_ms = now,
     next_bucket_start = None, is_backfill = (in_source i = SRC_BACKFILL)\<rparr>"

text \<open>
  An exception of the bucket computation or of the bar state leaves what was done before it: the
  bars the event-driven pass settled stay settled and their events emitted. With \<open>emit\<close> off (a
  replay of history) the steps are the same and no event leaves.
\<close>

definition handle_bar_input :: "'f float_ops \<Rightarrow> 'f chain \<Rightarrow> aggregator_config \<Rightarrow> bool \<Rightarrow> int \<Rightarrow> string \<Rightarrow> string \<Rightarrow> string \<Rightarrow>
    'f bar_input \<Rightarrow> 'f bar_state_engine \<Rightarrow> 'f bar_state_engine \<times> 'f events \<times> unit res" where
  "handle_bar_input F chain cfg emit now ex mt symb i e =
     (let out = (\<lambda>ev. if emit then ev else []) in
      case engine_compute_bucket (eng_time_bucket e) (in_open_time_ms i) of
        Inl x \<Rightarrow> (e, [], Inl x)
      | Inr bucket \<Rightarrow>
          let (e1, ev1) = event_driven_close chain cfg now ex mt symb bucket e in
          (case apply_input F now ex mt symb bucket i e1 of
             Inl x \<Rightarrow> (e1, out ev1, Inl x)
           | Inr (e2, s, change) \<Rightarrow>
               let (e3, ev2) = drain_eviction_buffers e2;
                   ev3 = change_event change s in
               (case finalizer_check chain s (input_trigger now i) of
                  None \<Rightarrow> (e3, out (ev1 @ ev2 @ ev3), Inr ())
                | Some s' \<Rightarrow>
                    let (e4, c) = close_bar now ex mt symb bucket (mutate_active (norm ex, norm mt, symb, bucket) s' e3) in
                    (case c of None \<Rightarrow> (e4, out (ev1 @ ev2 @ ev3), Inr ())
                     | Some x \<Rightarrow> let (e5, ev4) = drain_eviction_buffers e4 in
                         (e5, out (ev1 @ ev2 @ ev3 @ (EV_CLOSED, x) # ev4), Inr ())))))"

text \<open>The timer pass over a copy of the active entries.\<close>

fun timeout_pass :: "'f chain \<Rightarrow> aggregator_config \<Rightarrow> int \<Rightarrow> (bar_key \<times> 'f bar_state) list \<Rightarrow>
    'f bar_state_engine \<Rightarrow> 'f bar_state_engine \<times> 'f events" where
  "timeout_pass chain cfg now [] e = (e, [])"
| "timeout_pass chain cfg now ((k, s) # rest) e =
     (let (e1, ev1) = settle_bar chain cfg now False ''timeout_unconfirmed''
            \<lparr>trigger_type = ''timer'', tr_input = None, current_time_ms = now,
             next_bucket_start = None, is_backfill = False\<rparr> (k, s)
            (bs_exchange s) (bs_market_type s) (bs_symbol s) e;
          (e2, ev2) = timeout_pass chain cfg now rest e1
      in (e2, ev1 @ ev2))"

definition check_timeouts :: "'f chain \<Rightarrow> aggregator_config \<Rightarrow> int \<Rightarrow> 'f bar_state_engine \<Rightarrow>
    'f bar_state_engine \<times> 'f events" where
  "check_timeouts chain cfg now e = timeout_pass chain cfg now (active e) e"

fun flush_pass :: "int \<Rightarrow> bar_key list \<Rightarrow> 'f bar_state_engine \<Rightarrow> 'f bar_state_engine \<times> 'f events" where
  "flush_pass now [] e = (e, [])"
| "flush_pass now (key # rest) e =
     (let (ex, mt, symb, bucket) = key;
          (e1, ev1) =
            (case map_of (active e) (norm ex, norm mt, symb, bucket) of
               None \<Rightarrow> (e, [])
             | Some s \<Rightarrow>
                 let (ty, s') = finalizer_flush s;
                     em = mutate_active (norm ex, norm mt, symb, bucket) s' e in
                 if ty = EV_CLOSED
                 then (let (e1, c) = close_bar now ex mt symb bucket em in
                   (e1, case c of None \<Rightarrow> [] | Some x \<Rightarrow> [(EV_CLOSED, x)]))
                 else (let (e1, c) = expire_bar ex mt symb bucket em in
                   (e1, case c of None \<Rightarrow> [] | Some x \<Rightarrow> [(EV_EXPIRED, x)])));
          (e2, ev2) = flush_pass now rest e1
      in (e2, ev1 @ ev2))"

definition flush_all :: "int \<Rightarrow> 'f bar_state_engine \<Rightarrow> 'f bar_state_engine \<times> 'f events" where
  "flush_all now e = flush_pass now (map fst (active e)) e"

section \<open>The chain\<close>

lemma check_chain_Some:
  assumes "check_chain chain s tr = Some s'"
  obtains name st where "(name, st) \<in> set chain" "should_close st s tr = Some True" "is_backfill tr \<longrightarrow> name = ''batch''"
    "s' = s\<lparr>close_reason := Some name, finality := (if name \<in> {''batch'', ''source_close'', ''composite_close''}
       then AUTHORITATIVE else PROVISIONAL)\<rparr>"
proof -
  have "\<exists>name st. (name, st) \<in> set chain \<and> should_close st s tr = Some True \<and> (is_backfill tr \<longrightarrow> name = ''batch'')
    \<and> s' = s\<lparr>close_reason := Some name, finality := (if name \<in> {''batch'', ''source_close'', ''composite_close''}
       then AUTHORITATIVE else PROVISIONAL)\<rparr>"
    using assms
  proof (induction chain)
    case (Cons p chain)
    obtain name st where p: "p = (name, st)" by (cases p)
    show ?case
    proof (cases "\<not> (is_backfill tr \<and> name \<noteq> ''batch'') \<and> should_close st s tr = Some True")
      case True
      then show ?thesis using Cons.prems p by (intro exI[of _ name] exI[of _ st]) (simp add: insertI1 del: insert_iff split: if_splits)
    next
      case False
      then have "check_chain chain s tr = Some s'" using Cons.prems p by (simp split: if_splits)
      then show ?thesis using Cons.IH by (meson list.set_intros(2))
    qed
  qed simp
  then show ?thesis using that by blast
qed

lemma check_chain_complete:
  "(name, st) \<in> set chain \<Longrightarrow> \<not> is_backfill tr \<Longrightarrow> should_close st s tr = Some True \<Longrightarrow> check_chain chain s tr \<noteq> None"
  by (induction chain s tr rule: check_chain.induct) auto

lemma finalizer_check_keeps:
  assumes "finalizer_check chain s tr = Some s'"
  shows "status s = FORMING" "status s' = FORMING" "bs_exchange s' = bs_exchange s" "bs_market_type s' = bs_market_type s"
    "bs_symbol s' = bs_symbol s" "bucket_start_ms s' = bucket_start_ms s" "unconfirmed s' = unconfirmed s"
  using assms by (auto simp: finalizer_check_def unconfirmed_def split: if_splits elim!: check_chain_Some)

lemma provisional_confirmed:
  assumes "finalizer_check (default_chain cfg) s tr = Some s'" "unconfirmed s"
  shows "finality s' = AUTHORITATIVE"
proof -
  have "check_chain (default_chain cfg) s tr = Some s'" using assms(1) by (simp add: finalizer_check_def split: if_splits)
  then obtain name st where n: "(name, st) \<in> set (default_chain cfg)" "should_close st s tr = Some True"
    and f: "finality s' = (if name \<in> {''batch'', ''source_close'', ''composite_close''} then AUTHORITATIVE else PROVISIONAL)"
    by (elim check_chain_Some) (simp del: insert_iff)
  have "st \<noteq> EventDrivenFinalizer" "st \<noteq> TimeBasedFinalizer (finalize_timeout_ms cfg)" using n(2) assms(2) by (auto split: if_splits)
  then have "name \<in> {''batch'', ''source_close'', ''composite_close''}"
    using n(1) by (auto simp: default_chain_def split: if_splits)
  then show ?thesis using f by (simp del: insert_iff)
qed

section \<open>One step of the pipeline\<close>

definition pipe_inv :: "'f bar_state_engine \<Rightarrow> bool" where
  "pipe_inv e \<longleftrightarrow> engine_inv e \<and> active_bounded e"

definition key_of :: "'f bar_state \<Rightarrow> bar_key" where
  "key_of s = (norm (bs_exchange s), norm (bs_market_type s), bs_symbol s, bucket_start_ms s)"

definition keys_match :: "'f bar_state_engine \<Rightarrow> bool" where
  "keys_match e \<longleftrightarrow> (\<forall>k s. map_of (active e) k = Some s \<longrightarrow> k = key_of s)"

text \<open>
  What an event says of its bar: a CLOSED event carries a sealed bar which, when its source has
  to confirm the close and did not, is backed by authority; an EXPIRED event an expired one.
\<close>

fun sound_event :: "bar_event_type \<times> 'f bar_state \<Rightarrow> bool" where
  "sound_event (EV_CLOSED, s) = (status s = CLOSED \<and> (unconfirmed s \<longrightarrow> finality s = AUTHORITATIVE))"
| "sound_event (EV_EXPIRED, s) = (status s = EXPIRED)"
| "sound_event _ = True"

text \<open>
  And under any chain: no bar whose source still owes the confirmation is closed unless a strategy
  of the chain sealed it.
\<close>

fun strategic_event :: "'f chain \<Rightarrow> bar_event_type \<times> 'f bar_state \<Rightarrow> bool" where
  "strategic_event chain (EV_CLOSED, s) =
     (status s = CLOSED \<and> (unconfirmed s \<longrightarrow> (\<exists>name \<in> fst ` set chain. close_reason s = Some name)))"
| "strategic_event chain (EV_EXPIRED, s) = (status s = EXPIRED)"
| "strategic_event chain _ = True"

text \<open>What a property of events needs to hold of every step.\<close>

definition admits :: "'f chain \<Rightarrow> (bar_event_type \<times> 'f bar_state \<Rightarrow> bool) \<Rightarrow> bool" where
  "admits chain P \<longleftrightarrow>
     (\<forall>s tr s' now. finalizer_check chain s tr = Some s' \<longrightarrow> P (EV_CLOSED, s'\<lparr>status := CLOSED, updated_at_ms := now\<rparr>)) \<and>
     (\<forall>s. status s = CLOSED \<longrightarrow> \<not> unconfirmed s \<longrightarrow> P (EV_CLOSED, s)) \<and> (\<forall>s. status s = EXPIRED \<longrightarrow> P (EV_EXPIRED, s)) \<and>
     (\<forall>s. P (EV_CREATED, s) \<and> P (EV_UPDATED, s) \<and> P (EV_AMENDED, s))"

lemma default_admits: "admits (default_chain cfg) sound_event"
  unfolding admits_def
proof (intro conjI allI impI)
  fix s tr s' and now :: int assume f: "finalizer_check (default_chain cfg) s tr = Some s'"
  show "sound_event (EV_CLOSED, s'\<lparr>status := CLOSED, updated_at_ms := now\<rparr>)"
    using provisional_confirmed[OF f] finalizer_check_keeps(7)[OF f] by (simp add: unconfirmed_def)
qed simp_all

lemma strategy_admits: "admits chain (strategic_event chain)"
  unfolding admits_def
proof (intro conjI allI impI)
  fix s tr s' and now :: int assume "finalizer_check chain s tr = Some s'"
  then have "check_chain chain s tr = Some s'" by (simp add: finalizer_check_def split: if_splits)
  then obtain name st where "(name, st) \<in> set chain" "close_reason s' = Some name" by (elim check_chain_Some) simp
  then show "strategic_event chain (EV_CLOSED, s'\<lparr>status := CLOSED, updated_at_ms := now\<rparr>)" by force
qed simp_all

lemma norm_idem [simp]: "norm (norm s) = norm s"
  by (simp add: norm_def)

lemma mutate_ok:
  assumes "pipe_inv e" "status s = FORMING"
  shows "pipe_inv (mutate_active k s e)"
proof (cases "map_of (active e) k")
  case (Some x)
  have i: "engine_inv e" and b: "active_bounded e" using assms(1) by (simp_all add: pipe_inv_def)
  have "engine_inv (e\<lparr>active := AList.update k s (active e)\<rparr>)"
    by (rule update_active_inv[OF i engine_invD(4)[OF i Some] assms(2)])
  moreover have "active_bounded (e\<lparr>active := AList.update k s (active e)\<rparr>)"
    by (rule bounded_mono[OF b]) (simp_all add: symbol_keys_cong[OF map_fst_update_in[OF Some]])
  ultimately show ?thesis by (simp add: mutate_active_def Some pipe_inv_def)
qed (simp add: mutate_active_def assms(1))

lemma drain_ok: "pipe_inv e \<Longrightarrow> pipe_inv (fst (drain_eviction_buffers e))"
  by (simp add: drain_eviction_buffers_def pipe_inv_def engine_inv_def active_bounded_def)

lemma drain_active [simp]: "active (fst (drain_eviction_buffers e)) = active e"
  by (simp add: drain_eviction_buffers_def)

lemma drain_sound: "pipe_inv e \<Longrightarrow> admits chain P \<Longrightarrow> list_all P (snd (drain_eviction_buffers e))"
  by (auto simp: drain_eviction_buffers_def pipe_inv_def engine_inv_def list_all_iff unconfirmed_def admits_def)

lemma close_ok: "pipe_inv e \<Longrightarrow> pipe_inv (fst (close_bar now ex mt sy b e))"
  using close_bar_ok unfolding pipe_inv_def by blast

lemma expire_ok: "pipe_inv e \<Longrightarrow> pipe_inv (fst (expire_bar ex mt sy b e))"
  using expire_bar_ok unfolding pipe_inv_def by blast

lemma close_active:
  "map_of (active (fst (close_bar now ex mt sy b e))) = (map_of (active e))((norm ex, norm mt, sy, b) := None)"
  by (cases "map_of (active e) (norm ex, norm mt, sy, b)")
    (simp_all add: close_bar_def Let_def map_of_delete enforce_closed_limit_def fold_evict_closed_active fun_upd_idem)

lemma expire_active:
  "map_of (active (fst (expire_bar ex mt sy b e))) = (map_of (active e))((norm ex, norm mt, sy, b) := None)"
  by (cases "map_of (active e) (norm ex, norm mt, sy, b)")
    (simp_all add: expire_bar_def Let_def map_of_delete fun_upd_idem split: option.split)

lemma mutate_map:
  "map_of (active (mutate_active k s e)) = (if map_of (active e) k = None then map_of (active e) else (map_of (active e))(k \<mapsto> s))"
  by (simp add: mutate_active_def map_of_update)

lemma close_mutated:
  "snd (close_bar now ex mt sy b (mutate_active (norm ex, norm mt, sy, b) s e)) = Some x \<Longrightarrow>
    x = s\<lparr>status := CLOSED, updated_at_ms := now\<rparr>"
  by (auto simp: close_bar_def Let_def mutate_map split: option.splits if_splits)

lemma expire_status: "snd (expire_bar ex mt sy b e) = Some x \<Longrightarrow> status x = EXPIRED"
  by (auto simp: expire_bar_def Let_def split: option.splits)

text \<open>What settling one entry does: every conclusion the passes need.\<close>

definition settles :: "'f chain \<Rightarrow> aggregator_config \<Rightarrow> 'f bar_state \<Rightarrow> 'f finalize_trigger \<Rightarrow> bool" where
  "settles chain cfg s tr \<longleftrightarrow> finalizer_check chain s tr \<noteq> None \<or> should_expire_unconfirmed cfg s tr"

lemma settle_bar_ok:
  assumes "pipe_inv e"
  shows "pipe_inv (fst (settle_bar chain cfg now drain reason tr (k, s) ex mt sy e))"
proof -
  have "status (s\<lparr>close_reason := Some reason\<rparr>) = FORMING" if "should_expire_unconfirmed cfg s tr"
    using that by (simp add: should_expire_unconfirmed_def must_fail_closed_def split: if_splits)
  then show ?thesis using assms
    by (auto simp: settle_bar_def Let_def split_def split: option.split
        intro!: mutate_ok close_ok expire_ok drain_ok dest: finalizer_check_keeps(2))
qed

lemma settle_bar_active:
  assumes "k = (norm ex, norm mt, sy, bucket_start_ms s)"
  shows "map_of (active (fst (settle_bar chain cfg now drain reason tr (k, s) ex mt sy e)))
    = (if settles chain cfg s tr then (map_of (active e))(k := None) else map_of (active e))"
  using assms by (auto simp: settle_bar_def settles_def Let_def split_def close_active expire_active mutate_map split: option.split)

lemma settle_bar_sound:
  assumes "pipe_inv e" "k = (norm ex, norm mt, sy, bucket_start_ms s)" "admits chain P"
  shows "list_all P (snd (settle_bar chain cfg now drain reason tr (k, s) ex mt sy e))"
proof (cases "finalizer_check chain s tr")
  case None
  then show ?thesis using assms(3)
    by (auto simp: settle_bar_def Let_def split_def admits_def split: option.split dest: expire_status)
next
  case (Some s')
  let ?m = "mutate_active k s' e"
  let ?c = "close_bar now ex mt sy (bucket_start_ms s) ?m"
  have inv: "pipe_inv (fst ?c)" by (intro close_ok mutate_ok assms(1) finalizer_check_keeps(2)[OF Some])
  have "P (EV_CLOSED, x)" if "snd ?c = Some x" for x
  proof -
    have "x = s'\<lparr>status := CLOSED, updated_at_ms := now\<rparr>"
      using close_mutated[of now ex mt sy "bucket_start_ms s" s' e x] that assms(2) by simp
    then show ?thesis using assms(3) Some by (simp add: admits_def)
  qed
  then show ?thesis using Some drain_sound[OF inv assms(3)] by (auto simp: settle_bar_def Let_def split_def split: option.split)
qed

section \<open>Passes\<close>

definition entries_match :: "string \<Rightarrow> string \<Rightarrow> string \<Rightarrow> (bar_key \<times> 'f bar_state) list \<Rightarrow> bool" where
  "entries_match ex mt sy es \<longleftrightarrow> (\<forall>(k, s)\<in>set es. k = (norm ex, norm mt, sy, bucket_start_ms s))"

lemma event_driven_pass_ok:
  "pipe_inv e \<Longrightarrow> pipe_inv (fst (event_driven_pass chain cfg now ex mt sy b es e))"
  by (induction es arbitrary: e) (auto simp: split_def Let_def settle_bar_ok)

lemma event_driven_pass_active:
  assumes "entries_match ex mt sy es"
    "map_of (active (fst (event_driven_pass chain cfg now ex mt sy b es e))) k = Some s"
  shows "map_of (active e) k = Some s"
  using assms
proof (induction es arbitrary: e)
  case (Cons x es)
  obtain k' s' where x: "x = (k', s')" by (cases x)
  let ?r = "settle_bar chain cfg now True ''next_bucket_unconfirmed''
    \<lparr>trigger_type = ''next_bucket'', tr_input = None, current_time_ms = now,
     next_bucket_start = Some b, is_backfill = False\<rparr> (k', s') ex mt sy e"
  let ?e1 = "if bucket_start_ms s' < b then fst ?r else e"
  have "map_of (active ?e1) k = Some s"
    using Cons.IH[of ?e1] Cons.prems by (simp add: x entries_match_def split_def Let_def split: if_splits)
  moreover have "k' = (norm ex, norm mt, sy, bucket_start_ms s')" using Cons.prems(1) by (simp add: entries_match_def x)
  ultimately show ?case using settle_bar_active[of k' ex mt sy s' chain cfg now]
    by (simp split: if_splits)
qed simp

lemma event_driven_pass_sound:
  "pipe_inv e \<Longrightarrow> entries_match ex mt sy es \<Longrightarrow> admits chain P \<Longrightarrow>
    list_all P (snd (event_driven_pass chain cfg now ex mt sy b es e))"
  by (induction es arbitrary: e)
    (auto simp: split_def Let_def entries_match_def settle_bar_ok intro!: settle_bar_sound)

lemma symbol_entries_match:
  assumes "keys_match e" "od_wf (active e)"
  shows "entries_match ex mt sy (symbol_entries ex mt sy e)"
proof -
  have "k = (norm ex, norm mt, sy, bucket_start_ms s)"
    if "(k, s) \<in> set (active e)" "same_symbol (norm ex) (norm mt) sy k" for k s
  proof -
    have "map_of (active e) k = Some s" using that(1) assms(2) by (simp add: od_wf_def)
    then show ?thesis using assms(1) that(2) by (auto simp: keys_match_def key_of_def same_symbol_def)
  qed
  then show ?thesis by (auto simp: entries_match_def symbol_entries_def)
qed

definition timer :: "int \<Rightarrow> 'f finalize_trigger" where
  "timer now = \<lparr>trigger_type = ''timer'', tr_input = None, current_time_ms = now,
     next_bucket_start = None, is_backfill = False\<rparr>"

lemma timeout_pass_ok: "pipe_inv e \<Longrightarrow> pipe_inv (fst (timeout_pass chain cfg now es e))"
  by (induction es arbitrary: e) (auto simp: split_def Let_def settle_bar_ok)

lemma timeout_pass_sound:
  "pipe_inv e \<Longrightarrow> \<forall>(k, s)\<in>set es. k = key_of s \<Longrightarrow> admits chain P \<Longrightarrow>
    list_all P (snd (timeout_pass chain cfg now es e))"
  by (induction es arbitrary: e)
    (auto simp: split_def Let_def key_of_def settle_bar_ok intro!: settle_bar_sound)

lemma timeout_pass_active:
  "\<forall>(k, s)\<in>set es. k = key_of s \<Longrightarrow>
    map_of (active (fst (timeout_pass chain cfg now es e))) k = Some s \<Longrightarrow>
    map_of (active e) k = Some s \<and> (\<forall>s'. (k, s') \<in> set es \<longrightarrow> \<not> settles chain cfg s' (timer now))"
proof (induction es arbitrary: e)
  case (Cons x es)
  obtain k' s' where x: "x = (k', s')" by (cases x)
  let ?e1 = "fst (settle_bar chain cfg now False ''timeout_unconfirmed'' (timer now) (k', s')
      (bs_exchange s') (bs_market_type s') (bs_symbol s') e)"
  have "map_of (active ?e1) k = Some s \<and> (\<forall>s'. (k, s') \<in> set es \<longrightarrow> \<not> settles chain cfg s' (timer now))"
    by (rule Cons.IH) (use Cons.prems in \<open>simp_all add: x split_def Let_def timer_def\<close>)
  moreover have "k' = key_of s'" using Cons.prems(1) by (simp add: x)
  ultimately show ?case
    using settle_bar_active[of k' "bs_exchange s'" "bs_market_type s'" "bs_symbol s'" s' chain cfg now False
        "''timeout_unconfirmed''" "timer now" e]
    by (auto simp: x key_of_def split: if_splits)
qed simp

lemma settles_timer:
  assumes "status s = FORMING" "bucket_end_ms s + finalize_timeout_ms cfg \<le> now"
  shows "settles (default_chain cfg) cfg s (timer now)"
proof (cases "unconfirmed s")
  case True
  then show ?thesis using assms
    by (simp add: settles_def should_expire_unconfirmed_def must_fail_closed_def timer_def)
next
  case False
  have "check_chain (default_chain cfg) s (timer now) \<noteq> None"
    by (rule check_chain_complete[of "''time_based''" "TimeBasedFinalizer (finalize_timeout_ms cfg)"])
      (use False assms in \<open>simp_all add: default_chain_def timer_def\<close>)
  then show ?thesis using assms(1) by (simp add: settles_def finalizer_check_def)
qed

lemma keys_match_sub:
  "keys_match e \<Longrightarrow> (\<And>k s. map_of (active e') k = Some s \<Longrightarrow> map_of (active e) k = Some s) \<Longrightarrow> keys_match e'"
  unfolding keys_match_def by blast

lemma active_entries_match: "keys_match e \<Longrightarrow> od_wf (active e) \<Longrightarrow> \<forall>(k, s)\<in>set (active e). k = key_of s"
  by (auto simp: keys_match_def od_wf_def)

lemma flush_keeps: "status (snd (finalizer_flush s)) = status s" "unconfirmed (snd (finalizer_flush s)) = unconfirmed s"
  by (simp_all add: finalizer_flush_def unconfirmed_def)

text \<open>One key of the shutdown flush.\<close>

lemma flush_one:
  assumes "pipe_inv e" "map_of (active e) k = Some s" "k = (norm ex, norm mt, sy, b)" "admits chain P"
  shows "\<exists>e1 ev. (\<forall>rest. flush_pass now ((ex, mt, sy, b) # rest) e = (fst (flush_pass now rest e1), ev # snd (flush_pass now rest e1)))
    \<and> pipe_inv e1 \<and> P ev \<and> map_of (active e1) = (map_of (active e))(k := None)"
proof -
  define m where "m = mutate_active k (snd (finalizer_flush s)) e"
  have st: "status s = FORMING" using assms(1,2) engine_invD(5) unfolding pipe_inv_def by blast
  have m: "pipe_inv m" unfolding m_def by (rule mutate_ok[OF assms(1)]) (simp add: flush_keeps st)
  have mk: "map_of (active m) = (map_of (active e))(k \<mapsto> snd (finalizer_flush s))"
    using assms(2) by (simp add: m_def mutate_map)
  show ?thesis
  proof (cases "unconfirmed s")
    case True
    let ?c = "expire_bar ex mt sy b m"
    have "snd ?c = Some ((snd (finalizer_flush s))\<lparr>status := EXPIRED\<rparr>)" using mk assms(3) by (simp add: expire_bar_def Let_def)
    moreover have "fst (finalizer_flush s) = EV_EXPIRED" using True st by (simp add: finalizer_flush_def must_fail_closed_def)
    moreover have "P (EV_EXPIRED, (snd (finalizer_flush s))\<lparr>status := EXPIRED\<rparr>)" using assms(4) by (simp add: admits_def)
    ultimately show ?thesis using assms(2,3) expire_ok[OF m] expire_active[of ex mt sy b m] mk
      by (intro exI[of _ "fst ?c"] exI[of _ "(EV_EXPIRED, (snd (finalizer_flush s))\<lparr>status := EXPIRED\<rparr>)"])
        (auto simp: split_def Let_def m_def)
  next
    case False
    let ?c = "close_bar now ex mt sy b m"
    let ?x = "(snd (finalizer_flush s))\<lparr>status := CLOSED, updated_at_ms := now\<rparr>"
    have "snd ?c = Some ?x" using mk assms(3) by (simp add: close_bar_def Let_def)
    moreover have "fst (finalizer_flush s) = EV_CLOSED" using False by (simp add: finalizer_flush_def must_fail_closed_def)
    moreover have "P (EV_CLOSED, ?x)" using False flush_keeps(2)[of s] assms(4) by (auto simp: unconfirmed_def admits_def)
    ultimately show ?thesis using assms(2,3) close_ok[OF m] close_active[of now ex mt sy b m] mk
      by (intro exI[of _ "fst ?c"] exI[of _ "(EV_CLOSED, ?x)"]) (auto simp: split_def Let_def m_def)
  qed
qed

lemma flush_pass_ok:
  assumes "pipe_inv e" "distinct ks" "\<forall>k\<in>set ks. map_of (active e) k \<noteq> None \<and> (\<exists>ex mt sy b. k = (norm ex, norm mt, sy, b))"
    "admits chain P"
  shows "pipe_inv (fst (flush_pass now ks e)) \<and> list_all P (snd (flush_pass now ks e))
    \<and> length (snd (flush_pass now ks e)) = length ks
    \<and> map_of (active (fst (flush_pass now ks e))) = (\<lambda>k. if k \<in> set ks then None else map_of (active e) k)"
  using assms
proof (induction ks arbitrary: e)
  case (Cons k ks)
  obtain ex mt sy b s where k: "k = (norm ex, norm mt, sy, b)" "map_of (active e) k = Some s" using Cons.prems(3) by auto
  have k': "k = (norm (norm ex), norm (norm mt), sy, b)" using k(1) by simp
  from flush_one[OF Cons.prems(1) k(2) k' Cons.prems(4), of now] obtain e1 ev where
    f: "flush_pass now ((norm ex, norm mt, sy, b) # ks) e = (fst (flush_pass now ks e1), ev # snd (flush_pass now ks e1))"
    and i: "pipe_inv e1" "P ev" "map_of (active e1) = (map_of (active e))(k := None)" by blast
  have "\<forall>k\<in>set ks. map_of (active e1) k \<noteq> None \<and> (\<exists>ex mt sy b. k = (norm ex, norm mt, sy, b))"
    using Cons.prems(2,3) by (auto simp: i(3))
  then show ?case using Cons.IH[OF i(1)] Cons.prems(2,4) f i(2,3) k(1) by (auto simp: fun_eq_iff)
qed simp

section \<open>Runs\<close>

definition range_start_ok :: "time_bucket_engine \<Rightarrow> bool" where
  "range_start_ok eng \<longleftrightarrow> (\<forall>t b s stop. engine_compute_bucket eng t = Inr b \<longrightarrow> engine_bucket_range eng b = Inr (s, stop) \<longrightarrow> s = b)"

text \<open>
  The steps of a pipeline: an input (with an upper-case symbol, as the router passes it), a
  timer tick, the shutdown flush, and clearing.
\<close>

inductive pipeline_step :: "'f float_ops \<Rightarrow> 'f chain \<Rightarrow> aggregator_config \<Rightarrow> 'f bar_state_engine \<Rightarrow> 'f events \<Rightarrow>
    'f bar_state_engine \<Rightarrow> bool" for F chain cfg where
  step_input: "handle_bar_input F chain cfg emit now ex mt sy i e = (e', ev, r) \<Longrightarrow> py_strip (py_upper sy) = sy \<Longrightarrow>
    pipeline_step F chain cfg e ev e'"
| step_timer: "check_timeouts chain cfg now e = (e', ev) \<Longrightarrow> pipeline_step F chain cfg e ev e'"
| step_flush: "flush_all now e = (e', ev) \<Longrightarrow> pipeline_step F chain cfg e ev e'"
| step_clear: "pipeline_step F chain cfg e [] (clear_symbol sy ex mt e)"

inductive_cases pipeline_stepE: "pipeline_step F chain cfg e ev e'"

inductive reachable :: "'f float_ops \<Rightarrow> 'f chain \<Rightarrow> aggregator_config \<Rightarrow> time_bucket_engine \<Rightarrow> 'f bar_state_engine \<Rightarrow> bool"
  for F chain cfg tb where
  reach_new: "reachable F chain cfg tb (new_bar_state_engine amax cmax tb iv)"
| reach_step: "reachable F chain cfg tb e \<Longrightarrow> pipeline_step F chain cfg e ev e' \<Longrightarrow> reachable F chain cfg tb e'"

definition run_inv :: "time_bucket_engine \<Rightarrow> 'f bar_state_engine \<Rightarrow> bool" where
  "run_inv tb e \<longleftrightarrow> pipe_inv e \<and> keys_match e \<and> eng_time_bucket e = tb"

lemma run_merge_ids:
  assumes "merge_override e = None"
  shows "key_of (mark_authoritative i (fst (run_merge F now e s i b))) = key_of s"
  using assms by (auto simp: run_merge_def component_merge_def standard_merge_def replace_additive_def add_additive_def
      zero_additive_def rebuild_from_def mark_authoritative_def key_of_def Let_def)

lemma enforce_active_sub:
  assumes "map_of (active (enforce_active_limit now ex mt sy e)) k = Some s"
  shows "map_of (active e) k = Some s"
proof -
  have "map_of (active (foldl (\<lambda>e k. evict_active now k e) e ks)) k = Some s \<Longrightarrow> map_of (active e) k = Some s" for ks
  proof (induction ks arbitrary: e)
    case (Cons x ks)
    from Cons.IH[of "evict_active now x e"] Cons.prems have "map_of (active (evict_active now x e)) k = Some s" by simp
    then show ?case by (auto simp: evict_active_def Let_def map_of_delete split: option.splits if_splits)
  qed simp
  then show ?thesis using assms by (simp add: enforce_active_limit_def Let_def)
qed

lemma apply_input_keys:
  assumes "pipe_inv e" "keys_match e" "py_strip (py_upper sy) = sy" "range_start_ok (eng_time_bucket e)"
    "engine_compute_bucket (eng_time_bucket e) t = Inr b" "apply_input F now ex mt sy b i e = Inr (e', s', ch)"
  shows "keys_match e'"
proof -
  let ?key = "(norm ex, norm mt, sy, b)"
  have inv: "engine_inv e" using assms(1) by (simp add: pipe_inv_def)
  consider (a) s where "map_of (active e) ?key = Some s"
    | (c) old where "map_of (active e) ?key = None" "map_of (closed e) ?key = Some old"
    | (n) "map_of (active e) ?key = None" "map_of (closed e) ?key = None"
    by (cases "map_of (active e) ?key"; cases "map_of (closed e) ?key") auto
  then show ?thesis
  proof cases
    case a
    have "key_of (mark_authoritative i (fst (run_merge F now e s i False))) = ?key"
      using run_merge_ids[OF engine_invD(1)[OF inv]] assms(2) a by (metis keys_match_def)
    then show ?thesis using assms(2,6) a
      by (auto simp: apply_input_def apply_active_def Let_def split_def keys_match_def map_of_update split: if_splits)
  next
    case c
    then show ?thesis using assms(2,6)
      by (auto simp: apply_input_def apply_closed_def Let_def split_def keys_match_def split: if_splits)
  next
    case n
    obtain b' stop where r: "engine_bucket_range (eng_time_bucket e) b = Inr (b', stop)"
      using assms(6) n by (auto simp: apply_input_def Let_def bindr_eq_Inr simp del: map_of_eq_None_iff)
    then have b: "b' = b" using assms(4,5) by (auto simp: range_start_ok_def)
    define s1 where "s1 = mark_authoritative i (fst (run_merge F now e
      (fresh_state F now (py_strip (py_upper sy)) (eng_interval e) (norm ex) (norm mt) b stop) i True))"
    define e1 where "e1 = e\<lparr>active := AList.update ?key s1 (active e)\<rparr>"
    have e': "e' = enforce_active_limit now (norm ex) (norm mt) sy e1"
      using assms(6) n r b by (auto simp: apply_input_def Let_def s1_def e1_def simp del: map_of_eq_None_iff)
    have "key_of s1 = ?key" unfolding s1_def
      by (subst run_merge_ids[OF engine_invD(1)[OF inv]]) (simp add: key_of_def fresh_state_def assms(3))
    then have "keys_match e1" using assms(2) by (auto simp: keys_match_def e1_def map_of_update)
    then show ?thesis unfolding e' by (rule keys_match_sub) (rule enforce_active_sub)
  qed
qed

subsection \<open>The time bucket never changes\<close>

lemma tb_simps [simp]:
  "eng_time_bucket (evict_active now k e) = eng_time_bucket e"
  "eng_time_bucket (evict_closed k e) = eng_time_bucket e"
  "eng_time_bucket (mutate_active k s e) = eng_time_bucket e"
  "eng_time_bucket (fst (drain_eviction_buffers e)) = eng_time_bucket e"
  "eng_time_bucket (clear_symbol sy' ex' mt' e) = eng_time_bucket e"
  "eng_time_bucket (fst (expire_bar ex mt sy b e)) = eng_time_bucket e"
  by (simp_all add: evict_active_def evict_closed_def mutate_active_def drain_eviction_buffers_def clear_symbol_def
      expire_bar_def Let_def split: option.split)

lemma tb_enforce [simp]:
  "eng_time_bucket (enforce_active_limit now ex mt sy e) = eng_time_bucket e"
  "eng_time_bucket (enforce_closed_limit ex mt sy e) = eng_time_bucket e"
proof -
  have "eng_time_bucket (foldl (\<lambda>e k. evict_active now k e) e ks) = eng_time_bucket e"
    "eng_time_bucket (foldl (\<lambda>e k. evict_closed k e) e ks) = eng_time_bucket e" for ks
    by (induction ks arbitrary: e) simp_all
  then show "eng_time_bucket (enforce_active_limit now ex mt sy e) = eng_time_bucket e"
    "eng_time_bucket (enforce_closed_limit ex mt sy e) = eng_time_bucket e"
    by (simp_all add: enforce_active_limit_def enforce_closed_limit_def Let_def)
qed

lemma tb_close [simp]: "eng_time_bucket (fst (close_bar now ex mt sy b e)) = eng_time_bucket e"
  by (simp add: close_bar_def Let_def split: option.split)

lemma tb_settle [simp]: "eng_time_bucket (fst (settle_bar chain cfg now drain reason tr x ex mt sy e)) = eng_time_bucket e"
  by (auto simp: settle_bar_def Let_def split_def split: option.split)

lemma tb_passes [simp]:
  "eng_time_bucket (fst (event_driven_pass chain cfg now ex mt sy b es e)) = eng_time_bucket e"
  "eng_time_bucket (fst (timeout_pass chain cfg now es e)) = eng_time_bucket e"
  by (induction es arbitrary: e) (auto simp: split_def Let_def)

lemma tb_flush [simp]: "eng_time_bucket (fst (flush_pass now ks e)) = eng_time_bucket e"
  by (induction ks arbitrary: e) (auto simp: split_def Let_def split: option.split)

lemma tb_apply: "apply_input F now ex mt sy b i e = Inr (e', s', ch) \<Longrightarrow> eng_time_bucket e' = eng_time_bucket e"
  by (auto simp: apply_input_def apply_active_def apply_closed_def Let_def split_def bindr_eq_Inr split: option.splits if_splits)

subsection \<open>Every step keeps the invariant\<close>

lemma event_driven_close_ok:
  assumes "run_inv tb e"
  shows "run_inv tb (fst (event_driven_close chain cfg now ex mt sy b e))"
proof -
  have wf: "pipe_inv e" "keys_match e" "od_wf (active e)" using assms by (auto simp: run_inv_def pipe_inv_def engine_inv_def)
  have m: "entries_match ex mt sy (symbol_entries ex mt sy e)" by (rule symbol_entries_match[OF wf(2,3)])
  have "keys_match (fst (event_driven_pass chain cfg now ex mt sy b (symbol_entries ex mt sy e) e))"
    by (rule keys_match_sub[OF wf(2)]) (rule event_driven_pass_active[OF m])
  then show ?thesis using assms event_driven_pass_ok[OF wf(1)] by (simp add: event_driven_close_def run_inv_def)
qed

lemma event_driven_close_sound:
  "run_inv tb e \<Longrightarrow> admits chain P \<Longrightarrow> list_all P (snd (event_driven_close chain cfg now ex mt sy b e))"
  unfolding event_driven_close_def
  by (auto simp: run_inv_def pipe_inv_def engine_inv_def intro!: event_driven_pass_sound symbol_entries_match)

text \<open>Sealing the bar the input went into.\<close>

lemma seal_ok:
  assumes "run_inv tb e" "status s' = FORMING"
  shows "run_inv tb (fst (close_bar now ex mt sy b (mutate_active (norm ex, norm mt, sy, b) s' e)))"
proof -
  let ?e = "close_bar now ex mt sy b (mutate_active (norm ex, norm mt, sy, b) s' e)"
  have "pipe_inv (fst ?e)" using assms by (intro close_ok mutate_ok) (simp_all add: run_inv_def)
  moreover have "map_of (active (fst ?e)) = (map_of (active e))((norm ex, norm mt, sy, b) := None)"
    by (cases "map_of (active e) (norm ex, norm mt, sy, b) = None") (simp_all only: close_active mutate_map if_True if_False fun_upd_upd simp_thms)
  then have "keys_match (fst ?e)" using assms(1) unfolding run_inv_def keys_match_def
    by (metis fun_upd_other fun_upd_same option.distinct(1))
  ultimately show ?thesis using assms(1) by (simp add: run_inv_def)
qed

lemma drain_run_inv: "run_inv tb e \<Longrightarrow> run_inv tb (fst (drain_eviction_buffers e))"
  by (simp add: run_inv_def drain_ok keys_match_def)

lemma change_sound: "admits chain P \<Longrightarrow> list_all P (change_event c s)"
  by (cases c) (simp_all add: change_event_def admits_def)

lemma handle_bar_input_ok:
  assumes "run_inv tb e" "range_start_ok tb" "py_strip (py_upper sy) = sy"
    "handle_bar_input F chain cfg emit now ex mt sy i e = (e', ev, r)" "admits chain P"
  shows "run_inv tb e' \<and> list_all P ev"
proof (cases "engine_compute_bucket (eng_time_bucket e) (in_open_time_ms i)")
  case (Inl x)
  then show ?thesis using assms(1,4) by (simp add: handle_bar_input_def)
next
  case (Inr b)
  define r1 where "r1 = event_driven_close chain cfg now ex mt sy b e"
  have i1: "run_inv tb (fst r1)" unfolding r1_def by (rule event_driven_close_ok[OF assms(1)])
  have s1: "list_all P (snd r1)" using event_driven_close_sound[OF assms(1,5)] by (simp add: r1_def)
  show ?thesis
  proof (cases "apply_input F now ex mt sy b i (fst r1)")
    case (Inl x)
    then show ?thesis using Inr assms(4) i1 s1 by (auto simp: handle_bar_input_def split_def Let_def r1_def[symmetric])
  next
    fix a assume "apply_input F now ex mt sy b i (fst r1) = Inr a"
    then obtain e2 s c where a: "apply_input F now ex mt sy b i (fst r1) = Inr (e2, s, c)" by (cases a) auto
    have tb: "eng_time_bucket e = tb" "eng_time_bucket (fst r1) = tb" using assms(1) i1 by (simp_all add: run_inv_def)
    have "keys_match e2"
      by (rule apply_input_keys[OF _ _ assms(3) _ _ a, of "in_open_time_ms i"]) (use i1 assms(2) Inr tb in \<open>simp_all add: run_inv_def\<close>)
    then have i2: "run_inv tb e2"
      using apply_input_ok[OF _ _ a] i1 tb_apply[OF a] by (simp add: run_inv_def pipe_inv_def)
    define r3 where "r3 = drain_eviction_buffers e2"
    have i3: "run_inv tb (fst r3)" unfolding r3_def by (rule drain_run_inv[OF i2])
    have s3: "list_all P (snd r3)" unfolding r3_def using drain_sound assms(5) i2 by (auto simp: run_inv_def)
    define r4 where "r4 = (\<lambda>s'. close_bar now ex mt sy b (mutate_active (norm ex, norm mt, sy, b) s' (fst r3)))"
    define out where "out = (\<lambda>ev :: 'a events. if emit then ev else [])"
    have out: "list_all P ev \<Longrightarrow> list_all P (out ev)" for ev by (simp add: out_def)
    have h: "(case finalizer_check chain s (input_trigger now i) of
        None \<Rightarrow> (fst r3, out (snd r1 @ snd r3 @ change_event c s), Inr ())
      | Some s' \<Rightarrow> (case snd (r4 s') of None \<Rightarrow> (fst (r4 s'), out (snd r1 @ snd r3 @ change_event c s), Inr ())
         | Some x \<Rightarrow> (fst (drain_eviction_buffers (fst (r4 s'))),
             out (snd r1 @ snd r3 @ change_event c s @ (EV_CLOSED, x) # snd (drain_eviction_buffers (fst (r4 s')))), Inr ())))
      = (e', ev, r)"
      using assms(4) Inr a unfolding r1_def r3_def r4_def out_def
      by (simp add: handle_bar_input_def split_def Let_def cong: option.case_cong)
    show ?thesis
    proof (cases "finalizer_check chain s (input_trigger now i)")
      case None
      then show ?thesis using h i3 s1 s3 change_sound[OF assms(5)] out by auto
    next
      case (Some s')
      have i4: "run_inv tb (fst (r4 s'))" unfolding r4_def by (rule seal_ok[OF i3 finalizer_check_keeps(2)[OF Some]])
      have "P (EV_CLOSED, x)" if "snd (r4 s') = Some x" for x
      proof -
        have "x = s'\<lparr>status := CLOSED, updated_at_ms := now\<rparr>" using close_mutated that unfolding r4_def by blast
        then show ?thesis using assms(5) Some by (simp add: admits_def)
      qed
      moreover have "list_all P (snd (drain_eviction_buffers (fst (r4 s'))))"
        using drain_sound assms(5) i4 by (auto simp: run_inv_def)
      ultimately show ?thesis using h Some i4 drain_run_inv[OF i4] s1 s3 change_sound[OF assms(5)] out
        by (auto split: option.splits)
    qed
  qed
qed

lemma check_timeouts_ok:
  assumes "run_inv tb e" "admits chain P"
  shows "run_inv tb (fst (check_timeouts chain cfg now e)) \<and> list_all P (snd (check_timeouts chain cfg now e))"
proof -
  have e: "pipe_inv e" "\<forall>(k, s)\<in>set (active e). k = key_of s" "keys_match e"
    using assms(1) active_entries_match by (auto simp: run_inv_def pipe_inv_def engine_inv_def)
  have "keys_match (fst (check_timeouts chain cfg now e))" unfolding check_timeouts_def
    by (rule keys_match_sub[OF e(3)]) (use timeout_pass_active[OF e(2)] in blast)
  then show ?thesis using assms timeout_pass_ok[OF e(1)] timeout_pass_sound[OF e(1,2) assms(2)]
    by (simp add: run_inv_def check_timeouts_def)
qed

lemma flush_all_ok:
  assumes "run_inv tb e" "admits chain P"
  shows "run_inv tb (fst (flush_all now e)) \<and> list_all P (snd (flush_all now e))
    \<and> active (fst (flush_all now e)) = [] \<and> length (snd (flush_all now e)) = length (active e)"
proof -
  have e: "pipe_inv e" "\<forall>(k, s)\<in>set (active e). k = key_of s" "od_wf (active e)"
    using assms(1) active_entries_match by (auto simp: run_inv_def pipe_inv_def engine_inv_def)
  have "map_of (active e) k \<noteq> None \<and> (\<exists>ex mt sy b. k = (norm ex, norm mt, sy, b))" if kin: "k \<in> set (map fst (active e))" for k
  proof -
    obtain s where s: "map_of (active e) k = Some s" using kin by (metis list.set_map map_of_eq_None_iff not_None_eq)
    then have "k = key_of s" using e(2) map_of_SomeD[OF s] by blast
    then have "k = (norm (bs_exchange s), norm (bs_market_type s), bs_symbol s, bucket_start_ms s)"
      by (simp only: key_of_def)
    moreover have "map_of (active e) k \<noteq> None" unfolding s by simp
    ultimately show ?thesis by blast
  qed
  then have f: "pipe_inv (fst (flush_all now e)) \<and> list_all P (snd (flush_all now e))
    \<and> length (snd (flush_all now e)) = length (map fst (active e))
    \<and> map_of (active (fst (flush_all now e))) = (\<lambda>k. if k \<in> set (map fst (active e)) then None else map_of (active e) k)"
    unfolding flush_all_def by (intro flush_pass_ok[OF _ _ _ assms(2)] e) (use e(3) in \<open>auto simp: od_wf_def\<close>)
  have n: "map_of (active (fst (flush_all now e))) = Map.empty"
  proof
    fix k
    show "map_of (active (fst (flush_all now e))) k = None"
    proof (cases "k \<in> set (map fst (active e))")
      case False
      then have "map_of (active e) k = None" by (simp only: map_of_eq_None_iff list.set_map) simp
      then show ?thesis using f by (simp only: if_split) simp
    qed (use f in \<open>simp only: if_True\<close>)
  qed
  then have "active (fst (flush_all now e)) = []" by simp
  moreover have "run_inv tb (fst (flush_all now e))" using f n assms
    by (simp add: run_inv_def keys_match_def flush_all_def)
  ultimately show ?thesis using f by simp
qed

lemma clear_ok:
  assumes "run_inv tb e"
  shows "run_inv tb (clear_symbol sy ex mt e)"
proof -
  have e: "engine_inv e" "active_bounded e" "od_wf (active e)" using assms by (auto simp: run_inv_def pipe_inv_def engine_inv_def)
  have "map_of (active e) k = Some s" if "map_of (active (clear_symbol sy ex mt e)) k = Some s" for k s
    using that map_of_filter_Some[OF e(3)] by (auto simp: clear_symbol_def Let_def split: option.splits)
  then show ?thesis using clear_symbol_ok[OF e(1,2)] assms keys_match_sub[of e] by (auto simp: run_inv_def pipe_inv_def)
qed

lemma step_ok:
  assumes "pipeline_step F chain cfg e ev e'" "run_inv tb e" "range_start_ok tb" "admits chain P"
  shows "run_inv tb e' \<and> list_all P ev"
  using assms(1)
proof cases
  case (step_input emit now ex mt sy i r)
  then show ?thesis using handle_bar_input_ok[OF assms(2,3) _ _ assms(4)] by blast
next
  case (step_timer now)
  then show ?thesis using check_timeouts_ok[OF assms(2,4), of cfg now] by (metis fst_conv snd_conv)
next
  case (step_flush now)
  then show ?thesis using flush_all_ok[OF assms(2,4), of now] by simp
next
  case (step_clear sy ex mt)
  then show ?thesis using clear_ok[OF assms(2)] by simp
qed

lemma reachable_inv:
  assumes "reachable F chain cfg tb e" "range_start_ok tb"
  shows "run_inv tb e"
  using assms
proof (induction rule: reachable.induct)
  case (reach_new amax cmax iv)
  then show ?case using new_engine_inv by (simp add: run_inv_def pipe_inv_def keys_match_def new_bar_state_engine_def)
next
  case (reach_step e ev e')
  then show ?case using step_ok strategy_admits by blast
qed

section \<open>What the pipeline guarantees\<close>


text \<open>C1: Bars fail closed: under the default chain every CLOSED event of every step carries a
  sealed bar that its source confirmed, or that needs no confirmation, or whose finality is
  authoritative; an EXPIRED event carries an expired bar.\<close>

theorem pipeline_events_sound:
  assumes "reachable F (default_chain cfg) cfg tb e" and "range_start_ok tb"
    and "pipeline_step F (default_chain cfg) cfg e ev e'"
  shows "list_all sound_event ev"
  using step_ok[OF assms(3) reachable_inv[OF assms(1,2)] assms(2) default_admits] by blast

text \<open>What a timer tick should emit for an active bar under the default chain.\<close>

definition timeout_events :: "aggregator_config \<Rightarrow> int \<Rightarrow> 'f bar_state \<Rightarrow> 'f events" where
  "timeout_events cfg now s =
     (if now < bucket_end_ms s + finalize_timeout_ms cfg then []
      else if unconfirmed s
      then [(EV_EXPIRED, s\<lparr>close_reason := Some ''timeout_unconfirmed'', status := EXPIRED\<rparr>)]
      else [(EV_CLOSED, s\<lparr>close_reason := Some ''time_based'', finality := PROVISIONAL, status := CLOSED, updated_at_ms := now\<rparr>)])"

lemma timer_check:
  assumes "status s = FORMING"
  shows "finalizer_check (default_chain cfg) s (timer now) =
    (if unconfirmed s \<or> now < bucket_end_ms s + finalize_timeout_ms cfg then None
     else Some (s\<lparr>close_reason := Some ''time_based'', finality := PROVISIONAL\<rparr>))"
  using assms by (auto simp: finalizer_check_def default_chain_def timer_def)

lemma timeout_pass_events:
  assumes "\<forall>(k, s)\<in>set es. k = key_of s \<and> map_of (active e) k = Some s \<and> status s = FORMING" "distinct (map fst es)"
  shows "snd (timeout_pass (default_chain cfg) cfg now es e) = concat (map (\<lambda>(_, s). timeout_events cfg now s) es)"
  using assms
proof (induction es arbitrary: e)
  case (Cons x es)
  obtain k s where x: "x = (k, s)" by (cases x)
  have k: "k = (norm (bs_exchange s), norm (bs_market_type s), bs_symbol s, bucket_start_ms s)" "map_of (active e) k = Some s"
    "status s = FORMING" using Cons.prems(1) by (auto simp: x key_of_def)
  let ?r = "settle_bar (default_chain cfg) cfg now False ''timeout_unconfirmed'' (timer now) (k, s)
      (bs_exchange s) (bs_market_type s) (bs_symbol s) e"
  have "snd ?r = timeout_events cfg now s"
    using k timer_check[OF k(3), of cfg now] map_of_SomeD[OF k(2)]
    by (auto simp: settle_bar_def timeout_events_def Let_def split_def close_bar_def expire_bar_def mutate_map
        should_expire_unconfirmed_def must_fail_closed_def timer_def)
  moreover have "snd (timeout_pass (default_chain cfg) cfg now es (fst ?r)) = concat (map (\<lambda>(_, s). timeout_events cfg now s) es)"
  proof (rule Cons.IH)
    show "distinct (map fst es)" using Cons.prems(2) by simp
    have keep: "map_of (active (fst ?r)) k' = map_of (active e) k'" if "k' \<noteq> k" for k'
      using settle_bar_active[OF k(1), of "default_chain cfg" cfg now False "''timeout_unconfirmed''" "timer now" e] that by simp
    show "\<forall>(k, s)\<in>set es. k = key_of s \<and> map_of (active (fst ?r)) k = Some s \<and> status s = FORMING"
    proof safe
      fix k' s' assume m: "(k', s') \<in> set es"
      then have "k' \<noteq> k" using Cons.prems(2) by (force simp: x)
      moreover have "k' = key_of s'" "map_of (active e) k' = Some s'" "status s' = FORMING" using Cons.prems(1) m by (auto simp: x)
      ultimately show "k' = key_of s'" "map_of (active (fst ?r)) k' = Some s'" "status s' = FORMING" using keep by simp_all
    qed
  qed
  ultimately show ?case by (simp add: x split_def Let_def timer_def)
qed simp

lemma timeout_pass_keeps:
  assumes "\<forall>(k, s)\<in>set es. k = key_of s" "distinct (map fst es)"
  shows "map_of (active (fst (timeout_pass chain cfg now es e))) k =
    (case map_of es k of None \<Rightarrow> map_of (active e) k
     | Some s \<Rightarrow> if settles chain cfg s (timer now) then None else map_of (active e) k)"
  using assms
proof (induction es arbitrary: e)
  case (Cons x es)
  obtain k' s' where x: "x = (k', s')" by (cases x)
  have k': "k' = (norm (bs_exchange s'), norm (bs_market_type s'), bs_symbol s', bucket_start_ms s')"
    using Cons.prems(1) by (simp add: x key_of_def)
  have "map_of es k' = None" using Cons.prems(2) by (auto simp: x map_of_eq_None_iff)
  then show ?case using Cons.IH Cons.prems
      settle_bar_active[OF k', of chain cfg now False "''timeout_unconfirmed''" "timer now" e]
    by (simp add: x split_def Let_def timer_def split: option.split)
qed simp

text \<open>C21: No bar outlives its timeout. A timer tick of the default chain removes from the active bars
  exactly those whose bucket end plus the timeout has been reached, and emits, in their order, one
  event for each of them and no other: EXPIRED for a bar whose source owes the confirmation,
  CLOSED with provisional finality for every other.\<close>

theorem timeout_settles_all:
  assumes "reachable F (default_chain cfg) cfg tb e" and "range_start_ok tb"
  shows "map_of (active (fst (check_timeouts (default_chain cfg) cfg now e))) k =
      (case map_of (active e) k of
         None \<Rightarrow> None
       | Some s \<Rightarrow> if bucket_end_ms s + finalize_timeout_ms cfg \<le> now then None else Some s) \<and>
    snd (check_timeouts (default_chain cfg) cfg now e) = concat (map (\<lambda>(_, s). timeout_events cfg now s) (active e))"
proof
  have inv: "run_inv tb e" by (rule reachable_inv[OF assms(1,2)])
  then have e: "\<forall>(k, s)\<in>set (active e). k = key_of s" "engine_inv e" "distinct (map fst (active e))"
    using active_entries_match by (auto simp: run_inv_def pipe_inv_def engine_inv_def od_wf_def)
  have held: "map_of (active e) k = Some s \<and> status s = FORMING" if "(k, s) \<in> set (active e)" for k s
    using that e(3) engine_invD(5)[OF e(2)] by (metis map_of_is_SomeI)
  have s: "settles (default_chain cfg) cfg s (timer now) \<longleftrightarrow> bucket_end_ms s + finalize_timeout_ms cfg \<le> now"
    if "map_of (active e) k = Some s" for s
    using timer_check[OF engine_invD(5)[OF e(2) that], of cfg now] settles_timer[OF engine_invD(5)[OF e(2) that], of cfg now]
    by (auto simp: settles_def should_expire_unconfirmed_def timer_def split: if_splits)
  show "map_of (active (fst (check_timeouts (default_chain cfg) cfg now e))) k =
      (case map_of (active e) k of
         None \<Rightarrow> None
       | Some s \<Rightarrow> if bucket_end_ms s + finalize_timeout_ms cfg \<le> now then None else Some s)"
    unfolding check_timeouts_def timeout_pass_keeps[OF e(1,3)] using s by (simp split: option.split)
  show "snd (check_timeouts (default_chain cfg) cfg now e) = concat (map (\<lambda>(_, s). timeout_events cfg now s) (active e))"
    unfolding check_timeouts_def using e(1,3) held by (intro timeout_pass_events) auto
qed

text \<open>The shutdown flush ends every bar: afterwards none is active, one event was emitted
  for each bar that was, and unconfirmed bars among them were expired, not closed.\<close>

lemma flush_ends_every_bar:
  assumes "reachable F chain cfg tb e" and "range_start_ok tb"
  shows "active (fst (flush_all now e)) = [] \<and> length (snd (flush_all now e)) = length (active e)
    \<and> list_all sound_event (snd (flush_all now e))"
  using flush_all_ok[OF reachable_inv[OF assms] default_admits] by blast

subsection \<open>A concrete run\<close>

definition demo_config :: aggregator_config where
  "demo_config = \<lparr>use_event_driven_close = True, use_composite_close = True, finalize_timeout_ms = 5000\<rparr>"

definition minute_bucket :: time_bucket_engine where
  "minute_bucket = \<lparr>engine_interval_ms = 60000, engine_alignment = EPOCH, engine_epoch_ms = 0,
     custom_calculator = None, engine_anchor_ms = 0\<rparr>"

definition demo_engine :: "int bar_state_engine" where
  "demo_engine = fst (handle_bar_input tick_ops (default_chain demo_config) demo_config True 0 ''binance'' ''spot'' ''BTCUSDT''
      (tick_input 0) (minute_engine 2 2))"

lemma demo_reachable: "reachable tick_ops (default_chain demo_config) demo_config minute_bucket demo_engine"
proof -
  have new: "reachable tick_ops (default_chain demo_config) demo_config minute_bucket (minute_engine 2 2)"
    unfolding minute_engine_def minute_bucket_def[symmetric] by (rule reach_new)
  have "py_strip (py_upper ''BTCUSDT'') = ''BTCUSDT''" by code_simp
  moreover obtain e ev r where "handle_bar_input tick_ops (default_chain demo_config) demo_config True 0 ''binance'' ''spot'' ''BTCUSDT''
      (tick_input 0) (minute_engine 2 2) = (e, ev, r)" by (rule prod_cases3)
  ultimately show ?thesis using reach_step[OF new step_input] unfolding demo_engine_def by (metis fst_conv)
qed

lemma demo_range: "range_start_ok minute_bucket"
  by (simp add: range_start_ok_def minute_bucket_def engine_bucket_range_def)


theorem pipeline_events_sound_witness:
  "list_all sound_event (snd (check_timeouts (default_chain demo_config) demo_config 200000 demo_engine))
    \<and> length (snd (check_timeouts (default_chain demo_config) demo_config 200000 demo_engine)) = 1"
proof
  show "list_all sound_event (snd (check_timeouts (default_chain demo_config) demo_config 200000 demo_engine))"
    by (rule pipeline_events_sound[OF demo_reachable demo_range step_timer[OF prod.collapse[symmetric]]])
  show "length (snd (check_timeouts (default_chain demo_config) demo_config 200000 demo_engine)) = 1" by code_simp
qed

theorem timeout_settles_all_witness:
  "active (fst (check_timeouts (default_chain demo_config) demo_config 200000 demo_engine)) = [] \<and>
   length (snd (check_timeouts (default_chain demo_config) demo_config 200000 demo_engine)) = 1"
proof
  note t = timeout_settles_all[OF demo_reachable demo_range, of 200000]
  have late: "list_all (\<lambda>(_, s). bucket_end_ms s + finalize_timeout_ms demo_config \<le> 200000) (active demo_engine)" by code_simp
  have "map_of (active (fst (check_timeouts (default_chain demo_config) demo_config 200000 demo_engine))) k = None" for k
    using t late by (auto simp: list_all_iff split: option.split dest!: map_of_SomeD)
  then have "map_of (active (fst (check_timeouts (default_chain demo_config) demo_config 200000 demo_engine))) = Map.empty" by blast
  then show "active (fst (check_timeouts (default_chain demo_config) demo_config 200000 demo_engine)) = []" by simp
  have "length (concat (map (\<lambda>(_, s). timeout_events demo_config 200000 s) (active demo_engine))) = 1" by code_simp
  then show "length (snd (check_timeouts (default_chain demo_config) demo_config 200000 demo_engine)) = 1" using t by simp
qed

lemma flush_ends_every_bar_example:
  "active (fst (flush_all 7 demo_engine)) = [] \<and> length (snd (flush_all 7 demo_engine)) = 1"
proof -
  have "length (active demo_engine) = 1" by code_simp
  then show ?thesis using flush_ends_every_bar[OF demo_reachable demo_range, of 7] by simp
qed

end
