(* ===== verification/DependencyGraph.thy ===== *)
theory DependencyGraph
  imports Prelude "HOL-Library.Multiset" "HOL-Library.List_Lexorder" "HOL-Library.Char_ord"
begin

text \<open>
  The dependency graph of chained indicators (\<open>backend/app/indicator/dependency.py\<close>): nodes and
  edges with their mutual lists, the tentative edge with cycle check and rollback, Kahn's
  topological sort, the execution levels, the transitive queries and the synthetic bars.
  The recursion depth of the depth-first search is a parameter (\<open>frames\<close>), since Python stops a
  deep recursion with \<open>RecursionError\<close>.
\<close>

section \<open>Data\<close>

record dependency_edge =
  source_node_id :: string
  target_node_id :: string
  source_output :: string
  target_input :: string

record 'v dependency_node =
  node_id :: string
  indicator_name :: string
  params :: "(string \<times> 'v) list"
  depends_on :: "dependency_edge list"
  provides_to :: "dependency_edge list"

record 'v dependency_graph =
  g_nodes :: "(string \<times> 'v dependency_node) list"
  g_edges :: "dependency_edge list"
  g_counter :: nat

definition new_graph :: "'v dependency_graph" where
  "new_graph = \<lparr>g_nodes = [], g_edges = [], g_counter = 0\<rparr>"

section \<open>Nodes and edges\<close>

text \<open>\<open>f"{n:03d}"\<close>.\<close>

definition pad3 :: "nat \<Rightarrow> string" where
  "pad3 n = (let s = dec_of_nat n in replicate (3 - length s) (CHR ''0'') @ s)"

text \<open>An exception leaves the state as it is then: the counter has moved already.\<close>

definition add_node :: "string \<Rightarrow> (string \<times> 'v) list option \<Rightarrow> string option \<Rightarrow> 'v dependency_graph \<Rightarrow>
    'v dependency_graph \<times> string res" where
  "add_node name ps nid g =
     (let g1 = (case nid of None \<Rightarrow> g\<lparr>g_counter := g_counter g + 1\<rparr> | Some _ \<Rightarrow> g);
          i = (case nid of None \<Rightarrow> py_lower name @ ''_'' @ pad3 (g_counter g1) | Some x \<Rightarrow> x) in
      if map_of (g_nodes g1) i \<noteq> None then (g1, Inl ValueError)
      else (g1\<lparr>g_nodes := AList.update i \<lparr>node_id = i, indicator_name = py_upper name,
              params = (case ps of None \<Rightarrow> [] | Some p \<Rightarrow> p), depends_on = [], provides_to = []\<rparr> (g_nodes g1)\<rparr>,
            Inr i))"

definition get_node :: "string \<Rightarrow> 'v dependency_graph \<Rightarrow> 'v dependency_node option" where
  "get_node i g = map_of (g_nodes g) i"

definition remove_node :: "string \<Rightarrow> 'v dependency_graph \<Rightarrow> 'v dependency_graph" where
  "remove_node i g =
     g\<lparr>g_nodes := map (\<lambda>(k, n). (k, n\<lparr>depends_on := filter (\<lambda>e. source_node_id e \<noteq> i) (depends_on n),
            provides_to := filter (\<lambda>e. target_node_id e \<noteq> i) (provides_to n)\<rparr>)) (AList.delete i (g_nodes g)),
       g_edges := filter (\<lambda>e. source_node_id e \<noteq> i \<and> target_node_id e \<noteq> i) (g_edges g)\<rparr>"

text \<open>\<open>self._nodes[i].provides_to\<close> and \<open>depends_on\<close> changed in place.\<close>

definition update_node :: "string \<Rightarrow> ('v dependency_node \<Rightarrow> 'v dependency_node) \<Rightarrow> 'v dependency_graph \<Rightarrow>
    'v dependency_graph" where
  "update_node i f g = (case map_of (g_nodes g) i of None \<Rightarrow> g
     | Some n \<Rightarrow> g\<lparr>g_nodes := AList.update i (f n) (g_nodes g)\<rparr>)"

definition put_edge :: "dependency_edge \<Rightarrow> 'v dependency_graph \<Rightarrow> 'v dependency_graph" where
  "put_edge e g =
     (let g1 = g\<lparr>g_edges := g_edges g @ [e]\<rparr>;
          g2 = update_node (target_node_id e) (\<lambda>n. n\<lparr>depends_on := depends_on n @ [e]\<rparr>) g1
      in update_node (source_node_id e) (\<lambda>n. n\<lparr>provides_to := provides_to n @ [e]\<rparr>) g2)"

definition pop_edge :: "dependency_edge \<Rightarrow> 'v dependency_graph \<Rightarrow> 'v dependency_graph" where
  "pop_edge e g =
     (let g1 = g\<lparr>g_edges := butlast (g_edges g)\<rparr>;
          g2 = update_node (target_node_id e) (\<lambda>n. n\<lparr>depends_on := butlast (depends_on n)\<rparr>) g1
      in update_node (source_node_id e) (\<lambda>n. n\<lparr>provides_to := butlast (provides_to n)\<rparr>) g2)"

section \<open>The cycle check\<close>

datatype color = WHITE | GREY | BLACK

function (sequential)
  dfs :: "nat \<Rightarrow> 'v dependency_graph \<Rightarrow> (string \<rightharpoonup> color) \<Rightarrow> string \<Rightarrow> ((string \<rightharpoonup> color) \<times> bool) res" and
  dfs_edges :: "nat \<Rightarrow> 'v dependency_graph \<Rightarrow> (string \<rightharpoonup> color) \<Rightarrow> dependency_edge list \<Rightarrow> ((string \<rightharpoonup> color) \<times> bool) res"
where
  "dfs 0 g col n = Inl RecursionError"
| "dfs (Suc d) g col n =
     (case map_of (g_nodes g) n of
        None \<Rightarrow> Inl KeyError
      | Some node \<Rightarrow>
        (case dfs_edges d g (col(n \<mapsto> GREY)) (provides_to node) of
           Inl e \<Rightarrow> Inl e
         | Inr (col', r) \<Rightarrow> if r then Inr (col', True) else Inr (col'(n \<mapsto> BLACK), False)))"
| "dfs_edges d g col [] = Inr (col, False)"
| "dfs_edges d g col (e # es) =
     (case col (target_node_id e) of
        None \<Rightarrow> Inl KeyError
      | Some GREY \<Rightarrow> Inr (col, True)
      | Some WHITE \<Rightarrow>
        (case dfs d g col (target_node_id e) of
           Inl x \<Rightarrow> Inl x
         | Inr (col', r) \<Rightarrow> if r then Inr (col', True) else dfs_edges d g col' es)
      | Some BLACK \<Rightarrow> dfs_edges d g col es)"
  by pat_completeness auto
termination
  by (relation "measures [\<lambda>x. case x of Inl (d, _) \<Rightarrow> d | Inr (d, _) \<Rightarrow> d,
      \<lambda>x. case x of Inl _ \<Rightarrow> 0 | Inr (_, _, _, es) \<Rightarrow> Suc (length es)]") auto

fun cycle_scan :: "nat \<Rightarrow> 'v dependency_graph \<Rightarrow> (string \<rightharpoonup> color) \<Rightarrow> string list \<Rightarrow> bool res" where
  "cycle_scan d g col [] = Inr False"
| "cycle_scan d g col (n # ns) =
     (if col n = Some WHITE then
        (case dfs d g col n of
           Inl e \<Rightarrow> Inl e
         | Inr (col', r) \<Rightarrow> if r then Inr True else cycle_scan d g col' ns)
      else cycle_scan d g col ns)"

definition has_cycle :: "nat \<Rightarrow> 'v dependency_graph \<Rightarrow> bool res" where
  "has_cycle frames g = cycle_scan frames g (map_of (map (\<lambda>k. (k, WHITE)) (map fst (g_nodes g)))) (map fst (g_nodes g))"

definition add_edge :: "nat \<Rightarrow> string \<Rightarrow> string \<Rightarrow> string \<Rightarrow> string \<Rightarrow> 'v dependency_graph \<Rightarrow>
    'v dependency_graph \<times> dependency_edge res" where
  "add_edge frames source_id target_id s_out t_in g =
     (if map_of (g_nodes g) source_id = None then (g, Inl UnresolvedDependencyError)
      else if map_of (g_nodes g) target_id = None then (g, Inl UnresolvedDependencyError)
      else if source_id = target_id then (g, Inl CyclicDependencyError)
      else let e = \<lparr>source_node_id = source_id, target_node_id = target_id, source_output = s_out, target_input = t_in\<rparr>;
               g1 = put_edge e g in
        case has_cycle frames g1 of
          Inl x \<Rightarrow> (g1, Inl x)
        | Inr True \<Rightarrow> (pop_edge e g1, Inl CyclicDependencyError)
        | Inr False \<Rightarrow> (g1, Inr e))"

section \<open>Orders\<close>

fun count_edges :: "dependency_edge list \<Rightarrow> (string \<times> int) list \<Rightarrow> (string \<times> int) list res" where
  "count_edges [] deg = Inr deg"
| "count_edges (e # es) deg =
     (case map_of deg (target_node_id e) of
        None \<Rightarrow> Inl KeyError
      | Some k \<Rightarrow> count_edges es (AList.update (target_node_id e) (k + 1) deg))"

definition in_degrees :: "'v dependency_graph \<Rightarrow> (string \<times> int) list res" where
  "in_degrees g = count_edges (g_edges g) (map (\<lambda>k. (k, 0)) (map fst (g_nodes g)))"

fun kahn_edges :: "dependency_edge list \<Rightarrow> (string \<times> int) list \<Rightarrow> string list \<Rightarrow> ((string \<times> int) list \<times> string list) res" where
  "kahn_edges [] deg queue = Inr (deg, queue)"
| "kahn_edges (e # es) deg queue =
     (case map_of deg (target_node_id e) of
        None \<Rightarrow> Inl KeyError
      | Some k \<Rightarrow> kahn_edges es (AList.update (target_node_id e) (k - 1) deg)
          (if k - 1 = 0 then queue @ [target_node_id e] else queue))"

definition positive_count :: "(string \<times> int) list \<Rightarrow> nat" where
  "positive_count deg = length (filter (\<lambda>(k, d). 0 < d) deg)"

lemma positive_count_update:
  "map_of deg k = Some d \<Longrightarrow> positive_count (AList.update k (d - 1) deg) + (if d = 1 then 1 else 0) = positive_count deg"
  by (induction deg) (auto simp: positive_count_def split: if_splits)

lemma kahn_edges_measure:
  "kahn_edges es deg q = Inr (deg', q') \<Longrightarrow> length q' + positive_count deg' = length q + positive_count deg"
proof (induction es arbitrary: deg q)
  case (Cons e es)
  then obtain k where k: "map_of deg (target_node_id e) = Some k" by (auto split: option.splits)
  then show ?case using Cons.IH Cons.prems positive_count_update[OF k] by (fastforce split: if_splits)
qed simp

function kahn :: "'v dependency_graph \<Rightarrow> (string \<times> int) list \<Rightarrow> string list \<Rightarrow> string list \<Rightarrow> string list res" where
  "kahn g deg queue result =
     (case queue of
        [] \<Rightarrow> Inr result
      | n # rest \<Rightarrow>
        (case map_of (g_nodes g) n of
           None \<Rightarrow> Inl KeyError
         | Some node \<Rightarrow>
           (case kahn_edges (provides_to node) deg rest of
              Inl e \<Rightarrow> Inl e
            | Inr (deg', queue') \<Rightarrow> kahn g deg' queue' (result @ [n]))))"
  by pat_completeness auto
termination
  by (relation "measure (\<lambda>(g, deg, q, r). length q + positive_count deg)") (auto dest: kahn_edges_measure[symmetric])

declare kahn.simps [simp del]

definition topological_sort :: "'v dependency_graph \<Rightarrow> string list res" where
  "topological_sort g =
     (if g_nodes g = [] then Inr []
      else bindr (in_degrees g) (\<lambda>deg.
        bindr (kahn g deg (map fst (filter (\<lambda>(k, d). d = 0) deg)) []) (\<lambda>result.
          if length result \<noteq> length (g_nodes g) then Inl CyclicDependencyError else Inr result)))"

fun level_nodes :: "'v dependency_graph \<Rightarrow> string list \<Rightarrow> (string \<times> int) list \<Rightarrow> string list \<Rightarrow>
    ((string \<times> int) list \<times> string list) res" where
  "level_nodes g [] deg cand = Inr (deg, cand)"
| "level_nodes g (n # ns) deg cand =
     (case map_of (g_nodes g) n of
        None \<Rightarrow> Inl KeyError
      | Some node \<Rightarrow>
        (case kahn_edges (provides_to node) deg cand of
           Inl e \<Rightarrow> Inl e
         | Inr (deg', cand') \<Rightarrow> level_nodes g ns deg' cand'))"

lemma level_nodes_measure:
  "level_nodes g ns deg q = Inr (deg', q') \<Longrightarrow> length q' + positive_count deg' = length q + positive_count deg"
  by (induction ns arbitrary: deg q) (auto split: option.splits sum.splits dest: kahn_edges_measure)

lemma length_sorted_list_of_set_le: "length (sorted_list_of_set (set xs)) \<le> length xs"
  by (simp add: card_length)

text \<open>The candidates are a set in the code, so the next level has no duplicates and is sorted.\<close>

function level_loop :: "'v dependency_graph \<Rightarrow> (string \<times> int) list \<Rightarrow> string list \<Rightarrow> string list list \<Rightarrow> string list list res" where
  "level_loop g deg level levels =
     (if level = [] then Inr levels
      else case level_nodes g level deg [] of
          Inl e \<Rightarrow> Inl e
        | Inr (deg', cand) \<Rightarrow> level_loop g deg' (sorted_list_of_set (set cand)) (levels @ [level]))"
  by pat_completeness auto
termination
proof (relation "measure (\<lambda>(g, deg, level, ls). length level + positive_count deg)", goal_cases)
  case (2 g deg level levels x deg' cand)
  have "length cand + positive_count deg' = positive_count deg"
    using level_nodes_measure[of g level deg "[]" deg' cand] 2 by simp
  moreover have "0 < length level" using 2(1) by simp
  ultimately have "length (sorted_list_of_set (set cand)) + positive_count deg' < length level + positive_count deg"
    using length_sorted_list_of_set_le[of cand] by linarith
  then show ?case by simp
qed simp

declare level_loop.simps [simp del]

definition get_execution_levels :: "'v dependency_graph \<Rightarrow> string list list res" where
  "get_execution_levels g =
     (if g_nodes g = [] then Inr []
      else bindr (in_degrees g) (\<lambda>deg. level_loop g deg (map fst (filter (\<lambda>(k, d). d = 0) deg)) []))"

section \<open>Queries\<close>

definition get_dependencies :: "string \<Rightarrow> 'v dependency_graph \<Rightarrow> string list" where
  "get_dependencies i g = (case map_of (g_nodes g) i of None \<Rightarrow> [] | Some n \<Rightarrow> map source_node_id (depends_on n))"

definition get_dependents :: "string \<Rightarrow> 'v dependency_graph \<Rightarrow> string list" where
  "get_dependents i g = (case map_of (g_nodes g) i of None \<Rightarrow> [] | Some n \<Rightarrow> map target_node_id (provides_to n))"

definition get_root_nodes :: "'v dependency_graph \<Rightarrow> string list" where
  "get_root_nodes g = map fst (filter (\<lambda>(i, n). depends_on n = []) (g_nodes g))"

definition get_leaf_nodes :: "'v dependency_graph \<Rightarrow> string list" where
  "get_leaf_nodes g = map fst (filter (\<lambda>(i, n). provides_to n = []) (g_nodes g))"

text \<open>The work stack has its top at the head; \<open>up\<close> selects dependencies or dependents.\<close>

definition neighbours :: "bool \<Rightarrow> 'v dependency_graph \<Rightarrow> string \<Rightarrow> string list" where
  "neighbours up g i = (if up then get_dependencies i g else get_dependents i g)"

fun push_new :: "string list \<Rightarrow> string list \<Rightarrow> string list \<Rightarrow> string list \<times> string list" where
  "push_new [] visited stack = (visited, stack)"
| "push_new (d # ds) visited stack =
     (if d \<in> set visited then push_new ds visited stack else push_new ds (visited @ [d]) (d # stack))"

definition mentioned :: "'v dependency_graph \<Rightarrow> string set" where
  "mentioned g = (\<Union>(i, n)\<in>set (g_nodes g). set (map source_node_id (depends_on n)) \<union> set (map target_node_id (provides_to n)))"

lemma finite_mentioned [simp]: "finite (mentioned g)"
  by (auto simp: mentioned_def)

lemma neighbours_mentioned: "set (neighbours up g i) \<subseteq> mentioned g"
proof (cases "map_of (g_nodes g) i")
  case (Some n)
  then have "set (map source_node_id (depends_on n)) \<union> set (map target_node_id (provides_to n)) \<subseteq> mentioned g"
    unfolding mentioned_def by (force dest: map_of_SomeD)
  then show ?thesis using Some by (simp add: neighbours_def get_dependencies_def get_dependents_def)
qed (simp add: neighbours_def get_dependencies_def get_dependents_def)

lemma push_new_measure:
  "set ds \<subseteq> U \<Longrightarrow> finite U \<Longrightarrow> push_new ds visited stack = (v', st') \<Longrightarrow>
    length st' + card (U - set v') = length stack + card (U - set visited)"
proof (induction ds arbitrary: visited stack)
  case (Cons d ds)
  show ?case
  proof (cases "d \<in> set visited")
    case False
    have "card (U - set visited) = Suc (card (U - set (visited @ [d])))"
    proof -
      have "U - set visited = insert d (U - set (visited @ [d]))" using Cons.prems(1) False by auto
      moreover have "d \<notin> U - set (visited @ [d])" "finite (U - set (visited @ [d]))" using Cons.prems(2) by auto
      ultimately show ?thesis by (metis card_insert_disjoint)
    qed
    moreover have "length st' + card (U - set v') = length (d # stack) + card (U - set (visited @ [d]))"
      by (rule Cons.IH) (use Cons.prems False in simp_all)
    ultimately show ?thesis by simp
  next
    case True
    show ?thesis by (rule Cons.IH) (use Cons.prems True in simp_all)
  qed
qed simp

function closure_loop :: "bool \<Rightarrow> 'v dependency_graph \<Rightarrow> string list \<Rightarrow> string list \<Rightarrow> string list" where
  "closure_loop up g visited stack =
     (case stack of
        [] \<Rightarrow> visited
      | i # rest \<Rightarrow> (case push_new (neighbours up g i) visited rest of (v, st) \<Rightarrow> closure_loop up g v st))"
  by pat_completeness auto
termination
  by (relation "measure (\<lambda>(up, g, v, st). length st + card (mentioned g - set v))")
    (auto dest!: push_new_measure[OF neighbours_mentioned finite_mentioned] split: prod.split)

declare closure_loop.simps [simp del]

definition get_all_ancestors :: "string \<Rightarrow> 'v dependency_graph \<Rightarrow> string list" where
  "get_all_ancestors i g = closure_loop True g [] [i]"

definition get_all_descendants :: "string \<Rightarrow> 'v dependency_graph \<Rightarrow> string list" where
  "get_all_descendants i g = closure_loop False g [] [i]"

text \<open>The issues \<open>validate\<close> reports: a cycle, then each unresolved end of an edge.\<close>

datatype issue = Circular | MissingSource string | MissingTarget string

definition validate :: "nat \<Rightarrow> 'v dependency_graph \<Rightarrow> issue list res" where
  "validate frames g = bindr (has_cycle frames g) (\<lambda>c. Inr ((if c then [Circular] else [])
     @ concat (map (\<lambda>e.
        (if source_node_id e \<in> set (map fst (g_nodes g)) then [] else [MissingSource (source_node_id e)])
        @ (if target_node_id e \<in> set (map fst (g_nodes g)) then [] else [MissingTarget (target_node_id e)])) (g_edges g))))"

definition clear_graph :: "'v dependency_graph \<Rightarrow> 'v dependency_graph" where
  "clear_graph g = g\<lparr>g_nodes := [], g_edges := [], g_counter := 0\<rparr>"

section \<open>Synthetic bars\<close>

text \<open>The fields of a bar the function copies (the others take their defaults); floats are \<open>'f\<close>.\<close>

record 'f synthetic_bar =
  sb_time :: int
  sb_open :: 'f
  sb_high :: 'f
  sb_low :: 'f
  sb_close :: 'f
  sb_volume :: 'f

definition override_field :: "string \<Rightarrow> 'f \<Rightarrow> 'f synthetic_bar \<Rightarrow> 'f synthetic_bar" where
  "override_field target v b =
     (if target = ''close'' then b\<lparr>sb_close := v\<rparr>
      else if target = ''open'' then b\<lparr>sb_open := v\<rparr>
      else if target = ''high'' then b\<lparr>sb_high := v\<rparr>
      else if target = ''low'' then b\<lparr>sb_low := v\<rparr>
      else if target = ''volume'' then b\<lparr>sb_volume := v\<rparr>
      else b\<lparr>sb_close := v\<rparr>)"

definition build_synthetic_bars :: "'f \<Rightarrow> 'f synthetic_bar list \<Rightarrow> (string \<times> (int \<times> 'f option) list) list \<Rightarrow>
    string \<Rightarrow> string \<Rightarrow> 'f synthetic_bar list res" where
  "build_synthetic_bars zero bars outputs source_out target =
     (case map_of outputs source_out of
        None \<Rightarrow> Inl ValueError
      | Some points \<Rightarrow>
        let value_map = foldl (\<lambda>m (t, v). m(t \<mapsto> v)) Map.empty points in
        Inr (map (\<lambda>b. override_field target
              (case value_map (sb_time b) of Some (Some v) \<Rightarrow> v | _ \<Rightarrow> zero) b) bars))"

section \<open>The invariant\<close>

definition successors :: "'v dependency_graph \<Rightarrow> string \<Rightarrow> string list" where
  "successors g n = (case map_of (g_nodes g) n of None \<Rightarrow> [] | Some nd \<Rightarrow> map target_node_id (provides_to nd))"

definition edge_rel :: "'v dependency_graph \<Rightarrow> (string \<times> string) set" where
  "edge_rel g = {(s, t). t \<in> set (successors g s)}"

definition node_ids :: "'v dependency_graph \<Rightarrow> string set" where
  "node_ids g = set (map fst (g_nodes g))"

text \<open>The two edge lists of every node are the graph's edge list seen from it.\<close>

definition graph_wf :: "'v dependency_graph \<Rightarrow> bool" where
  "graph_wf g \<longleftrightarrow> od_wf (g_nodes g)
     \<and> (\<forall>i n. map_of (g_nodes g) i = Some n \<longrightarrow> node_id n = i
          \<and> provides_to n = filter (\<lambda>e. source_node_id e = i) (g_edges g)
          \<and> depends_on n = filter (\<lambda>e. target_node_id e = i) (g_edges g))
     \<and> (\<forall>e\<in>set (g_edges g). source_node_id e \<in> node_ids g \<and> target_node_id e \<in> node_ids g)"

definition graph_ok :: "'v dependency_graph \<Rightarrow> bool" where
  "graph_ok g \<longleftrightarrow> graph_wf g \<and> acyclic (edge_rel g)"

lemma node_ids_map_of: "i \<in> node_ids g \<longleftrightarrow> map_of (g_nodes g) i \<noteq> None"
  by (simp add: node_ids_def map_of_eq_None_iff)

lemma edge_rel_edges:
  assumes "graph_wf g"
  shows "edge_rel g = {(source_node_id e, target_node_id e) | e. e \<in> set (g_edges g)}"
proof -
  have "(s, t) \<in> edge_rel g \<longleftrightarrow> (\<exists>e\<in>set (g_edges g). source_node_id e = s \<and> target_node_id e = t)" for s t
  proof (cases "map_of (g_nodes g) s")
    case None
    then have "s \<notin> node_ids g" by (simp add: node_ids_map_of)
    then show ?thesis using assms None by (auto simp: edge_rel_def successors_def graph_wf_def)
  next
    case (Some n)
    then have "provides_to n = filter (\<lambda>e. source_node_id e = s) (g_edges g)" using assms by (auto simp: graph_wf_def)
    then show ?thesis using Some by (auto simp: edge_rel_def successors_def)
  qed
  then show ?thesis by auto
qed

lemma edge_rel_nodes: "graph_wf g \<Longrightarrow> edge_rel g \<subseteq> node_ids g \<times> node_ids g"
  by (auto simp: edge_rel_edges graph_wf_def)

section \<open>The cycle check is exact\<close>

text \<open>Finished nodes, latest first: the successors of each come later in the list.\<close>

fun finish_order :: "'v dependency_graph \<Rightarrow> string list \<Rightarrow> bool" where
  "finish_order g [] = True"
| "finish_order g (x # xs) = (x \<notin> set xs \<and> set (successors g x) \<subseteq> set xs \<and> finish_order g xs)"

lemma finish_order_closed:
  assumes "finish_order g xs" "x \<in> set xs" "(x, y) \<in> (edge_rel g)\<^sup>*"
  shows "y \<in> set xs"
proof -
  have step: "z \<in> set xs" if "finish_order g xs" "x \<in> set xs" "(x, z) \<in> edge_rel g" for x z xs
    using that by (induction xs) (auto simp: edge_rel_def)
  from assms(3,1,2) show ?thesis by (induction rule: rtrancl_induct) (auto dest: step)
qed

lemma finish_order_acyclic:
  assumes "finish_order g xs" "x \<in> set xs"
  shows "(x, x) \<notin> (edge_rel g)\<^sup>+"
  using assms
proof (induction xs)
  case (Cons a xs)
  show ?case
  proof
    assume "(x, x) \<in> (edge_rel g)\<^sup>+"
    then obtain z where z: "(x, z) \<in> edge_rel g" "(z, x) \<in> (edge_rel g)\<^sup>*" by (meson tranclD)
    show False
    proof (cases "x = a")
      case True
      then have "z \<in> set xs" using Cons.prems(1) z(1) by (auto simp: edge_rel_def)
      then have "x \<in> set xs" using finish_order_closed[OF _ _ z(2)] Cons.prems(1) by simp
      then show False using True Cons.prems(1) by simp
    qed (use Cons \<open>(x, x) \<in> (edge_rel g)\<^sup>+\<close> in simp)
  qed
qed simp

definition black_order :: "'v dependency_graph \<Rightarrow> (string \<rightharpoonup> color) \<Rightarrow> bool" where
  "black_order g col \<longleftrightarrow> (\<exists>bs. finish_order g bs \<and> set bs = {m. col m = Some BLACK})"

definition same_work :: "(string \<rightharpoonup> color) \<Rightarrow> (string \<rightharpoonup> color) \<Rightarrow> bool" where
  "same_work col col' \<longleftrightarrow> dom col' = dom col \<and> (\<forall>m. col' m = Some GREY \<longleftrightarrow> col m = Some GREY)
     \<and> (\<forall>m. col m = Some BLACK \<longrightarrow> col' m = Some BLACK)"

lemma same_work_refl [simp]: "same_work col col"
  by (simp add: same_work_def)

lemma same_work_trans: "same_work a b \<Longrightarrow> same_work b c \<Longrightarrow> same_work a c"
  by (auto simp: same_work_def)

lemma same_work_white: "same_work col col' \<Longrightarrow> {m. col' m = Some WHITE} \<subseteq> {m. col m = Some WHITE}"
proof
  fix m assume s: "same_work col col'" and m: "m \<in> {m. col' m = Some WHITE}"
  then have "m \<in> dom col" by (auto simp: same_work_def)
  then obtain c where c: "col m = Some c" by auto
  have "c \<noteq> GREY" "c \<noteq> BLACK" using s m c unfolding same_work_def mem_Collect_eq by (metis color.distinct(1,3) option.inject)+
  then have "c = WHITE" by (cases c) simp_all
  then show "m \<in> {m. col m = Some WHITE}" using c by simp
qed

lemma black_order_finish:
  assumes "black_order g col" "\<forall>t\<in>set (successors g n). col t = Some BLACK" "col n = Some GREY"
  shows "black_order g (col(n \<mapsto> BLACK))"
proof -
  obtain bs where bs: "finish_order g bs" "set bs = {m. col m = Some BLACK}" using assms(1) by (auto simp: black_order_def)
  have "finish_order g (n # bs)" using bs assms(2,3) by auto
  moreover have "set (n # bs) = {m. (col(n \<mapsto> BLACK)) m = Some BLACK}" using bs by auto
  ultimately show ?thesis unfolding black_order_def by blast
qed

lemma same_work_node:
  assumes "same_work (col(n \<mapsto> GREY)) col'" "col n = Some WHITE"
  shows "same_work col (col'(n \<mapsto> BLACK))" "col' n = Some GREY"
proof -
  show "col' n = Some GREY" using assms(1) by (simp add: same_work_def)
  have "dom col' = dom col" using assms by (auto simp: same_work_def)
  moreover have "n \<in> dom col" using assms(2) by blast
  ultimately show "same_work col (col'(n \<mapsto> BLACK))"
    using assms unfolding same_work_def
    by (metis color.distinct(1,3,5) dom_fun_upd fun_upd_apply insert_absorb option.discI option.inject)
qed

lemma dfs_correct:
  assumes sub: "edge_rel g \<subseteq> node_ids g \<times> node_ids g"
  shows dfs_node_correct: "dfs d g col n = Inr (col', r) \<Longrightarrow> dom col = node_ids g \<Longrightarrow> col n = Some WHITE \<Longrightarrow> black_order g col \<Longrightarrow>
      \<forall>m. col m = Some GREY \<longrightarrow> (m, n) \<in> (edge_rel g)\<^sup>* \<Longrightarrow>
      (if r then \<not> acyclic (edge_rel g) else same_work col col' \<and> black_order g col' \<and> col' n = Some BLACK)"
    and dfs_edges_correct: "dfs_edges d g col es = Inr (col', r) \<Longrightarrow> dom col = node_ids g \<Longrightarrow> col p = Some GREY \<Longrightarrow> black_order g col \<Longrightarrow>
      \<forall>m. col m = Some GREY \<longrightarrow> (m, p) \<in> (edge_rel g)\<^sup>* \<Longrightarrow> set (map target_node_id es) \<subseteq> set (successors g p) \<Longrightarrow>
      (if r then \<not> acyclic (edge_rel g)
       else same_work col col' \<and> black_order g col' \<and> (\<forall>e\<in>set es. col' (target_node_id e) = Some BLACK))"
  using sub
proof (induction d g col n and d g col es arbitrary: col' r and col' r p rule: dfs_dfs_edges.induct)
  case (2 d g col n)
  obtain node where node: "map_of (g_nodes g) n = Some node" using 2(2) by (auto split: option.splits)
  let ?c = "col(n \<mapsto> GREY)"
  obtain c1 r1 where e: "dfs_edges d g ?c (provides_to node) = Inr (c1, r1)"
    using 2(2) node by (auto split: sum.splits)
  have res: "(c1, True) = (col', r) \<or> \<not> r1 \<and> col' = c1(n \<mapsto> BLACK) \<and> \<not> r" "r = r1"
    using 2(2) node e by (auto split: if_splits)
  have "n \<in> node_ids g" using 2(3,4) by blast
  then have dom: "dom ?c = node_ids g" using 2(3) by auto
  have "{m. ?c m = Some BLACK} = {m. col m = Some BLACK}" using 2(4) by auto
  then have bo: "black_order g ?c" using 2(5) by (simp add: black_order_def)
  have succ: "successors g n = map target_node_id (provides_to node)" using node by (simp add: successors_def)
  have grey: "\<forall>m. ?c m = Some GREY \<longrightarrow> (m, n) \<in> (edge_rel g)\<^sup>*" using 2(6) by auto
  have IH: "if r1 then \<not> acyclic (edge_rel g)
       else same_work ?c c1 \<and> black_order g c1 \<and> (\<forall>e\<in>set (provides_to node). c1 (target_node_id e) = Some BLACK)"
    by (rule 2(1)[OF node e dom _ bo grey _ 2(7)]) (simp_all add: succ)
  show ?case
  proof (cases r1)
    case False
    then have w: "same_work ?c c1" "black_order g c1" "\<forall>t\<in>set (successors g n). c1 t = Some BLACK"
      using IH succ by auto
    show ?thesis using black_order_finish[OF w(2,3) same_work_node(2)[OF w(1) 2(4)]] same_work_node(1)[OF w(1) 2(4)] res False by auto
  qed (use IH res in simp)
next
  case (3 d g col)
  then show ?case by simp
next
  case (4 d g col e es)
  let ?t = "target_node_id e"
  have pt: "(p, ?t) \<in> edge_rel g" using "4.prems"(6) by (auto simp: edge_rel_def)
  have tl: "set (map target_node_id es) \<subseteq> set (successors g p)" using "4.prems"(6) by simp
  show ?case
  proof (cases "col ?t")
    case None
    then show ?thesis using "4.prems"(1) by simp
  next
    case (Some c)
    show ?thesis
    proof (cases c)
      case GREY
      then have "(?t, p) \<in> (edge_rel g)\<^sup>*" using "4.prems"(5) Some by simp
      then have "(p, p) \<in> (edge_rel g)\<^sup>+" using pt by (rule rtrancl_into_trancl2[rotated])
      then show ?thesis using "4.prems"(1) Some GREY by (auto simp: acyclic_def)
    next
      case BLACK
      then have e: "dfs_edges d g col es = Inr (col', r)" using "4.prems"(1) Some by simp
      have IH: "if r then \<not> acyclic (edge_rel g)
         else same_work col col' \<and> black_order g col' \<and> (\<forall>e\<in>set es. col' (target_node_id e) = Some BLACK)"
        by (rule "4.IH"(3)[OF Some BLACK e]) (use "4.prems"(2-5,7) tl in simp_all)
      show ?thesis
      proof (cases r)
        case False
        then have "same_work col col'" using IH by simp
        then have "col' ?t = Some BLACK" using Some BLACK by (simp add: same_work_def)
        then show ?thesis using IH False by simp
      qed (use IH in simp)
    next
      case WHITE
      obtain c1 r1 where d: "dfs d g col ?t = Inr (c1, r1)" using "4.prems"(1) Some WHITE by (auto split: sum.splits)
      have "\<forall>m. col m = Some GREY \<longrightarrow> (m, ?t) \<in> (edge_rel g)\<^sup>*" using "4.prems"(5) pt by (meson rtrancl.rtrancl_into_rtrancl)
      then have IH1: "if r1 then \<not> acyclic (edge_rel g) else same_work col c1 \<and> black_order g c1 \<and> c1 ?t = Some BLACK"
        using "4.IH"(1)[OF Some WHITE d] "4.prems"(2,4,7) Some WHITE by simp
      show ?thesis
      proof (cases r1)
        case True
        then show ?thesis using IH1 d "4.prems"(1) Some WHITE by simp
      next
        case False
        then have w: "same_work col c1" "black_order g c1" "c1 ?t = Some BLACK" using IH1 by simp_all
        have e: "dfs_edges d g c1 es = Inr (col', r)" using "4.prems"(1) Some WHITE d False by simp
        have g1: "\<forall>m. c1 m = Some GREY \<longleftrightarrow> col m = Some GREY" using w(1) by (simp add: same_work_def)
        have d1: "dom c1 = node_ids g" using w(1) "4.prems"(2) by (simp add: same_work_def)
        have IH2: "if r then \<not> acyclic (edge_rel g)
          else same_work c1 col' \<and> black_order g col' \<and> (\<forall>e\<in>set es. col' (target_node_id e) = Some BLACK)"
          by (rule "4.IH"(2)[OF Some WHITE d refl False e d1 _ w(2) _ tl "4.prems"(7)]) (use g1 "4.prems"(3,5) in simp_all)
        show ?thesis
        proof (cases r)
          case False
          then have w2: "same_work c1 col'" using IH2 by simp
          then have "col' ?t = Some BLACK" using w(3) by (simp add: same_work_def)
          then show ?thesis using IH2 False same_work_trans[OF w(1) w2] by simp
        qed (use IH2 in simp)
      qed
    qed
  qed
qed simp_all

lemma finite_node_ids [simp]: "finite (node_ids g)"
  by (simp add: node_ids_def)

lemma finite_white: "dom col = node_ids g \<Longrightarrow> finite {m. col m = Some c}"
  by (rule finite_subset[of _ "dom col"]) (blast, simp)

lemma white_grey_card:
  assumes "dom col = node_ids g" "col n = Some WHITE"
  shows "Suc (card {m. (col(n \<mapsto> GREY)) m = Some WHITE}) = card {m. col m = Some WHITE}"
proof -
  have "finite {m. col m = Some WHITE}" by (rule finite_white[OF assms(1)])
  moreover have "{m. col m = Some WHITE} = insert n {m. (col(n \<mapsto> GREY)) m = Some WHITE}" using assms(2) by auto
  ultimately show ?thesis by (metis (mono_tags, lifting) card_insert_disjoint color.distinct(1) finite_insert fun_upd_same mem_Collect_eq option.inject)
qed

lemma white_card_mono:
  assumes "dom col = node_ids g" "same_work col col'"
  shows "card {m. col' m = Some WHITE} \<le> card {m. col m = Some WHITE}"
  by (rule card_mono[OF finite_white[OF assms(1)] same_work_white[OF assms(2)]])

lemma dfs_total:
  assumes sub: "edge_rel g \<subseteq> node_ids g \<times> node_ids g"
  shows dfs_node_total: "dom col = node_ids g \<Longrightarrow> col n = Some WHITE \<Longrightarrow> black_order g col \<Longrightarrow>
      \<forall>m. col m = Some GREY \<longrightarrow> (m, n) \<in> (edge_rel g)\<^sup>* \<Longrightarrow> card {m. col m = Some WHITE} \<le> d \<Longrightarrow>
      \<exists>x. dfs d g col n = Inr x"
    and dfs_edges_total: "dom col = node_ids g \<Longrightarrow> col p = Some GREY \<Longrightarrow> black_order g col \<Longrightarrow>
      \<forall>m. col m = Some GREY \<longrightarrow> (m, p) \<in> (edge_rel g)\<^sup>* \<Longrightarrow> set (map target_node_id es) \<subseteq> set (successors g p) \<Longrightarrow>
      card {m. col m = Some WHITE} \<le> d \<Longrightarrow> \<exists>x. dfs_edges d g col es = Inr x"
  using sub
proof (induction d g col n and d g col es arbitrary: and p rule: dfs_dfs_edges.induct)
  case (1 g col n)
  then show ?case using white_grey_card[of col g n] by simp
next
  case (2 d g col n)
  have "n \<in> node_ids g" using 2(2,3) by blast
  then obtain node where node: "map_of (g_nodes g) n = Some node" by (auto simp: node_ids_map_of)
  have "{m. (col(n \<mapsto> GREY)) m = Some BLACK} = {m. col m = Some BLACK}" using 2(3) by auto
  then have bo: "black_order g (col(n \<mapsto> GREY))" using 2(4) by (simp add: black_order_def)
  have dom: "dom (col(n \<mapsto> GREY)) = node_ids g" using 2(2) \<open>n \<in> node_ids g\<close> by auto
  have "\<exists>x. dfs_edges d g (col(n \<mapsto> GREY)) (provides_to node) = Inr x"
    by (rule 2(1)[OF node dom _ bo, of n]) (use 2(5,6,7) white_grey_card[OF 2(2,3)] node in \<open>simp_all add: successors_def\<close>)
  then show ?case using node by (auto split: prod.split)
next
  case (4 d g col e es)
  let ?t = "target_node_id e"
  have pt: "(p, ?t) \<in> edge_rel g" using "4.prems"(5) by (auto simp: edge_rel_def)
  have tl: "set (map target_node_id es) \<subseteq> set (successors g p)" using "4.prems"(5) by simp
  have "?t \<in> dom col" using pt "4.prems"(1,7) by auto
  then obtain c where c: "col ?t = Some c" by auto
  show ?case
  proof (cases c)
    case WHITE
    have grey: "\<forall>m. col m = Some GREY \<longrightarrow> (m, ?t) \<in> (edge_rel g)\<^sup>*"
      using "4.prems"(4) pt by (meson rtrancl.rtrancl_into_rtrancl)
    obtain c1 r1 where d: "dfs d g col ?t = Inr (c1, r1)"
      using "4.IH"(1)[OF c WHITE "4.prems"(1) _ "4.prems"(3) grey "4.prems"(6,7)] c WHITE by auto
    have w: "\<not> r1 \<Longrightarrow> same_work col c1 \<and> black_order g c1 \<and> c1 ?t = Some BLACK"
      using dfs_node_correct[OF "4.prems"(7) d "4.prems"(1) _ "4.prems"(3) grey] c WHITE by auto
    show ?thesis
    proof (cases r1)
      case False
      have g1: "\<forall>m. c1 m = Some GREY \<longleftrightarrow> col m = Some GREY" "dom c1 = node_ids g"
        using w[OF False] "4.prems"(1) by (simp_all add: same_work_def)
      have "\<exists>x. dfs_edges d g c1 es = Inr x"
        by (rule "4.IH"(2)[OF c WHITE d refl False, of p])
          (use g1 w[OF False] "4.prems"(2,4,6,7) tl white_card_mono[OF "4.prems"(1), of c1] in simp_all)
      then show ?thesis using c WHITE d False by simp
    qed (use c WHITE d in auto)
  next
    case BLACK
    then show ?thesis using "4.IH"(3)[OF c BLACK "4.prems"(1-4) tl "4.prems"(6,7)] c by simp
  qed (use c in auto)
qed auto

lemma cycle_scan_correct:
  assumes sub: "edge_rel g \<subseteq> node_ids g \<times> node_ids g" and "card (node_ids g) \<le> d"
  shows "dom col = node_ids g \<Longrightarrow> black_order g col \<Longrightarrow> \<forall>m. col m \<noteq> Some GREY \<Longrightarrow> set ns \<subseteq> node_ids g \<Longrightarrow>
    (\<forall>m\<in>node_ids g - set ns. col m = Some BLACK) \<Longrightarrow> cycle_scan d g col ns = Inr (\<not> acyclic (edge_rel g))"
proof (induction ns arbitrary: col)
  case Nil
  then obtain bs where bs: "finish_order g bs" "set bs = {m. col m = Some BLACK}" by (auto simp: black_order_def)
  have "(x, x) \<notin> (edge_rel g)\<^sup>+" for x
  proof
    assume x: "(x, x) \<in> (edge_rel g)\<^sup>+"
    then obtain z where "(x, z) \<in> edge_rel g" by (meson tranclD)
    then have "x \<in> set bs" using sub Nil bs(2) by auto
    then show False using finish_order_acyclic[OF bs(1)] x by blast
  qed
  then show ?case by (simp add: acyclic_def)
next
  case (Cons n ns)
  have n: "n \<in> node_ids g" using Cons.prems(4) by simp
  show ?case
  proof (cases "col n = Some WHITE")
    case True
    have grey: "\<forall>m. col m = Some GREY \<longrightarrow> (m, n) \<in> (edge_rel g)\<^sup>*" using Cons.prems(3) by blast
    have "card {m. col m = Some WHITE} \<le> card (node_ids g)"
      by (rule card_mono) (use Cons.prems(1) in \<open>auto simp: node_ids_def\<close>)
    then obtain c1 r where d: "dfs d g col n = Inr (c1, r)"
      using dfs_node_total[OF sub Cons.prems(1) True Cons.prems(2) grey, of d] assms(2) by fastforce
    note res = dfs_node_correct[OF sub d Cons.prems(1) True Cons.prems(2) grey]
    show ?thesis
    proof (cases r)
      case False
      then have w: "same_work col c1" "black_order g c1" "c1 n = Some BLACK" using res by simp_all
      have "cycle_scan d g c1 ns = Inr (\<not> acyclic (edge_rel g))"
        by (rule Cons.IH) (use w Cons.prems in \<open>auto simp: same_work_def\<close>)
      then show ?thesis using True d False by simp
    qed (use True d res in simp)
  next
    case False
    obtain c where "col n = Some c" using n Cons.prems(1) by auto
    then have "col n = Some BLACK" using False Cons.prems(3) by (cases c) auto
    then have "\<forall>m\<in>node_ids g - set ns. col m = Some BLACK" using Cons.prems(5) by auto
    then show ?thesis using Cons.IH[OF Cons.prems(1-3)] Cons.prems(4) False by simp
  qed
qed

lemma has_cycle_exact:
  assumes "graph_wf g" "length (g_nodes g) \<le> frames"
  shows "has_cycle frames g = Inr (\<not> acyclic (edge_rel g))"
proof -
  let ?c = "map_of (map (\<lambda>k. (k, WHITE)) (map fst (g_nodes g)))"
  have c: "?c m = (if m \<in> node_ids g then Some WHITE else None)" for m
    by (simp only: map_of_map_restrict node_ids_def restrict_map_def) simp
  have "card (node_ids g) \<le> length (g_nodes g)" unfolding node_ids_def by (metis card_length length_map)
  moreover have "black_order g ?c" unfolding black_order_def c by (intro exI[of _ "[]"]) simp
  moreover have "dom ?c = node_ids g" using c by (auto simp: dom_def)
  ultimately show ?thesis unfolding has_cycle_def
    by (intro cycle_scan_correct edge_rel_nodes assms(1)) (use assms(2) c in \<open>auto simp: node_ids_def\<close>)
qed

text \<open>Frames to spare change no answer: what is not stopped by the recursion limit is exact.\<close>

lemma dfs_frames:
  "dfs d g col n \<noteq> Inl RecursionError \<Longrightarrow> dfs (Suc d) g col n = dfs d g col n"
  "dfs_edges d g col es \<noteq> Inl RecursionError \<Longrightarrow> dfs_edges (Suc d) g col es = dfs_edges d g col es"
proof (induction d g col n and d g col es rule: dfs_dfs_edges.induct)
  case (2 d g col n)
  show ?case
  proof (cases "map_of (g_nodes g) n")
    case (Some node)
    then have "dfs_edges d g (col(n \<mapsto> GREY)) (provides_to node) \<noteq> Inl RecursionError" using 2(2) by auto
    then show ?thesis using Some 2(1)[OF Some] by (simp only: dfs.simps option.case not_False_eq_True)
  qed simp
next
  case (4 d g col e es)
  show ?case
  proof (cases "col (target_node_id e)")
    case (Some c)
    show ?thesis
    proof (cases c)
      case WHITE
      then have t: "col (target_node_id e) = Some WHITE" using Some by simp
      have "dfs d g col (target_node_id e) \<noteq> Inl RecursionError" using 4(4) t by auto
      then have "dfs (Suc d) g col (target_node_id e) = dfs d g col (target_node_id e)" using 4(1)[OF t] by simp
      then show ?thesis using t 4(2)[OF t] 4(4) by (cases "dfs d g col (target_node_id e)") (auto split: prod.splits simp del: dfs.simps)
    next
      case BLACK
      then show ?thesis using Some 4(3,4) by simp
    qed (use Some in simp)
  qed simp
qed simp_all

lemma cycle_scan_frames: "cycle_scan d g col ns \<noteq> Inl RecursionError \<Longrightarrow> cycle_scan (d + k) g col ns = cycle_scan d g col ns"
proof (induction ns arbitrary: col)
  case (Cons n ns)
  have more: "dfs d g col n \<noteq> Inl RecursionError \<Longrightarrow> dfs (d + k) g col n = dfs d g col n" for k
    by (induction k) (simp_all add: dfs_frames(1) del: dfs.simps)
  show ?case
  proof (cases "col n = Some WHITE")
    case True
    then have "dfs d g col n \<noteq> Inl RecursionError" using Cons.prems by auto
    then show ?thesis using True Cons more by (cases "dfs d g col n") (auto split: prod.splits)
  qed (use Cons in simp)
qed simp

lemma has_cycle_any:
  assumes "graph_wf g" "has_cycle frames g \<noteq> Inl RecursionError"
  shows "has_cycle frames g = Inr (\<not> acyclic (edge_rel g))"
  using has_cycle_exact[OF assms(1), of "frames + length (g_nodes g)"] assms(2) cycle_scan_frames
  unfolding has_cycle_def by fastforce

section \<open>Operations keep the invariant\<close>

lemma new_graph_ok: "graph_ok new_graph"
  by (simp add: graph_ok_def graph_wf_def new_graph_def od_wf_def edge_rel_def successors_def acyclic_def)

lemma clear_graph_ok: "graph_ok (clear_graph g)"
  by (simp add: graph_ok_def graph_wf_def clear_graph_def od_wf_def edge_rel_def successors_def acyclic_def)

lemma add_node_ok:
  assumes "graph_ok g"
  shows "graph_ok (fst (add_node name ps nid g))"
proof -
  have cnt: "graph_ok (g\<lparr>g_counter := c\<rparr>)" for c
    using assms by (simp add: graph_ok_def graph_wf_def edge_rel_def successors_def node_ids_def)
  have new: "graph_ok (g'\<lparr>g_nodes := AList.update i \<lparr>node_id = i, indicator_name = nm, params = p, depends_on = [],
      provides_to = []\<rparr> (g_nodes g')\<rparr>)" if g': "graph_ok g'" and i: "map_of (g_nodes g') i = None" for g' :: "'a dependency_graph" and i nm p
  proof -
    let ?g = "g'\<lparr>g_nodes := AList.update i \<lparr>node_id = i, indicator_name = nm, params = p, depends_on = [],
      provides_to = []\<rparr> (g_nodes g')\<rparr>"
    have wf: "graph_wf g'" using g' by (simp add: graph_ok_def)
    have "i \<notin> node_ids g'" using i by (simp add: node_ids_map_of)
    then have no: "\<forall>e\<in>set (g_edges g'). source_node_id e \<noteq> i \<and> target_node_id e \<noteq> i"
      using wf by (auto simp: graph_wf_def)
    have ids: "node_ids ?g = insert i (node_ids g')" by (auto simp: node_ids_map_of map_of_update split: if_splits)
    have wf2: "graph_wf ?g" unfolding graph_wf_def ids
      using wf no by (auto simp: graph_wf_def map_of_update filter_empty_conv)
    have "edge_rel ?g = edge_rel g'" using edge_rel_edges[OF wf] edge_rel_edges[OF wf2] by simp
    then show ?thesis using g' wf2 by (simp add: graph_ok_def)
  qed
  show ?thesis using new[OF assms] new[OF cnt] assms cnt
    by (auto simp: add_node_def Let_def split: option.split simp del: not_None_eq)
qed

lemma remove_node_nodes:
  "map_of (g_nodes (remove_node i g)) k = (if k = i then None else
     map_option (\<lambda>n. n\<lparr>depends_on := filter (\<lambda>e. source_node_id e \<noteq> i) (depends_on n),
       provides_to := filter (\<lambda>e. target_node_id e \<noteq> i) (provides_to n)\<rparr>) (map_of (g_nodes g) k))"
proof -
  have "map_of (map (\<lambda>(k, n). (k, f n)) d) k = map_option f (map_of d k)" for f :: "'a dependency_node \<Rightarrow> 'a dependency_node" and d
    by (induction d) auto
  then show ?thesis by (simp add: remove_node_def map_of_delete)
qed

lemma remove_node_ok:
  assumes "graph_ok g"
  shows "graph_ok (remove_node i g)" "node_ids (remove_node i g) = node_ids g - {i}"
proof -
  let ?g = "remove_node i g"
  have wf: "graph_wf g" using assms by (simp add: graph_ok_def)
  show ids: "node_ids ?g = node_ids g - {i}" by (auto simp: node_ids_map_of remove_node_nodes split: if_splits)
  have "od_wf (map (\<lambda>(k, n). (k, f n)) d) = od_wf d"
    for f :: "'a dependency_node \<Rightarrow> 'a dependency_node" and d :: "(string \<times> 'a dependency_node) list"
    by (simp add: od_wf_def case_prod_unfold comp_def)
  then have "od_wf (g_nodes ?g)" using wf by (simp add: remove_node_def graph_wf_def od_wf_delete)
  moreover have "g_edges ?g = filter (\<lambda>e. source_node_id e \<noteq> i \<and> target_node_id e \<noteq> i) (g_edges g)"
    by (simp add: remove_node_def)
  moreover have "node_id n = k \<and> provides_to n = filter (\<lambda>x. source_node_id x = k) (g_edges ?g)
      \<and> depends_on n = filter (\<lambda>x. target_node_id x = k) (g_edges ?g)"
    if pn: "map_of (g_nodes ?g) k = Some n" for k n
  proof -
    obtain m where m: "map_of (g_nodes g) k = Some m" "k \<noteq> i" "n = m\<lparr>
      depends_on := filter (\<lambda>e. source_node_id e \<noteq> i) (depends_on m),
      provides_to := filter (\<lambda>e. target_node_id e \<noteq> i) (provides_to m)\<rparr>"
      using pn by (auto simp: remove_node_nodes split: if_splits)
    have "node_id m = k" "provides_to m = filter (\<lambda>x. source_node_id x = k) (g_edges g)"
      "depends_on m = filter (\<lambda>x. target_node_id x = k) (g_edges g)"
      using wf m(1) by (auto simp: graph_wf_def)
    then show ?thesis using m(2,3) by (auto simp: remove_node_def intro!: filter_cong)
  qed
  ultimately have wf2: "graph_wf ?g" using wf unfolding graph_wf_def ids by auto
  have "edge_rel ?g \<subseteq> edge_rel g" unfolding edge_rel_edges[OF wf] edge_rel_edges[OF wf2]
    by (auto simp: remove_node_def)
  then have "acyclic (edge_rel ?g)" using assms acyclic_subset by (auto simp: graph_ok_def)
  then show "graph_ok ?g" using wf2 by (simp add: graph_ok_def)
qed

lemma update_node_nodes:
  "map_of (g_nodes (update_node i f g)) k = (if k = i then map_option f (map_of (g_nodes g) k) else map_of (g_nodes g) k)"
  by (auto simp: update_node_def map_of_update split: option.split)

lemma update_node_keys [simp]: "map fst (g_nodes (update_node i f g)) = map fst (g_nodes g)"
  by (cases "map_of (g_nodes g) i") (simp_all add: update_node_def map_fst_update_in)

lemma update_node_rest [simp]:
  "g_edges (update_node i f g) = g_edges g" "g_counter (update_node i f g) = g_counter g"
  by (simp_all add: update_node_def split: option.split)

lemma put_edge_nodes:
  assumes "source_node_id e \<noteq> target_node_id e"
  shows "map_of (g_nodes (put_edge e g)) k = map_option (\<lambda>n. n\<lparr>
      depends_on := depends_on n @ (if target_node_id e = k then [e] else []),
      provides_to := provides_to n @ (if source_node_id e = k then [e] else [])\<rparr>) (map_of (g_nodes g) k)"
  using assms by (cases "map_of (g_nodes g) k") (auto simp: put_edge_def Let_def update_node_nodes)

lemma put_edge_rest [simp]: "map fst (g_nodes (put_edge e g)) = map fst (g_nodes g)"
  "g_edges (put_edge e g) = g_edges g @ [e]" "node_ids (put_edge e g) = node_ids g"
  by (simp_all add: put_edge_def Let_def node_ids_def del: list.set_map)

lemma alist_eqI:
  assumes "map fst a = map fst b" "distinct (map fst a)" "map_of a = map_of b"
  shows "a = b"
proof -
  have rebuild: "map (\<lambda>k. (k, the (map_of c k))) (map fst c) = c" if "distinct (map fst c)" for c :: "('x \<times> 'y) list"
    using that by (auto simp: comp_def intro!: map_idI dest: map_of_is_SomeI)
  then show ?thesis using assms by metis
qed

lemma pop_put_edge:
  assumes "od_wf (g_nodes g)" "source_node_id e \<noteq> target_node_id e"
  shows "pop_edge e (put_edge e g) = g"
proof -
  let ?g = "pop_edge e (put_edge e g)"
  have "map_of (g_nodes ?g) k = map_of (g_nodes g) k" for k
    using assms(2) by (cases "map_of (g_nodes g) k") (auto simp: pop_edge_def Let_def update_node_nodes put_edge_nodes)
  moreover have "map fst (g_nodes ?g) = map fst (g_nodes g)" by (simp add: pop_edge_def Let_def)
  ultimately have "g_nodes ?g = g_nodes g"
    using assms(1) by (intro alist_eqI) (simp_all add: od_wf_def fun_eq_iff)
  moreover have "g_edges ?g = g_edges g" "g_counter ?g = g_counter g" by (simp_all add: pop_edge_def put_edge_def Let_def)
  ultimately show ?thesis by simp
qed

lemma put_edge_wf:
  assumes "graph_wf g" "source_node_id e \<noteq> target_node_id e" "source_node_id e \<in> node_ids g" "target_node_id e \<in> node_ids g"
  shows "graph_wf (put_edge e g)" "edge_rel (put_edge e g) = insert (source_node_id e, target_node_id e) (edge_rel g)"
proof -
  have "node_id n = k \<and> provides_to n = filter (\<lambda>x. source_node_id x = k) (g_edges (put_edge e g))
      \<and> depends_on n = filter (\<lambda>x. target_node_id x = k) (g_edges (put_edge e g))"
    if pn: "map_of (g_nodes (put_edge e g)) k = Some n" for k n
  proof -
    obtain m where m: "map_of (g_nodes g) k = Some m" "n = m\<lparr>
      depends_on := depends_on m @ (if target_node_id e = k then [e] else []),
      provides_to := provides_to m @ (if source_node_id e = k then [e] else [])\<rparr>"
      using pn put_edge_nodes[OF assms(2), of g k] by (cases "map_of (g_nodes g) k") simp_all
    have "node_id m = k" "provides_to m = filter (\<lambda>x. source_node_id x = k) (g_edges g)"
      "depends_on m = filter (\<lambda>x. target_node_id x = k) (g_edges g)"
      using assms(1) m(1) by (auto simp: graph_wf_def)
    then show ?thesis using m(2) by simp
  qed
  moreover have "\<forall>x\<in>set (g_edges (put_edge e g)). source_node_id x \<in> node_ids (put_edge e g) \<and> target_node_id x \<in> node_ids (put_edge e g)"
    using assms by (auto simp: graph_wf_def)
  moreover have "od_wf (g_nodes (put_edge e g))" using assms(1) by (simp add: graph_wf_def od_wf_def)
  ultimately show wf: "graph_wf (put_edge e g)" unfolding graph_wf_def by blast
  show "edge_rel (put_edge e g) = insert (source_node_id e, target_node_id e) (edge_rel g)"
    unfolding edge_rel_edges[OF wf] edge_rel_edges[OF assms(1)] by auto
qed

lemma add_edge_result:
  assumes "graph_ok g" "u \<in> node_ids g" "w \<in> node_ids g" "u \<noteq> w"
    "e = \<lparr>source_node_id = u, target_node_id = w, source_output = so, target_input = ti\<rparr>"
  shows "add_edge frames u w so ti g =
      (if has_cycle frames (put_edge e g) = Inl RecursionError then (put_edge e g, Inl RecursionError)
       else if (w, u) \<in> (edge_rel g)\<^sup>* then (g, Inl CyclicDependencyError) else (put_edge e g, Inr e))"
    "has_cycle frames (put_edge e g) = Inl RecursionError \<Longrightarrow> frames < length (g_nodes g)"
proof -
  have wf: "graph_wf g" "od_wf (g_nodes g)" and ac: "acyclic (edge_rel g)"
    using assms(1) by (simp_all add: graph_ok_def graph_wf_def)
  have ends: "source_node_id e \<noteq> target_node_id e" "source_node_id e \<in> node_ids g" "target_node_id e \<in> node_ids g"
    using assms(2-5) by simp_all
  have put: "graph_wf (put_edge e g)" "edge_rel (put_edge e g) = insert (u, w) (edge_rel g)"
    using put_edge_wf[OF wf(1) ends] assms(5) by simp_all
  have len: "length (g_nodes (put_edge e g)) = length (g_nodes g)" by (metis length_map put_edge_rest(1))
  show "frames < length (g_nodes g)" if "has_cycle frames (put_edge e g) = Inl RecursionError"
    using has_cycle_exact[OF put(1), of frames] that len by (cases "frames < length (g_nodes g)") simp_all
  have "has_cycle frames (put_edge e g) = Inl RecursionError \<or> has_cycle frames (put_edge e g) = Inr ((w, u) \<in> (edge_rel g)\<^sup>*)"
    using has_cycle_any[OF put(1), of frames] put(2) ac by (auto simp: acyclic_insert)
  moreover have "map_of (g_nodes g) u \<noteq> None" "map_of (g_nodes g) w \<noteq> None" using assms(2,3) by (simp_all only: node_ids_map_of) simp_all
  ultimately show "add_edge frames u w so ti g =
      (if has_cycle frames (put_edge e g) = Inl RecursionError then (put_edge e g, Inl RecursionError)
       else if (w, u) \<in> (edge_rel g)\<^sup>* then (g, Inl CyclicDependencyError) else (put_edge e g, Inr e))"
    using assms(4,5) pop_put_edge[OF wf(2) ends(1)] by (auto simp: add_edge_def Let_def)
qed

lemma add_edge_ok:
  assumes "graph_ok g" "snd (add_edge frames u w so ti g) \<noteq> Inl RecursionError"
  shows "graph_ok (fst (add_edge frames u w so ti g))"
proof (cases "u \<in> node_ids g \<and> w \<in> node_ids g \<and> u \<noteq> w")
  case True
  let ?e = "\<lparr>source_node_id = u, target_node_id = w, source_output = so, target_input = ti\<rparr>"
  have "graph_ok (put_edge ?e g)" if "(w, u) \<notin> (edge_rel g)\<^sup>*"
    using put_edge_wf[of g ?e] assms(1) True that by (simp add: graph_ok_def acyclic_insert)
  then show ?thesis using True add_edge_result(1)[OF assms(1) _ _ _ refl, of u w frames so ti] assms by (auto split: if_splits)
next
  case False
  then show ?thesis using assms(1) by (auto simp: add_edge_def node_ids_map_of)
qed

section \<open>Topological order\<close>

definition to_node :: "string \<Rightarrow> dependency_edge list \<Rightarrow> nat" where
  "to_node k es = length (filter (\<lambda>e. target_node_id e = k) es)"

definition open_degree :: "'v dependency_graph \<Rightarrow> string list \<Rightarrow> string \<Rightarrow> nat" where
  "open_degree g R k = to_node k (filter (\<lambda>e. source_node_id e \<notin> set R) (g_edges g))"

lemma to_node_simps [simp]: "to_node k [] = 0"
  "to_node k (e # es) = (if target_node_id e = k then Suc (to_node k es) else to_node k es)"
  by (simp_all add: to_node_def)

lemma count_edges_result:
  assumes "\<forall>e\<in>set es. map_of deg (target_node_id e) \<noteq> None"
  shows "\<exists>deg'. count_edges es deg = Inr deg' \<and> map fst deg' = map fst deg
    \<and> (\<forall>k. map_of deg' k = map_option (\<lambda>d. d + int (to_node k es)) (map_of deg k))"
  using assms
proof (induction es arbitrary: deg)
  case (Cons e es)
  let ?t = "target_node_id e"
  obtain d where d: "map_of deg ?t = Some d" using Cons.prems by auto
  let ?deg = "AList.update ?t (d + 1) deg"
  have "\<forall>e\<in>set es. map_of ?deg (target_node_id e) \<noteq> None" using Cons.prems by (simp add: map_of_update del: not_None_eq)
  from Cons.IH[OF this] obtain deg' where deg': "count_edges es ?deg = Inr deg'" "map fst deg' = map fst ?deg"
    "\<And>k. map_of deg' k = map_option (\<lambda>d. d + int (to_node k es)) (map_of ?deg k)" by blast
  have "map_of deg' k = map_option (\<lambda>d. d + int (to_node k (e # es))) (map_of deg k)" for k
    using d by (simp add: deg'(3) map_of_update)
  then show ?case using d deg'(1,2) map_fst_update_in[OF d] by simp
qed (simp add: option.map_id0[unfolded id_def])

lemma kahn_edges_result:
  assumes "\<forall>e\<in>set es. map_of deg (target_node_id e) \<noteq> None" "\<forall>k d. map_of deg k = Some d \<longrightarrow> int (to_node k es) \<le> d"
  shows "\<exists>deg' new. kahn_edges es deg q = Inr (deg', q @ new) \<and> distinct new
    \<and> (\<forall>k. map_of deg' k = map_option (\<lambda>d. d - int (to_node k es)) (map_of deg k))
    \<and> set new = {k. \<exists>d. map_of deg k = Some d \<and> 0 < d \<and> d = int (to_node k es)}"
  using assms
proof (induction es arbitrary: deg q)
  case (Cons e es)
  let ?t = "target_node_id e"
  obtain d where d: "map_of deg ?t = Some d" using Cons.prems(1) by auto
  have pos: "int (to_node ?t es) + 1 \<le> d" using Cons.prems(2) d by fastforce
  let ?deg = "AList.update ?t (d - 1) deg"
  let ?q = "if d - 1 = 0 then q @ [?t] else q"
  have "\<forall>e\<in>set es. map_of ?deg (target_node_id e) \<noteq> None" using Cons.prems(1) by (simp add: map_of_update del: not_None_eq)
  moreover have "\<forall>k d'. map_of ?deg k = Some d' \<longrightarrow> int (to_node k es) \<le> d'"
  proof (intro allI impI)
    fix k d' assume k: "map_of ?deg k = Some d'"
    show "int (to_node k es) \<le> d'"
    proof (cases "k = ?t")
      case False
      then have "map_of deg k = Some d'" using k by (simp add: map_of_update)
      then have "int (to_node k (e # es)) \<le> d'" using Cons.prems(2) by blast
      then show ?thesis using False by auto
    qed (use k pos in \<open>simp add: map_of_update\<close>)
  qed
  ultimately obtain deg' new where r: "kahn_edges es ?deg ?q = Inr (deg', ?q @ new)" "distinct new"
    "\<And>k. map_of deg' k = map_option (\<lambda>d. d - int (to_node k es)) (map_of ?deg k)"
    "set new = {k. \<exists>d. map_of ?deg k = Some d \<and> 0 < d \<and> d = int (to_node k es)}"
    using Cons.IH[of ?deg ?q] by blast
  have deg': "map_of deg' k = map_option (\<lambda>d. d - int (to_node k (e # es))) (map_of deg k)" for k
    using d by (simp add: r(3) map_of_update)
  let ?new = "if d - 1 = 0 then ?t # new else new"
  have tn: "?t \<in> set new \<longleftrightarrow> 0 < d - 1 \<and> d - 1 = int (to_node ?t es)" unfolding r(4) by (auto simp: map_of_update)
  have kn: "k \<in> set new \<longleftrightarrow> (\<exists>d. map_of deg k = Some d \<and> 0 < d \<and> d = int (to_node k (e # es)))" if "k \<noteq> ?t" for k
    unfolding r(4) using that by (auto simp: map_of_update)
  have "k \<in> set ?new \<longleftrightarrow> (\<exists>d. map_of deg k = Some d \<and> 0 < d \<and> d = int (to_node k (e # es)))" for k
  proof (cases "k = ?t")
    case True
    then show ?thesis using tn d pos by auto
  next
    case False
    then show ?thesis using kn[OF False] by simp
  qed
  then have "set ?new = {k. \<exists>d. map_of deg k = Some d \<and> 0 < d \<and> d = int (to_node k (e # es))}" by blast
  moreover have "distinct ?new" using r(2) tn by auto
  moreover have "kahn_edges (e # es) deg q = Inr (deg', q @ ?new)" using r(1) d by simp
  ultimately show ?case using deg' by blast
qed (simp add: option.map_id0[unfolded id_def])

definition sort_state :: "'v dependency_graph \<Rightarrow> string list \<Rightarrow> (string \<times> int) list \<Rightarrow> string list \<Rightarrow> bool" where
  "sort_state g R deg pending \<longleftrightarrow>
     (\<forall>k. map_of deg k = (if k \<in> node_ids g then Some (int (open_degree g R k)) else None))
     \<and> distinct (R @ pending) \<and> set (R @ pending) = {k \<in> node_ids g. open_degree g R k = 0}"

lemma open_degree_step:
  assumes "n \<notin> set R"
  shows "open_degree g R k = open_degree g (R @ [n]) k + to_node k (filter (\<lambda>e. source_node_id e = n) (g_edges g))"
proof -
  have "to_node k (filter (\<lambda>e. source_node_id e \<notin> set R) es) = to_node k (filter (\<lambda>e. source_node_id e \<notin> set (R @ [n])) es)
      + to_node k (filter (\<lambda>e. source_node_id e = n) es)" for es
    using assms by (induction es) auto
  then show ?thesis by (simp add: open_degree_def)
qed

lemma process_node:
  assumes wf: "graph_wf g" and st: "sort_state g R deg (n # P @ cand)"
  shows "\<exists>nd deg' new. map_of (g_nodes g) n = Some nd \<and> kahn_edges (provides_to nd) deg cand = Inr (deg', cand @ new)
    \<and> sort_state g (R @ [n]) deg' (P @ cand @ new)"
proof -
  have n: "n \<in> node_ids g" "n \<notin> set R" using st by (auto simp: sort_state_def)
  then obtain nd where nd: "map_of (g_nodes g) n = Some nd" by (auto simp: node_ids_map_of)
  let ?es = "filter (\<lambda>e. source_node_id e = n) (g_edges g)"
  have es: "provides_to nd = ?es" using wf nd by (auto simp: graph_wf_def)
  note deg = st[unfolded sort_state_def, THEN conjunct1, rule_format]
  have "\<forall>e\<in>set ?es. map_of deg (target_node_id e) \<noteq> None" using wf by (auto simp: deg graph_wf_def)
  moreover have "\<forall>k d. map_of deg k = Some d \<longrightarrow> int (to_node k ?es) \<le> d"
    using open_degree_step[OF n(2), of g] by (auto simp: deg split: if_splits)
  ultimately obtain deg' new where r: "kahn_edges ?es deg cand = Inr (deg', cand @ new)" "distinct new"
    "\<And>k. map_of deg' k = map_option (\<lambda>d. d - int (to_node k ?es)) (map_of deg k)"
    "set new = {k. \<exists>d. map_of deg k = Some d \<and> 0 < d \<and> d = int (to_node k ?es)}"
    using kahn_edges_result by blast
  have zero: "set new = {k \<in> node_ids g. open_degree g (R @ [n]) k = 0 \<and> open_degree g R k \<noteq> 0}"
    unfolding r(4) using open_degree_step[OF n(2), of g] by (auto simp: deg split: if_splits)
  have old: "set (R @ n # P @ cand) = {k \<in> node_ids g. open_degree g R k = 0}" "distinct (R @ n # P @ cand)"
    using st by (simp_all add: sort_state_def)
  have mono: "open_degree g (R @ [n]) k = 0" if "open_degree g R k = 0" for k using that open_degree_step[OF n(2), of g k] by simp
  have "map_of deg' k = (if k \<in> node_ids g then Some (int (open_degree g (R @ [n]) k)) else None)" for k
    using open_degree_step[OF n(2), of g k] by (simp add: r(3) deg)
  moreover have "set (R @ n # P @ cand) \<inter> set new = {}" unfolding old zero by blast
  then have "distinct ((R @ [n]) @ P @ cand @ new)" using old(2) r(2) by auto
  moreover have "set ((R @ [n]) @ P @ cand @ new) = set (R @ n # P @ cand) \<union> set new" by auto
  then have "set ((R @ [n]) @ P @ cand @ new) = {k \<in> node_ids g. open_degree g (R @ [n]) k = 0}"
    unfolding old zero using mono by blast
  ultimately have "sort_state g (R @ [n]) deg' (P @ cand @ new)" unfolding sort_state_def by blast
  then show ?thesis using nd r(1) es by auto
qed

text \<open>Every edge into a node of the list starts at an earlier node of the list.\<close>

definition topo_ok :: "'v dependency_graph \<Rightarrow> string list \<Rightarrow> bool" where
  "topo_ok g R \<longleftrightarrow> (\<forall>ys x zs. R = ys @ x # zs \<longrightarrow>
     (\<forall>e\<in>set (g_edges g). target_node_id e = x \<longrightarrow> source_node_id e \<in> set ys))"

lemma open_degree_zero:
  "open_degree g R k = 0 \<longleftrightarrow> (\<forall>e\<in>set (g_edges g). target_node_id e = k \<longrightarrow> source_node_id e \<in> set R)"
  by (auto simp: open_degree_def to_node_def filter_empty_conv)

lemma topo_ok_snoc:
  assumes "topo_ok g R" "open_degree g R n = 0"
  shows "topo_ok g (R @ [n])"
  unfolding topo_ok_def
proof (intro allI impI)
  fix ys x zs assume s: "R @ [n] = ys @ x # zs"
  show "\<forall>e\<in>set (g_edges g). target_node_id e = x \<longrightarrow> source_node_id e \<in> set ys"
  proof (cases zs rule: rev_cases)
    case Nil
    then show ?thesis using s assms(2) by (simp add: open_degree_zero)
  next
    case (snoc zs' z)
    then have "R = ys @ x # zs'" using s by simp
    then show ?thesis using assms(1) by (simp add: topo_ok_def)
  qed
qed

lemma kahn_result:
  assumes wf: "graph_wf g"
  shows "sort_state g R deg q \<Longrightarrow> topo_ok g R \<Longrightarrow>
    \<exists>R' deg'. kahn g deg q R = Inr R' \<and> sort_state g R' deg' [] \<and> topo_ok g R'"
  using wf
proof (induction g deg q R rule: kahn.induct)
  case (1 g deg q R)
  show ?case
  proof (cases q)
    case Nil
    then show ?thesis using 1(2,3) by (auto simp: kahn.simps)
  next
    case (Cons n rest)
    then have st: "sort_state g R deg (n # [] @ rest)" using 1(2) by simp
    obtain nd deg' new where p: "map_of (g_nodes g) n = Some nd" "kahn_edges (provides_to nd) deg rest = Inr (deg', rest @ new)"
      "sort_state g (R @ [n]) deg' (rest @ new)" using process_node[OF 1(4) st] by auto
    have "open_degree g R n = 0" using st by (auto simp: sort_state_def)
    then have "topo_ok g (R @ [n])" by (rule topo_ok_snoc[OF 1(3)])
    then show ?thesis using 1(1)[OF Cons p(1) p(2) refl p(3) _ 1(4)] Cons p(1,2) by (subst kahn.simps) simp
  qed
qed

lemma initial_state:
  assumes "graph_wf g"
  shows "\<exists>deg. in_degrees g = Inr deg \<and> sort_state g [] deg (map fst (filter (\<lambda>(k, d). d = 0) deg))"
proof -
  let ?zero = "map (\<lambda>k. (k, 0 :: int)) (map fst (g_nodes g))"
  have z: "map_of ?zero k = (if k \<in> node_ids g then Some 0 else None)" for k
    by (simp only: map_of_map_restrict node_ids_def restrict_map_def) simp
  have "\<forall>e\<in>set (g_edges g). map_of ?zero (target_node_id e) \<noteq> None" unfolding z using assms by (auto simp: graph_wf_def)
  then obtain deg where d: "in_degrees g = Inr deg" "map fst deg = map fst ?zero"
    "\<And>k. map_of deg k = map_option (\<lambda>d. d + int (to_node k (g_edges g))) (map_of ?zero k)"
    unfolding in_degrees_def using count_edges_result by blast
  have deg: "map_of deg k = (if k \<in> node_ids g then Some (int (open_degree g [] k)) else None)" for k
    unfolding d(3) z by (simp add: open_degree_def)
  have wf: "od_wf deg" using assms d(2) by (simp add: od_wf_def graph_wf_def comp_def)
  have dist: "distinct (map fst (filter P deg))" for P using wf by (simp add: od_wf_def distinct_map_filter)
  have mem: "k \<in> set (map fst (filter (\<lambda>(k, d). d = 0) deg)) \<longleftrightarrow> map_of deg k = Some 0" for k
  proof
    assume "map_of deg k = Some 0"
    then show "k \<in> set (map fst (filter (\<lambda>(k, d). d = 0) deg))" by (force dest: map_of_SomeD)
  next
    assume "k \<in> set (map fst (filter (\<lambda>(k, d). d = 0) deg))"
    then show "map_of deg k = Some 0" using wf by (auto simp: od_wf_def)
  qed
  have "set (map fst (filter (\<lambda>(k, d). d = 0) deg)) = {k \<in> node_ids g. open_degree g [] k = 0}"
    by (rule set_eqI) (simp only: mem deg mem_Collect_eq, simp)
  then have "sort_state g [] deg (map fst (filter (\<lambda>(k, d). d = 0) deg))"
    unfolding sort_state_def using deg dist by (simp only: append_Nil) blast
  then show ?thesis using d(1) by blast
qed

lemma all_sorted:
  assumes "graph_ok g" "sort_state g R deg []"
  shows "set R = node_ids g"
proof (rule ccontr)
  assume "set R \<noteq> node_ids g"
  then have "node_ids g - set R \<noteq> {}" using assms(2) by (auto simp: sort_state_def)
  have wfg: "graph_wf g" and ac: "acyclic (edge_rel g)" using assms(1) by (simp_all add: graph_ok_def)
  have "finite (edge_rel g)" by (rule finite_subset[OF edge_rel_nodes[OF wfg]]) simp
  then have "wf (edge_rel g)" using ac by (rule finite_acyclic_wf)
  then obtain z where z: "z \<in> node_ids g - set R" "\<And>y. (y, z) \<in> edge_rel g \<Longrightarrow> y \<notin> node_ids g - set R"
    using \<open>node_ids g - set R \<noteq> {}\<close> by (metis wf_eq_minimal ex_in_conv)
  then have "open_degree g R z \<noteq> 0" using assms(2) by (auto simp: sort_state_def)
  then obtain e where e: "e \<in> set (g_edges g)" "target_node_id e = z" "source_node_id e \<notin> set R"
    by (auto simp: open_degree_zero)
  then have "(source_node_id e, z) \<in> edge_rel g" "source_node_id e \<in> node_ids g"
    using edge_rel_edges[OF wfg] wfg by (auto simp: graph_wf_def)
  then show False using z(2) e(3) by blast
qed

lemma sort_length: "graph_wf g \<Longrightarrow> distinct R \<Longrightarrow> set R = node_ids g \<Longrightarrow> length R = length (g_nodes g)"
  by (metis graph_wf_def od_wf_def node_ids_def distinct_card length_map)

lemma topological_sort_result:
  assumes "graph_ok g"
  shows "\<exists>R. topological_sort g = Inr R \<and> distinct R \<and> set R = node_ids g \<and> topo_ok g R"
proof (cases "g_nodes g = []")
  case True
  then show ?thesis using assms
    by (auto simp: topological_sort_def node_ids_def topo_ok_def)
next
  case False
  have wf: "graph_wf g" using assms by (simp add: graph_ok_def)
  obtain deg where d: "in_degrees g = Inr deg" "sort_state g [] deg (map fst (filter (\<lambda>(k, d). d = 0) deg))"
    using initial_state[OF wf] by blast
  have "topo_ok g []" by (simp add: topo_ok_def)
  then obtain R deg' where R: "kahn g deg (map fst (filter (\<lambda>(k, d). d = 0) deg)) [] = Inr R" "sort_state g R deg' []" "topo_ok g R"
    using kahn_result[OF wf d(2)] by blast
  have "set R = node_ids g" by (rule all_sorted[OF assms R(2)])
  moreover have "distinct R" using R(2) by (simp add: sort_state_def)
  ultimately show ?thesis using sort_length[OF wf] R False d(1) by (simp add: topological_sort_def)
qed

subsection \<open>Levels\<close>

lemma level_nodes_result:
  assumes "graph_wf g" "sort_state g R deg (ns @ cand)"
  shows "\<exists>deg' cand'. level_nodes g ns deg cand = Inr (deg', cand') \<and> sort_state g (R @ ns) deg' cand'"
  using assms(2)
proof (induction ns arbitrary: R deg cand)
  case (Cons n ns)
  then have "sort_state g R deg (n # ns @ cand)" by simp
  from process_node[OF assms(1) this] obtain nd deg' new where p: "map_of (g_nodes g) n = Some nd"
    "kahn_edges (provides_to nd) deg cand = Inr (deg', cand @ new)" "sort_state g (R @ [n]) deg' (ns @ cand @ new)" by blast
  from Cons.IH[OF p(3)] show ?case using p(1,2) by auto
qed simp

text \<open>Every edge into a level starts in an earlier level.\<close>

fun levels_ok :: "'v dependency_graph \<Rightarrow> string set \<Rightarrow> string list list \<Rightarrow> bool" where
  "levels_ok g seen [] = True"
| "levels_ok g seen (L # Ls) = (L \<noteq> [] \<and> (\<forall>e\<in>set (g_edges g). target_node_id e \<in> set L \<longrightarrow> source_node_id e \<in> seen)
     \<and> levels_ok g (seen \<union> set L) Ls)"

lemma levels_ok_snoc:
  "levels_ok g seen (Ls @ [L]) \<longleftrightarrow> levels_ok g seen Ls \<and> levels_ok g (seen \<union> set (concat Ls)) [L]"
  by (induction Ls arbitrary: seen) (auto simp: Un_assoc)

lemma level_loop_result:
  assumes wf: "graph_wf g"
  shows "sort_state g (concat Ls) deg level \<Longrightarrow> levels_ok g {} Ls \<Longrightarrow>
    \<exists>Ls' deg'. level_loop g deg level Ls = Inr Ls' \<and> sort_state g (concat Ls') deg' [] \<and> levels_ok g {} Ls'"
  using wf
proof (induction g deg level Ls rule: level_loop.induct)
  case (1 g deg level Ls)
  show ?case
  proof (cases "level = []")
    case True
    then show ?thesis using 1(2,3) by (auto simp: level_loop.simps)
  next
    case False
    obtain deg' cand where l: "level_nodes g level deg [] = Inr (deg', cand)" "sort_state g (concat Ls @ level) deg' cand"
      using level_nodes_result[OF 1(4), of "concat Ls" deg level "[]"] 1(2) by auto
    have "\<forall>e\<in>set (g_edges g). target_node_id e \<in> set level \<longrightarrow> source_node_id e \<in> set (concat Ls)"
      using 1(2) open_degree_zero[of g "concat Ls"] unfolding sort_state_def by auto
    then have ok: "levels_ok g {} (Ls @ [level])" using 1(3) False by (simp add: levels_ok_snoc)
    have "sort_state g (concat (Ls @ [level])) deg' (sorted_list_of_set (set cand))"
      using l(2) by (auto simp: sort_state_def)
    then show ?thesis using 1(1)[OF False l(1) refl _ ok 1(4)] False l(1) by (subst level_loop.simps) simp
  qed
qed

section \<open>Transitive queries\<close>

definition nbr_rel :: "bool \<Rightarrow> 'v dependency_graph \<Rightarrow> (string \<times> string) set" where
  "nbr_rel up g = {(x, y). y \<in> set (neighbours up g x)}"

lemma push_new_sets:
  "push_new ds visited stack = (v, st) \<Longrightarrow>
    set v = set visited \<union> set ds \<and> set st = set stack \<union> (set ds - set visited)"
  by (induction ds visited stack rule: push_new.induct) (auto split: if_splits)

lemma closure_loop_result:
  assumes "set visited \<subseteq> {a. (i, a) \<in> (nbr_rel up g)\<^sup>+}" "set stack \<subseteq> insert i (set visited)"
    "\<forall>x\<in>insert i (set visited) - set stack. set (neighbours up g x) \<subseteq> set visited"
  shows "set (closure_loop up g visited stack) = {a. (i, a) \<in> (nbr_rel up g)\<^sup>+}"
  using assms
proof (induction up g visited stack rule: closure_loop.induct)
  case (1 up g visited stack)
  show ?case
  proof (cases stack)
    case Nil
    have "a \<in> set visited" if "(i, a) \<in> (nbr_rel up g)\<^sup>+" for a
      using that
    proof (induction rule: trancl_induct)
      case (base y)
      then show ?case using 1(4) Nil by (auto simp: nbr_rel_def)
    next
      case (step y z)
      then show ?case using 1(4) Nil by (auto simp: nbr_rel_def)
    qed
    then show ?thesis using 1(2) Nil by (subst closure_loop.simps) auto
  next
    case (Cons x rest)
    obtain v st where pn: "push_new (neighbours up g x) visited rest = (v, st)" by fastforce
    note sets = push_new_sets[OF pn]
    have x: "x = i \<or> (i, x) \<in> (nbr_rel up g)\<^sup>+" using 1(2,3) Cons by auto
    have "(i, a) \<in> (nbr_rel up g)\<^sup>+" if "a \<in> set (neighbours up g x)" for a
      using x that by (auto simp: nbr_rel_def intro: trancl_into_trancl)
    then have "set v \<subseteq> {a. (i, a) \<in> (nbr_rel up g)\<^sup>+}" using sets 1(2) by auto
    moreover have "set st \<subseteq> insert i (set v)" using sets 1(3) Cons by auto
    moreover have "\<forall>y\<in>insert i (set v) - set st. set (neighbours up g y) \<subseteq> set v"
      using sets 1(4) Cons by auto
    ultimately have "set (closure_loop up g v st) = {a. (i, a) \<in> (nbr_rel up g)\<^sup>+}"
      by (rule 1(1)[OF Cons pn[symmetric]])
    then show ?thesis using Cons pn by (subst closure_loop.simps) simp
  qed
qed

lemma nbr_rel_up:
  assumes wf: "graph_wf g"
  shows "nbr_rel True g = (edge_rel g)\<inverse>"
proof -
  have "y \<in> set (case map_of (g_nodes g) x of None \<Rightarrow> [] | Some n \<Rightarrow> map source_node_id (depends_on n))
      \<longleftrightarrow> (\<exists>e\<in>set (g_edges g). source_node_id e = y \<and> target_node_id e = x)" for x y
  proof (cases "map_of (g_nodes g) x")
    case None
    then have "x \<notin> node_ids g" by (simp add: node_ids_map_of)
    then show ?thesis using wf None by (auto simp: graph_wf_def)
  next
    case (Some n)
    then have "depends_on n = filter (\<lambda>e. target_node_id e = x) (g_edges g)" using wf by (auto simp: graph_wf_def)
    then show ?thesis using Some by auto
  qed
  then have "y \<in> set (neighbours True g x) \<longleftrightarrow> (y, x) \<in> edge_rel g" for x y
    unfolding edge_rel_edges[OF wf] neighbours_def get_dependencies_def by auto
  then show ?thesis by (auto simp: nbr_rel_def)
qed

lemma nbr_rel_down: "nbr_rel False g = edge_rel g"
  by (auto simp: nbr_rel_def edge_rel_def neighbours_def get_dependents_def successors_def split: option.splits)

section \<open>Graphs the operations build\<close>

text \<open>Every run of the operations in which no call of \<open>add_edge\<close> was stopped by the recursion limit.\<close>

inductive graph_built :: "'v dependency_graph \<Rightarrow> bool" where
  built_new: "graph_built new_graph"
| built_node: "graph_built g \<Longrightarrow> graph_built (fst (add_node name ps nid g))"
| built_edge: "graph_built g \<Longrightarrow> snd (add_edge frames u w so ti g) \<noteq> Inl RecursionError \<Longrightarrow>
    graph_built (fst (add_edge frames u w so ti g))"
| built_remove: "graph_built g \<Longrightarrow> graph_built (remove_node i g)"
| built_clear: "graph_built g \<Longrightarrow> graph_built (clear_graph g)"

lemma graph_built_ok: "graph_built g \<Longrightarrow> graph_ok g"
  by (induction rule: graph_built.induct)
    (simp_all add: new_graph_ok add_node_ok add_edge_ok remove_node_ok clear_graph_ok)

text \<open>C28: The cycle check is exact and its rollback complete. On any graph built by calls none of
  which hit the interpreter's recursion limit, an edge between two different known nodes is
  rejected with CyclicDependencyError, the graph being exactly what it was, if the target already
  reaches the source, and is otherwise recorded in the edge list and in both nodes. The one other
  outcome is a RecursionError, possible only on a graph of more nodes than the interpreter has
  frames left: it leaves the edge in the graph unchecked.\<close>

theorem add_edge_exact:
  assumes "graph_built g" "u \<in> node_ids g" "w \<in> node_ids g" "u \<noteq> w"
  shows "let e = \<lparr>source_node_id = u, target_node_id = w, source_output = so, target_input = ti\<rparr> in
    add_edge frames u w so ti g =
      (if (w, u) \<in> (edge_rel g)\<^sup>* then (g, Inl CyclicDependencyError) else (put_edge e g, Inr e)) \<or>
    frames < length (g_nodes g) \<and> add_edge frames u w so ti g = (put_edge e g, Inl RecursionError)"
  using add_edge_result[OF graph_built_ok[OF assms(1)] assms(2-4) refl, of frames so ti]
  unfolding Let_def by metis

text \<open>C29: Every graph built by calls none of which hit the interpreter's recursion limit can be
  executed: topological_sort returns each node exactly once, each after all the nodes it reads
  from, and never raises.\<close>

theorem built_graph_sorts:
  assumes "graph_built g"
  shows "\<exists>order. topological_sort g = Inr order \<and> distinct order \<and> set order = node_ids g
    \<and> (\<forall>ys x zs. order = ys @ x # zs \<longrightarrow>
         (\<forall>e\<in>set (g_edges g). target_node_id e = x \<longrightarrow> source_node_id e \<in> set ys))"
  using topological_sort_result[OF graph_built_ok[OF assms]] unfolding topo_ok_def by blast

text \<open>C30: The execution levels of a graph built by calls none of which hit the interpreter's recursion
  limit can run in parallel one after the other: they are non-empty and
  partition the nodes, and every node of a level reads only from earlier levels.\<close>

theorem execution_levels_sound:
  assumes "graph_built g"
  shows "\<exists>Ls. get_execution_levels g = Inr Ls \<and> distinct (concat Ls) \<and> set (concat Ls) = node_ids g \<and> levels_ok g {} Ls"
proof (cases "g_nodes g = []")
  case True
  then show ?thesis by (simp add: get_execution_levels_def node_ids_def)
next
  case False
  have ok: "graph_ok g" and wf: "graph_wf g" using graph_built_ok[OF assms] by (simp_all add: graph_ok_def)
  obtain deg where d: "in_degrees g = Inr deg" "sort_state g [] deg (map fst (filter (\<lambda>(k, d). d = 0) deg))"
    using initial_state[OF wf] by blast
  then obtain Ls deg' where L: "level_loop g deg (map fst (filter (\<lambda>(k, d). d = 0) deg)) [] = Inr Ls"
    "sort_state g (concat Ls) deg' []" "levels_ok g {} Ls" using level_loop_result[OF wf, of "[]"] by (metis concat.simps(1) levels_ok.simps(1))
  then show ?thesis using all_sorted[OF ok L(2)] d(1) False
    by (auto simp: get_execution_levels_def sort_state_def)
qed

text \<open>The transitive queries are exact: the ancestors of a node are the nodes with a path to
  it, the descendants those it reaches, and on a built graph a node is neither.\<close>

lemma transitive_queries_exact:
  assumes "graph_built g"
  shows "set (get_all_ancestors i g) = {a. (a, i) \<in> (edge_rel g)\<^sup>+}
    \<and> set (get_all_descendants i g) = {a. (i, a) \<in> (edge_rel g)\<^sup>+}
    \<and> i \<notin> set (get_all_ancestors i g) \<and> i \<notin> set (get_all_descendants i g)"
proof -
  have ok: "graph_wf g" "acyclic (edge_rel g)" using graph_built_ok[OF assms] by (simp_all add: graph_ok_def)
  have q: "set (closure_loop up g [] [i]) = {a. (i, a) \<in> (nbr_rel up g)\<^sup>+}" for up
    by (rule closure_loop_result) simp_all
  have "set (get_all_ancestors i g) = {a. (a, i) \<in> (edge_rel g)\<^sup>+}"
    unfolding get_all_ancestors_def q nbr_rel_up[OF ok(1)] trancl_converse by simp
  moreover have "set (get_all_descendants i g) = {a. (i, a) \<in> (edge_rel g)\<^sup>+}"
    unfolding get_all_descendants_def q nbr_rel_down by simp
  ultimately show ?thesis using ok(2) by (simp add: acyclic_def)
qed

subsection \<open>A concrete graph\<close>

definition chain3 :: "unit dependency_graph" where
  "chain3 = fst (add_edge 9 ''m'' ''s'' ''hist'' ''close'' (fst (add_edge 9 ''e'' ''m'' ''value'' ''close''
     (fst (add_node ''ma'' None (Some ''s'') (fst (add_node ''macd'' None (Some ''m'')
       (fst (add_node ''ema'' None (Some ''e'') new_graph)))))))))"

lemma chain3_built: "graph_built chain3"
proof -
  let ?n = "fst (add_node ''ma'' None (Some ''s'') (fst (add_node ''macd'' None (Some ''m'')
       (fst (add_node ''ema'' None (Some ''e'') (new_graph :: unit dependency_graph))))))"
  have "graph_built ?n" by (intro built_node built_new)
  moreover have "snd (add_edge 9 ''e'' ''m'' ''value'' ''close'' ?n) \<noteq> Inl RecursionError" by code_simp
  moreover have "snd (add_edge 9 ''m'' ''s'' ''hist'' ''close'' (fst (add_edge 9 ''e'' ''m'' ''value'' ''close'' ?n))) \<noteq> Inl RecursionError"
    by code_simp
  ultimately show ?thesis unfolding chain3_def by (intro built_edge)
qed

theorem add_edge_exact_witness:
  "snd (add_edge 9 ''s'' ''e'' ''value'' ''close'' chain3) = Inl CyclicDependencyError
    \<and> fst (add_edge 9 ''s'' ''e'' ''value'' ''close'' chain3) = chain3"
proof -
  have ids: "''s'' \<in> node_ids chain3" "''e'' \<in> node_ids chain3" "length (g_nodes chain3) \<le> 9" by code_simp+
  have "(''e'', ''m'') \<in> edge_rel chain3" "(''m'', ''s'') \<in> edge_rel chain3"
    unfolding edge_rel_def mem_Collect_eq prod.case by code_simp+
  then have "(''e'', ''s'') \<in> (edge_rel chain3)\<^sup>*" by (meson rtrancl.simps)
  then show ?thesis using add_edge_exact[OF chain3_built ids(1,2), of "''value''" "''close''" 9] ids(3) by (simp add: Let_def)
qed

theorem built_graph_sorts_witness: "case topological_sort chain3 of Inr order \<Rightarrow> set order = node_ids chain3 | Inl _ \<Rightarrow> False"
  using built_graph_sorts[OF chain3_built] by auto

theorem execution_levels_sound_witness:
  "case get_execution_levels chain3 of Inr Ls \<Rightarrow> levels_ok chain3 {} Ls | Inl _ \<Rightarrow> False"
  using execution_levels_sound[OF chain3_built] by auto

lemma transitive_queries_exact_example: "''s'' \<notin> set (get_all_ancestors ''s'' chain3) \<and> ''e'' \<in> set (get_all_ancestors ''s'' chain3)"
proof -
  have "''e'' \<in> set (get_all_ancestors ''s'' chain3)" by code_simp
  then show ?thesis using transitive_queries_exact[OF chain3_built, of "''s''"] by blast
qed

text \<open>
  A recursion error leaves the tentative edge in the graph: the rollback covers only the answer
  of the check, not an exception of it.
\<close>

lemma recursion_error_keeps_edge:
  "snd (add_edge 1 ''e'' ''m'' ''value'' ''close'' (fst (add_node ''macd'' None (Some ''m'')
       (fst (add_node ''ema'' None (Some ''e'') (new_graph :: unit dependency_graph)))))) = Inl RecursionError
   \<and> length (g_edges (fst (add_edge 1 ''e'' ''m'' ''value'' ''close'' (fst (add_node ''macd'' None (Some ''m'')
       (fst (add_node ''ema'' None (Some ''e'') (new_graph :: unit dependency_graph)))))))) = 1"
  by code_simp

end
