(* ===== verification/Decimals.thy ===== *)
theory Decimals
  imports Prelude Complex_Main "HOL-Library.Code_Target_Nat"
begin

text \<open>
  Decimal strings of the replay domain (\<open>backend/app/replay/models.py\<close> and
  \<open>backend/app/replay/broker/models.py\<close>) on the part of Python's \<open>decimal\<close> they use: finite
  numbers as a coefficient and an exponent, context rounding (half even), addition,
  multiplication and division to a precision, fixed-point formatting, and the canonical
  spelling. Exponent limits are not reached: the code reads plain decimal strings only. A zero
  has no sign and an exact quotient keeps its trailing zeros, as neither is visible in a
  canonical spelling.
\<close>

section \<open>Numbers\<close>

datatype dec = Dec (coeff: int) (expo: int)

definition dec_val :: "dec \<Rightarrow> rat" where
  "dec_val d = of_int (coeff d) * 10 powi (expo d)"

definition dec_digits :: "int \<Rightarrow> nat" where
  "dec_digits c = length (dec_of_nat (nat \<bar>c\<bar>))"

text \<open>\<open>|c| / 10^k\<close> rounded half to even.\<close>

definition round_half_even :: "int \<Rightarrow> nat \<Rightarrow> int" where
  "round_half_even c k =
     (let q = \<bar>c\<bar> div 10 ^ k; r = \<bar>c\<bar> mod 10 ^ k in
      if 2 * r > 10 ^ k \<or> 2 * r = 10 ^ k \<and> odd q then q + 1 else q)"

text \<open>Rounding to \<open>p\<close> significant digits, as a context of precision \<open>p\<close> does to every result.\<close>

definition dec_fix :: "nat \<Rightarrow> dec \<Rightarrow> dec" where
  "dec_fix p d =
     (let n = dec_digits (coeff d) in
      if n \<le> p then d
      else let k = n - p; q = round_half_even (coeff d) k in
        if dec_digits q > p then Dec (sgn (coeff d) * (q div 10)) (expo d + int k + 1)
        else Dec (sgn (coeff d) * q) (expo d + int k))"

definition align :: "int \<Rightarrow> dec \<Rightarrow> int" where
  "align m d = coeff d * 10 ^ nat (expo d - m)"

definition dec_plus :: "dec \<Rightarrow> dec \<Rightarrow> dec" where
  "dec_plus a b = (let m = min (expo a) (expo b) in Dec (align m a + align m b) m)"

definition dec_times :: "dec \<Rightarrow> dec \<Rightarrow> dec" where
  "dec_times a b = Dec (coeff a * coeff b) (expo a + expo b)"

definition dec_neg :: "dec \<Rightarrow> dec" where
  "dec_neg a = Dec (- coeff a) (expo a)"

definition dec_abs :: "dec \<Rightarrow> dec" where
  "dec_abs a = Dec \<bar>coeff a\<bar> (expo a)"

definition dec_add :: "nat \<Rightarrow> dec \<Rightarrow> dec \<Rightarrow> dec" where
  "dec_add p a b = dec_fix p (dec_plus a b)"

definition dec_sub :: "nat \<Rightarrow> dec \<Rightarrow> dec \<Rightarrow> dec" where
  "dec_sub p a b = dec_fix p (dec_plus a (dec_neg b))"

definition dec_mul :: "nat \<Rightarrow> dec \<Rightarrow> dec \<Rightarrow> dec" where
  "dec_mul p a b = dec_fix p (dec_times a b)"

text \<open>The quotient to \<open>p + 1\<close> digits or more, with a sticky last digit, then rounded.\<close>

definition dec_div :: "nat \<Rightarrow> dec \<Rightarrow> dec \<Rightarrow> dec res" where
  "dec_div p a b =
     (if coeff b = 0 then Inl ZeroDivisionError
      else let shift = int (dec_digits (coeff b)) - int (dec_digits (coeff a)) + int p + 1;
               num = \<bar>coeff a\<bar> * 10 ^ nat shift; den = \<bar>coeff b\<bar> * 10 ^ nat (- shift);
               q = num div den;
               q' = (if num mod den \<noteq> 0 \<and> q mod 5 = 0 then q + 1 else q)
           in Inr (dec_fix p (Dec (sgn (coeff a) * sgn (coeff b) * q') (expo a - expo b - shift))))"

definition dec_zero :: dec where
  "dec_zero = Dec 0 0"

text \<open>\<open>sum(values, Decimal(0))\<close> in a context.\<close>

definition dec_sum :: "nat \<Rightarrow> dec list \<Rightarrow> dec" where
  "dec_sum p ds = foldl (dec_add p) dec_zero ds"

definition dec_le :: "dec \<Rightarrow> dec \<Rightarrow> bool" where
  "dec_le a b = (let m = min (expo a) (expo b) in align m a \<le> align m b)"

definition dec_eq :: "dec \<Rightarrow> dec \<Rightarrow> bool" where
  "dec_eq a b = (let m = min (expo a) (expo b) in align m a = align m b)"

section \<open>Strings\<close>

definition is_dot :: "char \<Rightarrow> bool" where
  "is_dot c = (c = CHR ''.'')"

text \<open>\<open>_DECIMAL_PATTERN\<close>: an optional sign, then digits with an optional fraction, or a fraction.\<close>

definition parse_unsigned :: "string \<Rightarrow> (string \<times> string) option" where
  "parse_unsigned s =
     (let i = takeWhile is_digit s in
      case dropWhile is_digit s of
        [] \<Rightarrow> if i = [] then None else Some (i, [])
      | c # f \<Rightarrow> if is_dot c \<and> list_all is_digit f \<and> (i \<noteq> [] \<or> f \<noteq> []) then Some (i, f) else None)"

definition parse_dec :: "string \<Rightarrow> dec option" where
  "parse_dec s =
     (let (sg, body) = (case s of [] \<Rightarrow> (1, []) | c # cs \<Rightarrow>
            if c = CHR ''-'' then (- 1, cs) else if c = CHR ''+'' then (1, cs) else (1, s)) in
      map_option (\<lambda>(i, f). Dec (sg * int (nat_of_dec (i @ f))) (- int (length f))) (parse_unsigned body))"

text \<open>\<open>format(d, "f")\<close> of a non-zero number.\<close>

definition format_f :: "dec \<Rightarrow> string" where
  "format_f d =
     (let ds = dec_of_nat (nat \<bar>coeff d\<bar>); k = nat (- expo d) in
      (if coeff d < 0 then ''-'' else '''') @
      (if expo d \<ge> 0 then ds @ replicate (nat (expo d)) (CHR ''0'')
       else let padded = replicate (Suc k - length ds) (CHR ''0'') @ ds in
         take (length padded - k) padded @ ''.'' @ drop (length padded - k) padded))"

definition rstrip_char :: "char \<Rightarrow> string \<Rightarrow> string" where
  "rstrip_char c s = rev (dropWhile (\<lambda>x. x = c) (rev s))"

definition canonical_string :: "dec \<Rightarrow> string" where
  "canonical_string d =
     (if coeff d = 0 then ''0''
      else let s = format_f d;
               t = (if CHR ''.'' \<in> set s then rstrip_char (CHR ''.'') (rstrip_char (CHR ''0'') s) else s);
               u = (if take 1 t = ''.'' then ''0'' @ t else t)
           in if take 2 u = ''-.'' then ''-0'' @ drop 1 u else u)"

definition normalize_decimal_string :: "string \<Rightarrow> string res" where
  "normalize_decimal_string s = (case parse_dec s of None \<Rightarrow> Inl ValueError | Some d \<Rightarrow> Inr (canonical_string d))"

definition canonical_decimal :: "bool \<Rightarrow> bool \<Rightarrow> string \<Rightarrow> string res" where
  "canonical_decimal positive nonnegative s =
     bindr (normalize_decimal_string s) (\<lambda>n.
       case parse_dec n of None \<Rightarrow> Inl ValueError
       | Some d \<Rightarrow> if positive \<and> coeff d \<le> 0 then Inl ValueError
           else if nonnegative \<and> coeff d < 0 then Inl ValueError else Inr n)"

definition decimal_to_string :: "dec \<Rightarrow> string" where
  "decimal_to_string d = canonical_string d"

text \<open>The number a canonical string spells (\<open>Decimal(s)\<close>).\<close>

definition dec_of :: "string \<Rightarrow> dec" where
  "dec_of s = (case parse_dec s of None \<Rightarrow> dec_zero | Some d \<Rightarrow> d)"

definition MAX_COUNTER :: int where
  "MAX_COUNTER = 2 ^ 63 - 1"

definition validate_counter :: "int \<Rightarrow> int res" where
  "validate_counter n = (if n < 0 \<or> n > MAX_COUNTER then Inl ValueError else Inr n)"

definition is_alnum :: "char \<Rightarrow> bool" where
  "is_alnum c = (let n = (of_char c :: nat) in 48 \<le> n \<and> n \<le> 57 \<or> 65 \<le> n \<and> n \<le> 90 \<or> 97 \<le> n \<and> n \<le> 122)"

definition validate_identifier :: "string \<Rightarrow> string res" where
  "validate_identifier s =
     (if s \<noteq> [] \<and> is_alnum (hd s) \<and> list_all (\<lambda>c. is_alnum c \<or> c \<in> set ''._:-'') (tl s) \<and> length s \<le> 128
      then Inr s else Inl ValueError)"

section \<open>Values\<close>

text \<open>Two spellings of one number differ by trailing zeros of the coefficient.\<close>

definition dec_scale :: "dec \<Rightarrow> dec" where
  "dec_scale d = Dec (10 * coeff d) (expo d - 1)"

lemma dec_val_scale [simp]: "dec_val (dec_scale d) = dec_val d"
  by (simp add: dec_val_def dec_scale_def power_int_diff)

lemma dec_scale_pow: "(dec_scale ^^ k) d = Dec (10 ^ k * coeff d) (expo d - int k)"
  by (induction k) (simp_all add: dec_scale_def)

lemma powi_nat: "m \<le> e \<Longrightarrow> (10 :: rat) powi e = 10 ^ nat (e - m) * 10 powi m"
  by (metis add.commute diff_add_cancel int_nat_eq power_int_add power_int_of_nat zero_neq_numeral diff_ge_0_iff_ge)

lemma align_val: "m \<le> expo d \<Longrightarrow> dec_val d = of_int (align m d) * 10 powi m"
  by (simp add: dec_val_def align_def powi_nat[of m "expo d"])

lemma powi_not_neg [simp]: "\<not> (10 :: rat) powi e < 0"
  by (simp add: not_less)

lemma dec_val_eq_align: "dec_val a = dec_val b \<longleftrightarrow> align (min (expo a) (expo b)) a = align (min (expo a) (expo b)) b"
  using align_val[of "min (expo a) (expo b)" a] align_val[of "min (expo a) (expo b)" b] by simp

lemma dec_eq_val [simp]: "dec_eq a b \<longleftrightarrow> dec_val a = dec_val b"
  by (simp add: dec_eq_def dec_val_eq_align Let_def)

lemma dec_le_val [simp]: "dec_le a b \<longleftrightarrow> dec_val a \<le> dec_val b"
proof -
  let ?m = "min (expo a) (expo b)"
  have "dec_val a = of_int (align ?m a) * 10 powi ?m" "dec_val b = of_int (align ?m b) * 10 powi ?m"
    by (simp_all add: align_val)
  then show ?thesis by (simp add: dec_le_def Let_def)
qed

lemma dec_val_plus [simp]: "dec_val (dec_plus a b) = dec_val a + dec_val b"
proof -
  let ?m = "min (expo a) (expo b)"
  have "dec_val a = of_int (align ?m a) * 10 powi ?m" "dec_val b = of_int (align ?m b) * 10 powi ?m"
    by (simp_all add: align_val)
  then show ?thesis by (simp add: dec_plus_def Let_def dec_val_def[of "Dec _ _"] distrib_right)
qed

lemma dec_val_times [simp]: "dec_val (dec_times a b) = dec_val a * dec_val b"
  by (simp add: dec_times_def dec_val_def power_int_add)

lemma dec_val_neg [simp]: "dec_val (dec_neg a) = - dec_val a"
  by (simp add: dec_neg_def dec_val_def)

lemma dec_val_abs [simp]: "dec_val (dec_abs a) = \<bar>dec_val a\<bar>"
  by (simp add: dec_abs_def dec_val_def abs_mult)

lemma dec_val_zero [simp]: "dec_val dec_zero = 0" "dec_val (Dec 0 e) = 0"
  by (simp_all add: dec_zero_def dec_val_def)

lemma dec_val_sign [simp]: "dec_val d = 0 \<longleftrightarrow> coeff d = 0" "0 < dec_val d \<longleftrightarrow> 0 < coeff d" "dec_val d < 0 \<longleftrightarrow> coeff d < 0"
  by (simp_all add: dec_val_def zero_less_mult_iff mult_less_0_iff)

text \<open>Whatever ignores one trailing zero depends on the value alone.\<close>

lemma value_invariant:
  assumes inv: "\<And>d. f (dec_scale d) = f d" and eq: "dec_val a = dec_val b"
  shows "f a = f b"
proof -
  have pow: "f ((dec_scale ^^ k) d) = f d" for k d by (induction k) (simp_all add: inv)
  have main: "f a = f b" if le: "expo a \<le> expo b" and eq: "dec_val a = dec_val b" for a b
  proof -
    have "a = (dec_scale ^^ nat (expo b - expo a)) b"
      using eq le by (cases a) (simp add: dec_val_eq_align align_def dec_scale_pow min_def split: if_splits)
    then show ?thesis by (metis pow)
  qed
  show ?thesis using main[of a b] main[of b a] eq by (cases "expo a \<le> expo b") simp_all
qed

section \<open>Rounding\<close>

lemma dec_digits_scale: "c \<noteq> 0 \<Longrightarrow> dec_digits (10 * c) = Suc (dec_digits c)"
proof -
  assume "c \<noteq> 0"
  then have "nat \<bar>10 * c\<bar> = 10 * nat \<bar>c\<bar>" "0 < nat \<bar>c\<bar>" by (simp_all add: abs_mult nat_mult_distrib)
  then show ?thesis by (simp add: dec_digits_def dec_of_nat_times10)
qed

lemma dec_digits_less: "\<bar>c\<bar> < 10 ^ dec_digits c"
  using dec_of_nat_bounds[of "nat \<bar>c\<bar>"] by (simp add: dec_digits_def zless_nat_eq_int_zless)

lemma dec_digits_le:
  assumes "\<bar>c\<bar> < 10 ^ p" "0 < p"
  shows "dec_digits c \<le> p"
proof (rule ccontr)
  assume "\<not> dec_digits c \<le> p"
  then have l: "p \<le> dec_digits c - 1" "1 < dec_digits c" using assms(2) by simp_all
  have "0 < nat \<bar>c\<bar>"
  proof (rule ccontr)
    assume "\<not> 0 < nat \<bar>c\<bar>"
    then have "dec_digits c = 1" by (simp add: dec_digits_def dec_of_nat.simps)
    then show False using l(2) by simp
  qed
  then have "10 ^ (dec_digits c - 1) \<le> nat \<bar>c\<bar>" using dec_of_nat_bounds[of "nat \<bar>c\<bar>"] by (simp add: dec_digits_def)
  moreover have "(10 :: nat) ^ p \<le> 10 ^ (dec_digits c - 1)" using l(1) by (rule power_increasing) simp
  ultimately have "10 ^ p \<le> nat \<bar>c\<bar>" by linarith
  then have "10 ^ p \<le> \<bar>c\<bar>" by (simp add: le_nat_iff)
  then show False using assms(1) by simp
qed

lemma dec_fix_exact: "dec_digits (coeff d) \<le> p \<Longrightarrow> dec_fix p d = d"
  by (simp add: dec_fix_def Let_def)

lemma round_half_even_scale: "round_half_even (10 * c) (Suc k) = round_half_even c k"
proof -
  have "\<bar>10 * c\<bar> div 10 ^ Suc k = \<bar>c\<bar> div 10 ^ k" "\<bar>10 * c\<bar> mod 10 ^ Suc k = 10 * (\<bar>c\<bar> mod 10 ^ k)"
    by (simp_all add: abs_mult)
  then show ?thesis by (simp add: round_half_even_def Let_def)
qed

lemma dec_fix_value:
  assumes "dec_val a = dec_val b" "0 < p"
  shows "dec_val (dec_fix p a) = dec_val (dec_fix p b)"
proof (rule value_invariant[OF _ assms(1)])
  fix d
  show "dec_val (dec_fix p (dec_scale d)) = dec_val (dec_fix p d)"
  proof (cases "coeff d = 0")
    case True
    then show ?thesis using assms(2) by (simp add: dec_fix_def Let_def dec_scale_def dec_digits_def dec_of_nat.simps dec_val_def)
  next
    case False
    have n: "dec_digits (coeff (dec_scale d)) = Suc (dec_digits (coeff d))" using False by (simp add: dec_scale_def dec_digits_scale)
    consider "Suc (dec_digits (coeff d)) \<le> p" | "dec_digits (coeff d) = p" | "p < dec_digits (coeff d)" by linarith
    then show ?thesis
    proof cases
      case 1
      then show ?thesis using n by (simp add: dec_fix_exact)
    next
      case 2
      have q: "round_half_even (coeff (dec_scale d)) 1 = \<bar>coeff d\<bar>"
        by (simp add: round_half_even_def dec_scale_def Let_def abs_mult)
      have "dec_digits \<bar>coeff d\<bar> = dec_digits (coeff d)" by (simp add: dec_digits_def)
      then have "dec_fix p (dec_scale d) = Dec (sgn (coeff (dec_scale d)) * \<bar>coeff d\<bar>) (expo d)"
        using n q 2 by (simp add: dec_fix_def Let_def) (simp add: dec_scale_def)
      then have "dec_fix p (dec_scale d) = d" by (cases d) (simp add: dec_scale_def sgn_mult sgn_mult_abs)
      then show ?thesis using 2 by (simp add: dec_fix_exact)
    next
      case 3
      have k: "Suc (dec_digits (coeff d)) - p = Suc (dec_digits (coeff d) - p)" using 3 by simp
      have q: "round_half_even (coeff (dec_scale d)) (Suc (dec_digits (coeff d) - p)) = round_half_even (coeff d) (dec_digits (coeff d) - p)"
        by (simp add: dec_scale_def round_half_even_scale)
      have "dec_fix p (dec_scale d) = dec_fix p d" using 3 n unfolding dec_fix_def Let_def n k q
        by (simp add: dec_scale_def sgn_mult)
      then show ?thesis by simp
    qed
  qed
qed

section \<open>The canonical spelling\<close>

lemma rstrip_char_snoc [simp]: "rstrip_char c (s @ [x]) = (if x = c then rstrip_char c s else s @ [x])"
  by (simp add: rstrip_char_def)

lemma rstrip_char_same: "s = [] \<or> last s \<noteq> c \<Longrightarrow> rstrip_char c s = s"
  by (cases s rule: rev_cases) (simp_all add: rstrip_char_def)

lemma dot_not_digit: "CHR ''.'' \<notin> set (dec_of_nat n)"
proof
  assume "CHR ''.'' \<in> set (dec_of_nat n)"
  then have "is_digit (CHR ''.'')" using dec_of_nat_digits[of n] by (auto simp: list_all_iff)
  then show False by (simp add: is_digit_def)
qed

lemma format_scale:
  assumes "coeff d \<noteq> 0"
  shows "format_f (dec_scale d) = (if 0 < expo d then format_f d else if expo d = 0 then format_f d @ ''.0'' else format_f d @ ''0'')"
proof -
  let ?ds = "dec_of_nat (nat \<bar>coeff d\<bar>)"
  have c: "nat \<bar>coeff (dec_scale d)\<bar> = 10 * nat \<bar>coeff d\<bar>" "coeff (dec_scale d) < 0 \<longleftrightarrow> coeff d < 0" "expo (dec_scale d) = expo d - 1"
    by (simp_all add: dec_scale_def abs_mult nat_mult_distrib)
  have ds: "dec_of_nat (nat \<bar>coeff (dec_scale d)\<bar>) = ?ds @ ''0''"
    unfolding c(1) by (rule dec_of_nat_times10) (use assms in simp)
  consider "0 < expo d" | "expo d = 0" | "expo d < 0" by linarith
  then show ?thesis
  proof cases
    case 1
    then have e: "nat (expo d) = Suc (nat (expo d - 1))" by simp
    show ?thesis using 1 unfolding format_f_def Let_def ds c(2,3) by (simp add: e replicate_append_same)
  next
    case 2
    have "Suc 0 \<le> length ?ds" by (simp add: Suc_le_eq)
    then show ?thesis using 2 unfolding format_f_def Let_def ds c(2,3) by simp
  next
    case 3
    have k: "nat (- expo (dec_scale d)) = Suc (nat (- expo d))" using 3 by (simp add: c(3) nat_add_distrib)
    have neg: "\<not> 0 \<le> expo (dec_scale d)" "\<not> 0 \<le> expo d" using 3 by (simp_all add: c(3))
    define s where "s = replicate (Suc (nat (- expo d)) - length ?ds) (CHR ''0'') @ ?ds"
    have pad: "replicate (Suc (Suc (nat (- expo d))) - length (?ds @ ''0'')) (CHR ''0'') @ ?ds @ ''0'' = s @ ''0''"
      by (simp add: s_def)
    have cut: "take (length (s @ ''0'') - Suc m) (s @ ''0'') = take (length s - m) s"
      "drop (length (s @ ''0'') - Suc m) (s @ ''0'') = drop (length s - m) s @ ''0''" for m by simp_all
    show ?thesis using 3 unfolding format_f_def Let_def ds c(2) k pad cut s_def[symmetric] by (simp add: neg)
  qed
qed


lemma format_no_dot: "0 \<le> expo d \<Longrightarrow> CHR ''.'' \<notin> set (format_f d)"
  using dot_not_digit by (auto simp: format_f_def Let_def)

lemma format_dot: "expo d < 0 \<Longrightarrow> CHR ''.'' \<in> set (format_f d)"
  by (simp add: format_f_def Let_def)

lemma rstrip_no_dot: "CHR ''.'' \<notin> set s \<Longrightarrow> rstrip_char (CHR ''.'') s = s"
  using last_in_set[of s] by (intro rstrip_char_same) metis

text \<open>The canonical spelling ignores trailing zeros of the coefficient.\<close>

lemma canonical_scale: "canonical_string (dec_scale d) = canonical_string d"
proof (cases "coeff d = 0")
  case True
  then show ?thesis by (simp add: canonical_string_def dec_scale_def)
next
  case False
  have z: "coeff (dec_scale d) \<noteq> 0" "expo (dec_scale d) = expo d - 1" using False by (simp_all add: dec_scale_def)
  let ?strip = "\<lambda>s. if CHR ''.'' \<in> set s then rstrip_char (CHR ''.'') (rstrip_char (CHR ''0'') s) else s"
  have split0: "format_f d @ ''.0'' = (format_f d @ ''.'') @ [CHR ''0'']" by simp
  have split1: "rstrip_char (CHR ''0'') (format_f d @ ''.'') = format_f d @ ''.''"
    "rstrip_char (CHR ''.'') (format_f d @ ''.'') = rstrip_char (CHR ''.'') (format_f d)" by simp_all
  consider "0 < expo d" | "expo d = 0" | "expo d < 0" by linarith
  then have "?strip (format_f (dec_scale d)) = ?strip (format_f d)"
  proof cases
    case 2
    then have nd: "CHR ''.'' \<notin> set (format_f d)" by (simp add: format_no_dot)
    have "rstrip_char (CHR ''0'') (format_f d @ ''.0'') = format_f d @ ''.''" unfolding split0 using split1(1) by (simp only: rstrip_char_snoc) simp
    then show ?thesis using 2 nd by (simp add: format_scale[OF False] split1(2) rstrip_no_dot)
  qed (simp_all add: format_scale[OF False] format_dot)
  then show ?thesis using False z by (simp add: canonical_string_def Let_def)
qed

text \<open>A number whose spelling has nothing to strip.\<close>

definition reduced :: "dec \<Rightarrow> bool" where
  "reduced d \<longleftrightarrow> coeff d \<noteq> 0 \<and> (0 \<le> expo d \<or> \<not> 10 dvd coeff d)"

lemma has_reduced:
  assumes "coeff d \<noteq> 0"
  shows "\<exists>r. reduced r \<and> dec_val r = dec_val d"
  using assms
proof (induction "nat \<bar>coeff d\<bar>" arbitrary: d rule: less_induct)
  case less
  show ?case
  proof (cases "reduced d")
    case True
    then show ?thesis by blast
  next
    case False
    then obtain c where c: "coeff d = 10 * c" using less.prems by (auto simp: reduced_def)
    let ?r = "Dec c (expo d + 1)"
    have d: "d = dec_scale ?r" using c by (cases d) (simp add: dec_scale_def)
    have "nat \<bar>coeff ?r\<bar> < nat \<bar>coeff d\<bar>" "coeff ?r \<noteq> 0" using c less.prems by simp_all
    from less.hyps[OF this] have "\<exists>r. reduced r \<and> dec_val r = dec_val (dec_scale ?r)" by simp
    then show ?thesis by (simp only: d[symmetric])
  qed
qed

lemma dec_of_nat_last: "\<not> 10 dvd n \<Longrightarrow> last (dec_of_nat n) \<noteq> CHR ''0''"
proof -
  assume n: "\<not> 10 dvd n"
  then have "last (dec_of_nat n) = digit_char (n mod 10)" by (subst dec_of_nat.simps) simp
  moreover have "digit_value (digit_char (n mod 10)) \<noteq> digit_value (CHR ''0'')" using n by (simp add: digit_value_def[of "CHR ''0''"] dvd_eq_mod_eq_0)
  ultimately show ?thesis by metis
qed


lemma dec_of_nat_last_int: "coeff d \<noteq> 0 \<Longrightarrow> \<not> 10 dvd coeff d \<Longrightarrow> last (dec_of_nat (nat \<bar>coeff d\<bar>)) \<noteq> CHR ''0''"
  by (rule dec_of_nat_last) (simp add: nat_dvd_iff dvd_abs_iff flip: int_dvd_int_iff)

lemma nat_of_dec_zeros: "nat_of_dec (s @ replicate k (CHR ''0'')) = nat_of_dec s * 10 ^ k"
proof (induction k)
  case (Suc k)
  have "s @ replicate (Suc k) (CHR ''0'') = (s @ replicate k (CHR ''0'')) @ [CHR ''0'']" by (simp add: replicate_append_same)
  then show ?case unfolding \<open>s @ replicate (Suc k) (CHR ''0'') = _\<close> nat_of_dec_snoc Suc by (simp add: digit_value_def)
qed simp

lemma nat_of_dec_leading: "nat_of_dec (replicate k (CHR ''0'') @ s) = nat_of_dec s"
  by (induction k) (simp_all add: nat_of_dec_def digit_value_def)

lemma is_digit_zero [simp]: "is_digit (CHR ''0'')"
  by (simp add: is_digit_def)

text \<open>The parts of \<open>format(d, "f")\<close>: sign, integer digits and as many fraction digits as the exponent says.\<close>

definition frac_text :: "dec \<Rightarrow> string \<Rightarrow> string" where
  "frac_text d f = (if expo d < 0 then ''.'' @ f else [])"

lemma format_parts:
  obtains i f where "format_f d = (if coeff d < 0 then ''-'' else []) @ i @ frac_text d f"
    "i \<noteq> []" "list_all is_digit (i @ f)" "length f = nat (- expo d)"
    "nat_of_dec (i @ f) = nat \<bar>coeff d\<bar> * 10 ^ nat (expo d)"
    "reduced d \<Longrightarrow> expo d < 0 \<Longrightarrow> f \<noteq> [] \<and> last f \<noteq> CHR ''0''"
proof -
  let ?ds = "dec_of_nat (nat \<bar>coeff d\<bar>)" and ?k = "nat (- expo d)"
  define s where "s = replicate (Suc ?k - length ?ds) (CHR ''0'') @ ?ds"
  have len: "?k < length s" by (simp add: s_def)
  have ds: "list_all is_digit ?ds" by (rule dec_of_nat_digits)
  show thesis
  proof (cases "0 \<le> expo d")
    case True
    show thesis
    proof (rule that[of "?ds @ replicate (nat (expo d)) (CHR ''0'')" "[]"])
      show "format_f d = (if coeff d < 0 then ''-'' else []) @ (?ds @ replicate (nat (expo d)) (CHR ''0'')) @ frac_text d []"
        using True by (simp add: format_f_def frac_text_def)
      show "list_all is_digit ((?ds @ replicate (nat (expo d)) (CHR ''0'')) @ [])" using ds by (auto simp: list_all_iff)
    qed (use True in \<open>simp_all add: nat_of_dec_zeros\<close>)
  next
    case False
    let ?i = "take (length s - ?k) s" and ?f = "drop (length s - ?k) s"
    show thesis
    proof (rule that[of ?i ?f])
      show "format_f d = (if coeff d < 0 then ''-'' else []) @ ?i @ frac_text d ?f"
        unfolding format_f_def Let_def s_def[symmetric] using False by (simp add: frac_text_def)
      show "list_all is_digit (?i @ ?f)" using ds unfolding append_take_drop_id s_def by (auto simp: list_all_iff)
      show "nat_of_dec (?i @ ?f) = nat \<bar>coeff d\<bar> * 10 ^ nat (expo d)"
        using False unfolding append_take_drop_id s_def nat_of_dec_leading by simp
      show "?i \<noteq> []" "length ?f = ?k" using len by auto
      assume "reduced d" "expo d < 0"
      then have "last ?ds \<noteq> CHR ''0''" and "0 < ?k" by (simp_all add: reduced_def dec_of_nat_last_int)
      moreover have "last s = last ?ds" by (simp add: s_def)
      moreover have "length s - ?k < length s" using len \<open>0 < ?k\<close> by linarith
      ultimately show "?f \<noteq> [] \<and> last ?f \<noteq> CHR ''0''" by (simp add: last_drop)
    qed
  qed
qed

lemma parse_unsigned_parts:
  assumes "list_all is_digit (i @ f)" "i \<noteq> []" "e < 0 \<or> f = []"
  shows "parse_unsigned (i @ (if (e :: int) < 0 then ''.'' @ f else [])) = Some (i, f)"
proof -
  have nd: "\<not> is_digit (CHR ''.'')" by (simp add: is_digit_def)
  have i: "takeWhile is_digit (i @ rest) = i" "dropWhile is_digit (i @ rest) = rest" if "rest = [] \<or> hd rest = CHR ''.''" for rest
    using assms(1) nd that by (cases rest; simp add: list_all_iff takeWhile_append2 dropWhile_append2)+
  show ?thesis using assms i[of "''.'' @ f"] i[of "[]"] by (auto simp: parse_unsigned_def is_dot_def)
qed

lemma parse_signed:
  assumes "i \<noteq> []" "is_digit (hd i)"
  shows "parse_dec ((if neg then ''-'' else []) @ i @ rest) =
    map_option (\<lambda>(a, f). Dec ((if neg then - 1 else 1) * int (nat_of_dec (a @ f))) (- int (length f))) (parse_unsigned (i @ rest))"
  using assms by (cases i) (auto simp: parse_dec_def is_digit_def)

text \<open>Reading back a formatted number.\<close>

lemma parse_format: "\<exists>e. parse_dec (format_f d) = Some e \<and> dec_val e = dec_val d"
proof -
  obtain i f where p: "format_f d = (if coeff d < 0 then ''-'' else []) @ i @ frac_text d f"
    "i \<noteq> []" "list_all is_digit (i @ f)" "length f = nat (- expo d)"
    "nat_of_dec (i @ f) = nat \<bar>coeff d\<bar> * 10 ^ nat (expo d)" by (rule format_parts)
  have h: "is_digit (hd i)" using p(2,3) by (cases i) simp_all
  have u: "parse_unsigned (i @ frac_text d f) = Some (i, f)"
    unfolding frac_text_def
  proof (rule parse_unsigned_parts[OF p(3,2)])
    show "expo d < 0 \<or> f = []" using p(4) by (cases "expo d < 0") simp_all
  qed
  let ?e = "Dec ((if coeff d < 0 then - 1 else 1) * int (nat_of_dec (i @ f))) (- int (length f))"
  have e: "parse_dec (format_f d) = Some ?e" unfolding p(1) parse_signed[OF p(2) h] u by simp
  have "dec_val ?e = dec_val d"
  proof (cases "0 \<le> expo d")
    case True
    then have "(10 :: rat) powi expo d = 10 ^ nat (expo d)" by (metis int_nat_eq power_int_of_nat)
    then show ?thesis using True p(4,5) by (simp add: dec_val_def)
  qed (use p(4,5) in \<open>simp add: dec_val_def\<close>)
  then show ?thesis using e by blast
qed

lemma canonical_reduced:
  assumes "reduced r"
  shows "canonical_string r = format_f r"
proof -
  obtain i f where p: "format_f r = (if coeff r < 0 then ''-'' else []) @ i @ frac_text r f" "i \<noteq> []" "list_all is_digit (i @ f)"
    "reduced r \<Longrightarrow> expo r < 0 \<Longrightarrow> f \<noteq> [] \<and> last f \<noteq> CHR ''0''" using format_parts[of r] by metis
  have h: "is_digit (hd i)" using p(2,3) by (cases i) simp_all
  have nd: "\<not> is_digit (CHR ''.'')" by (simp add: is_digit_def)
  have z: "coeff r \<noteq> 0" using assms by (simp add: reduced_def)
  have strip: "(if CHR ''.'' \<in> set (format_f r) then rstrip_char (CHR ''.'') (rstrip_char (CHR ''0'') (format_f r)) else format_f r) = format_f r"
  proof (cases "expo r < 0")
    case True
    then have f: "f \<noteq> []" "last f \<noteq> CHR ''0''" "is_digit (last f)" using p(3,4) assms by (auto simp: list_all_iff)
    then have l: "last (format_f r) = last f" using True by (simp add: p(1) frac_text_def)
    have "last f \<noteq> CHR ''.''" using f(3) nd by metis
    then show ?thesis using f(2) by (simp add: rstrip_char_same l)
  qed (simp add: format_no_dot)
  have lead: "take 1 (format_f r) \<noteq> ''.''" "take 2 (format_f r) \<noteq> ''-.''"
    using h nd p(2) by (cases i; auto simp: p(1) is_digit_def)+
  show ?thesis unfolding canonical_string_def Let_def strip using z lead by simp
qed


section \<open>Round trips\<close>

lemma canonical_value: "dec_val a = dec_val b \<Longrightarrow> canonical_string a = canonical_string b"
  by (rule value_invariant[where f = canonical_string]) (rule canonical_scale)

lemma parse_canonical_string: "\<exists>e. parse_dec (canonical_string d) = Some e \<and> dec_val e = dec_val d"
proof (cases "coeff d = 0")
  case True
  moreover have "parse_dec ''0'' = Some (Dec 0 0)" by (simp add: parse_dec_def parse_unsigned_def nat_of_dec_def digit_value_def)
  moreover have "dec_val d = 0" using True by simp
  ultimately show ?thesis by (simp add: canonical_string_def)
next
  case False
  obtain r where r: "reduced r" "dec_val r = dec_val d" using has_reduced[OF False] by blast
  then show ?thesis using parse_format[of r] canonical_value[of d r] by (simp add: canonical_reduced)
qed

lemma dec_of_canonical [simp]: "dec_val (dec_of (canonical_string d)) = dec_val d"
  using parse_canonical_string[of d] by (auto simp: dec_of_def)

lemma canonical_inj: "canonical_string a = canonical_string b \<longleftrightarrow> dec_val a = dec_val b"
  by (metis canonical_value dec_of_canonical)

lemma canonical_of_canonical [simp]: "canonical_string (dec_of (canonical_string d)) = canonical_string d"
  by (simp add: canonical_inj)

lemma normalize_canonical [simp]: "normalize_decimal_string (canonical_string d) = Inr (canonical_string d)"
  using parse_canonical_string[of d] by (auto simp: normalize_decimal_string_def canonical_inj)

text \<open>\<open>decimal_to_string\<close> is the normalisation of the formatted number, which never fails.\<close>

lemma decimal_to_string_normalizes: "normalize_decimal_string (format_f d) = Inr (decimal_to_string d)"
  using parse_format[of d] by (auto simp: normalize_decimal_string_def decimal_to_string_def canonical_inj)


section \<open>Sums that need no rounding\<close>

lemma coeff_bound:
  assumes "- int k \<le> expo d"
  shows "of_int \<bar>coeff d\<bar> \<le> \<bar>dec_val d\<bar> * 10 ^ k"
proof -
  have "(1 :: rat) \<le> 10 powi (expo d + int k)" using assms by (simp add: one_le_power_int)
  also have "\<dots> = 10 powi expo d * 10 ^ k" by (simp add: power_int_add power_int_of_nat)
  finally have "of_int \<bar>coeff d\<bar> * 1 \<le> of_int \<bar>coeff d\<bar> * (10 powi expo d * 10 ^ k :: rat)" by (intro mult_left_mono) simp_all
  then show ?thesis by (simp add: dec_val_def abs_mult mult.assoc)
qed

lemma dec_add_exact:
  assumes "- int k \<le> expo a" "- int k \<le> expo b" "\<bar>dec_val a + dec_val b\<bar> * 10 ^ k < 10 ^ p" "0 < p"
  shows "dec_val (dec_add p a b) = dec_val a + dec_val b" "- int k \<le> expo (dec_add p a b)"
proof -
  have e: "- int k \<le> expo (dec_plus a b)" using assms(1,2) by (simp add: dec_plus_def Let_def)
  have "of_int \<bar>coeff (dec_plus a b)\<bar> < (10 ^ p :: rat)" using coeff_bound[OF e] assms(3) by simp
  then have "\<bar>coeff (dec_plus a b)\<bar> < 10 ^ p" using of_int_less_iff[of "\<bar>coeff (dec_plus a b)\<bar>" "10 ^ p", where 'a = rat]
    by (simp only: of_int_power of_int_numeral)
  then have "dec_fix p (dec_plus a b) = dec_plus a b" by (intro dec_fix_exact dec_digits_le assms(4))
  then show "dec_val (dec_add p a b) = dec_val a + dec_val b" "- int k \<le> expo (dec_add p a b)"
    using e by (simp_all add: dec_add_def)
qed

lemma dec_sum_exact:
  assumes "0 < p" "\<And>d. d \<in> set ds \<Longrightarrow> - int k \<le> expo d \<and> \<bar>dec_val d\<bar> \<le> B" "of_nat (length ds) * B * 10 ^ k < 10 ^ p"
  shows "dec_val (dec_sum p ds) = sum_list (map dec_val ds)"
proof -
  have "dec_val (foldl (dec_add p) acc ds) = dec_val acc + sum_list (map dec_val ds)"
    if "- int k \<le> expo acc" "(\<bar>dec_val acc\<bar> + of_nat (length ds) * B) * 10 ^ k < 10 ^ p" for acc
    using that assms(2)
  proof (induction ds arbitrary: acc)
    case (Cons d ds)
    have d: "- int k \<le> expo d" "\<bar>dec_val d\<bar> \<le> B" using Cons.prems(3) by simp_all
    have B: "0 \<le> of_nat (length ds) * B" using d(2) by (simp add: order_trans[OF abs_ge_zero])
    have sum: "\<bar>dec_val acc + dec_val d\<bar> \<le> \<bar>dec_val acc\<bar> + B" using abs_triangle_ineq[of "dec_val acc" "dec_val d"] d(2) by linarith
    have le: "(\<bar>dec_val acc + dec_val d\<bar> + of_nat (length ds) * B) * 10 ^ k \<le> (\<bar>dec_val acc\<bar> + of_nat (length (d # ds)) * B) * 10 ^ k"
      using sum by (intro mult_right_mono) (simp_all add: distrib_right)
    have "\<bar>dec_val acc + dec_val d\<bar> * 10 ^ k \<le> (\<bar>dec_val acc + dec_val d\<bar> + of_nat (length ds) * B) * 10 ^ k"
      using B by (intro mult_right_mono) simp_all
    with le have lt: "\<bar>dec_val acc + dec_val d\<bar> * 10 ^ k < 10 ^ p" using Cons.prems(2) by linarith
    note add = dec_add_exact[OF Cons.prems(1) d(1) lt assms(1)]
    have "(\<bar>dec_val (dec_add p acc d)\<bar> + of_nat (length ds) * B) * 10 ^ k < 10 ^ p" unfolding add(1) using le Cons.prems(2) by (rule le_less_trans)
    from Cons.IH[OF add(2) this] Cons.prems(3) show ?case by (simp add: add(1))
  qed simp
  from this[of dec_zero] assms(3) show ?thesis by (simp add: dec_sum_def dec_zero_def)
qed

lemma dec_digits_eq:
  assumes "10 ^ n \<le> \<bar>c\<bar>" "\<bar>c\<bar> < 10 ^ Suc n"
  shows "dec_digits c = Suc n"
proof (rule antisym)
  show "dec_digits c \<le> Suc n" by (rule dec_digits_le[OF assms(2)]) simp
  have "(10 :: int) ^ n < 10 ^ dec_digits c" using assms(1) dec_digits_less[of c] by (rule le_less_trans)
  then show "Suc n \<le> dec_digits c" by (simp add: Suc_le_eq)
qed

text \<open>
  Beyond its digits a context sum is not exact: three amounts of 71, 1 and 71 digits that differ
  by one sum to zero in a context of 60 digits.
\<close>

lemma sum_drops_a_unit: "coeff (dec_sum 60 [Dec (10 ^ 70) 0, Dec 1 0, Dec (- (10 ^ 70)) 0]) = 0"
proof -
  have d: "dec_digits (10 ^ 70) = 71" "dec_digits (10 ^ 70 + 1) = 71" "dec_digits (10 ^ 59) = 60" "dec_digits 0 = 1"
    by (rule dec_digits_eq[of 70, simplified], simp, simp, rule dec_digits_eq[of 70, simplified], simp, simp,
        rule dec_digits_eq[of 59, simplified], simp, simp) (simp add: dec_digits_def dec_of_nat.simps)
  have r: "round_half_even (10 ^ 70) 11 = 10 ^ 59" "round_half_even (10 ^ 70 + 1) 11 = 10 ^ 59"
    by (simp_all add: round_half_even_def)
  have f: "dec_fix 60 (Dec (10 ^ 70) 0) = Dec (10 ^ 59) 11" "dec_fix 60 (Dec (10 ^ 70 + 1) 0) = Dec (10 ^ 59) 11" "dec_fix 60 (Dec 0 0) = Dec 0 0"
    unfolding dec_fix_def Let_def dec.sel d by (simp_all add: r[simplified] d[simplified])
  have "dec_add 60 dec_zero (Dec (10 ^ 70) 0) = Dec (10 ^ 59) 11"
    unfolding dec_add_def using f(1) by (simp add: dec_plus_def align_def dec_zero_def)
  moreover have "dec_add 60 (Dec (10 ^ 59) 11) (Dec 1 0) = Dec (10 ^ 59) 11"
    unfolding dec_add_def using f(2) by (simp add: dec_plus_def align_def)
  moreover have "dec_add 60 (Dec (10 ^ 59) 11) (Dec (- (10 ^ 70)) 0) = Dec 0 0"
    unfolding dec_add_def using f(3) by (simp add: dec_plus_def align_def)
  ultimately show ?thesis unfolding dec_sum_def foldl.simps by simp
qed
section \<open>Properties\<close>

text \<open>C26: The canonical spelling is a normal form of the number. Of two accepted decimal strings
  the normalised strings are equal exactly when the numbers are, the normalised string spells the
  same number, and normalising it again changes nothing.\<close>

theorem decimal_spelling_canonical:
  assumes "normalize_decimal_string s = Inr n" "normalize_decimal_string t = Inr m"
  shows "(n = m \<longleftrightarrow> dec_val (dec_of s) = dec_val (dec_of t)) \<and> dec_val (dec_of n) = dec_val (dec_of s) \<and>
    normalize_decimal_string n = Inr n"
proof -
  have "n = canonical_string (dec_of s)" "m = canonical_string (dec_of t)"
    using assms by (auto simp: normalize_decimal_string_def dec_of_def split: option.splits)
  then show ?thesis by (simp add: canonical_inj)
qed

theorem decimal_spelling_canonical_witness:
  "dec_val (dec_of ''+00.50'') = dec_val (dec_of ''.5'') \<and> normalize_decimal_string ''0.5'' = Inr ''0.5''"
  using decimal_spelling_canonical[of "''+00.50''" "''0.5''" "''.5''" "''0.5''"] by code_simp

end
