(* ===== verification/HashChain.thy ===== *)
theory HashChain
  imports Prelude
begin

text \<open>
  The interface of an append-only hash chain: a hash of a starting text, and for every further
  item a hash of a text that names the previous hash, the position and the item. Clients
  provide the texts; the chain then commits to its start and to all of its items, unless two
  of the texts it hashed collide. The replay ledger and the replay source chain provide it.
\<close>

locale hash_chain =
  fixes hash :: "string \<Rightarrow> string"
    and start :: "'c \<Rightarrow> string"
    and link :: "string \<Rightarrow> nat \<Rightarrow> 'e \<Rightarrow> string"
    and start_key :: "'c \<Rightarrow> 'd"
    and key :: "'e \<Rightarrow> 'k"
    and ok_start :: "'c \<Rightarrow> bool"
    and ok :: "'e \<Rightarrow> bool"
  assumes start_inj: "ok_start c \<Longrightarrow> ok_start c' \<Longrightarrow> start c = start c' \<Longrightarrow> start_key c = start_key c'"
    and link_inj: "ok e \<Longrightarrow> ok e' \<Longrightarrow> link h i e = link h' i' e' \<Longrightarrow> h = h' \<and> i = i' \<and> key e = key e'"
    and start_link: "ok_start c \<Longrightarrow> ok e \<Longrightarrow> start c \<noteq> link h i e"
begin

text \<open>The hash after some items, and the texts hashed on the way.\<close>

fun tail_from :: "string \<Rightarrow> nat \<Rightarrow> 'e list \<Rightarrow> string" where
  "tail_from h i [] = h"
| "tail_from h i (e # es) = tail_from (hash (link h i e)) (Suc i) es"

fun texts_from :: "string \<Rightarrow> nat \<Rightarrow> 'e list \<Rightarrow> string list" where
  "texts_from h i [] = []"
| "texts_from h i (e # es) = link h i e # texts_from (hash (link h i e)) (Suc i) es"

definition tail :: "'c \<Rightarrow> 'e list \<Rightarrow> string" where
  "tail c es = tail_from (hash (start c)) 1 es"

definition texts :: "'c \<Rightarrow> 'e list \<Rightarrow> string list" where
  "texts c es = start c # texts_from (hash (start c)) 1 es"

definition clash :: "string list \<Rightarrow> string list \<Rightarrow> bool" where
  "clash xs ys \<longleftrightarrow> (\<exists>x \<in> set xs. \<exists>y \<in> set ys. x \<noteq> y \<and> hash x = hash y)"

lemma tail_from_snoc: "tail_from h i (es @ [e]) = hash (link (tail_from h i es) (i + length es) e)"
  by (induction es arbitrary: h i) simp_all

lemma texts_from_snoc: "texts_from h i (es @ [e]) = texts_from h i es @ [link (tail_from h i es) (i + length es) e]"
  by (induction es arbitrary: h i) simp_all

lemma tail_snoc: "tail c (es @ [e]) = hash (link (tail c es) (Suc (length es)) e)"
  by (simp add: tail_def tail_from_snoc)

lemma texts_snoc: "texts c (es @ [e]) = texts c es @ [link (tail c es) (Suc (length es)) e]"
  by (simp add: texts_def tail_def texts_from_snoc)

lemma tail_nil: "tail c [] = hash (start c)" "texts c [] = [start c]"
  by (simp_all add: tail_def texts_def)

lemma start_in_texts: "start c \<in> set (texts c es)"
  by (simp add: texts_def)

lemma clash_mono: "clash xs ys \<Longrightarrow> clash (xs @ us) (ys @ vs)"
  by (auto simp: clash_def)

text \<open>Equal tails: equal starts and equal items, or a collision among the hashed texts.\<close>

lemma tail_commits:
  assumes "ok_start c" "ok_start c'" "list_all ok es" "list_all ok es'" "tail c es = tail c' es'"
  shows "start_key c = start_key c' \<and> map key es = map key es' \<or> clash (texts c es) (texts c' es')"
  using assms(3-5)
proof (induction es arbitrary: es' rule: rev_induct)
  case Nil
  show ?case
  proof (cases es' rule: rev_cases)
    case Nil
    then show ?thesis using Nil.prems(3) start_inj[OF assms(1,2)] by (auto simp: tail_nil clash_def)
  next
    case (snoc fs f)
    then have "start c \<noteq> link (tail c' fs) (Suc (length fs)) f" using Nil.prems(2) assms(1) by (intro start_link) simp_all
    then show ?thesis using Nil.prems(3) snoc by (auto simp: tail_nil tail_snoc texts_snoc clash_def)
  qed
next
  case (snoc e es)
  show ?case
  proof (cases es' rule: rev_cases)
    case Nil
    have "start c' \<noteq> link (tail c es) (Suc (length es)) e" using snoc.prems(1) assms(2) by (intro start_link) simp_all
    then show ?thesis using snoc.prems(3) Nil by (auto simp: tail_nil tail_snoc texts_snoc clash_def)
  next
    case (snoc fs f)
    let ?x = "link (tail c es) (Suc (length es)) e" and ?y = "link (tail c' fs) (Suc (length fs)) f"
    have ok: "ok e" "ok f" "list_all ok es" "list_all ok fs" using snoc.prems snoc by simp_all
    have eq: "hash ?x = hash ?y" using snoc.prems(3) snoc by (simp add: tail_snoc)
    show ?thesis
    proof (cases "?x = ?y")
      case True
      then have l: "tail c es = tail c' fs" "key e = key f" using link_inj[OF ok(1,2)] by blast+
      show ?thesis using snoc.IH[OF ok(3,4) l(1)] l(2) snoc by (auto simp: texts_snoc intro: clash_mono)
    next
      case False
      then show ?thesis using eq snoc by (auto simp: texts_snoc clash_def)
    qed
  qed
qed

end

end
