(* ===== verification/Canonical.thy ===== *)
theory Canonical
  imports Decimals HashChain "HOL-Library.List_Lexorder" "HOL-Library.Char_ord"
begin

text \<open>
  Canonical JSON of the replay domain (\<open>backend/app/replay/canonical.py\<close>,
  \<open>backend/app/replay/source_chain.py\<close>): the Python values the encoder accepts, its fast and its
  strict path, \<open>json.dumps\<close> with sorted keys and no spaces, \<open>json.loads\<close>, and the hashes taken
  of the encoding. SHA-256 is an argument \<open>digest\<close> (bytes to hex text): the theorems hold for
  every digest function and name a collision of it where they need one. A string is the sequence of its UTF-8 bytes, whose lexicographic order is
  the code point order Python sorts keys by.
\<close>

section \<open>JSON text\<close>

text \<open>A binary float has no payload: the canonical encoder refuses every one of them.\<close>

datatype json =
    JNull
  | JBool bool
  | JInt int
  | JFloat
  | JStr string
  | JList "json list"
  | JObj "(string \<times> json) list"

definition hex_char :: "nat \<Rightarrow> char" where
  "hex_char d = (if d < 10 then char_of (48 + d) else char_of (87 + d))"

definition bslash :: char where "bslash = CHR 0x5C"

definition dquote :: char where "dquote = CHR 0x22"

text \<open>The escapes \<open>json.dumps(..., ensure_ascii=False)\<close> writes.\<close>

definition esc_char :: "char \<Rightarrow> string" where
  "esc_char c =
     (let n = (of_char c :: nat) in
      if n = 34 \<or> n = 92 then [bslash, c]
      else if n = 10 then [bslash, CHR ''n'']
      else if n = 13 then [bslash, CHR ''r'']
      else if n = 9 then [bslash, CHR ''t'']
      else if n = 12 then [bslash, CHR ''f'']
      else if n = 8 then [bslash, CHR ''b'']
      else if n < 32 then bslash # ''u00'' @ [hex_char (n div 16), hex_char (n mod 16)]
      else [c])"

definition quote :: "string \<Rightarrow> string" where
  "quote s = dquote # concat (map esc_char s) @ [dquote]"

fun commas :: "string list \<Rightarrow> string" where
  "commas [] = []"
| "commas [x] = x"
| "commas (x # xs) = x @ '','' @ commas xs"

text \<open>Writing a value in the key order it has (separators \<open>","\<close> and \<open>":"\<close>).\<close>

fun text_of :: "json \<Rightarrow> string" where
  "text_of JNull = ''null''"
| "text_of (JBool b) = (if b then ''true'' else ''false'')"
| "text_of (JInt n) = dec_of_int n"
| "text_of JFloat = ''NaN''"
| "text_of (JStr s) = quote s"
| "text_of (JList xs) = ''['' @ commas (map text_of xs) @ '']''"
| "text_of (JObj kvs) = ''{'' @ commas (map (\<lambda>(k, v). quote k @ '':'' @ text_of v) kvs) @ ''}''"

text \<open>\<open>sort_keys=True\<close>.\<close>

fun canon :: "json \<Rightarrow> json" where
  "canon (JList xs) = JList (map canon xs)"
| "canon (JObj kvs) = JObj (sort_key fst (map (\<lambda>(k, v). (k, canon v)) kvs))"
| "canon v = v"

definition dumps :: "json \<Rightarrow> string" where
  "dumps v = text_of (canon v)"

section \<open>Reading JSON text\<close>

text \<open>
  \<open>json.loads\<close> as a recursive descent that returns the rest of its input or raises. A string keeps
  a code unit of a surrogate pair that stands alone, as Python does, in the three bytes UTF-8 would
  give it.
\<close>

definition is_space :: "char \<Rightarrow> bool" where
  "is_space c = (c = CHR '' '' \<or> c = CHR 0x09 \<or> c = CHR 0x0A \<or> c = CHR 0x0D)"

definition skip :: "string \<Rightarrow> string" where
  "skip s = dropWhile is_space s"

definition hex_value :: "char \<Rightarrow> nat option" where
  "hex_value c =
     (let n = (of_char c :: nat) in
      if 48 \<le> n \<and> n \<le> 57 then Some (n - 48)
      else if 97 \<le> n \<and> n \<le> 102 then Some (n - 87)
      else if 65 \<le> n \<and> n \<le> 70 then Some (n - 55) else None)"

definition hex4 :: "char \<Rightarrow> char \<Rightarrow> char \<Rightarrow> char \<Rightarrow> nat option" where
  "hex4 a b c d =
     (case (hex_value a, hex_value b, hex_value c, hex_value d) of
        (Some w, Some x, Some y, Some z) \<Rightarrow> Some (((w * 16 + x) * 16 + y) * 16 + z)
      | _ \<Rightarrow> None)"

definition utf8_char :: "nat \<Rightarrow> string" where
  "utf8_char n =
     (if n < 128 then [char_of n]
      else if n < 2048 then [char_of (192 + n div 64), char_of (128 + n mod 64)]
      else if n < 65536 then [char_of (224 + n div 4096), char_of (128 + n div 64 mod 64), char_of (128 + n mod 64)]
      else [char_of (240 + n div 262144), char_of (128 + n div 4096 mod 64), char_of (128 + n div 64 mod 64),
            char_of (128 + n mod 64)])"

definition high_surrogate :: "nat \<Rightarrow> bool" where
  "high_surrogate n \<longleftrightarrow> 0xD800 \<le> n \<and> n < 0xDC00"

definition low_surrogate :: "nat \<Rightarrow> bool" where
  "low_surrogate n \<longleftrightarrow> 0xDC00 \<le> n \<and> n < 0xE000"

definition join_surrogates :: "nat \<Rightarrow> nat \<Rightarrow> nat" where
  "join_surrogates hi lo = 0x10000 + (hi - 0xD800) * 1024 + (lo - 0xDC00)"

text \<open>An escaped low surrogate right after an escaped high one.\<close>

definition low_escape :: "string \<Rightarrow> (nat \<times> string) option" where
  "low_escape s =
     (case s of
        b # u # h1 # h2 # h3 # h4 # r \<Rightarrow>
          if b = bslash \<and> u = CHR ''u'' then
            (case hex4 h1 h2 h3 h4 of None \<Rightarrow> None | Some n \<Rightarrow> if low_surrogate n then Some (n, r) else None)
          else None
      | _ \<Rightarrow> None)"

lemma low_escape_shorter [termination_simp]: "low_escape s = Some (n, r) \<Longrightarrow> length r < length s"
  by (auto simp: low_escape_def split: list.splits option.splits if_splits)

definition unescape :: "char \<Rightarrow> char option" where
  "unescape c =
     (if c = dquote \<or> c = bslash \<or> c = CHR ''/'' then Some c
      else if c = CHR ''n'' then Some (CHR 0x0A)
      else if c = CHR ''r'' then Some (CHR 0x0D)
      else if c = CHR ''t'' then Some (CHR 0x09)
      else if c = CHR ''f'' then Some (CHR 0x0C)
      else if c = CHR ''b'' then Some (CHR 0x08)
      else None)"

abbreviation prepend :: "'a list \<Rightarrow> ('a list \<times> 'b) option \<Rightarrow> ('a list \<times> 'b) option" where
  "prepend x m \<equiv> map_option (\<lambda>(xs, r). (x @ xs, r)) m"

fun read_string :: "string \<Rightarrow> (string \<times> string) option" where
  "read_string [] = None"
| "read_string (c # cs) =
     (if c = dquote then Some ([], cs)
      else if c = bslash then
        (case cs of
           [] \<Rightarrow> None
         | e # r \<Rightarrow>
             if e = CHR ''u'' then
               (case r of
                  h1 # h2 # h3 # h4 # r' \<Rightarrow>
                    (case hex4 h1 h2 h3 h4 of
                       None \<Rightarrow> None
                     | Some x \<Rightarrow>
                         if high_surrogate x then
                           (case low_escape r' of
                              None \<Rightarrow> prepend (utf8_char x) (read_string r')
                            | Some (y, r2) \<Rightarrow> prepend (utf8_char (join_surrogates x y)) (read_string r2))
                         else prepend (utf8_char x) (read_string r'))
                | _ \<Rightarrow> None)
             else (case unescape e of None \<Rightarrow> None | Some x \<Rightarrow> prepend [x] (read_string r)))
      else if of_char c < (32 :: nat) then None
      else prepend [c] (read_string cs))"

definition read_fraction :: "string \<Rightarrow> bool \<times> string" where
  "read_fraction s =
     (case s of c # r \<Rightarrow> if is_dot c \<and> takeWhile is_digit r \<noteq> [] then (True, dropWhile is_digit r) else (False, s)
      | [] \<Rightarrow> (False, s))"

definition read_exponent :: "string \<Rightarrow> bool \<times> string" where
  "read_exponent s =
     (case s of
        c # r \<Rightarrow>
          if c = CHR ''e'' \<or> c = CHR ''E'' then
            (let r' = (case r of x # t \<Rightarrow> if x = CHR ''+'' \<or> x = CHR ''-'' then t else r | [] \<Rightarrow> r) in
             if takeWhile is_digit r' \<noteq> [] then (True, dropWhile is_digit r') else (False, s))
          else (False, s)
      | [] \<Rightarrow> (False, s))"

text \<open>
  How a text is read: the most digits \<open>int\<close> converts, if that is limited, and what
  \<open>object_pairs_hook\<close> makes of the members of an object. The number of containers that may still be
  opened is an argument of the reader; one more raises \<open>RecursionError\<close>.
\<close>

record json_reader =
  digit_limit :: "int option"
  object_hook :: "(string \<times> json) list \<Rightarrow> json res"

definition fits_int :: "int option \<Rightarrow> string \<Rightarrow> bool" where
  "fits_int limit ds = (case limit of None \<Rightarrow> True | Some k \<Rightarrow> int (length ds) \<le> k)"

definition read_unsigned :: "json_reader \<Rightarrow> bool \<Rightarrow> string \<Rightarrow> (json \<times> string) res" where
  "read_unsigned R neg s =
     (let ds = takeWhile is_digit s in
      if ds = [] then Inl JSONDecodeError
      else let i = (if hd ds = CHR ''0'' then ''0'' else ds);
               (fr, r1) = read_fraction (drop (length i) s);
               (ex, r2) = read_exponent r1
           in if fr \<or> ex then Inr (JFloat, r2)
              else if \<not> fits_int (digit_limit R) i then Inl ValueError
              else Inr (JInt (if neg then - int (nat_of_dec i) else int (nat_of_dec i)), r2))"

definition starts :: "string \<Rightarrow> string \<Rightarrow> bool" where
  "starts p s = (take (length p) s = p)"

definition read_number :: "json_reader \<Rightarrow> string \<Rightarrow> (json \<times> string) res" where
  "read_number R s =
     (case s of
        [] \<Rightarrow> Inl JSONDecodeError
      | c # r \<Rightarrow>
          if c = CHR ''-'' then (if starts ''Infinity'' r then Inr (JFloat, drop 8 r) else read_unsigned R True r)
          else read_unsigned R False s)"

definition read_word :: "json_reader \<Rightarrow> string \<Rightarrow> (json \<times> string) res" where
  "read_word R s =
     (if starts ''null'' s then Inr (JNull, drop 4 s)
      else if starts ''true'' s then Inr (JBool True, drop 4 s)
      else if starts ''false'' s then Inr (JBool False, drop 5 s)
      else if starts ''NaN'' s then Inr (JFloat, drop 3 s)
      else if starts ''Infinity'' s then Inr (JFloat, drop 8 s)
      else read_number R s)"

definition found :: "'a option \<Rightarrow> 'a res" where
  "found m = (case m of None \<Rightarrow> Inl JSONDecodeError | Some x \<Rightarrow> Inr x)"

lemma found_simps [simp]: "found None = Inl JSONDecodeError" "found (Some x) = Inr x" "found m = Inr y \<longleftrightarrow> m = Some y"
  by (simp_all add: found_def split: option.splits)

type_synonym depth = "nat option"

abbreviation deeper :: "depth \<Rightarrow> depth" where
  "deeper d \<equiv> map_option (\<lambda>k. k - 1) d"

fun read_value :: "json_reader \<Rightarrow> nat \<Rightarrow> depth \<Rightarrow> string \<Rightarrow> (json \<times> string) res"
  and read_items :: "json_reader \<Rightarrow> nat \<Rightarrow> depth \<Rightarrow> string \<Rightarrow> (json list \<times> string) res"
  and read_members :: "json_reader \<Rightarrow> nat \<Rightarrow> depth \<Rightarrow> string \<Rightarrow> ((string \<times> json) list \<times> string) res"
where
  "read_value R 0 d s = Inl JSONDecodeError"
| "read_value R (Suc n) d s =
     (case s of
        [] \<Rightarrow> Inl JSONDecodeError
      | c # cs \<Rightarrow>
          if c = dquote then bindr (found (read_string cs)) (\<lambda>(t, r). Inr (JStr t, r))
          else if c = CHR ''['' then
            (if d = Some 0 then Inl RecursionError
             else if starts '']'' (skip cs) then Inr (JList [], tl (skip cs))
             else bindr (read_items R n (deeper d) (skip cs)) (\<lambda>(xs, r). Inr (JList xs, r)))
          else if c = CHR ''{'' then
            (if d = Some 0 then Inl RecursionError
             else if starts ''}'' (skip cs) then bindr (object_hook R []) (\<lambda>v. Inr (v, tl (skip cs)))
             else bindr (read_members R n (deeper d) (skip cs)) (\<lambda>(kvs, r). bindr (object_hook R kvs) (\<lambda>v. Inr (v, r))))
          else read_word R s)"
| "read_items R 0 d s = Inl JSONDecodeError"
| "read_items R (Suc n) d s =
     bindr (read_value R n d s) (\<lambda>(v, r).
       if starts '','' (skip r) then bindr (read_items R n d (skip (tl (skip r)))) (\<lambda>(vs, r'). Inr (v # vs, r'))
       else if starts '']'' (skip r) then Inr ([v], tl (skip r))
       else Inl JSONDecodeError)"
| "read_members R 0 d s = Inl JSONDecodeError"
| "read_members R (Suc n) d s =
     (case s of
        [] \<Rightarrow> Inl JSONDecodeError
      | c # cs \<Rightarrow>
          if c \<noteq> dquote then Inl JSONDecodeError
          else bindr (found (read_string cs)) (\<lambda>(k, r).
            if \<not> starts '':'' (skip r) then Inl JSONDecodeError
            else bindr (read_value R n d (skip (tl (skip r)))) (\<lambda>(v, r2).
              if starts '','' (skip r2) then bindr (read_members R n d (skip (tl (skip r2)))) (\<lambda>(kvs, r'). Inr ((k, v) # kvs, r'))
              else if starts ''}'' (skip r2) then Inr ([(k, v)], tl (skip r2))
              else Inl JSONDecodeError)))"

text \<open>Two steps of fuel for every character are enough, as every step between two of them reads one.\<close>

definition read_text :: "json_reader \<Rightarrow> depth \<Rightarrow> string \<Rightarrow> json res" where
  "read_text R d s =
     bindr (read_value R (2 * length s + 2) d (skip s)) (\<lambda>(v, r). if skip r = [] then Inr v else Inl JSONDecodeError)"

text \<open>The reader without limits, which keeps the members of an object as they are written.\<close>

definition plain_reader :: json_reader where
  "plain_reader = \<lparr>digit_limit = None, object_hook = (\<lambda>kvs. Inr (JObj kvs))\<rparr>"

definition loads :: "string \<Rightarrow> json option" where
  "loads s = (case read_text plain_reader None s of Inl _ \<Rightarrow> None | Inr v \<Rightarrow> Some v)"

section \<open>What the writer produces is read back\<close>

text \<open>Trees the encoder accepts: those without a binary float.\<close>

fun writable :: "json \<Rightarrow> bool" where
  "writable JFloat = False"
| "writable (JList xs) = list_all writable xs"
| "writable (JObj kvs) = list_all (\<lambda>(k, v). writable v) kvs"
| "writable v = True"

text \<open>Trees a reader returns as they are written: within its limits, and left alone by its hook.\<close>

fun readable :: "json_reader \<Rightarrow> depth \<Rightarrow> json \<Rightarrow> bool" where
  "readable R d JFloat = False"
| "readable R d (JInt n) = fits_int (digit_limit R) (dec_of_nat (nat \<bar>n\<bar>))"
| "readable R d (JList xs) = (d \<noteq> Some 0 \<and> list_all (readable R (deeper d)) xs)"
| "readable R d (JObj kvs) =
     (d \<noteq> Some 0 \<and> object_hook R kvs = Inr (JObj kvs) \<and> list_all (\<lambda>(k, v). readable R (deeper d) v) kvs)"
| "readable R d v = True"

lemma plain_readable: "readable plain_reader None v = writable v"
  by (induction v rule: writable.induct) (auto simp: plain_reader_def fits_int_def list_all_iff)

lemma starts_simps [simp]:
  "starts [] s" "starts (c # p) [] = False" "starts (c # p) (d # s) \<longleftrightarrow> c = d \<and> starts p s"
  by (auto simp: starts_def)

lemma starts_append [simp]: "starts p (p @ s)"
  by (simp add: starts_def)

lemma skip_simps [simp]: "skip [] = []" "\<not> is_space c \<Longrightarrow> skip (c # s) = c # s"
  by (simp_all add: skip_def)

lemma char_nat_eq: "(of_char c :: nat) = n \<Longrightarrow> c = char_of n"
  by (metis char_of_char)

lemma hex_char_value: "d < 16 \<Longrightarrow> hex_value (hex_char d) = Some d"
  by (simp add: hex_value_def hex_char_def)

lemma read_esc: "read_string (esc_char c @ s) = prepend [c] (read_string s)"
proof -
  let ?n = "of_char c :: nat"
  have q: "c = dquote \<longleftrightarrow> ?n = 34" and b: "c = bslash \<longleftrightarrow> ?n = 92"
    using of_char_eq_iff[of c dquote, where 'a = nat] of_char_eq_iff[of c bslash, where 'a = nat] by (simp_all add: dquote_def bslash_def)
  have db: "dquote \<noteq> bslash" "bslash \<noteq> dquote" "bslash \<noteq> CHR ''u''" "dquote \<noteq> CHR ''u''" by (simp_all add: dquote_def bslash_def)
  consider "?n = 34 \<or> ?n = 92" | "?n \<in> {8, 9, 10, 12, 13}" | "?n < 32" "?n \<notin> {8, 9, 10, 12, 13}" | "32 \<le> ?n" "?n \<noteq> 34" "?n \<noteq> 92"
    by fastforce
  then show ?thesis
  proof cases
    case 1
    then have "esc_char c = [bslash, c]" "c = dquote \<or> c = bslash" using q b by (auto simp: esc_char_def)
    then show ?thesis using db by (auto simp: unescape_def)
  next
    case 2
    moreover have "of_char c = (of_char d :: nat) \<Longrightarrow> c = d" for d by (simp only: of_char_eq_iff)
    from this[of "CHR 0x08"] this[of "CHR 0x09"] this[of "CHR 0x0A"] this[of "CHR 0x0C"] this[of "CHR 0x0D"]
    have "?n = 8 \<Longrightarrow> c = CHR 0x08" "?n = 9 \<Longrightarrow> c = CHR 0x09" "?n = 10 \<Longrightarrow> c = CHR 0x0A"
      "?n = 12 \<Longrightarrow> c = CHR 0x0C" "?n = 13 \<Longrightarrow> c = CHR 0x0D" by simp_all
    ultimately show ?thesis by (auto simp: esc_char_def unescape_def dquote_def bslash_def)
  next
    case 3
    have z: "hex_value (CHR ''0'') = Some 0" by (simp add: hex_value_def)
    have e: "esc_char c = bslash # ''u00'' @ [hex_char (?n div 16), hex_char (?n mod 16)]" using 3 by (simp add: esc_char_def Let_def)
    have h: "hex4 (CHR ''0'') (CHR ''0'') (hex_char (?n div 16)) (hex_char (?n mod 16)) = Some ?n"
      using 3 by (simp add: hex4_def z hex_char_value mult.commute[of _ 16])
    have u: "\<not> high_surrogate ?n" "utf8_char ?n = [c]" using 3 by (simp_all add: high_surrogate_def utf8_char_def)
    show ?thesis using db h u by (simp add: e)
  next
    case 4
    then have "esc_char c = [c]" "c \<noteq> dquote" "c \<noteq> bslash" using q b by (auto simp: esc_char_def)
    then show ?thesis using 4 by simp
  qed
qed

lemma read_quote: "read_string (concat (map esc_char s) @ dquote # r) = Some (s, r)"
  by (induction s) (simp_all add: read_esc)

lemma dec_of_nat_lead: "0 < n \<Longrightarrow> hd (dec_of_nat n) \<noteq> CHR ''0''"
proof (induction n rule: dec_of_nat.induct)
  case (1 n)
  show ?case
  proof (cases "n < 10")
    case True
    then have "digit_value (digit_char n) \<noteq> digit_value (CHR ''0'')" using "1.prems" by (simp add: digit_value_def[of "CHR ''0''"])
    moreover have "dec_of_nat n = [digit_char n]" using True by (simp add: dec_of_nat.simps)
    ultimately show ?thesis by auto
  next
    case False
    then show ?thesis using "1.IH" by (subst dec_of_nat.simps) simp
  qed
qed

text \<open>What may follow a value: the end, or a comma or a closing bracket.\<close>

definition delimited :: "string \<Rightarrow> bool" where
  "delimited r \<longleftrightarrow> (case r of [] \<Rightarrow> True | c # _ \<Rightarrow> c \<in> set '',]}'')"

lemma delimited_simps [simp]: "delimited []" "delimited (CHR '','' # r)" "delimited (CHR '']'' # r)" "delimited (CHR ''}'' # r)"
  by (simp_all add: delimited_def)

lemma read_unsigned_nat:
  assumes "delimited r" "fits_int (digit_limit R) (dec_of_nat n)"
  shows "read_unsigned R neg (dec_of_nat n @ r) = Inr (JInt (if neg then - int n else int n), r)"
proof -
  have nd: "r = [] \<or> \<not> is_digit (hd r)" using assms(1) by (cases r) (auto simp: delimited_def is_digit_def)
  have d: "list_all is_digit (dec_of_nat n)" by (rule dec_of_nat_digits)
  have t: "takeWhile is_digit (dec_of_nat n @ r) = dec_of_nat n"
    using d nd by (cases r) (auto simp: takeWhile_append list_all_iff)
  have lead: "hd (dec_of_nat n) = CHR ''0'' \<Longrightarrow> dec_of_nat n = ''0''"
    by (cases "n = 0") (simp_all add: dec_of_nat_lead dec_of_nat.simps[of 0] digit_char_0)
  have f: "read_fraction r = (False, r)" "read_exponent r = (False, r)"
    using assms(1) by (cases r; auto simp: read_fraction_def read_exponent_def delimited_def is_dot_def)+
  show ?thesis using lead assms(2) by (simp add: read_unsigned_def Let_def t f)
qed


lemma digit_starts:
  assumes "is_digit c"
  shows "\<not> starts ''null'' (c # s)" "\<not> starts ''true'' (c # s)" "\<not> starts ''false'' (c # s)"
    "\<not> starts ''NaN'' (c # s)" "\<not> starts ''Infinity'' (c # s)" "c \<noteq> CHR ''-''"
  using assms by (auto simp: is_digit_def)

lemma read_word_int:
  assumes "delimited r" "fits_int (digit_limit R) (dec_of_nat (nat \<bar>n\<bar>))"
  shows "read_word R (dec_of_int n @ r) = Inr (JInt n, r)"
proof (cases "n < 0")
  case True
  obtain x y where x: "dec_of_nat (nat (- n)) = x # y" "is_digit x"
    using dec_of_nat_digits[of "nat (- n)"] by (cases "dec_of_nat (nat (- n))") simp_all
  have u: "read_unsigned R True (x # y @ r) = Inr (JInt n, r)"
    using read_unsigned_nat[OF assms(1), of R "nat (- n)" True] assms(2) True by (simp add: x)
  have d: "dec_of_int n = CHR ''-'' # x # y" using True x by (simp add: dec_of_int_def)
  show ?thesis unfolding d append_Cons read_word_def read_number_def
    using digit_starts(5)[OF x(2)] u by simp
next
  case False
  obtain x y where x: "dec_of_nat (nat n) = x # y" "is_digit x"
    using dec_of_nat_digits[of "nat n"] by (cases "dec_of_nat (nat n)") simp_all
  have u: "read_unsigned R False (x # y @ r) = Inr (JInt n, r)"
    using read_unsigned_nat[OF assms(1), of R "nat n" False] assms(2) False by (simp add: x)
  have d: "dec_of_int n = x # y" using False x by (simp add: dec_of_int_def)
  show ?thesis unfolding d append_Cons read_word_def read_number_def
    using digit_starts[OF x(2)] u by (simp del: starts_simps)
qed

text \<open>Lists and members as the reader sees them: after each item a comma or the closing bracket.\<close>

definition items_text :: "string list \<Rightarrow> char \<Rightarrow> string" where
  "items_text ts e = commas ts @ [e]"

lemma items_text_simps:
  "items_text [t] e = t @ [e]"
  "ts \<noteq> [] \<Longrightarrow> items_text (t # ts) e = t @ CHR '','' # items_text ts e"
  by (simp_all add: items_text_def) (cases ts; simp)

definition member_text :: "string \<times> json \<Rightarrow> string" where
  "member_text = (\<lambda>(k, v). quote k @ '':'' @ text_of v)"

text \<open>No value starts with a space or a closing bracket.\<close>

definition opens :: "string \<Rightarrow> bool" where
  "opens s \<longleftrightarrow> (case s of [] \<Rightarrow> False | c # _ \<Rightarrow> \<not> is_space c \<and> c \<notin> set '']}'')"

lemma text_opens: "opens (text_of v)"
proof (cases v)
  case (JInt n)
  obtain x y where "dec_of_nat (nat n) = x # y" "is_digit x"
    using dec_of_nat_digits[of "nat n"] by (cases "dec_of_nat (nat n)") simp_all
  then show ?thesis using JInt by (auto simp: dec_of_int_def opens_def is_space_def is_digit_def)
qed (auto simp: opens_def is_space_def quote_def dquote_def)

lemma opens_skip: "opens s \<Longrightarrow> skip (s @ r) = s @ r \<and> \<not> starts '']'' (s @ r) \<and> \<not> starts ''}'' (s @ r)"
  by (cases s) (auto simp: opens_def)


text \<open>A value is read back from its text, whatever delimiter follows.\<close>

definition reads_back :: "json_reader \<Rightarrow> depth \<Rightarrow> json \<Rightarrow> bool" where
  "reads_back R d v \<longleftrightarrow>
     (\<forall>n r. delimited r \<longrightarrow> 2 * length (text_of v) < n \<longrightarrow> read_value R n d (text_of v @ r) = Inr (v, r))"

lemma reads_backD:
  "reads_back R d v \<Longrightarrow> delimited r \<Longrightarrow> 2 * length (text_of v) < n \<Longrightarrow> read_value R n d (text_of v @ r) = Inr (v, r)"
  by (simp add: reads_back_def)

lemma items_read:
  assumes "\<And>v. v \<in> set vs \<Longrightarrow> reads_back R d v" "vs \<noteq> []"
    "2 * length (items_text (map text_of vs) (CHR '']'')) < n"
  shows "read_items R n d (items_text (map text_of vs) (CHR '']'') @ r) = Inr (vs, r)"
  using assms
proof (induction vs arbitrary: n)
  case (Cons v vs)
  obtain m where n: "n = Suc m" using Cons.prems(3) by (cases n) simp_all
  have v: "reads_back R d v" using Cons.prems(1) by simp
  show ?case
  proof (cases "vs = []")
    case True
    have "read_value R m d (text_of v @ '']'' @ r) = Inr (v, '']'' @ r)"
      using Cons.prems(3) True by (intro reads_backD[OF v]) (simp_all add: n items_text_simps)
    then show ?thesis using True by (simp add: n items_text_simps is_space_def)
  next
    case False
    let ?rest = "items_text (map text_of vs) (CHR '']'') @ r"
    have len: "2 * length (text_of v) < m" "2 * length (items_text (map text_of vs) (CHR '']'')) < m"
      using Cons.prems(3) False by (simp_all add: n items_text_simps)
    have "read_value R m d (text_of v @ '','' @ ?rest) = Inr (v, '','' @ ?rest)" by (intro reads_backD[OF v] len) simp
    moreover have "read_items R m d ?rest = Inr (vs, r)" using Cons.prems(1) False len by (intro Cons.IH) simp_all
    moreover have "opens ?rest"
      using text_opens[of "hd vs"] False by (cases vs; cases "text_of (hd vs)"; cases "tl vs") (auto simp: opens_def items_text_simps)
    ultimately show ?thesis using False opens_skip[of ?rest "[]"] by (simp add: n items_text_simps is_space_def)
  qed
qed simp

lemma members_read:
  assumes "\<And>k v. (k, v) \<in> set kvs \<Longrightarrow> reads_back R d v" "kvs \<noteq> []"
    "2 * length (items_text (map member_text kvs) (CHR ''}'')) < n"
  shows "read_members R n d (items_text (map member_text kvs) (CHR ''}'') @ r) = Inr (kvs, r)"
  using assms
proof (induction kvs arbitrary: n)
  case (Cons kv kvs)
  obtain k v where kv: "kv = (k, v)" by (cases kv)
  obtain m where n: "n = Suc m" using Cons.prems(3) by (cases n) simp_all
  have v: "reads_back R d v" using Cons.prems(1)[of k v] by (simp_all add: kv)
  have key: "read_string (concat (map esc_char k) @ dquote # CHR '':'' # z) = Some (k, CHR '':'' # z)" for z
    by (rule read_quote)
  have op: "skip (text_of v @ z) = text_of v @ z" for z using opens_skip[OF text_opens] by simp
  show ?case
  proof (cases "kvs = []")
    case True
    have "read_value R m d (text_of v @ CHR ''}'' # r) = Inr (v, CHR ''}'' # r)"
      using Cons.prems(3) True by (intro reads_backD[OF v]) (simp_all add: n kv items_text_simps member_text_def)
    then show ?thesis using True
      by (simp add: n kv items_text_simps member_text_def quote_def key op is_space_def)
  next
    case False
    let ?rest = "items_text (map member_text kvs) (CHR ''}'') @ r"
    have len: "2 * length (text_of v) < m" "2 * length (items_text (map member_text kvs) (CHR ''}'')) < m"
      using Cons.prems(3) False by (simp_all add: n kv items_text_simps member_text_def)
    have "read_value R m d (text_of v @ CHR '','' # ?rest) = Inr (v, CHR '','' # ?rest)" by (intro reads_backD[OF v] len) simp
    moreover have "read_members R m d ?rest = Inr (kvs, r)" using False len Cons.prems(1) by (intro Cons.IH) auto
    moreover have "opens ?rest"
      using False by (cases kvs; cases "tl kvs") (auto simp: opens_def items_text_simps member_text_def quote_def is_space_def dquote_def)
    ultimately show ?thesis using False opens_skip[of ?rest "[]"]
      by (simp add: n kv items_text_simps member_text_def quote_def key op is_space_def)
  qed
qed simp

lemma read_plain:
  "0 < n \<Longrightarrow> c \<noteq> dquote \<Longrightarrow> c \<noteq> CHR ''['' \<Longrightarrow> c \<noteq> CHR ''{'' \<Longrightarrow> read_value R n d (c # cs) = read_word R (c # cs)"
  by (cases n) simp_all

lemma text_reads_back: "readable R d v \<Longrightarrow> reads_back R d v"
proof (induction v arbitrary: d)
  case (JStr s)
  then show ?case by (auto simp: reads_back_def quote_def read_quote less_Suc_eq_0_disj elim!: less_natE)
next
  case (JInt i)
  show ?case unfolding reads_back_def
  proof (intro allI impI)
    fix n r assume r: "delimited r" and n: "2 * length (text_of (JInt i)) < n"
    obtain m where m: "n = Suc m" using n by (cases n) simp_all
    obtain c cs where c: "dec_of_int i @ r = c # cs" "c \<noteq> dquote" "c \<noteq> CHR ''[''" "c \<noteq> CHR ''{''"
    proof -
      obtain x y where x: "dec_of_int i = x # y" "is_digit x \<or> x = CHR ''-''"
        using dec_of_nat_digits[of "nat i"] by (cases "i < 0"; cases "dec_of_nat (nat i)") (simp_all add: dec_of_int_def)
      then have "x \<noteq> dquote" "x \<noteq> CHR ''[''" "x \<noteq> CHR ''{''" by (auto simp: is_digit_def dquote_def)
      then show thesis using x(1) that by simp
    qed
    show "read_value R n d (text_of (JInt i) @ r) = Inr (JInt i, r)"
      using read_word_int[OF r, of R i] JInt c by (simp add: m)
  qed
next
  case (JList vs)
  then have vs: "\<And>v. v \<in> set vs \<Longrightarrow> reads_back R (deeper d) v" and d: "d \<noteq> Some 0" by (auto simp: list_all_iff)
  show ?case unfolding reads_back_def
  proof (intro allI impI)
    fix n r assume r: "delimited r" and n: "2 * length (text_of (JList vs)) < n"
    obtain m where m: "n = Suc m" using n by (cases n) simp_all
    show "read_value R n d (text_of (JList vs) @ r) = Inr (JList vs, r)"
    proof (cases "vs = []")
      case True
      then show ?thesis using d by (simp add: m is_space_def dquote_def)
    next
      case False
      let ?t = "items_text (map text_of vs) (CHR '']'') @ r"
      have t: "text_of (JList vs) @ r = CHR ''['' # ?t" by (simp add: items_text_def)
      have "opens ?t"
        using text_opens[of "hd vs"] False by (cases vs; cases "text_of (hd vs)"; cases "tl vs") (auto simp: opens_def items_text_simps)
      moreover have "read_items R m (deeper d) ?t = Inr (vs, r)" using n m False by (intro items_read vs) (simp_all add: items_text_def)
      ultimately show ?thesis unfolding t m using opens_skip[of ?t "[]"] d by (simp add: dquote_def)
    qed
  qed
next
  case (JObj kvs)
  then have kvs: "\<And>k v. (k, v) \<in> set kvs \<Longrightarrow> reads_back R (deeper d) v"
    by (fastforce simp: list_all_iff)
  have d: "d \<noteq> Some 0" "object_hook R kvs = Inr (JObj kvs)" using JObj.prems by simp_all
  show ?case unfolding reads_back_def
  proof (intro allI impI)
    fix n r assume r: "delimited r" and n: "2 * length (text_of (JObj kvs)) < n"
    obtain m where m: "n = Suc m" using n by (cases n) simp_all
    show "read_value R n d (text_of (JObj kvs) @ r) = Inr (JObj kvs, r)"
    proof (cases "kvs = []")
      case True
      then show ?thesis using d by (simp add: m is_space_def dquote_def)
    next
      case False
      let ?t = "items_text (map member_text kvs) (CHR ''}'') @ r"
      have t: "text_of (JObj kvs) @ r = CHR ''{'' # ?t" by (simp add: items_text_def member_text_def)
      have "opens ?t"
        using False by (cases kvs; cases "tl kvs") (auto simp: opens_def items_text_simps member_text_def quote_def is_space_def dquote_def)
      moreover have "read_members R m (deeper d) ?t = Inr (kvs, r)" using n m False by (intro members_read kvs) (simp_all add: items_text_def member_text_def)
      ultimately show ?thesis unfolding t m using opens_skip[of ?t "[]"] d by (simp add: dquote_def)
    qed
  qed
qed (simp_all add: reads_back_def read_plain read_word_def dquote_def)


lemma length_text_pos: "0 < length (text_of v)"
  using text_opens[of v] by (cases "text_of v") (simp_all add: opens_def)

lemma read_text_of: "readable R d v \<Longrightarrow> read_text R d (text_of v) = Inr v"
proof -
  assume "readable R d v"
  from reads_backD[OF text_reads_back[OF this], of "[]" "2 * length (text_of v) + 2"]
  show ?thesis using opens_skip[OF text_opens[of v], of "[]"] by (simp add: read_text_def)
qed

lemma loads_text: "writable v \<Longrightarrow> loads (text_of v) = Some v"
  by (simp add: loads_def read_text_of plain_readable)

section \<open>Key order\<close>

text \<open>A Python dict has every key once.\<close>

fun dict_like :: "json \<Rightarrow> bool" where
  "dict_like (JList vs) = list_all dict_like vs"
| "dict_like (JObj kvs) = (distinct (map fst kvs) \<and> list_all (\<lambda>(k, v). dict_like v) kvs)"
| "dict_like v = True"

lemma set_canon_members: "set (sort_key fst (map (\<lambda>(k, v). (k, canon v)) kvs)) = (\<lambda>(k, v). (k, canon v)) ` set kvs"
  by simp

lemma canon_writable: "writable v \<Longrightarrow> writable (canon v)"
proof (induction v rule: canon.induct)
  case (2 kvs)
  have "writable (canon v)" if "(k, v) \<in> set kvs" for k v
    using that "2.prems" "2.IH"[OF that, of k v] by (auto simp: list_all_iff)
  then show ?case by (auto simp: list_all_iff)
qed (simp_all add: list_all_iff)

lemma canon_idem: "canon (canon v) = canon v"
proof (induction v rule: canon.induct)
  case (2 kvs)
  let ?f = "\<lambda>(k, v). (k, canon v)"
  have f: "?f x = x" if "x \<in> set (sort_key fst (map ?f kvs))" for x using that 2 by (auto simp: split_beta)
  then have "map ?f (sort_key fst (map ?f kvs)) = sort_key fst (map ?f kvs)" by (rule map_idI)
  then show ?case by (simp add: sorted_sort_id sort_key_id_if_sorted)
qed simp_all

text \<open>The canonical text spells a value up to the order of keys, and nothing else.\<close>

lemma loads_dumps: "writable v \<Longrightarrow> loads (dumps v) = Some (canon v)"
  unfolding dumps_def by (intro loads_text canon_writable)

lemma dumps_inj: "writable v \<Longrightarrow> writable w \<Longrightarrow> dumps v = dumps w \<longleftrightarrow> canon v = canon w"
  by (metis loads_dumps dumps_def option.inject)

lemma dumps_canon [simp]: "dumps (canon v) = dumps v"
  by (simp add: dumps_def canon_idem)


text \<open>The value of a key, of a dictionary known to hold it.\<close>

definition dict_get :: "(string \<times> json) list \<Rightarrow> string \<Rightarrow> json" where
  "dict_get payload k = (case map_of payload k of None \<Rightarrow> JNull | Some v \<Rightarrow> v)"

lemma dict_get_simps [simp]:
  "dict_get [] k = JNull"
  "dict_get ((k', v) # d) k = (if k = k' then v else dict_get d k)"
  by (simp_all add: dict_get_def)


section \<open>Python values and the two paths of the encoder\<close>

text \<open>
  Object keys: exactly \<open>str\<close>, an enumeration member that is a \<open>str\<close>, or no string. Values: the
  JSON primitives, a binary float, a \<open>Decimal\<close> (finite or not), an enumeration member that is a
  \<open>str\<close>, another one with its value, a dataclass (each field with its name, whether its metadata
  omits the value it has, and the value), a \<open>dict\<close>, another \<open>Mapping\<close>, a list, a tuple, or
  anything else.
\<close>

datatype pykey = KStr string | KStrEnum string | KOther

datatype pyval =
    PNone
  | PBool bool
  | PInt int
  | PStr string
  | PFloat
  | PDecimal dec
  | PNonFinite
  | PStrEnum string
  | PEnum pyval
  | PData "(string \<times> bool \<times> pyval) list"
  | PDict "(pykey \<times> pyval) list"
  | PMapping "(pykey \<times> pyval) list"
  | PList "pyval list"
  | PTuple "pyval list"
  | POther

definition exact_str :: "pykey \<Rightarrow> bool" where
  "exact_str k = (case k of KStr _ \<Rightarrow> True | _ \<Rightarrow> False)"

lemma size_members: "size_list (size \<circ> snd) kvs \<le> size_list (size_prod (\<lambda>x. 0) (size :: pyval \<Rightarrow> nat)) kvs"
  by (induction kvs) auto

lemma size_list_rev: "size_list size (rev xs) = size_list (size :: pyval \<Rightarrow> nat) xs"
  by (simp add: size_list_conv_sum_list rev_map[symmetric] sum_list_rev)

text \<open>The stack loop of \<open>_is_native_canonical_json\<close>; the top of the stack is the head of the list.\<close>

function native_loop :: "pyval list \<Rightarrow> bool" where
  "native_loop [] = True"
| "native_loop (v # pending) =
     (case v of
        PNone \<Rightarrow> native_loop pending
      | PStr _ \<Rightarrow> native_loop pending
      | PBool _ \<Rightarrow> native_loop pending
      | PInt _ \<Rightarrow> native_loop pending
      | PDict kvs \<Rightarrow>
          if list_all (\<lambda>(k, _). exact_str k) kvs then native_loop (rev (map snd kvs) @ pending) else False
      | PList xs \<Rightarrow> native_loop (rev xs @ pending)
      | PTuple xs \<Rightarrow> native_loop (rev xs @ pending)
      | _ \<Rightarrow> False)"
  by pat_completeness auto

termination
  by (relation "measure (size_list size)") (auto simp: size_list_append size_list_rev intro!: le_imp_less_Suc le_SucI size_members)

text \<open>\<open>_canonical_value\<close>: the strict path, one branch per class of value, in its order.\<close>

definition key_string :: "pykey \<Rightarrow> string res" where
  "key_string k = (case k of KStr s \<Rightarrow> Inr s | KStrEnum s \<Rightarrow> Inr s | KOther \<Rightarrow> Inl TypeError)"

lemma mapr_cong [fundef_cong]:
  "xs = ys \<Longrightarrow> (\<And>x. x \<in> set ys \<Longrightarrow> f x = g x) \<Longrightarrow> mapr f xs = mapr g ys"
  by (induction xs arbitrary: ys) auto

fun canonical_value :: "pyval \<Rightarrow> json res" where
  "canonical_value PNone = Inr JNull"
| "canonical_value (PStr s) = Inr (JStr s)"
| "canonical_value (PStrEnum s) = Inr (JStr s)"
| "canonical_value (PBool b) = Inr (JBool b)"
| "canonical_value (PInt n) = Inr (JInt n)"
| "canonical_value PFloat = Inl TypeError"
| "canonical_value PNonFinite = Inl ValueError"
| "canonical_value (PDecimal d) = Inr (JStr (decimal_to_string d))"
| "canonical_value (PEnum v) = canonical_value v"
| "canonical_value (PData fs) =
     bindr (mapr (\<lambda>(n, _, v). bindr (canonical_value v) (\<lambda>j. Inr (n, j))) (List.filter (\<lambda>(n, omit, v). \<not> omit) fs))
       (\<lambda>kvs. Inr (JObj kvs))"
| "canonical_value (PDict kvs) =
     bindr (mapr (\<lambda>(k, v). bindr (key_string k) (\<lambda>s. bindr (canonical_value v) (\<lambda>j. Inr (s, j)))) kvs) (\<lambda>kvs. Inr (JObj kvs))"
| "canonical_value (PMapping kvs) =
     bindr (mapr (\<lambda>(k, v). bindr (key_string k) (\<lambda>s. bindr (canonical_value v) (\<lambda>j. Inr (s, j)))) kvs) (\<lambda>kvs. Inr (JObj kvs))"
| "canonical_value (PList xs) = bindr (mapr canonical_value xs) (\<lambda>js. Inr (JList js))"
| "canonical_value (PTuple xs) = bindr (mapr canonical_value xs) (\<lambda>js. Inr (JList js))"
| "canonical_value POther = Inl TypeError"

text \<open>
  What \<open>json.dumps\<close> itself makes of a value (\<open>allow_nan=False\<close> apart): a \<open>Mapping\<close> that is not a
  \<open>dict\<close>, a \<open>Decimal\<close>, a dataclass and an enumeration member without a primitive base are no JSON.
  A dict with a key that is no string is never passed to it.
\<close>

fun json_native :: "pyval \<Rightarrow> json res" where
  "json_native PNone = Inr JNull"
| "json_native (PStr s) = Inr (JStr s)"
| "json_native (PStrEnum s) = Inr (JStr s)"
| "json_native (PBool b) = Inr (JBool b)"
| "json_native (PInt n) = Inr (JInt n)"
| "json_native PFloat = Inr JFloat"
| "json_native (PDict kvs) =
     bindr (mapr (\<lambda>(k, v). bindr (key_string k) (\<lambda>s. bindr (json_native v) (\<lambda>j. Inr (s, j)))) kvs) (\<lambda>kvs. Inr (JObj kvs))"
| "json_native (PList xs) = bindr (mapr json_native xs) (\<lambda>js. Inr (JList js))"
| "json_native (PTuple xs) = bindr (mapr json_native xs) (\<lambda>js. Inr (JList js))"
| "json_native _ = Inl TypeError"

definition is_native_canonical_json :: "pyval \<Rightarrow> bool" where
  "is_native_canonical_json v = native_loop [v]"

definition canonical_json :: "pyval \<Rightarrow> string res" where
  "canonical_json v =
     bindr (if is_native_canonical_json v then json_native v else canonical_value v) (\<lambda>j. Inr (dumps j))"

type_synonym digest_fun = "string \<Rightarrow> string"

text \<open>\<open>f"sha256:{hashlib.sha256(text).hexdigest()}"\<close>.\<close>

definition sha_text :: "digest_fun \<Rightarrow> string \<Rightarrow> string" where
  "sha_text digest t = ''sha256:'' @ digest t"

definition canonical_sha256 :: "digest_fun \<Rightarrow> pyval \<Rightarrow> string res" where
  "canonical_sha256 digest v = bindr (canonical_json v) (\<lambda>t. Inr (sha_text digest t))"

text \<open>The same hash of a value that is a JSON tree already.\<close>

definition sha_json :: "digest_fun \<Rightarrow> json \<Rightarrow> string" where
  "sha_json digest j = sha_text digest (dumps j)"

section \<open>The hash chain of source events\<close>

fun is_json_primitive_tree :: "pyval \<Rightarrow> bool" where
  "is_json_primitive_tree PNone = True"
| "is_json_primitive_tree (PStr s) = True"
| "is_json_primitive_tree (PStrEnum s) = True"
| "is_json_primitive_tree (PBool b) = True"
| "is_json_primitive_tree (PInt n) = True"
| "is_json_primitive_tree (PDict kvs) = list_all (\<lambda>(k, v). k \<noteq> KOther \<and> is_json_primitive_tree v) kvs"
| "is_json_primitive_tree (PMapping kvs) = list_all (\<lambda>(k, v). k \<noteq> KOther \<and> is_json_primitive_tree v) kvs"
| "is_json_primitive_tree (PList xs) = list_all is_json_primitive_tree xs"
| "is_json_primitive_tree (PTuple xs) = list_all is_json_primitive_tree xs"
| "is_json_primitive_tree _ = False"

text \<open>
  \<open>source_event_payload\<close>: the event is given by what its \<open>to_dict\<close> returns if it has one, by its
  fields if it is a dataclass, or by its items if it is a mapping.
\<close>

datatype source_event = ToDict pyval | Fields "(string \<times> pyval) list" | Items "(pykey \<times> pyval) list" | NoEvent

definition source_event_payload :: "source_event \<Rightarrow> pyval res" where
  "source_event_payload ev =
     (case ev of
        ToDict (PDict kvs) \<Rightarrow> Inr (PDict kvs)
      | ToDict (PMapping kvs) \<Rightarrow> Inr (PDict kvs)
      | ToDict _ \<Rightarrow> Inl TypeError
      | Fields fs \<Rightarrow> Inr (PDict (map (\<lambda>(n, v). (KStr n, v)) fs))
      | Items kvs \<Rightarrow> Inr (PDict kvs)
      | NoEvent \<Rightarrow> Inl TypeError)"

definition SOURCE_CHAIN_SCHEMA_VERSION :: string where
  "SOURCE_CHAIN_SCHEMA_VERSION = ''replay-source-chain.v1''"

definition initial_source_chain_hash :: "digest_fun \<Rightarrow> string \<Rightarrow> string res" where
  "initial_source_chain_hash digest data_epoch =
     canonical_sha256 digest (PDict
       [(KStr ''schema_version'', PStr SOURCE_CHAIN_SCHEMA_VERSION),
        (KStr ''data_epoch'', PStr data_epoch),
        (KStr ''source_sequence'', PInt 0)])"

definition next_source_chain_hash :: "digest_fun \<Rightarrow> string \<Rightarrow> source_event \<Rightarrow> int \<Rightarrow> string res" where
  "next_source_chain_hash digest previous ev source_sequence =
     bindr (source_event_payload ev) (\<lambda>payload.
       let material = PDict
             [(KStr ''schema_version'', PStr SOURCE_CHAIN_SCHEMA_VERSION),
              (KStr ''previous'', PStr previous),
              (KStr ''source_sequence'', PInt source_sequence),
              (KStr ''event'', payload)]
       in if is_json_primitive_tree material
          then bindr (json_native material) (\<lambda>j. Inr (sha_text digest (dumps j)))
          else canonical_sha256 digest material)"


section \<open>The fast path is the strict path\<close>

fun native :: "pyval \<Rightarrow> bool" where
  "native (PDict kvs) = list_all (\<lambda>(k, v). exact_str k \<and> native v) kvs"
| "native (PList xs) = list_all native xs"
| "native (PTuple xs) = list_all native xs"
| "native v = (v = PNone \<or> (\<exists>s. v = PStr s) \<or> (\<exists>b. v = PBool b) \<or> (\<exists>n. v = PInt n))"

lemma native_loop_all: "native_loop ps = list_all native ps"
  by (induction ps rule: native_loop.induct) (auto simp: list_all_iff ball_Un split: pyval.splits)

lemma is_native_iff: "is_native_canonical_json v = native v"
  by (simp add: is_native_canonical_json_def native_loop_all)

lemma bindr_members_cong:
  assumes "\<And>k v. (k, v) \<in> set kvs \<Longrightarrow> f v = g v"
  shows "mapr (\<lambda>(k, v). bindr (key_string k) (\<lambda>s. bindr (f v) (\<lambda>j. Inr (s, j)))) kvs =
         mapr (\<lambda>(k, v). bindr (key_string k) (\<lambda>s. bindr (g v) (\<lambda>j. Inr (s, j)))) kvs"
  using assms by (intro mapr_cong refl) auto

lemma native_paths_agree: "native v \<Longrightarrow> json_native v = canonical_value v"
proof (induction v rule: json_native.induct)
  case (7 kvs)
  have "mapr (\<lambda>(k, v). bindr (key_string k) (\<lambda>s. bindr (json_native v) (\<lambda>j. Inr (s, j)))) kvs =
        mapr (\<lambda>(k, v). bindr (key_string k) (\<lambda>s. bindr (canonical_value v) (\<lambda>j. Inr (s, j)))) kvs"
    by (intro bindr_members_cong) (use 7 in \<open>auto simp: list_all_iff key_string_def exact_str_def split: pykey.splits\<close>)
  then show ?case by simp
next
  case (8 xs)
  then have "mapr json_native xs = mapr canonical_value xs" by (intro mapr_cong refl) (auto simp: list_all_iff)
  then show ?case by simp
next
  case (9 xs)
  then have "mapr json_native xs = mapr canonical_value xs" by (intro mapr_cong refl) (auto simp: list_all_iff)
  then show ?case by simp
qed simp_all

lemma canonical_json_strict: "canonical_json v = bindr (canonical_value v) (\<lambda>j. Inr (dumps j))"
  by (simp add: canonical_json_def is_native_iff native_paths_agree)


text \<open>What the strict path returns can be written: it has no binary float.\<close>

lemma mapr_all:
  assumes "mapr f xs = Inr ys" "\<And>x y. x \<in> set xs \<Longrightarrow> f x = Inr y \<Longrightarrow> P y"
  shows "list_all P ys"
  using assms by (auto simp: mapr_Inr_iff list_all2_conv_all_nth list_all_length) (metis nth_mem)

lemma mapr_ex: "(\<And>x. x \<in> set xs \<Longrightarrow> \<exists>y. f x = Inr y) \<Longrightarrow> \<exists>ys. mapr f xs = Inr ys"
  by (induction xs) fastforce+

lemma canonical_writable: "canonical_value v = Inr j \<Longrightarrow> writable j"
proof (induction v arbitrary: j rule: canonical_value.induct)
  case (10 fs)
  have "writable x" if "(n, False, v) \<in> set fs" "canonical_value v = Inr x" for n v x
    using "10.IH"[of "(n, False, v)" n "(False, v)" False v] that by auto
  then show ?case using "10.prems" by (auto simp: res_simps elim!: mapr_all)
next
  case (11 kvs)
  then show ?case by (auto simp: res_simps elim!: mapr_all)
next
  case (12 kvs)
  then show ?case by (auto simp: res_simps elim!: mapr_all)
next
  case (13 xs)
  then show ?case by (auto simp: res_simps elim!: mapr_all)
next
  case (14 xs)
  then show ?case by (auto simp: res_simps elim!: mapr_all)
qed auto

section \<open>The source chain's own fast path\<close>

text \<open>Whether a value contains a \<open>Mapping\<close> that is no \<open>dict\<close>.\<close>

fun has_mapping :: "pyval \<Rightarrow> bool" where
  "has_mapping (PMapping kvs) = True"
| "has_mapping (PDict kvs) = list_ex (\<lambda>(k, v). has_mapping v) kvs"
| "has_mapping (PList xs) = list_ex has_mapping xs"
| "has_mapping (PTuple xs) = list_ex has_mapping xs"
| "has_mapping v = False"

lemma tree_canonical_total: "is_json_primitive_tree v \<Longrightarrow> \<exists>j. canonical_value v = Inr j"
proof (induction v rule: is_json_primitive_tree.induct)
  case (6 kvs)
  have "\<exists>js. mapr (\<lambda>(k, v). bindr (key_string k) (\<lambda>s. bindr (canonical_value v) (\<lambda>j. Inr (s, j)))) kvs = Inr js"
    by (rule mapr_ex) (use 6 in \<open>fastforce simp: list_all_iff key_string_def split: pykey.splits\<close>)
  then show ?case by auto
next
  case (7 kvs)
  have "\<exists>js. mapr (\<lambda>(k, v). bindr (key_string k) (\<lambda>s. bindr (canonical_value v) (\<lambda>j. Inr (s, j)))) kvs = Inr js"
    by (rule mapr_ex) (use 7 in \<open>fastforce simp: list_all_iff key_string_def split: pykey.splits\<close>)
  then show ?case by auto
next
  case (8 xs)
  have "\<exists>js. mapr canonical_value xs = Inr js" by (rule mapr_ex) (use 8 in \<open>auto simp: list_all_iff\<close>)
  then show ?case by auto
next
  case (9 xs)
  have "\<exists>js. mapr canonical_value xs = Inr js" by (rule mapr_ex) (use 9 in \<open>auto simp: list_all_iff\<close>)
  then show ?case by auto
qed simp_all

definition tree_case :: "pyval \<Rightarrow> bool" where
  "tree_case v \<longleftrightarrow> json_native v = (if has_mapping v then Inl TypeError else canonical_value v)"

lemma items_native:
  assumes "\<And>v. v \<in> set xs \<Longrightarrow> tree_case v \<and> is_json_primitive_tree v"
  shows "mapr json_native xs = (if list_ex has_mapping xs then Inl TypeError else mapr canonical_value xs)"
  using assms
proof (induction xs)
  case (Cons a xs)
  then obtain j where "canonical_value a = Inr j" "tree_case a" using tree_canonical_total by force
  then show ?case using Cons by (simp add: tree_case_def)
qed simp

lemma members_native:
  assumes "\<And>k v. (k, v) \<in> set kvs \<Longrightarrow> tree_case v \<and> is_json_primitive_tree v \<and> k \<noteq> KOther"
  shows "mapr (\<lambda>(k, v). bindr (key_string k) (\<lambda>s. bindr (json_native v) (\<lambda>j. Inr (s, j)))) kvs =
    (if list_ex (\<lambda>(k, v). has_mapping v) kvs then Inl TypeError
     else mapr (\<lambda>(k, v). bindr (key_string k) (\<lambda>s. bindr (canonical_value v) (\<lambda>j. Inr (s, j)))) kvs)"
  using assms
proof (induction kvs)
  case (Cons kv kvs)
  obtain k v where kv: "kv = (k, v)" by (cases kv)
  then obtain j where "canonical_value v = Inr j" "tree_case v" using tree_canonical_total Cons.prems[of k v] by force
  moreover obtain s where "key_string k = Inr s" using Cons.prems[of k v] by (cases k) (auto simp: kv key_string_def)
  moreover note Cons.IH[OF Cons.prems[OF list.set_intros(2)]]
  ultimately show ?case by (simp add: tree_case_def kv)
qed simp

lemma tree_native: "is_json_primitive_tree v \<Longrightarrow> tree_case v"
proof (induction v rule: is_json_primitive_tree.induct)
  case (6 kvs)
  then show ?case using members_native[of kvs] by (fastforce simp: tree_case_def[of "PDict _"] list_all_iff)
next
  case (8 xs)
  then show ?case using items_native[of xs] by (auto simp: tree_case_def[of "PList _"] list_all_iff)
next
  case (9 xs)
  then show ?case using items_native[of xs] by (auto simp: tree_case_def[of "PTuple _"] list_all_iff)
qed (simp_all add: tree_case_def)


section \<open>The chain of source events\<close>

text \<open>The JSON objects the two hash functions of the chain write.\<close>

definition source_start :: "string \<Rightarrow> json" where
  "source_start data_epoch =
     JObj [(''schema_version'', JStr SOURCE_CHAIN_SCHEMA_VERSION), (''data_epoch'', JStr data_epoch), (''source_sequence'', JInt 0)]"

definition source_link :: "string \<Rightarrow> int \<Rightarrow> json \<Rightarrow> json" where
  "source_link previous n event =
     JObj [(''schema_version'', JStr SOURCE_CHAIN_SCHEMA_VERSION), (''previous'', JStr previous),
           (''source_sequence'', JInt n), (''event'', event)]"

definition event_json :: "source_event \<Rightarrow> json res" where
  "event_json ev = bindr (source_event_payload ev) canonical_value"

lemma canon_source_link: "canon (source_link h n e) =
  JObj [(''event'', canon e), (''previous'', JStr h), (''schema_version'', JStr SOURCE_CHAIN_SCHEMA_VERSION), (''source_sequence'', JInt n)]"
  by (simp add: source_link_def)

lemma canon_source_start: "canon (source_start ep) =
  JObj [(''data_epoch'', JStr ep), (''schema_version'', JStr SOURCE_CHAIN_SCHEMA_VERSION), (''source_sequence'', JInt 0)]"
  by (simp add: source_start_def)

lemma writable_source: "writable (source_start ep)" "writable (source_link h n e) = writable e"
  by (simp_all add: source_start_def source_link_def)

interpretation source_chain:
  hash_chain "sha_text digest" "\<lambda>ep. dumps (source_start ep)" "\<lambda>h i e. dumps (source_link h (int i) e)"
    "\<lambda>ep. ep" canon "\<lambda>_. True" writable for digest
proof
  show "dumps (source_start c) = dumps (source_start c') \<Longrightarrow> c = c'" for c c'
    by (simp add: dumps_inj writable_source canon_source_start)
  show "h = h' \<and> i = i' \<and> canon e = canon e'"
    if "writable e" "writable e'" "dumps (source_link h (int i) e) = dumps (source_link h' (int i') e')" for e e' h h' i i'
    using that by (simp add: dumps_inj writable_source canon_source_link)
  show "dumps (source_start c) \<noteq> dumps (source_link h (int i) e)" if "writable e" for c h i e
    using that by (simp add: dumps_inj writable_source canon_source_link canon_source_start)
qed

lemma initial_source_hash: "initial_source_chain_hash digest ep = Inr (sha_text digest (dumps (source_start ep)))"
  by (simp add: initial_source_chain_hash_def canonical_sha256_def canonical_json_strict key_string_def source_start_def)

lemma next_source_hash:
  "next_source_chain_hash digest h ev n =
     bindr (source_event_payload ev) (\<lambda>p.
       if is_json_primitive_tree p \<and> has_mapping p then Inl TypeError
       else bindr (canonical_value p) (\<lambda>j. Inr (sha_text digest (dumps (source_link h n j)))))"
proof (cases "source_event_payload ev")
  case (Inr p)
  let ?m = "PDict [(KStr ''schema_version'', PStr SOURCE_CHAIN_SCHEMA_VERSION), (KStr ''previous'', PStr h),
    (KStr ''source_sequence'', PInt n), (KStr ''event'', p)]"
  have t: "is_json_primitive_tree ?m = is_json_primitive_tree p" "has_mapping ?m = has_mapping p" by simp_all
  have c: "canonical_value ?m = bindr (canonical_value p) (\<lambda>j. Inr (source_link h n j))"
    by (cases "canonical_value p") (simp_all add: key_string_def source_link_def)
  have j: "json_native ?m = (if has_mapping p then Inl TypeError else canonical_value ?m)" if "is_json_primitive_tree p"
    using tree_native[of ?m] that t by (simp only: tree_case_def)
  show ?thesis
    unfolding next_source_chain_hash_def Inr bindr_Inr Let_def t canonical_sha256_def canonical_json_strict
    by (cases "canonical_value p"; cases "is_json_primitive_tree p"; cases "has_mapping p") (simp_all only: j c bindr_Inr bindr_Inl if_True if_False simp_thms)
qed (simp add: next_source_chain_hash_def)

text \<open>The chain over a run of events, numbered from 1, as the actor extends it event by event.\<close>

fun extend_source_chain :: "digest_fun \<Rightarrow> string \<Rightarrow> nat \<Rightarrow> source_event list \<Rightarrow> string res" where
  "extend_source_chain digest h i [] = Inr h"
| "extend_source_chain digest h i (ev # evs) =
     bindr (next_source_chain_hash digest h ev (int i)) (\<lambda>h'. extend_source_chain digest h' (Suc i) evs)"

definition source_chain_of :: "digest_fun \<Rightarrow> string \<Rightarrow> source_event list \<Rightarrow> string res" where
  "source_chain_of digest ep evs = bindr (initial_source_chain_hash digest ep) (\<lambda>h. extend_source_chain digest h 1 evs)"

lemma extend_chain_tail:
  "extend_source_chain digest h i evs = Inr t \<Longrightarrow>
   \<exists>js. mapr event_json evs = Inr js \<and> list_all writable js \<and> t = source_chain.tail_from digest h i js"
proof (induction evs arbitrary: h i)
  case (Cons ev evs)
  obtain h' where h: "next_source_chain_hash digest h ev (int i) = Inr h'" "extend_source_chain digest h' (Suc i) evs = Inr t"
    using Cons.prems by (auto simp: res_simps)
  obtain j where j: "event_json ev = Inr j" "writable j" "h' = sha_text digest (dumps (source_link h (int i) j))"
    using h(1) by (auto simp: next_source_hash event_json_def res_simps canonical_writable split: if_splits)
  show ?case using Cons.IH[OF h(2)] j by auto
qed simp

lemma source_chain_tail:
  "source_chain_of digest ep evs = Inr t \<Longrightarrow>
   \<exists>js. mapr event_json evs = Inr js \<and> list_all writable js \<and> t = source_chain.tail digest ep js"
  using extend_chain_tail by (simp add: source_chain_of_def initial_source_hash source_chain.tail_def)


text \<open>The texts the chain hashes, in their order.\<close>

fun source_link_texts :: "digest_fun \<Rightarrow> string \<Rightarrow> nat \<Rightarrow> json list \<Rightarrow> string list" where
  "source_link_texts digest h i [] = []"
| "source_link_texts digest h i (j # js) =
     (let t = dumps (source_link h (int i) j) in t # source_link_texts digest (sha_text digest t) (Suc i) js)"

definition source_texts :: "digest_fun \<Rightarrow> string \<Rightarrow> json list \<Rightarrow> string list" where
  "source_texts digest ep js =
     (let t = dumps (source_start ep) in t # source_link_texts digest (sha_text digest t) 1 js)"

lemma source_texts_chain: "source_texts digest ep js = source_chain.texts digest ep js"
proof -
  have "source_link_texts digest h i js = source_chain.texts_from digest h i js" for h i
    by (induction js arbitrary: h i) (simp_all add: Let_def)
  then show ?thesis by (simp add: source_texts_def source_chain.texts_def Let_def)
qed

lemma sha_text_inj [simp]: "sha_text digest x = sha_text digest y \<longleftrightarrow> digest x = digest y"
  by (simp add: sha_text_def)

section \<open>Properties\<close>

text \<open>C9: The canonical JSON text of a value determines the value. Whatever the strict
  canonicalisation makes of a value, \<open>canonical_json\<close> returns its sorted text, reading that text
  back gives the value with its keys sorted, and two values have the same canonical text exactly
  when they are equal up to the order of keys.\<close>

theorem canonical_json_unambiguous:
  assumes "canonical_value v = Inr j" "canonical_value w = Inr k"
  shows "canonical_json v = Inr (dumps j) \<and> loads (dumps j) = Some (canon j) \<and>
    (canonical_json v = canonical_json w \<longleftrightarrow> canon j = canon k)"
  using assms canonical_writable[OF assms(1)] canonical_writable[OF assms(2)]
  by (simp add: canonical_json_strict loads_dumps dumps_inj)

definition sample_value :: pyval where
  "sample_value = PDict [(KStr ''b'', PInt (- 3)), (KStr ''a'', PList [PStr [dquote, CHR 0x0A], PNone, PDecimal (Dec 150 (- 2))])]"

definition sample_other :: pyval where
  "sample_other = PMapping [(KStrEnum ''a'', PTuple [PStrEnum [dquote, CHR 0x0A], PNone, PStr ''1.5'']), (KStr ''b'', PInt (- 3))]"

definition sample_items :: json where
  "sample_items = JList [JStr [dquote, CHR 0x0A], JNull, JStr ''1.5'']"

lemma sample_values:
  "canonical_value sample_value = Inr (JObj [(''b'', JInt (- 3)), (''a'', sample_items)])"
  "canonical_value sample_other = Inr (JObj [(''a'', sample_items), (''b'', JInt (- 3))])"
  by code_simp+

lemma sample_sorted:
  "canon (JObj [(''b'', JInt (- 3)), (''a'', sample_items)]) = JObj [(''a'', sample_items), (''b'', JInt (- 3))]"
  "canon (JObj [(''a'', sample_items), (''b'', JInt (- 3))]) = JObj [(''a'', sample_items), (''b'', JInt (- 3))]"
  by (simp_all add: sample_items_def)

theorem canonical_json_unambiguous_witness:
  "loads (dumps (JObj [(''b'', JInt (- 3)), (''a'', sample_items)])) = Some (JObj [(''a'', sample_items), (''b'', JInt (- 3))]) \<and>
   canonical_json sample_value = canonical_json sample_other"
  using canonical_json_unambiguous[OF sample_values] unfolding sample_sorted by blast

text \<open>C25: The two fast paths around the strict encoder. \<open>canonical_json\<close> always returns what the
  strict path returns, so its native shortcut is an optimisation only. The shortcut of
  \<open>next_source_chain_hash\<close> agrees with the canonical hash of the same material in every case but
  one: an event payload of JSON primitives that holds a \<open>Mapping\<close> which is no \<open>dict\<close> raises
  \<open>TypeError\<close> where the canonical hash exists.\<close>

theorem encoder_fast_paths:
  "canonical_json v = bindr (canonical_value v) (\<lambda>j. Inr (dumps j)) \<and>
   next_source_chain_hash digest h ev n =
     bindr (source_event_payload ev) (\<lambda>p.
       if is_json_primitive_tree p \<and> has_mapping p then Inl TypeError
       else canonical_sha256 digest (PDict
         [(KStr ''schema_version'', PStr SOURCE_CHAIN_SCHEMA_VERSION), (KStr ''previous'', PStr h),
          (KStr ''source_sequence'', PInt n), (KStr ''event'', p)]))"
proof (intro conjI canonical_json_strict)
  have c: "canonical_value (PDict [(KStr ''schema_version'', PStr SOURCE_CHAIN_SCHEMA_VERSION), (KStr ''previous'', PStr h),
      (KStr ''source_sequence'', PInt n), (KStr ''event'', p)]) = bindr (canonical_value p) (\<lambda>j. Inr (source_link h n j))" for p
    by (cases "canonical_value p") (simp_all add: key_string_def source_link_def)
  show "next_source_chain_hash digest h ev n =
     bindr (source_event_payload ev) (\<lambda>p.
       if is_json_primitive_tree p \<and> has_mapping p then Inl TypeError
       else canonical_sha256 digest (PDict
         [(KStr ''schema_version'', PStr SOURCE_CHAIN_SCHEMA_VERSION), (KStr ''previous'', PStr h),
          (KStr ''source_sequence'', PInt n), (KStr ''event'', p)]))"
    unfolding next_source_hash canonical_sha256_def canonical_json_strict c
    by (cases "source_event_payload ev"; simp; cases "canonical_value (projr (source_event_payload ev))"; simp)
qed

text \<open>The source chain commits to its events. Two runs whose chains end in the same hash have
  the same data epoch and the same events, up to the order of object keys, unless two of the
  texts hashed in the two runs have the same SHA-256 digest.\<close>

lemma source_chain_tamper_evident:
  assumes "source_chain_of digest ep evs = Inr t" "source_chain_of digest ep' evs' = Inr t"
  shows "\<exists>js js'. mapr event_json evs = Inr js \<and> mapr event_json evs' = Inr js' \<and>
    (ep = ep' \<and> map canon js = map canon js' \<or>
     (\<exists>x \<in> set (source_texts digest ep js). \<exists>y \<in> set (source_texts digest ep' js'). x \<noteq> y \<and> digest x = digest y))"
proof -
  obtain js where js: "mapr event_json evs = Inr js" "list_all writable js" "t = source_chain.tail digest ep js"
    using source_chain_tail[OF assms(1)] by blast
  obtain js' where js': "mapr event_json evs' = Inr js'" "list_all writable js'" "t = source_chain.tail digest ep' js'"
    using source_chain_tail[OF assms(2)] by blast
  have "ep = ep' \<and> map canon js = map canon js' \<or> source_chain.clash digest (source_texts digest ep js) (source_texts digest ep' js')"
    using source_chain.tail_commits[where c = ep and c' = ep' and es = js and es' = js' and digest = digest] js js' by (simp add: source_texts_chain)
  then show ?thesis using js(1) js'(1) by (auto simp: source_chain.clash_def)
qed

definition sample_event :: source_event where
  "sample_event = ToDict (PDict [(KStr ''price'', PStr ''100.5'')])"

lemma sample_chain:
  "source_chain_of (\<lambda>s. s) ''epoch'' [sample_event] =
   Inr (sha_text (\<lambda>s. s) (dumps (source_link (sha_text (\<lambda>s. s) (dumps (source_start ''epoch''))) 1 (JObj [(''price'', JStr ''100.5'')]))))"
  by (simp add: source_chain_of_def initial_source_hash next_source_hash sample_event_def source_event_payload_def key_string_def)

lemma source_chain_tamper_evident_example:
  "\<exists>js js'. mapr event_json [sample_event] = Inr js \<and> mapr event_json [sample_event] = Inr js' \<and> map canon js = map canon js'"
  using source_chain_tamper_evident[OF sample_chain sample_chain] by auto

end
