(* ===== verification/LedgerBook.thy ===== *)
theory LedgerBook
  imports Canonical "HOL-Library.Product_Lexorder"
begin

text \<open>
  The ledger of a replay account (\<open>backend/app/replay/broker/ledger.py\<close>): immutable entries,
  balanced transactions posted under a capacity, a hash chain over the entries, and the snapshot
  of a book and its validation on restore. Payloads are JSON objects, and amounts are canonical
  decimal strings summed in a context of 60 digits.
\<close>

section \<open>Entries\<close>

datatype ledger_account =
  Cash | InitialCapital | RealizedPnl | FeeExpense | AvailableMargin | ReservedMargin | ExternalCapital

datatype ledger_kind =
  KindInitialCapital | KindReserveMargin | KindReleaseMargin | KindRealizedPnl | KindFee | KindDeposit | KindWithdraw

fun account_value :: "ledger_account \<Rightarrow> string" where
  "account_value Cash = ''CASH''"
| "account_value InitialCapital = ''INITIAL_CAPITAL''"
| "account_value RealizedPnl = ''REALIZED_PNL''"
| "account_value FeeExpense = ''FEE_EXPENSE''"
| "account_value AvailableMargin = ''AVAILABLE_MARGIN''"
| "account_value ReservedMargin = ''RESERVED_MARGIN''"
| "account_value ExternalCapital = ''EXTERNAL_CAPITAL''"

fun kind_value :: "ledger_kind \<Rightarrow> string" where
  "kind_value KindInitialCapital = ''INITIAL_CAPITAL''"
| "kind_value KindReserveMargin = ''RESERVE_MARGIN''"
| "kind_value KindReleaseMargin = ''RELEASE_MARGIN''"
| "kind_value KindRealizedPnl = ''REALIZED_PNL''"
| "kind_value KindFee = ''FEE''"
| "kind_value KindDeposit = ''DEPOSIT''"
| "kind_value KindWithdraw = ''WITHDRAW''"

definition accounts :: "ledger_account list" where
  "accounts = [Cash, InitialCapital, RealizedPnl, FeeExpense, AvailableMargin, ReservedMargin, ExternalCapital]"

definition kinds :: "ledger_kind list" where
  "kinds = [KindInitialCapital, KindReserveMargin, KindReleaseMargin, KindRealizedPnl, KindFee, KindDeposit, KindWithdraw]"

text \<open>\<open>coerce_enum\<close>: the member whose value is the string.\<close>

definition coerce_enum :: "'a list \<Rightarrow> ('a \<Rightarrow> string) \<Rightarrow> json \<Rightarrow> 'a res" where
  "coerce_enum members value j =
     (case j of
        JStr s \<Rightarrow> (case find (\<lambda>m. value m = s) members of Some m \<Rightarrow> Inr m | None \<Rightarrow> Inl ValueError)
      | _ \<Rightarrow> Inl TypeError)"

record ledger_entry =
  entry_id :: string
  transaction_id :: string
  entry_account :: ledger_account
  entry_amount :: string
  entry_currency :: string
  entry_kind :: ledger_kind
  source_sequence :: int
  event_time_ms :: int
  order_id :: "string option"
  fill_id :: "string option"

text \<open>Field checks on JSON values: \<open>validate_identifier\<close>, \<open>canonical_decimal\<close>, \<open>validate_counter\<close>.\<close>

definition identifier_field :: "json \<Rightarrow> string res" where
  "identifier_field j = (case j of JStr s \<Rightarrow> validate_identifier s | _ \<Rightarrow> Inl TypeError)"

definition optional_identifier_field :: "json \<Rightarrow> string option res" where
  "optional_identifier_field j =
     (case j of JNull \<Rightarrow> Inr None | _ \<Rightarrow> bindr (identifier_field j) (\<lambda>s. Inr (Some s)))"

definition decimal_field :: "json \<Rightarrow> string res" where
  "decimal_field j = (case j of JStr s \<Rightarrow> canonical_decimal False False s | _ \<Rightarrow> Inl TypeError)"

definition counter_field :: "json \<Rightarrow> int res" where
  "counter_field j = (case j of JInt n \<Rightarrow> validate_counter n | _ \<Rightarrow> Inl TypeError)"

definition of_optional :: "string option \<Rightarrow> json" where
  "of_optional x = (case x of None \<Rightarrow> JNull | Some s \<Rightarrow> JStr s)"

text \<open>\<open>LedgerEntry.__post_init__\<close> on the constructor's arguments, by name.\<close>

definition make_entry :: "(string \<Rightarrow> json) \<Rightarrow> ledger_entry res" where
  "make_entry arg =
     bindr (identifier_field (arg ''entry_id'')) (\<lambda>eid.
     bindr (identifier_field (arg ''transaction_id'')) (\<lambda>tid.
     bindr (identifier_field (arg ''currency'')) (\<lambda>cur.
     bindr (optional_identifier_field (arg ''order_id'')) (\<lambda>oid.
     bindr (optional_identifier_field (arg ''fill_id'')) (\<lambda>fid.
     bindr (coerce_enum accounts account_value (arg ''account'')) (\<lambda>acc.
     bindr (coerce_enum kinds kind_value (arg ''kind'')) (\<lambda>knd.
     bindr (decimal_field (arg ''amount'')) (\<lambda>amt.
     bindr (counter_field (arg ''source_sequence'')) (\<lambda>sq.
     bindr (counter_field (arg ''event_time_ms'')) (\<lambda>tm.
       Inr \<lparr>entry_id = eid, transaction_id = tid, entry_account = acc, entry_amount = amt, entry_currency = cur,
            entry_kind = knd, source_sequence = sq, event_time_ms = tm, order_id = oid, fill_id = fid\<rparr>))))))))))"

definition entry_to_dict :: "ledger_entry \<Rightarrow> (string \<times> json) list" where
  "entry_to_dict e =
     [(''entry_id'', JStr (entry_id e)),
      (''transaction_id'', JStr (transaction_id e)),
      (''account'', JStr (account_value (entry_account e))),
      (''amount'', JStr (entry_amount e)),
      (''currency'', JStr (entry_currency e)),
      (''kind'', JStr (kind_value (entry_kind e))),
      (''source_sequence'', JInt (source_sequence e)),
      (''event_time_ms'', JInt (event_time_ms e)),
      (''order_id'', of_optional (order_id e)),
      (''fill_id'', of_optional (fill_id e))]"

definition exact_keys :: "(string \<times> json) list \<Rightarrow> string list \<Rightarrow> unit res" where
  "exact_keys payload expected = guardr (set (map fst payload) = set expected) ValueError"

definition entry_fields :: "string list" where
  "entry_fields = [''entry_id'', ''transaction_id'', ''account'', ''amount'', ''currency'', ''kind'',
     ''source_sequence'', ''event_time_ms'', ''order_id'', ''fill_id'']"

text \<open>
  \<open>LedgerEntry.from_dict\<close>. What is no object fails in \<open>set(payload)\<close>, in the comparison with the
  field names, or in \<open>cls(**payload)\<close>.
\<close>

definition is_container :: "json \<Rightarrow> bool" where
  "is_container j = (case j of JList _ \<Rightarrow> True | JObj _ \<Rightarrow> True | _ \<Rightarrow> False)"

definition entry_from_dict :: "json \<Rightarrow> ledger_entry res" where
  "entry_from_dict j =
     (case j of
        JObj payload \<Rightarrow> bindr (exact_keys payload entry_fields) (\<lambda>_. make_entry (dict_get payload))
      | JStr _ \<Rightarrow> Inl ValueError
      | JList xs \<Rightarrow>
          if list_ex is_container xs \<or> set xs = set (map JStr entry_fields) then Inl TypeError else Inl ValueError
      | _ \<Rightarrow> Inl TypeError)"

section \<open>The book\<close>

record ledger =
  initial_equity :: string
  ledger_currency :: string
  max_entries :: int
  entries :: "ledger_entry list"
  next_transaction :: int
  next_entry :: int
  tail_hash :: string

definition pad10 :: "int \<Rightarrow> string" where
  "pad10 n = (let s = dec_of_int n in replicate (10 - length s) (CHR ''0'') @ s)"

definition entry_name :: "int \<Rightarrow> string" where
  "entry_name n = ''led-'' @ pad10 n"

definition transaction_name :: "int \<Rightarrow> string" where
  "transaction_name n = ''txn-'' @ pad10 n"

definition LEDGER_CHAIN_SCHEMA_VERSION :: string where
  "LEDGER_CHAIN_SCHEMA_VERSION = ''replay-ledger-chain.v1''"

definition LEDGER_STATE_SCHEMA_VERSION :: string where
  "LEDGER_STATE_SCHEMA_VERSION = ''replay-ledger-state.v1''"

definition initial_material :: "string \<Rightarrow> string \<Rightarrow> int \<Rightarrow> json" where
  "initial_material equity cur maxe =
     JObj [(''schema_version'', JStr LEDGER_CHAIN_SCHEMA_VERSION), (''initial_equity'', JStr equity),
           (''currency'', JStr cur), (''max_entries'', JInt maxe)]"

definition link_material :: "string \<Rightarrow> int \<Rightarrow> ledger_entry \<Rightarrow> json" where
  "link_material previous ordinal e =
     JObj [(''schema_version'', JStr LEDGER_CHAIN_SCHEMA_VERSION), (''previous_hash'', JStr previous),
           (''ordinal'', JInt ordinal), (''entry'', JObj (entry_to_dict e))]"

definition initial_hash :: "digest_fun \<Rightarrow> ledger \<Rightarrow> string" where
  "initial_hash digest b = sha_json digest (initial_material (initial_equity b) (ledger_currency b) (max_entries b))"

text \<open>\<open>sum(..., Decimal(0))\<close> under \<open>context.prec = 60\<close>.\<close>

definition amounts_total :: "string list \<Rightarrow> dec" where
  "amounts_total amounts = dec_sum 60 (map dec_of amounts)"

definition posting_args ::
  "ledger \<Rightarrow> string \<Rightarrow> ledger_kind \<Rightarrow> int \<Rightarrow> int \<Rightarrow> string option \<Rightarrow> string option \<Rightarrow> ledger_account \<Rightarrow> string \<Rightarrow> string \<Rightarrow> json"
where
  "posting_args b tid knd sq tm oid fid acc amt =
     dict_get [(''entry_id'', JStr (entry_name (next_entry b))), (''transaction_id'', JStr tid),
       (''account'', JStr (account_value acc)), (''amount'', JStr amt), (''currency'', JStr (ledger_currency b)),
       (''kind'', JStr (kind_value knd)), (''source_sequence'', JInt sq), (''event_time_ms'', JInt tm),
       (''order_id'', of_optional oid), (''fill_id'', of_optional fid)]"

text \<open>
  The loop of \<open>post\<close>: every posting is made an entry, hashed into the chain and appended. An
  exception leaves the book as far as it got.
\<close>

fun post_entries ::
  "digest_fun \<Rightarrow> string \<Rightarrow> ledger_kind \<Rightarrow> int \<Rightarrow> int \<Rightarrow> string option \<Rightarrow> string option \<Rightarrow>
   (ledger_account \<times> string) list \<Rightarrow> ledger \<Rightarrow> ledger \<times> ledger_entry list res"
where
  "post_entries digest tid knd sq tm oid fid [] b = (b, Inr [])"
| "post_entries digest tid knd sq tm oid fid ((acc, amt) # ps) b =
     (case make_entry (posting_args b tid knd sq tm oid fid acc amt) of
        Inl x \<Rightarrow> (b, Inl x)
      | Inr e \<Rightarrow>
          let b' = b\<lparr>tail_hash := sha_json digest (link_material (tail_hash b) (next_entry b) e),
                     entries := entries b @ [e],
                     next_entry := next_entry b + 1\<rparr>
          in case post_entries digest tid knd sq tm oid fid ps b' of
               (b'', Inl x) \<Rightarrow> (b'', Inl x)
             | (b'', Inr es) \<Rightarrow> (b'', Inr (e # es)))"

definition normalize_postings :: "(ledger_account \<times> string) list \<Rightarrow> (ledger_account \<times> string) list res" where
  "normalize_postings postings = mapr (\<lambda>(acc, amt). bindr (canonical_decimal False False amt) (\<lambda>a. Inr (acc, a))) postings"

definition post_checks :: "ledger \<Rightarrow> (ledger_account \<times> string) list \<Rightarrow> unit res" where
  "post_checks b normalized =
     (if length normalized < 2 then Inl ValueError
      else if coeff (amounts_total (map snd normalized)) \<noteq> 0 then Inl ValueError
      else if int (length (entries b)) + int (length normalized) > max_entries b then Inl ScanLimitExceeded
      else Inr ())"

definition post ::
  "digest_fun \<Rightarrow> ledger_kind \<Rightarrow> int \<Rightarrow> int \<Rightarrow> (ledger_account \<times> string) list \<Rightarrow> string option \<Rightarrow> string option \<Rightarrow>
   ledger \<Rightarrow> ledger \<times> ledger_entry list res"
where
  "post digest knd sq tm postings oid fid b =
     (case normalize_postings postings of
        Inl x \<Rightarrow> (b, Inl x)
      | Inr normalized \<Rightarrow>
          (case post_checks b normalized of
             Inl x \<Rightarrow> (b, Inl x)
           | Inr _ \<Rightarrow>
               (case post_entries digest (transaction_name (next_transaction b)) knd sq tm oid fid normalized b of
                  (b', Inl x) \<Rightarrow> (b', Inl x)
                | (b', Inr es) \<Rightarrow> (b'\<lparr>next_transaction := next_transaction b' + 1\<rparr>, Inr es))))"

definition ledger_book :: "digest_fun \<Rightarrow> string \<Rightarrow> string \<Rightarrow> int \<Rightarrow> ledger res" where
  "ledger_book digest equity cur maxe =
     bindr (canonical_decimal True False equity) (\<lambda>eq.
     bindr (validate_identifier cur) (\<lambda>c.
     if maxe < 2 then Inl ValueError
     else let b0 = \<lparr>initial_equity = eq, ledger_currency = c, max_entries = maxe, entries = [],
                    next_transaction = 1, next_entry = 1, tail_hash = ''''\<rparr>;
              b1 = b0\<lparr>tail_hash := initial_hash digest b0\<rparr>
          in case post digest KindInitialCapital 0 0 [(Cash, eq), (InitialCapital, CHR ''-'' # eq)] None None b1 of
               (b2, Inl x) \<Rightarrow> Inl x
             | (b2, Inr _) \<Rightarrow> Inr b2))"

definition account_total :: "ledger \<Rightarrow> ledger_account \<Rightarrow> string" where
  "account_total b acc =
     decimal_to_string (amounts_total (map entry_amount (List.filter (\<lambda>e. entry_account e = acc) (entries b))))"

section \<open>Snapshot and restore\<close>

definition state_fields :: "string list" where
  "state_fields = [''schema_version'', ''initial_equity'', ''currency'', ''max_entries'', ''next_transaction'',
     ''next_entry'', ''tail_hash'', ''entries'']"

definition snapshot_state :: "ledger \<Rightarrow> (string \<times> json) list" where
  "snapshot_state b =
     [(''schema_version'', JStr LEDGER_STATE_SCHEMA_VERSION),
      (''initial_equity'', JStr (initial_equity b)),
      (''currency'', JStr (ledger_currency b)),
      (''max_entries'', JInt (max_entries b)),
      (''next_transaction'', JInt (next_transaction b)),
      (''next_entry'', JInt (next_entry b)),
      (''tail_hash'', JStr (tail_hash b)),
      (''entries'', JList (map (\<lambda>e. JObj (entry_to_dict e)) (entries b)))]"

definition snapshot :: "digest_fun \<Rightarrow> ledger \<Rightarrow> (string \<times> json) list" where
  "snapshot digest b = snapshot_state b @ [(''state_hash'', JStr (sha_json digest (JObj (snapshot_state b))))]"

text \<open>\<open>itertools.groupby\<close>: runs of consecutive items with one key.\<close>

function group_runs :: "('a \<Rightarrow> 'k) \<Rightarrow> 'a list \<Rightarrow> 'a list list" where
  "group_runs f [] = []"
| "group_runs f (x # xs) =
     (x # takeWhile (\<lambda>y. f y = f x) xs) # group_runs f (dropWhile (\<lambda>y. f y = f x) xs)"
  by pat_completeness auto

termination
  by (relation "measure (\<lambda>(f, xs). length xs)") (auto simp: le_imp_less_Suc length_dropWhile_le)

definition run_balanced :: "ledger_entry list \<Rightarrow> bool" where
  "run_balanced run = (2 \<le> length run \<and> coeff (amounts_total (map entry_amount run)) = 0)"

definition assert_entries_balanced :: "ledger_entry list \<Rightarrow> unit res" where
  "assert_entries_balanced es =
     guardr (list_all run_balanced (group_runs transaction_id (sort_key (\<lambda>e. (transaction_id e, entry_id e)) es)))
       AssertionError"

text \<open>The validation loop of \<open>restore\<close>, from an ordinal on; it returns the chain hash and the last transaction.\<close>

fun check_entries :: "digest_fun \<Rightarrow> string \<Rightarrow> string \<Rightarrow> int \<Rightarrow> int \<Rightarrow> string option \<Rightarrow> ledger_entry list \<Rightarrow> (string \<times> int) res" where
  "check_entries digest cur h ordinal txn active_id [] = Inr (h, txn)"
| "check_entries digest cur h ordinal txn active_id (e # es) =
     (if entry_id e \<noteq> entry_name ordinal then Inl ValueError
      else if entry_currency e \<noteq> cur then Inl ValueError
      else let fresh = Some (transaction_id e) \<noteq> active_id; txn' = (if fresh then txn + 1 else txn) in
        if fresh \<and> transaction_id e \<noteq> transaction_name txn' then Inl ValueError
        else check_entries digest cur (sha_json digest (link_material h ordinal e)) (ordinal + 1) txn'
               (Some (transaction_id e)) es)"

definition entry_list :: "json \<Rightarrow> ledger_entry list res" where
  "entry_list j = (case j of JList xs \<Rightarrow> mapr entry_from_dict xs | _ \<Rightarrow> Inl TypeError)"

definition restore :: "digest_fun \<Rightarrow> ledger \<Rightarrow> (string \<times> json) list \<Rightarrow> ledger res" where
  "restore digest b payload =
     (let state = List.filter (\<lambda>(k, _). k \<noteq> ''state_hash'') payload in
      if \<not> writable (JObj state) then Inl TypeError
      else if dict_get payload ''state_hash'' \<noteq> JStr (sha_json digest (JObj state)) then Inl DatasetMismatch
      else bindr (exact_keys state state_fields) (\<lambda>_.
        if dict_get state ''schema_version'' \<noteq> JStr LEDGER_STATE_SCHEMA_VERSION
           \<or> dict_get state ''initial_equity'' \<noteq> JStr (initial_equity b)
           \<or> dict_get state ''currency'' \<noteq> JStr (ledger_currency b)
           \<or> dict_get state ''max_entries'' \<noteq> JInt (max_entries b) then Inl DatasetMismatch
        else bindr (entry_list (dict_get state ''entries'')) (\<lambda>es.
          if int (length es) > max_entries b then Inl ValueError
          else bindr (assert_entries_balanced es) (\<lambda>_.
            bindr (check_entries digest (ledger_currency b) (initial_hash digest b) 1 0 None es) (\<lambda>(h, txn).
              if JStr h \<noteq> dict_get state ''tail_hash'' then Inl DatasetMismatch
              else bindr (counter_field (dict_get state ''next_entry'')) (\<lambda>ne.
                bindr (counter_field (dict_get state ''next_transaction'')) (\<lambda>nt.
                  if ne \<noteq> int (length es) + 1 then Inl ValueError
                  else if nt \<noteq> txn + 1 then Inl ValueError
                  else Inr (b\<lparr>entries := es, next_entry := ne, next_transaction := nt, tail_hash := h\<rparr>))))))))"


section \<open>Entries and their dictionaries\<close>

lemma canon_link: "canon (link_material h n e) =
  JObj [(''entry'', canon (JObj (entry_to_dict e))), (''ordinal'', JInt n), (''previous_hash'', JStr h),
        (''schema_version'', JStr LEDGER_CHAIN_SCHEMA_VERSION)]"
  by (simp add: link_material_def)

lemma canon_initial: "canon (initial_material q c m) =
  JObj [(''currency'', JStr c), (''initial_equity'', JStr q), (''max_entries'', JInt m), (''schema_version'', JStr LEDGER_CHAIN_SCHEMA_VERSION)]"
  by (simp add: initial_material_def)

lemma of_optional_inj [simp]: "of_optional x = of_optional y \<longleftrightarrow> x = y"
  by (auto simp: of_optional_def split: option.splits)

lemma of_optional_plain [simp]: "canon (of_optional x) = of_optional x" "writable (of_optional x)"
  by (simp_all add: of_optional_def split: option.splits)

lemma account_value_inj [simp]: "account_value a = account_value b \<longleftrightarrow> a = b"
  by (cases a; cases b; simp)

lemma kind_value_inj [simp]: "kind_value a = kind_value b \<longleftrightarrow> a = b"
  by (cases a; cases b; simp)

lemma canon_entry: "canon (JObj (entry_to_dict e)) =
  JObj [(''account'', JStr (account_value (entry_account e))), (''amount'', JStr (entry_amount e)),
        (''currency'', JStr (entry_currency e)), (''entry_id'', JStr (entry_id e)), (''event_time_ms'', JInt (event_time_ms e)),
        (''fill_id'', of_optional (fill_id e)), (''kind'', JStr (kind_value (entry_kind e))), (''order_id'', of_optional (order_id e)),
        (''source_sequence'', JInt (source_sequence e)), (''transaction_id'', JStr (transaction_id e))]"
  by (simp add: entry_to_dict_def)

lemma canon_entry_inj: "canon (JObj (entry_to_dict e)) = canon (JObj (entry_to_dict e')) \<longleftrightarrow> e = e'"
  unfolding canon_entry by (cases e; cases e') auto

lemma writable_materials [simp]:
  "writable (JObj (entry_to_dict e))" "writable (link_material h n e)" "writable (initial_material q c m)"
  by (simp_all add: entry_to_dict_def link_material_def initial_material_def)

text \<open>The ledger's chain is a hash chain; it starts at the configuration of the book.\<close>

interpretation ledger_chain:
  hash_chain "sha_text digest" "\<lambda>(q, c, m). dumps (initial_material q c m)" "\<lambda>h i e. dumps (link_material h (int i) e)"
    "\<lambda>c. c" "\<lambda>e. e" "\<lambda>_. True" "\<lambda>_. True" for digest
proof
  show "c = c'" if "(case c of (q, c, m) \<Rightarrow> dumps (initial_material q c m)) = (case c' of (q, c, m) \<Rightarrow> dumps (initial_material q c m))"
    for c c' :: "string \<times> string \<times> int"
    using that by (cases c; cases c') (simp add: dumps_inj canon_initial)
  show "h = h' \<and> i = i' \<and> e = e'" if "dumps (link_material h (int i) e) = dumps (link_material h' (int i') e')" for e e' h h' i i'
    using that by (simp add: dumps_inj canon_link canon_entry_inj del: canon.simps(2))
  show "(case c of (q, c, m) \<Rightarrow> dumps (initial_material q c m)) \<noteq> dumps (link_material h (int i) e)"
    for c :: "string \<times> string \<times> int" and h i e
    by (cases c) (simp add: dumps_inj canon_link canon_initial)
qed

section \<open>What an entry is\<close>

definition entry_valid :: "ledger_entry \<Rightarrow> bool" where
  "entry_valid e \<longleftrightarrow> entry_from_dict (JObj (entry_to_dict e)) = Inr e"

lemma dict_get_entry [simp]:
  "dict_get (entry_to_dict e) ''entry_id'' = JStr (entry_id e)"
  "dict_get (entry_to_dict e) ''transaction_id'' = JStr (transaction_id e)"
  "dict_get (entry_to_dict e) ''account'' = JStr (account_value (entry_account e))"
  "dict_get (entry_to_dict e) ''amount'' = JStr (entry_amount e)"
  "dict_get (entry_to_dict e) ''currency'' = JStr (entry_currency e)"
  "dict_get (entry_to_dict e) ''kind'' = JStr (kind_value (entry_kind e))"
  "dict_get (entry_to_dict e) ''source_sequence'' = JInt (source_sequence e)"
  "dict_get (entry_to_dict e) ''event_time_ms'' = JInt (event_time_ms e)"
  "dict_get (entry_to_dict e) ''order_id'' = of_optional (order_id e)"
  "dict_get (entry_to_dict e) ''fill_id'' = of_optional (fill_id e)"
  by (simp_all add: entry_to_dict_def)

lemma coerce_account [simp]: "coerce_enum accounts account_value (JStr (account_value a)) = Inr a"
  by (cases a) (simp_all add: coerce_enum_def accounts_def)

lemma coerce_kind [simp]: "coerce_enum kinds kind_value (JStr (kind_value a)) = Inr a"
  by (cases a) (simp_all add: coerce_enum_def kinds_def)

text \<open>What the checks of the constructor return passes them again.\<close>

lemma identifier_again: "identifier_field j = Inr s \<Longrightarrow> identifier_field (JStr s) = Inr s"
  by (auto simp: identifier_field_def validate_identifier_def split: json.splits if_splits)

lemma optional_again: "optional_identifier_field j = Inr s \<Longrightarrow> optional_identifier_field (of_optional s) = Inr s"
  using identifier_again[of j]
  by (auto simp: optional_identifier_field_def of_optional_def res_simps split: json.splits)

lemma canonical_decimal_again: "canonical_decimal p n s = Inr t \<Longrightarrow> canonical_decimal p n t = Inr t \<and> canonical_decimal False False t = Inr t"
proof -
  assume a: "canonical_decimal p n s = Inr t"
  then have s: "normalize_decimal_string s = Inr t" by (auto simp: canonical_decimal_def res_simps split: option.splits if_splits)
  then have "normalize_decimal_string t = Inr t" by (auto simp: normalize_decimal_string_def[of s] split: option.splits)
  with a s show ?thesis by (auto simp: canonical_decimal_def split: option.splits if_splits)
qed

lemma decimal_again: "decimal_field j = Inr s \<Longrightarrow> decimal_field (JStr s) = Inr s"
  using canonical_decimal_again by (auto simp: decimal_field_def split: json.splits)

lemma counter_again: "counter_field j = Inr n \<Longrightarrow> counter_field (JInt n) = Inr n"
  by (auto simp: counter_field_def validate_counter_def split: json.splits if_splits)

lemma make_entry_valid: "make_entry arg = Inr e \<Longrightarrow> entry_valid e"
proof -
  assume "make_entry arg = Inr e"
  then have "make_entry (dict_get (entry_to_dict e)) = Inr e"
    by (auto simp: make_entry_def res_simps identifier_again optional_again decimal_again counter_again)
  moreover have "exact_keys (entry_to_dict e) entry_fields = Inr ()"
    by (simp add: exact_keys_def entry_to_dict_def entry_fields_def)
  ultimately show ?thesis by (simp add: entry_valid_def entry_from_dict_def)
qed

lemma from_dict_valid: "entry_from_dict j = Inr e \<Longrightarrow> entry_valid e"
  by (auto simp: entry_from_dict_def res_simps make_entry_valid split: json.splits if_splits)


section \<open>Padded numbers\<close>

text \<open>Names padded to ten digits order as their numbers do, as long as ten digits are enough.\<close>

lemma pad10_nat: "pad10 (int n) = replicate (10 - length (dec_of_nat n)) (CHR ''0'') @ dec_of_nat n"
  by (simp add: pad10_def dec_of_int_def Let_def)

lemma pad10_value: "nat_of_dec (pad10 (int n)) = n"
  by (simp add: pad10_nat nat_of_dec_leading)

lemma pad10_digits: "list_all is_digit (pad10 (int n))"
  using dec_of_nat_digits[of n] by (auto simp: pad10_nat list_all_iff)

lemma pad10_length: "n < 10 ^ 10 \<Longrightarrow> length (pad10 (int n)) = 10"
proof -
  assume n: "n < 10 ^ 10"
  have "length (dec_of_nat n) \<le> 10"
  proof (cases "n = 0")
    case False
    then have "(10 :: nat) ^ (length (dec_of_nat n) - 1) < 10 ^ 10" using dec_of_nat_bounds[of n] n by linarith
    then have "length (dec_of_nat n) - 1 < 10" by (rule power_less_imp_less_exp[rotated]) simp
    then show ?thesis by linarith
  qed (simp add: dec_of_nat.simps)
  then show ?thesis by (simp add: pad10_nat)
qed

lemma pad10_inj: "pad10 (int m) = pad10 (int n) \<longleftrightarrow> m = n"
  by (metis pad10_value)

lemma nat_of_dec_Cons: "nat_of_dec (c # s) = digit_value c * 10 ^ length s + nat_of_dec s"
proof (induction s rule: rev_induct)
  case (snoc x s)
  have "nat_of_dec (c # s @ [x]) = 10 * nat_of_dec (c # s) + digit_value x" using nat_of_dec_snoc[of "c # s" x] by simp
  then show ?case using snoc by (simp add: nat_of_dec_snoc algebra_simps)
qed (simp add: nat_of_dec_def)

lemma digit_bounds: "is_digit c \<Longrightarrow> 48 \<le> (of_char c :: nat) \<and> of_char c \<le> (57 :: nat)"
  by (simp add: is_digit_def Let_def)

lemma digit_value_nine: "is_digit c \<Longrightarrow> digit_value c \<le> 9"
  using digit_bounds[of c] unfolding digit_value_def by linarith

lemma digit_value_inj:
  assumes "is_digit c" "is_digit d" "digit_value c = digit_value d"
  shows "c = d"
proof -
  have "(of_char c :: nat) = of_char d" using assms digit_bounds[of c] digit_bounds[of d] unfolding digit_value_def by linarith
  then show ?thesis by simp
qed

lemma nat_of_dec_less: "list_all is_digit s \<Longrightarrow> nat_of_dec s < 10 ^ length s"
proof (induction s)
  case (Cons c s)
  then have "digit_value c \<le> 9" "nat_of_dec s < 10 ^ length s" by (simp_all add: digit_value_nine)
  then have "digit_value c * 10 ^ length s \<le> 9 * 10 ^ length s" by (intro mult_le_mono1)
  then have "digit_value c * 10 ^ length s + nat_of_dec s < 9 * 10 ^ length s + 10 ^ length s"
    using \<open>nat_of_dec s < _\<close> by linarith
  then show ?case by (simp add: nat_of_dec_Cons)
qed (simp add: nat_of_dec_def)

lemma digits_less:
  assumes "length s = length t" "list_all is_digit s" "list_all is_digit t" "nat_of_dec s < nat_of_dec t"
  shows "s < t"
  using assms
proof (induction s t rule: list_induct2)
  case (Cons c s d t)
  have b: "nat_of_dec s < 10 ^ length t" "nat_of_dec t < 10 ^ length t" using Cons nat_of_dec_less[of s] nat_of_dec_less[of t] by simp_all
  have dig: "is_digit c" "is_digit d" using Cons.prems by simp_all
  consider "digit_value c < digit_value d" | "digit_value c = digit_value d" | "digit_value d < digit_value c" by linarith
  then show ?case
  proof cases
    case 1
    then have "(of_char c :: nat) < of_char d" unfolding digit_value_def by linarith
    then have "c < d" by (simp add: less_char_def)
    then show ?thesis by simp
  next
    case 2
    then have "c = d" using dig by (intro digit_value_inj)
    then show ?thesis using Cons 2 by (simp add: nat_of_dec_Cons)
  next
    case 3
    then have "digit_value d * 10 ^ length t + 10 ^ length t \<le> digit_value c * 10 ^ length t"
      by (metis Suc_leI add.commute mult_Suc mult_le_mono1)
    then show ?thesis using Cons.prems Cons.hyps b by (simp add: nat_of_dec_Cons)
  qed
qed (simp add: nat_of_dec_def)

lemma pad10_mono: "m < n \<Longrightarrow> n < 10 ^ 10 \<Longrightarrow> pad10 (int m) < pad10 (int n)"
  by (intro digits_less pad10_digits) (simp_all add: pad10_length pad10_value del: One_nat_def)

lemma name_mono:
  assumes "m < n" "n < 10 ^ 10"
  shows "entry_name (int m) < entry_name (int n)" "transaction_name (int m) < transaction_name (int n)"
  using pad10_mono[OF assms] by (simp_all add: entry_name_def transaction_name_def)

lemma transaction_name_inj [simp]: "transaction_name (int m) = transaction_name (int n) \<longleftrightarrow> m = n"
  by (simp add: transaction_name_def pad10_inj)

section \<open>Transactions as runs\<close>

lemma concat_group_runs [simp]: "concat (group_runs f xs) = xs"
  by (induction f xs rule: group_runs.induct) simp_all

text \<open>Runs numbered on from \<open>k\<close>, and entries numbered on from \<open>i\<close> in the book's currency.\<close>

fun numbered :: "nat \<Rightarrow> ledger_entry list list \<Rightarrow> bool" where
  "numbered k [] = True"
| "numbered k (r # rs) = (r \<noteq> [] \<and> list_all (\<lambda>e. transaction_id e = transaction_name (int (Suc k))) r \<and> numbered (Suc k) rs)"

fun ids_ok :: "string \<Rightarrow> nat \<Rightarrow> ledger_entry list \<Rightarrow> bool" where
  "ids_ok cur i [] = True"
| "ids_ok cur i (e # es) = (entry_id e = entry_name (int i) \<and> entry_currency e = cur \<and> ids_ok cur (Suc i) es)"

lemma numbered_append: "numbered k (rs @ ss) \<longleftrightarrow> numbered k rs \<and> numbered (k + length rs) ss"
  by (induction rs arbitrary: k) auto

lemma ids_ok_append: "ids_ok cur i (es @ fs) \<longleftrightarrow> ids_ok cur i es \<and> ids_ok cur (i + length es) fs"
  by (induction es arbitrary: i) auto

lemma numbered_in:
  assumes "numbered k rs" "e \<in> set (concat rs)"
  shows "\<exists>t. k < t \<and> t \<le> k + length rs \<and> transaction_id e = transaction_name (int t)"
  using assms
proof (induction rs arbitrary: k)
  case (Cons r rs)
  show ?case
  proof (cases "e \<in> set r")
    case True
    then show ?thesis using Cons.prems by (intro exI[of _ "Suc k"]) (auto simp: list_all_iff)
  next
    case False
    then show ?thesis using Cons.IH[of "Suc k"] Cons.prems by fastforce
  qed
qed simp

lemma while_split:
  "(\<And>x. x \<in> set es \<Longrightarrow> P x) \<Longrightarrow> ys = [] \<or> \<not> P (hd ys) \<Longrightarrow> takeWhile P (es @ ys) = es \<and> dropWhile P (es @ ys) = ys"
  by (cases ys) (auto simp: takeWhile_append2 dropWhile_append2)

lemma numbered_groups: "numbered k rs \<Longrightarrow> group_runs transaction_id (concat rs) = rs"
proof (induction rs arbitrary: k)
  case (Cons r rs)
  obtain e es where r: "r = e # es" using Cons.prems by (cases r) auto
  have e: "transaction_id e = transaction_name (int (Suc k))" "\<forall>x \<in> set es. transaction_id x = transaction_name (int (Suc k))"
    using Cons.prems r by (auto simp: list_all_iff)
  have rest: "transaction_id x \<noteq> transaction_name (int (Suc k))" if "x \<in> set (concat rs)" for x
    using numbered_in[of "Suc k" rs x] that Cons.prems by (auto simp del: of_nat_Suc)
  have hd: "concat rs = [] \<or> transaction_id (hd (concat rs)) \<noteq> transaction_id e" using rest[OF hd_in_set] e by auto
  let ?P = "\<lambda>y. transaction_id y = transaction_id e"
  have "takeWhile ?P (es @ concat rs) = es" "dropWhile ?P (es @ concat rs) = concat rs"
    using while_split[of es ?P "concat rs"] e hd by simp_all
  then show ?case using Cons.IH[of "Suc k"] Cons.prems r by simp
qed simp


text \<open>Entries of numbered runs are in the order \<open>restore\<close> sorts them by.\<close>

abbreviation entry_order :: "ledger_entry \<Rightarrow> string \<times> string" where
  "entry_order e \<equiv> (transaction_id e, entry_id e)"

lemma ids_ok_in:
  assumes "ids_ok cur i es" "e \<in> set es"
  shows "\<exists>n. i \<le> n \<and> n < i + length es \<and> entry_id e = entry_name (int n)"
  using assms
proof (induction es arbitrary: i)
  case (Cons x es)
  show ?case
  proof (cases "e = x")
    case True
    then show ?thesis using Cons.prems by (intro exI[of _ i]) simp
  next
    case False
    then obtain n where "Suc i \<le> n" "n < Suc i + length es" "entry_id e = entry_name (int n)"
      using Cons.IH[of "Suc i"] Cons.prems by auto
    then show ?thesis by (intro exI[of _ n]) simp
  qed
qed simp

lemma ids_sorted:
  "ids_ok cur i es \<Longrightarrow> i + length es \<le> 10 ^ 10 \<Longrightarrow> sorted (map entry_id es)"
proof (induction es arbitrary: i)
  case (Cons e es)
  have "entry_id e \<le> entry_id x" if x: "x \<in> set es" for x
  proof -
    obtain n where "Suc i \<le> n" "n < Suc i + length es" "entry_id x = entry_name (int n)"
      using ids_ok_in[of cur "Suc i" es x] Cons.prems x by auto
    then show ?thesis using Cons.prems name_mono(1)[of i n] by (simp add: less_imp_le)
  qed
  then show ?case using Cons.IH[of "Suc i"] Cons.prems by simp
qed simp

lemma runs_sorted:
  assumes "numbered k rs" "ids_ok cur i (concat rs)" "i + length (concat rs) \<le> 10 ^ 10" "k + length rs < 10 ^ 10"
  shows "sorted (map entry_order (concat rs))"
  using assms
proof (induction rs arbitrary: k i)
  case (Cons r rs)
  have tid: "transaction_id e = transaction_name (int (Suc k))" if "e \<in> set r" for e
    using Cons.prems(1) that by (simp add: list_all_iff)
  have ids: "ids_ok cur i r" "ids_ok cur (i + length r) (concat rs)" using Cons.prems(2) by (simp_all add: ids_ok_append)
  have "sorted_wrt (\<lambda>x y. entry_id x \<le> entry_id y) r" using ids_sorted[OF ids(1)] Cons.prems(3) by (simp add: sorted_map)
  then have "sorted_wrt (\<lambda>x y. entry_order x \<le> entry_order y) r"
    by (rule sorted_wrt_mono_rel[rotated]) (simp add: tid less_eq_prod_def)
  then have r: "sorted (map entry_order r)" by (simp only: sorted_map)
  have rest: "sorted (map entry_order (concat rs))"
    using Cons.IH[of "Suc k" "i + length r"] Cons.prems ids(2) by simp
  have "entry_order e \<le> entry_order f" if ef: "e \<in> set r" "f \<in> set (concat rs)" for e f
  proof -
    obtain t where "Suc k < t" "t \<le> Suc k + length rs" "transaction_id f = transaction_name (int t)"
      using numbered_in[of "Suc k" rs f] ef(2) Cons.prems(1) by auto
    then have "transaction_id e < transaction_id f"
      using tid[OF ef(1)] name_mono(2)[of "Suc k" t] Cons.prems(4) by simp
    then show ?thesis by (simp add: less_eq_prod_def)
  qed
  then show ?case using r rest by (auto simp: sorted_append)
qed simp


text \<open>What the two checks of \<open>restore\<close> accept.\<close>

lemma numbered_length: "numbered k rs \<Longrightarrow> length rs \<le> length (concat rs)"
proof (induction rs arbitrary: k)
  case (Cons r rs)
  have "0 < length r" "length rs \<le> length (concat rs)" using Cons.prems Cons.IH[of "Suc k"] by simp_all
  then have "Suc (length rs) \<le> length r + length (concat rs)" by linarith
  then show ?case by simp
qed simp

lemma balanced_runs:
  assumes "numbered 0 rs" "ids_ok cur 1 (concat rs)" "length (concat rs) < 10 ^ 10"
  shows "assert_entries_balanced (concat rs) = Inr () \<longleftrightarrow> list_all run_balanced rs"
proof -
  have "sorted (map entry_order (concat rs))"
    using assms numbered_length[OF assms(1)] by (intro runs_sorted[of 0 _ cur 1]) simp_all
  then show ?thesis by (simp add: assert_entries_balanced_def sort_key_id_if_sorted numbered_groups[OF assms(1)])
qed

fun numbering :: "int \<Rightarrow> string option \<Rightarrow> string list \<Rightarrow> int option" where
  "numbering t act [] = Some t"
| "numbering t act (x # xs) =
     (if Some x = act then numbering t act xs
      else if x = transaction_name (t + 1) then numbering (t + 1) (Some x) xs else None)"

lemma check_entries_iff:
  "check_entries digest cur h (int i) t act es = Inr (h', t') \<longleftrightarrow>
     ids_ok cur i es \<and> numbering t act (map transaction_id es) = Some t' \<and> h' = ledger_chain.tail_from digest h i es"
proof (induction es arbitrary: h i t act)
  case (Cons e es)
  note IH = Cons.IH[of _ "Suc i", unfolded of_nat_Suc, unfolded add.commute[of 1]]
  consider "entry_id e \<noteq> entry_name (int i) \<or> entry_currency e \<noteq> cur"
    | "entry_id e = entry_name (int i)" "entry_currency e = cur" "Some (transaction_id e) = act"
    | "entry_id e = entry_name (int i)" "entry_currency e = cur" "Some (transaction_id e) \<noteq> act" by blast
  then show ?case
  proof cases
    case 1
    then show ?thesis by auto
  next
    case 2
    then show ?thesis using IH by (simp add: Let_def sha_json_def)
  next
    case 3
    then show ?thesis using IH by (simp add: Let_def sha_json_def)
  qed
qed auto

definition active_name :: "nat \<Rightarrow> string option" where
  "active_name k = (if k = 0 then None else Some (transaction_name (int k)))"

lemma numbering_run:
  "list_all (\<lambda>e. transaction_id e = transaction_name (int (Suc k))) r \<Longrightarrow>
   numbering (int (Suc k)) (active_name (Suc k)) (map transaction_id r @ ts) = numbering (int (Suc k)) (active_name (Suc k)) ts"
  by (induction r) (simp_all add: active_name_def)

lemma numbering_numbered:
  "numbered k rs \<Longrightarrow> numbering (int k) (active_name k) (map transaction_id (concat rs)) = Some (int (k + length rs))"
proof (induction rs arbitrary: k)
  case (Cons r rs)
  obtain e es where r: "r = e # es" using Cons.prems by (cases r) auto
  have "transaction_id e = transaction_name (int (Suc k))" using Cons.prems r by simp
  then have "Some (transaction_id e) \<noteq> active_name k" "transaction_id e = transaction_name (int k + 1)"
      "Some (transaction_id e) = active_name (Suc k)"
    by (auto simp: active_name_def add.commute simp del: of_nat_Suc) (simp_all add: add.commute)
  then have "numbering (int k) (active_name k) (map transaction_id (concat (r # rs))) =
      numbering (int (Suc k)) (active_name (Suc k)) (map transaction_id es @ map transaction_id (concat rs))"
    using r by (simp add: add.commute)
  also have "\<dots> = numbering (int (Suc k)) (active_name (Suc k)) (map transaction_id (concat rs))"
    by (rule numbering_run) (use Cons.prems r in simp)
  also have "\<dots> = Some (int (Suc k + length rs))" by (rule Cons.IH) (use Cons.prems in simp)
  finally show ?case by simp
qed simp

lemma numbering_sound:
  assumes "numbering (int k) (active_name k) (map transaction_id es) = Some t"
  shows "\<exists>r rs. es = r @ concat rs \<and> list_all (\<lambda>e. Some (transaction_id e) = active_name k) r \<and> numbered k rs \<and> t = int (k + length rs)"
  using assms
proof (induction es arbitrary: k)
  case Nil
  then show ?case by (intro exI[of _ "[]"]) simp
next
  case (Cons e es)
  show ?case
  proof (cases "Some (transaction_id e) = active_name k")
    case True
    then obtain r rs where "es = r @ concat rs" "list_all (\<lambda>e. Some (transaction_id e) = active_name k) r" "numbered k rs" "t = int (k + length rs)"
      using Cons.IH[of k] Cons.prems by auto
    then show ?thesis using True by (intro exI[of _ "e # r"] exI[of _ rs]) simp
  next
    case False
    then have e: "transaction_id e = transaction_name (int k + 1)" using Cons.prems by (auto split: if_splits)
    have s: "int k + 1 = int (Suc k)" "Some (transaction_id e) = active_name (Suc k)" by (simp_all add: e active_name_def add.commute)
    have "numbering (int (Suc k)) (active_name (Suc k)) (map transaction_id es) = Some t"
      using Cons.prems False e by (simp add: s(2)[symmetric]) (simp add: add.commute)
    then obtain r rs where r: "es = r @ concat rs" "list_all (\<lambda>e. Some (transaction_id e) = active_name (Suc k)) r"
      "numbered (Suc k) rs" "t = int (Suc k + length rs)" using Cons.IH[of "Suc k"] by blast
    have "numbered k ((e # r) # rs)" using r e s by (auto simp: active_name_def list_all_iff add.commute)
    then show ?thesis using r by (intro exI[of _ "[]"] exI[of _ "(e # r) # rs"]) simp
  qed
qed


section \<open>Posting is atomic\<close>

lemma alnum_digit: "is_digit c \<Longrightarrow> is_alnum c"
  by (simp add: is_digit_def is_alnum_def Let_def)

lemma name_valid:
  assumes "n < 10 ^ 10"
  shows "validate_identifier (entry_name (int n)) = Inr (entry_name (int n))"
    "validate_identifier (transaction_name (int n)) = Inr (transaction_name (int n))"
proof -
  have d: "\<forall>c \<in> set (pad10 (int n)). is_alnum c" using pad10_digits[of n] by (auto simp: list_all_iff alnum_digit)
  have a: "is_alnum (CHR ''l'')" "is_alnum (CHR ''e'')" "is_alnum (CHR ''d'')" "is_alnum (CHR ''t'')" "is_alnum (CHR ''x'')" "is_alnum (CHR ''n'')"
    by (simp_all add: is_alnum_def)
  show "validate_identifier (entry_name (int n)) = Inr (entry_name (int n))"
    "validate_identifier (transaction_name (int n)) = Inr (transaction_name (int n))"
    using d a pad10_length[OF assms] by (auto simp: validate_identifier_def entry_name_def transaction_name_def list_all_iff)
qed

definition posting_entry ::
  "ledger \<Rightarrow> string \<Rightarrow> ledger_kind \<Rightarrow> int \<Rightarrow> int \<Rightarrow> string option \<Rightarrow> string option \<Rightarrow> ledger_account \<Rightarrow> string \<Rightarrow> ledger_entry"
where
  "posting_entry b tid knd sq tm oid fid acc amt =
     \<lparr>entry_id = entry_name (next_entry b), transaction_id = tid, entry_account = acc, entry_amount = amt,
      entry_currency = ledger_currency b, entry_kind = knd, source_sequence = sq, event_time_ms = tm, order_id = oid, fill_id = fid\<rparr>"

text \<open>The arguments all entries of one transaction share.\<close>

definition args_ok :: "string \<Rightarrow> string \<Rightarrow> int \<Rightarrow> int \<Rightarrow> string option \<Rightarrow> string option \<Rightarrow> bool" where
  "args_ok cur tid sq tm oid fid \<longleftrightarrow>
     validate_identifier cur = Inr cur \<and> validate_identifier tid = Inr tid \<and>
     validate_counter sq = Inr sq \<and> validate_counter tm = Inr tm \<and>
     (\<forall>s \<in> set_option oid \<union> set_option fid. validate_identifier s = Inr s)"

lemma validate_cases:
  "validate_identifier s = Inr s \<or> validate_identifier s = Inl ValueError"
  "validate_counter n = Inr n \<or> validate_counter n = Inl ValueError"
  by (simp_all add: validate_identifier_def validate_counter_def)

lemma optional_field_cases:
  "optional_identifier_field (of_optional x) =
     (if \<forall>s \<in> set_option x. validate_identifier s = Inr s then Inr x else Inl ValueError)"
  using validate_cases(1)[of "the x"]
  by (auto simp: optional_identifier_field_def of_optional_def identifier_field_def split: option.splits)

lemma make_posting:
  assumes "validate_identifier (entry_name (next_entry b)) = Inr (entry_name (next_entry b))"
    "canonical_decimal False False amt = Inr amt"
  shows "args_ok (ledger_currency b) tid sq tm oid fid \<Longrightarrow>
      make_entry (posting_args b tid knd sq tm oid fid acc amt) = Inr (posting_entry b tid knd sq tm oid fid acc amt)"
    "\<not> args_ok (ledger_currency b) tid sq tm oid fid \<Longrightarrow>
      make_entry (posting_args b tid knd sq tm oid fid acc amt) = Inl ValueError"
  using assms validate_cases(1)[of "ledger_currency b"] validate_cases(1)[of tid] validate_cases(2)[of sq] validate_cases(2)[of tm]
  by (auto simp: make_entry_def posting_args_def posting_entry_def args_ok_def identifier_field_def optional_field_cases
      decimal_field_def counter_field_def)

definition chain_extend :: "digest_fun \<Rightarrow> ledger_entry list \<Rightarrow> ledger \<Rightarrow> ledger" where
  "chain_extend digest es b =
     b\<lparr>tail_hash := ledger_chain.tail_from digest (tail_hash b) (nat (next_entry b)) es,
       entries := entries b @ es,
       next_entry := next_entry b + int (length es)\<rparr>"

fun posting_entries ::
  "string \<Rightarrow> ledger_kind \<Rightarrow> int \<Rightarrow> int \<Rightarrow> string option \<Rightarrow> string option \<Rightarrow> ledger \<Rightarrow> int \<Rightarrow> (ledger_account \<times> string) list \<Rightarrow> ledger_entry list"
where
  "posting_entries tid knd sq tm oid fid b n [] = []"
| "posting_entries tid knd sq tm oid fid b n ((acc, amt) # ps) =
     posting_entry (b\<lparr>next_entry := n\<rparr>) tid knd sq tm oid fid acc amt # posting_entries tid knd sq tm oid fid b (n + 1) ps"

lemma posting_entries_cong:
  "ledger_currency b' = ledger_currency b \<Longrightarrow> posting_entries tid knd sq tm oid fid b' n ps = posting_entries tid knd sq tm oid fid b n ps"
  by (induction ps arbitrary: n) (auto simp: posting_entry_def)

lemma post_entries_ok:
  assumes "args_ok (ledger_currency b) tid sq tm oid fid" "\<And>acc amt. (acc, amt) \<in> set ps \<Longrightarrow> canonical_decimal False False amt = Inr amt"
    "0 \<le> next_entry b" "next_entry b + int (length ps) \<le> 10 ^ 10"
  shows "post_entries digest tid knd sq tm oid fid ps b =
    (let es = posting_entries tid knd sq tm oid fid b (next_entry b) ps in (chain_extend digest es b, Inr es))"
  using assms
proof (induction ps arbitrary: b)
  case (Cons p ps)
  obtain acc amt where p: "p = (acc, amt)" by (cases p)
  let ?e = "posting_entry b tid knd sq tm oid fid acc amt"
  let ?b = "b\<lparr>tail_hash := sha_json digest (link_material (tail_hash b) (next_entry b) ?e), entries := entries b @ [?e], next_entry := next_entry b + 1\<rparr>"
  have n: "int (nat (next_entry b)) = next_entry b" "nat (next_entry b) < 10 ^ 10" using Cons.prems(3,4) by simp_all
  have e: "make_entry (posting_args b tid knd sq tm oid fid acc amt) = Inr ?e"
    using name_valid(1)[OF n(2), unfolded n(1)] Cons.prems(1) Cons.prems(2)[of acc amt] by (intro make_posting(1)) (simp_all add: p)
  have "post_entries digest tid knd sq tm oid fid ps ?b =
    (let es = posting_entries tid knd sq tm oid fid ?b (next_entry ?b) ps in (chain_extend digest es ?b, Inr es))"
  proof (rule Cons.IH)
    show "canonical_decimal False False amt = Inr amt" if "(acc, amt) \<in> set ps" for acc amt
      using Cons.prems(2)[of acc amt] that by simp
  qed (use Cons.prems in simp_all)
  moreover have "posting_entries tid knd sq tm oid fid ?b (next_entry b + 1) ps = posting_entries tid knd sq tm oid fid b (next_entry b + 1) ps"
    by (rule posting_entries_cong) simp
  moreover have "nat (next_entry b + 1) = Suc (nat (next_entry b))" using Cons.prems(3) by simp
  ultimately show ?case
    using n(1) by (simp add: p e Let_def chain_extend_def sha_json_def)
qed (simp add: chain_extend_def)

lemma post_entries_fails:
  assumes "\<not> args_ok (ledger_currency b) tid sq tm oid fid" "ps \<noteq> []" "\<And>acc amt. (acc, amt) \<in> set ps \<Longrightarrow> canonical_decimal False False amt = Inr amt"
    "0 \<le> next_entry b" "next_entry b < 10 ^ 10"
  shows "post_entries digest tid knd sq tm oid fid ps b = (b, Inl ValueError)"
proof (cases ps)
  case (Cons p ps')
  obtain acc amt where p: "p = (acc, amt)" by (cases p)
  have n: "int (nat (next_entry b)) = next_entry b" "nat (next_entry b) < 10 ^ 10" using assms(4,5) by simp_all
  have "make_entry (posting_args b tid knd sq tm oid fid acc amt) = Inl ValueError"
    using name_valid(1)[OF n(2), unfolded n(1)] assms(1) assms(3)[of acc amt] by (intro make_posting(2)) (simp_all add: p Cons)
  then show ?thesis by (simp add: Cons p)
qed (use assms in simp)

lemma posting_entries_facts:
  "length (posting_entries tid knd sq tm oid fid b n ps) = length ps"
  "map entry_amount (posting_entries tid knd sq tm oid fid b n ps) = map snd ps"
  "list_all (\<lambda>e. transaction_id e = tid) (posting_entries tid knd sq tm oid fid b n ps)"
  "ids_ok (ledger_currency b) i (posting_entries tid knd sq tm oid fid b (int i) ps)"
proof -
  show "length (posting_entries tid knd sq tm oid fid b n ps) = length ps" by (induction ps arbitrary: n) auto
  show "map entry_amount (posting_entries tid knd sq tm oid fid b n ps) = map snd ps"
    by (induction ps arbitrary: n) (auto simp: posting_entry_def)
  show "list_all (\<lambda>e. transaction_id e = tid) (posting_entries tid knd sq tm oid fid b n ps)"
    by (induction ps arbitrary: n) (auto simp: posting_entry_def)
  show "ids_ok (ledger_currency b) i (posting_entries tid knd sq tm oid fid b (int i) ps)"
  proof (induction ps arbitrary: i)
    case (Cons p ps)
    then show ?case using Cons[of "Suc i"] by (cases p) (simp add: posting_entry_def add.commute)
  qed simp
qed

lemma posting_entries_valid:
  assumes "args_ok (ledger_currency b) tid sq tm oid fid" "\<And>acc amt. (acc, amt) \<in> set ps \<Longrightarrow> canonical_decimal False False amt = Inr amt"
    "i + length ps \<le> 10 ^ 10"
  shows "list_all entry_valid (posting_entries tid knd sq tm oid fid b (int i) ps)"
  using assms
proof (induction ps arbitrary: i)
  case (Cons p ps)
  obtain acc amt where p: "p = (acc, amt)" by (cases p)
  have "make_entry (posting_args (b\<lparr>next_entry := int i\<rparr>) tid knd sq tm oid fid acc amt) =
      Inr (posting_entry (b\<lparr>next_entry := int i\<rparr>) tid knd sq tm oid fid acc amt)"
    using name_valid(1)[of i] Cons.prems Cons.prems(2)[of acc amt] by (intro make_posting(1)) (simp_all add: p)
  note first = make_entry_valid[OF this]
  have "list_all entry_valid (posting_entries tid knd sq tm oid fid b (int (Suc i)) ps)"
  proof (rule Cons.IH[OF Cons.prems(1)])
    show "canonical_decimal False False amt = Inr amt" if "(acc, amt) \<in> set ps" for acc amt
      using Cons.prems(2)[of acc amt] that by simp
  qed (use Cons.prems(3) in simp)
  with first show ?case by (simp add: p add.commute)
qed simp


section \<open>The invariant of a book\<close>

fun chain_hash :: "digest_fun \<Rightarrow> string \<Rightarrow> nat \<Rightarrow> ledger_entry list \<Rightarrow> string" where
  "chain_hash digest h i [] = h"
| "chain_hash digest h i (e # es) = chain_hash digest (sha_json digest (link_material h (int i) e)) (Suc i) es"

lemma chain_hash_tail: "chain_hash digest h i es = ledger_chain.tail_from digest h i es"
  by (induction es arbitrary: h i) (simp_all add: sha_json_def)

lemma chain_hash_append: "chain_hash digest h i (es @ fs) = chain_hash digest (chain_hash digest h i es) (i + length es) fs"
  by (induction es arbitrary: h i) simp_all

definition transactions :: "ledger \<Rightarrow> ledger_entry list list" where
  "transactions b = group_runs transaction_id (entries b)"

definition book_inv :: "digest_fun \<Rightarrow> ledger \<Rightarrow> bool" where
  "book_inv digest b =
     (numbered 0 (transactions b) \<and> list_all run_balanced (transactions b) \<and>
      ids_ok (ledger_currency b) 1 (entries b) \<and> list_all entry_valid (entries b) \<and>
      next_transaction b = int (length (transactions b)) + 1 \<and> next_entry b = int (length (entries b)) + 1 \<and>
      int (length (entries b)) \<le> max_entries b \<and>
      tail_hash b = chain_hash digest (initial_hash digest b) 1 (entries b))"

lemma normalized_amounts:
  assumes "normalize_postings ps = Inr ns" "(acc, amt) \<in> set ns"
  shows "canonical_decimal False False amt = Inr amt"
proof -
  have "list_all (\<lambda>(acc, amt). canonical_decimal False False amt = Inr amt) ns"
    using assms(1) unfolding normalize_postings_def
    by (rule mapr_all) (auto simp: res_simps canonical_decimal_again)
  then show ?thesis using assms(2) by (auto simp: list_all_iff)
qed

lemma chain_extend_simps [simp]:
  "initial_equity (chain_extend digest es b) = initial_equity b" "ledger_currency (chain_extend digest es b) = ledger_currency b"
  "max_entries (chain_extend digest es b) = max_entries b" "entries (chain_extend digest es b) = entries b @ es"
  "next_transaction (chain_extend digest es b) = next_transaction b" "next_entry (chain_extend digest es b) = next_entry b + int (length es)"
  by (simp_all add: chain_extend_def)

lemma post_cases:
  assumes "book_inv digest b" "max_entries b < 10 ^ 10" "post digest knd sq tm ps oid fid b = (b', out)"
  shows "(\<exists>x. out = Inl x) \<and> b' = b \<or>
    (\<exists>ns es tid. out = Inr es \<and> normalize_postings ps = Inr ns \<and> post_checks b ns = Inr () \<and>
       tid = transaction_name (next_transaction b) \<and> args_ok (ledger_currency b) tid sq tm oid fid \<and>
       es = posting_entries tid knd sq tm oid fid b (next_entry b) ns \<and>
       b' = chain_extend digest es b\<lparr>next_transaction := next_transaction b + 1\<rparr>)"
proof (cases "normalize_postings ps")
  case (Inl x)
  then show ?thesis using assms(3) by (auto simp: post_def)
next
  case (Inr ns)
  show ?thesis
  proof (cases "post_checks b ns")
    case (Inl x)
    then show ?thesis using assms(3) \<open>normalize_postings ps = Inr ns\<close> by (auto simp: post_def)
  next
    case chk: (Inr u)
    let ?tid = "transaction_name (next_transaction b)"
    have len: "2 \<le> length ns" "int (length (entries b)) + int (length ns) \<le> max_entries b"
      using chk by (auto simp: post_checks_def split: if_splits)
    have ne: "next_entry b = int (length (entries b)) + 1" using assms(1) by (simp add: book_inv_def)
    note amt = normalized_amounts[OF Inr]
    show ?thesis
    proof (cases "args_ok (ledger_currency b) ?tid sq tm oid fid")
      case True
      have "post_entries digest ?tid knd sq tm oid fid ns b =
        (let es = posting_entries ?tid knd sq tm oid fid b (next_entry b) ns in (chain_extend digest es b, Inr es))"
        using len ne assms(2) by (intro post_entries_ok True amt) simp_all
      then show ?thesis using assms(3) Inr chk True by (auto simp: post_def Let_def)
    next
      case False
      have "post_entries digest ?tid knd sq tm oid fid ns b = (b, Inl ValueError)"
        using len ne assms(2) by (intro post_entries_fails False amt) auto
      then show ?thesis using assms(3) Inr chk by (auto simp: post_def)
    qed
  qed
qed

lemma post_inv:
  assumes "book_inv digest b" "max_entries b < 10 ^ 10"
  shows "book_inv digest (fst (post digest knd sq tm ps oid fid b))"
proof -
  obtain b' out where p: "post digest knd sq tm ps oid fid b = (b', out)" by fastforce
  consider "b' = b"
    | ns es tid where "normalize_postings ps = Inr ns" "post_checks b ns = Inr ()" "tid = transaction_name (next_transaction b)"
      "args_ok (ledger_currency b) tid sq tm oid fid" "es = posting_entries tid knd sq tm oid fid b (next_entry b) ns"
      "b' = chain_extend digest es b\<lparr>next_transaction := next_transaction b + 1\<rparr>"
    using post_cases[OF assms p] by blast
  then show ?thesis
  proof cases
    case 2
    note inv = assms(1)[unfolded book_inv_def]
    let ?k = "length (transactions b)" and ?n = "Suc (length (entries b))"
    have ne: "next_entry b = int ?n" and nt: "next_transaction b = int (Suc ?k)" using inv by simp_all
    have len: "2 \<le> length ns" "coeff (amounts_total (map snd ns)) = 0" "int (length (entries b)) + int (length ns) \<le> max_entries b"
      using 2(2) by (auto simp: post_checks_def split: if_splits)
    have facts: "length es = length ns" "map entry_amount es = map snd ns" "list_all (\<lambda>e. transaction_id e = tid) es" "ids_ok (ledger_currency b) ?n es"
      by (simp_all add: 2(5) ne posting_entries_facts del: of_nat_Suc)
    have valid: "list_all entry_valid es" unfolding 2(5) ne
      by (rule posting_entries_valid[OF 2(4) normalized_amounts[OF 2(1)]]) (use len assms(2) in simp_all)
    have num: "numbered 0 (transactions b @ [es])"
      using inv facts(1,3) len(1) 2(3) nt by (auto simp: numbered_append simp del: of_nat_Suc)
    have "concat (transactions b @ [es]) = entries b @ es" by (simp add: transactions_def)
    then have txs: "transactions b' = transactions b @ [es]" using numbered_groups[OF num] by (simp add: transactions_def 2(6))
    have bal: "run_balanced es" using len(1,2) facts(1,2) by (simp add: run_balanced_def)
    have hash: "tail_hash b' = chain_hash digest (initial_hash digest b') 1 (entries b')"
    proof -
      have "initial_hash digest b' = initial_hash digest b" by (simp add: 2(6) initial_hash_def)
      moreover have "tail_hash b' = chain_hash digest (tail_hash b) (1 + length (entries b)) es"
        by (simp add: 2(6) chain_extend_def chain_hash_tail ne nat_add_distrib)
      moreover have "entries b' = entries b @ es" by (simp add: 2(6))
      moreover have "tail_hash b = chain_hash digest (initial_hash digest b) 1 (entries b)" using inv by simp
      ultimately show ?thesis by (simp only: chain_hash_append)
    qed
    have "book_inv digest b'" unfolding book_inv_def txs
    proof (intro conjI)
      show "ids_ok (ledger_currency b') 1 (entries b')" using inv facts(4) by (simp add: 2(6) ids_ok_append)
      show "list_all entry_valid (entries b')" using inv valid by (simp add: 2(6))
      show "next_transaction b' = int (length (transactions b @ [es])) + 1" using nt by (simp add: 2(6))
      show "next_entry b' = int (length (entries b')) + 1" using ne by (simp add: 2(6))
      show "int (length (entries b')) \<le> max_entries b'" using len(3) facts(1) by (simp add: 2(6))
    qed (use num bal inv hash in simp_all)
    then show ?thesis by (simp add: p)
  qed (use assms p in simp)
qed

text \<open>The empty book a constructor call starts from.\<close>

definition empty_book :: "digest_fun \<Rightarrow> string \<Rightarrow> string \<Rightarrow> int \<Rightarrow> ledger" where
  "empty_book digest eq cur maxe =
     (let b0 = \<lparr>initial_equity = eq, ledger_currency = cur, max_entries = maxe, entries = [],
                next_transaction = 1, next_entry = 1, tail_hash = ''''\<rparr>
      in b0\<lparr>tail_hash := initial_hash digest b0\<rparr>)"

lemma empty_inv: "2 \<le> m \<Longrightarrow> book_inv digest (empty_book digest q c m)"
  by (simp add: book_inv_def empty_book_def transactions_def initial_hash_def Let_def)

lemma ledger_book_post:
  assumes "ledger_book digest q c m = Inr b"
  shows "\<exists>eq es. canonical_decimal True False q = Inr eq \<and> validate_identifier c = Inr c \<and> 2 \<le> m \<and>
    post digest KindInitialCapital 0 0 [(Cash, eq), (InitialCapital, CHR ''-'' # eq)] None None (empty_book digest eq c m) = (b, Inr es)"
  using assms
  by (auto simp: ledger_book_def empty_book_def res_simps Let_def validate_identifier_def split: if_splits prod.splits sum.splits)

definition same_config :: "ledger \<Rightarrow> ledger \<Rightarrow> bool" where
  "same_config b b' \<longleftrightarrow> max_entries b = max_entries b' \<and> initial_equity b = initial_equity b' \<and> ledger_currency b = ledger_currency b'"

lemma post_entries_config: "same_config (fst (post_entries digest tid knd sq tm oid fid ns b)) b"
proof (induction ns arbitrary: b)
  case (Cons p ns)
  obtain acc amt where p: "p = (acc, amt)" by (cases p)
  show ?case
  proof (cases "make_entry (posting_args b tid knd sq tm oid fid acc amt)")
    case (Inr e)
    let ?b = "b\<lparr>tail_hash := sha_json digest (link_material (tail_hash b) (next_entry b) e), entries := entries b @ [e], next_entry := next_entry b + 1\<rparr>"
    show ?thesis using Cons[of ?b] Inr
      by (auto simp: p Let_def same_config_def split: sum.splits prod.splits)
  qed (simp add: p same_config_def)
qed (simp add: same_config_def)

lemma post_config: "same_config (fst (post digest knd sq tm ps oid fid b)) b"
proof (cases "normalize_postings ps")
  case (Inr ns)
  show ?thesis
    using post_entries_config[of digest "transaction_name (next_transaction b)" knd sq tm oid fid ns b] Inr
    by (auto simp: post_def same_config_def split: sum.splits prod.splits)
qed (simp add: post_def same_config_def)

lemma book_init:
  assumes "ledger_book digest q c m = Inr b" "m < 10 ^ 10"
  shows "book_inv digest b \<and> max_entries b = m"
proof -
  obtain eq es where b: "2 \<le> m"
    "post digest KindInitialCapital 0 0 [(Cash, eq), (InitialCapital, CHR ''-'' # eq)] None None (empty_book digest eq c m) = (b, Inr es)"
    using ledger_book_post[OF assms(1)] by blast
  have m: "max_entries (empty_book digest eq c m) = m" by (simp add: empty_book_def Let_def)
  then show ?thesis
    using post_inv[OF empty_inv[OF b(1), of digest eq c], of KindInitialCapital 0 0 "[(Cash, eq), (InitialCapital, CHR ''-'' # eq)]" None None]
      post_config[of digest KindInitialCapital 0 0 "[(Cash, eq), (InitialCapital, CHR ''-'' # eq)]" None None "empty_book digest eq c m"]
      assms(2) b(2) by (simp add: same_config_def)
qed

lemma restoreE:
  assumes "restore digest b payload = Inr b'"
  shows "\<exists>es h txn. (\<exists>j. entry_list j = Inr es) \<and> int (length es) \<le> max_entries b \<and> assert_entries_balanced es = Inr () \<and>
    check_entries digest (ledger_currency b) (initial_hash digest b) 1 0 None es = Inr (h, txn) \<and>
    b' = b\<lparr>entries := es, next_entry := int (length es) + 1, next_transaction := txn + 1, tail_hash := h\<rparr>"
  using assms unfolding restore_def Let_def
  by (simp add: res_simps not_less split: if_splits prod.splits) blast

lemma restore_inv:
  assumes "restore digest b payload = Inr b'" "max_entries b < 10 ^ 10"
  shows "book_inv digest b' \<and> same_config b' b"
proof -
  obtain es h txn where r: "int (length es) \<le> max_entries b" "assert_entries_balanced es = Inr ()"
    "check_entries digest (ledger_currency b) (initial_hash digest b) 1 0 None es = Inr (h, txn)"
    "b' = b\<lparr>entries := es, next_entry := int (length es) + 1, next_transaction := txn + 1, tail_hash := h\<rparr>"
    "\<exists>j. entry_list j = Inr es"
    using restoreE[OF assms(1)] by blast
  have c: "check_entries digest (ledger_currency b) (initial_hash digest b) (int 1) 0 None es = Inr (h, txn)" using r(3) by simp
  note chk = c[unfolded check_entries_iff]
  have act: "numbering (int 0) (active_name 0) (map transaction_id es) = Some txn" using chk by (simp add: active_name_def)
  obtain pre rs where "es = pre @ concat rs" "list_all (\<lambda>e. Some (transaction_id e) = active_name 0) pre" "numbered 0 rs" "txn = int (0 + length rs)"
    using numbering_sound[OF act] by blast
  moreover from this have "pre = []" by (cases pre) (simp_all add: active_name_def)
  ultimately have rs: "es = concat rs" "numbered 0 rs" "txn = int (length rs)" by simp_all
  have "length (concat rs) < 10 ^ 10" using r(1) assms(2) rs(1) by simp
  then have bal: "list_all run_balanced rs" using balanced_runs[OF rs(2), of "ledger_currency b"] chk r(2) rs(1) by simp
  have txs: "transactions b' = rs" using numbered_groups[OF rs(2)] rs(1) by (simp add: transactions_def r(4))
  obtain j where j: "entry_list j = Inr es" using r(5) by blast
  then obtain xs where "mapr entry_from_dict xs = Inr es" by (cases j) (simp_all add: entry_list_def)
  then have "list_all entry_valid es" by (rule mapr_all) (rule from_dict_valid)
  then show ?thesis
    using bal txs rs chk r by (simp add: book_inv_def initial_hash_def chain_hash_tail same_config_def)
qed

text \<open>Books a program can have: constructed, posted to (successfully or not), restored into.\<close>

inductive reachable_book :: "digest_fun \<Rightarrow> ledger \<Rightarrow> bool" for digest where
  construct: "ledger_book digest q c m = Inr b \<Longrightarrow> reachable_book digest b"
| posting: "reachable_book digest b \<Longrightarrow> post digest knd sq tm ps oid fid b = (b', out) \<Longrightarrow> reachable_book digest b'"
| restored: "reachable_book digest b \<Longrightarrow> restore digest b payload = Inr b' \<Longrightarrow> reachable_book digest b'"

lemma reachable_book_ok: "reachable_book digest b \<Longrightarrow> max_entries b < 10 ^ 10 \<Longrightarrow> book_inv digest b"
proof (induction rule: reachable_book.induct)
  case (construct q c m b)
  obtain eq es where b: "2 \<le> m"
    "post digest KindInitialCapital 0 0 [(Cash, eq), (InitialCapital, CHR ''-'' # eq)] None None (empty_book digest eq c m) = (b, Inr es)"
    using ledger_book_post[OF construct(1)] by blast
  have "max_entries b = m"
    using post_config[of digest KindInitialCapital 0 0 "[(Cash, eq), (InitialCapital, CHR ''-'' # eq)]" None None "empty_book digest eq c m"] b(2)
    by (simp add: same_config_def empty_book_def Let_def)
  then show ?case using book_init[OF construct(1)] construct(2) by simp
next
  case (posting b knd sq tm ps oid fid b' out)
  then show ?case using post_inv[of digest b knd sq tm ps oid fid] post_config[of digest knd sq tm ps oid fid b]
    by (simp add: same_config_def)
next
  case (restored b payload b')
  have "max_entries b = max_entries b'"
    using restoreE[OF restored(2)] by auto
  then show ?case using restore_inv[OF restored(2)] restored(4) by simp
qed

lemma snapshot_lookup [simp]:
  "dict_get (snapshot digest b) ''state_hash'' = JStr (sha_json digest (JObj (snapshot_state b)))"
  "List.filter (\<lambda>(k, _). k \<noteq> ''state_hash'') (snapshot digest b) = snapshot_state b"
  "dict_get (snapshot_state b) ''schema_version'' = JStr LEDGER_STATE_SCHEMA_VERSION"
  "dict_get (snapshot_state b) ''initial_equity'' = JStr (initial_equity b)"
  "dict_get (snapshot_state b) ''currency'' = JStr (ledger_currency b)"
  "dict_get (snapshot_state b) ''max_entries'' = JInt (max_entries b)"
  "dict_get (snapshot_state b) ''entries'' = JList (map (\<lambda>e. JObj (entry_to_dict e)) (entries b))"
  "dict_get (snapshot_state b) ''tail_hash'' = JStr (tail_hash b)"
  "dict_get (snapshot_state b) ''next_entry'' = JInt (next_entry b)"
  "dict_get (snapshot_state b) ''next_transaction'' = JInt (next_transaction b)"
  "exact_keys (snapshot_state b) state_fields = Inr ()"
  by (simp_all add: snapshot_def snapshot_state_def exact_keys_def state_fields_def)

lemma snapshot_writable: "writable (JObj (snapshot_state b))"
proof -
  have "list_all (\<lambda>(k, v). writable v) (entry_to_dict e)" for e using writable_materials(1)[of e] by simp
  then show ?thesis by (simp add: snapshot_state_def list.pred_map comp_def list.pred_True)
qed

lemma restore_snapshot:
  assumes inv: "book_inv digest b" and cfg: "same_config b0 b" and max: "max_entries b < 10 ^ 10"
  shows "restore digest b0 (snapshot digest b) = Inr b"
proof -
  note i = inv[unfolded book_inv_def]
  have es: "entry_list (JList (map (\<lambda>e. JObj (entry_to_dict e)) (entries b))) = Inr (entries b)"
    using i mapr_total[of "map (\<lambda>e. JObj (entry_to_dict e)) (entries b)"] unfolding entry_list_def
    by (simp add: mapr_Inr_iff list_all2_map1 list_all2_same list_all_iff entry_valid_def)
  have cc: "concat (transactions b) = entries b" by (simp add: transactions_def)
  have len: "length (entries b) < 10 ^ 10" using i max by simp
  have bal: "assert_entries_balanced (entries b) = Inr ()"
    using balanced_runs[of "transactions b" "ledger_currency b"] i len by (simp add: cc)
  have h0: "initial_hash digest b0 = initial_hash digest b" using cfg by (simp add: initial_hash_def same_config_def)
  have "numbering (int 0) (active_name 0) (map transaction_id (entries b)) = Some (int (0 + length (transactions b)))"
    using numbering_numbered[of 0 "transactions b"] i by (simp only: cc)
  then have chk: "check_entries digest (ledger_currency b) (initial_hash digest b) 1 0 None (entries b) = Inr (tail_hash b, int (length (transactions b)))"
    using check_entries_iff[of digest "ledger_currency b" "initial_hash digest b" 1 0 None "entries b"] i
    by (simp add: active_name_def chain_hash_tail)
  have "length (transactions b) \<le> length (entries b)" using numbered_length[of 0 "transactions b"] i by (simp add: cc)
  then have cnt: "counter_field (JInt (next_entry b)) = Inr (next_entry b)" "counter_field (JInt (next_transaction b)) = Inr (next_transaction b)"
    using i len by (simp_all add: counter_field_def validate_counter_def MAX_COUNTER_def)
  have "b0\<lparr>entries := entries b, next_entry := next_entry b, next_transaction := next_transaction b, tail_hash := tail_hash b\<rparr> = b"
    using cfg by (cases b0; cases b) (simp add: same_config_def)
  then show ?thesis
  proof -
    have c: "max_entries b0 = max_entries b" "initial_equity b0 = initial_equity b" "ledger_currency b0 = ledger_currency b"
      using cfg by (simp_all add: same_config_def)
    have n: "int (length (entries b)) \<le> max_entries b" "next_entry b = int (length (entries b)) + 1"
      "next_transaction b = int (length (transactions b)) + 1" using i by simp_all
    show ?thesis
      unfolding restore_def snapshot_lookup Let_def c h0 es bindr_Inr bal chk cnt
      using snapshot_writable[of b] n \<open>b0\<lparr>entries := _, next_entry := _, next_transaction := _, tail_hash := _\<rparr> = b\<close>
      by (simp del: writable.simps)
  qed
qed

section \<open>Exact totals\<close>

text \<open>An amount with at most \<open>k\<close> decimal places and a magnitude of at most \<open>10^a\<close>.\<close>

definition fits :: "nat \<Rightarrow> nat \<Rightarrow> string \<Rightarrow> bool" where
  "fits k a s = (let d = dec_of s in - int k \<le> expo d \<and> \<bar>coeff d\<bar> * 10 ^ nat (expo d + int k) \<le> 10 ^ (a + k))"

lemma fits_bound:
  assumes "fits k a s"
  shows "- int k \<le> expo (dec_of s)" "\<bar>dec_val (dec_of s)\<bar> \<le> 10 ^ a"
proof -
  let ?d = "dec_of s"
  show e: "- int k \<le> expo ?d" using assms by (simp add: fits_def Let_def)
  have "10 powi expo ?d * (10 :: rat) ^ k = 10 powi (expo ?d + int k)" by (simp add: power_int_add power_int_of_nat)
  also have "\<dots> = 10 ^ nat (expo ?d + int k)" using e by (metis int_nat_eq power_int_of_nat add.commute neg_le_iff_le minus_minus diff_ge_0_iff_ge diff_minus_eq_add)
  finally have p: "10 powi expo ?d * (10 :: rat) ^ k = 10 ^ nat (expo ?d + int k)" .
  have "\<bar>coeff ?d\<bar> * 10 ^ nat (expo ?d + int k) \<le> 10 ^ (a + k)" using assms by (simp add: fits_def Let_def)
  then have "(of_int (\<bar>coeff ?d\<bar> * 10 ^ nat (expo ?d + int k)) :: rat) \<le> of_int (10 ^ (a + k))" by (simp only: of_int_le_iff)
  then have "\<bar>dec_val ?d\<bar> * 10 ^ k \<le> 10 ^ a * (10 :: rat) ^ k"
    by (simp add: dec_val_def abs_mult mult.assoc p power_add)
  then show "\<bar>dec_val ?d\<bar> \<le> 10 ^ a" by simp
qed

definition exact_amounts :: "nat \<Rightarrow> nat \<Rightarrow> ledger \<Rightarrow> bool" where
  "exact_amounts k a b =
     (list_all (\<lambda>e. fits k a (entry_amount e)) (entries b) \<and> int (length (entries b)) * 10 ^ (a + k) < 10 ^ 60)"

abbreviation amount_of :: "ledger_entry \<Rightarrow> rat" where
  "amount_of e \<equiv> dec_val (dec_of (entry_amount e))"

lemma exact_total:
  assumes "exact_amounts k a b" "length es \<le> length (entries b)" "set es \<subseteq> set (entries b)"
  shows "dec_val (amounts_total (map entry_amount es)) = sum_list (map amount_of es)"
proof -
  have "int (length es) * 10 ^ (a + k) \<le> int (length (entries b)) * 10 ^ (a + k)" using assms(2) by (intro mult_right_mono) simp_all
  then have "int (length es) * 10 ^ (a + k) < 10 ^ 60" using assms(1) by (simp only: exact_amounts_def) linarith
  then have "(of_int (int (length es) * 10 ^ (a + k)) :: rat) < of_int (10 ^ 60)" by (simp only: of_int_less_iff)
  then have len: "of_nat (length (map (dec_of \<circ> entry_amount) es)) * 10 ^ a * (10 :: rat) ^ k < 10 ^ 60" by (simp add: power_add mult.assoc)
  have "dec_val (dec_sum 60 (map (dec_of \<circ> entry_amount) es)) = sum_list (map dec_val (map (dec_of \<circ> entry_amount) es))"
  proof (rule dec_sum_exact[where k = k and B = "10 ^ a"])
    fix d assume "d \<in> set (map (dec_of \<circ> entry_amount) es)"
    then obtain e where "e \<in> set (entries b)" "d = dec_of (entry_amount e)" using assms(3) by auto
    then show "- int k \<le> expo d \<and> \<bar>dec_val d\<bar> \<le> 10 ^ a" using assms(1) fits_bound by (auto simp: exact_amounts_def list_all_iff)
  qed (use len in simp_all)
  then show ?thesis by (simp add: amounts_total_def comp_def)
qed

lemma sum_by_account:
  "sum_list (map (\<lambda>acc. sum_list (map f (List.filter (\<lambda>e. entry_account e = acc) es))) accounts) = (sum_list (map f es) :: rat)"
proof (induction es)
  case (Cons e es)
  then show ?case by (cases "entry_account e") (simp_all add: accounts_def)
qed (simp add: accounts_def)

section \<open>Properties\<close>

text \<open>C3: The invariant of every book a program can have, after its construction, any postings,
  accepted or refused, and any accepted restores: entries and transactions are numbered without a
  gap, every transaction has at least two postings whose total under sixty digits is zero, entries
  are valid and in the book's currency, the capacity is respected, and the tail hash is the chain
  hash of the entries. Names sort as numbers because a book holds fewer than \<open>10^10\<close> entries.\<close>

theorem reachable_book_inv:
  assumes "reachable_book digest b" "max_entries b < 10 ^ 10"
  shows "book_inv digest b"
  by (rule reachable_book_ok[OF assms])

definition sample_digest :: digest_fun where
  "sample_digest t = ''00''"

definition sample_entry :: "int \<Rightarrow> int \<Rightarrow> ledger_account \<Rightarrow> string \<Rightarrow> ledger_kind \<Rightarrow> int \<Rightarrow> int \<Rightarrow> string option \<Rightarrow> ledger_entry" where
  "sample_entry n t acc amt knd sq tm fid =
     \<lparr>entry_id = entry_name n, transaction_id = transaction_name t, entry_account = acc, entry_amount = amt, entry_currency = ''USD'',
      entry_kind = knd, source_sequence = sq, event_time_ms = tm, order_id = None, fill_id = fid\<rparr>"

definition sample_book :: ledger where
  "sample_book =
     \<lparr>initial_equity = ''1000'', ledger_currency = ''USD'', max_entries = 10,
      entries = [sample_entry 1 1 Cash ''1000'' KindInitialCapital 0 0 None,
                 sample_entry 2 1 InitialCapital ''-1000'' KindInitialCapital 0 0 None],
      next_transaction = 2, next_entry = 3, tail_hash = ''sha256:00''\<rparr>"

definition sample_fee :: "ledger_entry list" where
  "sample_fee = [sample_entry 3 2 Cash ''-2.5'' KindFee 3 5 (Some ''f1''), sample_entry 4 2 FeeExpense ''2.5'' KindFee 3 5 (Some ''f1'')]"

definition posted_book :: ledger where
  "posted_book = sample_book\<lparr>entries := entries sample_book @ sample_fee, next_transaction := 3, next_entry := 5\<rparr>"

lemma sample_book_init: "ledger_book sample_digest ''1000.0'' ''USD'' 10 = Inr sample_book"
  by code_simp

lemma sample_posting:
  "post sample_digest KindFee 3 5 [(Cash, ''-2.50''), (FeeExpense, ''2.5'')] None (Some ''f1'') sample_book = (posted_book, Inr sample_fee)"
  by code_simp

lemma posted_book_reachable: "reachable_book sample_digest posted_book"
  by (rule reachable_book.posting[OF reachable_book.construct[OF sample_book_init] sample_posting])

lemma sample_sizes: "max_entries sample_book < 10 ^ 10" "max_entries posted_book < 10 ^ 10" "length (entries posted_book) = 4"
  by (simp_all add: posted_book_def sample_book_def sample_fee_def)

theorem reachable_book_inv_witness: "book_inv sample_digest posted_book \<and> length (entries posted_book) = 4"
  using reachable_book_inv[OF posted_book_reachable sample_sizes(2)] sample_sizes(3) by blast

text \<open>C23: Posting is all or nothing. A refused transaction leaves the book as it was; an accepted
  one has at least two postings that total zero and fit the capacity, and appends exactly one entry
  for each of them, in their order, with the normalised amounts, under the next transaction name.\<close>

theorem post_all_or_nothing:
  assumes "reachable_book digest b" "max_entries b < 10 ^ 10" "post digest knd sq tm ps oid fid b = (b', out)"
  shows "case out of
      Inl x \<Rightarrow> b' = b
    | Inr es \<Rightarrow> entries b' = entries b @ es \<and> length es = length ps \<and> 2 \<le> length es \<and>
        int (length (entries b')) \<le> max_entries b \<and>
        mapr (canonical_decimal False False) (map snd ps) = Inr (map entry_amount es) \<and>
        coeff (amounts_total (map entry_amount es)) = 0 \<and>
        list_all (\<lambda>e. transaction_id e = transaction_name (next_transaction b)) es \<and>
        next_transaction b' = next_transaction b + 1"
proof -
  consider x where "out = Inl x" "b' = b"
    | ns es tid where "out = Inr es" "normalize_postings ps = Inr ns" "post_checks b ns = Inr ()"
      "tid = transaction_name (next_transaction b)" "es = posting_entries tid knd sq tm oid fid b (next_entry b) ns"
      "b' = chain_extend digest es b\<lparr>next_transaction := next_transaction b + 1\<rparr>"
    using post_cases[OF reachable_book_ok[OF assms(1,2)] assms(2,3)] by blast
  then show ?thesis
  proof cases
    case 2
    have len: "length ns = length ps" using 2(2) by (auto simp: normalize_postings_def mapr_Inr_iff list_all2_lengthD)
    have amt: "mapr (canonical_decimal False False) (map snd ps) = Inr (map snd ns)"
      using 2(2) by (auto simp: normalize_postings_def mapr_Inr_iff list_all2_map1 list_all2_map2 res_simps elim!: list_all2_mono)
    have chk: "2 \<le> length ns" "coeff (amounts_total (map snd ns)) = 0" "int (length (entries b)) + int (length ns) \<le> max_entries b"
      using 2(3) by (auto simp: post_checks_def split: if_splits)
    have facts: "length es = length ns" "map entry_amount es = map snd ns" "list_all (\<lambda>e. transaction_id e = tid) es"
      by (simp_all add: 2(5) posting_entries_facts)
    show ?thesis using len amt chk facts by (simp add: 2(1,4,6))
  qed simp
qed

lemma refused_posting: "post sample_digest KindFee 3 5 [(Cash, ''-2''), (FeeExpense, ''2.5'')] None None sample_book = (sample_book, Inl ValueError)"
  by code_simp

theorem post_all_or_nothing_witness:
  "fst (post sample_digest KindFee 3 5 [(Cash, ''-2''), (FeeExpense, ''2.5'')] None None sample_book) = sample_book"
  using post_all_or_nothing[OF reachable_book.construct[OF sample_book_init] sample_sizes(1) refused_posting] by (simp add: refused_posting)

text \<open>C7: Snapshots round-trip. Restoring the snapshot of a book into any book of the same
  configuration gives back that book: entries, counters, tail hash and configuration.\<close>

theorem snapshot_round_trip:
  assumes "reachable_book digest b" "max_entries b < 10 ^ 10" "same_config b0 b"
  shows "restore digest b0 (snapshot digest b) = Inr b"
  by (rule restore_snapshot[OF reachable_book_ok[OF assms(1,2)] assms(3,2)])

lemma sample_same_config: "same_config sample_book posted_book"
  by (simp add: same_config_def posted_book_def)

theorem snapshot_round_trip_witness: "restore sample_digest sample_book (snapshot sample_digest posted_book) = Inr posted_book"
  by (rule snapshot_round_trip[OF posted_book_reachable sample_sizes(2) sample_same_config])

text \<open>The texts a book's chain hashes.\<close>

fun chain_texts :: "digest_fun \<Rightarrow> string \<Rightarrow> nat \<Rightarrow> ledger_entry list \<Rightarrow> string list" where
  "chain_texts digest h i [] = []"
| "chain_texts digest h i (e # es) =
     (let m = link_material h (int i) e in dumps m # chain_texts digest (sha_json digest m) (Suc i) es)"

definition book_texts :: "digest_fun \<Rightarrow> ledger \<Rightarrow> string list" where
  "book_texts digest b =
     (let m = initial_material (initial_equity b) (ledger_currency b) (max_entries b)
      in dumps m # chain_texts digest (sha_json digest m) 1 (entries b))"

lemma book_texts_chain:
  "book_texts digest b = ledger_chain.texts digest (initial_equity b, ledger_currency b, max_entries b) (entries b)"
proof -
  have "chain_texts digest h i es = ledger_chain.texts_from digest h i es" for h i es
    by (induction es arbitrary: h i) (simp_all add: Let_def sha_json_def)
  then show ?thesis by (simp add: book_texts_def ledger_chain.texts_def Let_def sha_json_def)
qed

text \<open>C8: The tail hash commits to the book. Two reachable books with the same tail hash have the
  same configuration and the same entries, unless two of the texts hashed in their chains have the
  same SHA-256 digest.\<close>

theorem ledger_tamper_evident:
  assumes "reachable_book digest b" "reachable_book digest b'" "max_entries b < 10 ^ 10" "max_entries b' < 10 ^ 10"
    "tail_hash b = tail_hash b'"
  shows "same_config b b' \<and> entries b = entries b' \<or>
    (\<exists>x \<in> set (book_texts digest b). \<exists>y \<in> set (book_texts digest b'). x \<noteq> y \<and> digest x = digest y)"
proof -
  let ?c = "\<lambda>b. (initial_equity b, ledger_currency b, max_entries b)"
  have t: "tail_hash b = ledger_chain.tail digest (?c b) (entries b)" if "book_inv digest b" for b
    using that by (simp add: book_inv_def chain_hash_tail ledger_chain.tail_def initial_hash_def sha_json_def)
  have "?c b = ?c b' \<and> map (\<lambda>e. e) (entries b) = map (\<lambda>e. e) (entries b') \<or> ledger_chain.clash digest (book_texts digest b) (book_texts digest b')"
    unfolding book_texts_chain
    by (rule ledger_chain.tail_commits) (use assms(5) t[OF reachable_book_ok[OF assms(1,3)]] t[OF reachable_book_ok[OF assms(2,4)]] in \<open>simp_all add: list_all_iff\<close>)
  then show ?thesis by (auto simp: same_config_def ledger_chain.clash_def)
qed

theorem ledger_tamper_evident_witness:
  "same_config posted_book posted_book \<and> entries posted_book = entries posted_book \<or>
    (\<exists>x \<in> set (book_texts sample_digest posted_book). \<exists>y \<in> set (book_texts sample_digest posted_book). x \<noteq> y \<and> sample_digest x = sample_digest y)"
  by (rule ledger_tamper_evident[OF posted_book_reachable posted_book_reachable sample_sizes(2,2) refl])

text \<open>C24: The trial balance. When the amounts of a book have at most \<open>k\<close> decimal places and
  magnitudes up to \<open>10^a\<close>, and sixty digits are enough for that many of them, every account total
  is the exact sum of the account's amounts and the totals of all accounts sum to exactly zero.\<close>

theorem trial_balance_exact:
  assumes "reachable_book digest b" "max_entries b < 10 ^ 10" "exact_amounts k a b"
  shows "(\<forall>acc. dec_val (dec_of (account_total b acc)) =
      sum_list (map amount_of (List.filter (\<lambda>e. entry_account e = acc) (entries b)))) \<and>
    sum_list (map (\<lambda>acc. dec_val (dec_of (account_total b acc))) accounts) = 0"
proof -
  have acc: "dec_val (dec_of (account_total b acc)) = sum_list (map amount_of (List.filter (\<lambda>e. entry_account e = acc) (entries b)))" for acc
    using exact_total[OF assms(3), of "List.filter (\<lambda>e. entry_account e = acc) (entries b)"]
    by (simp add: account_total_def decimal_to_string_def)
  note inv = reachable_book_ok[OF assms(1,2), unfolded book_inv_def]
  have cc: "concat (transactions b) = entries b" by (simp add: transactions_def)
  have run: "sum_list (map amount_of r) = 0" if r: "r \<in> set (transactions b)" for r
  proof -
    have "set r \<subseteq> set (entries b)" using r cc[symmetric] by auto
    moreover have "length r \<le> length (entries b)" unfolding cc[symmetric] using r by (simp add: length_concat member_le_sum_list)
    ultimately have "dec_val (amounts_total (map entry_amount r)) = sum_list (map amount_of r)" by (intro exact_total[OF assms(3)])
    moreover have "coeff (amounts_total (map entry_amount r)) = 0" using inv r by (auto simp: list_all_iff run_balanced_def)
    ultimately show ?thesis by (simp add: dec_val_def)
  qed
  have "sum_list (map amount_of (concat rs)) = 0" if "\<forall>r \<in> set rs. sum_list (map amount_of r) = 0" for rs
    using that by (induction rs) simp_all
  then have "sum_list (map amount_of (entries b)) = 0" using run by (metis cc)
  then show ?thesis using acc sum_by_account[of amount_of "entries b"] by simp
qed

lemma posted_book_exact: "exact_amounts 2 6 posted_book"
  by code_simp

theorem trial_balance_exact_witness:
  "sum_list (map (\<lambda>acc. dec_val (dec_of (account_total posted_book acc))) accounts) = 0"
  using trial_balance_exact[OF posted_book_reachable sample_sizes(2) posted_book_exact] by blast

end
