(* ===== verification/JsonBytes.thy ===== *)
theory JsonBytes
  imports Canonical
begin

text \<open>
  JSON as bytes, on an interpreter with limits: \<open>canonical_json_bytes\<close> of
  \<open>backend/app/replay/canonical.py\<close>, and \<open>json.loads\<close> of a byte string. Encoding a lone surrogate, an
  integer of more digits than \<open>int\<close> converts and a nesting the stack does not hold each raise an
  exception of their own. A string is the generalised UTF-8 of its code points, so that a lone
  surrogate is three bytes that strict UTF-8 refuses.
\<close>

section \<open>Text and bytes\<close>

definition continues :: "char \<Rightarrow> bool" where
  "continues c \<longleftrightarrow> 128 \<le> (of_char c :: nat) \<and> (of_char c :: nat) < 192"

text \<open>One character of well-formed UTF-8, with or without surrogates, taken off the front.\<close>

definition utf8_step :: "bool \<Rightarrow> string \<Rightarrow> string option" where
  "utf8_step surrogates s =
     (case s of
        [] \<Rightarrow> None
      | a # s' \<Rightarrow>
          let n = (of_char a :: nat) in
          if n < 128 then Some s'
          else (case s' of
            [] \<Rightarrow> None
          | b # r \<Rightarrow>
              if \<not> continues b then None
              else if 194 \<le> n \<and> n < 224 then Some r
              else (case r of
                [] \<Rightarrow> None
              | c # r' \<Rightarrow>
                  if \<not> continues c then None
                  else if 224 \<le> n \<and> n < 240 then
                    (if n = 224 \<and> (of_char b :: nat) < 160 \<or> n = 237 \<and> \<not> surrogates \<and> 160 \<le> (of_char b :: nat) then None
                     else Some r')
                  else (case r' of
                    [] \<Rightarrow> None
                  | d # r'' \<Rightarrow>
                      if continues d \<and> 240 \<le> n \<and> n < 245 \<and> \<not> (n = 240 \<and> (of_char b :: nat) < 144)
                         \<and> \<not> (n = 244 \<and> 144 \<le> (of_char b :: nat))
                      then Some r'' else None))))"

lemma utf8_step_shorter [termination_simp]: "utf8_step b s = Some r \<Longrightarrow> length r < length s"
  by (auto simp: utf8_step_def Let_def split: list.splits if_splits)

function utf8_valid :: "bool \<Rightarrow> string \<Rightarrow> bool" where
  "utf8_valid surrogates [] = True"
| "utf8_valid surrogates (a # s) =
     (case utf8_step surrogates (a # s) of None \<Rightarrow> False | Some r \<Rightarrow> utf8_valid surrogates r)"
  by pat_completeness auto

termination
  by (relation "measure (\<lambda>(_, s). length s)") (use utf8_step_shorter in fastforce)+

text \<open>\<open>str.encode("utf-8")\<close>.\<close>

definition utf8_encode :: "string \<Rightarrow> string res" where
  "utf8_encode s = (if utf8_valid False s then Inr s else Inl UnicodeEncodeError)"

text \<open>
  \<open>json.loads\<close> guesses the encoding of a byte string from a byte order mark or the place of its
  null bytes, and decodes it with \<open>surrogatepass\<close>.
\<close>

datatype encoding = UTF8 | UTF16 bool | UTF32 bool

definition null :: "char \<Rightarrow> bool" where
  "null c \<longleftrightarrow> c = CHR 0x00"

text \<open>The encoding, big-endian or not, and the bytes after the mark.\<close>

definition detect_encoding :: "string \<Rightarrow> encoding \<times> string" where
  "detect_encoding b =
     (if starts [CHR 0x00, CHR 0x00, CHR 0xFE, CHR 0xFF] b then (UTF32 True, drop 4 b)
      else if starts [CHR 0xFF, CHR 0xFE, CHR 0x00, CHR 0x00] b then (UTF32 False, drop 4 b)
      else if starts [CHR 0xFE, CHR 0xFF] b then (UTF16 True, drop 2 b)
      else if starts [CHR 0xFF, CHR 0xFE] b then (UTF16 False, drop 2 b)
      else if starts [CHR 0xEF, CHR 0xBB, CHR 0xBF] b then (UTF8, drop 3 b)
      else case b of
          b0 # b1 # b2 # b3 # _ \<Rightarrow>
            if null b0 then (if null b1 then UTF32 True else UTF16 True, b)
            else if null b1 then (if null b2 \<and> null b3 then UTF32 False else UTF16 False, b)
            else (UTF8, b)
        | [b0, b1] \<Rightarrow> (if null b0 then UTF16 True else if null b1 then UTF16 False else UTF8, b)
        | _ \<Rightarrow> (UTF8, b))"

fun utf16_units :: "bool \<Rightarrow> string \<Rightarrow> nat list option" where
  "utf16_units big [] = Some []"
| "utf16_units big [_] = None"
| "utf16_units big (a # b # s) =
     map_option (Cons (if big then of_char a * 256 + of_char b else of_char b * 256 + of_char a)) (utf16_units big s)"

fun join_units :: "nat list \<Rightarrow> nat list" where
  "join_units (hi # lo # us) =
     (if high_surrogate hi \<and> low_surrogate lo then join_surrogates hi lo # join_units us else hi # join_units (lo # us))"
| "join_units us = us"

fun utf32_points :: "bool \<Rightarrow> string \<Rightarrow> nat list option" where
  "utf32_points big [] = Some []"
| "utf32_points big (a # b # c # d # s) =
     (let n = (if big then ((of_char a * 256 + of_char b) * 256 + of_char c) * 256 + of_char d
               else ((of_char d * 256 + of_char c) * 256 + of_char b) * 256 + of_char a)
      in if n < 0x110000 then map_option (Cons n) (utf32_points big s) else None)"
| "utf32_points big _ = None"

definition spell_points :: "nat list option \<Rightarrow> string res" where
  "spell_points ps = (case ps of None \<Rightarrow> Inl UnicodeDecodeError | Some ns \<Rightarrow> Inr (concat (map utf8_char ns)))"

definition decode_text :: "string \<Rightarrow> string res" where
  "decode_text b =
     (case detect_encoding b of
        (UTF8, s) \<Rightarrow> if utf8_valid True s then Inr s else Inl UnicodeDecodeError
      | (UTF16 big, s) \<Rightarrow> spell_points (map_option join_units (utf16_units big s))
      | (UTF32 big, s) \<Rightarrow> spell_points (utf32_points big s))"

section \<open>Limits of the interpreter\<close>

text \<open>\<open>sys.get_int_max_str_digits()\<close>, which no code under \<open>backend/app\<close> changes.\<close>

definition INT_MAX_STR_DIGITS :: int where
  "INT_MAX_STR_DIGITS = 4300"

text \<open>
  How many nested containers the recursions over a JSON value can take, each at its place in the
  call stack: reading, formatting into a message, the strict canonicalisation, writing, and writing
  for a hash.
\<close>

record json_stack =
  read_depth :: nat
  repr_depth :: nat
  walk_depth :: nat
  write_depth :: nat
  hash_depth :: nat

text \<open>A recursion over a value that refuses a leaf or a container too deep, whichever comes first.\<close>

fun walk :: "(json \<Rightarrow> unit res) \<Rightarrow> nat \<Rightarrow> json \<Rightarrow> unit res" where
  "walk leaf d (JList xs) =
     (if d = 0 then Inl RecursionError else bindr (mapr (walk leaf (d - 1)) xs) (\<lambda>_. Inr ()))"
| "walk leaf d (JObj kvs) =
     (if d = 0 then Inl RecursionError else bindr (mapr (\<lambda>(k, v). walk leaf (d - 1) v) kvs) (\<lambda>_. Inr ()))"
| "walk leaf d v = leaf v"

definition refuse_float :: "json \<Rightarrow> unit res" where
  "refuse_float v = guardr (v \<noteq> JFloat) TypeError"

definition refuse_long :: "json \<Rightarrow> unit res" where
  "refuse_long v =
     (case v of JInt n \<Rightarrow> guardr (fits_int (Some INT_MAX_STR_DIGITS) (dec_of_nat (nat \<bar>n\<bar>))) ValueError | _ \<Rightarrow> Inr ())"

text \<open>
  \<open>canonical_json(value).encode("utf-8")\<close>: of a value that canonicalisation has made a JSON tree, of
  a tree that was read, which may hold binary floats, and of any Python value.
\<close>

definition dump_bytes :: "nat \<Rightarrow> json \<Rightarrow> string res" where
  "dump_bytes d j = bindr (walk refuse_long d (canon j)) (\<lambda>_. utf8_encode (dumps j))"

definition tree_bytes :: "json_stack \<Rightarrow> json \<Rightarrow> string res" where
  "tree_bytes st v =
     bindr (if writable v then Inr () else walk refuse_float (walk_depth st) v) (\<lambda>_. dump_bytes (write_depth st) v)"

definition canonical_json_bytes :: "json_stack \<Rightarrow> pyval \<Rightarrow> string res" where
  "canonical_json_bytes st v =
     bindr (if is_native_canonical_json v then json_native v else canonical_value v) (dump_bytes (write_depth st))"

text \<open>\<open>json.loads(data, object_pairs_hook=hook)\<close>.\<close>

definition limited_reader :: "((string \<times> json) list \<Rightarrow> json res) \<Rightarrow> json_reader" where
  "limited_reader hook = \<lparr>digit_limit = Some INT_MAX_STR_DIGITS, object_hook = hook\<rparr>"

definition json_loads :: "((string \<times> json) list \<Rightarrow> json res) \<Rightarrow> nat \<Rightarrow> string \<Rightarrow> json res" where
  "json_loads hook d data = bindr (decode_text data) (read_text (limited_reader hook) (Some d))"

section \<open>Bytes that are read as they are\<close>

lemma utf8_valid_append: "utf8_valid b x \<Longrightarrow> utf8_valid b (x @ y) = utf8_valid b y"
proof (induction b x rule: utf8_valid.induct)
  case (2 b a s)
  obtain r where r: "utf8_step b (a # s) = Some r" "utf8_valid b r" using 2(2) by (auto split: option.splits)
  then have "utf8_step b ((a # s) @ y) = Some (r @ y)" by (auto simp: utf8_step_def Let_def split: list.splits if_splits)
  then show ?case using 2(1) r by simp
qed simp

lemma utf8_valid_ascii: "list_all (\<lambda>c. (of_char c :: nat) < 128) s \<Longrightarrow> utf8_valid b s"
  by (induction s) (simp_all add: utf8_step_def)

lemma utf8_valid_relax: "utf8_valid b s \<Longrightarrow> utf8_valid True s"
proof (induction b s rule: utf8_valid.induct)
  case (2 b a s)
  obtain r where r: "utf8_step b (a # s) = Some r" "utf8_valid b r" using 2(2) by (auto split: option.splits)
  then have "utf8_step True (a # s) = Some r" by (auto simp: utf8_step_def Let_def split: list.splits if_splits)
  then show ?case using 2(1) r by simp
qed simp

lemma utf8_encode_Inr [simp]: "utf8_encode s = Inr t \<longleftrightarrow> t = s \<and> utf8_valid False s"
  by (auto simp: utf8_encode_def)

lemma decode_object_text:
  assumes "utf8_valid False s" "s = CHR ''{'' # c # r" "c \<noteq> CHR 0x00"
  shows "decode_text s = Inr s"
proof -
  have "detect_encoding s = (UTF8, s)" using assms(2,3) by (simp add: detect_encoding_def null_def split: list.splits)
  then show ?thesis using utf8_valid_relax[OF assms(1)] by (simp add: decode_text_def)
qed

section \<open>Values within the limits\<close>

fun nests :: "nat \<Rightarrow> json \<Rightarrow> bool" where
  "nests d (JList xs) = (0 < d \<and> list_all (nests (d - 1)) xs)"
| "nests d (JObj kvs) = (0 < d \<and> list_all (\<lambda>(k, v). nests (d - 1) v) kvs)"
| "nests d v = True"

fun short_ints :: "json \<Rightarrow> bool" where
  "short_ints (JInt n) = fits_int (Some INT_MAX_STR_DIGITS) (dec_of_nat (nat \<bar>n\<bar>))"
| "short_ints (JList xs) = list_all short_ints xs"
| "short_ints (JObj kvs) = list_all (\<lambda>(k, v). short_ints v) kvs"
| "short_ints v = True"

lemma mapr_unit: "(\<exists>us. mapr f xs = Inr us) \<longleftrightarrow> list_all (\<lambda>x. \<exists>u. f x = Inr u) xs"
  by (induction xs) (auto simp: bindr_eq_Inr)

lemma walk_long: "walk refuse_long d v = Inr () \<longleftrightarrow> short_ints v \<and> nests d v"
proof (induction refuse_long d v rule: walk.induct)
  case (1 d xs)
  then show ?case by (auto simp: bindr_eq_Inr mapr_unit list_all_iff)
next
  case (2 d kvs)
  have "(\<exists>us. mapr (\<lambda>(k, v). walk refuse_long (d - 1) v) kvs = Inr us) \<longleftrightarrow> list_all (\<lambda>(k, v). short_ints v \<and> nests (d - 1) v) kvs"
    if "d \<noteq> 0" unfolding mapr_unit using 2[OF that] by (auto simp: list_all_iff)
  then show ?case by (auto simp: bindr_eq_Inr list_all_iff)
qed (simp_all add: refuse_long_def)

lemma walk_float: "walk refuse_float d v = Inr () \<Longrightarrow> writable v"
proof (induction refuse_float d v rule: walk.induct)
  case (1 d xs)
  have "\<exists>us. mapr (walk refuse_float (d - 1)) xs = Inr us" "d \<noteq> 0" using 1(2) by (auto simp: bindr_eq_Inr split: if_splits)
  then show ?case using 1(1) unfolding mapr_unit by (auto simp: list_all_iff)
next
  case (2 d kvs)
  have "\<exists>us. mapr (\<lambda>(k, v). walk refuse_float (d - 1) v) kvs = Inr us" "d \<noteq> 0" using 2(2) by (auto simp: bindr_eq_Inr split: if_splits)
  then show ?case using 2(1) unfolding mapr_unit by (auto simp: list_all_iff)
qed (simp_all add: refuse_float_def)

lemma canon_limits: "short_ints (canon v) = short_ints v" "nests d (canon v) = nests d v"
proof -
  show "short_ints (canon v) = short_ints v" by (induction v rule: canon.induct) (auto simp: list_all_iff)
  show "nests d (canon v) = nests d v" by (induction d v rule: nests.induct) (auto simp: list_all_iff)
qed

lemma dump_bytes_Inr: "dump_bytes d v = Inr t \<longleftrightarrow> short_ints v \<and> nests d v \<and> utf8_valid False (dumps v) \<and> t = dumps v"
  using walk_long[of d "canon v"] by (auto simp: dump_bytes_def bindr_eq_Inr canon_limits)

lemma tree_bytes_Inr:
  "tree_bytes st v = Inr t \<longleftrightarrow>
     writable v \<and> short_ints v \<and> nests (write_depth st) v \<and> utf8_valid False (dumps v) \<and> t = dumps v"
  by (auto simp: tree_bytes_def bindr_eq_Inr dump_bytes_Inr walk_float)

lemma canonical_json_bytes_Inr:
  "canonical_json_bytes st v = Inr t \<longleftrightarrow>
     (\<exists>j. canonical_value v = Inr j \<and> short_ints j \<and> nests (write_depth st) j \<and> utf8_valid False (dumps j) \<and> t = dumps j)"
  by (simp add: canonical_json_bytes_def is_native_iff native_paths_agree bindr_eq_Inr dump_bytes_Inr)

section \<open>What the reader returns and what it raises\<close>

lemma read_unsigned_plain: "read_unsigned R neg s = Inr x \<Longrightarrow> read_unsigned plain_reader neg s = Inr x"
  by (auto simp: read_unsigned_def Let_def plain_reader_def fits_int_def split: if_splits prod.splits)

lemma read_number_plain: "read_number R s = Inr x \<Longrightarrow> read_number plain_reader s = Inr x"
  by (auto simp: read_number_def read_unsigned_plain split: list.splits if_splits)

lemma read_word_plain: "read_word R s = Inr x \<Longrightarrow> read_word plain_reader s = Inr x"
  unfolding read_word_def by (simp add: read_number_plain split: if_split_asm)

lemma read_word_leaf:
  assumes "read_word R s = Inr (v, r)" shows "v \<noteq> JList vs" "v \<noteq> JObj kvs" "v \<noteq> JStr t"
proof -
  have u: "read_unsigned R neg s' = Inr (v, r) \<Longrightarrow> v = JFloat \<or> (\<exists>n. v = JInt n)" for neg s'
    by (auto simp: read_unsigned_def Let_def split: if_splits prod.splits)
  have "read_number R s = Inr (v, r) \<Longrightarrow> v = JFloat \<or> (\<exists>n. v = JInt n)"
    by (auto simp: read_number_def u split: list.splits if_splits dest: u)
  then have "v = JFloat \<or> (\<exists>n. v = JInt n) \<or> v = JNull \<or> (\<exists>b. v = JBool b)"
    using assms unfolding read_word_def by (auto split: if_split_asm)
  then show "v \<noteq> JList vs" "v \<noteq> JObj kvs" "v \<noteq> JStr t" by auto
qed

text \<open>A hook that keeps the members, or refuses them.\<close>

definition keeps :: "json_reader \<Rightarrow> ((string \<times> json) list \<Rightarrow> bool) \<Rightarrow> bool" where
  "keeps R P \<longleftrightarrow> (\<forall>kvs v. object_hook R kvs = Inr v \<longrightarrow> v = JObj kvs \<and> P kvs)"

text \<open>Without limits the reader reads the same; what a reader with such a hook returns obeys the hook.\<close>

fun obeys :: "((string \<times> json) list \<Rightarrow> bool) \<Rightarrow> json \<Rightarrow> bool" where
  "obeys P (JList vs) = list_all (obeys P) vs"
| "obeys P (JObj kvs) = (P kvs \<and> list_all (\<lambda>(k, v). obeys P v) kvs)"
| "obeys P v = True"

lemma reader_keeps:
  assumes "keeps R P"
  shows "(\<forall>d s v r. read_value R n d s = Inr (v, r) \<longrightarrow> read_value plain_reader n None s = Inr (v, r) \<and> obeys P v) \<and>
    (\<forall>d s vs r. read_items R n d s = Inr (vs, r) \<longrightarrow>
       read_items plain_reader n None s = Inr (vs, r) \<and> list_all (obeys P) vs) \<and>
    (\<forall>d s kvs r. read_members R n d s = Inr (kvs, r) \<longrightarrow>
       read_members plain_reader n None s = Inr (kvs, r) \<and> list_all (\<lambda>(k, v). obeys P v) kvs)"
proof (induction n)
  case (Suc n)
  have V: "read_value R n d s = Inr (v, r) \<Longrightarrow> read_value plain_reader n None s = Inr (v, r) \<and> obeys P v"
    and I: "read_items R n d s = Inr (vs, r) \<Longrightarrow> read_items plain_reader n None s = Inr (vs, r) \<and> list_all (obeys P) vs"
    and M: "read_members R n d s = Inr (kvs, r) \<Longrightarrow>
      read_members plain_reader n None s = Inr (kvs, r) \<and> list_all (\<lambda>(k, v). obeys P v) kvs" for d s v r vs kvs
    using Suc.IH by blast+
  have plain: "object_hook plain_reader kvs = Inr (JObj kvs)" for kvs by (simp add: plain_reader_def)
  have hook: "object_hook R kvs = Inr v \<Longrightarrow> v = JObj kvs \<and> P kvs" for kvs v using assms by (simp add: keeps_def)
  have obj: "read_members R n d s = Inr (kvs, r) \<Longrightarrow> object_hook R kvs = Inr v \<Longrightarrow> obeys P v" for d s kvs r v
    using M hook by fastforce
  have empty: "object_hook R [] = Inr v \<Longrightarrow> obeys P v" for v using hook[of "[]" v] by auto
  have leaf: "read_word R s = Inr (v, r) \<Longrightarrow> obeys P v" for s v r using read_word_leaf[of R s v r] by (cases v) auto
  have "read_value plain_reader (Suc n) None s = Inr (v, r) \<and> obeys P v" if "read_value R (Suc n) d s = Inr (v, r)" for d s v r
    using that by (cases s)
      (auto simp: bindr_eq_Inr plain dest: obj empty hook I M leaf read_word_plain split: if_split_asm prod.splits)
  moreover have "read_items plain_reader (Suc n) None s = Inr (vs, r) \<and> list_all (obeys P) vs"
    if "read_items R (Suc n) d s = Inr (vs, r)" for d s vs r
    using that by (auto simp: bindr_eq_Inr dest!: I V split: if_split_asm prod.splits)
  moreover have "read_members plain_reader (Suc n) None s = Inr (kvs, r) \<and> list_all (\<lambda>(k, v). obeys P v) kvs"
    if m: "read_members R (Suc n) d s = Inr (kvs, r)" for d s kvs r
  proof -
    obtain cs k r1 v r2 where s: "s = dquote # cs" "read_string cs = Some (k, r1)" "starts '':'' (skip r1)"
      "read_value R n d (skip (tl (skip r1))) = Inr (v, r2)"
      using m by (cases s) (auto simp: bindr_eq_Inr split: if_split_asm)
    show ?thesis using m V[OF s(4)]
      by (cases "starts '','' (skip r2)") (auto simp: s bindr_eq_Inr dest!: M split: if_split_asm)
  qed
  ultimately show ?case by blast
qed simp_all

text \<open>What the reader raises.\<close>

lemma read_word_raises: "read_word R s = Inl e \<Longrightarrow> e = JSONDecodeError \<or> e = ValueError"
proof -
  have u: "read_unsigned R neg s' = Inl e \<Longrightarrow> e = JSONDecodeError \<or> e = ValueError" for neg s'
    by (auto simp: read_unsigned_def Let_def split: if_splits prod.splits)
  have "read_number R s = Inl e \<Longrightarrow> e = JSONDecodeError \<or> e = ValueError"
    by (auto simp: read_number_def split: list.splits if_splits dest: u)
  then show "read_word R s = Inl e \<Longrightarrow> e = JSONDecodeError \<or> e = ValueError"
    unfolding read_word_def by (auto split: if_split_asm)
qed

lemma found_Inl: "found m = Inl e \<Longrightarrow> e = JSONDecodeError"
  by (auto simp: found_def split: option.splits)

lemma reader_raises:
  assumes "\<And>kvs e. object_hook R kvs = Inl e \<Longrightarrow> e \<in> E" "{JSONDecodeError, ValueError, RecursionError} \<subseteq> E"
  shows "(\<forall>d s e. read_value R n d s = Inl e \<longrightarrow> e \<in> E) \<and> (\<forall>d s e. read_items R n d s = Inl e \<longrightarrow> e \<in> E) \<and>
    (\<forall>d s e. read_members R n d s = Inl e \<longrightarrow> e \<in> E)"
proof (induction n)
  case (Suc n)
  have IH: "read_value R n d s = Inl e \<Longrightarrow> e \<in> E" "read_items R n d s = Inl e \<Longrightarrow> e \<in> E"
    "read_members R n d s = Inl e \<Longrightarrow> e \<in> E" for d s e using Suc.IH by blast+
  have J: "JSONDecodeError \<in> E" "ValueError \<in> E" "RecursionError \<in> E" using assms(2) by auto
  have w: "read_word R s = Inl e \<Longrightarrow> e \<in> E" for s e using read_word_raises[of R s e] J by auto
  have f: "found m = Inl e \<Longrightarrow> e \<in> E" for m :: "(string \<times> string) option" and e using found_Inl[of m e] J by auto
  have "read_value R (Suc n) d s = Inl e \<Longrightarrow> e \<in> E" for d s e
    by (cases s) (auto simp: bindr_eq_Inl J dest: assms(1) IH w f split: if_split_asm prod.splits)
  moreover have "read_items R (Suc n) d s = Inl e \<Longrightarrow> e \<in> E" for d s e
    by (auto simp: bindr_eq_Inl J dest: IH split: if_split_asm prod.splits)
  moreover have "read_members R (Suc n) d s = Inl e \<Longrightarrow> e \<in> E" for d s e
    by (cases s) (auto simp: bindr_eq_Inl J dest: IH f split: if_split_asm prod.splits)
  ultimately show ?case by blast
qed (use assms(2) in simp_all)

section \<open>The fuel never runs out\<close>

lemma read_string_shorter: "read_string s = Some (t, r) \<Longrightarrow> length r < length s"
proof (induction s arbitrary: t rule: read_string.induct)
  case (2 c cs)
  then show ?case
    by (auto split: if_split_asm list.splits option.splits prod.splits dest!: low_escape_shorter) (use less_trans in fastforce)+
qed simp

lemma skip_shorter: "length (skip s) \<le> length s" "length (tl s) = length s - 1"
  by (simp_all add: skip_def length_dropWhile_le)

lemma starts_pos: "starts (c # p) s \<Longrightarrow> 0 < length s"
  by (cases s) simp_all

lemma read_word_shorter: "read_word R s = Inr (v, r) \<Longrightarrow> length r < length s"
proof -
  have f: "length (snd (read_fraction s)) \<le> length s" "length (snd (read_exponent s)) \<le> length s" for s
  proof -
    show "length (snd (read_fraction s)) \<le> length s"
      by (cases s) (auto simp: read_fraction_def intro: le_SucI length_dropWhile_le)
    show "length (snd (read_exponent s)) \<le> length s"
      by (cases s; cases "tl s") (auto simp: read_exponent_def Let_def intro!: le_SucI length_dropWhile_le)
  qed
  have u: "length r < length s" if "read_unsigned R neg s = Inr (v, r)" for neg s
  proof -
    let ?ds = "takeWhile is_digit s"
    let ?i = "if hd ?ds = CHR ''0'' then ''0'' else ?ds"
    have ds: "?ds \<noteq> []" using that by (auto simp: read_unsigned_def)
    then have s: "s \<noteq> []" by auto
    have i: "0 < length ?i" using ds by simp
    have "r = snd (read_exponent (snd (read_fraction (drop (length ?i) s))))"
      using that ds by (auto simp: read_unsigned_def Let_def split: if_split_asm prod.splits)
    then have "length r \<le> length (drop (length ?i) s)" using f le_trans by metis
    moreover have "length (drop (length ?i) s) < length s" using i s by simp
    ultimately show ?thesis by linarith
  qed
  have n: "read_number R s = Inr (v, r) \<Longrightarrow> length r < length s"
    by (cases s) (auto simp: read_number_def dest: u split: if_split_asm dest: less_SucI)
  show "read_word R s = Inr (v, r) \<Longrightarrow> length r < length s"
    unfolding read_word_def using starts_pos[of _ _ s] n by (auto split: if_split_asm)
qed

lemma reader_shorter:
  "(\<forall>d s v r. read_value R n d s = Inr (v, r) \<longrightarrow> length r < length s) \<and>
   (\<forall>d s vs r. read_items R n d s = Inr (vs, r) \<longrightarrow> length r < length s) \<and>
   (\<forall>d s kvs r. read_members R n d s = Inr (kvs, r) \<longrightarrow> length r < length s)"
proof (induction n)
  case (Suc n)
  have V: "read_value R n d s = Inr (v, r) \<Longrightarrow> length r < length s" and I: "read_items R n d s = Inr (vs, r) \<Longrightarrow> length r < length s"
    and M: "read_members R n d s = Inr (kvs, r) \<Longrightarrow> length r < length s" for d s v r vs kvs using Suc.IH by blast+
  have sk: "length (skip s) \<le> length s" "length (tl (skip s)) \<le> length s - 1" "length (skip (tl (skip s))) \<le> length s - 1" for s
    using skip_shorter[of s] skip_shorter(1)[of "tl (skip s)"] skip_shorter(2)[of "skip s"] by simp_all
  have "length r < length s" if "read_value R (Suc n) d s = Inr (v, r)" for d s v r
  proof (cases s)
    case (Cons c cs)
    then show ?thesis using that sk[of cs]
      by (auto simp: bindr_eq_Inr dest!: I M read_string_shorter read_word_shorter split: if_split_asm prod.splits)
  qed (use that in simp)
  moreover have "length r < length s" if m: "read_items R (Suc n) d s = Inr (vs, r)" for d s vs r
  proof -
    obtain v r1 where v: "read_value R n d s = Inr (v, r1)" using m by (auto simp: bindr_eq_Inr)
    show ?thesis using m V[OF v] sk[of r1] by (auto simp: v bindr_eq_Inr dest!: I split: if_split_asm)
  qed
  moreover have "length r < length s" if m: "read_members R (Suc n) d s = Inr (kvs, r)" for d s kvs r
  proof -
    obtain cs k r1 v r2 where s: "s = dquote # cs" "read_string cs = Some (k, r1)" "starts '':'' (skip r1)"
      "read_value R n d (skip (tl (skip r1))) = Inr (v, r2)"
      using m by (cases s) (auto simp: bindr_eq_Inr split: if_split_asm)
    show ?thesis using m V[OF s(4)] sk[of r1] sk[of r2] read_string_shorter[OF s(2)]
      by (auto simp: s bindr_eq_Inr dest!: M split: if_split_asm)
  qed
  ultimately show ?case by blast
qed simp_all

lemma fuel_step:
  "(\<forall>d s. 2 * length s < n \<longrightarrow> read_value R (Suc n) d s = read_value R n d s) \<and>
   (\<forall>d s. 2 * length s + 1 < n \<longrightarrow> read_items R (Suc n) d s = read_items R n d s) \<and>
   (\<forall>d s. 2 * length s < n \<longrightarrow> read_members R (Suc n) d s = read_members R n d s)"
proof (induction n)
  case (Suc n)
  have V: "2 * length s < n \<Longrightarrow> read_value R (Suc n) d s = read_value R n d s"
    and I: "2 * length s + 1 < n \<Longrightarrow> read_items R (Suc n) d s = read_items R n d s"
    and M: "2 * length s < n \<Longrightarrow> read_members R (Suc n) d s = read_members R n d s" for d s using Suc.IH by blast+
  have sk: "length (skip s) \<le> length s" "length (skip (tl (skip s))) \<le> length s - 1" for s
    using skip_shorter[of s] skip_shorter(1)[of "tl (skip s)"] skip_shorter(2)[of "skip s"] by simp_all
  have R: "read_value R n d s = Inr (v, r) \<Longrightarrow> length r < length s" for d s v r using reader_shorter by blast
  have "read_value R (Suc (Suc n)) d s = read_value R (Suc n) d s" if "2 * length s < Suc n" for d s
  proof (cases s)
    case (Cons c cs)
    have "2 * length (skip cs) + 1 < n" using that sk(1)[of cs] Cons by simp
    then show ?thesis using I[of "skip cs" "deeper d"] M[of "skip cs" "deeper d"]
      by (simp only: Cons read_value.simps list.case)
  qed simp
  moreover have "read_items R (Suc (Suc n)) d s = read_items R (Suc n) d s" if "2 * length s + 1 < Suc n" for d s
  proof -
    have v: "read_value R (Suc n) d s = read_value R n d s" using V that by simp
    show ?thesis
    proof (cases "read_value R n d s")
      case (Inr vr)
      obtain w r where vr: "vr = (w, r)" by (cases vr)
      have "length r < length s" using R Inr vr by blast
      then have "2 * length (skip (tl (skip r))) + 1 < n" using that sk(2)[of r] by simp
      then show ?thesis using I[of "skip (tl (skip r))" d]
        by (simp only: read_items.simps v Inr vr bindr_Inr prod.case)
    qed (simp only: read_items.simps v bindr_Inl)
  qed
  moreover have "read_members R (Suc (Suc n)) d s = read_members R (Suc n) d s" if "2 * length s < Suc n" for d s
  proof (cases s)
    case (Cons c cs)
    show ?thesis
    proof (cases "read_string cs")
      case (Some kr)
      obtain k r where kr: "kr = (k, r)" by (cases kr)
      have r: "length r < length cs" using Some kr read_string_shorter by blast
      let ?t = "skip (tl (skip r))"
      have t: "2 * length ?t < n" using r that sk(2)[of r] Cons by simp
      note v = V[OF t, of d]
      show ?thesis
      proof (cases "read_value R n d ?t")
        case (Inr vr)
        obtain w r2 where vr: "vr = (w, r2)" by (cases vr)
        have "length r2 < length ?t" using R Inr vr by blast
        then have "2 * length (skip (tl (skip r2))) < n" using t sk(2)[of r2] by simp
        then show ?thesis using M[of "skip (tl (skip r2))" d]
          by (simp only: Cons read_members.simps list.case Some kr found_simps bindr_Inr prod.case v Inr vr)
      qed (simp only: Cons read_members.simps list.case Some kr found_simps bindr_Inr bindr_Inl prod.case v)
    qed (simp only: Cons read_members.simps list.case found_simps bindr_Inl)
  qed simp
  ultimately show ?case by blast
qed simp

text \<open>More fuel than \<open>read_text\<close> takes changes nothing.\<close>

lemma fuel_enough: "read_value R (2 * length s + 2 + k) d s = read_value R (2 * length s + 2) d s"
proof (induction k)
  case (Suc k)
  then show ?case using fuel_step[of "2 * length s + 2 + k" R] by (simp del: read_value.simps)
qed simp

end
