(* ===== verification/Checkpoints.thy ===== *)
theory Checkpoints
  imports JsonBytes "HOL-Library.Product_Lexorder" "HOL-Library.Multiset"
begin

text \<open>
  Replay checkpoints (\<open>backend/app/replay/checkpoints.py\<close>): the codec that wraps a component
  payload in a canonical JSON envelope with a checksum, compresses large envelopes and accepts
  nothing but the exact bytes it would write, and the ring that keeps the initial checkpoint and
  the most recent ones and selects the latest usable one. The zlib library is an argument: its
  one-shot compressor and the operations of its streaming decompressor. The limits of the
  interpreter are an argument as well: what they make the code raise is part of the model.
\<close>

section \<open>The codec\<close>

definition CHECKPOINT_ZLIB_MAGIC :: string where
  "CHECKPOINT_ZLIB_MAGIC = ''CSRP-ZLIB-V1'' @ [CHR 0x00]"

definition CHECKPOINT_COMPRESSION_MIN_BYTES :: int where
  "CHECKPOINT_COMPRESSION_MIN_BYTES = 32 * 1024"

definition CHECKPOINT_MAX_RAW_BYTES :: int where
  "CHECKPOINT_MAX_RAW_BYTES = 512 * 1024 * 1024"

text \<open>
  \<open>zlib.compress\<close>, and the decompressor object: its operations return the bytes produced and the
  next state of the object, \<open>None\<close> is \<open>zlib.error\<close>.
\<close>

record 'z zlib =
  compress :: "string \<Rightarrow> string"
  decompressobj :: 'z
  decompress :: "'z \<Rightarrow> string \<Rightarrow> int \<Rightarrow> (string \<times> 'z) option"
  unconsumed_tail :: "'z \<Rightarrow> string"
  flush :: "'z \<Rightarrow> int \<Rightarrow> (string \<times> 'z) option"
  eof :: "'z \<Rightarrow> bool"
  unused_data :: "'z \<Rightarrow> string"

text \<open>The bytes \<open>encode\<close> assembles by hand around the canonical bytes of its parts.\<close>

definition checksum_material :: "string \<Rightarrow> string \<Rightarrow> string" where
  "checksum_material payload_bytes schema_bytes =
     ''{'' @ quote ''payload'' @ '':'' @ payload_bytes @ '','' @ quote ''schema_version'' @ '':'' @ schema_bytes @ ''}''"

definition envelope_bytes :: "string \<Rightarrow> string \<Rightarrow> string \<Rightarrow> string" where
  "envelope_bytes checksum_bytes payload_bytes schema_bytes =
     ''{'' @ quote ''checksum'' @ '':'' @ checksum_bytes @ '','' @ quote ''payload'' @ '':'' @ payload_bytes @ '','' @
     quote ''schema_version'' @ '':'' @ schema_bytes @ ''}''"

definition encode :: "json_stack \<Rightarrow> 'z zlib \<Rightarrow> digest_fun \<Rightarrow> string \<Rightarrow> pyval \<Rightarrow> string res" where
  "encode st z digest schema payload =
     bindr (case payload of PDict kvs \<Rightarrow> Inr (PDict kvs) | PMapping kvs \<Rightarrow> Inr (PDict kvs) | _ \<Rightarrow> Inl TypeError) (\<lambda>normalized.
     bindr (canonical_json_bytes st normalized) (\<lambda>payload_bytes.
     bindr (canonical_json_bytes st (PStr schema)) (\<lambda>schema_bytes.
     let checksum = sha_text digest (checksum_material payload_bytes schema_bytes) in
     bindr (canonical_json_bytes st (PStr checksum)) (\<lambda>checksum_bytes.
     let encoded = envelope_bytes checksum_bytes payload_bytes schema_bytes in
     if int (length encoded) > CHECKPOINT_MAX_RAW_BYTES then Inl CheckpointError
     else if int (length encoded) < CHECKPOINT_COMPRESSION_MIN_BYTES then Inr encoded
     else let framed = CHECKPOINT_ZLIB_MAGIC @ compress z encoded
          in Inr (if length framed < length encoded then framed else encoded)))))"

text \<open>
  The decompression loop: at most one byte more than the budget is ever asked for. A decompressor
  that keeps a tail without producing anything would make it run for ever.
\<close>

partial_function (option) inflate_loop :: "'z zlib \<Rightarrow> 'z \<Rightarrow> string \<Rightarrow> string \<Rightarrow> (string \<times> 'z) res option" where
  "inflate_loop z d out pending =
     (if pending = [] then Some (Inr (out, d))
      else if CHECKPOINT_MAX_RAW_BYTES + 1 - int (length out) \<le> 0 then Some (Inl CheckpointError)
      else case decompress z d pending (CHECKPOINT_MAX_RAW_BYTES + 1 - int (length out)) of
             None \<Rightarrow> Some (Inl CheckpointError)
           | Some (chunk, d') \<Rightarrow> inflate_loop z d' (out @ chunk) (unconsumed_tail z d'))"

definition decode_wire :: "'z zlib \<Rightarrow> string \<Rightarrow> string res option" where
  "decode_wire z encoded =
     (if \<not> starts CHECKPOINT_ZLIB_MAGIC encoded then
        Some (if int (length encoded) > CHECKPOINT_MAX_RAW_BYTES then Inl CheckpointError else Inr encoded)
      else if drop (length CHECKPOINT_ZLIB_MAGIC) encoded = [] then Some (Inl CheckpointError)
      else bindo (inflate_loop z (decompressobj z) [] (drop (length CHECKPOINT_ZLIB_MAGIC) encoded)) (\<lambda>(out, d).
        if CHECKPOINT_MAX_RAW_BYTES + 1 - int (length out) \<le> 0 then Some (Inl CheckpointError)
        else case flush z d (CHECKPOINT_MAX_RAW_BYTES + 1 - int (length out)) of
               None \<Rightarrow> Some (Inl CheckpointError)
             | Some (rest, d') \<Rightarrow>
                 if \<not> eof z d' \<or> unused_data z d' \<noteq> [] \<or> unconsumed_tail z d' \<noteq> []
                    \<or> int (length (out @ rest)) > CHECKPOINT_MAX_RAW_BYTES
                 then Some (Inl CheckpointError) else Some (Inr (out @ rest))))"

text \<open>\<open>_strict_object\<close>, the hook of the reader: a duplicate key is refused while reading.\<close>

definition strict_object :: "(string \<times> json) list \<Rightarrow> json res" where
  "strict_object pairs = (if distinct (map fst pairs) then Inr (JObj pairs) else Inl CheckpointError)"

definition envelope_fields :: "string list" where
  "envelope_fields = [''schema_version'', ''checksum'', ''payload'']"

text \<open>
  What \<open>decode\<close> does with the wire bytes. It catches the two errors of malformed text and no other:
  an integer too long, a nesting too deep, a binary float and a lone surrogate are raised as they
  are. The message of a wrong schema version formats the value it found.
\<close>

definition decode_envelope :: "json_stack \<Rightarrow> digest_fun \<Rightarrow> string \<Rightarrow> string \<Rightarrow> json res" where
  "decode_envelope st digest schema wire =
     (case json_loads strict_object (read_depth st) wire of
        Inl e \<Rightarrow> Inl (if e = UnicodeDecodeError \<or> e = JSONDecodeError then CheckpointError else e)
      | Inr decoded \<Rightarrow>
          (case decoded of
             JObj kvs \<Rightarrow>
               if set (map fst kvs) \<noteq> set envelope_fields then Inl CheckpointError
               else if dict_get kvs ''schema_version'' \<noteq> JStr schema then
                 bindr (walk (\<lambda>_. Inr ()) (repr_depth st) (dict_get kvs ''schema_version'')) (\<lambda>_. Inl CheckpointError)
               else bindr (tree_bytes st decoded) (\<lambda>canonical.
                 if canonical \<noteq> wire then Inl CheckpointError
                 else (case dict_get kvs ''payload'' of
                    JObj payload \<Rightarrow>
                      bindr (dump_bytes (hash_depth st) (JObj [(''schema_version'', JStr schema), (''payload'', JObj payload)]))
                        (\<lambda>material.
                          if dict_get kvs ''checksum'' \<noteq> JStr (sha_text digest material) then Inl CheckpointError
                          else Inr (JObj payload))
                  | _ \<Rightarrow> Inl CheckpointError))
           | _ \<Rightarrow> Inl CheckpointError))"

definition decode :: "json_stack \<Rightarrow> 'z zlib \<Rightarrow> digest_fun \<Rightarrow> string \<Rightarrow> string \<Rightarrow> json res option" where
  "decode st z digest schema encoded =
     (if encoded = [] then Some (Inl CheckpointError)
      else bindo (decode_wire z encoded) (\<lambda>wire. Some (decode_envelope st digest schema wire)))"

section \<open>The ring\<close>

definition MAX_TIMESTAMP_MS :: int where
  "MAX_TIMESTAMP_MS = 253402300799999"

definition validate_timestamp_ms :: "int \<Rightarrow> int res" where
  "validate_timestamp_ms t = bindr (validate_counter t) (\<lambda>t. if t > MAX_TIMESTAMP_MS then Inl ValueError else Inr t)"

record checkpoint_record =
  cp_encoded :: string
  cp_virtual_time_ms :: int
  cp_source_sequence :: int
  cp_state_hash :: string
  cp_initial :: bool

record ring_metrics =
  added :: nat
  recent_evictions :: nat
  corrupt_fallbacks :: nat
  mismatch_fallbacks :: nat
  selection_failures :: nat

record checkpoint_ring =
  max_recent :: nat
  ring_initial :: "checkpoint_record option"
  ring_recent :: "checkpoint_record list"
  ring_metrics :: ring_metrics

definition new_ring :: "int \<Rightarrow> checkpoint_ring res" where
  "new_ring maxr =
     (if maxr < 1 then Inl ValueError
      else Inr \<lparr>max_recent = nat maxr, ring_initial = None, ring_recent = [],
            ring_metrics = \<lparr>added = 0, recent_evictions = 0, corrupt_fallbacks = 0, mismatch_fallbacks = 0, selection_failures = 0\<rparr>\<rparr>)"

text \<open>\<open>deque(maxlen=n).append\<close>.\<close>

definition deque_append :: "nat \<Rightarrow> 'a list \<Rightarrow> 'a \<Rightarrow> 'a list" where
  "deque_append n xs x = (let ys = xs @ [x] in drop (length ys - n) ys)"

definition ring_add :: "string \<Rightarrow> int \<Rightarrow> int \<Rightarrow> string \<Rightarrow> bool \<Rightarrow> checkpoint_ring \<Rightarrow> (checkpoint_ring \<times> checkpoint_record) res" where
  "ring_add encoded virtual_time sq state_hash initial r =
     (if encoded = [] then Inl ValueError
      else bindr (validate_timestamp_ms virtual_time) (\<lambda>t.
      bindr (validate_counter sq) (\<lambda>n.
      let cp = \<lparr>cp_encoded = encoded, cp_virtual_time_ms = t, cp_source_sequence = n, cp_state_hash = state_hash, cp_initial = initial\<rparr> in
      if initial \<and> ring_initial r \<noteq> None then Inl ValueError
      else let r' = (if initial then r\<lparr>ring_initial := Some cp\<rparr>
                     else r\<lparr>ring_recent := deque_append (max_recent r) (ring_recent r) cp,
                            ring_metrics := (if length (ring_recent r) = max_recent r
                                             then (ring_metrics r)\<lparr>recent_evictions := Suc (recent_evictions (ring_metrics r))\<rparr>
                                             else ring_metrics r)\<rparr>)
           in Inr (r'\<lparr>ring_metrics := (ring_metrics r')\<lparr>added := Suc (added (ring_metrics r'))\<rparr>\<rparr>, cp))))"

definition records :: "checkpoint_ring \<Rightarrow> checkpoint_record list" where
  "records r = (case ring_initial r of None \<Rightarrow> [] | Some c \<Rightarrow> [c]) @ ring_recent r"

text \<open>\<open>sorted(..., key=..., reverse=True)\<close> keeps the order of equal keys.\<close>

definition cp_key :: "checkpoint_record \<Rightarrow> int \<times> int" where
  "cp_key c = (cp_virtual_time_ms c, cp_source_sequence c)"

definition candidates :: "checkpoint_ring \<Rightarrow> int \<Rightarrow> checkpoint_record list" where
  "candidates r target =
     rev (sort_key cp_key (rev (List.filter (\<lambda>c. cp_virtual_time_ms c \<le> target) (records r))))"

text \<open>
  The selection loop. \<open>decoder\<close> is the codec's \<open>decode\<close>; a validator answers or raises, and an
  exception of it counts as a refusal. Only \<open>CheckpointError\<close> is caught around the decoder.
\<close>

fun select_loop ::
  "(string \<Rightarrow> json res option) \<Rightarrow> (json \<Rightarrow> bool res) option \<Rightarrow> checkpoint_record list \<Rightarrow> ring_metrics \<Rightarrow>
   (ring_metrics \<times> (checkpoint_record \<times> json) res) option"
where
  "select_loop decoder validator [] m = Some (m\<lparr>selection_failures := Suc (selection_failures m)\<rparr>, Inl DatasetMismatch)"
| "select_loop decoder validator (c # cs) m =
     (case decoder (cp_encoded c) of
        None \<Rightarrow> None
      | Some (Inl e) \<Rightarrow>
          if e = CheckpointError
          then select_loop decoder validator cs (m\<lparr>corrupt_fallbacks := Suc (corrupt_fallbacks m)\<rparr>)
          else Some (m, Inl e)
      | Some (Inr payload) \<Rightarrow>
          (case validator of
             None \<Rightarrow> Some (m, Inr (c, payload))
           | Some check \<Rightarrow>
               if check payload = Inr True then Some (m, Inr (c, payload))
               else select_loop decoder validator cs (m\<lparr>mismatch_fallbacks := Suc (mismatch_fallbacks m)\<rparr>)))"

definition select_valid ::
  "(string \<Rightarrow> json res option) \<Rightarrow> int \<Rightarrow> (json \<Rightarrow> bool res) option \<Rightarrow> checkpoint_ring \<Rightarrow>
   (checkpoint_ring \<times> (checkpoint_record \<times> json) res) option"
where
  "select_valid decoder target_time validator r =
     (case validate_timestamp_ms target_time of
        Inl e \<Rightarrow> Some (r, Inl e)
      | Inr target \<Rightarrow>
          map_option (\<lambda>(m, out). (r\<lparr>ring_metrics := m\<rparr>, out))
            (select_loop decoder validator (candidates r target) (ring_metrics r)))"

section \<open>The envelope is canonical JSON\<close>

definition envelope :: "string \<Rightarrow> string \<Rightarrow> json \<Rightarrow> json" where
  "envelope checksum schema p = JObj [(''checksum'', JStr checksum), (''payload'', p), (''schema_version'', JStr schema)]"

definition signed :: "string \<Rightarrow> json \<Rightarrow> json" where
  "signed schema p = JObj [(''schema_version'', JStr schema), (''payload'', p)]"

lemma canon_envelope: "canon (envelope ck schema p) = envelope ck schema (canon p)"
  by (simp add: envelope_def)

lemma canon_signed: "canon (signed schema p) = JObj [(''payload'', canon p), (''schema_version'', JStr schema)]"
  by (simp add: signed_def)

lemma envelope_bytes_dumps: "envelope_bytes (quote ck) (dumps p) (quote schema) = dumps (envelope ck schema p)"
  unfolding dumps_def canon_envelope by (simp add: envelope_def envelope_bytes_def)

lemma checksum_material_dumps: "checksum_material (dumps p) (quote schema) = dumps (signed schema p)"
  unfolding dumps_def canon_signed by (simp add: checksum_material_def)

lemma signed_canon: "dumps (signed schema (canon p)) = dumps (signed schema p)"
  by (simp only: dumps_def canon_signed canon_idem)

lemma canon_dict_like: "dict_like v \<Longrightarrow> dict_like (canon v)"
proof (induction v rule: canon.induct)
  case (2 kvs)
  let ?f = "\<lambda>(k, v). (k, canon v)"
  have "dict_like (canon v)" if "(k, v) \<in> set kvs" for k v
    using "2.prems" "2.IH"[OF that refl] that by (auto simp: list_all_iff)
  moreover have "distinct (map fst (sort_key fst (map ?f kvs)))"
  proof -
    have "mset (map fst (sort_key fst (map ?f kvs))) = mset (map fst kvs)"
      by (simp add: image_mset.compositionality comp_def split_beta)
    then show ?thesis using "2.prems" by (metis dict_like.simps(2) mset_eq_imp_distinct_iff)
  qed
  ultimately show ?case by (auto simp: list_all_iff)
qed (simp_all add: list_all_iff)

lemma dict_like_obeys: "obeys (\<lambda>kvs. distinct (map fst kvs)) v = dict_like v"
  by (induction v rule: dict_like.induct) (auto simp: list_all_iff)

lemma readable_strict:
  "writable v \<Longrightarrow> dict_like v \<Longrightarrow> short_ints v \<Longrightarrow> nests d v \<Longrightarrow> readable (limited_reader strict_object) (Some d) v"
proof (induction d v rule: nests.induct)
  case (2 d kvs)
  have "readable (limited_reader strict_object) (Some (d - 1)) v" if "(k, v) \<in> set kvs" for k v
    using 2 that by (fastforce simp: list_all_iff)
  moreover have "object_hook (limited_reader strict_object) kvs = Inr (JObj kvs)"
    using 2(3) by (simp add: limited_reader_def strict_object_def)
  ultimately show ?case using 2(5) by (auto simp: list_all_iff)
qed (auto simp: limited_reader_def strict_object_def list_all_iff)

lemma dumps_object_head: "\<exists>c r. dumps (JObj kvs) = CHR ''{'' # c # r \<and> c \<noteq> CHR 0x00"
proof -
  obtain kvs' where c: "canon (JObj kvs) = JObj kvs'" by simp
  show ?thesis unfolding dumps_def c
    by (cases kvs'; cases "tl kvs'") (auto simp: quote_def dquote_def)
qed

text \<open>The nesting of a payload that every recursion over its envelope can take.\<close>

definition nests_within :: "json_stack \<Rightarrow> json \<Rightarrow> bool" where
  "nests_within st p \<longleftrightarrow> list_all (\<lambda>d. nests d (JList [p])) [read_depth st, write_depth st, hash_depth st]"

lemma nests_envelope: "nests d (envelope ck schema p) = nests d (JList [p])" "nests d (signed schema p) = nests d (JList [p])"
  by (auto simp: envelope_def signed_def)

lemma decode_own_envelope:
  assumes "writable (JObj kvs)" "dict_like (JObj kvs)" "short_ints (JObj kvs)" "nests_within st (JObj kvs)"
    "ck = sha_json digest (signed schema (JObj kvs))" "utf8_valid False (dumps (envelope ck schema (JObj kvs)))"
    "utf8_valid False (dumps (signed schema (JObj kvs)))"
  shows "decode_envelope st digest schema (dumps (envelope ck schema (JObj kvs))) = Inr (canon (JObj kvs))"
proof -
  let ?E = "envelope ck schema (JObj kvs)"
  have E: "writable ?E" "dict_like ?E" "short_ints ?E" using assms(1-3) by (simp_all add: envelope_def)
  obtain kvs' where c: "canon (JObj kvs) = JObj kvs'" by simp
  let ?S = "signed schema (JObj kvs')"
  have S: "dumps ?S = dumps (signed schema (JObj kvs))" using signed_canon[of schema "JObj kvs"] unfolding c .
  have n: "nests d ?E" "nests d ?S" if "d \<in> {read_depth st, write_depth st, hash_depth st}" for d
  proof -
    have k: "nests d (JList [JObj kvs])" using assms(4) that by (auto simp: nests_within_def)
    then show "nests d ?E" by (simp only: nests_envelope)
    have "nests d (canon (JList [JObj kvs]))" using k by (simp only: canon_limits)
    then show "nests d ?S" unfolding nests_envelope using c by (simp del: canon.simps(2))
  qed
  have "readable (limited_reader strict_object) (Some (read_depth st)) (canon ?E)"
    using E n by (intro readable_strict canon_writable canon_dict_like) (simp_all add: canon_limits)
  then have "read_text (limited_reader strict_object) (Some (read_depth st)) (dumps ?E) = Inr (canon ?E)"
    unfolding dumps_def by (rule read_text_of)
  moreover obtain x r where "dumps ?E = CHR ''{'' # x # r" "x \<noteq> CHR 0x00" unfolding envelope_def using dumps_object_head by blast
  ultimately have l: "json_loads strict_object (read_depth st) (dumps ?E) = Inr (envelope ck schema (JObj kvs'))"
    using decode_object_text[OF assms(6)] unfolding canon_envelope c by (simp add: json_loads_def)
  have "tree_bytes st (canon ?E) = Inr (dumps ?E)"
    using E n assms(6) by (simp add: tree_bytes_Inr canon_writable canon_limits)
  then have t: "tree_bytes st (envelope ck schema (JObj kvs')) = Inr (dumps ?E)" by (simp only: canon_envelope c)
  have "short_ints ?S" using assms(3) canon_limits(1)[of "JObj kvs"] unfolding c by (simp add: signed_def)
  then have h: "dump_bytes (hash_depth st) ?S = Inr (dumps ?S)" using n assms(7) S by (simp add: dump_bytes_Inr)
  have k: "sha_text digest (dumps ?S) = ck" using S assms(5) by (simp add: sha_json_def)
  show ?thesis
    unfolding decode_envelope_def l sum.case c
    unfolding envelope_def json.case using t h k by (simp add: envelope_def signed_def envelope_fields_def insert_commute)
qed

text \<open>Conversely, what is accepted is the envelope of its payload, byte for byte.\<close>

lemma decode_envelope_exact:
  assumes "decode_envelope st digest schema wire = Inr p"
  shows "\<exists>kvs. p = JObj kvs \<and> canon p = p \<and> dict_like p \<and> writable p \<and>
    wire = dumps (envelope (sha_json digest (signed schema p)) schema p)"
proof -
  obtain kvs payload where k: "json_loads strict_object (read_depth st) wire = Inr (JObj kvs)"
    "set (map fst kvs) = set envelope_fields" "dict_get kvs ''schema_version'' = JStr schema"
    "tree_bytes st (JObj kvs) = Inr wire" "dict_get kvs ''payload'' = JObj payload"
    "dict_get kvs ''checksum'' = JStr (sha_json digest (signed schema (JObj payload)))" "p = JObj payload"
  proof -
    obtain kvs where k: "json_loads strict_object (read_depth st) wire = Inr (JObj kvs)"
      using assms by (auto simp: decode_envelope_def split: sum.splits json.splits)
    have b: "set (map fst kvs) = set envelope_fields" "dict_get kvs ''schema_version'' = JStr schema"
      "tree_bytes st (JObj kvs) = Inr wire" "\<exists>payload. dict_get kvs ''payload'' = JObj payload"
      using assms unfolding decode_envelope_def k sum.case json.case by (auto simp: bindr_eq_Inr split: json.splits if_splits)
    then obtain payload where pl: "dict_get kvs ''payload'' = JObj payload" by blast
    show thesis using assms b that[OF k b(1-3) pl] unfolding decode_envelope_def k sum.case json.case pl
      by (auto simp: bindr_eq_Inr dump_bytes_Inr signed_def sha_json_def split: if_splits)
  qed
  have w: "writable (JObj kvs)" "utf8_valid False wire" "dumps (JObj kvs) = wire" using k(4) by (simp_all add: tree_bytes_Inr)
  obtain x r where "wire = CHR ''{'' # x # r" "x \<noteq> CHR 0x00" using dumps_object_head[of kvs] w(3) by auto
  then have "decode_text wire = Inr wire" by (rule decode_object_text[OF w(2)])
  then obtain n rest where r: "read_value (limited_reader strict_object) n (Some (read_depth st)) (skip wire) = Inr (JObj kvs, rest)"
    "skip rest = []" "n = 2 * length wire + 2"
    using k(1) by (auto simp: json_loads_def read_text_def bindr_eq_Inr split: if_splits)
  have "keeps (limited_reader strict_object) (\<lambda>kvs. distinct (map fst kvs))"
    by (simp add: keeps_def limited_reader_def strict_object_def)
  from reader_keeps[OF this, of n] have keep: "read_value plain_reader n None (skip wire) = Inr (JObj kvs, rest)"
    "obeys (\<lambda>kvs. distinct (map fst kvs)) (JObj kvs)" using r(1) by blast+
  have d: "dict_like (JObj kvs)" using keep(2) by (simp only: dict_like_obeys)
  have "loads wire = Some (JObj kvs)" using keep(1) r(2,3) by (simp add: loads_def read_text_def del: read_value.simps)
  moreover have "loads wire = Some (canon (JObj kvs))" using loads_dumps[OF w(1)] w(3) by simp
  ultimately have can: "canon (JObj kvs) = JObj kvs" by simp
  let ?f = "\<lambda>(k, v). (k, canon v)"
  have srt: "kvs = sort_key fst (map ?f kvs)" using can by simp
  then have "sorted (map fst kvs)" by (metis sorted_sort_key)
  moreover have "distinct (map fst kvs)" using d by simp
  moreover have "sorted [''checksum'', ''payload'', ''schema_version'']" "distinct [''checksum'', ''payload'', ''schema_version'']" by simp_all
  moreover have "set (map fst kvs) = set [''checksum'', ''payload'', ''schema_version'']" using k(2) by (auto simp: envelope_fields_def)
  ultimately have keys: "map fst kvs = [''checksum'', ''payload'', ''schema_version'']" by (rule sorted_distinct_set_unique)
  then obtain a b c where "kvs = [(''checksum'', a), (''payload'', b), (''schema_version'', c)]" by (auto simp: map_eq_Cons_conv)
  then have kvs: "kvs = [(''checksum'', JStr (sha_json digest (signed schema p))), (''payload'', p), (''schema_version'', JStr schema)]"
    using k(3,5,6,7) by simp
  have env: "JObj kvs = envelope (sha_json digest (signed schema p)) schema p" by (simp add: kvs envelope_def)
  have "canon p = p" using can unfolding env canon_envelope by (simp add: envelope_def)
  moreover have "dict_like p" "writable p" using d w(1) by (simp_all add: kvs)
  ultimately show ?thesis using w(3) k(7) env by auto
qed

section \<open>Decompression under a budget\<close>

text \<open>
  What the zlib documentation says of \<open>decompress(data, max_length)\<close>: at most \<open>max_length\<close> bytes
  come back, and input is left over in \<open>unconsumed_tail\<close> only when that limit was reached.
\<close>

definition respects_limit :: "'z zlib \<Rightarrow> bool" where
  "respects_limit z \<longleftrightarrow>
     (\<forall>d p n chunk d'. 0 < n \<longrightarrow> decompress z d p n = Some (chunk, d') \<longrightarrow>
        int (length chunk) \<le> n \<and> (unconsumed_tail z d' \<noteq> [] \<longrightarrow> int (length chunk) = n))"

text \<open>
  And of whole streams: \<open>stream d p x\<close> is that the object, given the input \<open>p\<close>, still has the bytes
  \<open>x\<close> to produce; the output of \<open>compress\<close> starts such a stream, and \<open>flush\<close> ends it.
\<close>

definition inflates :: "'z zlib \<Rightarrow> ('z \<Rightarrow> string \<Rightarrow> string \<Rightarrow> bool) \<Rightarrow> bool" where
  "inflates z stream \<longleftrightarrow>
     (\<forall>x. compress z x \<noteq> [] \<and> stream (decompressobj z) (compress z x) x) \<and>
     (\<forall>d p x n. stream d p x \<longrightarrow> p \<noteq> [] \<longrightarrow> 0 < n \<longrightarrow>
        (\<exists>chunk x' d'. decompress z d p n = Some (chunk, d') \<and> x = chunk @ x' \<and> stream d' (unconsumed_tail z d') x')) \<and>
     (\<forall>d x n. stream d [] x \<longrightarrow> int (length x) < n \<longrightarrow>
        (\<exists>d'. flush z d n = Some (x, d') \<and> eof z d' \<and> unused_data z d' = [] \<and> unconsumed_tail z d' = []))"

lemma limit_pos: "0 < CHECKPOINT_MAX_RAW_BYTES"
  by (simp add: CHECKPOINT_MAX_RAW_BYTES_def)

lemma limited:
  assumes "respects_limit z" "decompress z d p (CHECKPOINT_MAX_RAW_BYTES + 1) = Some (chunk, d')"
  shows "int (length chunk) \<le> CHECKPOINT_MAX_RAW_BYTES + 1"
    "unconsumed_tail z d' \<noteq> [] \<Longrightarrow> int (length chunk) = CHECKPOINT_MAX_RAW_BYTES + 1"
proof -
  have "0 < CHECKPOINT_MAX_RAW_BYTES + 1" using limit_pos by linarith
  then show "int (length chunk) \<le> CHECKPOINT_MAX_RAW_BYTES + 1"
    "unconsumed_tail z d' \<noteq> [] \<Longrightarrow> int (length chunk) = CHECKPOINT_MAX_RAW_BYTES + 1"
    using assms unfolding respects_limit_def by blast+
qed

text \<open>Two rounds are all the loop can take.\<close>

lemma inflate_loop_cases:
  assumes "respects_limit z" "p \<noteq> []"
  shows "inflate_loop z d [] p = Some (Inl CheckpointError) \<or>
    (\<exists>chunk d'. decompress z d p (CHECKPOINT_MAX_RAW_BYTES + 1) = Some (chunk, d') \<and> unconsumed_tail z d' = [] \<and>
       inflate_loop z d [] p = Some (Inr (chunk, d')) \<and> int (length chunk) \<le> CHECKPOINT_MAX_RAW_BYTES + 1)"
proof (cases "decompress z d p (CHECKPOINT_MAX_RAW_BYTES + 1)")
  case None
  then show ?thesis using assms(2) limit_pos by (simp add: inflate_loop.simps)
next
  case (Some r)
  obtain chunk d' where r: "decompress z d p (CHECKPOINT_MAX_RAW_BYTES + 1) = Some (chunk, d')" using Some by (cases r) simp
  note lim = limited[OF assms(1) r]
  have one: "inflate_loop z d [] p = inflate_loop z d' chunk (unconsumed_tail z d')"
    using assms(2) r limit_pos by (subst inflate_loop.simps) simp
  show ?thesis
  proof (cases "unconsumed_tail z d' = []")
    case True
    then show ?thesis using one r lim by (simp add: inflate_loop.simps)
  next
    case False
    then show ?thesis using one lim by (simp add: inflate_loop.simps)
  qed
qed

lemma decode_wire_total:
  assumes "respects_limit z"
  shows "decode_wire z e \<noteq> None"
proof (cases "drop (length CHECKPOINT_ZLIB_MAGIC) e = []")
  case False
  then show ?thesis using inflate_loop_cases[OF assms False, of "decompressobj z"]
    by (auto simp: decode_wire_def Let_def split: option.splits)
qed (simp add: decode_wire_def)

lemma decode_wire_bounded: "decode_wire z e = Some (Inr wire) \<Longrightarrow> int (length wire) \<le> CHECKPOINT_MAX_RAW_BYTES"
  by (auto simp: decode_wire_def res_simps not_less split: if_splits option.splits)

text \<open>The exceptions of \<open>decode\<close> that \<open>select_valid\<close> does not catch.\<close>

definition uncaught :: "py_error \<Rightarrow> bool" where
  "uncaught e \<longleftrightarrow> e \<in> {TypeError, ValueError, RecursionError, UnicodeEncodeError}"

lemma mapr_Inl: "mapr f xs = Inl e \<Longrightarrow> \<exists>x \<in> set xs. f x = Inl e"
  by (induction xs) (auto simp: bindr_eq_Inl)

lemma walk_raises: "walk leaf d v = Inl e \<Longrightarrow> (\<And>v e. leaf v = Inl e \<Longrightarrow> e \<in> E) \<Longrightarrow> RecursionError \<in> E \<Longrightarrow> e \<in> E"
proof (induction leaf d v rule: walk.induct)
  case (2 leaf d kvs)
  then show ?case by (fastforce simp: bindr_eq_Inl dest!: mapr_Inl split: if_split_asm)
qed (fastforce simp: bindr_eq_Inl dest!: mapr_Inl split: if_split_asm)+

lemma decode_envelope_raises:
  assumes "decode_envelope st digest schema wire = Inl e" shows "e = CheckpointError \<or> uncaught e"
proof -
  let ?E = "{TypeError, ValueError, RecursionError, UnicodeEncodeError}"
  let ?R = "limited_reader strict_object"
  have leaf: "refuse_long v = Inl e \<Longrightarrow> e \<in> ?E" "refuse_float v = Inl e \<Longrightarrow> e \<in> ?E" for v e
    by (auto simp: refuse_long_def refuse_float_def split: json.splits)
  have wl: "walk refuse_long d v = Inl e \<Longrightarrow> uncaught e" for d v e
    unfolding uncaught_def by (erule walk_raises) (use leaf(1) in auto)
  have wf: "walk refuse_float d v = Inl e \<Longrightarrow> uncaught e" for d v e
    unfolding uncaught_def by (erule walk_raises) (use leaf(2) in auto)
  have dump: "dump_bytes d v = Inl e \<Longrightarrow> uncaught e" for d v e
    using wl by (auto simp: dump_bytes_def bindr_eq_Inl utf8_encode_def uncaught_def split: if_splits)
  have tree: "tree_bytes st v = Inl e \<Longrightarrow> uncaught e" for v e
    using wf dump by (auto simp: tree_bytes_def bindr_eq_Inl split: if_splits)
  have repr: "walk (\<lambda>_. Inr ()) d v = Inl e \<Longrightarrow> uncaught e" for d v e
    using walk_raises[of "\<lambda>_. Inr ()" d v e ?E] by (auto simp: uncaught_def)
  have bad_text: "decode_text w = Inl e \<Longrightarrow> e = UnicodeDecodeError" for w e
    by (auto simp: decode_text_def spell_points_def split: encoding.splits option.splits prod.splits if_splits)
  have hook: "object_hook ?R kvs = Inl e \<Longrightarrow> e \<in> {CheckpointError, JSONDecodeError, ValueError, RecursionError}" for kvs e
    by (auto simp: limited_reader_def strict_object_def split: if_splits)
  have read: "read_text ?R d t = Inl e \<Longrightarrow> e \<in> {CheckpointError, JSONDecodeError, ValueError, RecursionError}" for d t e
    using reader_raises[OF hook, where n = "2 * length t + 2"]
    by (auto simp: read_text_def bindr_eq_Inl simp del: read_value.simps split: if_splits)
  have json: "e = UnicodeDecodeError \<or> e = JSONDecodeError \<or> e = CheckpointError \<or> uncaught e"
    if "json_loads strict_object d w = Inl e" for d w e
    using that bad_text read by (fastforce simp: json_loads_def bindr_eq_Inl uncaught_def)
  show ?thesis using assms
    by (auto simp: decode_envelope_def bindr_eq_Inl dest: dump tree repr json split: sum.splits json.splits if_splits)
qed

lemma decode_total:
  assumes "respects_limit z"
  shows "\<exists>out. decode st z digest schema encoded = Some out \<and> (\<forall>e. out = Inl e \<longrightarrow> e = CheckpointError \<or> uncaught e)"
proof -
  have env: "decode_envelope st digest schema wire = Inl e \<Longrightarrow> e = CheckpointError \<or> uncaught e" for wire e
    by (rule decode_envelope_raises)
  obtain r where w: "decode_wire z encoded = Some r" using decode_wire_total[OF assms] by blast
  have "r = Inl e \<Longrightarrow> e = CheckpointError" for e
    using w inflate_loop_cases[OF assms, of "drop (length CHECKPOINT_ZLIB_MAGIC) encoded" "decompressobj z"]
    by (auto simp: decode_wire_def Let_def split: if_splits option.splits)
  then show ?thesis using w env by (cases r) (auto simp: decode_def)
qed

lemma decode_wire_framed:
  assumes "inflates z stream" "respects_limit z" "int (length x) \<le> CHECKPOINT_MAX_RAW_BYTES"
  shows "decode_wire z (CHECKPOINT_ZLIB_MAGIC @ compress z x) = Some (Inr x)"
proof -
  have c: "compress z x \<noteq> []" "stream (decompressobj z) (compress z x) x" using assms(1) by (simp_all add: inflates_def)
  have "0 < CHECKPOINT_MAX_RAW_BYTES + 1" using limit_pos by linarith
  then obtain chunk x' d' where s: "decompress z (decompressobj z) (compress z x) (CHECKPOINT_MAX_RAW_BYTES + 1) = Some (chunk, d')"
    "x = chunk @ x'" "stream d' (unconsumed_tail z d') x'"
    using assms(1) c unfolding inflates_def by blast
  have "int (length chunk) \<le> CHECKPOINT_MAX_RAW_BYTES" using s(2) assms(3) by simp
  then have tail: "unconsumed_tail z d' = []" using limited(2)[OF assms(2) s(1)] by fastforce
  have loop: "inflate_loop z (decompressobj z) [] (compress z x) = Some (Inr (chunk, d'))"
    using c(1) s(1) limit_pos tail by (subst inflate_loop.simps) (simp add: inflate_loop.simps)
  have "int (length x') < CHECKPOINT_MAX_RAW_BYTES + 1 - int (length chunk)" using s(2) assms(3) by simp
  then obtain d2 where f: "flush z d' (CHECKPOINT_MAX_RAW_BYTES + 1 - int (length chunk)) = Some (x', d2)" "eof z d2" "unused_data z d2 = []" "unconsumed_tail z d2 = []"
    using assms(1) s(3) tail unfolding inflates_def by force
  show ?thesis using c(1) loop f s(2) assms(3) \<open>int (length chunk) \<le> _\<close> by (simp add: decode_wire_def)
qed

text \<open>What \<open>encode\<close> returns is read by \<open>decode_wire\<close> as the envelope.\<close>

lemma encode_wire:
  assumes "encode st z digest schema payload = Inr bytes" "inflates z stream" "respects_limit z"
  shows "\<exists>kvs. canonical_value payload = Inr (JObj kvs) \<and> short_ints (JObj kvs) \<and> bytes \<noteq> [] \<and>
    utf8_valid False (dumps (envelope (sha_json digest (signed schema (JObj kvs))) schema (JObj kvs))) \<and>
    utf8_valid False (dumps (signed schema (JObj kvs))) \<and>
    decode_wire z bytes = Some (Inr (dumps (envelope (sha_json digest (signed schema (JObj kvs))) schema (JObj kvs))))"
proof -
  obtain norm where norm: "norm = payload \<or> (\<exists>kvs. payload = PMapping kvs \<and> norm = PDict kvs)" "\<exists>kvs. norm = PDict kvs"
    "encode st z digest schema norm = Inr bytes"
  proof -
    have "\<exists>kvs. payload = PDict kvs \<or> payload = PMapping kvs" using assms(1) by (cases payload) (simp_all add: encode_def)
    then obtain kvs where k: "payload = PDict kvs \<or> payload = PMapping kvs" by blast
    have "encode st z digest schema (PDict kvs) = Inr bytes" using assms(1) k by (auto simp: encode_def)
    then show thesis using that[of "PDict kvs"] k by blast
  qed
  then obtain pb sb cb where n: "norm = payload \<or> (\<exists>kvs. payload = PMapping kvs \<and> norm = PDict kvs)" "\<exists>kvs. norm = PDict kvs"
    "canonical_json_bytes st norm = Inr pb" "canonical_json_bytes st (PStr schema) = Inr sb"
    "canonical_json_bytes st (PStr (sha_text digest (checksum_material pb sb))) = Inr cb"
    "(let encoded = envelope_bytes cb pb sb in
     if int (length encoded) > CHECKPOINT_MAX_RAW_BYTES then Inl CheckpointError
     else if int (length encoded) < CHECKPOINT_COMPRESSION_MIN_BYTES then Inr encoded
     else let framed = CHECKPOINT_ZLIB_MAGIC @ compress z encoded
          in Inr (if length framed < length encoded then framed else encoded)) = Inr bytes"
    by (auto simp: encode_def bindr_eq_Inr simp del: Let_def)
  obtain kvs where kvs: "canonical_value norm = Inr (JObj kvs)" "short_ints (JObj kvs)" "pb = dumps (JObj kvs)" "utf8_valid False pb"
    using n(2,3) by (auto simp: canonical_json_bytes_Inr res_simps)
  have same: "canonical_value payload = canonical_value norm" using n(1) by auto
  have q: "dumps (JStr s) = quote s" for s by (simp add: dumps_def)
  have sb: "sb = quote schema" "utf8_valid False sb" using n(4) by (auto simp: canonical_json_bytes_Inr q)
  let ?ck = "sha_json digest (signed schema (JObj kvs))"
  let ?E = "dumps (envelope ?ck schema (JObj kvs))"
  have ck: "sha_text digest (checksum_material pb sb) = ?ck" by (simp only: kvs(3) sb(1) sha_json_def checksum_material_dumps)
  have cb: "cb = quote ?ck" "utf8_valid False cb" using n(5) by (auto simp: canonical_json_bytes_Inr q ck)
  have E: "?E = envelope_bytes cb pb sb" by (simp only: kvs(3) sb(1) cb(1) envelope_bytes_dumps)
  have len: "int (length ?E) \<le> CHECKPOINT_MAX_RAW_BYTES" and b: "bytes = ?E \<or> bytes = CHECKPOINT_ZLIB_MAGIC @ compress z ?E"
    using n(6) unfolding E[symmetric] Let_def by (auto split: if_splits)
  have "?E \<noteq> [] \<and> \<not> starts CHECKPOINT_ZLIB_MAGIC ?E"
    unfolding E envelope_bytes_def by (simp add: CHECKPOINT_ZLIB_MAGIC_def)
  then have w: "decode_wire z bytes = Some (Inr ?E)" using b len decode_wire_framed[OF assms(2,3) len] by (auto simp: decode_wire_def)
  have ne: "bytes \<noteq> []" using b \<open>?E \<noteq> [] \<and> _\<close> by (auto simp: CHECKPOINT_ZLIB_MAGIC_def)
  have ascii: "utf8_valid False (x @ y) = utf8_valid False y" if "list_all (\<lambda>c. (of_char c :: nat) < 128) x" for x y
    using utf8_valid_append[OF utf8_valid_ascii[OF that]] .
  have q1: "utf8_valid False (quote ''checksum'' @ y) = utf8_valid False y"
    "utf8_valid False (quote ''payload'' @ y) = utf8_valid False y"
    "utf8_valid False (quote ''schema_version'' @ y) = utf8_valid False y" for y
    by (rule ascii; simp add: quote_def esc_char_def dquote_def Let_def)+
  have lit: "utf8_valid False (''{'' @ y) = utf8_valid False y" "utf8_valid False ('':'' @ y) = utf8_valid False y"
    "utf8_valid False ('','' @ y) = utf8_valid False y" for y by (rule ascii; simp)+
  have tail: "utf8_valid False ''}''" by (rule utf8_valid_ascii) simp
  note valid = lit q1 utf8_valid_append[OF kvs(4)] utf8_valid_append[OF sb(2)] utf8_valid_append[OF cb(2)] tail
  have S: "utf8_valid False (dumps (signed schema (JObj kvs)))"
    unfolding checksum_material_dumps[symmetric] checksum_material_def kvs(3)[symmetric] sb(1)[symmetric] by (simp only: valid)
  have "utf8_valid False ?E" unfolding E envelope_bytes_def by (simp only: valid)
  then show ?thesis using kvs(1,2) same w ne S by auto
qed

section \<open>Selection\<close>

definition accepts :: "(json \<Rightarrow> bool res) option \<Rightarrow> json \<Rightarrow> bool" where
  "accepts validator p = (case validator of None \<Rightarrow> True | Some check \<Rightarrow> check p = Inr True)"

text \<open>A record that selection passes over: corrupt, or refused by the validator.\<close>

definition passed_over :: "(string \<Rightarrow> json res option) \<Rightarrow> (json \<Rightarrow> bool res) option \<Rightarrow> checkpoint_record \<Rightarrow> bool" where
  "passed_over decoder validator c \<longleftrightarrow>
     (case decoder (cp_encoded c) of
        None \<Rightarrow> False
      | Some (Inl e) \<Rightarrow> e = CheckpointError
      | Some (Inr p) \<Rightarrow> \<not> accepts validator p)"

text \<open>The outcome is decided by the first candidate that is not passed over.\<close>

lemma select_loop_outcome:
  assumes "select_loop decoder validator cs m = Some (m', out)"
  shows "case dropWhile (passed_over decoder validator) cs of
      [] \<Rightarrow> out = Inl DatasetMismatch
    | c # _ \<Rightarrow> (case decoder (cp_encoded c) of
        Some (Inr p) \<Rightarrow> accepts validator p \<and> out = Inr (c, p)
      | Some (Inl e) \<Rightarrow> e \<noteq> CheckpointError \<and> out = Inl e
      | None \<Rightarrow> False)"
  using assms
  by (induction decoder validator cs m rule: select_loop.induct)
    (auto simp: passed_over_def accepts_def split: option.splits sum.splits if_splits)

lemma dropWhile_Cons_split: "dropWhile P xs = y # ys \<Longrightarrow> \<exists>pre. xs = pre @ y # ys \<and> list_all P pre \<and> \<not> P y"
proof -
  assume d: "dropWhile P xs = y # ys"
  have "xs = takeWhile P xs @ y # ys" using takeWhile_dropWhile_id[of P xs] d by simp
  moreover have "\<not> P y" using hd_dropWhile[of P xs] d by simp
  moreover have "list_all P (takeWhile P xs)" by (auto simp: list_all_iff dest: set_takeWhileD)
  ultimately show ?thesis by blast
qed

lemma set_candidates: "set (candidates r t) = {c \<in> set (records r). cp_virtual_time_ms c \<le> t}"
  by (auto simp: candidates_def)

text \<open>Candidates come latest first.\<close>

lemma candidates_sorted: "sorted_wrt (\<lambda>x y. cp_key y \<le> cp_key x) (candidates r t)"
proof -
  have "sorted_wrt (\<lambda>x y. cp_key x \<le> cp_key y) (sort_key cp_key xs)" for xs :: "checkpoint_record list"
    using sorted_sort_key[of cp_key xs] by (simp only: sorted_map)
  then show ?thesis by (simp add: candidates_def sorted_wrt_rev)
qed

section \<open>Retention\<close>

type_synonym add_args = "string \<times> int \<times> int \<times> string \<times> bool"

fun ring_run :: "add_args list \<Rightarrow> checkpoint_ring \<Rightarrow> checkpoint_ring res" where
  "ring_run [] r = Inr r"
| "ring_run ((e, t, n, h, i) # xs) r = bindr (ring_add e t n h i r) (\<lambda>(r', _). ring_run xs r')"

fun record_of :: "add_args \<Rightarrow> checkpoint_record" where
  "record_of (e, t, n, h, i) =
     \<lparr>cp_encoded = e, cp_virtual_time_ms = t, cp_source_sequence = n, cp_state_hash = h, cp_initial = i\<rparr>"

definition retained :: "nat \<Rightarrow> 'a list \<Rightarrow> 'a list" where
  "retained n xs = drop (length xs - n) xs"

lemma deque_append_retained: "deque_append n (retained n xs) x = retained n (xs @ [x])"
proof (cases "length xs \<le> n")
  case True
  then show ?thesis by (simp add: deque_append_def retained_def Let_def)
next
  case False
  then have l: "length (drop (length xs - n) xs) = n" by simp
  have "drop 1 (drop (length xs - n) xs @ [x]) = drop (Suc (length xs) - n) (xs @ [x])" if "0 < n"
    using False that by (simp add: Suc_diff_le drop_append)
  moreover have "n = 0 \<Longrightarrow> drop (Suc (length xs) - n) (xs @ [x]) = []" by simp
  ultimately show ?thesis using l False by (cases "n = 0") (simp_all add: deque_append_def retained_def Let_def)
qed

lemma validate_timestamp_same: "validate_timestamp_ms t = Inr t' \<Longrightarrow> t' = t"
  by (auto simp: validate_timestamp_ms_def validate_counter_def split: if_splits)

lemma validate_counter_same: "validate_counter t = Inr t' \<Longrightarrow> t' = t"
  by (auto simp: validate_counter_def split: if_splits)

text \<open>The ring after a history of added records.\<close>

definition ring_after :: "nat \<Rightarrow> checkpoint_record list \<Rightarrow> checkpoint_ring \<Rightarrow> bool" where
  "ring_after n hist r \<longleftrightarrow>
     max_recent r = n \<and> 0 < n \<and>
     ring_recent r = retained n (List.filter (\<lambda>c. \<not> cp_initial c) hist) \<and>
     ring_initial r = find cp_initial hist \<and> length (List.filter cp_initial hist) \<le> 1 \<and>
     added (ring_metrics r) = length hist \<and>
     recent_evictions (ring_metrics r) = length (List.filter (\<lambda>c. \<not> cp_initial c) hist) - n"

lemma find_append: "find P (xs @ ys) = (case find P xs of Some x \<Rightarrow> Some x | None \<Rightarrow> find P ys)"
  by (induction xs) simp_all

lemma ring_add_after:
  assumes "ring_after n hist r" "ring_add e t sq h i r = Inr (r', c)"
  shows "ring_after n (hist @ [c]) r' \<and> c = record_of (e, t, sq, h, i)"
proof -
  have c: "c = record_of (e, t, sq, h, i)" and ok: "i \<longrightarrow> ring_initial r = None"
    using assms(2) validate_timestamp_same[of t] validate_counter_same[of sq]
    by (auto simp: ring_add_def res_simps Let_def split: if_splits)
  have len: "length (retained n xs) = min n (length xs)" for xs :: "checkpoint_record list" by (simp add: retained_def)
  have none: "find cp_initial hist = None \<Longrightarrow> List.filter cp_initial hist = []" by (auto simp: find_None_iff filter_empty_conv)
  show ?thesis
  proof (cases i)
    case True
    then have "r' = r\<lparr>ring_initial := Some c, ring_metrics := (ring_metrics r)\<lparr>added := Suc (added (ring_metrics r))\<rparr>\<rparr>"
      using assms(2) ok by (auto simp: ring_add_def res_simps Let_def split: if_splits)
    then show ?thesis using assms(1) ok True c none by (auto simp: ring_after_def find_append)
  next
    case False
    let ?m = "ring_metrics r"
    have r': "r' = r\<lparr>ring_recent := deque_append (max_recent r) (ring_recent r) c,
       ring_metrics := (if length (ring_recent r) = max_recent r then ?m\<lparr>recent_evictions := Suc (recent_evictions ?m)\<rparr> else ?m)
         \<lparr>added := Suc (added ?m)\<rparr>\<rparr>"
      using assms(2) False by (auto simp: ring_add_def res_simps Let_def split: if_splits)
    show ?thesis
      using assms(1) c False
      by (auto simp: ring_after_def r' deque_append_retained find_append len min_def split: option.splits)
  qed
qed

lemma ring_run_after:
  "ring_after n hist r \<Longrightarrow> ring_run xs r = Inr r' \<Longrightarrow> ring_after n (hist @ map record_of xs) r'"
proof (induction xs arbitrary: hist r)
  case (Cons x xs)
  obtain e t sq h i where x: "x = (e, t, sq, h, i)" by (cases x)
  obtain r1 c where a: "ring_add e t sq h i r = Inr (r1, c)" "ring_run xs r1 = Inr r'"
    using Cons.prems(2) by (auto simp: x res_simps)
  then show ?case using Cons.IH ring_add_after[OF Cons.prems(1) a(1)] by (fastforce simp: x)
qed simp

section \<open>Properties\<close>

text \<open>C18: Checkpoints round-trip. What \<open>encode\<close> returns for a payload, compressed or not, decodes
  to the canonical form of that payload under the same schema, provided zlib returns what it
  compressed and keeps to the output limit it is given, and the payload is nested no deeper than the
  interpreter can read and write one level further down.\<close>

theorem checkpoint_round_trip:
  assumes "encode st z digest schema payload = Inr bytes" "canonical_value payload = Inr j" "dict_like j"
    "inflates z stream" "respects_limit z" "nests_within st j"
  shows "decode st z digest schema bytes = Some (Inr (canon j))"
proof -
  obtain kvs where k: "canonical_value payload = Inr (JObj kvs)" "short_ints (JObj kvs)" "bytes \<noteq> []"
    "utf8_valid False (dumps (envelope (sha_json digest (signed schema (JObj kvs))) schema (JObj kvs)))"
    "utf8_valid False (dumps (signed schema (JObj kvs)))"
    "decode_wire z bytes = Some (Inr (dumps (envelope (sha_json digest (signed schema (JObj kvs))) schema (JObj kvs))))"
    using encode_wire[OF assms(1,4,5)] by blast
  have j: "j = JObj kvs" using k(1) assms(2) by simp
  have "writable (JObj kvs)" "dict_like (JObj kvs)" using canonical_writable[OF assms(2)] assms(3) unfolding j by auto
  from decode_own_envelope[OF this k(2) assms(6)[unfolded j] refl k(4,5)] show ?thesis
    using k(3,6) by (simp add: decode_def j del: canon.simps)
qed

text \<open>A decompressor that stores its input after all but the last byte of it, which marks the end.\<close>

definition store_zlib :: "string zlib" where
  "store_zlib =
     \<lparr>compress = (\<lambda>x. x @ [CHR 0x00]), decompressobj = [],
      decompress = (\<lambda>d p n. if int (length p) \<le> n + 1 then Some (butlast p, []) else Some (take (nat n) p, drop (nat n) p)),
      unconsumed_tail = (\<lambda>d. d), flush = (\<lambda>d n. Some ([], d)), eof = (\<lambda>d. d = []), unused_data = (\<lambda>d. [])\<rparr>"

definition store_stream :: "string \<Rightarrow> string \<Rightarrow> string \<Rightarrow> bool" where
  "store_stream d p x \<longleftrightarrow> p = x @ [CHR 0x00] \<or> p = [] \<and> x = [] \<and> d = []"

lemma store_limit: "respects_limit store_zlib"
  by (auto simp: respects_limit_def store_zlib_def split: if_splits)

lemma store_inflates: "inflates store_zlib store_stream"
  unfolding inflates_def
proof (intro conjI allI impI)
  fix d p x :: string and n :: int
  assume s: "store_stream d p x" "p \<noteq> []" "0 < n"
  then have p: "p = x @ [CHR 0x00]" by (simp add: store_stream_def)
  show "\<exists>chunk x' d'. decompress store_zlib d p n = Some (chunk, d') \<and> x = chunk @ x' \<and> store_stream d' (unconsumed_tail store_zlib d') x'"
  proof (cases "int (length p) \<le> n + 1")
    case True
    then show ?thesis by (simp add: store_zlib_def store_stream_def p)
  next
    case False
    then have "nat n \<le> length x" using s(3) p by simp
    then show ?thesis using False by (simp add: store_zlib_def store_stream_def p)
  qed
qed (auto simp: store_zlib_def store_stream_def)

definition deep_stack :: json_stack where
  "deep_stack = \<lparr>read_depth = 1000, repr_depth = 1000, walk_depth = 500, write_depth = 1000, hash_depth = 999\<rparr>"

definition sample_state :: pyval where
  "sample_state = PDict [(KStr ''cash'', PStr ''10''), (KStr ''bars'', PList [PInt 1, PInt 2])]"

definition sample_state_json :: json where
  "sample_state_json = JObj [(''cash'', JStr ''10''), (''bars'', JList [JInt 1, JInt 2])]"

definition zero_digest :: digest_fun where
  "zero_digest t = ''00''"

definition sample_bytes :: string where
  "sample_bytes = envelope_bytes (quote ''sha256:00'') (dumps sample_state_json) (quote ''v1'')"

lemma sample_encode: "encode deep_stack store_zlib zero_digest ''v1'' sample_state = Inr sample_bytes"
  by code_simp

lemma sample_state_value: "canonical_value sample_state = Inr sample_state_json" "dict_like sample_state_json"
  "nests_within deep_stack sample_state_json"
  by code_simp+

theorem checkpoint_round_trip_witness:
  "decode deep_stack store_zlib zero_digest ''v1'' sample_bytes = Some (Inr (canon sample_state_json))"
  by (rule checkpoint_round_trip[OF sample_encode sample_state_value(1,2) store_inflates store_limit sample_state_value(3)])

text \<open>C36: Nothing but the exact encoding of a payload is accepted. If any bytes decode to a payload,
  then after decompression they are, byte for byte, the envelope \<open>encode\<close> assembles for that
  payload with its own checksum, the payload is in canonical form with every key once, and the
  decompressed text is within the raw byte budget.\<close>

theorem checkpoint_decode_exact:
  assumes "decode st z digest schema encoded = Some (Inr p)"
  shows "canon p = p \<and> dict_like p \<and>
    (\<exists>wire. decode_wire z encoded = Some (Inr wire) \<and> int (length wire) \<le> CHECKPOINT_MAX_RAW_BYTES \<and>
      wire = envelope_bytes (quote (sha_text digest (checksum_material (dumps p) (quote schema)))) (dumps p) (quote schema))"
proof -
  obtain wire where w: "decode_wire z encoded = Some (Inr wire)" "decode_envelope st digest schema wire = Inr p"
    using assms by (auto simp: decode_def res_simps split: if_splits)
  then show ?thesis using decode_envelope_exact[OF w(2)] decode_wire_bounded[OF w(1)]
    by (auto simp: sha_json_def checksum_material_dumps envelope_bytes_dumps)
qed

lemma sample_decodes: "decode deep_stack store_zlib zero_digest ''v1'' sample_bytes = Some (Inr (canon sample_state_json))"
  by code_simp

theorem checkpoint_decode_exact_witness:
  "decode_wire store_zlib sample_bytes = Some (Inr (envelope_bytes (quote ''sha256:00'') (dumps (canon sample_state_json)) (quote ''v1'')))"
  using checkpoint_decode_exact[OF sample_decodes] by (simp add: sha_text_def zero_digest_def)



text \<open>C19: Selection returns the latest usable checkpoint. A selected record is held, not after the
  target, decodes to the payload returned and passes the validator, and every held record with a
  later time or sequence, up to the target, is corrupt or refused. If none is selected, the target
  is no timestamp, or every record up to the target is corrupt or refused, or the latest record
  that is neither made the decoder raise one of the four exceptions the selection does not catch
  (\<open>TypeError\<close>, \<open>ValueError\<close>, \<open>RecursionError\<close>, \<open>UnicodeEncodeError\<close>), and that exception leaves it.\<close>

theorem checkpoint_selects_latest:
  assumes "select_valid (decode st z digest schema) t validator r = Some (r', out)" "respects_limit z"
  shows "case out of
      Inr (c, p) \<Rightarrow> c \<in> set (records r) \<and> cp_virtual_time_ms c \<le> t \<and>
        decode st z digest schema (cp_encoded c) = Some (Inr p) \<and> accepts validator p \<and>
        (\<forall>c' \<in> set (records r). cp_virtual_time_ms c' \<le> t \<and> cp_key c < cp_key c' \<longrightarrow>
           passed_over (decode st z digest schema) validator c')
    | Inl e \<Rightarrow> validate_timestamp_ms t = Inl e \<or>
        (e = DatasetMismatch \<and>
         (\<forall>c' \<in> set (records r). cp_virtual_time_ms c' \<le> t \<longrightarrow> passed_over (decode st z digest schema) validator c')) \<or>
        (uncaught e \<and> (\<exists>c \<in> set (records r). cp_virtual_time_ms c \<le> t \<and> decode st z digest schema (cp_encoded c) = Some (Inl e) \<and>
           (\<forall>c' \<in> set (records r). cp_virtual_time_ms c' \<le> t \<and> cp_key c < cp_key c' \<longrightarrow>
              passed_over (decode st z digest schema) validator c')))"
proof (cases "validate_timestamp_ms t")
  case (Inl e)
  then show ?thesis using assms(1) by (auto simp: select_valid_def)
next
  case (Inr t')
  let ?P = "passed_over (decode st z digest schema) validator" and ?cs = "candidates r t"
  have t: "t' = t" using validate_timestamp_same[OF Inr] .
  obtain m where m: "select_loop (decode st z digest schema) validator ?cs (ring_metrics r) = Some (m, out)"
    using assms(1) Inr t by (auto simp: select_valid_def)
  note outcome = select_loop_outcome[OF m]
  show ?thesis
  proof (cases "dropWhile ?P ?cs")
    case Nil
    then have "out = Inl DatasetMismatch" using outcome unfolding Nil by simp
    moreover have "\<forall>c \<in> set ?cs. ?P c" using Nil by (simp add: dropWhile_eq_Nil_conv)
    ultimately show ?thesis by (simp add: set_candidates)
  next
    case (Cons c post)
    obtain pre where pre: "?cs = pre @ c # post" "list_all ?P pre" using dropWhile_Cons_split[OF Cons] by blast
    have c: "c \<in> set (records r)" "cp_virtual_time_ms c \<le> t" using set_candidates[of r t] pre(1) by auto
    have newer: "?P c'" if c': "c' \<in> set (records r)" "cp_virtual_time_ms c' \<le> t" "cp_key c < cp_key c'" for c'
      proof -
        have "c' \<in> set pre \<or> c' = c \<or> c' \<in> set post" using c'(1,2) set_candidates[of r t] pre(1) by auto
        moreover have "cp_key x \<le> cp_key c" if "x \<in> set post" for x
          using candidates_sorted[of r t] that by (simp add: pre(1) sorted_wrt_append)
        ultimately have "c' \<in> set pre" using c'(3) by (metis leD less_irrefl)
        then show ?thesis using pre(2) by (simp add: list_all_iff)
      qed
    show ?thesis
    proof (cases out)
      case (Inl e)
      then have e: "decode st z digest schema (cp_encoded c) = Some (Inl e)" "e \<noteq> CheckpointError"
        using outcome Cons by (auto split: option.splits sum.splits)
      then have "uncaught e" using decode_total[OF assms(2), of st digest schema "cp_encoded c"] by auto
      then show ?thesis using Inl e c newer by auto
    next
      case (Inr cp)
      then obtain p where p: "cp = (c, p)" "decode st z digest schema (cp_encoded c) = Some (Inr p)" "accepts validator p"
        using outcome Cons by (auto split: option.splits sum.splits)
      then show ?thesis using Inr p c newer by simp
    qed
  qed
qed

definition sample_ring :: checkpoint_ring where
  "sample_ring = projr (ring_run [(sample_bytes, 0, 0, ''h'', True), (''broken'', 20, 2, ''h'', False), (sample_bytes, 5, 1, ''h'', False)]
     (projr (new_ring 2)))"

lemma sample_ring_selects:
  "map_option snd (select_valid (decode deep_stack store_zlib zero_digest ''v1'') 30 None sample_ring) =
     Some (Inr (record_of (sample_bytes, 5, 1, ''h'', False), canon sample_state_json))"
  by code_simp

theorem checkpoint_selects_latest_witness:
  "\<exists>c \<in> set (records sample_ring). cp_virtual_time_ms c = 5 \<and>
     (\<forall>c' \<in> set (records sample_ring). cp_virtual_time_ms c' \<le> 30 \<and> cp_key c < cp_key c' \<longrightarrow>
        passed_over (decode deep_stack store_zlib zero_digest ''v1'') None c')"
proof -
  obtain r' where s: "select_valid (decode deep_stack store_zlib zero_digest ''v1'') 30 None sample_ring =
      Some (r', Inr (record_of (sample_bytes, 5, 1, ''h'', False), canon sample_state_json))"
    using sample_ring_selects by auto
  show ?thesis using checkpoint_selects_latest[OF s store_limit] by (intro bexI[of _ "record_of (sample_bytes, 5, 1, ''h'', False)"]) simp_all
qed

lemma find_filter: "find P ys = (case List.filter P ys of [] \<Rightarrow> None | x # _ \<Rightarrow> Some x)"
  by (induction ys) auto

text \<open>C38: Retention. After any successful history of added checkpoints a ring of size \<open>n\<close> holds the
  initial checkpoint, if one was added, and exactly the last \<open>n\<close> of the others in their order;
  at most one initial checkpoint was accepted, and the counters say how many were added and how
  many were evicted.\<close>

theorem ring_keeps_latest:
  assumes "new_ring maxr = Inr r0" "ring_run xs r0 = Inr r"
  shows "ring_after (nat maxr) (map record_of xs) r \<and>
    length (records r) \<le> nat maxr + 1 \<and>
    (\<forall>c \<in> set (map record_of xs). cp_initial c \<longrightarrow> c \<in> set (records r))"
proof -
  have "ring_after (nat maxr) [] r0" using assms(1) by (auto simp: new_ring_def ring_after_def retained_def split: if_splits)
  from ring_run_after[OF this assms(2)] have after: "ring_after (nat maxr) (map record_of xs) r" by simp
  have len: "length (records r) \<le> nat maxr + 1"
    using after by (auto simp: ring_after_def records_def retained_def split: option.splits)
  have "c \<in> set (records r)" if c: "c \<in> set (map record_of xs)" "cp_initial c" for c
  proof -
    let ?is = "List.filter cp_initial (map record_of xs)"
    have "c \<in> set ?is" "length ?is \<le> 1" using c after by (auto simp: ring_after_def)
    then have "?is = [c]" by (cases ?is) auto
    then have "find cp_initial (map record_of xs) = Some c" using find_filter[of cp_initial "map record_of xs"] by simp
    then have "ring_initial r = Some c" using after by (simp add: ring_after_def)
    then show ?thesis by (simp add: records_def)
  qed
  then show ?thesis using after len by blast
qed

definition sample_history :: "add_args list" where
  "sample_history = [(''a'', 0, 0, ''h'', True), (''b'', 1, 1, ''h'', False), (''c'', 2, 2, ''h'', False), (''d'', 3, 3, ''h'', False)]"

lemma sample_history_run: "new_ring 2 = Inr (projr (new_ring 2))"
  "ring_run sample_history (projr (new_ring 2)) = Inr (projr (ring_run sample_history (projr (new_ring 2))))"
  by code_simp+

theorem ring_keeps_latest_witness:
  "ring_after 2 (map record_of sample_history) (projr (ring_run sample_history (projr (new_ring 2))))"
  using ring_keeps_latest[OF sample_history_run] by simp

definition float_bytes :: string where
  "float_bytes = ''{'' @ quote ''checksum'' @ '':1.5,'' @ quote ''payload'' @ '':{},'' @ quote ''schema_version'' @ '':'' @ quote ''v1'' @ ''}''"

definition float_ring :: checkpoint_ring where
  "float_ring = projr (ring_run [(sample_bytes, 0, 0, ''h'', True), (float_bytes, 20, 2, ''h'', False)] (projr (new_ring 2)))"

text \<open>
  A corrupt checkpoint is not always passed over: \<open>decode\<close> raises \<open>TypeError\<close> for this one, the
  selection does not catch it, and the older valid checkpoint of the ring is not tried. A lone
  surrogate in the payload does the same with \<open>UnicodeEncodeError\<close>.
\<close>

lemma float_checkpoint_stops_selection:
  "decode deep_stack store_zlib zero_digest ''v1'' float_bytes = Some (Inl TypeError)"
  "map_option snd (select_valid (decode deep_stack store_zlib zero_digest ''v1'') 30 None float_ring) = Some (Inl TypeError)"
  "map_option snd (select_valid (decode deep_stack store_zlib zero_digest ''v1'') 10 None float_ring) =
     Some (Inr (record_of (sample_bytes, 0, 0, ''h'', True), canon sample_state_json))"
  by code_simp+

definition surrogate_bytes :: string where
  "surrogate_bytes = ''{'' @ quote ''checksum'' @ '':1,'' @ quote ''payload'' @ '':'' @ [dquote, bslash] @ ''ud800'' @ [dquote] @ '','' @
     quote ''schema_version'' @ '':'' @ quote ''v1'' @ ''}''"

lemma surrogate_checkpoint_not_caught:
  "decode deep_stack store_zlib zero_digest ''v1'' surrogate_bytes = Some (Inl UnicodeEncodeError)"
  by code_simp

end
