(* ===== verification/BookSide.thy ===== *)
theory BookSide
  imports Bisect
begin

text \<open>
  One side of the local order book of
  \<open>backend/app/data_engine/market_data/full_order_book.py\<close>: the dictionary of levels beside
  the sorted index of its prices (\<open>_mutate_side\<close>), and the immutable revisions a published
  snapshot reads lazily (\<open>_BookRevision\<close>, \<open>_LazyBookSide\<close>). Prices and quantities are the
  finite floats: the code compares them and tests quantities for zero, so they are any linear
  order with a zero.
\<close>

section \<open>Dictionary and price index\<close>

type_synonym 'f level = "'f \<times> 'f"

text \<open>\<open>bisect.insort\<close> and \<open>list.pop(i)\<close>.\<close>

definition insort_right :: "'a::linorder list \<Rightarrow> 'a \<Rightarrow> 'a list" where
  "insort_right xs x = (let i = bisect_right xs x in take i xs @ x # drop i xs)"

definition pop_at :: "nat \<Rightarrow> 'a list \<Rightarrow> 'a list" where
  "pop_at i xs = take i xs @ drop (Suc i) xs"

text \<open>One update of \<open>_mutate_side\<close>: quantity zero deletes the level.\<close>

fun mutate_level :: "'f::{linorder,zero} level \<Rightarrow> 'f level list \<times> 'f list \<Rightarrow> ('f level list \<times> 'f list) res" where
  "mutate_level (price, quantity) (levels, prices) =
     (let existing = map_of levels price \<noteq> None in
      if quantity = 0 then
        (if \<not> existing then Inr (levels, prices)
         else let index = bisect_left prices price in
           if length prices \<le> index \<or> prices ! index \<noteq> price then Inl RuntimeError
           else Inr (AList.delete price levels, pop_at index prices))
      else Inr (AList.update price quantity levels, if existing then prices else insort_right prices price))"

fun mutate_side :: "'f::{linorder,zero} level list \<Rightarrow> 'f level list \<times> 'f list \<Rightarrow> ('f level list \<times> 'f list) res" where
  "mutate_side [] side = Inr side"
| "mutate_side (u # us) side = bindr (mutate_level u side) (mutate_side us)"

section \<open>What a side stands for\<close>

text \<open>The exchange's rule for one level update, on a book as a map from price to quantity.\<close>

fun set_level :: "'f::zero level \<Rightarrow> ('f \<rightharpoonup> 'f) \<Rightarrow> 'f \<rightharpoonup> 'f" where
  "set_level (price, quantity) m = m(price := if quantity = 0 then None else Some quantity)"

definition set_levels :: "'f::zero level list \<Rightarrow> ('f \<rightharpoonup> 'f) \<Rightarrow> 'f \<rightharpoonup> 'f" where
  "set_levels us m = fold set_level us m"

lemma set_levels_simps [simp]:
  "set_levels [] m = m" "set_levels (u # us) m = set_levels us (set_level u m)"
  by (simp_all add: set_levels_def)

lemma set_levels_other: "p \<notin> fst ` set us \<Longrightarrow> set_levels us m p = m p"
  by (induction us arbitrary: m) auto

text \<open>
  The contract of a store of levels: an update never fails on a store in order, keeps it in
  order, and changes the book it stands for as the exchange means it. A run of updates then
  does the same.
\<close>

locale level_store =
  fixes book :: "'s \<Rightarrow> ('f::zero \<rightharpoonup> 'f)"
    and ok :: "'s \<Rightarrow> bool"
    and step :: "'f level \<Rightarrow> 's \<Rightarrow> 's res"
  assumes step_total: "ok s \<Longrightarrow> \<exists>s'. step u s = Inr s'"
    and step_ok: "ok s \<Longrightarrow> step u s = Inr s' \<Longrightarrow> ok s'"
    and step_book: "ok s \<Longrightarrow> step u s = Inr s' \<Longrightarrow> book s' = set_level u (book s)"
begin

fun run :: "'f level list \<Rightarrow> 's \<Rightarrow> 's res" where
  "run [] s = Inr s"
| "run (u # us) s = bindr (step u s) (run us)"

lemma run_total: "ok s \<Longrightarrow> \<exists>s'. run us s = Inr s' \<and> ok s' \<and> book s' = set_levels us (book s)"
proof (induction us arbitrary: s)
  case (Cons u us)
  obtain s1 where s1: "step u s = Inr s1" using step_total[OF Cons.prems] by blast
  show ?case
    using Cons.IH[OF step_ok[OF Cons.prems s1]] step_book[OF Cons.prems s1] s1 by (auto simp: set_levels_def)
qed simp

lemma run_append: "run (us @ vs) s = bindr (run us s) (run vs)"
  by (induction us arbitrary: s) (auto simp: bindr_def split: sum.splits)

end

section \<open>The index and the dictionary agree\<close>

fun side_ok :: "'f::linorder level list \<times> 'f list \<Rightarrow> bool" where
  "side_ok (levels, prices) \<longleftrightarrow> od_wf levels \<and> strictly_sorted prices \<and> set prices = fst ` set levels"

fun side_book :: "'f level list \<times> 'f list \<Rightarrow> 'f \<rightharpoonup> 'f" where
  "side_book (levels, prices) = map_of levels"

lemma side_ok_length: "side_ok (levels, prices) \<Longrightarrow> length prices = length levels"
  using distinct_card strictly_sorted_distinct
  by (metis distinct_card length_map list.set_map od_wf_def side_ok.simps strictly_sorted_distinct)

lemma insort_right_sorted:
  assumes "strictly_sorted xs" "x \<notin> set xs"
  shows "strictly_sorted (insort_right xs x) \<and> set (insort_right xs x) = insert x (set xs)"
proof -
  have xs: "take (bisect_right xs x) xs = filter (\<lambda>y. y \<le> x) xs" "drop (bisect_right xs x) xs = filter (\<lambda>y. x < y) xs"
    using split_by_time(3,4)[of "\<lambda>x. x" xs x] assms(1) by simp_all
  have srt: "strictly_sorted (filter P xs)" for P using assms(1) by (simp add: strictly_sorted_def sorted_wrt_filter)
  show ?thesis
    unfolding insort_right_def Let_def xs
    using srt assms(2) by (auto simp: strictly_sorted_append) (metis order_le_imp_less_or_eq)+
qed

lemma bisect_left_finds:
  assumes "strictly_sorted xs" "x \<in> set xs"
  shows "bisect_left xs x < length xs" "xs ! bisect_left xs x = x"
    "strictly_sorted (pop_at (bisect_left xs x) xs)" "set (pop_at (bisect_left xs x) xs) = set xs - {x}"
proof -
  have xs: "take (bisect_left xs x) xs = filter (\<lambda>y. y < x) xs" "drop (bisect_left xs x) xs = filter (\<lambda>y. x \<le> y) xs"
    using split_by_time(1,2)[of "\<lambda>x. x" xs x] assms(1) by simp_all
  obtain as bs where split: "xs = as @ x # bs" using assms(2) by (meson split_list)
  have sorted: "\<forall>a \<in> set as. a < x" "\<forall>b \<in> set bs. x < b"
    using assms(1) unfolding split by (auto simp: strictly_sorted_append)
  have "filter (\<lambda>y. y < x) xs = as" "filter (\<lambda>y. x \<le> y) xs = x # bs"
    using sorted unfolding split by (auto simp: filter_id_conv filter_empty_conv not_le not_less)
  then have parts: "take (bisect_left xs x) xs = as" "drop (bisect_left xs x) xs = x # bs" using xs by simp_all
  then have "length as = bisect_left xs x"
    by (metis bisect_left_sorted assms(1) length_take length_takeWhile_le min.absorb2)
  then show "bisect_left xs x < length xs" "xs ! bisect_left xs x = x" by (simp_all add: split nth_append)
  have "pop_at (bisect_left xs x) xs = as @ bs"
    using parts by (metis drop_Suc list.sel(3) pop_at_def tl_drop)
  then show "strictly_sorted (pop_at (bisect_left xs x) xs)" "set (pop_at (bisect_left xs x) xs) = set xs - {x}"
    using assms(1) sorted by (auto simp: split strictly_sorted_append)
qed

lemma price_keys_delete: "fst ` set (AList.delete k d) = fst ` set d - {k}"
  by (metis delete_keys list.set_map set_removeAll)

lemma mutate_level_ok:
  assumes "side_ok s"
  shows "\<exists>s'. mutate_level u s = Inr s' \<and> side_ok s' \<and> side_book s' = set_level u (side_book s)"
proof -
  obtain levels prices where s: "s = (levels, prices)" by fastforce
  obtain p q where u: "u = (p, q)" by fastforce
  have ok: "od_wf levels" "strictly_sorted prices" "set prices = fst ` set levels" using assms s by auto
  have iff: "map_of levels p \<noteq> None \<longleftrightarrow> p \<in> set prices" using ok(3) by (simp add: map_of_eq_None_iff)
  show ?thesis
  proof (cases "p \<in> set prices")
    case True
    then have "map_of levels p \<noteq> None" using iff by blast
    then have "mutate_level u s =
        (if q = 0 then Inr (AList.delete p levels, pop_at (bisect_left prices p) prices) else Inr (AList.update p q levels, prices))"
      using bisect_left_finds(1,2)[OF ok(2) True] by (simp add: s u Let_def)
    then show ?thesis using ok bisect_left_finds(3,4)[OF ok(2) True] True
      by (simp add: s u price_keys_delete dom_update map_of_update map_of_delete insert_absorb)
  next
    case False
    then have "map_of levels p = None" using iff by blast
    then have "mutate_level u s = (if q = 0 then Inr (levels, prices) else Inr (AList.update p q levels, insort_right prices p))"
      by (simp add: s u)
    then show ?thesis using ok \<open>map_of levels p = None\<close> insort_right_sorted[OF ok(2) False]
      by (simp add: s u dom_update map_of_update fun_upd_idem)
  qed
qed

interpretation indexed: level_store side_book side_ok mutate_level
proof unfold_locales
  fix s s' :: "'f::{linorder,zero} level list \<times> 'f list" and u :: "'f level"
  assume ok: "side_ok s"
  show "\<exists>s'. mutate_level u s = Inr s'" using mutate_level_ok[OF ok, of u] by blast
  assume "mutate_level u s = Inr s'"
  then show "side_ok s'" "side_book s' = set_level u (side_book s)" using mutate_level_ok[OF ok, of u] by auto
qed

lemma mutate_side_run: "mutate_side us s = indexed.run us s"
proof (induction us arbitrary: s)
  case (Cons u us)
  then have "mutate_side us = indexed.run us" by blast
  then show ?case by simp
qed simp

text \<open>The loop of \<open>_mutate_side\<close> never finds index and dictionary apart.\<close>

lemma mutate_side_total:
  assumes "side_ok s"
  obtains s' where "mutate_side us s = Inr s'" "side_ok s'" "side_book s' = set_levels us (side_book s)"
  using indexed.run_total[OF assms, of us] by (auto simp: mutate_side_run)

section \<open>Revisions\<close>

definition MATERIALIZED_TOP_LEVELS :: nat where
  "MATERIALIZED_TOP_LEVELS = 1000"

definition MAX_LAZY_REVISION_DEPTH :: nat where
  "MAX_LAZY_REVISION_DEPTH = 64"

datatype book_side = Bids | Asks

text \<open>
  The per-side fields of a revision: the updates since its parent (\<open>None\<close> deletes), the best
  levels, the number of levels, and the complete side once a reader has asked for it.
\<close>

record 'f revision_side =
  side_updates :: "('f \<times> 'f option) list"
  side_top :: "'f level list"
  side_count :: nat
  side_cache :: "'f level list option"

datatype 'f revision = Revision
  (rev_parent: "'f revision option")
  (rev_bids: "'f revision_side")
  (rev_asks: "'f revision_side")
  (rev_depth: nat)

fun rev_side :: "book_side \<Rightarrow> 'f revision \<Rightarrow> 'f revision_side" where
  "rev_side Bids r = rev_bids r"
| "rev_side Asks r = rev_asks r"

fun with_cache :: "book_side \<Rightarrow> 'f level list \<Rightarrow> 'f revision \<Rightarrow> 'f revision" where
  "with_cache Bids ls (Revision par b a d) = Revision par (b\<lparr>side_cache := Some ls\<rparr>) a d"
| "with_cache Asks ls (Revision par b a d) = Revision par b (a\<lparr>side_cache := Some ls\<rparr>) d"

definition new_revision :: "'f revision option \<Rightarrow> 'f revision_side \<Rightarrow> 'f revision_side \<Rightarrow> 'f revision" where
  "new_revision par b a = Revision par b a (case par of None \<Rightarrow> 0 | Some p \<Rightarrow> Suc (rev_depth p))"

definition get_level :: "'f level list \<Rightarrow> 'f \<Rightarrow> 'f level res" where
  "get_level levels price = (case map_of levels price of None \<Rightarrow> Inl KeyError | Some q \<Rightarrow> Inr (price, q))"

definition base_side :: "'f level list \<Rightarrow> 'f revision_side" where
  "base_side full = \<lparr>side_updates = [], side_top = take MATERIALIZED_TOP_LEVELS full, side_count = length full, side_cache = Some full\<rparr>"

definition from_book :: "'f level list \<Rightarrow> 'f level list \<Rightarrow> 'f list \<Rightarrow> 'f list \<Rightarrow> 'f revision res" where
  "from_book bids asks bid_prices ask_prices =
     bindr (mapr (get_level bids) (rev bid_prices)) (\<lambda>full_bids.
     bindr (mapr (get_level asks) ask_prices) (\<lambda>full_asks.
     Inr (new_revision None (base_side full_bids) (base_side full_asks))))"

text \<open>\<open>sorted(..., key=price, reverse=side == "bids")\<close>.\<close>

definition sorted_levels :: "book_side \<Rightarrow> ('f::linorder) level list \<Rightarrow> 'f level list" where
  "sorted_levels side ls = (if side = Bids then rev (sort_key fst (rev ls)) else sort_key fst ls)"

text \<open>
  \<open>materialize\<close>: walk to the nearest revision with a complete side, then apply the updates on
  the way, oldest revision first, and remember the answer.
\<close>

fun collect :: "book_side \<Rightarrow> 'f revision \<Rightarrow> ('f \<times> 'f option) list list \<Rightarrow> ('f level list \<times> ('f \<times> 'f option) list list) res" where
  "collect side (Revision par b a d) trail =
     (let r = Revision par b a d in
      case side_cache (rev_side side r) of
        Some ls \<Rightarrow> Inr (ls, trail)
      | None \<Rightarrow> (case par of None \<Rightarrow> Inl RuntimeError | Some p \<Rightarrow> collect side p (side_updates (rev_side side r) # trail)))"

fun put_update :: "'f \<times> 'f option \<Rightarrow> 'f level list \<Rightarrow> 'f level list" where
  "put_update (price, None) levels = AList.delete price levels"
| "put_update (price, Some q) levels = AList.update price q levels"

definition dict_of :: "'f level list \<Rightarrow> 'f level list" where
  "dict_of ls = fold (\<lambda>(p, q) d. AList.update p q d) ls []"

definition materialize :: "book_side \<Rightarrow> ('f::linorder) revision \<Rightarrow> ('f level list \<times> 'f revision) res" where
  "materialize side r =
     (case side_cache (rev_side side r) of
        Some ls \<Rightarrow> Inr (ls, r)
      | None \<Rightarrow> bindr (collect side r []) (\<lambda>(ls, trail).
          let materialized = sorted_levels side (fold put_update (concat trail) (dict_of ls))
          in Inr (materialized, with_cache side materialized r)))"

text \<open>
  \<open>child\<close>: the parent is kept, or replaced by a new base when a reader has completed both of
  its sides or the chain is long.
\<close>

definition rebase :: "('f::linorder) revision \<Rightarrow> 'f revision res" where
  "rebase r =
     (let based = (\<lambda>bs as. new_revision None (rev_bids r\<lparr>side_updates := [], side_cache := Some bs\<rparr>)
                                         (rev_asks r\<lparr>side_updates := [], side_cache := Some as\<rparr>)) in
      case (side_cache (rev_bids r), side_cache (rev_asks r)) of
        (Some bs, Some as) \<Rightarrow> Inr (based bs as)
      | _ \<Rightarrow>
          if MAX_LAZY_REVISION_DEPTH \<le> rev_depth r then
            bindr (materialize Bids r) (\<lambda>(bs, r).
            bindr (materialize Asks r) (\<lambda>(as, r). Inr (based bs as)))
          else Inr r)"

definition top_bids_of :: "'f level list \<Rightarrow> 'f list \<Rightarrow> 'f level list res" where
  "top_bids_of bids prices = mapr (get_level bids) (rev (drop (length prices - MATERIALIZED_TOP_LEVELS) prices))"

definition top_asks_of :: "'f level list \<Rightarrow> 'f list \<Rightarrow> 'f level list res" where
  "top_asks_of asks prices = mapr (get_level asks) (take MATERIALIZED_TOP_LEVELS prices)"

definition child ::
  "('f::linorder) revision \<Rightarrow> 'f level list \<Rightarrow> 'f level list \<Rightarrow> 'f list \<Rightarrow> 'f list \<Rightarrow> 'f list \<Rightarrow> 'f list \<Rightarrow> 'f revision res"
where
  "child r bids asks bid_prices ask_prices bid_update_prices ask_update_prices =
     bindr (rebase r) (\<lambda>par.
     bindr (top_bids_of bids bid_prices) (\<lambda>top_bids.
     bindr (top_asks_of asks ask_prices) (\<lambda>top_asks.
     Inr (new_revision (Some par)
       \<lparr>side_updates = map (\<lambda>p. (p, map_of bids p)) bid_update_prices, side_top = top_bids, side_count = length bids, side_cache = None\<rparr>
       \<lparr>side_updates = map (\<lambda>p. (p, map_of asks p)) ask_update_prices, side_top = top_asks, side_count = length asks, side_cache = None\<rparr>))))"

text \<open>\<open>_LazyBookSide\<close>: a window of at most \<open>depth\<close> levels on one side of a revision.\<close>

definition lazy_len :: "book_side \<Rightarrow> nat option \<Rightarrow> 'f revision \<Rightarrow> nat" where
  "lazy_len side depth r = (case depth of None \<Rightarrow> side_count (rev_side side r) | Some d \<Rightarrow> min (side_count (rev_side side r)) d)"

definition lazy_best :: "book_side \<Rightarrow> 'f revision \<Rightarrow> 'f level res" where
  "lazy_best side r = (case side_top (rev_side side r) of [] \<Rightarrow> Inl IndexError | l # _ \<Rightarrow> Inr l)"

definition lazy_view :: "book_side \<Rightarrow> nat option \<Rightarrow> ('f::linorder) revision \<Rightarrow> ('f level list \<times> 'f revision) res" where
  "lazy_view side depth r =
     (let n = lazy_len side depth r; best = side_top (rev_side side r) in
      if n \<le> length best then Inr (take n best, r)
      else bindr (materialize side r) (\<lambda>(ls, r). Inr (take n ls, r)))"

definition lazy_top :: "book_side \<Rightarrow> nat option \<Rightarrow> int \<Rightarrow> ('f::linorder) revision \<Rightarrow> ('f level list \<times> 'f revision) res" where
  "lazy_top side depth limit r =
     (let bounded = min (nat limit) (lazy_len side depth r); best = side_top (rev_side side r) in
      if bounded \<le> length best then Inr (take bounded best, r)
      else bindr (lazy_view side depth r) (\<lambda>(ls, r). Inr (take bounded ls, r)))"

section \<open>A revision shows its book\<close>

text \<open>The listing of a book: bids from the highest price down, asks from the lowest up.\<close>

definition listing :: "book_side \<Rightarrow> ('f::linorder \<rightharpoonup> 'f) \<Rightarrow> 'f level list \<Rightarrow> bool" where
  "listing side m ls \<longleftrightarrow> strictly_sorted (map fst (if side = Bids then rev ls else ls)) \<and> map_of ls = m"

lemma listing_distinct: "listing side m ls \<Longrightarrow> distinct (map fst ls)"
  by (cases side) (auto simp: listing_def dest!: strictly_sorted_distinct simp flip: rev_map)

lemma listing_dom: "listing side m ls \<Longrightarrow> dom m = fst ` set ls"
  by (metis dom_map_of_conv_image_fst listing_def)

lemma map_of_listing: "distinct (map fst ls) \<Longrightarrow> map (\<lambda>k. (k, the (map_of ls k))) (map fst ls) = ls"
  unfolding map_map by (rule map_idI) auto

lemma listing_unique:
  assumes "listing side m ls" "listing side m ls'"
  shows "ls = ls'"
proof -
  let ?o = "\<lambda>xs::'a level list. map fst (if side = Bids then rev xs else xs)"
  have "set (?o ls) = set (?o ls')" using listing_dom[OF assms(1)] listing_dom[OF assms(2)] by auto
  then have "?o ls = ?o ls'"
    using assms unfolding listing_def strictly_sorted_def strict_sorted_iff by (metis sorted_distinct_set_unique)
  then have "map fst ls = map fst ls'" by (auto simp flip: rev_map split: if_splits)
  moreover have "map_of ls = map_of ls'" using assms by (simp add: listing_def)
  ultimately show ?thesis
    using map_of_listing[OF listing_distinct[OF assms(1)]] map_of_listing[OF listing_distinct[OF assms(2)]] by metis
qed

lemma map_of_same_set: "distinct (map fst xs) \<Longrightarrow> distinct (map fst ys) \<Longrightarrow> set xs = set ys \<Longrightarrow> map_of xs = map_of ys"
  using map_of_inject_set by blast

lemma sort_key_listing:
  assumes "distinct (map fst ls)"
  shows "strictly_sorted (map fst (sort_key fst ls)) \<and> map_of (sort_key fst ls) = map_of ls"
proof -
  have "distinct (map fst (sort_key fst ls))" using assms by (simp add: distinct_map)
  then show ?thesis
    using assms map_of_same_set[of "sort_key fst ls" ls] by (simp add: strictly_sorted_def strict_sorted_iff)
qed

lemma listing_rev: "distinct (map fst ls) \<Longrightarrow> listing Asks m ls \<longleftrightarrow> listing Bids m (rev ls)"
  using map_of_same_set[of "rev ls" ls] by (simp add: listing_def flip: rev_map)

lemma sorted_levels_listing:
  assumes "od_wf d"
  shows "listing side (map_of d) (sorted_levels side d)"
proof -
  have d: "distinct (map fst d)" "distinct (map fst (rev d))" using assms by (simp_all add: od_wf_def flip: rev_map)
  show ?thesis
  proof (cases side)
    case Asks
    then show ?thesis using sort_key_listing[OF d(1)] by (simp add: listing_def sorted_levels_def)
  next
    case Bids
    have srt: "strictly_sorted (map fst (sort_key fst (rev d)))" "map_of (sort_key fst (rev d)) = map_of d"
      using sort_key_listing[OF d(2)] map_of_same_set[OF d(2,1)] by simp_all
    then have "listing Asks (map_of d) (sort_key fst (rev d))" by (simp add: listing_def)
    then show ?thesis
      using listing_rev strictly_sorted_distinct[OF srt(1)] by (auto simp: Bids sorted_levels_def)
  qed
qed

lemma listing_prices:
  assumes "side_ok (levels, prices)"
  shows "\<exists>ls. mapr (get_level levels) prices = Inr ls \<and> listing Asks (map_of levels) ls \<and>
      mapr (get_level levels) (rev prices) = Inr (rev ls) \<and> listing Bids (map_of levels) (rev ls) \<and>
      map fst ls = prices"
proof -
  let ?g = "\<lambda>p. (p, the (map_of levels p))"
  let ?ls = "map ?g prices"
  have ok: "od_wf levels" "strictly_sorted prices" "set prices = fst ` set levels" using assms by simp_all
  have get: "get_level levels p = Inr (?g p)" if "p \<in> set prices" for p
    using that ok(3) by (auto simp: get_level_def map_of_eq_None_iff split: option.splits)
  have fst: "map fst ?ls = prices" by (simp add: comp_def)
  have d: "distinct (map fst ?ls)" unfolding fst using ok(2) by (rule strictly_sorted_distinct)
  have "map_of ?ls = map_of levels"
  proof
    fix p
    show "map_of ?ls p = map_of levels p"
    proof (cases "p \<in> set prices")
      case True
      then have "map_of levels p \<noteq> None" using ok(3) by (simp add: map_of_eq_None_iff)
      moreover have "map_of ?ls p = Some (the (map_of levels p))" using True by (intro map_of_is_SomeI[OF d]) auto
      ultimately show ?thesis by simp
    next
      case False
      then have "map_of ?ls p = None" using fst by (metis list.set_map map_of_eq_None_iff)
      then show ?thesis using False ok(3) by (metis map_of_eq_None_iff)
    qed
  qed
  then have "listing Asks (map_of levels) ?ls" using ok(2) fst by (simp add: listing_def)
  moreover have "mapr (get_level levels) prices = Inr ?ls" "mapr (get_level levels) (rev prices) = Inr (map ?g (rev prices))"
    using get by (intro mapr_total; simp)+
  ultimately show ?thesis using listing_rev[OF d] fst by (auto simp: rev_map)
qed

text \<open>
  A side of a revision shows a book when its bounded view, its count and, if present, its cache
  are those of the listing of the book, and the updates lead there from what the parent shows.
\<close>

definition put_value :: "'f \<times> 'f option \<Rightarrow> ('f \<rightharpoonup> 'f) \<Rightarrow> 'f \<rightharpoonup> 'f" where
  "put_value u m = m(fst u := snd u)"

definition shows_listing :: "'f revision_side \<Rightarrow> 'f level list \<Rightarrow> bool" where
  "shows_listing s ls \<longleftrightarrow>
     side_top s = take MATERIALIZED_TOP_LEVELS ls \<and> side_count s = length ls \<and> (side_cache s = None \<or> side_cache s = Some ls)"

inductive holds :: "book_side \<Rightarrow> ('f::linorder) revision \<Rightarrow> ('f \<rightharpoonup> 'f) \<Rightarrow> bool" for side where
  base: "rev_parent r = None \<Longrightarrow> listing side m ls \<Longrightarrow> shows_listing (rev_side side r) ls \<Longrightarrow>
    side_cache (rev_side side r) \<noteq> None \<Longrightarrow> holds side r m"
| link: "rev_parent r = Some p \<Longrightarrow> holds side p m0 \<Longrightarrow> listing side m ls \<Longrightarrow> shows_listing (rev_side side r) ls \<Longrightarrow>
    fold put_value (side_updates (rev_side side r)) m0 = m \<Longrightarrow> holds side r m"

lemma holds_shows: "holds side r m \<Longrightarrow> \<exists>ls. listing side m ls \<and> shows_listing (rev_side side r) ls"
  by (induction rule: holds.induct) blast+

lemma holds_unique: "holds side r m \<Longrightarrow> holds side r m' \<Longrightarrow> m = m'"
proof (induction arbitrary: m' rule: holds.induct)
  case (base r m ls)
  from base(5) obtain ls' where "listing side m' ls'" "shows_listing (rev_side side r) ls'" using holds_shows by blast
  then show ?case using base(2-4) by (auto simp: shows_listing_def listing_def)
next
  case (link r p m0 m ls)
  from link(7) show ?case
  proof cases
    case base
    then show ?thesis using link(1) by simp
  next
    case (link p' m0' ls')
    then show ?thesis using link.hyps by (metis \<open>rev_parent r = Some p\<close> link.IH option.inject)
  qed
qed

lemma put_update_step: "od_wf d \<Longrightarrow> od_wf (put_update u d)" "map_of (put_update u d) = put_value u (map_of d)"
  by (cases u; cases "snd u"; simp add: put_value_def map_of_update map_of_delete)+

lemma od_wf_put_update: "od_wf d \<Longrightarrow> od_wf (fold put_update us d)"
  by (induction us arbitrary: d) (simp_all add: put_update_step)

lemma map_of_put_update: "map_of (fold put_update us d) = fold put_value us (map_of d)"
  by (induction us arbitrary: d) (simp_all add: put_update_step)

lemma dict_of_listing: "distinct (map fst ls) \<Longrightarrow> dict_of ls = ls"
proof -
  have "distinct (map fst (d @ ls)) \<Longrightarrow> fold (\<lambda>(p, q) d. AList.update p q d) ls d = d @ ls" for d
  proof (induction ls arbitrary: d)
    case (Cons l ls)
    obtain p q where l: "l = (p, q)" by fastforce
    have "map_of d p = None" using Cons.prems l by (auto simp: map_of_eq_None_iff)
    then have "AList.update p q d = d @ [l]" by (simp add: l update_notin)
    then show ?case using Cons.IH[of "d @ [l]"] Cons.prems l by simp
  qed simp
  from this[of "[]"] show "distinct (map fst ls) \<Longrightarrow> dict_of ls = ls" by (simp add: dict_of_def)
qed

lemma collect_holds:
  "holds side r m \<Longrightarrow> \<exists>ls m0 us. collect side r trail = Inr (ls, us @ trail) \<and> listing side m0 ls \<and> fold put_value (concat us) m0 = m"
proof (induction arbitrary: trail rule: holds.induct)
  case (base r m ls)
  then have "collect side r trail = Inr (ls, [] @ trail)" by (cases r) (auto simp: shows_listing_def)
  then show ?case using base(2) by (intro exI[of _ ls] exI[of _ m] exI[of _ "[]"]) simp
next
  case (link r p m0 m ls)
  show ?case
  proof (cases "side_cache (rev_side side r)")
    case None
    obtain ls' m0' us where c: "collect side p (side_updates (rev_side side r) # trail) =
        Inr (ls', us @ side_updates (rev_side side r) # trail)" "listing side m0' ls'" "fold put_value (concat us) m0' = m0"
      using link.IH by blast
    have "collect side r trail = Inr (ls', (us @ [side_updates (rev_side side r)]) @ trail)"
      using c(1) link(1) None by (cases r) simp
    moreover have "fold put_value (concat (us @ [side_updates (rev_side side r)])) m0' = m"
      using c(3) link(5) by simp
    ultimately show ?thesis using c(2) by blast
  next
    case (Some l)
    then have "collect side r trail = Inr (ls, [] @ trail)" using link(4) by (cases r) (auto simp: shows_listing_def)
    then show ?thesis using link(3) by (intro exI[of _ ls] exI[of _ m] exI[of _ "[]"]) simp
  qed
qed

lemma rev_side_with_cache [simp]:
  "rev_side s (with_cache s' ls r) = (if s = s' then (rev_side s r)\<lparr>side_cache := Some ls\<rparr> else rev_side s r)"
  "rev_parent (with_cache s' ls r) = rev_parent r" "rev_depth (with_cache s' ls r) = rev_depth r"
  by (cases r; cases s; cases s'; simp)+

lemma with_cache_holds:
  assumes "holds side' r m'" "holds side r m" "listing side m ls"
  shows "holds side' (with_cache side ls r) m'"
proof -
  have new: "shows_listing (rev_side side' (with_cache side ls r)) ls'"
    if "listing side' m' ls'" "shows_listing (rev_side side' r) ls'" for ls'
  proof (cases "side' = side")
    case True
    then have "ls' = ls" using that(1) holds_unique[OF assms(1)] assms(2,3) listing_unique by metis
    then show ?thesis using that(2) True by (simp add: shows_listing_def)
  qed (use that in simp)
  from assms(1) show ?thesis
  proof cases
    case (base l)
    then show ?thesis using new[OF base(2,3)] by (intro holds.base[of _ _ m' l]) auto
  next
    case (link p m0 l)
    then show ?thesis using new[OF link(3,4)] by (intro holds.link[of _ p _ m0 m' l]) auto
  qed
qed

text \<open>\<open>materialize\<close> never fails, answers the listing of the book, and only adds a cache.\<close>

lemma materialize_total:
  assumes "holds side r m"
  obtains ls r' where "materialize side r = Inr (ls, r')" "listing side m ls"
    "r' = r \<or> r' = with_cache side ls r" "\<And>side' m'. holds side' r m' \<Longrightarrow> holds side' r' m'"
    "side_cache (rev_side side r') = Some ls"
proof -
  obtain ls where ls: "listing side m ls" "shows_listing (rev_side side r) ls" using holds_shows[OF assms] by blast
  show thesis
  proof (cases "side_cache (rev_side side r)")
    case (Some l)
    then have "l = ls" using ls(2) by (simp add: shows_listing_def)
    then show thesis using that[of ls r] Some ls by (simp add: materialize_def)
  next
    case None
    obtain b m0 us where c: "collect side r [] = Inr (b, us)" "listing side m0 b" "fold put_value (concat us) m0 = m"
      using collect_holds[OF assms, of "[]"] by auto
    let ?d = "fold put_update (concat us) (dict_of b)"
    have "dict_of b = b" using c(2) by (intro dict_of_listing listing_distinct)
    moreover have "od_wf b" using listing_distinct[OF c(2)] by (simp add: od_wf_def)
    ultimately have "od_wf ?d" "map_of ?d = m" using c(2,3)
      by (simp_all add: od_wf_put_update map_of_put_update listing_def)
    then have "listing side m (sorted_levels side ?d)" using sorted_levels_listing by metis
    then show thesis using that[of _ "with_cache side (sorted_levels side ?d) r"] None c(1) with_cache_holds[OF _ assms]
      by (simp add: materialize_def)
  qed
qed

lemma mapr_take: "mapr f xs = Inr ys \<Longrightarrow> mapr f (take n xs) = Inr (take n ys)"
  by (simp add: mapr_Inr_iff list_all2_takeI)

text \<open>The views a revision is built from are those of the listings of the two stores.\<close>

lemma from_book_holds:
  assumes "side_ok (bids, bid_prices)" "side_ok (asks, ask_prices)"
  obtains r where "from_book bids asks bid_prices ask_prices = Inr r"
    "holds Bids r (map_of bids)" "holds Asks r (map_of asks)" "rev_parent r = None" "rev_depth r = 0"
proof -
  obtain b where b: "mapr (get_level bids) (rev bid_prices) = Inr b" "listing Bids (map_of bids) b"
    using listing_prices[OF assms(1)] by blast
  obtain a where a: "mapr (get_level asks) ask_prices = Inr a" "listing Asks (map_of asks) a"
    using listing_prices[OF assms(2)] by blast
  let ?r = "new_revision None (base_side b) (base_side a)"
  have "holds Bids ?r (map_of bids)" "holds Asks ?r (map_of asks)"
    using a b by (auto intro!: holds.base simp: new_revision_def base_side_def shows_listing_def)
  then show thesis using that[of ?r] a b by (simp add: from_book_def new_revision_def)
qed

lemma fold_put_values: "fold put_value (map (\<lambda>p. (p, m' p)) ps) m = (\<lambda>p. if p \<in> set ps then m' p else m p)"
  by (induction ps arbitrary: m) (auto simp: put_value_def fun_eq_iff)

fun chain_length :: "'f revision \<Rightarrow> nat" where
  "chain_length (Revision par b a d) = (case par of None \<Rightarrow> 0 | Some p \<Rightarrow> Suc (chain_length p))"

definition depth_ok :: "'f revision \<Rightarrow> bool" where
  "depth_ok r \<longleftrightarrow> rev_depth r = chain_length r \<and> rev_depth r \<le> MAX_LAZY_REVISION_DEPTH"

lemma chain_length_with_cache [simp]: "chain_length (with_cache side ls r) = chain_length r"
  by (cases r; cases side) simp_all

lemma based_holds:
  assumes "holds Bids r mb" "holds Asks r ma" "listing Bids mb bs" "listing Asks ma as"
  defines "r' \<equiv> new_revision None (rev_bids r\<lparr>side_updates := [], side_cache := Some bs\<rparr>)
                                 (rev_asks r\<lparr>side_updates := [], side_cache := Some as\<rparr>)"
  shows "holds Bids r' mb" "holds Asks r' ma" "rev_depth r' = 0" "chain_length r' = 0"
proof -
  have "shows_listing (rev_side Bids r) bs" "shows_listing (rev_side Asks r) as"
    using holds_shows[OF assms(1)] holds_shows[OF assms(2)] assms(3,4) listing_unique by metis+
  then show "holds Bids r' mb" "holds Asks r' ma"
    using assms(3,4) by (auto intro!: holds.base simp: r'_def new_revision_def shows_listing_def)
qed (simp_all add: r'_def new_revision_def)

lemma rebase_holds:
  assumes "holds Bids r mb" "holds Asks r ma" "depth_ok r"
  obtains p where "rebase r = Inr p" "holds Bids p mb" "holds Asks p ma"
    "rev_depth p = chain_length p" "rev_depth p < MAX_LAZY_REVISION_DEPTH"
proof (cases "side_cache (rev_bids r) \<noteq> None \<and> side_cache (rev_asks r) \<noteq> None")
  case True
  then obtain bs as where c: "side_cache (rev_bids r) = Some bs" "side_cache (rev_asks r) = Some as" by auto
  then have "listing Bids mb bs" "listing Asks ma as"
    using holds_shows[OF assms(1)] holds_shows[OF assms(2)] by (auto simp: shows_listing_def)
  from based_holds[OF assms(1,2) this] show thesis using that c by (simp add: rebase_def MAX_LAZY_REVISION_DEPTH_def)
next
  case some: False
  show thesis
  proof (cases "MAX_LAZY_REVISION_DEPTH \<le> rev_depth r")
    case True
    obtain bs r1 where b: "materialize Bids r = Inr (bs, r1)" "listing Bids mb bs"
      "\<And>side' m'. holds side' r m' \<Longrightarrow> holds side' r1 m'" using materialize_total[OF assms(1)] by metis
    obtain as r2 where a: "materialize Asks r1 = Inr (as, r2)" "listing Asks ma as"
      "\<And>side' m'. holds side' r1 m' \<Longrightarrow> holds side' r2 m'" using materialize_total[OF b(3)[OF assms(2)]] by metis
    have "rebase r = Inr (new_revision None (rev_bids r\<lparr>side_updates := [], side_cache := Some bs\<rparr>)
        (rev_asks r\<lparr>side_updates := [], side_cache := Some as\<rparr>))"
      using some True b(1) a(1) by (auto simp: rebase_def split: option.splits)
    then show thesis using that based_holds[OF assms(1,2) b(2) a(2)] by (simp add: MAX_LAZY_REVISION_DEPTH_def)
  next
    case False
    then have "rebase r = Inr r" using some by (auto simp: rebase_def split: option.splits)
    then show thesis using that assms False by (simp add: depth_ok_def)
  qed
qed

text \<open>
  A child of a revision shows the new stores, provided they differ from what the revision shows
  only at the given prices; the chain stays short.
\<close>

lemma child_holds:
  assumes r: "holds Bids r mb" "holds Asks r ma" "depth_ok r"
    and ok: "side_ok (bids, bid_prices)" "side_ok (asks, ask_prices)"
    and same: "\<And>p. p \<notin> set bps \<Longrightarrow> map_of bids p = mb p" "\<And>p. p \<notin> set aps \<Longrightarrow> map_of asks p = ma p"
  obtains r' where "child r bids asks bid_prices ask_prices bps aps = Inr r'"
    "holds Bids r' (map_of bids)" "holds Asks r' (map_of asks)" "depth_ok r'"
proof -
  obtain p where p: "rebase r = Inr p" "holds Bids p mb" "holds Asks p ma"
    "rev_depth p = chain_length p" "rev_depth p < MAX_LAZY_REVISION_DEPTH" using rebase_holds[OF r] .
  obtain b where b: "mapr (get_level bids) (rev bid_prices) = Inr b" "listing Bids (map_of bids) b"
    "length b = length bids"
    using listing_prices[OF ok(1)] side_ok_length[OF ok(1)] by (metis length_map length_rev)
  obtain a where a: "mapr (get_level asks) ask_prices = Inr a" "listing Asks (map_of asks) a"
    "length a = length asks"
    using listing_prices[OF ok(2)] side_ok_length[OF ok(2)] by (metis length_map)
  have tb: "top_bids_of bids bid_prices = Inr (take MATERIALIZED_TOP_LEVELS b)"
    using mapr_take[OF b(1), of MATERIALIZED_TOP_LEVELS] by (simp add: top_bids_of_def take_rev)
  have ta: "top_asks_of asks ask_prices = Inr (take MATERIALIZED_TOP_LEVELS a)"
    using mapr_take[OF a(1)] by (simp add: top_asks_of_def)
  let ?b = "\<lparr>side_updates = map (\<lambda>p. (p, map_of bids p)) bps, side_top = take MATERIALIZED_TOP_LEVELS b, side_count = length bids, side_cache = None\<rparr>"
  let ?a = "\<lparr>side_updates = map (\<lambda>p. (p, map_of asks p)) aps, side_top = take MATERIALIZED_TOP_LEVELS a, side_count = length asks, side_cache = None\<rparr>"
  let ?r = "new_revision (Some p) ?b ?a"
  have "holds Bids ?r (map_of bids)"
    using p(2) b same(1) by (intro holds.link[of ?r p Bids mb "map_of bids" b])
      (auto simp: new_revision_def shows_listing_def fold_put_values)
  moreover have "holds Asks ?r (map_of asks)"
    using p(3) a same(2) by (intro holds.link[of ?r p Asks ma "map_of asks" a])
      (auto simp: new_revision_def shows_listing_def fold_put_values)
  moreover have "depth_ok ?r" using p(4,5) by (simp add: depth_ok_def new_revision_def)
  ultimately show thesis using that[of ?r] p(1) tb ta by (simp add: child_def)
qed

section \<open>Readers\<close>

text \<open>A reader of an earlier snapshot completes a side of an ancestor, which its descendants share.\<close>

fun read_at :: "book_side \<Rightarrow> nat \<Rightarrow> ('f::linorder) revision \<Rightarrow> 'f revision" where
  "read_at side 0 r = (case materialize side r of Inl e \<Rightarrow> r | Inr (_, r') \<Rightarrow> r')"
| "read_at side (Suc k) (Revision par b a d) = Revision (map_option (read_at side k) par) b a d"

lemma read_at_same: "rev_depth (read_at side k r) = rev_depth r \<and> chain_length (read_at side k r) = chain_length r"
proof (induction k arbitrary: r)
  case 0
  show ?case
  proof (cases "materialize side r")
    case (Inr x)
    then obtain ls r' where "materialize side r = Inr (ls, r')" by (cases x) auto
    moreover from this have "r' = r \<or> r' = with_cache side ls r"
      by (auto simp: materialize_def Let_def bindr_eq_Inr split: option.splits prod.splits)
    ultimately show ?thesis by auto
  qed simp
next
  case (Suc k)
  then show ?case by (cases r) (auto split: option.splits)
qed

definition shows_books :: "('f::linorder) revision \<Rightarrow> bool" where
  "shows_books r \<longleftrightarrow> (\<forall>side. \<exists>m. holds side r m)"

lemma shows_booksI: "holds Bids r mb \<Longrightarrow> holds Asks r ma \<Longrightarrow> shows_books r"
  unfolding shows_books_def by (metis book_side.exhaust)

lemma shows_books_parent: "shows_books r \<Longrightarrow> rev_parent r = Some p \<Longrightarrow> shows_books p"
  unfolding shows_books_def by (metis holds.cases not_Some_eq option.inject)

lemma read_at_holds: "shows_books r \<Longrightarrow> holds side r m \<Longrightarrow> holds side (read_at side' k r) m"
proof (induction k arbitrary: r m)
  case 0
  then obtain m' where "holds side' r m'" by (auto simp: shows_books_def)
  from materialize_total[OF this] obtain ls r' where "materialize side' r = Inr (ls, r')" "holds side r' m"
    using 0(2) by metis
  then show ?case by simp
next
  case (Suc k)
  from Suc.prems(2) show ?case
  proof cases
    case (base ls)
    then have "read_at side' (Suc k) r = r" by (cases r) simp
    then show ?thesis using Suc.prems(2) by simp
  next
    case (link p m0 ls)
    let ?r = "read_at side' (Suc k) r"
    have "holds side (read_at side' k p) m0" using Suc.IH[OF shows_books_parent[OF Suc.prems(1) link(1)] link(2)] .
    moreover have "rev_parent ?r = Some (read_at side' k p)" "rev_side side ?r = rev_side side r"
      using link(1) by (cases r; cases side; simp)+
    ultimately show ?thesis using link(3-5) by (auto intro: holds.link)
  qed
qed

text \<open>What a reader sees on a window of a revision.\<close>

lemma take_view: "xs = take N ls \<Longrightarrow> n \<le> length xs \<Longrightarrow> take n xs = take n ls"
  by (auto simp: min_def split: if_splits)

lemma lazy_view_listing:
  assumes "holds side r m" "listing side m ls"
  obtains r' where "lazy_view side depth r = Inr (case depth of None \<Rightarrow> ls | Some d \<Rightarrow> take d ls, r')"
    "\<And>side' m'. holds side' r m' \<Longrightarrow> holds side' r' m'"
proof -
  have sh: "shows_listing (rev_side side r) ls" using holds_shows[OF assms(1)] assms(2) listing_unique by metis
  let ?n = "lazy_len side depth r"
  have n: "take ?n ls = (case depth of None \<Rightarrow> ls | Some d \<Rightarrow> take d ls)"
    using sh by (auto simp: lazy_len_def shows_listing_def min_def split: option.splits)
  show thesis
  proof (cases "?n \<le> length (side_top (rev_side side r))")
    case True
    then have "take ?n (side_top (rev_side side r)) = take ?n ls" using take_view[OF _ True] sh by (simp add: shows_listing_def)
    then show thesis using that[of r] True n by (simp add: lazy_view_def)
  next
    case False
    obtain ls' r' where m: "materialize side r = Inr (ls', r')" "listing side m ls'"
      "\<And>side' m'. holds side' r m' \<Longrightarrow> holds side' r' m'" using materialize_total[OF assms(1)] by metis
    then have "ls' = ls" using assms(2) listing_unique by metis
    then show thesis using that[of r'] False m n by (simp add: lazy_view_def)
  qed
qed

lemma lazy_top_listing:
  assumes "holds side r m" "listing side m ls"
  obtains r' where "lazy_top side None limit r = Inr (take (nat limit) ls, r')"
proof -
  have sh: "shows_listing (rev_side side r) ls" using holds_shows[OF assms(1)] assms(2) listing_unique by metis
  obtain r' where v: "lazy_view side None r = Inr (ls, r')"
    using lazy_view_listing[OF assms, of None] by (metis option.simps(4))
  let ?n = "min (nat limit) (length ls)"
  have len: "lazy_len side None r = length ls" using sh by (simp add: lazy_len_def shows_listing_def)
  have n: "take ?n ls = take (nat limit) ls" by (simp add: min_def)
  show thesis
  proof (cases "?n \<le> length (side_top (rev_side side r))")
    case True
    then have "take ?n (side_top (rev_side side r)) = take ?n ls" using take_view[OF _ True] sh by (simp add: shows_listing_def)
    then show thesis using that[of r] True n by (simp add: lazy_top_def len)
  next
    case False
    then show thesis using that[of r'] v n by (simp add: lazy_top_def len)
  qed
qed

lemma lazy_best_listing:
  assumes "holds side r m" "listing side m ls" "ls \<noteq> []"
  shows "lazy_best side r = Inr (hd ls)"
proof -
  have "shows_listing (rev_side side r) ls" using holds_shows[OF assms(1)] assms(2) listing_unique by metis
  then show ?thesis using assms(3) by (cases ls) (simp_all add: shows_listing_def lazy_best_def MATERIALIZED_TOP_LEVELS_def)
qed

end
