(* ===== verification/OrderBook.thy ===== *)
theory OrderBook
  imports BookSide
begin

text \<open>
  The reconstruction of a local full order book from a depth snapshot and a stream of diffs
  (\<open>FullOrderBookEngine\<close> of \<open>backend/app/data_engine/market_data/full_order_book.py\<close>): validated
  seeds and deltas, buffering, the bridge from the snapshot to the stream, live application with
  a bounded window, failure and resynchronisation under a new epoch. A market event enters as
  the outcome of its conversion to a seed or a delta.
\<close>

section \<open>Vocabulary\<close>

datatype data_source = Websocket | Http | HttpBackfill | Plugin | Mock

datatype book_state = Inactive | Buffering | AwaitingBridge | Live | ResyncRequired

datatype book_action = Buffered | SnapshotInstalled | Applied | Duplicate | Stale | StaleEpoch | ResyncNeeded

datatype book_failure = Gap | ConflictingDuplicate | CrossedBook | EmptyBook | Capacity

type_synonym identity = "string \<times> string \<times> string \<times> int"

definition required_text :: "(string \<Rightarrow> string) \<Rightarrow> string \<Rightarrow> string res" where
  "required_text to_case v = (let normalized = py_strip v in if normalized = [] then Inl ValueError else Inr (to_case normalized))"

definition required_int :: "int \<Rightarrow> int \<Rightarrow> int res" where
  "required_int minimum v = (if v < minimum then Inl ValueError else Inr v)"

fun normalize_identity :: "identity \<Rightarrow> identity res" where
  "normalize_identity (exchange, market_type, symbol, update_interval_ms) =
     bindr (required_text py_lower exchange) (\<lambda>x.
     bindr (required_text py_lower market_type) (\<lambda>m.
     bindr (required_text py_upper symbol) (\<lambda>s.
     bindr (required_int 1 update_interval_ms) (\<lambda>u. Inr (x, m, s, u)))))"

section \<open>Seeds and deltas\<close>

text \<open>\<open>FullOrderBookLevel\<close> and \<open>DepthLevelUpdate\<close> accept positive prices, and positive quantities or for an update zero.\<close>

definition level_ok :: "bool \<Rightarrow> 'f::{linorder,zero} level \<Rightarrow> bool" where
  "level_ok update l \<longleftrightarrow> 0 < fst l \<and> (if update then 0 \<le> snd l else 0 < snd l)"

definition make_levels :: "bool \<Rightarrow> bool \<Rightarrow> 'f::{linorder,zero} level list \<Rightarrow> 'f level list res" where
  "make_levels update allow_empty ls =
     (if \<not> list_all (level_ok update) ls then Inl ValueError
      else if ls = [] \<and> \<not> allow_empty then Inl ValueError
      else if \<not> distinct (map fst ls) then Inl ValueError
      else Inr ls)"

definition canonical_seed_levels :: "book_side \<Rightarrow> 'f::{linorder,zero} level list \<Rightarrow> 'f level list res" where
  "canonical_seed_levels side ls = bindr (make_levels False False ls) (\<lambda>parsed. Inr (sorted_levels side parsed))"

record 'f seed =
  sd_identity :: identity
  sd_snapshot_limit :: int
  sd_last_update_id :: int
  sd_bids :: "'f level list"
  sd_asks :: "'f level list"
  sd_event_time_ms :: int
  sd_received_at_ms :: int
  sd_source :: data_source

record 'f delta =
  dl_identity :: identity
  dl_first_update_id :: int
  dl_final_update_id :: int
  dl_previous_final_update_id :: "int option"
  dl_bids :: "'f level list"
  dl_asks :: "'f level list"
  dl_event_time_ms :: int
  dl_transaction_time_ms :: "int option"
  dl_received_at_ms :: int
  dl_source :: data_source

text \<open>The validation of a seed (\<open>__post_init__\<close>): the rows are sorted and the book must not be crossed.\<close>

definition make_seed :: "'f::{linorder,zero} seed \<Rightarrow> 'f seed res" where
  "make_seed s =
     bindr (normalize_identity (sd_identity s)) (\<lambda>i.
     bindr (required_int 1 (sd_snapshot_limit s)) (\<lambda>limit.
     bindr (required_int 1 (sd_last_update_id s)) (\<lambda>_.
     bindr (required_int 0 (sd_event_time_ms s)) (\<lambda>_.
     bindr (required_int 0 (sd_received_at_ms s)) (\<lambda>_.
     bindr (canonical_seed_levels Bids (sd_bids s)) (\<lambda>bs.
     bindr (canonical_seed_levels Asks (sd_asks s)) (\<lambda>as.
     if limit < int (length bs) \<or> limit < int (length as) then Inl ValueError
     else if fst (hd as) \<le> fst (hd bs) then Inl ValueError
     else Inr (s\<lparr>sd_identity := i, sd_bids := bs, sd_asks := as\<rparr>))))))))"

fun is_spot :: "identity \<Rightarrow> bool" where
  "is_spot (exchange, market_type, symbol, interval) \<longleftrightarrow> exchange = ''binance'' \<and> market_type = ''spot''"

definition make_delta :: "'f::{linorder,zero} delta \<Rightarrow> 'f delta res" where
  "make_delta d =
     bindr (normalize_identity (dl_identity d)) (\<lambda>i.
     bindr (required_int 1 (dl_first_update_id d)) (\<lambda>first_id.
     bindr (required_int 1 (dl_final_update_id d)) (\<lambda>final_id.
     bindr (if is_spot i
            then (if dl_previous_final_update_id d \<noteq> None then Inl ValueError else Inr None)
            else (case dl_previous_final_update_id d of
                    None \<Rightarrow> Inl TypeError
                  | Some p \<Rightarrow> bindr (required_int 0 p) (\<lambda>p. Inr (Some p)))) (\<lambda>previous_id.
     if final_id < first_id then Inl ValueError
     else if (case previous_id of None \<Rightarrow> False | Some p \<Rightarrow> final_id \<le> p) then Inl ValueError
     else
     bindr (required_int 0 (dl_event_time_ms d)) (\<lambda>_.
     bindr (case dl_transaction_time_ms d of None \<Rightarrow> Inr 0 | Some t \<Rightarrow> required_int 0 t) (\<lambda>_.
     bindr (required_int 0 (dl_received_at_ms d)) (\<lambda>_.
     bindr (make_levels True True (dl_bids d)) (\<lambda>_.
     bindr (make_levels True True (dl_asks d)) (\<lambda>_.
     Inr (d\<lparr>dl_identity := i\<rparr>))))))))))"

definition level_update_count :: "'f delta \<Rightarrow> int" where
  "level_update_count d = int (length (dl_bids d) + length (dl_asks d))"

type_synonym 'f signature = "int \<times> int \<times> int option \<times> 'f level list \<times> 'f level list"

definition signature :: "'f delta \<Rightarrow> 'f signature" where
  "signature d = (dl_first_update_id d, dl_final_update_id d, dl_previous_final_update_id d, dl_bids d, dl_asks d)"

text \<open>The three rules on update ids; the spot stream has no link to the previous event.\<close>

definition delta_follows_snapshot :: "'f delta \<Rightarrow> int \<Rightarrow> bool" where
  "delta_follows_snapshot d snapshot_id =
     (if is_spot (dl_identity d) then dl_final_update_id d > snapshot_id else dl_final_update_id d \<ge> snapshot_id)"

definition bridges_snapshot :: "'f delta \<Rightarrow> int \<Rightarrow> bool" where
  "bridges_snapshot d snapshot_id =
     (let target_id = (if is_spot (dl_identity d) then snapshot_id + 1 else snapshot_id)
      in dl_first_update_id d \<le> target_id \<and> target_id \<le> dl_final_update_id d)"

definition link_error :: "int \<Rightarrow> 'f delta \<Rightarrow> string option" where
  "link_error previous_id d =
     (if is_spot (dl_identity d) then
        (if dl_first_update_id d > previous_id + 1 then Some ''delta U is greater than previous applied u + 1'' else None)
      else if dl_previous_final_update_id d \<noteq> Some previous_id then Some ''delta pu does not equal previous applied u''
      else None)"

section \<open>State\<close>

record 'f book =
  bids :: "'f level list"
  asks :: "'f level list"
  bid_prices :: "'f list"
  ask_prices :: "'f list"

record 'f stream = "'f book" +
  st_epoch :: int
  status :: book_state
  book_revision :: "'f revision option"
  buffered :: "'f delta list"
  buffered_updates :: int
  last_update_id :: "int option"
  last_delta_signature :: "'f signature option"
  snapshot_limit :: "int option"
  st_event_time_ms :: int
  st_received_at_ms :: int
  st_source :: data_source
  st_revision :: int
  st_failure :: "book_failure option"
  failure_detail :: "string option"
  trusted_bid_depth :: nat
  trusted_ask_depth :: nat
  trimmed_bid_boundary :: "'f option"
  trimmed_ask_boundary :: "'f option"
  bid_levels_trimmed :: nat
  ask_levels_trimmed :: nat

definition new_stream :: "int \<Rightarrow> book_state \<Rightarrow> 'f stream" where
  "new_stream epoch st =
     \<lparr>bids = [], asks = [], bid_prices = [], ask_prices = [], st_epoch = epoch, status = st, book_revision = None,
      buffered = [], buffered_updates = 0, last_update_id = None, last_delta_signature = None, snapshot_limit = None,
      st_event_time_ms = 0, st_received_at_ms = 0, st_source = Mock, st_revision = 0, st_failure = None, failure_detail = None,
      trusted_bid_depth = 0, trusted_ask_depth = 0, trimmed_bid_boundary = None, trimmed_ask_boundary = None,
      bid_levels_trimmed = 0, ask_levels_trimmed = 0\<rparr>"

text \<open>\<open>_reset\<close> puts every field back to its default.\<close>

definition reset :: "int \<Rightarrow> book_state \<Rightarrow> 'f stream \<Rightarrow> 'f stream" where
  "reset epoch st s =
     s\<lparr>st_epoch := epoch, status := st, bids := [], asks := [], bid_prices := [], ask_prices := [], book_revision := None,
       buffered := [], buffered_updates := 0, last_update_id := None, last_delta_signature := None, snapshot_limit := None,
       st_event_time_ms := 0, st_received_at_ms := 0, st_source := Mock, st_revision := 0, st_failure := None, failure_detail := None,
       trusted_bid_depth := 0, trusted_ask_depth := 0, trimmed_bid_boundary := None, trimmed_ask_boundary := None,
       bid_levels_trimmed := 0, ask_levels_trimmed := 0\<rparr>"

record limits =
  max_streams :: int
  max_levels_per_side :: int
  max_buffered_deltas :: int
  max_updates_per_delta :: int
  max_buffered_level_updates :: int

type_synonym metrics = "string \<Rightarrow> nat"

definition bump_by :: "nat \<Rightarrow> string \<Rightarrow> metrics \<Rightarrow> metrics" where
  "bump_by n name m = m(name := m name + n)"

abbreviation bump :: "string \<Rightarrow> metrics \<Rightarrow> metrics" where
  "bump \<equiv> bump_by 1"

record 'f engine =
  engine_limits :: limits
  streams :: "(identity \<times> 'f stream) list"
  active :: "identity set"
  next_epoch :: int
  metrics :: metrics

definition new_engine :: "limits \<Rightarrow> 'f engine res" where
  "new_engine l =
     bindr (required_int 1 (max_streams l)) (\<lambda>_.
     bindr (required_int 1 (max_levels_per_side l)) (\<lambda>_.
     bindr (required_int 1 (max_buffered_deltas l)) (\<lambda>_.
     bindr (required_int 1 (max_updates_per_delta l)) (\<lambda>_.
     bindr (required_int 1 (max_buffered_level_updates l)) (\<lambda>_.
     Inr \<lparr>engine_limits = l, streams = [], active = {}, next_epoch = 0, metrics = (\<lambda>_. 0)\<rparr>)))))"

text \<open>A published snapshot; its bids and asks are the two lazy sides of one revision, cut at the depth.\<close>

record 'f snapshot =
  sn_identity :: identity
  sn_epoch :: int
  sn_last_update_id :: int
  sn_snapshot_limit :: int
  sn_book :: "'f revision"
  sn_book_bid_levels :: nat
  sn_book_ask_levels :: nat
  sn_projection_depth :: "nat option"
  sn_event_time_ms :: int
  sn_received_at_ms :: int
  sn_source :: data_source
  sn_revision :: int
  sn_local_level_capacity :: int
  sn_bid_levels_trimmed :: nat
  sn_ask_levels_trimmed :: nat

record 'f apply_result =
  accepted :: bool
  action :: book_action
  rs_state :: book_state
  rs_epoch :: int
  rs_last_update_id :: "int option"
  reason :: "string option"
  rs_failure :: "book_failure option"
  rs_snapshot :: "'f snapshot option"

section \<open>Publishing\<close>

definition last_price :: "'f list \<Rightarrow> 'f res" where
  "last_price ps = (if ps = [] then Inl IndexError else Inr (last ps))"

definition first_price :: "'f list \<Rightarrow> 'f res" where
  "first_price ps = (if ps = [] then Inl IndexError else Inr (hd ps))"

text \<open>The checks of \<open>FullOrderBookSnapshot.__post_init__\<close> on a lazy projection.\<close>

definition make_snapshot :: "'f::linorder snapshot \<Rightarrow> 'f snapshot res" where
  "make_snapshot sn =
     (let n_bids = lazy_len Bids (sn_projection_depth sn) (sn_book sn);
          n_asks = lazy_len Asks (sn_projection_depth sn) (sn_book sn) in
     bindr (normalize_identity (sn_identity sn)) (\<lambda>i.
     bindr (required_int 1 (sn_epoch sn)) (\<lambda>_.
     bindr (required_int 1 (sn_last_update_id sn)) (\<lambda>_.
     bindr (required_int 1 (sn_snapshot_limit sn)) (\<lambda>_.
     bindr (lazy_best Bids (sn_book sn)) (\<lambda>best_bid.
     bindr (lazy_best Asks (sn_book sn)) (\<lambda>best_ask.
     if fst best_ask \<le> fst best_bid then Inl ValueError
     else if sn_book_bid_levels sn < 1 \<or> sn_book_ask_levels sn < 1 then Inl ValueError
     else if sn_book_bid_levels sn < n_bids \<or> sn_book_ask_levels sn < n_asks then Inl ValueError
     else if (case sn_projection_depth sn of
          None \<Rightarrow> sn_book_bid_levels sn \<noteq> n_bids \<or> sn_book_ask_levels sn \<noteq> n_asks
        | Some d \<Rightarrow> d < 1 \<or> d < n_bids \<or> d < n_asks) then Inl ValueError
     else
     bindr (required_int 0 (sn_event_time_ms sn)) (\<lambda>_.
     bindr (required_int 0 (sn_received_at_ms sn)) (\<lambda>_.
     bindr (required_int 1 (sn_revision sn)) (\<lambda>_.
     bindr (required_int (sn_snapshot_limit sn) (sn_local_level_capacity sn)) (\<lambda>_.
     Inr (sn\<lparr>sn_identity := i\<rparr>))))))))))))"

definition project :: "limits \<Rightarrow> identity \<Rightarrow> nat option \<Rightarrow> ('f::linorder) stream \<Rightarrow> 'f snapshot res" where
  "project l i depth s =
     (case (last_update_id s, snapshot_limit s, book_revision s) of
        (Some last_id, Some limit, Some r) \<Rightarrow>
          make_snapshot \<lparr>sn_identity = i, sn_epoch = st_epoch s, sn_last_update_id = last_id, sn_snapshot_limit = limit,
            sn_book = r, sn_book_bid_levels = length (bids s), sn_book_ask_levels = length (asks s), sn_projection_depth = depth,
            sn_event_time_ms = st_event_time_ms s, sn_received_at_ms = st_received_at_ms s, sn_source = st_source s,
            sn_revision = st_revision s, sn_local_level_capacity = max_levels_per_side l,
            sn_bid_levels_trimmed = bid_levels_trimmed s, sn_ask_levels_trimmed = ask_levels_trimmed s\<rparr>
      | _ \<Rightarrow> Inl AssertionError)"

definition result :: "'f stream \<Rightarrow> bool \<Rightarrow> book_action \<Rightarrow> string option \<Rightarrow> book_failure option \<Rightarrow> 'f snapshot option \<Rightarrow> 'f apply_result" where
  "result s ok act why failure snap =
     \<lparr>accepted = ok, action = act, rs_state = status s, rs_epoch = st_epoch s, rs_last_update_id = last_update_id s,
      reason = why, rs_failure = failure, rs_snapshot = snap\<rparr>"

text \<open>
  An operation on a stream returns the changed stream and counters, and the result or the
  exception that leaves it.
\<close>

type_synonym 'f outcome = "('f stream \<times> metrics) \<times> 'f apply_result res"

fun failure_metric :: "book_failure \<Rightarrow> string" where
  "failure_metric Gap = ''gaps''"
| "failure_metric ConflictingDuplicate = ''conflicting_duplicates''"
| "failure_metric CrossedBook = ''crossed_books''"
| "failure_metric EmptyBook = ''empty_books''"
| "failure_metric Capacity = ''capacity_failures''"

definition failed :: "book_failure \<Rightarrow> string \<Rightarrow> 'f stream \<Rightarrow> 'f stream" where
  "failed f detail s =
     s\<lparr>status := ResyncRequired, bids := [], asks := [], bid_prices := [], ask_prices := [], book_revision := None,
       buffered := [], buffered_updates := 0, last_update_id := None, last_delta_signature := None, snapshot_limit := None,
       st_revision := 0, st_failure := Some f, failure_detail := Some detail,
       trusted_bid_depth := 0, trusted_ask_depth := 0, trimmed_bid_boundary := None, trimmed_ask_boundary := None,
       bid_levels_trimmed := 0, ask_levels_trimmed := 0\<rparr>"

definition fail :: "'f stream \<Rightarrow> metrics \<Rightarrow> book_failure \<Rightarrow> string \<Rightarrow> 'f outcome" where
  "fail s m f detail =
     (let s' = failed f detail s in
      ((s', bump (failure_metric f) m), Inr (result s' False ResyncNeeded (Some detail) (Some f) None)))"

definition duplicate_result :: "'f stream \<Rightarrow> metrics \<Rightarrow> 'f outcome" where
  "duplicate_result s m =
     ((s, bump ''deltas_duplicate'' m), Inr (result s False Duplicate (Some ''duplicate final update ID'') None None))"

definition stale_result :: "'f stream \<Rightarrow> metrics \<Rightarrow> 'f outcome" where
  "stale_result s m =
     ((s, bump ''deltas_stale'' m), Inr (result s False Stale (Some ''delta final update ID is older than local state'') None None))"

definition stale_epoch_result :: "'f stream \<Rightarrow> metrics \<Rightarrow> 'f outcome" where
  "stale_epoch_result s m =
     ((s, bump ''stale_epochs'' m), Inr (result s False StaleEpoch (Some ''event belongs to a stale synchronization epoch'') None None))"

section \<open>Buffering\<close>

definition buffer_delta :: "limits \<Rightarrow> 'f stream \<Rightarrow> metrics \<Rightarrow> 'f delta \<Rightarrow> 'f outcome" where
  "buffer_delta l s m d =
     (let append = (\<lambda>_::unit.
        if max_buffered_deltas l \<le> int (length (buffered s)) then fail s m Capacity ''buffered delta count limit exceeded''
        else if max_buffered_level_updates l < buffered_updates s + level_update_count d
        then fail s m Capacity ''buffered level update limit exceeded''
        else let s' = s\<lparr>buffered := buffered s @ [d], buffered_updates := buffered_updates s + level_update_count d\<rparr> in
          ((s', bump ''deltas_buffered'' m), Inr (result s' True Buffered None None None))) in
      if buffered s = [] then append ()
      else let previous = last (buffered s) in
        if dl_final_update_id d < dl_final_update_id previous then stale_result s m
        else if dl_final_update_id d = dl_final_update_id previous then
          (if signature d = signature previous then duplicate_result s m
           else fail s m ConflictingDuplicate ''same final update ID has conflicting payload'')
        else (case link_error (dl_final_update_id previous) d of
            Some e \<Rightarrow> fail s m Gap e
          | None \<Rightarrow> append ()))"

section \<open>The local book\<close>

text \<open>\<open>_mutate_book\<close>: a delta on the book of a snapshot; a full side is a failure.\<close>

definition mutate_book :: "limits \<Rightarrow> 'f::{linorder,zero} delta \<Rightarrow> 'f book \<Rightarrow> ((book_failure \<times> string) option \<times> 'f book) res" where
  "mutate_book l d b =
     bindr (mutate_side (dl_bids d) (bids b, bid_prices b)) (\<lambda>(bs, bps).
     bindr (mutate_side (dl_asks d) (asks b, ask_prices b)) (\<lambda>(as, aps).
     let b' = \<lparr>bids = bs, asks = as, bid_prices = bps, ask_prices = aps\<rparr> in
     if max_levels_per_side l < int (length bs) \<or> max_levels_per_side l < int (length as)
     then Inr (Some (Capacity, ''local book level capacity exceeded''), b')
     else if bs = [] \<or> as = [] then Inr (Some (EmptyBook, ''local book lost one complete side''), b')
     else bindr (last_price bps) (\<lambda>best_bid. bindr (first_price aps) (\<lambda>best_ask.
       Inr (if best_ask \<le> best_bid then Some (CrossedBook, ''local book became crossed or locked'') else None, b')))))"

text \<open>
  The loops that trim a full side: the worst price leaves, and becomes the boundary beyond
  which the local book no longer knows the exchange's levels.
\<close>

fun trim_bids :: "int \<Rightarrow> ('f::linorder) level list \<Rightarrow> 'f list \<Rightarrow> 'f option \<Rightarrow> 'f list \<Rightarrow> ('f level list \<times> 'f list \<times> 'f option \<times> 'f list) res" where
  "trim_bids cap bs [] boundary trimmed = (if cap < int (length bs) then Inl IndexError else Inr (bs, [], boundary, trimmed))"
| "trim_bids cap bs (p # ps) boundary trimmed =
     (if cap < int (length bs) then
        (if map_of bs p = None then Inl KeyError
         else trim_bids cap (AList.delete p bs) ps (Some (case boundary of None \<Rightarrow> p | Some b \<Rightarrow> max p b)) (p # trimmed))
      else Inr (bs, p # ps, boundary, trimmed))"

function trim_asks :: "int \<Rightarrow> ('f::linorder) level list \<Rightarrow> 'f list \<Rightarrow> 'f option \<Rightarrow> 'f list \<Rightarrow> ('f level list \<times> 'f list \<times> 'f option \<times> 'f list) res" where
  "trim_asks cap as ps boundary trimmed =
     (if cap < int (length as) then
        (if ps = [] then Inl IndexError
         else let p = last ps in
           if map_of as p = None then Inl KeyError
           else trim_asks cap (AList.delete p as) (butlast ps) (Some (case boundary of None \<Rightarrow> p | Some b \<Rightarrow> min p b)) (p # trimmed))
      else Inr (as, ps, boundary, trimmed))"
  by pat_completeness auto
termination by (relation "measure (\<lambda>(_, _, ps, _, _). length ps)") auto

declare trim_asks.simps [simp del]

definition inside_bids :: "'f::linorder stream \<Rightarrow> 'f level \<Rightarrow> bool" where
  "inside_bids s u \<longleftrightarrow> map_of (bids s) (fst u) \<noteq> None \<or> (case trimmed_bid_boundary s of None \<Rightarrow> True | Some b \<Rightarrow> b < fst u)"

definition inside_asks :: "'f::linorder stream \<Rightarrow> 'f level \<Rightarrow> bool" where
  "inside_asks s u \<longleftrightarrow> map_of (asks s) (fst u) \<noteq> None \<or> (case trimmed_ask_boundary s of None \<Rightarrow> True | Some b \<Rightarrow> fst u < b)"

text \<open>The failure tests at the end of \<open>_mutate_live_book\<close>.\<close>

definition live_failure :: "'f::linorder stream \<Rightarrow> (book_failure \<times> string) option res" where
  "live_failure s =
     (if bids s = [] \<or> asks s = [] then Inr (Some (EmptyBook, ''local book lost one complete side''))
      else bindr (last_price (bid_prices s)) (\<lambda>best_bid. bindr (first_price (ask_prices s)) (\<lambda>best_ask.
        Inr (if best_ask \<le> best_bid then Some (CrossedBook, ''local book became crossed or locked'')
             else if length (bids s) < trusted_bid_depth s \<or> length (asks s) < trusted_ask_depth s
             then Some (Capacity, ''trusted local depth fell below the REST seed coverage'')
             else None))))"

text \<open>
  \<open>_mutate_live_book\<close>: the updates inside the known window, the trimming, the failure tests.
  The answer is the stream, the counters, the failure and the prices touched on each side.
\<close>

definition touched :: "'f::linorder level list \<Rightarrow> 'f list \<Rightarrow> 'f list" where
  "touched us trimmed = sort (remdups (map fst us @ trimmed))"

definition mutate_live_book ::
  "limits \<Rightarrow> 'f::{linorder,zero} stream \<Rightarrow> metrics \<Rightarrow> 'f delta \<Rightarrow>
   ('f stream \<times> metrics \<times> (book_failure \<times> string) option \<times> 'f list \<times> 'f list) res"
where
  "mutate_live_book l s m d =
     (let bid_updates = List.filter (inside_bids s) (dl_bids d);
          ask_updates = List.filter (inside_asks s) (dl_asks d);
          ignored = length (dl_bids d) + length (dl_asks d) - length bid_updates - length ask_updates;
          m = bump_by ignored ''updates_outside_retained_window'' m in
      bindr (mutate_side bid_updates (bids s, bid_prices s)) (\<lambda>(bs, bps).
      bindr (mutate_side ask_updates (asks s, ask_prices s)) (\<lambda>(as, aps).
      bindr (trim_bids (max_levels_per_side l) bs bps (trimmed_bid_boundary s) []) (\<lambda>(bs, bps, bid_boundary, bid_trim).
      bindr (trim_asks (max_levels_per_side l) as aps (trimmed_ask_boundary s) []) (\<lambda>(as, aps, ask_boundary, ask_trim).
      let s' = s\<lparr>bids := bs, bid_prices := bps, asks := as, ask_prices := aps,
                 trimmed_bid_boundary := bid_boundary, trimmed_ask_boundary := ask_boundary,
                 bid_levels_trimmed := bid_levels_trimmed s + length bid_trim,
                 ask_levels_trimmed := ask_levels_trimmed s + length ask_trim\<rparr>;
          m = bump_by (length ask_trim) ''ask_levels_trimmed'' (bump_by (length bid_trim) ''bid_levels_trimmed'' m) in
      bindr (live_failure s') (\<lambda>failure.
      Inr (s', if (case failure of Some (Capacity, _) \<Rightarrow> True | _ \<Rightarrow> False) then bump ''retention_exhaustions'' m else m,
           failure, touched bid_updates bid_trim, touched ask_updates ask_trim)))))))"

text \<open>The common end of \<open>_apply_bridge\<close> and \<open>_apply_live\<close>: a new revision and its publication.\<close>

definition publish :: "limits \<Rightarrow> identity \<Rightarrow> 'f::{linorder,zero} stream \<Rightarrow> metrics \<Rightarrow> 'f delta \<Rightarrow> int \<Rightarrow> 'f list \<Rightarrow> 'f list \<Rightarrow> 'f outcome" where
  "publish l i s m d new_revision_number bid_update_prices ask_update_prices =
     (let s1 = s\<lparr>status := Live, last_update_id := Some (dl_final_update_id d), last_delta_signature := Some (signature d),
                 st_event_time_ms := dl_event_time_ms d, st_received_at_ms := dl_received_at_ms d, st_source := dl_source d,
                 st_revision := new_revision_number\<rparr> in
      case book_revision s1 of
        None \<Rightarrow> ((s1, m), Inl AssertionError)
      | Some r \<Rightarrow>
          (case child r (bids s1) (asks s1) (bid_prices s1) (ask_prices s1) bid_update_prices ask_update_prices of
             Inl e \<Rightarrow> ((s1, m), Inl e)
           | Inr r' \<Rightarrow>
               let s2 = s1\<lparr>book_revision := Some r'\<rparr>; m' = bump ''deltas_applied'' m in
               ((s2, m'), bindr (project l i None s2) (\<lambda>snap. Inr (result s2 True Applied None None (Some snap))))))"

definition apply_bridge :: "limits \<Rightarrow> identity \<Rightarrow> 'f::{linorder,zero} stream \<Rightarrow> metrics \<Rightarrow> 'f delta \<Rightarrow> 'f outcome" where
  "apply_bridge l i s m d =
     (case last_update_id s of
        None \<Rightarrow> ((s, m), Inl AssertionError)
      | Some last_id \<Rightarrow>
          if \<not> delta_follows_snapshot d last_id then stale_result s m
          else if \<not> bridges_snapshot d last_id then fail s m Gap ''delta does not bridge REST snapshot''
          else (case mutate_live_book l s m d of
              Inl e \<Rightarrow> ((s, m), Inl e)
            | Inr (s', m', Some (f, detail), bps, aps) \<Rightarrow> fail s' m' f detail
            | Inr (s', m', None, bps, aps) \<Rightarrow> publish l i s' m' d 1 bps aps))"

definition apply_live :: "limits \<Rightarrow> identity \<Rightarrow> 'f::{linorder,zero} stream \<Rightarrow> metrics \<Rightarrow> 'f delta \<Rightarrow> 'f outcome" where
  "apply_live l i s m d =
     (case last_update_id s of
        None \<Rightarrow> ((s, m), Inl AssertionError)
      | Some last_id \<Rightarrow>
          if dl_final_update_id d < last_id then stale_result s m
          else if dl_final_update_id d = last_id then
            (if Some (signature d) = last_delta_signature s then duplicate_result s m
             else fail s m ConflictingDuplicate ''same final update ID has conflicting payload'')
          else (case link_error last_id d of
              Some e \<Rightarrow> fail s m Gap e
            | None \<Rightarrow>
                (case mutate_live_book l s m d of
                   Inl e \<Rightarrow> ((s, m), Inl e)
                 | Inr (s', m', Some (f, detail), bps, aps) \<Rightarrow> fail s' m' f detail
                 | Inr (s', m', None, bps, aps) \<Rightarrow> publish l i s' m' d (st_revision s' + 1) bps aps)))"

section \<open>Installing a snapshot\<close>

text \<open>
  The replay of the buffered deltas that follow the snapshot; the first must bridge it, every
  further one links to the one before. A failure is a value: it resynchronises the stream.
\<close>

fun replay_rest :: "limits \<Rightarrow> 'f::{linorder,zero} book \<Rightarrow> int \<Rightarrow> 'f delta list \<Rightarrow> ((book_failure \<times> string) + 'f book) res" where
  "replay_rest l b last_id [] = Inr (Inr b)"
| "replay_rest l b last_id (d # ds) =
     (case link_error last_id d of
        Some e \<Rightarrow> Inr (Inl (Gap, e))
      | None \<Rightarrow> bindr (mutate_book l d b) (\<lambda>(failure, b').
          case failure of Some f \<Rightarrow> Inr (Inl f) | None \<Rightarrow> replay_rest l b' (dl_final_update_id d) ds))"

definition replay_kept :: "limits \<Rightarrow> 'f::{linorder,zero} book \<Rightarrow> int \<Rightarrow> 'f delta list \<Rightarrow> ((book_failure \<times> string) + 'f book) res" where
  "replay_kept l b snapshot_id kept =
     (case kept of
        [] \<Rightarrow> Inr (Inr b)
      | d # ds \<Rightarrow>
          if \<not> bridges_snapshot d snapshot_id then Inr (Inl (Gap, ''first buffered delta does not bridge REST snapshot''))
          else bindr (mutate_book l d b) (\<lambda>(failure, b').
            case failure of Some f \<Rightarrow> Inr (Inl f) | None \<Rightarrow> replay_rest l b' (dl_final_update_id d) ds))"

definition seed_book :: "'f::linorder seed \<Rightarrow> 'f book" where
  "seed_book sd =
     (let bs = dict_of (sd_bids sd); as = dict_of (sd_asks sd)
      in \<lparr>bids = bs, asks = as, bid_prices = sort (map fst bs), ask_prices = sort (map fst as)\<rparr>)"

text \<open>The stream once the replay has succeeded.\<close>

definition installed :: "'f::linorder seed \<Rightarrow> 'f delta list \<Rightarrow> 'f book \<Rightarrow> 'f revision \<Rightarrow> 'f stream \<Rightarrow> 'f stream" where
  "installed sd kept b r s =
     (let at_last = (\<lambda>of_delta of_seed. if kept = [] then of_seed else of_delta (last kept)) in
      s\<lparr>bids := bids b, asks := asks b, bid_prices := bid_prices b, ask_prices := ask_prices b, book_revision := Some r,
        buffered := [], buffered_updates := 0,
        last_update_id := Some (if kept = [] then sd_last_update_id sd else dl_final_update_id (last kept)),
        last_delta_signature := (if kept = [] then None else Some (signature (last kept))),
        snapshot_limit := Some (sd_snapshot_limit sd),
        trusted_bid_depth := length (sd_bids sd), trusted_ask_depth := length (sd_asks sd),
        trimmed_bid_boundary := None, trimmed_ask_boundary := None, bid_levels_trimmed := 0, ask_levels_trimmed := 0,
        st_event_time_ms := at_last dl_event_time_ms (sd_event_time_ms sd),
        st_received_at_ms := at_last dl_received_at_ms (sd_received_at_ms sd),
        st_source := (if kept = [] then sd_source sd else dl_source (last kept)),
        st_revision := (if kept = [] then 0 else 1), status := (if kept = [] then AwaitingBridge else Live),
        st_failure := None, failure_detail := None\<rparr>)"

definition install_seed :: "limits \<Rightarrow> identity \<Rightarrow> 'f::{linorder,zero} stream \<Rightarrow> metrics \<Rightarrow> 'f seed \<Rightarrow> 'f outcome" where
  "install_seed l i s m sd =
     (if max_levels_per_side l < sd_snapshot_limit sd \<or> max_levels_per_side l < int (length (sd_bids sd)) \<or>
         max_levels_per_side l < int (length (sd_asks sd))
      then fail s m Capacity ''REST snapshot exceeds local level capacity''
      else
        let kept = List.filter (\<lambda>d. delta_follows_snapshot d (sd_last_update_id sd)) (buffered s);
            m = bump_by (length (buffered s) - length kept) ''buffered_old_discarded'' m in
        case replay_kept l (seed_book sd) (sd_last_update_id sd) kept of
          Inl e \<Rightarrow> ((s, m), Inl e)
        | Inr (Inl (f, detail)) \<Rightarrow> fail s m f detail
        | Inr (Inr b) \<Rightarrow>
            (case from_book (bids b) (asks b) (bid_prices b) (ask_prices b) of
               Inl e \<Rightarrow> ((s, m), Inl e)
             | Inr r \<Rightarrow>
                 let s' = installed sd kept b r s;
                     m' = bump_by (length kept) ''deltas_replayed'' (bump ''snapshots_installed'' m) in
                 ((s', m'),
                  if kept = [] then Inr (result s' True SnapshotInstalled None None None)
                  else bindr (project l i None s') (\<lambda>snap. Inr (result s' True SnapshotInstalled None None (Some snap))))))"

section \<open>The engine\<close>

definition active_state :: "'f engine \<Rightarrow> identity \<Rightarrow> (identity \<times> 'f stream) res" where
  "active_state e i =
     bindr (normalize_identity i) (\<lambda>n.
     case map_of (streams e) n of
       None \<Rightarrow> Inl StateError
     | Some s \<Rightarrow> if n \<in> active e then Inr (n, s) else Inl StateError)"

definition put_stream :: "identity \<Rightarrow> 'f stream \<times> metrics \<Rightarrow> 'f engine \<Rightarrow> 'f engine" where
  "put_stream n sm e = e\<lparr>streams := AList.update n (fst sm) (streams e), metrics := snd sm\<rparr>"

definition to_end :: "identity \<Rightarrow> 'f engine \<Rightarrow> 'f engine" where
  "to_end n e = e\<lparr>streams := od_move_to_end n (streams e)\<rparr>"

definition allocate_epoch :: "'f engine \<Rightarrow> int \<times> 'f engine" where
  "allocate_epoch e = (next_epoch e + 1, e\<lparr>next_epoch := next_epoch e + 1\<rparr>)"

definition count :: "string \<Rightarrow> 'f engine \<Rightarrow> 'f engine" where
  "count name e = e\<lparr>metrics := bump name (metrics e)\<rparr>"

text \<open>\<open>_reserve_capacity\<close> drops the oldest inactive stream of a full engine.\<close>

definition reserve_capacity :: "identity \<Rightarrow> 'f engine \<Rightarrow> 'f engine res" where
  "reserve_capacity n e =
     (if map_of (streams e) n \<noteq> None \<or> int (length (streams e)) < max_streams (engine_limits e) then Inr e
      else (case List.find (\<lambda>k. k \<notin> active e) (map fst (streams e)) of
          None \<Rightarrow> Inl StateError
        | Some k \<Rightarrow> Inr (count ''streams_evicted'' (e\<lparr>streams := AList.delete k (streams e)\<rparr>))))"

definition activate_stream :: "identity \<Rightarrow> 'f engine \<Rightarrow> 'f engine \<times> bool res" where
  "activate_stream i e =
     (case normalize_identity i of
        Inl x \<Rightarrow> (e, Inl x)
      | Inr n \<Rightarrow>
          if n \<in> active e then (e, Inr False)
          else (case reserve_capacity n e of
              Inl x \<Rightarrow> (e, Inl x)
            | Inr e1 \<Rightarrow>
                let (epoch, e2) = allocate_epoch e1;
                    s = (case map_of (streams e2) n of None \<Rightarrow> new_stream epoch Buffering | Some s \<Rightarrow> reset epoch Buffering s);
                    e3 = e2\<lparr>streams := AList.update n s (streams e2), active := insert n (active e2)\<rparr>
                in (count ''streams_activated'' (to_end n e3), Inr True)))"

definition deactivate_stream :: "identity \<Rightarrow> 'f engine \<Rightarrow> 'f engine \<times> bool res" where
  "deactivate_stream i e =
     (case normalize_identity i of
        Inl x \<Rightarrow> (e, Inl x)
      | Inr n \<Rightarrow>
          if n \<notin> active e then (e, Inr False)
          else
            let e1 = e\<lparr>active := active e - {n}\<rparr> in
            (case map_of (streams e1) n of
               None \<Rightarrow> (e1, Inl KeyError)
             | Some s \<Rightarrow>
                 let (epoch, e2) = allocate_epoch e1 in
                 (count ''streams_deactivated'' (e2\<lparr>streams := AList.update n (reset epoch Inactive s) (streams e2)\<rparr>), Inr True)))"

definition begin_sync :: "identity \<Rightarrow> 'f engine \<Rightarrow> 'f engine \<times> int res" where
  "begin_sync i e =
     (case active_state e i of
        Inl x \<Rightarrow> (e, Inl x)
      | Inr (n, s) \<Rightarrow>
          let (epoch, e1) = allocate_epoch e;
              e2 = e1\<lparr>streams := AList.update n (reset epoch Buffering s) (streams e1)\<rparr>
          in (count ''syncs_started'' (to_end n e2), Inr epoch))"

text \<open>
  \<open>apply_delta\<close>. The event is the outcome of its conversion: a delta, or the exception
  \<open>DepthDelta.from_market_event\<close> raised, which the engine counts and raises again.
\<close>

definition apply_delta :: "identity \<Rightarrow> 'f::{linorder,zero} delta res \<Rightarrow> int \<Rightarrow> 'f engine \<Rightarrow> 'f engine \<times> 'f apply_result res" where
  "apply_delta i event epoch e =
     (case active_state e i of
        Inl x \<Rightarrow> (e, Inl x)
      | Inr (n, s) \<Rightarrow>
          let l = engine_limits e;
              finish = (\<lambda>(sm, r). (put_stream n sm e, r));
              finish_moved = (\<lambda>(sm, r). ((case r of Inl _ \<Rightarrow> (\<lambda>e. e) | Inr _ \<Rightarrow> to_end n) (put_stream n sm e), r)) in
          (case required_int 1 epoch of
            Inl x \<Rightarrow> (e, Inl x)
          | Inr ep \<Rightarrow>
              if ep \<noteq> st_epoch s then finish (stale_epoch_result s (metrics e))
              else (case event of
                  Inl x \<Rightarrow> (count ''invalid_inputs'' e, Inl x)
                | Inr d \<Rightarrow>
                    if dl_identity d \<noteq> n then (count ''invalid_inputs'' e, Inl ValueError)
                    else
                      let m = bump ''deltas_received'' (metrics e) in
                      if max_updates_per_delta l < level_update_count d
                      then finish (fail s m Capacity ''delta level update limit exceeded'')
                      else (case status s of
                          ResyncRequired \<Rightarrow>
                            finish ((s, m), Inr (result s False ResyncNeeded (failure_detail s) (st_failure s) None))
                        | Buffering \<Rightarrow> finish_moved (buffer_delta l s m d)
                        | AwaitingBridge \<Rightarrow> finish_moved (apply_bridge l n s m d)
                        | Live \<Rightarrow> finish_moved (apply_live l n s m d)
                        | Inactive \<Rightarrow> finish ((s, m), Inl StateError)))))"

definition install_snapshot :: "identity \<Rightarrow> 'f::{linorder,zero} seed res \<Rightarrow> int \<Rightarrow> 'f engine \<Rightarrow> 'f engine \<times> 'f apply_result res" where
  "install_snapshot i event epoch e =
     (case active_state e i of
        Inl x \<Rightarrow> (e, Inl x)
      | Inr (n, s) \<Rightarrow>
          let finish = (\<lambda>(sm, r). (put_stream n sm e, r)) in
          (case required_int 1 epoch of
            Inl x \<Rightarrow> (e, Inl x)
          | Inr ep \<Rightarrow>
              if ep \<noteq> st_epoch s then finish (stale_epoch_result s (metrics e))
              else if status s = ResyncRequired
              then finish ((s, metrics e), Inr (result s False ResyncNeeded (failure_detail s) (st_failure s) None))
              else if status s \<noteq> Buffering then (e, Inl StateError)
              else (case event of
                  Inl x \<Rightarrow> (count ''invalid_inputs'' e, Inl x)
                | Inr sd \<Rightarrow>
                    if sd_identity sd \<noteq> n then (count ''invalid_inputs'' e, Inl ValueError)
                    else finish (install_seed (engine_limits e) n s (bump ''snapshots_received'' (metrics e)) sd))))"

definition snapshot :: "identity \<Rightarrow> int option \<Rightarrow> ('f::linorder) engine \<Rightarrow> 'f snapshot option res" where
  "snapshot i depth e =
     bindr (normalize_identity i) (\<lambda>n.
     case map_of (streams e) n of
       None \<Rightarrow> Inr None
     | Some s \<Rightarrow>
         if n \<notin> active e \<or> status s \<noteq> Live then Inr None
         else bindr (case depth of
                 None \<Rightarrow> Inr None
               | Some d \<Rightarrow> bindr (required_int 1 d) (\<lambda>d.
                   if max_levels_per_side (engine_limits e) < d then Inl ValueError else Inr (Some (nat d)))) (\<lambda>depth.
           bindr (project (engine_limits e) n depth s) (\<lambda>snap. Inr (Some snap))))"

text \<open>The two getters.\<close>

definition stream_epoch :: "identity \<Rightarrow> 'f engine \<Rightarrow> int option res" where
  "stream_epoch i e = bindr (normalize_identity i) (\<lambda>n. Inr (map_option st_epoch (map_of (streams e) n)))"

definition stream_state :: "identity \<Rightarrow> 'f engine \<Rightarrow> book_state option res" where
  "stream_state i e = bindr (normalize_identity i) (\<lambda>n. Inr (map_option status (map_of (streams e) n)))"

end
