(* ===== verification/OrderBookLaws.thy ===== *)
theory OrderBookLaws
  imports OrderBook "HOL-Library.Sublist"
begin

text \<open>
  What the order book engine keeps: the local book of a live stream is the exchange's book, as
  far as the window reaches that the engine has not trimmed, after one received snapshot and a
  gap-free sequence of received deltas; every published revision shows it; the engine stays
  within its limits and never raises an internal error.
\<close>

section \<open>Windows\<close>

text \<open>The prices a side still knows: above the highest trimmed bid, below the lowest trimmed ask.\<close>

fun known :: "book_side \<Rightarrow> ('f::linorder) option \<Rightarrow> 'f set" where
  "known side None = UNIV"
| "known Bids (Some b) = {p. b < p}"
| "known Asks (Some b) = {p. p < b}"

lemma known_Bids: "p \<in> known Bids bd \<longleftrightarrow> (case bd of None \<Rightarrow> True | Some b \<Rightarrow> b < p)"
  by (cases bd) auto

lemma known_Asks: "p \<in> known Asks bd \<longleftrightarrow> (case bd of None \<Rightarrow> True | Some b \<Rightarrow> p < b)"
  by (cases bd) auto

lemma set_levels_restrict: "set_levels (List.filter (\<lambda>u. fst u \<in> Q) us) (m |` Q) = set_levels us m |` Q"
proof (induction us arbitrary: m)
  case (Cons u us)
  obtain p q where u: "u = (p, q)" by fastforce
  have "fst u \<in> Q \<Longrightarrow> set_level u (m |` Q) = set_level u m |` Q" by (auto simp: u restrict_map_def)
  moreover have "fst u \<notin> Q \<Longrightarrow> m |` Q = set_level u m |` Q" by (auto simp: u restrict_map_def)
  ultimately show ?case using Cons.IH by auto
qed simp

text \<open>
  Trimming keeps index and dictionary together and cuts the side to its capacity; what is left
  is the part inside the new boundary, and the levels that left are reported.
\<close>

definition trimmed_to ::
  "book_side \<Rightarrow> int \<Rightarrow> ('f::linorder) level list \<Rightarrow> 'f option \<Rightarrow> 'f level list \<Rightarrow> 'f list \<Rightarrow> 'f option \<Rightarrow> 'f list \<Rightarrow> bool"
where
  "trimmed_to side cap ls bd ls' ps' bd' tr \<longleftrightarrow>
     side_ok (ls', ps') \<and> map_of ls' = map_of ls |` known side bd' \<and> set ps' \<subseteq> known side bd' \<and>
     known side bd' \<subseteq> known side bd \<and> int (length ls') = min cap (int (length ls)) \<and>
     (\<forall>p. map_of ls' p \<noteq> map_of ls p \<longrightarrow> p \<in> set tr) \<and> (bd' = bd \<longleftrightarrow> tr = [])"

lemma restrict_subset: "dom m \<subseteq> A \<Longrightarrow> m |` A = m"
  by (rule ext) (metis domIff restrict_in restrict_out subsetD)

lemma map_of_dom_prices: "side_ok (ls, ps) \<Longrightarrow> dom (map_of ls) = set ps"
  by (simp add: dom_map_of_conv_image_fst)

lemma trimmed_none:
  assumes "side_ok (ls, ps)" "set ps \<subseteq> known side bd" "int (length ls) \<le> cap"
  shows "trimmed_to side cap ls bd ls ps bd []"
  using assms restrict_subset[of "map_of ls" "known side bd"] map_of_dom_prices[OF assms(1)]
  by (simp add: trimmed_to_def)

lemma known_step: "p \<in> known side bd \<Longrightarrow> known side (Some p) \<subseteq> known side bd - {p}"
  by (cases bd; cases side) auto

lemma trimmed_step:
  assumes t: "trimmed_to side cap (AList.delete p ls) (Some p) ls' ps' bd' tr"
    and ls: "od_wf ls" "map_of ls p \<noteq> None" "p \<in> known side bd" "cap < int (length ls)"
  shows "trimmed_to side cap ls bd ls' ps' bd' (tr @ [p])"
proof -
  obtain q where "map_of ls p = Some q" using ls(2) by auto
  then have len: "length ls = Suc (length (AList.delete p ls))" using length_delete_in[OF ls(1)] by blast
  have t': "side_ok (ls', ps')" "map_of ls' = map_of (AList.delete p ls) |` known side bd'" "set ps' \<subseteq> known side bd'"
    "known side bd' \<subseteq> known side (Some p)" "int (length ls') = min cap (int (length (AList.delete p ls)))"
    "\<forall>x. map_of ls' x \<noteq> map_of (AList.delete p ls) x \<longrightarrow> x \<in> set tr" using t unfolding trimmed_to_def by blast+
  have known: "known side bd' \<subseteq> known side bd" "p \<notin> known side bd'" using t'(4) known_step[OF ls(3)] by blast+
  then have "bd' \<noteq> bd" using ls(3) by blast
  moreover have "map_of ls' = map_of ls |` known side bd'" using t'(2) known(2) by (auto simp: map_of_delete restrict_map_def)
  moreover have "\<forall>x. map_of ls' x \<noteq> map_of ls x \<longrightarrow> x \<in> set (tr @ [p])"
    using t'(6) unfolding map_of_delete fun_upd_apply set_append by (metis Un_iff list.set_intros(1))
  moreover have "int (length ls') = min cap (int (length ls))" using t'(5) ls(4) len by simp
  ultimately show ?thesis unfolding trimmed_to_def using t'(1,3) known(1) by simp
qed

lemma trim_bids_ok:
  assumes "side_ok (ls, ps)" "set ps \<subseteq> known Bids bd" "0 \<le> cap"
  shows "\<exists>ls' ps' bd' tr. trim_bids cap ls ps bd tr0 = Inr (ls', ps', bd', tr @ tr0) \<and> trimmed_to Bids cap ls bd ls' ps' bd' tr"
  using assms
proof (induction ps arbitrary: ls bd tr0)
  case Nil
  then show ?case using trimmed_none[OF Nil(1,2), of cap] by auto
next
  case (Cons p ps)
  have ok: "od_wf ls" "strictly_sorted ps" "\<forall>y \<in> set ps. p < y" "insert p (set ps) = fst ` set ls" using Cons.prems by simp_all
  show ?case
  proof (cases "cap < int (length ls)")
    case False
    then have "trimmed_to Bids cap ls bd ls (p # ps) bd []" using trimmed_none[OF Cons.prems(1,2)] by simp
    then show ?thesis using False by auto
  next
    case True
    have present: "map_of ls p \<noteq> None" using ok(4) by (auto simp: map_of_eq_None_iff)
    have bd: "Some (case bd of None \<Rightarrow> p | Some b \<Rightarrow> max p b) = Some p"
      using Cons.prems(2) by (auto simp: known_Bids max_def split: option.splits)
    have "p \<notin> set ps" using ok(3) by blast
    then have side: "side_ok (AList.delete p ls, ps)" using ok by (auto simp: price_keys_delete)
    have inside: "set ps \<subseteq> known Bids (Some p)" using ok(3) by auto
    obtain ls' ps' bd' tr where t: "trim_bids cap (AList.delete p ls) ps (Some p) (p # tr0) = Inr (ls', ps', bd', tr @ p # tr0)"
      "trimmed_to Bids cap (AList.delete p ls) (Some p) ls' ps' bd' tr"
      using Cons.IH[OF side inside Cons.prems(3)] by blast
    have "trimmed_to Bids cap ls bd ls' ps' bd' (tr @ [p])"
      using trimmed_step[OF t(2) ok(1) present _ True, of bd] Cons.prems(2) by simp
    moreover have "trim_bids cap ls (p # ps) bd tr0 = Inr (ls', ps', bd', (tr @ [p]) @ tr0)"
      using True present t(1) bd by simp
    ultimately show ?thesis by blast
  qed
qed

lemma trim_asks_ok:
  assumes "side_ok (ls, ps)" "set ps \<subseteq> known Asks bd" "0 \<le> cap"
  shows "\<exists>ls' ps' bd' tr. trim_asks cap ls ps bd tr0 = Inr (ls', ps', bd', tr @ tr0) \<and> trimmed_to Asks cap ls bd ls' ps' bd' tr"
  using assms
proof (induction ps arbitrary: ls bd tr0 rule: rev_induct)
  case Nil
  then show ?case using trimmed_none[OF Nil(1,2), of cap] by (auto simp: trim_asks.simps)
next
  case (snoc p ps)
  have ok: "od_wf ls" "strictly_sorted ps" "\<forall>y \<in> set ps. y < p" "insert p (set ps) = fst ` set ls"
    using snoc.prems by (auto simp: strictly_sorted_append)
  show ?case
  proof (cases "cap < int (length ls)")
    case False
    then have "trimmed_to Asks cap ls bd ls (ps @ [p]) bd []" using trimmed_none[OF snoc.prems(1,2)] by simp
    then show ?thesis using False by (auto simp: trim_asks.simps)
  next
    case True
    have present: "map_of ls p \<noteq> None" using ok(4) by (auto simp: map_of_eq_None_iff)
    have bd: "Some (case bd of None \<Rightarrow> p | Some b \<Rightarrow> min p b) = Some p"
      using snoc.prems(2) by (auto simp: known_Asks min_def split: option.splits)
    have "p \<notin> set ps" using ok(3) by blast
    then have side: "side_ok (AList.delete p ls, ps)" using ok by (auto simp: price_keys_delete)
    have inside: "set ps \<subseteq> known Asks (Some p)" using ok(3) by auto
    obtain ls' ps' bd' tr where t: "trim_asks cap (AList.delete p ls) ps (Some p) (p # tr0) = Inr (ls', ps', bd', tr @ p # tr0)"
      "trimmed_to Asks cap (AList.delete p ls) (Some p) ls' ps' bd' tr"
      using snoc.IH[OF side inside snoc.prems(3)] by blast
    have "trimmed_to Asks cap ls bd ls' ps' bd' (tr @ [p])"
      using trimmed_step[OF t(2) ok(1) present _ True, of bd] snoc.prems(2) by simp
    moreover have "trim_asks cap ls (ps @ [p]) bd tr0 = Inr (ls', ps', bd', (tr @ [p]) @ tr0)"
      using True present t(1) bd by (simp add: trim_asks.simps[of cap ls])
    ultimately show ?thesis by blast
  qed
qed

section \<open>One delta on a live book\<close>

text \<open>
  \<open>side_window\<close>: a side of the stream is in order and is the known part of the book \<open>m\<close>.
\<close>

definition side_window :: "book_side \<Rightarrow> ('f::linorder) level list \<times> 'f list \<Rightarrow> 'f option \<Rightarrow> ('f \<rightharpoonup> 'f) \<Rightarrow> bool" where
  "side_window side lp bd m \<longleftrightarrow> side_ok lp \<and> side_book lp = m |` known side bd"

lemma side_window_prices: "side_window side (ls, ps) bd m \<Longrightarrow> set ps \<subseteq> known side bd"
  by (metis dom_restrict inf_le2 map_of_dom_prices side_book.simps side_window_def)

definition window :: "('f::linorder) stream \<Rightarrow> ('f \<rightharpoonup> 'f) \<Rightarrow> ('f \<rightharpoonup> 'f) \<Rightarrow> bool" where
  "window s mb ma \<longleftrightarrow> side_window Bids (bids s, bid_prices s) (trimmed_bid_boundary s) mb \<and>
     side_window Asks (asks s, ask_prices s) (trimmed_ask_boundary s) ma"

text \<open>The updates of one side, then the trimming.\<close>

lemma side_update:
  assumes w: "side_window side (ls, ps) bd m" and cap: "0 \<le> cap"
    and inside: "\<And>u. Q u \<longleftrightarrow> map_of ls (fst u) \<noteq> None \<or> fst u \<in> known side bd"
    and trim: "\<And>ls1 ps1. side_ok (ls1, ps1) \<Longrightarrow> set ps1 \<subseteq> known side bd \<Longrightarrow>
      \<exists>ls' ps' bd' tr. trim cap ls1 ps1 bd [] = Inr (ls', ps', bd', tr) \<and> trimmed_to side cap ls1 bd ls' ps' bd' tr"
  obtains ls1 ps1 ls' ps' bd' tr where
    "mutate_side (List.filter Q us) (ls, ps) = Inr (ls1, ps1)"
    "trim cap ls1 ps1 bd [] = Inr (ls', ps', bd', tr)"
    "side_window side (ls', ps') bd' (set_levels us m)" "int (length ls') \<le> cap"
    "\<And>p. p \<notin> set (touched (List.filter Q us) tr) \<Longrightarrow> map_of ls' p = map_of ls p"
proof -
  have ok: "side_ok (ls, ps)" "map_of ls = m |` known side bd" using w by (simp_all add: side_window_def)
  have "dom (map_of ls) \<subseteq> known side bd" using ok(2) by (auto simp: restrict_map_def split: if_splits)
  then have "Q u \<longleftrightarrow> fst u \<in> known side bd" for u using inside[of u] by blast
  then have Q: "Q = (\<lambda>u. fst u \<in> known side bd)" by blast
  obtain lp1 where "mutate_side (List.filter Q us) (ls, ps) = Inr lp1" "side_ok lp1"
    "side_book lp1 = set_levels (List.filter Q us) (map_of ls)" using mutate_side_total[OF ok(1)] by (metis side_book.simps)
  then obtain ls1 ps1 where m1: "mutate_side (List.filter Q us) (ls, ps) = Inr (ls1, ps1)" "side_ok (ls1, ps1)"
    "map_of ls1 = set_levels (List.filter Q us) (map_of ls)" by (cases lp1) auto
  have eq: "map_of ls1 = set_levels us m |` known side bd"
    using m1(3) set_levels_restrict[of "known side bd" us m] by (simp add: ok(2) Q)
  then have "set ps1 \<subseteq> known side bd"
    using map_of_dom_prices[OF m1(2)] by (metis dom_restrict inf_le2)
  from trim[OF m1(2) this] obtain ls' ps' bd' tr where t: "trim cap ls1 ps1 bd [] = Inr (ls', ps', bd', tr)"
    "trimmed_to side cap ls1 bd ls' ps' bd' tr" by blast
  have t': "side_ok (ls', ps')" "map_of ls' = map_of ls1 |` known side bd'" "known side bd' \<subseteq> known side bd"
    "int (length ls') = min cap (int (length ls1))" "\<forall>p. map_of ls' p \<noteq> map_of ls1 p \<longrightarrow> p \<in> set tr"
    using t(2) unfolding trimmed_to_def by blast+
  have "map_of ls' = set_levels us m |` known side bd'"
    using t'(2,3) by (simp add: eq Int_absorb1)
  then have win: "side_window side (ls', ps') bd' (set_levels us m)" using t'(1) by (simp add: side_window_def)
  have "map_of ls' p = map_of ls p" if "p \<notin> set (touched (List.filter Q us) tr)" for p
    using that t'(5) set_levels_other[of p "List.filter Q us" "map_of ls"] by (auto simp: touched_def m1(3))
  then show thesis using that[OF m1(1) t(1) win] t'(4) by simp
qed

text \<open>What \<open>_mutate_live_book\<close> leaves alone, and its failure test.\<close>

definition same_sync :: "('f::linorder) stream \<Rightarrow> 'f stream \<Rightarrow> bool" where
  "same_sync s s' \<longleftrightarrow> st_epoch s' = st_epoch s \<and> status s' = status s \<and> book_revision s' = book_revision s \<and>
     buffered s' = buffered s \<and> buffered_updates s' = buffered_updates s \<and> last_update_id s' = last_update_id s \<and>
     last_delta_signature s' = last_delta_signature s \<and> snapshot_limit s' = snapshot_limit s \<and>
     st_revision s' = st_revision s \<and> trusted_bid_depth s' = trusted_bid_depth s \<and> trusted_ask_depth s' = trusted_ask_depth s"

definition sound_book :: "('f::linorder, 'z) book_scheme \<Rightarrow> bool" where
  "sound_book s \<longleftrightarrow> bids s \<noteq> [] \<and> asks s \<noteq> [] \<and> last (bid_prices s) < hd (ask_prices s)"

lemma live_failure_total:
  assumes "side_ok (bids s, bid_prices s)" "side_ok (asks s, ask_prices s)"
  obtains f where "live_failure s = Inr f"
    "f = None \<longleftrightarrow> sound_book s \<and> trusted_bid_depth s \<le> length (bids s) \<and> trusted_ask_depth s \<le> length (asks s)"
proof -
  have "bids s \<noteq> [] \<Longrightarrow> bid_prices s \<noteq> []" "asks s \<noteq> [] \<Longrightarrow> ask_prices s \<noteq> []"
    using side_ok_length[OF assms(1)] side_ok_length[OF assms(2)] by auto
  then have "\<exists>f. live_failure s = Inr f \<and>
      (f = None \<longleftrightarrow> sound_book s \<and> trusted_bid_depth s \<le> length (bids s) \<and> trusted_ask_depth s \<le> length (asks s))"
    by (cases "bids s = [] \<or> asks s = []") (auto simp: live_failure_def last_price_def first_price_def sound_book_def)
  then show thesis using that by blast
qed

lemma inside_bids_known: "inside_bids s u \<longleftrightarrow> map_of (bids s) (fst u) \<noteq> None \<or> fst u \<in> known Bids (trimmed_bid_boundary s)"
  by (simp add: inside_bids_def known_Bids)

lemma inside_asks_known: "inside_asks s u \<longleftrightarrow> map_of (asks s) (fst u) \<noteq> None \<or> fst u \<in> known Asks (trimmed_ask_boundary s)"
  by (simp add: inside_asks_def known_Asks)

lemmas trim_bids_once = trim_bids_ok[where ?tr0.0 = "[]", unfolded append_Nil2]
  and trim_asks_once = trim_asks_ok[where ?tr0.0 = "[]", unfolded append_Nil2]

lemma mutate_live_ok:
  assumes w: "window s mb ma" and cap: "0 \<le> max_levels_per_side l"
  obtains s' m' f bps aps where "mutate_live_book l s m d = Inr (s', m', f, bps, aps)"
    "window s' (set_levels (dl_bids d) mb) (set_levels (dl_asks d) ma)" "same_sync s s'"
    "int (length (bids s')) \<le> max_levels_per_side l" "int (length (asks s')) \<le> max_levels_per_side l"
    "\<And>p. p \<notin> set bps \<Longrightarrow> map_of (bids s') p = map_of (bids s) p" "\<And>p. p \<notin> set aps \<Longrightarrow> map_of (asks s') p = map_of (asks s) p"
    "f = None \<longleftrightarrow> sound_book s' \<and> trusted_bid_depth s \<le> length (bids s') \<and> trusted_ask_depth s \<le> length (asks s')"
proof -
  have wb: "side_window Bids (bids s, bid_prices s) (trimmed_bid_boundary s) mb"
    and wa: "side_window Asks (asks s, ask_prices s) (trimmed_ask_boundary s) ma" using w by (simp_all add: window_def)
  obtain b1 bp1 b bp bbd btr where b: "mutate_side (List.filter (inside_bids s) (dl_bids d)) (bids s, bid_prices s) = Inr (b1, bp1)"
    "trim_bids (max_levels_per_side l) b1 bp1 (trimmed_bid_boundary s) [] = Inr (b, bp, bbd, btr)"
    "side_window Bids (b, bp) bbd (set_levels (dl_bids d) mb)" "int (length b) \<le> max_levels_per_side l"
    "\<And>p. p \<notin> set (touched (List.filter (inside_bids s) (dl_bids d)) btr) \<Longrightarrow> map_of b p = map_of (bids s) p"
    by (rule side_update[where trim = trim_bids and Q = "inside_bids s" and us = "dl_bids d",
          OF wb cap inside_bids_known trim_bids_once[OF _ _ cap]]) blast+
  obtain a1 ap1 a ap abd atr where a: "mutate_side (List.filter (inside_asks s) (dl_asks d)) (asks s, ask_prices s) = Inr (a1, ap1)"
    "trim_asks (max_levels_per_side l) a1 ap1 (trimmed_ask_boundary s) [] = Inr (a, ap, abd, atr)"
    "side_window Asks (a, ap) abd (set_levels (dl_asks d) ma)" "int (length a) \<le> max_levels_per_side l"
    "\<And>p. p \<notin> set (touched (List.filter (inside_asks s) (dl_asks d)) atr) \<Longrightarrow> map_of a p = map_of (asks s) p"
    by (rule side_update[where trim = trim_asks and Q = "inside_asks s" and us = "dl_asks d",
          OF wa cap inside_asks_known trim_asks_once[OF _ _ cap]]) blast+
  let ?s = "s\<lparr>bids := b, bid_prices := bp, asks := a, ask_prices := ap, trimmed_bid_boundary := bbd, trimmed_ask_boundary := abd,
      bid_levels_trimmed := bid_levels_trimmed s + length btr, ask_levels_trimmed := ask_levels_trimmed s + length atr\<rparr>"
  have ok: "side_ok (bids ?s, bid_prices ?s)" "side_ok (asks ?s, ask_prices ?s)"
    using b(3) a(3) by (simp_all add: side_window_def)
  obtain f where f: "live_failure ?s = Inr f"
    "f = None \<longleftrightarrow> sound_book ?s \<and> trusted_bid_depth ?s \<le> length (bids ?s) \<and> trusted_ask_depth ?s \<le> length (asks ?s)"
    using live_failure_total[OF ok] .
  have "window ?s (set_levels (dl_bids d) mb) (set_levels (dl_asks d) ma)" "same_sync s ?s"
    using b(3) a(3) by (simp_all add: window_def same_sync_def)
  moreover have "\<exists>M. mutate_live_book l s m d =
      Inr (?s, M, f, touched (List.filter (inside_bids s) (dl_bids d)) btr, touched (List.filter (inside_asks s) (dl_asks d)) atr)"
    using b(1,2) a(1,2) f(1) by (simp add: mutate_live_book_def Let_def)
  ultimately show thesis using that[of ?s] b(4,5) a(4,5) f(2) by fastforce
qed

section \<open>Seeds, deltas and the book they define\<close>

definition valid_seed :: "'f::{linorder,zero} seed \<Rightarrow> bool" where
  "valid_seed sd \<longleftrightarrow> (\<exists>raw. make_seed raw = Inr sd)"

definition valid_delta :: "'f::{linorder,zero} delta \<Rightarrow> bool" where
  "valid_delta d \<longleftrightarrow> (\<exists>raw. make_delta raw = Inr d)"

fun sd_side :: "book_side \<Rightarrow> 'f seed \<Rightarrow> 'f level list" where
  "sd_side Bids sd = sd_bids sd" | "sd_side Asks sd = sd_asks sd"

fun dl_side :: "book_side \<Rightarrow> 'f delta \<Rightarrow> 'f level list" where
  "dl_side Bids d = dl_bids d" | "dl_side Asks d = dl_asks d"

text \<open>The exchange's book: the seed, and every delta applied in full.\<close>

definition exchange_book :: "book_side \<Rightarrow> 'f::zero seed \<Rightarrow> 'f delta list \<Rightarrow> 'f \<rightharpoonup> 'f" where
  "exchange_book side sd ds = fold (\<lambda>d. set_levels (dl_side side d)) ds (map_of (sd_side side sd))"

lemma exchange_book_snoc: "exchange_book side sd (ds @ [d]) = set_levels (dl_side side d) (exchange_book side sd ds)"
  by (simp add: exchange_book_def)

text \<open>A gap-free sequence: the first delta follows and bridges the seed, every other links to the one before.\<close>

fun linked :: "int \<Rightarrow> 'f delta list \<Rightarrow> bool" where
  "linked last_id [] = True"
| "linked last_id (d # ds) \<longleftrightarrow> link_error last_id d = None \<and> last_id < dl_final_update_id d \<and> linked (dl_final_update_id d) ds"

definition bridged :: "int \<Rightarrow> 'f delta list \<Rightarrow> bool" where
  "bridged snapshot_id ds \<longleftrightarrow> (case ds of [] \<Rightarrow> True
     | d # ds' \<Rightarrow> delta_follows_snapshot d snapshot_id \<and> bridges_snapshot d snapshot_id \<and> linked (dl_final_update_id d) ds')"

definition final_id :: "int \<Rightarrow> 'f delta list \<Rightarrow> int" where
  "final_id start ds = (if ds = [] then start else dl_final_update_id (last ds))"

lemma linked_snoc: "linked i (ds @ [d]) \<longleftrightarrow> linked i ds \<and> link_error (final_id i ds) d = None \<and> final_id i ds < dl_final_update_id d"
  by (induction ds arbitrary: i) (auto simp: final_id_def)

lemma bridged_snoc:
  "ds \<noteq> [] \<Longrightarrow> bridged i (ds @ [d]) \<longleftrightarrow> bridged i ds \<and> link_error (final_id i ds) d = None \<and> final_id i ds < dl_final_update_id d"
  by (cases ds) (auto simp: bridged_def linked_snoc, auto simp: final_id_def)

lemma upper_char_space [simp]: "py_isspace (upper_char c) = py_isspace c"
  by (auto simp: py_isspace_def upper_char_def Let_def)

lemma upper_char_idem [simp]: "upper_char (upper_char c) = upper_char c"
  by (auto simp: upper_char_def Let_def)

lemma required_text_idem:
  assumes "required_text f v = Inr w" "f = py_lower \<or> f = py_upper"
  shows "required_text f w = Inr w"
proof -
  have "py_strip v \<noteq> []" "w = f (py_strip v)" using assms(1) by (auto simp: required_text_def Let_def split: if_splits)
  moreover have "py_strip (py_upper (py_strip v)) = py_upper (py_strip v)"
    using strip_ends[of v] by (intro py_strip_id) (auto simp: py_upper_def hd_map last_map)
  moreover have "py_upper (py_upper t) = py_upper t" for t by (simp add: py_upper_def)
  moreover have "w \<noteq> []" using calculation(1,2) assms(2) by (auto simp: py_lower_def py_upper_def)
  ultimately show ?thesis using assms(2) by (elim disjE) (simp_all add: required_text_def Let_def)
qed

lemma required_int_Inr [simp]: "required_int k v = Inr w \<longleftrightarrow> w = v \<and> k \<le> v"
  by (auto simp: required_int_def)

lemma required_int_ok [simp]: "k \<le> v \<Longrightarrow> required_int k v = Inr v"
  by simp

lemma normalize_identity_idem: "normalize_identity i = Inr n \<Longrightarrow> normalize_identity n = Inr n"
  by (cases i; cases n) (auto simp: bindr_eq_Inr required_text_idem)

lemma canonical_seed_levels_listing:
  assumes "canonical_seed_levels side ls = Inr ls'"
  shows "listing side (map_of ls') ls' \<and> ls' \<noteq> []"
proof -
  have ls: "distinct (map fst ls)" "ls \<noteq> []" "ls' = sorted_levels side ls"
    using assms by (auto simp: canonical_seed_levels_def make_levels_def bindr_eq_Inr split: if_splits)
  have l: "listing side (map_of ls) ls'" using sorted_levels_listing[of ls side] ls by (simp add: od_wf_def)
  then have "set ls' \<noteq> {}" using listing_dom[OF l] ls(2) by (auto simp: dom_map_of_conv_image_fst)
  then show ?thesis using l by (auto simp: listing_def)
qed

lemma valid_seedD:
  assumes "valid_seed sd"
  shows "normalize_identity (sd_identity sd) = Inr (sd_identity sd)" "1 \<le> sd_snapshot_limit sd" "1 \<le> sd_last_update_id sd"
    "0 \<le> sd_event_time_ms sd" "0 \<le> sd_received_at_ms sd"
    "listing Bids (map_of (sd_bids sd)) (sd_bids sd)" "listing Asks (map_of (sd_asks sd)) (sd_asks sd)"
    "sd_bids sd \<noteq> []" "sd_asks sd \<noteq> []" "fst (hd (sd_bids sd)) < fst (hd (sd_asks sd))"
    "int (length (sd_bids sd)) \<le> sd_snapshot_limit sd" "int (length (sd_asks sd)) \<le> sd_snapshot_limit sd"
proof -
  obtain raw where "make_seed raw = Inr sd" using assms by (auto simp: valid_seed_def)
  then obtain i bs as where p: "normalize_identity (sd_identity raw) = Inr i" "1 \<le> sd_snapshot_limit raw" "1 \<le> sd_last_update_id raw"
    "0 \<le> sd_event_time_ms raw" "0 \<le> sd_received_at_ms raw"
    "canonical_seed_levels Bids (sd_bids raw) = Inr bs" "canonical_seed_levels Asks (sd_asks raw) = Inr as"
    "\<not> (sd_snapshot_limit raw < int (length bs) \<or> sd_snapshot_limit raw < int (length as))" "\<not> fst (hd as) \<le> fst (hd bs)"
    "sd = raw\<lparr>sd_identity := i, sd_bids := bs, sd_asks := as\<rparr>"
    by (auto simp: make_seed_def bindr_eq_Inr split: if_splits)
  note lb = canonical_seed_levels_listing[OF p(6)] and la = canonical_seed_levels_listing[OF p(7)]
  show "normalize_identity (sd_identity sd) = Inr (sd_identity sd)" using normalize_identity_idem[OF p(1)] p(10) by simp
  show "1 \<le> sd_snapshot_limit sd" "1 \<le> sd_last_update_id sd" "0 \<le> sd_event_time_ms sd" "0 \<le> sd_received_at_ms sd"
    using p by simp_all
  show "listing Bids (map_of (sd_bids sd)) (sd_bids sd)" "listing Asks (map_of (sd_asks sd)) (sd_asks sd)"
    "sd_bids sd \<noteq> []" "sd_asks sd \<noteq> []" using lb la p(10) by simp_all
  show "fst (hd (sd_bids sd)) < fst (hd (sd_asks sd))" using p(9,10) by simp
  show "int (length (sd_bids sd)) \<le> sd_snapshot_limit sd" "int (length (sd_asks sd)) \<le> sd_snapshot_limit sd"
    using p(8,10) by simp_all
qed

lemma valid_deltaD:
  assumes "valid_delta d"
  shows "1 \<le> dl_first_update_id d" "1 \<le> dl_final_update_id d" "dl_first_update_id d \<le> dl_final_update_id d"
    "0 \<le> dl_event_time_ms d" "0 \<le> dl_received_at_ms d"
proof -
  obtain raw where "make_delta raw = Inr d" using assms by (auto simp: valid_delta_def)
  then obtain i where "d = raw\<lparr>dl_identity := i\<rparr>" "1 \<le> dl_first_update_id raw" "1 \<le> dl_final_update_id raw"
    "\<not> dl_final_update_id raw < dl_first_update_id raw" "0 \<le> dl_event_time_ms raw" "0 \<le> dl_received_at_ms raw"
    by (fastforce simp: make_delta_def bindr_eq_Inr split: if_splits option.splits)
  then show "1 \<le> dl_first_update_id d" "1 \<le> dl_final_update_id d" "dl_first_update_id d \<le> dl_final_update_id d"
    "0 \<le> dl_event_time_ms d" "0 \<le> dl_received_at_ms d" by simp_all
qed

lemma seed_book_window:
  assumes "valid_seed sd"
  defines "b \<equiv> seed_book sd"
  shows "side_window Bids (bids b, bid_prices b) None (exchange_book Bids sd [])"
    "side_window Asks (asks b, ask_prices b) None (exchange_book Asks sd [])"
    "length (bids b) = length (sd_bids sd)" "length (asks b) = length (sd_asks sd)"
proof -
  have d: "distinct (map fst (sd_bids sd))" "distinct (map fst (sd_asks sd))"
    using listing_distinct valid_seedD(6,7)[OF assms(1)] by blast+
  then have b: "b = \<lparr>bids = sd_bids sd, asks = sd_asks sd, bid_prices = sort (map fst (sd_bids sd)), ask_prices = sort (map fst (sd_asks sd))\<rparr>"
    by (simp add: b_def seed_book_def dict_of_listing Let_def)
  show "side_window Bids (bids b, bid_prices b) None (exchange_book Bids sd [])"
    "side_window Asks (asks b, ask_prices b) None (exchange_book Asks sd [])"
    using d by (simp_all add: b side_window_def exchange_book_def od_wf_def strictly_sorted_def strict_sorted_iff restrict_subset)
  show "length (bids b) = length (sd_bids sd)" "length (asks b) = length (sd_asks sd)" by (simp_all add: b)
qed

section \<open>A synchronised stream\<close>

text \<open>
  The stream \<open>s\<close> of identity \<open>n\<close> stands for the exchange's book after the seed \<open>sd\<close> and the
  deltas \<open>ds\<close>.
\<close>

definition shows_stream :: "('f::linorder) stream \<Rightarrow> bool" where
  "shows_stream s \<longleftrightarrow> (\<exists>r. book_revision s = Some r \<and> holds Bids r (map_of (bids s)) \<and> holds Asks r (map_of (asks s)) \<and> depth_ok r)"

definition synced :: "limits \<Rightarrow> identity \<Rightarrow> 'f::{linorder,zero} stream \<Rightarrow> 'f seed \<Rightarrow> 'f delta list \<Rightarrow> bool" where
  "synced l n s sd ds \<longleftrightarrow>
     valid_seed sd \<and> sd_identity sd = n \<and> (\<forall>d \<in> set ds. valid_delta d \<and> dl_identity d = n) \<and> bridged (sd_last_update_id sd) ds \<and>
     last_update_id s = Some (final_id (sd_last_update_id sd) ds) \<and>
     last_delta_signature s = (if ds = [] then None else Some (signature (last ds))) \<and>
     window s (exchange_book Bids sd ds) (exchange_book Asks sd ds) \<and>
     int (length (bids s)) \<le> max_levels_per_side l \<and> int (length (asks s)) \<le> max_levels_per_side l \<and>
     snapshot_limit s = Some (sd_snapshot_limit sd) \<and> sd_snapshot_limit sd \<le> max_levels_per_side l \<and>
     trusted_bid_depth s = length (sd_bids sd) \<and> trusted_ask_depth s = length (sd_asks sd) \<and>
     buffered s = [] \<and> buffered_updates s = 0 \<and> 0 \<le> st_event_time_ms s \<and> 0 \<le> st_received_at_ms s \<and> shows_stream s"

definition live :: "('f::linorder) stream \<Rightarrow> bool" where
  "live s \<longleftrightarrow> status s = Live \<and> sound_book s \<and> 1 \<le> st_revision s"

text \<open>The listings a synchronised stream publishes start at its best prices.\<close>

lemma stream_listings:
  assumes "side_ok (bids s, bid_prices s)" "side_ok (asks s, ask_prices s)" "sound_book s"
  obtains lb la where "listing Bids (map_of (bids s)) lb" "listing Asks (map_of (asks s)) la"
    "length lb = length (bids s)" "length la = length (asks s)" "lb \<noteq> []" "la \<noteq> []" "fst (hd lb) < fst (hd la)"
proof -
  obtain b where b: "listing Bids (map_of (bids s)) (rev b)" "map fst b = bid_prices s" using listing_prices[OF assms(1)] by blast
  obtain a where a: "listing Asks (map_of (asks s)) a" "map fst a = ask_prices s" using listing_prices[OF assms(2)] by blast
  have len: "length b = length (bids s)" "length a = length (asks s)"
    using side_ok_length[OF assms(1)] side_ok_length[OF assms(2)] b(2) a(2) by (metis length_map)+
  then have ne: "b \<noteq> []" "a \<noteq> []" using assms(3) by (auto simp: sound_book_def)
  then have "fst (hd (rev b)) < fst (hd a)" using assms(3) b(2) a(2)
    by (metis hd_rev last_map list.map_sel(1) sound_book_def)
  then show thesis using that[OF b(1) a(1)] len ne by simp
qed

text \<open>Publishing a sound book never fails, at any allowed depth.\<close>

lemma project_total:
  assumes s: "synced l n s sd ds" "sound_book s" "1 \<le> st_revision s" "1 \<le> st_epoch s"
    and depth: "case depth of None \<Rightarrow> True | Some k \<Rightarrow> 1 \<le> k"
  obtains sn where "project l n depth s = Inr sn" "Some (sn_book sn) = book_revision s" "sn_projection_depth sn = depth"
    "sn_epoch sn = st_epoch s" "Some (sn_last_update_id sn) = last_update_id s" "sn_identity sn = n"
proof -
  have w: "side_ok (bids s, bid_prices s)" "side_ok (asks s, ask_prices s)"
    using s(1) by (simp_all add: synced_def window_def side_window_def)
  obtain lb la where l: "listing Bids (map_of (bids s)) lb" "listing Asks (map_of (asks s)) la"
    "length lb = length (bids s)" "length la = length (asks s)" "lb \<noteq> []" "la \<noteq> []" "fst (hd lb) < fst (hd la)"
    using stream_listings[OF w s(2)] .
  obtain r where r: "book_revision s = Some r" "holds Bids r (map_of (bids s))" "holds Asks r (map_of (asks s))"
    using s(1) by (auto simp: synced_def shows_stream_def)
  have best: "lazy_best Bids r = Inr (hd lb)" "lazy_best Asks r = Inr (hd la)"
    using lazy_best_listing r l by blast+
  have count: "side_count (rev_bids r) = length (bids s)" "side_count (rev_asks r) = length (asks s)"
    using holds_shows[OF r(2)] holds_shows[OF r(3)] l listing_unique by (metis shows_listing_def rev_side.simps)+
  have v: "valid_seed sd" "sd_identity sd = n" using s(1) by (simp_all add: synced_def)
  have "1 \<le> final_id (sd_last_update_id sd) ds"
    using valid_seedD(3)[OF v(1)] s(1) valid_deltaD(2)[of "last ds"] last_in_set[of ds] by (auto simp: final_id_def synced_def)
  then have "\<exists>sn. project l n depth s = Inr sn \<and> Some (sn_book sn) = book_revision s \<and> sn_projection_depth sn = depth \<and>
      sn_epoch sn = st_epoch s \<and> Some (sn_last_update_id sn) = last_update_id s \<and> sn_identity sn = n"
    using s r(1) best count l v valid_seedD(1,2)[OF v(1)] depth
    by (cases depth) (auto simp: project_def make_snapshot_def synced_def lazy_len_def Let_def Suc_le_eq)
  then show thesis using that by blast
qed

text \<open>
  The end of a bridge or a live application: a new revision and its publication, when the
  changed book is sound.
\<close>

lemma publish_ok:
  assumes s: "synced l n s sd ds" "1 \<le> st_epoch s"
    and s': "window s' (exchange_book Bids sd (ds @ [d])) (exchange_book Asks sd (ds @ [d]))" "same_sync s s'" "sound_book s'"
      "int (length (bids s')) \<le> max_levels_per_side l" "int (length (asks s')) \<le> max_levels_per_side l"
      "\<And>p. p \<notin> set bps \<Longrightarrow> map_of (bids s') p = map_of (bids s) p" "\<And>p. p \<notin> set aps \<Longrightarrow> map_of (asks s') p = map_of (asks s) p"
    and d: "valid_delta d" "dl_identity d = n" "bridged (sd_last_update_id sd) (ds @ [d])" "1 \<le> k"
  obtains s2 m2 sn where "publish l n s' m d k bps aps = ((s2, m2), Inr (result s2 True Applied None None (Some sn)))"
    "synced l n s2 sd (ds @ [d])" "live s2" "st_epoch s2 = st_epoch s" "Some (sn_book sn) = book_revision s2"
proof -
  obtain r where r: "book_revision s = Some r" "holds Bids r (map_of (bids s))" "holds Asks r (map_of (asks s))" "depth_ok r"
    using s(1) by (auto simp: synced_def shows_stream_def)
  have ok: "side_ok (bids s', bid_prices s')" "side_ok (asks s', ask_prices s')"
    using s'(1) by (simp_all add: window_def side_window_def)
  obtain r' where r': "child r (bids s') (asks s') (bid_prices s') (ask_prices s') bps aps = Inr r'"
    "holds Bids r' (map_of (bids s'))" "holds Asks r' (map_of (asks s'))" "depth_ok r'"
    using child_holds[OF r(2-4) ok s'(6,7)] by blast
  let ?s2 = "s'\<lparr>status := Live, last_update_id := Some (dl_final_update_id d), last_delta_signature := Some (signature d),
      st_event_time_ms := dl_event_time_ms d, st_received_at_ms := dl_received_at_ms d, st_source := dl_source d,
      st_revision := k, book_revision := Some r'\<rparr>"
  have syn: "synced l n ?s2 sd (ds @ [d])"
    using s(1) s' d r' valid_deltaD[OF d(1)]
    by (simp add: synced_def same_sync_def window_def shows_stream_def final_id_def)
  have snd: "sound_book ?s2" "1 \<le> st_revision ?s2" "1 \<le> st_epoch ?s2"
    using s'(2,3) s(2) d(4) by (simp_all add: sound_book_def same_sync_def)
  obtain sn where sn: "project l n None ?s2 = Inr sn" "Some (sn_book sn) = book_revision ?s2"
    using project_total[OF syn snd] by (metis option.simps(4))
  have "publish l n s' m d k bps aps = ((?s2, bump ''deltas_applied'' m), Inr (result ?s2 True Applied None None (Some sn)))"
    using r(1) r'(1) sn(1) s'(2) by (simp add: publish_def same_sync_def Let_def)
  then show thesis using that syn snd sn(2) s'(2) by (simp add: live_def same_sync_def)
qed

text \<open>
  What one delta does to a synchronised stream: nothing, one more applied delta, or a failure
  that clears the stream.
\<close>

definition delta_effect ::
  "limits \<Rightarrow> identity \<Rightarrow> 'f::{linorder,zero} stream \<Rightarrow> 'f seed \<Rightarrow> 'f delta list \<Rightarrow> 'f delta \<Rightarrow> 'f outcome \<Rightarrow> bool"
where
  "delta_effect l n s sd ds d out \<longleftrightarrow>
     (\<exists>s' m' r. out = ((s', m'), Inr r) \<and>
        (s' = s \<and> \<not> accepted r \<and> rs_snapshot r = None \<or> (\<exists>f detail s0. s' = failed f detail s0 \<and> st_epoch s0 = st_epoch s \<and> \<not> accepted r \<and> rs_snapshot r = None) \<or>
         (synced l n s' sd (ds @ [d]) \<and> live s' \<and> st_epoch s' = st_epoch s \<and> accepted r \<and>
          (\<exists>sn. rs_snapshot r = Some sn \<and> Some (sn_book sn) = book_revision s'))))"

lemma effect_stale [simp]: "delta_effect l n s sd ds d (stale_result s m)" "delta_effect l n s sd ds d (duplicate_result s m)"
  by (auto simp: delta_effect_def stale_result_def duplicate_result_def result_def)

lemma effect_fail [simp]: "st_epoch s0 = st_epoch s \<Longrightarrow> delta_effect l n s sd ds d (fail s0 m f detail)"
  by (auto simp: delta_effect_def fail_def Let_def result_def)

lemma effect_publish:
  assumes "synced l n s sd ds" "1 \<le> st_epoch s" "0 \<le> max_levels_per_side l"
    and "valid_delta d" "dl_identity d = n" "bridged (sd_last_update_id sd) (ds @ [d])" "\<And>s'. same_sync s s' \<Longrightarrow> 1 \<le> k s'"
  shows "delta_effect l n s sd ds d (case mutate_live_book l s m d of
      Inl e \<Rightarrow> ((s, m), Inl e)
    | Inr (s', m', Some (f, detail), bps, aps) \<Rightarrow> fail s' m' f detail
    | Inr (s', m', None, bps, aps) \<Rightarrow> publish l n s' m' d (k s') bps aps)"
proof -
  have w: "window s (exchange_book Bids sd ds) (exchange_book Asks sd ds)" using assms(1) by (simp add: synced_def)
  obtain s' m' f bps aps where m: "mutate_live_book l s m d = Inr (s', m', f, bps, aps)"
    "window s' (set_levels (dl_bids d) (exchange_book Bids sd ds)) (set_levels (dl_asks d) (exchange_book Asks sd ds))" "same_sync s s'"
    "int (length (bids s')) \<le> max_levels_per_side l" "int (length (asks s')) \<le> max_levels_per_side l"
    "\<And>p. p \<notin> set bps \<Longrightarrow> map_of (bids s') p = map_of (bids s) p" "\<And>p. p \<notin> set aps \<Longrightarrow> map_of (asks s') p = map_of (asks s) p"
    "f = None \<longleftrightarrow> sound_book s' \<and> trusted_bid_depth s \<le> length (bids s') \<and> trusted_ask_depth s \<le> length (asks s')"
    using mutate_live_ok[OF w assms(3)] by metis
  show ?thesis
  proof (cases f)
    case (Some fd)
    moreover have "st_epoch s' = st_epoch s" using m(3) by (simp add: same_sync_def)
    ultimately show ?thesis using m(1) by (cases fd) simp
  next
    case None
    then have "sound_book s'" using m(8) by simp
    moreover have "window s' (exchange_book Bids sd (ds @ [d])) (exchange_book Asks sd (ds @ [d]))"
      using m(2) by (simp add: exchange_book_snoc)
    ultimately obtain s2 m2 sn where
      "publish l n s' m' d (k s') bps aps = ((s2, m2), Inr (result s2 True Applied None None (Some sn)))"
      "synced l n s2 sd (ds @ [d])" "live s2" "st_epoch s2 = st_epoch s" "Some (sn_book sn) = book_revision s2"
      using publish_ok[where k = "k s'" and m = m', OF assms(1,2) _ m(3) _ m(4-7) assms(4-6)] assms(7)[OF m(3)] by metis
    then show ?thesis using m(1) None by (auto simp: delta_effect_def result_def)
  qed
qed

lemma apply_bridge_effect:
  assumes "synced l n s sd []" "1 \<le> st_epoch s" "0 \<le> max_levels_per_side l" "valid_delta d" "dl_identity d = n"
  shows "delta_effect l n s sd [] d (apply_bridge l n s m d)"
proof -
  have "last_update_id s = Some (sd_last_update_id sd)" using assms(1) by (simp add: synced_def final_id_def)
  then show ?thesis
    using effect_publish[OF assms(1-5), of "\<lambda>_. 1" m]
    by (auto simp: apply_bridge_def bridged_def)
qed

lemma apply_live_effect:
  assumes "synced l n s sd ds" "ds \<noteq> []" "live s" "1 \<le> st_epoch s" "0 \<le> max_levels_per_side l" "valid_delta d" "dl_identity d = n"
  shows "delta_effect l n s sd ds d (apply_live l n s m d)"
proof -
  have last: "last_update_id s = Some (final_id (sd_last_update_id sd) ds)" and b: "bridged (sd_last_update_id sd) ds"
    using assms(1) by (simp_all add: synced_def)
  have k: "1 \<le> st_revision s' + 1" if "same_sync s s'" for s' using that assms(3) by (simp add: live_def same_sync_def)
  show ?thesis
    using effect_publish[OF assms(1,4-7), of "\<lambda>s'. st_revision s' + 1" m] last b k assms(2)
    by (auto simp: apply_live_def bridged_snoc split: option.split)
qed

section \<open>Buffering and installing\<close>

definition full_side :: "limits \<Rightarrow> ('f, 'z) book_scheme \<Rightarrow> bool" where
  "full_side l b \<longleftrightarrow> max_levels_per_side l < int (length (bids b)) \<or> max_levels_per_side l < int (length (asks b))"

definition book_window :: "('f::linorder, 'z) book_scheme \<Rightarrow> ('f \<rightharpoonup> 'f) \<Rightarrow> ('f \<rightharpoonup> 'f) \<Rightarrow> bool" where
  "book_window b mb ma \<longleftrightarrow> side_window Bids (bids b, bid_prices b) None mb \<and> side_window Asks (asks b, ask_prices b) None ma"

lemma whole_window: "side_window side lp None m \<longleftrightarrow> side_ok lp \<and> side_book lp = m"
  by (simp add: side_window_def restrict_subset)

lemma mutate_book_ok:
  assumes "book_window b mb ma"
  obtains f b' where "mutate_book l d b = Inr (f, b')" "book_window b' (set_levels (dl_bids d) mb) (set_levels (dl_asks d) ma)"
    "f = None \<longleftrightarrow> sound_book b' \<and> \<not> full_side l b'"
proof -
  have w: "side_ok (bids b, bid_prices b)" "map_of (bids b) = mb" "side_ok (asks b, ask_prices b)" "map_of (asks b) = ma"
    using assms by (simp_all add: book_window_def whole_window)
  obtain bs bps where b: "mutate_side (dl_bids d) (bids b, bid_prices b) = Inr (bs, bps)" "side_ok (bs, bps)"
    "map_of bs = set_levels (dl_bids d) mb" using mutate_side_total[OF w(1)] w(2) by (metis side_book.cases side_book.simps)
  obtain as aps where a: "mutate_side (dl_asks d) (asks b, ask_prices b) = Inr (as, aps)" "side_ok (as, aps)"
    "map_of as = set_levels (dl_asks d) ma" using mutate_side_total[OF w(3)] w(4) by (metis side_book.cases side_book.simps)
  let ?b = "\<lparr>bids = bs, asks = as, bid_prices = bps, ask_prices = aps\<rparr>"
  have "bs \<noteq> [] \<Longrightarrow> bps \<noteq> []" "as \<noteq> [] \<Longrightarrow> aps \<noteq> []"
    using side_ok_length[OF b(2)] side_ok_length[OF a(2)] by auto
  then have "\<exists>f. mutate_book l d b = Inr (f, ?b) \<and> (f = None \<longleftrightarrow> sound_book ?b \<and> \<not> full_side l ?b)"
    using b(1) a(1) by (auto simp: mutate_book_def Let_def full_side_def sound_book_def last_price_def first_price_def)
  moreover have "book_window ?b (set_levels (dl_bids d) mb) (set_levels (dl_asks d) ma)"
    using a(2,3) b(2,3) by (simp add: book_window_def whole_window)
  ultimately show thesis using that by blast
qed

definition publishable :: "limits \<Rightarrow> ('f::linorder, 'z) book_scheme \<Rightarrow> bool" where
  "publishable l b \<longleftrightarrow> sound_book b \<and> \<not> full_side l b"

lemma replay_rest_ok:
  assumes "book_window b (exchange_book Bids sd ds0) (exchange_book Asks sd ds0)" "publishable l b"
  shows "\<exists>out. replay_rest l b i ds = Inr out \<and>
    (\<forall>b'. out = Inr b' \<longrightarrow> book_window b' (exchange_book Bids sd (ds0 @ ds)) (exchange_book Asks sd (ds0 @ ds)) \<and> publishable l b' \<and>
      (strictly_sorted (i # map dl_final_update_id ds) \<longrightarrow> linked i ds))"
  using assms
proof (induction ds arbitrary: b i ds0)
  case (Cons d ds)
  show ?case
  proof (cases "link_error i d")
    case None
    obtain f b1 where m: "mutate_book l d b = Inr (f, b1)"
      "book_window b1 (exchange_book Bids sd (ds0 @ [d])) (exchange_book Asks sd (ds0 @ [d]))"
      "f = None \<longleftrightarrow> publishable l b1"
      using mutate_book_ok[OF Cons.prems(1), of l d] by (auto simp: exchange_book_snoc publishable_def)
    show ?thesis
    proof (cases f)
      case (Some fd)
      then show ?thesis using m(1) None by simp
    next
      case f: None
      then show ?thesis using Cons.IH[OF m(2), of "dl_final_update_id d"] m(1,3) None by auto
    qed
  qed simp
qed simp

lemma replay_kept_ok:
  assumes sd: "valid_seed sd" and kept: "\<forall>d \<in> set kept. delta_follows_snapshot d (sd_last_update_id sd)"
    "strictly_sorted (map dl_final_update_id kept)"
  shows "\<exists>out. replay_kept l (seed_book sd) (sd_last_update_id sd) kept = Inr out \<and>
    (\<forall>b'. out = Inr b' \<longrightarrow> book_window b' (exchange_book Bids sd kept) (exchange_book Asks sd kept) \<and>
      (kept \<noteq> [] \<longrightarrow> publishable l b') \<and> (kept = [] \<longrightarrow> b' = seed_book sd) \<and> bridged (sd_last_update_id sd) kept)"
proof -
  have w: "book_window (seed_book sd) (exchange_book Bids sd []) (exchange_book Asks sd [])"
    using seed_book_window[OF sd] by (simp add: book_window_def)
  show ?thesis
  proof (cases kept)
    case Nil
    then show ?thesis using w by (simp add: replay_kept_def bridged_def)
  next
    case (Cons d ds)
    obtain f b1 where m: "mutate_book l d (seed_book sd) = Inr (f, b1)"
      "book_window b1 (exchange_book Bids sd ([] @ [d])) (exchange_book Asks sd ([] @ [d]))" "f = None \<longleftrightarrow> publishable l b1"
      using mutate_book_ok[OF w, of l d] by (auto simp: exchange_book_snoc publishable_def simp del: append_Nil)
    show ?thesis
    proof (cases f)
      case (Some fd)
      then show ?thesis using m(1) Cons by (simp add: replay_kept_def)
    next
      case None
      then show ?thesis
        using replay_rest_ok[OF m(2), of l "dl_final_update_id d" ds] m(1,3) Cons kept
        by (auto simp: replay_kept_def bridged_def)
    qed
  qed
qed

definition buffering :: "limits \<Rightarrow> identity \<Rightarrow> 'f::{linorder,zero} stream \<Rightarrow> bool" where
  "buffering l n s \<longleftrightarrow>
     (\<forall>d \<in> set (buffered s). valid_delta d \<and> dl_identity d = n) \<and> strictly_sorted (map dl_final_update_id (buffered s)) \<and>
     int (length (buffered s)) \<le> max_buffered_deltas l \<and>
     buffered_updates s = sum_list (map level_update_count (buffered s)) \<and> buffered_updates s \<le> max_buffered_level_updates l \<and>
     bids s = [] \<and> asks s = [] \<and> bid_prices s = [] \<and> ask_prices s = [] \<and> book_revision s = None \<and> last_update_id s = None"

definition buffer_effect ::
  "limits \<Rightarrow> identity \<Rightarrow> 'f::{linorder,zero} stream \<Rightarrow> 'f delta \<Rightarrow> 'f outcome \<Rightarrow> bool"
where
  "buffer_effect l n s d out \<longleftrightarrow>
     (\<exists>s' m' r. out = ((s', m'), Inr r) \<and> rs_snapshot r = None \<and>
        (s' = s \<and> \<not> accepted r \<or> (\<exists>f detail. s' = failed f detail s \<and> \<not> accepted r) \<or>
         (buffering l n s' \<and> buffered s' = buffered s @ [d] \<and> status s' = status s \<and> st_epoch s' = st_epoch s \<and> accepted r)))"

lemma buffer_stale [simp]: "buffer_effect l n s d (stale_result s m)" "buffer_effect l n s d (duplicate_result s m)"
  by (auto simp: buffer_effect_def stale_result_def duplicate_result_def result_def)

lemma buffer_fail [simp]: "buffer_effect l n s d (fail s m f detail)"
  by (auto simp: buffer_effect_def fail_def Let_def result_def)

lemma strictly_sorted_snoc: "strictly_sorted (xs @ [x]) \<longleftrightarrow> strictly_sorted xs \<and> (xs = [] \<or> last xs < x)"
proof (induction xs rule: rev_induct)
  case (snoc y xs)
  then show ?case by (fastforce simp: strictly_sorted_append)
qed simp

lemma buffer_delta_effect:
  assumes "buffering l n s" "valid_delta d" "dl_identity d = n"
  shows "buffer_effect l n s d (buffer_delta l s m d)"
proof -
  let ?s = "s\<lparr>buffered := buffered s @ [d], buffered_updates := buffered_updates s + level_update_count d\<rparr>"
  have app: "buffer_effect l n s d ((?s, bump ''deltas_buffered'' m), Inr (result ?s True Buffered None None None))"
    if "buffered s = [] \<or> dl_final_update_id (last (buffered s)) < dl_final_update_id d"
      "\<not> max_buffered_deltas l \<le> int (length (buffered s))" "\<not> max_buffered_level_updates l < buffered_updates s + level_update_count d"
  proof -
    have "strictly_sorted (map dl_final_update_id (buffered s @ [d]))"
      using that(1) assms(1) by (cases "buffered s = []") (auto simp: buffering_def strictly_sorted_snoc last_map)
    then show ?thesis using that(2,3) assms by (auto simp: buffer_effect_def result_def buffering_def)
  qed
  show ?thesis using app by (auto simp: buffer_delta_def Let_def split: option.split)
qed

text \<open>Nothing has been trimmed yet.\<close>

definition whole_view :: "'f stream \<Rightarrow> bool" where
  "whole_view s \<longleftrightarrow> trimmed_bid_boundary s = None \<and> trimmed_ask_boundary s = None"

definition install_effect ::
  "limits \<Rightarrow> identity \<Rightarrow> 'f::{linorder,zero} stream \<Rightarrow> 'f seed \<Rightarrow> 'f outcome \<Rightarrow> bool"
where
  "install_effect l n s sd out \<longleftrightarrow>
     (\<exists>s' m' r. out = ((s', m'), Inr r) \<and>
        ((\<exists>f detail. s' = failed f detail s \<and> \<not> accepted r \<and> rs_snapshot r = None) \<or>
         (\<exists>ds. subseq ds (buffered s) \<and> synced l n s' sd ds \<and> st_epoch s' = st_epoch s \<and> accepted r \<and>
            (if ds = [] then status s' = AwaitingBridge \<and> whole_view s' \<and> rs_snapshot r = None
             else live s' \<and> (\<exists>sn. rs_snapshot r = Some sn \<and> Some (sn_book sn) = book_revision s')))))"

lemma install_fail [simp]: "install_effect l n s sd (fail s m f detail)"
  by (auto simp: install_effect_def fail_def Let_def result_def)

lemma strictly_sorted_map_filter: "strictly_sorted (map f xs) \<Longrightarrow> strictly_sorted (map f (List.filter P xs))"
  by (induction xs) auto

lemma installed_simps [simp]:
  "bids (installed sd kept b r s) = bids b" "asks (installed sd kept b r s) = asks b"
  "bid_prices (installed sd kept b r s) = bid_prices b" "ask_prices (installed sd kept b r s) = ask_prices b"
  "st_epoch (installed sd kept b r s) = st_epoch s" "book_revision (installed sd kept b r s) = Some r"
  "status (installed sd kept b r s) = (if kept = [] then AwaitingBridge else Live)"
  "st_revision (installed sd kept b r s) = (if kept = [] then 0 else 1)" "whole_view (installed sd kept b r s)"
  by (simp_all add: installed_def whole_view_def Let_def)

lemma install_seed_effect:
  assumes s: "buffering l n s" "1 \<le> st_epoch s" and sd: "valid_seed sd" "sd_identity sd = n"
  shows "install_effect l n s sd (install_seed l n s m sd)"
proof (cases "max_levels_per_side l < sd_snapshot_limit sd \<or> max_levels_per_side l < int (length (sd_bids sd)) \<or>
    max_levels_per_side l < int (length (sd_asks sd))")
  case True
  then show ?thesis by (simp add: install_seed_def)
next
  case cap: False
  let ?kept = "List.filter (\<lambda>d. delta_follows_snapshot d (sd_last_update_id sd)) (buffered s)"
  let ?m = "bump_by (length (buffered s) - length ?kept) ''buffered_old_discarded'' m"
  have kept: "\<forall>d \<in> set ?kept. delta_follows_snapshot d (sd_last_update_id sd)" "strictly_sorted (map dl_final_update_id ?kept)"
    "\<forall>d \<in> set ?kept. valid_delta d \<and> dl_identity d = n"
    using s(1) strictly_sorted_map_filter by (auto simp: buffering_def)
  obtain out where out: "replay_kept l (seed_book sd) (sd_last_update_id sd) ?kept = Inr out"
    "\<forall>b'. out = Inr b' \<longrightarrow> book_window b' (exchange_book Bids sd ?kept) (exchange_book Asks sd ?kept) \<and>
      (?kept \<noteq> [] \<longrightarrow> publishable l b') \<and> (?kept = [] \<longrightarrow> b' = seed_book sd) \<and> bridged (sd_last_update_id sd) ?kept"
    using replay_kept_ok[OF sd(1) kept(1,2)] by blast
  show ?thesis
  proof (cases out)
    case (Inl fd)
    then show ?thesis using out(1) cap by (cases fd) (simp add: install_seed_def Let_def)
  next
    case (Inr b)
    have b: "book_window b (exchange_book Bids sd ?kept) (exchange_book Asks sd ?kept)" "?kept \<noteq> [] \<Longrightarrow> publishable l b"
      "?kept = [] \<Longrightarrow> b = seed_book sd" "bridged (sd_last_update_id sd) ?kept" using out(2) Inr by simp_all
    have ok: "side_ok (bids b, bid_prices b)" "side_ok (asks b, ask_prices b)" using b(1) by (simp_all add: book_window_def whole_window)
    obtain r where r: "from_book (bids b) (asks b) (bid_prices b) (ask_prices b) = Inr r"
      "holds Bids r (map_of (bids b))" "holds Asks r (map_of (asks b))" "rev_parent r = None" "rev_depth r = 0"
      using from_book_holds[OF ok] .
    have depth: "depth_ok r" using r(4,5) by (cases r) (simp add: depth_ok_def)
    let ?s = "installed sd ?kept b r s"
    have full: "int (length (bids b)) \<le> max_levels_per_side l" "int (length (asks b)) \<le> max_levels_per_side l"
      using b(2,3) cap seed_book_window(3,4)[OF sd(1)] by (cases "?kept = []"; auto simp: publishable_def full_side_def)+
    have times: "0 \<le> st_event_time_ms ?s" "0 \<le> st_received_at_ms ?s"
    proof -
      have "0 \<le> dl_event_time_ms (last ?kept) \<and> 0 \<le> dl_received_at_ms (last ?kept)" if "?kept \<noteq> []"
        using valid_deltaD(4,5) kept(3) last_in_set[OF that] by blast
      then show "0 \<le> st_event_time_ms ?s" "0 \<le> st_received_at_ms ?s"
        using valid_seedD(4,5)[OF sd(1)] by (auto simp: installed_def Let_def)
    qed
    have syn: "synced l n ?s sd ?kept"
      unfolding synced_def
    proof (intro conjI)
      show "window ?s (exchange_book Bids sd ?kept) (exchange_book Asks sd ?kept)"
        using b(1) by (simp add: window_def book_window_def, simp add: installed_def)
      show "shows_stream ?s" using r depth by (auto simp: shows_stream_def)
    qed (use sd kept(3) b(4) full times cap in \<open>auto simp: installed_def final_id_def Let_def\<close>)
    show ?thesis
    proof (cases "?kept = []")
      case True
      then have "install_seed l n s m sd = ((?s, bump_by 0 ''deltas_replayed'' (bump ''snapshots_installed'' ?m)),
          Inr (result ?s True SnapshotInstalled None None None))"
        using cap out(1) Inr r(1) by (simp add: install_seed_def Let_def)
      then show ?thesis using syn True by (auto simp: install_effect_def result_def intro!: exI[of _ "[]"])
    next
      case False
      have snd: "sound_book ?s" "1 \<le> st_revision ?s" "1 \<le> st_epoch ?s"
        using b(2)[OF False] False s(2) by (simp_all add: publishable_def sound_book_def)
      obtain sn where sn: "project l n None ?s = Inr sn" "Some (sn_book sn) = book_revision ?s"
        using project_total[OF syn snd] by (metis option.simps(4))
      have "install_seed l n s m sd = ((?s, bump_by (length ?kept) ''deltas_replayed'' (bump ''snapshots_installed'' ?m)),
          Inr (result ?s True SnapshotInstalled None None (Some sn)))"
        using cap out(1) Inr r(1) False sn(1) by (simp add: install_seed_def Let_def)
      moreover have "live ?s" using snd False by (simp add: live_def)
      ultimately show ?thesis using syn sn(2) False
        by (auto simp: install_effect_def result_def intro!: exI[of _ ?kept])
    qed
  qed
qed

section \<open>Runs of the engine\<close>

text \<open>
  The calls of the engine, and the reads of published snapshots, which complete a side of the
  revision they hold or of one of its ancestors.
\<close>

datatype 'f op =
    Activate identity
  | Deactivate identity
  | BeginSync identity
  | Delta identity "'f delta res" int
  | Depth identity "'f seed res" int
  | Read identity book_side nat

definition read_stream :: "identity \<Rightarrow> book_side \<Rightarrow> nat \<Rightarrow> ('f::linorder) engine \<Rightarrow> 'f engine" where
  "read_stream n side k e =
     (case map_of (streams e) n of
        None \<Rightarrow> e
      | Some s \<Rightarrow> (case book_revision s of
          None \<Rightarrow> e
        | Some r \<Rightarrow> e\<lparr>streams := AList.update n (s\<lparr>book_revision := Some (read_at side k r)\<rparr>) (streams e)\<rparr>))"

fun exec :: "'f::{linorder,zero} op \<Rightarrow> 'f engine \<Rightarrow> 'f engine" where
  "exec (Activate i) e = fst (activate_stream i e)"
| "exec (Deactivate i) e = fst (deactivate_stream i e)"
| "exec (BeginSync i) e = fst (begin_sync i e)"
| "exec (Delta i d epoch) e = fst (apply_delta i d epoch e)"
| "exec (Depth i sd epoch) e = fst (install_snapshot i sd epoch e)"
| "exec (Read n side k) e = read_stream n side k e"

fun valid_op :: "'f::{linorder,zero} op \<Rightarrow> bool" where
  "valid_op (Delta i (Inr d) epoch) \<longleftrightarrow> valid_delta d"
| "valid_op (Depth i (Inr sd) epoch) \<longleftrightarrow> valid_seed sd"
| "valid_op _ \<longleftrightarrow> True"

inductive reachable :: "limits \<Rightarrow> 'f::{linorder,zero} op list \<Rightarrow> 'f engine \<Rightarrow> bool" for l where
  start: "new_engine l = Inr e \<Longrightarrow> reachable l [] e"
| step: "reachable l ops e \<Longrightarrow> valid_op op \<Longrightarrow> reachable l (ops @ [op]) (exec op e)"

text \<open>What a stream has received under an epoch.\<close>

fun deltas_of :: "identity \<Rightarrow> int \<Rightarrow> 'f op \<Rightarrow> 'f delta list" where
  "deltas_of n epoch (Delta i (Inr d) epoch') = (if normalize_identity i = Inr n \<and> epoch' = epoch then [d] else [])"
| "deltas_of n epoch _ = []"

definition received :: "identity \<Rightarrow> int \<Rightarrow> 'f op list \<Rightarrow> 'f delta list" where
  "received n epoch ops = concat (map (deltas_of n epoch) ops)"

definition seeded :: "identity \<Rightarrow> int \<Rightarrow> 'f op list \<Rightarrow> 'f seed \<Rightarrow> bool" where
  "seeded n epoch ops sd \<longleftrightarrow> (\<exists>i. Depth i (Inr sd) epoch \<in> set ops \<and> normalize_identity i = Inr n)"

definition cleared :: "'f stream \<Rightarrow> bool" where
  "cleared s \<longleftrightarrow> bids s = [] \<and> asks s = [] \<and> bid_prices s = [] \<and> ask_prices s = [] \<and> book_revision s = None \<and>
     buffered s = [] \<and> buffered_updates s = 0 \<and> last_update_id s = None"

definition stream_inv :: "limits \<Rightarrow> 'f::{linorder,zero} op list \<Rightarrow> identity \<Rightarrow> 'f stream \<Rightarrow> bool" where
  "stream_inv l ops n s \<longleftrightarrow> (case status s of
       Inactive \<Rightarrow> cleared s
     | ResyncRequired \<Rightarrow> cleared s
     | Buffering \<Rightarrow> buffering l n s \<and> subseq (buffered s) (received n (st_epoch s) ops)
     | AwaitingBridge \<Rightarrow> whole_view s \<and> (\<exists>sd. seeded n (st_epoch s) ops sd \<and> synced l n s sd [])
     | Live \<Rightarrow> (\<exists>sd ds. seeded n (st_epoch s) ops sd \<and> ds \<noteq> [] \<and> synced l n s sd ds \<and> live s \<and> subseq ds (received n (st_epoch s) ops)))"

definition engine_inv :: "limits \<Rightarrow> 'f::{linorder,zero} op list \<Rightarrow> 'f engine \<Rightarrow> bool" where
  "engine_inv l ops e \<longleftrightarrow>
     engine_limits e = l \<and> 1 \<le> max_streams l \<and> 1 \<le> max_levels_per_side l \<and> 1 \<le> max_buffered_deltas l \<and> 1 \<le> max_buffered_level_updates l \<and>
     0 \<le> next_epoch e \<and> od_wf (streams e) \<and> int (length (streams e)) \<le> max_streams l \<and>
     active e \<subseteq> dom (map_of (streams e)) \<and>
     (\<forall>n s. map_of (streams e) n = Some s \<longrightarrow> normalize_identity n = Inr n \<and> (status s = Inactive \<longleftrightarrow> n \<notin> active e) \<and>
        1 \<le> st_epoch s \<and> st_epoch s \<le> next_epoch e \<and> stream_inv l ops n s)"

lemma book_engine_invD:
  assumes "engine_inv l ops e" "map_of (streams e) n = Some s"
  shows "normalize_identity n = Inr n" "status s = Inactive \<longleftrightarrow> n \<notin> active e" "1 \<le> st_epoch s" "st_epoch s \<le> next_epoch e"
    "stream_inv l ops n s"
  using assms unfolding engine_inv_def by blast+

lemma engine_inv_limits:
  assumes "engine_inv l ops e"
  shows "engine_limits e = l" "1 \<le> max_streams l" "1 \<le> max_levels_per_side l" "1 \<le> max_buffered_deltas l"
    "1 \<le> max_buffered_level_updates l" "0 \<le> next_epoch e" "od_wf (streams e)" "int (length (streams e)) \<le> max_streams l"
    "active e \<subseteq> dom (map_of (streams e))"
  using assms unfolding engine_inv_def by blast+

lemma received_snoc: "received n epoch (ops @ [op]) = received n epoch ops @ deltas_of n epoch op"
  by (simp add: received_def)

lemma subseq_more: "subseq xs ys \<Longrightarrow> subseq xs (ys @ zs)"
  by (metis append_Nil2 list_emb_Nil list_emb_append_mono)

lemma seeded_snoc: "seeded n epoch ops sd \<Longrightarrow> seeded n epoch (ops @ [op]) sd"
  by (auto simp: seeded_def)

lemma stream_inv_snoc: "stream_inv l ops n s \<Longrightarrow> stream_inv l (ops @ [op]) n s"
  by (auto simp: stream_inv_def received_snoc intro: subseq_more seeded_snoc split: book_state.splits)

text \<open>An operation that changes one stream in place.\<close>

definition replaces :: "'f engine \<Rightarrow> identity \<Rightarrow> 'f stream \<Rightarrow> 'f engine \<Rightarrow> bool" where
  "replaces e n s' e' \<longleftrightarrow> engine_limits e' = engine_limits e \<and> active e' = active e \<and> next_epoch e' = next_epoch e \<and>
     map_of (streams e') = (map_of (streams e))(n \<mapsto> s') \<and>
     (od_wf (streams e) \<and> map_of (streams e) n \<noteq> None \<longrightarrow> od_wf (streams e') \<and> length (streams e') = length (streams e))"

lemma replaces_put [simp]: "replaces e n (fst sm) (put_stream n sm e)"
  by (auto simp: replaces_def put_stream_def map_of_update length_update_in)

lemma replaces_to_end [simp]: "replaces e n s' e' \<Longrightarrow> replaces e n s' (to_end n e')"
  by (auto simp: replaces_def to_end_def)

lemma replaces_inv:
  assumes "engine_inv l ops e" "map_of (streams e) n = Some s" "replaces e n s' e'"
    and "stream_inv l ops' n s'" "st_epoch s' = st_epoch s" "status s' = Inactive \<longleftrightarrow> status s = Inactive"
    and "\<And>n s. stream_inv l ops n s \<Longrightarrow> stream_inv l ops' n s"
  shows "engine_inv l ops' e'"
  using assms by (auto simp: engine_inv_def replaces_def)

lemma engine_inv_count [simp]: "engine_inv l ops (count name e) = engine_inv l ops e"
  by (simp add: engine_inv_def count_def)

lemma engine_inv_snoc: "engine_inv l ops e \<Longrightarrow> engine_inv l (ops @ [op]) e"
  by (auto simp: engine_inv_def intro: stream_inv_snoc)

lemma reset_cleared [simp]: "cleared (reset epoch st s)" "status (reset epoch st s) = st" "st_epoch (reset epoch st s) = epoch"
  by (simp_all add: reset_def cleared_def)

lemma failed_cleared [simp]: "cleared (failed f detail s)" "status (failed f detail s) = ResyncRequired"
  "st_epoch (failed f detail s) = st_epoch s"
  by (simp_all add: failed_def cleared_def)

lemma cleared_buffering: "cleared s \<Longrightarrow> 1 \<le> max_buffered_deltas l \<Longrightarrow> 1 \<le> max_buffered_level_updates l \<Longrightarrow> buffering l n s"
  by (simp add: cleared_def buffering_def)

lemma reset_new_stream: "reset epoch st s = new_stream epoch st"
  by (simp add: reset_def new_stream_def)

lemma active_stateD:
  assumes "active_state e i = Inr (n, s)"
  shows "normalize_identity i = Inr n" "map_of (streams e) n = Some s" "n \<in> active e"
  using assms by (auto simp: active_state_def bindr_eq_Inr split: option.splits if_splits)

text \<open>The outcome of an operation on one stream that keeps the invariant and publishes only live books.\<close>

definition good_outcome :: "limits \<Rightarrow> 'f::{linorder,zero} op list \<Rightarrow> identity \<Rightarrow> 'f stream \<Rightarrow> 'f outcome \<Rightarrow> bool" where
  "good_outcome l ops n s out \<longleftrightarrow>
     (\<exists>s' m' r. out = ((s', m'), Inr r) \<and> stream_inv l ops n s' \<and> st_epoch s' = st_epoch s \<and> status s' \<noteq> Inactive \<and>
        (\<forall>sn. rs_snapshot r = Some sn \<longrightarrow> status s' = Live \<and> Some (sn_book sn) = book_revision s'))"

lemma cleared_inv [simp]: "stream_inv l ops n (failed f detail s)"
  by (simp add: stream_inv_def)

lemma good_unchanged:
  "stream_inv l ops n s \<Longrightarrow> status s \<noteq> Inactive \<Longrightarrow> rs_snapshot r = None \<Longrightarrow> good_outcome l (ops @ [op]) n s ((s, m), Inr r)"
  by (auto simp: good_outcome_def stream_inv_snoc)

lemma good_fail [simp]: "st_epoch s0 = st_epoch s \<Longrightarrow> good_outcome l ops n s (fail s0 m f detail)"
  by (auto simp: good_outcome_def fail_def Let_def result_def)

lemma good_buffer:
  assumes "stream_inv l ops n s" "status s = Buffering" "deltas_of n (st_epoch s) op = [d]" "buffer_effect l n s d out"
  shows "good_outcome l (ops @ [op]) n s out"
proof -
  have sub: "subseq (buffered s) (received n (st_epoch s) ops)" using assms(1,2) by (simp add: stream_inv_def)
  have "subseq (buffered s @ [d]) (received n (st_epoch s) (ops @ [op]))"
    using list_emb_append_mono[OF sub, of "[d]" "[d]"] assms(3) by (simp add: received_snoc)
  then show ?thesis
    using assms(2,4) stream_inv_snoc[OF assms(1)] unfolding buffer_effect_def good_outcome_def
    by (auto simp: stream_inv_def)
qed

lemma good_delta:
  assumes "stream_inv l ops n s" "status s \<noteq> Inactive" "deltas_of n (st_epoch s) op = [d]" "delta_effect l n s sd ds d out"
    and "seeded n (st_epoch s) ops sd" "subseq ds (received n (st_epoch s) ops)"
  shows "good_outcome l (ops @ [op]) n s out"
proof -
  have "subseq (ds @ [d]) (received n (st_epoch s) (ops @ [op]))"
    using list_emb_append_mono[OF assms(6), of "[d]" "[d]"] assms(3) by (simp add: received_snoc)
  then have live: "stream_inv l (ops @ [op]) n s'" "status s' = Live"
    if "synced l n s' sd (ds @ [d])" "live s'" "st_epoch s' = st_epoch s" for s'
    using that seeded_snoc[OF assms(5)] by (auto simp: stream_inv_def live_def)
  obtain s' m' r where out: "out = ((s', m'), Inr r)" and cases: "s' = s \<and> \<not> accepted r \<and> rs_snapshot r = None \<or>
      (\<exists>f detail s0. s' = failed f detail s0 \<and> st_epoch s0 = st_epoch s \<and> \<not> accepted r \<and> rs_snapshot r = None) \<or>
      synced l n s' sd (ds @ [d]) \<and> live s' \<and> st_epoch s' = st_epoch s \<and> accepted r \<and>
        (\<exists>sn. rs_snapshot r = Some sn \<and> Some (sn_book sn) = book_revision s')"
    using assms(4) unfolding delta_effect_def by blast
  from cases show ?thesis
  proof (elim disjE conjE exE)
    assume "s' = s" "rs_snapshot r = None"
    then show ?thesis using good_unchanged[OF assms(1,2)] out by simp
  next
    fix f detail s0
    assume "s' = failed f detail s0" "st_epoch s0 = st_epoch s" "rs_snapshot r = None"
    then show ?thesis using out by (simp add: good_outcome_def)
  next
    fix sn
    assume "synced l n s' sd (ds @ [d])" "live s'" "st_epoch s' = st_epoch s" "rs_snapshot r = Some sn" "Some (sn_book sn) = book_revision s'"
    then show ?thesis using out live[of s'] by (auto simp: good_outcome_def)
  qed
qed

lemma good_install:
  assumes "stream_inv l ops n s" "status s = Buffering" "install_effect l n s sd out" "seeded n (st_epoch s) (ops @ [op]) sd"
  shows "good_outcome l (ops @ [op]) n s out"
proof -
  have sub: "subseq (buffered s) (received n (st_epoch s) ops)" using assms(1,2) by (simp add: stream_inv_def)
  obtain s' m' r where out: "out = ((s', m'), Inr r)" and cases: "(\<exists>f detail. s' = failed f detail s \<and> \<not> accepted r \<and> rs_snapshot r = None) \<or>
      (\<exists>ds. subseq ds (buffered s) \<and> synced l n s' sd ds \<and> st_epoch s' = st_epoch s \<and> accepted r \<and>
         (if ds = [] then status s' = AwaitingBridge \<and> whole_view s' \<and> rs_snapshot r = None
          else live s' \<and> (\<exists>sn. rs_snapshot r = Some sn \<and> Some (sn_book sn) = book_revision s')))"
    using assms(3) unfolding install_effect_def by blast
  from cases show ?thesis
  proof (elim disjE conjE exE)
    fix f detail
    assume "s' = failed f detail s" "rs_snapshot r = None"
    then show ?thesis using out by (simp add: good_outcome_def)
  next
    fix ds
    assume ds: "subseq ds (buffered s)" "synced l n s' sd ds" "st_epoch s' = st_epoch s"
      "if ds = [] then status s' = AwaitingBridge \<and> whole_view s' \<and> rs_snapshot r = None
       else live s' \<and> (\<exists>sn. rs_snapshot r = Some sn \<and> Some (sn_book sn) = book_revision s')"
    have "subseq ds (received n (st_epoch s) (ops @ [op]))"
      using subseq_order.order_trans[OF ds(1) sub] by (simp add: received_snoc subseq_more)
    then show ?thesis
      using ds out assms(4) by (cases "ds = []") (auto simp: good_outcome_def stream_inv_def live_def)
  qed
qed

text \<open>The dispatch on the state of the stream.\<close>

lemma good_status:
  assumes inv: "stream_inv l ops n s" "1 \<le> st_epoch s" "1 \<le> max_levels_per_side l"
    and d: "valid_delta d" "dl_identity d = n" "deltas_of n (st_epoch s) op = [d]"
  shows "status s = Buffering \<Longrightarrow> good_outcome l (ops @ [op]) n s (buffer_delta l s m d)"
    "status s = AwaitingBridge \<Longrightarrow> good_outcome l (ops @ [op]) n s (apply_bridge l n s m d)"
    "status s = Live \<Longrightarrow> good_outcome l (ops @ [op]) n s (apply_live l n s m d)"
proof -
  assume st: "status s = Buffering"
  then have "buffering l n s" using inv(1) by (simp add: stream_inv_def)
  then show "good_outcome l (ops @ [op]) n s (buffer_delta l s m d)"
    using good_buffer[OF inv(1) st d(3)] buffer_delta_effect d(1,2) by blast
next
  assume st: "status s = AwaitingBridge"
  then obtain sd where sd: "seeded n (st_epoch s) ops sd" "synced l n s sd []" using inv(1) by (auto simp: stream_inv_def)
  then have "delta_effect l n s sd [] d (apply_bridge l n s m d)" using apply_bridge_effect[OF sd(2) inv(2) _ d(1,2)] inv(3) by simp
  then show "good_outcome l (ops @ [op]) n s (apply_bridge l n s m d)"
    using good_delta[OF inv(1) _ d(3)] sd(1) st by simp
next
  assume st: "status s = Live"
  then obtain sd ds where sd: "seeded n (st_epoch s) ops sd" "ds \<noteq> []" "synced l n s sd ds" "live s" "subseq ds (received n (st_epoch s) ops)"
    using inv(1) by (auto simp: stream_inv_def)
  have "delta_effect l n s sd ds d (apply_live l n s m d)" using apply_live_effect[OF sd(3,2,4) inv(2) _ d(1,2)] inv(3) by simp
  then show "good_outcome l (ops @ [op]) n s (apply_live l n s m d)"
    using good_delta[OF inv(1) _ d(3)] sd(1,5) st by simp
qed

text \<open>A call that keeps the invariant, raises only its documented errors and publishes only live books.\<close>

definition good_call ::
  "limits \<Rightarrow> 'f::{linorder,zero} op list \<Rightarrow> identity \<Rightarrow> ('a res) \<Rightarrow> 'f engine \<times> 'f apply_result res \<Rightarrow> bool"
where
  "good_call l ops i event out \<longleftrightarrow>
     engine_inv l ops (fst out) \<and>
     (\<forall>x. snd out = Inl x \<longrightarrow> x = StateError \<or> x = ValueError \<or> event = Inl x) \<and>
     (\<forall>r sn. snd out = Inr r \<and> rs_snapshot r = Some sn \<longrightarrow>
        (\<exists>n s. normalize_identity i = Inr n \<and> map_of (streams (fst out)) n = Some s \<and> status s = Live \<and>
           Some (sn_book sn) = book_revision s))"

lemma good_outcome_call:
  assumes inv: "engine_inv l ops e" and act: "active_state e i = Inr (n, s)"
    and out: "good_outcome l (ops @ [op]) n s out" and e': "replaces e n (fst (fst out)) e'"
  shows "good_call l (ops @ [op]) i event (e', snd out)"
proof -
  obtain s' m' r where o: "out = ((s', m'), Inr r)" "stream_inv l (ops @ [op]) n s'" "st_epoch s' = st_epoch s" "status s' \<noteq> Inactive"
    "\<forall>sn. rs_snapshot r = Some sn \<longrightarrow> status s' = Live \<and> Some (sn_book sn) = book_revision s'"
    using out unfolding good_outcome_def by blast
  note a = active_stateD[OF act]
  have "status s \<noteq> Inactive" using book_engine_invD(2)[OF inv a(2)] a(3) by simp
  then have "engine_inv l (ops @ [op]) e'"
    using replaces_inv[OF inv a(2) _ o(2,3) _ stream_inv_snoc, of e'] e' o(1,4) by simp
  moreover have "map_of (streams e') n = Some s'" using e' o(1) by (simp add: replaces_def)
  ultimately show ?thesis using o(1,5) a(1) by (auto simp: good_call_def)
qed

lemma good_call_error:
  "engine_inv l ops e \<Longrightarrow> x = StateError \<or> x = ValueError \<or> event = Inl x \<Longrightarrow> good_call l (ops @ [op]) i event (e, Inl x)"
  "engine_inv l ops e \<Longrightarrow> x = StateError \<or> x = ValueError \<or> event = Inl x \<Longrightarrow> good_call l (ops @ [op]) i event (count name e, Inl x)"
  by (simp_all add: good_call_def engine_inv_snoc)

lemma normalize_error: "normalize_identity i = Inl x \<Longrightarrow> x = ValueError"
  by (cases i) (auto simp: bindr_eq_Inl required_text_def required_int_def Let_def split: if_splits)

lemma active_state_error: "active_state e i = Inl x \<Longrightarrow> x = StateError \<or> x = ValueError"
  using normalize_error by (auto simp: active_state_def bindr_eq_Inl split: option.splits if_splits)

lemma engine_inv_stream:
  assumes "engine_inv l ops e" "active_state e i = Inr (n, s)"
  shows "stream_inv l ops n s" "1 \<le> st_epoch s" "status s \<noteq> Inactive" "1 \<le> max_levels_per_side l" "engine_limits e = l"
  using book_engine_invD[OF assms(1) active_stateD(2)[OF assms(2)]] engine_inv_limits[OF assms(1)] active_stateD(3)[OF assms(2)] by simp_all

lemma apply_delta_good:
  assumes inv: "engine_inv l ops e" and ev: "valid_op (Delta i event epoch)"
  shows "good_call l (ops @ [Delta i event epoch]) i event (apply_delta i event epoch e)"
proof (cases "active_state e i")
  case (Inl x)
  then have "apply_delta i event epoch e = (e, Inl x)" by (simp add: apply_delta_def)
  then show ?thesis using good_call_error(1)[OF inv] active_state_error[OF Inl] by metis
next
  case (Inr ns)
  then obtain n s where act: "active_state e i = Inr (n, s)" by (cases ns) auto
  note st = engine_inv_stream[OF inv act]
  let ?op = "Delta i event epoch"
  have call: "good_outcome l (ops @ [?op]) n s (sm, r) \<Longrightarrow> good_call l (ops @ [?op]) i event (put_stream n sm e, r)" for sm r
    using good_outcome_call[OF inv act, of ?op "(sm, r)" "put_stream n sm e" event] by simp
  have moved: "good_outcome l (ops @ [?op]) n s (sm, r) \<Longrightarrow> good_call l (ops @ [?op]) i event (to_end n (put_stream n sm e), r)" for sm r
    using good_outcome_call[OF inv act, of ?op "(sm, r)" "to_end n (put_stream n sm e)" event] by simp
  have good: "good_outcome l (ops @ [?op]) n s (sm, r) \<Longrightarrow>
      good_call l (ops @ [?op]) i event ((case r of Inl _ \<Rightarrow> (\<lambda>e. e) | Inr _ \<Rightarrow> to_end n) (put_stream n sm e), r)" for sm r
    using call moved by (cases r) simp_all
  have stale: "good_outcome l (ops @ [?op]) n s (stale_epoch_result s m)" for m
    using good_unchanged[OF st(1,3)] by (simp add: stale_epoch_result_def result_def)
  show ?thesis
  proof (cases "required_int 1 epoch")
    case (Inl x)
    then have "apply_delta i event epoch e = (e, Inl ValueError)"
      using act by (auto simp: apply_delta_def required_int_def split: if_splits)
    then show ?thesis by (simp add: good_call_error(1)[OF inv])
  next
    case ep: (Inr ep)
    show ?thesis
    proof (cases "ep = st_epoch s")
      case False
      then show ?thesis using act ep call[of "fst (stale_epoch_result s (metrics e))" "snd (stale_epoch_result s (metrics e))"] stale
        by (simp add: apply_delta_def case_prod_unfold)
    next
      case True
      show ?thesis
      proof (cases event)
        case (Inl x)
        then show ?thesis using act ep True by (simp add: apply_delta_def good_call_error(2)[OF inv])
      next
        case d: (Inr d)
        show ?thesis
        proof (cases "dl_identity d = n")
          case False
          then show ?thesis using act ep True d by (simp add: apply_delta_def good_call_error(2)[OF inv])
        next
          case id: True
          have val: "valid_delta d" using ev d by simp
          have of: "deltas_of n (st_epoch s) ?op = [d]" using d True ep active_stateD(1)[OF act] by simp
          note good_st = good_status[OF st(1,2,4) val id of]
          let ?m = "bump ''deltas_received'' (metrics e)"
          show ?thesis
          proof (cases "max_updates_per_delta l < level_update_count d")
            case True
            then show ?thesis
              using act ep d id \<open>ep = st_epoch s\<close> st(5)
                call[of "fst (fail s ?m Capacity ''delta level update limit exceeded'')" "snd (fail s ?m Capacity ''delta level update limit exceeded'')"]
              by (simp add: apply_delta_def case_prod_unfold Let_def)
          next
            case False
            let ?r = "Inr (result s False ResyncNeeded (failure_detail s) (st_failure s) None)"
            have eq: "apply_delta i event epoch e =
                (let finish_moved = (\<lambda>(sm, r). ((case r of Inl _ \<Rightarrow> (\<lambda>e. e) | Inr _ \<Rightarrow> to_end n) (put_stream n sm e), r)) in
                 case status s of
                   ResyncRequired \<Rightarrow> (put_stream n (s, ?m) e, ?r)
                 | Buffering \<Rightarrow> finish_moved (buffer_delta l s ?m d)
                 | AwaitingBridge \<Rightarrow> finish_moved (apply_bridge l n s ?m d)
                 | Live \<Rightarrow> finish_moved (apply_live l n s ?m d)
                 | Inactive \<Rightarrow> (put_stream n (s, ?m) e, Inl StateError))"
              using act ep d id \<open>ep = st_epoch s\<close> st(5) False by (cases "status s") (simp_all add: apply_delta_def Let_def)
            have resync: "good_outcome l (ops @ [?op]) n s ((s, ?m), ?r)" using good_unchanged[OF st(1,3)] by (simp add: result_def)
            show ?thesis
              unfolding eq Let_def
              using good_st[of ?m] good[of "fst (buffer_delta l s ?m d)" "snd (buffer_delta l s ?m d)"]
                good[of "fst (apply_bridge l n s ?m d)" "snd (apply_bridge l n s ?m d)"]
                good[of "fst (apply_live l n s ?m d)" "snd (apply_live l n s ?m d)"] call[OF resync] st(3)
              by (cases "status s") (simp_all add: case_prod_unfold)
          qed
        qed
      qed
    qed
  qed
qed

lemma install_snapshot_good:
  assumes inv: "engine_inv l ops e" and ev: "valid_op (Depth i event epoch)"
  shows "good_call l (ops @ [Depth i event epoch]) i event (install_snapshot i event epoch e)"
proof (cases "active_state e i")
  case (Inl x)
  then have "install_snapshot i event epoch e = (e, Inl x)" by (simp add: install_snapshot_def)
  then show ?thesis using good_call_error(1)[OF inv] active_state_error[OF Inl] by metis
next
  case (Inr ns)
  then obtain n s where act: "active_state e i = Inr (n, s)" by (cases ns) auto
  note st = engine_inv_stream[OF inv act]
  let ?op = "Depth i event epoch"
  have call: "good_outcome l (ops @ [?op]) n s (sm, r) \<Longrightarrow> good_call l (ops @ [?op]) i event (put_stream n sm e, r)" for sm r
    using good_outcome_call[OF inv act, of ?op "(sm, r)" "put_stream n sm e" event] by simp
  have stale: "good_outcome l (ops @ [?op]) n s (stale_epoch_result s m)" for m
    using good_unchanged[OF st(1,3)] by (simp add: stale_epoch_result_def result_def)
  have resync: "good_outcome l (ops @ [?op]) n s ((s, m), Inr (result s False ResyncNeeded why f None))" for m why f
    using good_unchanged[OF st(1,3)] by (simp add: result_def)
  show ?thesis
  proof (cases "required_int 1 epoch")
    case (Inl x)
    then have "install_snapshot i event epoch e = (e, Inl ValueError)"
      using act by (auto simp: install_snapshot_def required_int_def split: if_splits)
    then show ?thesis by (simp add: good_call_error(1)[OF inv])
  next
    case ep: (Inr ep)
    show ?thesis
    proof (cases "ep = st_epoch s \<and> status s = Buffering")
      case False
      show ?thesis
      proof (cases "ep = st_epoch s")
        case True
        then have "install_snapshot i event epoch e =
            (if status s = ResyncRequired
             then (put_stream n (s, metrics e) e, Inr (result s False ResyncNeeded (failure_detail s) (st_failure s) None))
             else (e, Inl StateError))"
          using act ep False by (simp add: install_snapshot_def)
        then show ?thesis using call[OF resync] by (simp add: good_call_error(1)[OF inv])
      next
        case False
        then show ?thesis
          using act ep call[of "fst (stale_epoch_result s (metrics e))" "snd (stale_epoch_result s (metrics e))"] stale
          by (simp add: install_snapshot_def case_prod_unfold)
      qed
    next
      case True
      show ?thesis
      proof (cases event)
        case (Inl x)
        then show ?thesis using act ep True by (simp add: install_snapshot_def good_call_error(2)[OF inv])
      next
        case sd: (Inr sd)
        show ?thesis
        proof (cases "sd_identity sd = n")
          case False
          then show ?thesis using act ep True sd by (simp add: install_snapshot_def good_call_error(2)[OF inv])
        next
          case id: True
          let ?out = "install_seed l n s (bump ''snapshots_received'' (metrics e)) sd"
          have "valid_seed sd" "buffering l n s" using ev sd st(1) True by (simp_all add: stream_inv_def)
          then have "install_effect l n s sd ?out" using install_seed_effect[OF _ st(2) _ id] by blast
          moreover have "seeded n (st_epoch s) (ops @ [?op]) sd"
            unfolding seeded_def using active_stateD(1)[OF act] sd True ep by (intro exI[of _ i]) simp
          ultimately have "good_outcome l (ops @ [?op]) n s ?out" using good_install[OF st(1)] True by blast
          then show ?thesis using act ep True sd id st(5) call[of "fst ?out" "snd ?out"]
            by (simp add: install_snapshot_def case_prod_unfold)
        qed
      qed
    qed
  qed
qed

text \<open>A new epoch: the stream starts again, empty.\<close>

lemma fresh_inv:
  assumes "cleared s" "status s = Buffering \<or> status s = Inactive" "1 \<le> max_buffered_deltas l" "1 \<le> max_buffered_level_updates l"
  shows "stream_inv l ops n s"
  using assms cleared_buffering[of s l n] by (auto simp: stream_inv_def cleared_def)

lemma book_engine_invI:
  assumes inv: "engine_inv l ops e" and e': "engine_limits e' = l" "next_epoch e' = next_epoch e + 1" "od_wf (streams e')"
    "int (length (streams e')) \<le> max_streams l"
    and s: "map_of (streams e') n = Some s" "normalize_identity n = Inr n" "status s = Inactive \<longleftrightarrow> n \<notin> active e'"
      "st_epoch s = next_epoch e'" "cleared s" "status s = Buffering \<or> status s = Inactive"
    and others: "\<And>k s'. k \<noteq> n \<Longrightarrow> map_of (streams e') k = Some s' \<Longrightarrow> map_of (streams e) k = Some s'"
      "\<And>k. k \<noteq> n \<Longrightarrow> k \<in> active e' \<longleftrightarrow> k \<in> active e" "active e' \<subseteq> dom (map_of (streams e'))"
  shows "engine_inv l (ops @ [op]) e'"
proof -
  note lim = engine_inv_limits[OF inv]
  have "normalize_identity k = Inr k \<and> (status s' = Inactive \<longleftrightarrow> k \<notin> active e') \<and> 1 \<le> st_epoch s' \<and>
      st_epoch s' \<le> next_epoch e' \<and> stream_inv l (ops @ [op]) k s'" if k: "map_of (streams e') k = Some s'" for k s'
  proof (cases "k = n")
    case True
    then have "s' = s" using k s(1) by simp
    then show ?thesis using s True e'(2) lim(6) fresh_inv[OF s(5,6) lim(4,5)] by simp
  next
    case False
    note old = book_engine_invD[OF inv others(1)[OF False k]]
    show ?thesis using old(1-4) others(2)[OF False] e'(2) stream_inv_snoc[OF old(5)] by simp
  qed
  then show ?thesis unfolding engine_inv_def using e' lim others(3) by simp
qed

lemma begin_sync_good:
  assumes inv: "engine_inv l ops e"
  shows "engine_inv l (ops @ [BeginSync i]) (fst (begin_sync i e))"
proof (cases "active_state e i")
  case (Inl x)
  then show ?thesis by (simp add: begin_sync_def engine_inv_snoc[OF inv])
next
  case (Inr ns)
  then obtain n s where act: "active_state e i = Inr (n, s)" by (cases ns) auto
  note a = active_stateD[OF act] and lim = engine_inv_limits[OF inv]
  have "normalize_identity n = Inr n" using book_engine_invD(1)[OF inv a(2)] .
  note n = this
  let ?s = "reset (next_epoch e + 1) Buffering s"
  let ?e = "to_end n (e\<lparr>next_epoch := next_epoch e + 1, streams := AList.update n ?s (streams e)\<rparr>)"
  have "engine_inv l (ops @ [BeginSync i]) ?e"
    by (rule book_engine_invI[OF inv, where n = n and s = ?s])
      (use a lim n in \<open>auto simp: to_end_def map_of_update length_update_in split: if_splits\<close>)
  then show ?thesis using act by (simp add: begin_sync_def allocate_epoch_def)
qed

lemma deactivate_good:
  assumes inv: "engine_inv l ops e"
  shows "engine_inv l (ops @ [Deactivate i]) (fst (deactivate_stream i e))"
proof (cases "normalize_identity i")
  case (Inl x)
  then show ?thesis by (simp add: deactivate_stream_def engine_inv_snoc[OF inv])
next
  case (Inr n)
  note lim = engine_inv_limits[OF inv]
  show ?thesis
  proof (cases "n \<in> active e")
    case False
    then show ?thesis using Inr by (simp add: deactivate_stream_def engine_inv_snoc[OF inv])
  next
    case True
    then obtain s where s: "map_of (streams e) n = Some s" using lim(9) by auto
    let ?s = "reset (next_epoch e + 1) Inactive s"
    let ?e = "e\<lparr>active := active e - {n}, next_epoch := next_epoch e + 1, streams := AList.update n ?s (streams e)\<rparr>"
    have "engine_inv l (ops @ [Deactivate i]) ?e"
      by (rule book_engine_invI[OF inv, where n = n and s = ?s])
        (use s lim book_engine_invD(1)[OF inv s] in \<open>auto simp: map_of_update length_update_in split: if_splits\<close>)
    then show ?thesis using Inr True s by (simp add: deactivate_stream_def allocate_epoch_def)
  qed
qed

lemma reserve_capacity_inv:
  assumes inv: "engine_inv l ops e" and e1: "reserve_capacity n e = Inr e1"
  shows "engine_inv l ops e1" "active e1 = active e" "map_of (streams e1) n \<noteq> None \<or> int (length (streams e1)) < max_streams l"
proof -
  note lim = engine_inv_limits[OF inv]
  show "engine_inv l ops e1" "active e1 = active e" "map_of (streams e1) n \<noteq> None \<or> int (length (streams e1)) < max_streams l"
  proof (atomize (full), cases "map_of (streams e) n \<noteq> None \<or> int (length (streams e)) < max_streams (engine_limits e)")
    case True
    then have "e1 = e" using e1 by (simp add: reserve_capacity_def)
    then show "engine_inv l ops e1 \<and> active e1 = active e \<and> (map_of (streams e1) n \<noteq> None \<or> int (length (streams e1)) < max_streams l)"
      using True inv lim(1) by simp
  next
    case False
    then have "(case List.find (\<lambda>k. k \<notin> active e) (map fst (streams e)) of
          None \<Rightarrow> Inl StateError
        | Some k \<Rightarrow> Inr (count ''streams_evicted'' (e\<lparr>streams := AList.delete k (streams e)\<rparr>))) = Inr e1"
      using e1 unfolding reserve_capacity_def by (simp only: if_False)
    then obtain k where k: "List.find (\<lambda>k. k \<notin> active e) (map fst (streams e)) = Some k"
      "e1 = count ''streams_evicted'' (e\<lparr>streams := AList.delete k (streams e)\<rparr>)"
      by (auto split: option.splits)
    then have inact: "k \<notin> active e" "k \<in> fst ` set (streams e)" by (auto simp: find_Some_iff)
    then obtain s where "map_of (streams e) k = Some s" by (metis map_of_eq_None_iff not_Some_eq)
    then have len: "length (streams e) = Suc (length (AList.delete k (streams e)))" using length_delete_in[OF lim(7)] by blast
    let ?e = "e\<lparr>streams := AList.delete k (streams e)\<rparr>"
    have "normalize_identity m = Inr m \<and> (status s' = Inactive \<longleftrightarrow> m \<notin> active ?e) \<and> 1 \<le> st_epoch s' \<and>
        st_epoch s' \<le> next_epoch ?e \<and> stream_inv l ops m s'" if "map_of (streams ?e) m = Some s'" for m s'
    proof -
      have "map_of (streams e) m = Some s'" using that by (simp add: map_of_delete split: if_splits)
      then show ?thesis using book_engine_invD[OF inv] by simp
    qed
    moreover have "active ?e \<subseteq> dom (map_of (streams ?e))" using lim(9) inact(1) by (auto simp: map_of_delete)
    ultimately have "engine_inv l ops ?e" unfolding engine_inv_def using lim len by simp
    then show "engine_inv l ops e1 \<and> active e1 = active e \<and> (map_of (streams e1) n \<noteq> None \<or> int (length (streams e1)) < max_streams l)"
      using k(2) len lim(8) by (simp add: count_def engine_inv_def)
  qed
qed

lemma activate_good:
  fixes e :: "'f::{linorder,zero} engine"
  assumes inv: "engine_inv l ops e"
  shows "engine_inv l (ops @ [Activate i]) (fst (activate_stream i e))"
proof (cases "normalize_identity i")
  case (Inl x)
  then show ?thesis by (simp add: activate_stream_def engine_inv_snoc[OF inv])
next
  case n: (Inr n)
  show ?thesis
  proof (cases "n \<in> active e")
    case True
    then show ?thesis using n by (simp add: activate_stream_def engine_inv_snoc[OF inv])
  next
    case inact: False
    show ?thesis
    proof (cases "reserve_capacity n e")
      case (Inl x)
      then show ?thesis using n inact by (simp add: activate_stream_def engine_inv_snoc[OF inv])
    next
      case (Inr e1)
      note r = reserve_capacity_inv[OF inv Inr] and lim = engine_inv_limits[OF reserve_capacity_inv(1)[OF inv Inr]]
      let ?s = "new_stream (next_epoch e1 + 1) Buffering :: 'f stream"
      let ?e = "to_end n (e1\<lparr>next_epoch := next_epoch e1 + 1, streams := AList.update n ?s (streams e1), active := insert n (active e1)\<rparr>)"
      have s: "cleared ?s" "status ?s = Buffering" "st_epoch ?s = next_epoch e1 + 1"
        by (simp_all add: cleared_def new_stream_def)
      have len: "int (length (AList.update n ?s (streams e1))) \<le> max_streams l"
        using r(3) lim(8) by (cases "map_of (streams e1) n") (simp_all add: length_update_in length_update_notin)
      have "engine_inv l (ops @ [Activate i]) ?e"
        by (rule book_engine_invI[OF r(1), where n = n and s = ?s])
          (use s len lim normalize_identity_idem[OF n] in \<open>auto simp: to_end_def map_of_update split: if_splits\<close>)
      moreover have "fst (activate_stream i e) = count ''streams_activated'' ?e"
        using n inact Inr
        by (simp add: activate_stream_def allocate_epoch_def reset_new_stream split: option.split)
      ultimately show ?thesis by simp
    qed
  qed
qed

text \<open>A reader completes caches only.\<close>

lemma read_stream_good:
  assumes inv: "engine_inv l ops e"
  shows "engine_inv l (ops @ [Read n side k]) (read_stream n side k e)"
proof (cases "map_of (streams e) n")
  case None
  then show ?thesis by (simp add: read_stream_def engine_inv_snoc[OF inv])
next
  case s: (Some s)
  show ?thesis
  proof (cases "book_revision s")
    case None
    then show ?thesis using s by (simp add: read_stream_def engine_inv_snoc[OF inv])
  next
    case r: (Some r)
    let ?s = "s\<lparr>book_revision := Some (read_at side k r)\<rparr>"
    have syn: "synced l n ?s sd ds" if "synced l n s sd ds" for sd ds
    proof -
      have h: "holds Bids r (map_of (bids s))" "holds Asks r (map_of (asks s))" "depth_ok r"
        using that r by (auto simp: synced_def shows_stream_def)
      then have "shows_stream ?s"
        using read_at_holds[OF shows_booksI[OF h(1,2)]] read_at_same[of side k r] by (auto simp: shows_stream_def depth_ok_def)
      then show ?thesis using that by (simp add: synced_def window_def)
    qed
    have "live ?s = live s" by (simp add: live_def sound_book_def)
    then have "stream_inv l ops n ?s"
      using book_engine_invD(5)[OF inv s] syn r by (auto simp: stream_inv_def buffering_def cleared_def whole_view_def split: book_state.splits)
    then have "stream_inv l (ops @ [Read n side k]) n ?s" by (rule stream_inv_snoc)
    moreover have "replaces e n ?s (e\<lparr>streams := AList.update n ?s (streams e)\<rparr>)"
      by (auto simp: replaces_def map_of_update length_update_in)
    ultimately show ?thesis
      using replaces_inv[OF inv s _ _ _ _ stream_inv_snoc] s r by (simp add: read_stream_def)
  qed
qed

text \<open>The invariant holds on every run.\<close>

lemma reachable_book_engine_inv: "reachable l ops e \<Longrightarrow> engine_inv l ops e"
proof (induction rule: reachable.induct)
  case (start e)
  then show ?case by (auto simp: new_engine_def bindr_eq_Inr engine_inv_def)
next
  case (step ops e op)
  show ?case
  proof (cases op)
    case (Delta i d epoch)
    then show ?thesis using apply_delta_good[OF step.IH] step.hyps(2) by (simp add: good_call_def)
  next
    case (Depth i sd epoch)
    then show ?thesis using install_snapshot_good[OF step.IH] step.hyps(2) by (simp add: good_call_def)
  qed (use activate_good deactivate_good begin_sync_good read_stream_good step.IH in auto)
qed

section \<open>Properties\<close>

lemma live_stream:
  assumes "reachable l ops e" "map_of (streams e) n = Some s" "status s = Live"
  obtains sd ds where "seeded n (st_epoch s) ops sd" "ds \<noteq> []" "synced l n s sd ds" "live s" "subseq ds (received n (st_epoch s) ops)"
  using book_engine_invD(5)[OF reachable_book_engine_inv[OF assms(1)] assms(2)] assms(3) by (auto simp: stream_inv_def)

text \<open>C4: The local book is the exchange's book. On every run of the engine, a live stream holds on
  each side exactly the part of the exchange's book that lies inside the trimmed boundary, where
  the exchange's book is one depth snapshot received under the stream's epoch with a sequence of
  received deltas applied in full; the deltas are received ones of the same stream and epoch, in
  order, the first bridges the snapshot and each links to the one before.\<close>

theorem order_book_refines:
  assumes "reachable l ops e" "map_of (streams e) n = Some s" "status s = Live"
  shows "\<exists>sd ds. seeded n (st_epoch s) ops sd \<and> subseq ds (received n (st_epoch s) ops) \<and> ds \<noteq> [] \<and>
    bridged (sd_last_update_id sd) ds \<and> last_update_id s = Some (dl_final_update_id (last ds)) \<and>
    map_of (bids s) = exchange_book Bids sd ds |` known Bids (trimmed_bid_boundary s) \<and>
    map_of (asks s) = exchange_book Asks sd ds |` known Asks (trimmed_ask_boundary s)"
proof -
  obtain sd ds where s: "seeded n (st_epoch s) ops sd" "ds \<noteq> []" "synced l n s sd ds" "live s" "subseq ds (received n (st_epoch s) ops)"
    using live_stream[OF assms] .
  then show ?thesis
    by (intro exI[of _ sd] exI[of _ ds]) (simp add: synced_def window_def side_window_def final_id_def)
qed

lemma sorted_last_max: "strictly_sorted ps \<Longrightarrow> p \<in> set ps \<Longrightarrow> p \<le> last ps"
  by (induction ps rule: rev_induct) (auto simp: strictly_sorted_append)

lemma sorted_hd_min: "strictly_sorted ps \<Longrightarrow> p \<in> set ps \<Longrightarrow> hd ps \<le> p"
  by (cases ps) auto

text \<open>C5: Trimming never changes the top of the book. In every live stream the best local bid and ask
  are the best bid and ask of the exchange's book, with their quantities, and the book is not
  crossed.\<close>

theorem best_prices_exact:
  assumes "reachable l ops e" "map_of (streams e) n = Some s" "status s = Live"
  shows "\<exists>sd ds. seeded n (st_epoch s) ops sd \<and> subseq ds (received n (st_epoch s) ops) \<and> bridged (sd_last_update_id sd) ds \<and>
    (let bid = last (bid_prices s); ask = hd (ask_prices s) in
     bid < ask \<and> bid \<in> dom (exchange_book Bids sd ds) \<and> ask \<in> dom (exchange_book Asks sd ds) \<and>
     map_of (bids s) bid = exchange_book Bids sd ds bid \<and> map_of (asks s) ask = exchange_book Asks sd ds ask \<and>
     (\<forall>p \<in> dom (exchange_book Bids sd ds). p \<le> bid) \<and> (\<forall>p \<in> dom (exchange_book Asks sd ds). ask \<le> p))"
proof -
  obtain sd ds where s: "seeded n (st_epoch s) ops sd" "ds \<noteq> []" "synced l n s sd ds" "live s" "subseq ds (received n (st_epoch s) ops)"
    using live_stream[OF assms] .
  let ?B = "exchange_book Bids sd ds" and ?A = "exchange_book Asks sd ds"
  have w: "side_window Bids (bids s, bid_prices s) (trimmed_bid_boundary s) ?B" "side_window Asks (asks s, ask_prices s) (trimmed_ask_boundary s) ?A"
    and sound: "sound_book s" and b: "bridged (sd_last_update_id sd) ds" using s by (simp_all add: synced_def window_def live_def)
  have ok: "side_ok (bids s, bid_prices s)" "side_ok (asks s, ask_prices s)"
    and maps: "map_of (bids s) = ?B |` known Bids (trimmed_bid_boundary s)" "map_of (asks s) = ?A |` known Asks (trimmed_ask_boundary s)"
    using w by (simp_all add: side_window_def)
  note known = side_window_prices[OF w(1)] side_window_prices[OF w(2)]
  note doms = map_of_dom_prices[OF ok(1)] map_of_dom_prices[OF ok(2)]
  have ne: "bid_prices s \<noteq> []" "ask_prices s \<noteq> []"
    using sound side_ok_length[OF ok(1)] side_ok_length[OF ok(2)] by (auto simp: sound_book_def)
  have bid: "last (bid_prices s) \<in> set (bid_prices s)" and ask: "hd (ask_prices s) \<in> set (ask_prices s)" using ne by simp_all
  have "p \<le> last (bid_prices s)" if "p \<in> dom ?B" for p
  proof (cases "p \<in> known Bids (trimmed_bid_boundary s)")
    case True
    then have "p \<in> set (bid_prices s)" using that doms(1) maps(1) by (metis Int_iff dom_restrict)
    then show ?thesis using sorted_last_max ok(1) by auto
  next
    case False
    moreover have "last (bid_prices s) \<in> known Bids (trimmed_bid_boundary s)" using known(1) bid by blast
    ultimately show ?thesis by (cases "trimmed_bid_boundary s") auto
  qed
  moreover have "hd (ask_prices s) \<le> p" if "p \<in> dom ?A" for p
  proof (cases "p \<in> known Asks (trimmed_ask_boundary s)")
    case True
    then have "p \<in> set (ask_prices s)" using that doms(2) maps(2) by (metis Int_iff dom_restrict)
    then show ?thesis using sorted_hd_min ok(2) by auto
  next
    case False
    moreover have "hd (ask_prices s) \<in> known Asks (trimmed_ask_boundary s)" using known(2) ask by blast
    ultimately show ?thesis by (cases "trimmed_ask_boundary s") auto
  qed
  moreover have "last (bid_prices s) \<in> dom ?B" "hd (ask_prices s) \<in> dom ?A" using bid ask doms maps by (metis Int_iff dom_restrict)+
  moreover have "map_of (bids s) (last (bid_prices s)) = ?B (last (bid_prices s))" "map_of (asks s) (hd (ask_prices s)) = ?A (hd (ask_prices s))"
    using maps known bid ask by auto
  ultimately show ?thesis using s(1,5) b sound
    by (intro exI[of _ sd] exI[of _ ds]) (simp add: Let_def sound_book_def)
qed

lemma linked_covers:
  "linked i ds \<Longrightarrow> \<forall>d \<in> set ds. is_spot (dl_identity d) \<Longrightarrow> i < k \<Longrightarrow> k \<le> final_id i ds \<Longrightarrow>
   \<exists>d \<in> set ds. dl_first_update_id d \<le> k \<and> k \<le> dl_final_update_id d"
proof (induction ds arbitrary: i)
  case (Cons d ds)
  show ?case
  proof (cases "k \<le> dl_final_update_id d")
    case True
    then show ?thesis using Cons.prems by (auto simp: link_error_def split: if_splits)
  next
    case False
    moreover have "final_id i (d # ds) = final_id (dl_final_update_id d) ds" by (simp add: final_id_def)
    ultimately show ?thesis using Cons.IH[of "dl_final_update_id d"] Cons.prems by auto
  qed
qed (simp add: final_id_def)

text \<open>C6: No update is missed. On a stream whose events carry ranges of update ids, every id after the
  installed snapshot up to the last applied one lies in the range of some applied delta; on a
  stream whose events name their predecessor, each applied delta names the final id of the one
  applied before.\<close>

theorem no_update_missed:
  assumes "reachable l ops e" "map_of (streams e) n = Some s" "status s = Live"
  shows "\<exists>sd ds last_id. seeded n (st_epoch s) ops sd \<and> subseq ds (received n (st_epoch s) ops) \<and> last_update_id s = Some last_id \<and>
    map_of (bids s) = exchange_book Bids sd ds |` known Bids (trimmed_bid_boundary s) \<and>
    (if is_spot n then \<forall>k. sd_last_update_id sd < k \<and> k \<le> last_id \<longrightarrow>
        (\<exists>d \<in> set ds. dl_first_update_id d \<le> k \<and> k \<le> dl_final_update_id d)
     else \<forall>i. Suc i < length ds \<longrightarrow> dl_previous_final_update_id (ds ! Suc i) = Some (dl_final_update_id (ds ! i)))"
proof -
  obtain sd ds where s: "seeded n (st_epoch s) ops sd" "ds \<noteq> []" "synced l n s sd ds" "live s" "subseq ds (received n (st_epoch s) ops)"
    using live_stream[OF assms] .
  obtain d ds' where ds: "ds = d # ds'" using s(2) by (cases ds) auto
  have ids: "\<forall>x \<in> set ds. dl_identity x = n" and br: "bridges_snapshot d (sd_last_update_id sd)" "linked (dl_final_update_id d) ds'"
    using s(3) ds by (auto simp: synced_def bridged_def)
  have last: "last_update_id s = Some (final_id (dl_final_update_id d) ds')" using s(3) ds by (simp add: synced_def final_id_def)
  have spot: "\<exists>x \<in> set ds. dl_first_update_id x \<le> k \<and> k \<le> dl_final_update_id x"
    if "is_spot n" "sd_last_update_id sd < k" "k \<le> final_id (dl_final_update_id d) ds'" for k
  proof (cases "k \<le> dl_final_update_id d")
    case True
    then show ?thesis using br(1) ids that ds by (auto simp: bridges_snapshot_def Let_def)
  next
    case False
    then show ?thesis using linked_covers[OF br(2), of k] ids that ds by auto
  qed
  have "dl_previous_final_update_id ((x # xs) ! Suc i) = Some (dl_final_update_id ((x # xs) ! i))"
    if "linked (dl_final_update_id x) xs" "\<not> is_spot n" "\<forall>y \<in> set xs. dl_identity y = n" "Suc i < length (x # xs)" for x xs i
    using that
  proof (induction xs arbitrary: x i)
    case (Cons y ys)
    then show ?case by (cases i) (auto simp: link_error_def split: if_splits)
  qed simp
  then show ?thesis
    using s(1,5) last spot br(2) ids ds s(3)
    by (intro exI[of _ sd] exI[of _ ds] exI[of _ "final_id (dl_final_update_id d) ds'"])
      (auto simp: synced_def window_def side_window_def)
qed

text \<open>What readers do to a revision they share.\<close>

definition after_reads :: "(book_side \<times> nat) list \<Rightarrow> ('f::linorder) revision \<Rightarrow> 'f revision" where
  "after_reads reads r = fold (\<lambda>(side, k). read_at side k) reads r"

lemma after_reads_holds: "shows_books r \<Longrightarrow> holds side r m \<Longrightarrow> holds side (after_reads reads r) m"
proof (induction reads arbitrary: r)
  case (Cons x reads)
  obtain side' k where x: "x = (side', k)" by fastforce
  have "shows_books (read_at side' k r)" using Cons.prems(1) read_at_holds[OF Cons.prems(1)] by (meson shows_books_def)
  then show ?case using Cons.IH read_at_holds[OF Cons.prems] by (simp add: after_reads_def x)
qed (simp add: after_reads_def)

lemma synced_view:
  assumes "synced l n s sd ds" "Some r = book_revision s" "listing Bids (map_of (bids s)) lb" "listing Asks (map_of (asks s)) la"
  shows "map_sum id fst (lazy_view Bids depth (after_reads reads r)) = Inr (case depth of None \<Rightarrow> lb | Some d \<Rightarrow> take d lb)"
    "map_sum id fst (lazy_view Asks depth (after_reads reads r)) = Inr (case depth of None \<Rightarrow> la | Some d \<Rightarrow> take d la)"
proof -
  have h: "holds Bids r (map_of (bids s))" "holds Asks r (map_of (asks s))"
    using assms(1,2) by (auto simp: synced_def shows_stream_def)
  note books = shows_booksI[OF h]
  obtain rb where "lazy_view Bids depth (after_reads reads r) = Inr (case depth of None \<Rightarrow> lb | Some d \<Rightarrow> take d lb, rb)"
    using lazy_view_listing[OF after_reads_holds[OF books h(1)] assms(3)] by metis
  moreover obtain ra where "lazy_view Asks depth (after_reads reads r) = Inr (case depth of None \<Rightarrow> la | Some d \<Rightarrow> take d la, ra)"
    using lazy_view_listing[OF after_reads_holds[OF books h(2)] assms(4)] by metis
  ultimately show "map_sum id fst (lazy_view Bids depth (after_reads reads r)) = Inr (case depth of None \<Rightarrow> lb | Some d \<Rightarrow> take d lb)"
    "map_sum id fst (lazy_view Asks depth (after_reads reads r)) = Inr (case depth of None \<Rightarrow> la | Some d \<Rightarrow> take d la)"
    by simp_all
qed

text \<open>C15: A lazily published snapshot reads as the eager copy. The snapshot a call of
  \<open>apply_delta\<close> or \<open>install_snapshot\<close> publishes shows, however many readers complete whatever
  sides of it or of its ancestors before, and at any depth, the levels of the live book of that
  moment in price order, best first.\<close>

theorem published_snapshot_reads_exact:
  assumes "reachable l ops e" "valid_op op"
    and call: "op = Delta i d epoch \<and> apply_delta i d epoch e = (e', Inr r) \<or>
      op = Depth i sd epoch \<and> install_snapshot i sd epoch e = (e', Inr r)"
    and sn: "rs_snapshot r = Some sn"
  shows "\<exists>n s lb la. map_of (streams e') n = Some s \<and> status s = Live \<and>
    listing Bids (map_of (bids s)) lb \<and> listing Asks (map_of (asks s)) la \<and>
    (\<forall>reads depth. map_sum id fst (lazy_view Bids depth (after_reads reads (sn_book sn))) = Inr (case depth of None \<Rightarrow> lb | Some k \<Rightarrow> take k lb) \<and>
       map_sum id fst (lazy_view Asks depth (after_reads reads (sn_book sn))) = Inr (case depth of None \<Rightarrow> la | Some k \<Rightarrow> take k la))"
proof -
  note inv = reachable_book_engine_inv[OF assms(1)]
  have "engine_inv l (ops @ [op]) e' \<and> (\<exists>n s. map_of (streams e') n = Some s \<and> status s = Live \<and> Some (sn_book sn) = book_revision s)"
    using call
  proof (elim disjE conjE)
    assume "op = Delta i d epoch" "apply_delta i d epoch e = (e', Inr r)"
    then show ?thesis using apply_delta_good[OF inv, of i d epoch] assms(2) sn unfolding good_call_def by force
  next
    assume "op = Depth i sd epoch" "install_snapshot i sd epoch e = (e', Inr r)"
    then show ?thesis using install_snapshot_good[OF inv, of i sd epoch] assms(2) sn unfolding good_call_def by force
  qed
  then obtain n s where s: "engine_inv l (ops @ [op]) e'" "map_of (streams e') n = Some s" "status s = Live" "Some (sn_book sn) = book_revision s"
    by blast
  obtain sd ds where syn: "synced l n s sd ds" "sound_book s"
    using book_engine_invD(5)[OF s(1,2)] s(3) by (auto simp: stream_inv_def live_def)
  then have ok: "side_ok (bids s, bid_prices s)" "side_ok (asks s, ask_prices s)"
    by (simp_all add: synced_def window_def side_window_def)
  obtain lb la where l: "listing Bids (map_of (bids s)) lb" "listing Asks (map_of (asks s)) la"
    using stream_listings[OF ok syn(2)] by metis
  show ?thesis using s(2,3) l synced_view[OF syn(1) s(4) l] by blast
qed

text \<open>
  The documented refusals of the calls, in the order of their tests. A stream that is unknown or
  not active is a state error; an event is judged by its epoch, its own conversion and its
  identity only.
\<close>

definition error_of :: "'a res \<Rightarrow> py_error option" where
  "error_of r = (case r of Inl x \<Rightarrow> Some x | Inr _ \<Rightarrow> None)"

lemma error_of_simps [simp]: "error_of (Inl x) = Some x" "error_of (Inr y) = None"
  by (simp_all add: error_of_def)

definition target_refusal :: "identity \<Rightarrow> 'f engine \<Rightarrow> py_error option" where
  "target_refusal i e = (case normalize_identity i of Inl _ \<Rightarrow> Some ValueError | Inr n \<Rightarrow> if n \<in> active e then None else Some StateError)"

definition event_refusal :: "(book_state \<Rightarrow> py_error option option) \<Rightarrow> ('d \<Rightarrow> identity) \<Rightarrow> identity \<Rightarrow> 'd res \<Rightarrow> int \<Rightarrow> 'f engine \<Rightarrow> py_error option" where
  "event_refusal settled id_of i event epoch e =
     (if target_refusal i e \<noteq> None then target_refusal i e
      else if epoch < 1 then Some ValueError
      else let n = projr (normalize_identity i); s = the (map_of (streams e) n) in
        if epoch \<noteq> st_epoch s then None
        else (case settled (status s) of
            Some x \<Rightarrow> x
          | None \<Rightarrow> (case event of Inl x \<Rightarrow> Some x | Inr d \<Rightarrow> if id_of d = n then None else Some ValueError)))"

text \<open>A snapshot is taken only while the stream buffers; a stream that must resynchronise answers so.\<close>

definition seed_settled :: "book_state \<Rightarrow> py_error option option" where
  "seed_settled st = (case st of Buffering \<Rightarrow> None | ResyncRequired \<Rightarrow> Some None | _ \<Rightarrow> Some (Some StateError))"

lemma active_target:
  assumes "engine_inv l ops e"
  shows "active_state e i = Inl x \<Longrightarrow> target_refusal i e = Some x" "active_state e i = Inr (n, s) \<Longrightarrow> target_refusal i e = None"
proof -
  have "active e \<subseteq> dom (map_of (streams e))" by (rule engine_inv_limits(9)[OF assms])
  then show "active_state e i = Inl x \<Longrightarrow> target_refusal i e = Some x"
    using normalize_error[of i] by (cases "normalize_identity i")
      (auto simp: active_state_def target_refusal_def split: option.splits if_splits)
qed (auto simp: active_state_def target_refusal_def bindr_eq_Inr split: option.splits if_splits)

lemma good_outcome_answers: "good_outcome l ops n s out \<Longrightarrow> \<exists>r. snd out = Inr r"
  unfolding good_outcome_def by force

lemma apply_delta_refusal:
  assumes inv: "engine_inv l ops e" and ev: "valid_op (Delta i event epoch)"
  shows "error_of (snd (apply_delta i event epoch e)) = event_refusal (\<lambda>_. None) dl_identity i event epoch e"
proof (cases "active_state e i")
  case (Inl x)
  then show ?thesis using active_target(1)[OF inv] by (simp add: apply_delta_def event_refusal_def)
next
  case (Inr ns)
  then obtain n s where act: "active_state e i = Inr (n, s)" by (cases ns) auto
  note st = engine_inv_stream[OF inv act] and a = active_stateD[OF act] and t = active_target(2)[OF inv act]
  show ?thesis
  proof (cases "1 \<le> epoch \<and> epoch = st_epoch s \<and> (\<exists>d. event = Inr d \<and> dl_identity d = n)")
    case False
    then show ?thesis using act a t
      by (auto simp: apply_delta_def event_refusal_def case_prod_unfold required_int_def stale_epoch_result_def split: sum.split)
  next
    case True
    then obtain d where d: "1 \<le> epoch" "epoch = st_epoch s" "event = Inr d" "dl_identity d = n" by blast
    let ?op = "Delta i event epoch" and ?m = "bump ''deltas_received'' (metrics e)"
    have of: "deltas_of n (st_epoch s) ?op = [d]" using d a by simp
    have val: "valid_delta d" using ev d by simp
    note good = good_status[OF st(1,2,4) val d(4) of, of ?m, THEN good_outcome_answers]
    have "\<exists>r. snd (apply_delta i event epoch e) = Inr r"
    proof (cases "max_updates_per_delta l < level_update_count d")
      case True
      then show ?thesis using act d st(5) by (simp add: apply_delta_def case_prod_unfold Let_def fail_def)
    next
      case False
      then show ?thesis using act d st(3,5) good by (cases "status s") (auto simp: apply_delta_def case_prod_unfold Let_def)
    qed
    then show ?thesis using a t d by (auto simp: event_refusal_def)
  qed
qed

lemma install_snapshot_refusal:
  assumes inv: "engine_inv l ops e" and ev: "valid_op (Depth i event epoch)"
  shows "error_of (snd (install_snapshot i event epoch e)) = event_refusal seed_settled sd_identity i event epoch e"
proof (cases "active_state e i")
  case (Inl x)
  then show ?thesis using active_target(1)[OF inv] by (simp add: install_snapshot_def event_refusal_def)
next
  case (Inr ns)
  then obtain n s where act: "active_state e i = Inr (n, s)" by (cases ns) auto
  note st = engine_inv_stream[OF inv act] and a = active_stateD[OF act] and t = active_target(2)[OF inv act]
  show ?thesis
  proof (cases "1 \<le> epoch \<and> epoch = st_epoch s \<and> status s = Buffering \<and> (\<exists>sd. event = Inr sd \<and> sd_identity sd = n)")
    case False
    then show ?thesis using act a t
      by (auto simp: install_snapshot_def event_refusal_def seed_settled_def case_prod_unfold required_int_def stale_epoch_result_def
          split: sum.split book_state.split)
  next
    case True
    then obtain sd where sd: "1 \<le> epoch" "epoch = st_epoch s" "status s = Buffering" "event = Inr sd" "sd_identity sd = n" by blast
    have "valid_seed sd" "buffering l n s" using ev sd st(1) by (simp_all add: stream_inv_def)
    then have "install_effect l n s sd (install_seed l n s (bump ''snapshots_received'' (metrics e)) sd)"
      using install_seed_effect[OF _ st(2) _ sd(5)] by blast
    then have "\<exists>r. snd (install_seed l n s (bump ''snapshots_received'' (metrics e)) sd) = Inr r"
      unfolding install_effect_def by force
    then show ?thesis using act a t sd st(5)
      by (auto simp: install_snapshot_def event_refusal_def seed_settled_def case_prod_unfold)
  qed
qed

text \<open>The registry is full when every stream it holds is active.\<close>

definition registry_full :: "identity \<Rightarrow> 'f engine \<Rightarrow> bool" where
  "registry_full n e \<longleftrightarrow> n \<notin> fst ` set (streams e) \<and> max_streams (engine_limits e) \<le> int (length (streams e)) \<and>
     fst ` set (streams e) \<subseteq> active e"

lemma reserve_capacity_error: "error_of (reserve_capacity n e) = (if registry_full n e then Some StateError else None)"
proof -
  have "map_of (streams e) n = None \<longleftrightarrow> n \<notin> fst ` set (streams e)" by (rule map_of_eq_None_iff)
  moreover have "List.find (\<lambda>k. k \<notin> active e) (map fst (streams e)) = None \<longleftrightarrow> fst ` set (streams e) \<subseteq> active e"
    by (auto simp: find_None_iff)
  ultimately show ?thesis by (auto simp: reserve_capacity_def registry_full_def not_less split: option.split)
qed

lemma activate_refusal:
  assumes "engine_inv l ops e"
  shows "error_of (snd (activate_stream i e)) =
    (case normalize_identity i of Inl _ \<Rightarrow> Some ValueError | Inr n \<Rightarrow> if registry_full n e then Some StateError else None)"
proof (cases "normalize_identity i")
  case (Inl x)
  then show ?thesis using normalize_error[OF Inl] by (simp add: activate_stream_def)
next
  case (Inr n)
  have "active e \<subseteq> fst ` set (streams e)" using engine_inv_limits(9)[OF assms] by (simp only: dom_map_of_conv_image_fst)
  then have "registry_full n e \<Longrightarrow> n \<notin> active e" by (auto simp: registry_full_def)
  then show ?thesis using Inr reserve_capacity_error[of n e]
    by (cases "reserve_capacity n e") (auto simp: activate_stream_def Let_def allocate_epoch_def split: if_splits)
qed

lemma deactivate_refusal:
  assumes "engine_inv l ops e"
  shows "error_of (snd (deactivate_stream i e)) = (case normalize_identity i of Inl _ \<Rightarrow> Some ValueError | Inr n \<Rightarrow> None)"
  using engine_inv_limits(9)[OF assms] normalize_error[of i]
  by (auto simp: deactivate_stream_def Let_def allocate_epoch_def split: sum.split option.split)

lemma begin_sync_refusal:
  assumes "engine_inv l ops e"
  shows "error_of (snd (begin_sync i e)) = target_refusal i e"
  using active_target[OF assms, of i]
  by (cases "active_state e i") (auto simp: begin_sync_def Let_def allocate_epoch_def)

text \<open>A reader is refused a depth outside the capacity, and nothing else once the identity is one.\<close>

lemma snapshot_refusal:
  assumes "engine_inv l ops e"
  shows "error_of (snapshot i depth e) =
    (case normalize_identity i of
       Inl _ \<Rightarrow> Some ValueError
     | Inr n \<Rightarrow> (case map_of (streams e) n of
         None \<Rightarrow> None
       | Some s \<Rightarrow> if status s = Live \<and> (\<exists>d. depth = Some d \<and> (d < 1 \<or> max_levels_per_side l < d)) then Some ValueError else None))"
proof (cases "normalize_identity i")
  case (Inl x)
  then show ?thesis using normalize_error[OF Inl] by (simp add: snapshot_def)
next
  case n: (Inr n)
  show ?thesis
  proof (cases "map_of (streams e) n")
    case None
    then show ?thesis using n by (simp add: snapshot_def)
  next
    case s: (Some s)
    note inv = book_engine_invD[OF assms s] and l = engine_inv_limits(1)[OF assms]
    have act: "n \<notin> active e \<or> status s \<noteq> Live \<longleftrightarrow> status s \<noteq> Live" using inv(2) by (cases "status s") simp_all
    have total: "\<exists>sn. project l n k s = Inr sn" if lv: "status s = Live" and dk: "case k of None \<Rightarrow> True | Some k \<Rightarrow> 1 \<le> k" for k
    proof -
      obtain sd ds where "synced l n s sd ds" "live s" using inv(5) lv by (auto simp: stream_inv_def)
      then show ?thesis using project_total[of l n s sd ds k] inv(3) dk unfolding live_def by metis
    qed
    show ?thesis
    proof (cases "status s = Live")
      case False
      then show ?thesis using n s act by (simp add: snapshot_def)
    next
      case live: True
      show ?thesis
      proof (cases depth)
        case None
        then show ?thesis using n s act live l total[OF live, of None] by (auto simp: snapshot_def)
      next
        case (Some d)
        have "\<exists>sn. project l n (Some (nat d)) s = Inr sn" if "1 \<le> d"
          using total[OF live, of "Some (nat d)"] that by (simp add: Suc_le_eq)
        then show ?thesis using Some n s act live l by (cases "1 \<le> d") (auto simp: snapshot_def required_int_def)
      qed
    qed
  qed
qed

text \<open>C16: The engine never fails from within. On every run, whatever events arrive, a call raises exactly in
  the documented cases. A delta or a snapshot is refused for a bad identity or epoch, a stream that
  is unknown or not active, the exception of its own conversion, an identity other than the
  stream's, or (a snapshot) a stream that no longer buffers; a new stream only when the registry
  is full of active ones; a reader only for a depth outside the capacity. So no publication is
  refused, the dictionary and the price index never diverge, no list is read out of range and no
  assertion fails.\<close>

theorem engine_errors_documented:
  assumes "reachable l ops e" "valid_op (Delta i d epoch)" "valid_op (Depth i sd epoch)"
  shows "error_of (snd (apply_delta i d epoch e)) = event_refusal (\<lambda>_. None) dl_identity i d epoch e \<and>
    error_of (snd (install_snapshot i sd epoch e)) = event_refusal seed_settled sd_identity i sd epoch e \<and>
    error_of (snd (begin_sync i e)) = target_refusal i e \<and>
    error_of (snd (activate_stream i e)) =
      (case normalize_identity i of Inl _ \<Rightarrow> Some ValueError | Inr n \<Rightarrow> if registry_full n e then Some StateError else None) \<and>
    error_of (snd (deactivate_stream i e)) = (case normalize_identity i of Inl _ \<Rightarrow> Some ValueError | Inr n \<Rightarrow> None) \<and>
    error_of (snapshot i depth e) =
      (case normalize_identity i of
         Inl _ \<Rightarrow> Some ValueError
       | Inr n \<Rightarrow> (case map_of (streams e) n of
           None \<Rightarrow> None
         | Some s \<Rightarrow> if status s = Live \<and> (\<exists>d. depth = Some d \<and> (d < 1 \<or> max_levels_per_side l < d)) then Some ValueError else None))"
proof -
  note inv = reachable_book_engine_inv[OF assms(1)]
  show ?thesis
    using apply_delta_refusal[OF inv assms(2)] install_snapshot_refusal[OF inv assms(3)] begin_sync_refusal[OF inv]
      activate_refusal[OF inv] deactivate_refusal[OF inv] snapshot_refusal[OF inv] by blast
qed

text \<open>C39: The engine stays within its limits on every run: the number of streams, the levels per
  side, the buffered deltas and their level updates, and the chain of revisions a snapshot
  retains, which never exceeds 64 links.\<close>

theorem engine_within_limits:
  assumes "reachable l ops e" "map_of (streams e) n = Some s"
  shows "int (length (streams e)) \<le> max_streams l \<and>
    int (length (bids s)) \<le> max_levels_per_side l \<and> int (length (asks s)) \<le> max_levels_per_side l \<and>
    int (length (buffered s)) \<le> max_buffered_deltas l \<and>
    buffered_updates s = sum_list (map level_update_count (buffered s)) \<and> buffered_updates s \<le> max_buffered_level_updates l \<and>
    (case book_revision s of None \<Rightarrow> True | Some r \<Rightarrow> chain_length r \<le> MAX_LAZY_REVISION_DEPTH)"
proof -
  note inv = reachable_book_engine_inv[OF assms(1)]
  note lim = engine_inv_limits[OF inv]
  have syn: "?thesis" if "synced l n s sd ds" for sd ds
    using that lim by (auto simp: synced_def shows_stream_def depth_ok_def)
  show ?thesis
  proof (cases "status s")
    case AwaitingBridge
    then show ?thesis using book_engine_invD(5)[OF inv assms(2)] syn by (auto simp only: stream_inv_def book_state.case)
  next
    case Live
    then show ?thesis using book_engine_invD(5)[OF inv assms(2)] syn by (auto simp only: stream_inv_def book_state.case)
  qed (use book_engine_invD(5)[OF inv assms(2)] lim in \<open>auto simp: stream_inv_def cleared_def buffering_def\<close>)
qed

text \<open>Before its bridge a stream holds the snapshot itself.\<close>

lemma awaiting_levels:
  assumes "synced l n s sd []" "whole_view s"
  shows "map_of (bids s) = map_of (sd_bids sd)" "map_of (asks s) = map_of (sd_asks sd)" "bids s \<noteq> []" "asks s \<noteq> []"
proof -
  show b: "map_of (bids s) = map_of (sd_bids sd)" "map_of (asks s) = map_of (sd_asks sd)"
    using assms by (simp_all add: synced_def window_def side_window_def whole_view_def exchange_book_def restrict_subset)
  have "sd_bids sd \<noteq> []" "sd_asks sd \<noteq> []" using assms(1) valid_seedD(8,9) by (auto simp: synced_def)
  then show "bids s \<noteq> []" "asks s \<noteq> []" using b by (metis map_of_eq_empty_iff)+
qed

text \<open>C17: The fields of a stream fit its state. On every run the identity of a stream is normalised, the
  stream is inactive exactly when it is not in the active set, its epoch has been allocated, an
  inactive or failed stream is cleared, a buffering one has no book. A stream that waits for its
  bridge has no buffer and holds, on both sides, exactly the levels and the update id of a
  snapshot received under its epoch; a live one has levels on both sides, a revision, an update
  id, no buffer and a positive revision number.\<close>

theorem stream_typestate:
  assumes "reachable l ops e" "map_of (streams e) n = Some s"
  shows "normalize_identity n = Inr n \<and> (status s = Inactive \<longleftrightarrow> n \<notin> active e) \<and> 1 \<le> st_epoch s \<and> st_epoch s \<le> next_epoch e \<and>
    (case status s of
       Inactive \<Rightarrow> cleared s
     | ResyncRequired \<Rightarrow> cleared s
     | Buffering \<Rightarrow> bids s = [] \<and> asks s = [] \<and> book_revision s = None \<and> last_update_id s = None
     | AwaitingBridge \<Rightarrow> buffered s = [] \<and> book_revision s \<noteq> None \<and> last_delta_signature s = None \<and> bids s \<noteq> [] \<and> asks s \<noteq> [] \<and>
         (\<exists>sd. seeded n (st_epoch s) ops sd \<and> last_update_id s = Some (sd_last_update_id sd) \<and>
            map_of (bids s) = map_of (sd_bids sd) \<and> map_of (asks s) = map_of (sd_asks sd))
     | Live \<Rightarrow> buffered s = [] \<and> book_revision s \<noteq> None \<and> last_update_id s \<noteq> None \<and> last_delta_signature s \<noteq> None \<and>
         bids s \<noteq> [] \<and> asks s \<noteq> [] \<and> 1 \<le> st_revision s)"
proof -
  note inv = book_engine_invD[OF reachable_book_engine_inv[OF assms(1)] assms(2)]
  have "case status s of
       Inactive \<Rightarrow> cleared s
     | ResyncRequired \<Rightarrow> cleared s
     | Buffering \<Rightarrow> bids s = [] \<and> asks s = [] \<and> book_revision s = None \<and> last_update_id s = None
     | AwaitingBridge \<Rightarrow> buffered s = [] \<and> book_revision s \<noteq> None \<and> last_delta_signature s = None \<and> bids s \<noteq> [] \<and> asks s \<noteq> [] \<and>
         (\<exists>sd. seeded n (st_epoch s) ops sd \<and> last_update_id s = Some (sd_last_update_id sd) \<and>
            map_of (bids s) = map_of (sd_bids sd) \<and> map_of (asks s) = map_of (sd_asks sd))
     | Live \<Rightarrow> buffered s = [] \<and> book_revision s \<noteq> None \<and> last_update_id s \<noteq> None \<and> last_delta_signature s \<noteq> None \<and>
         bids s \<noteq> [] \<and> asks s \<noteq> [] \<and> 1 \<le> st_revision s"
  proof (cases "status s")
    case AwaitingBridge
    then obtain sd where sd: "whole_view s" "seeded n (st_epoch s) ops sd" "synced l n s sd []" using inv(5) by (auto simp: stream_inv_def)
    then show ?thesis using AwaitingBridge awaiting_levels[OF sd(3,1)] by (auto simp: synced_def shows_stream_def final_id_def)
  qed (use inv(5) in \<open>auto simp: stream_inv_def buffering_def synced_def shows_stream_def live_def sound_book_def signature_def\<close>)
  then show ?thesis using inv(1-4) by blast
qed

section \<open>A concrete run\<close>

definition sample_limits :: limits where
  "sample_limits = \<lparr>max_streams = 2, max_levels_per_side = 2, max_buffered_deltas = 3, max_updates_per_delta = 10, max_buffered_level_updates = 20\<rparr>"

definition sample_id :: identity where
  "sample_id = (''binance'', ''usdm'', ''BTCUSDT'', 100)"

definition sample_seed :: "int seed" where
  "sample_seed = \<lparr>sd_identity = sample_id, sd_snapshot_limit = 2, sd_last_update_id = 10, sd_bids = [(6, 1), (5, 1)], sd_asks = [(7, 1)],
     sd_event_time_ms = 0, sd_received_at_ms = 0, sd_source = Http\<rparr>"

definition sample_delta :: "int \<Rightarrow> int \<Rightarrow> int \<Rightarrow> int level list \<Rightarrow> int level list \<Rightarrow> int delta" where
  "sample_delta first final previous bs as =
     \<lparr>dl_identity = sample_id, dl_first_update_id = first, dl_final_update_id = final, dl_previous_final_update_id = Some previous,
      dl_bids = bs, dl_asks = as, dl_event_time_ms = 0, dl_transaction_time_ms = None, dl_received_at_ms = 0, dl_source = Websocket\<rparr>"

definition sample_ops :: "int op list" where
  "sample_ops = [Activate sample_id, Delta sample_id (Inr (sample_delta 9 12 8 [(5, 2)] [])) 1, Depth sample_id (Inr sample_seed) 1,
     Delta sample_id (Inr (sample_delta 13 14 12 [(4, 2), (6, 3)] [(8, 8)])) 1]"

definition run :: "limits \<Rightarrow> int op list \<Rightarrow> int engine" where
  "run l ops = fold exec ops (projr (new_engine l))"

lemma run_reachable:
  assumes "new_engine l = Inr (projr (new_engine l) :: int engine)" "list_all valid_op ops"
  shows "reachable l ops (run l ops)"
  using assms(2)
proof (induction ops rule: rev_induct)
  case Nil
  then show ?case using reachable.start[OF assms(1)] by (simp add: run_def)
next
  case (snoc op ops)
  then show ?case using reachable.step[of l ops "run l ops" op] by (simp add: run_def)
qed

lemma valid_seedI: "make_seed sd = Inr sd \<Longrightarrow> valid_seed sd"
  by (auto simp: valid_seed_def)

lemma valid_deltaI: "make_delta d = Inr d \<Longrightarrow> valid_delta d"
  by (auto simp: valid_delta_def)

lemma sample_valid: "list_all valid_op sample_ops"
proof -
  have "make_seed sample_seed = Inr sample_seed" by code_simp
  moreover have "make_delta (sample_delta 9 12 8 [(5, 2)] []) = Inr (sample_delta 9 12 8 [(5, 2)] [])" by code_simp
  moreover have "make_delta (sample_delta 13 14 12 [(4, 2), (6, 3)] [(8, 8)]) = Inr (sample_delta 13 14 12 [(4, 2), (6, 3)] [(8, 8)])" by code_simp
  ultimately show ?thesis by (simp add: sample_ops_def valid_seedI valid_deltaI)
qed

lemma sample_engine: "\<exists>e. new_engine sample_limits = Inr e"
  by (simp add: new_engine_def sample_limits_def)

lemma sample_reachable: "reachable sample_limits sample_ops (run sample_limits sample_ops)"
  using run_reachable sample_valid sample_engine by (metis sum.sel(2))

definition sample_stream :: "int stream" where
  "sample_stream = the (map_of (streams (run sample_limits sample_ops)) sample_id)"

lemma sample_live:
  "map_of (streams (run sample_limits sample_ops)) sample_id \<noteq> None" "status sample_stream = Live"
  "bids sample_stream = [(6, 3), (5, 2)]" "trimmed_bid_boundary sample_stream = Some 4" "bid_prices sample_stream = [5, 6]"
  by code_simp+

lemma sample_found: "map_of (streams (run sample_limits sample_ops)) sample_id = Some sample_stream"
  using sample_live(1) by (simp add: sample_stream_def)

theorem order_book_refines_witness:
  "\<exists>sd ds. seeded sample_id (st_epoch sample_stream) sample_ops sd \<and> ds \<noteq> [] \<and>
     map_of [(6::int, 3::int), (5, 2)] = exchange_book Bids sd ds |` known Bids (Some 4)"
  using order_book_refines[OF sample_reachable sample_found sample_live(2)] by (auto simp: sample_live)

theorem best_prices_exact_witness:
  "\<exists>sd ds. seeded sample_id (st_epoch sample_stream) sample_ops sd \<and>
     exchange_book Bids sd ds (6::int) = Some 3 \<and> (\<forall>p \<in> dom (exchange_book Bids sd ds). p \<le> 6)"
  using best_prices_exact[OF sample_reachable sample_found sample_live(2)] by (fastforce simp: sample_live Let_def)

theorem no_update_missed_witness:
  "\<exists>ds last_id. subseq ds (received sample_id (st_epoch sample_stream) sample_ops) \<and> last_update_id sample_stream = Some last_id"
  using no_update_missed[OF sample_reachable sample_found sample_live(2)] by blast

theorem stream_typestate_witness: "sample_id \<in> active (run sample_limits sample_ops) \<and> bids sample_stream \<noteq> []"
  using stream_typestate[OF sample_reachable sample_found] sample_live(2) by auto

theorem engine_within_limits_witness: "int (length (bids sample_stream)) \<le> 2"
  using engine_within_limits[OF sample_reachable sample_found] by (simp add: sample_limits_def)

definition next_delta :: "int delta" where
  "next_delta = sample_delta 15 16 14 [(6, 4)] []"

definition next_call :: "int engine \<times> int apply_result res" where
  "next_call = apply_delta sample_id (Inr next_delta) 1 (run sample_limits sample_ops)"

lemma next_valid: "valid_op (Delta sample_id (Inr next_delta) 1)"
proof -
  have "make_delta next_delta = Inr next_delta" by code_simp
  then show ?thesis by (simp add: valid_deltaI)
qed

lemma next_published: "map_sum id (\<lambda>r. rs_snapshot r \<noteq> None) (snd next_call) = Inr True"
  by code_simp

theorem published_snapshot_reads_exact_witness:
  "\<exists>r sn lb. snd next_call = Inr r \<and> rs_snapshot r = Some sn \<and>
     (\<forall>reads. map_sum id fst (lazy_view Bids None (after_reads reads (sn_book sn))) = Inr lb)"
proof -
  obtain r sn where r: "snd next_call = Inr r" "rs_snapshot r = Some sn"
    using next_published by (cases "snd next_call") auto
  have "apply_delta sample_id (Inr next_delta) 1 (run sample_limits sample_ops) = (fst next_call, Inr r)"
    using r(1) by (simp add: next_call_def prod_eq_iff)
  then show ?thesis
    using published_snapshot_reads_exact[OF sample_reachable next_valid,
        where i = sample_id and d = "Inr next_delta" and epoch = 1 and e' = "fst next_call" and r = r and sn = sn] r
    by fastforce
qed

definition unknown_id :: identity where
  "unknown_id = (''binance'', ''spot'', ''BTCUSDT'', 100)"

lemma unknown_call: "snd (apply_delta unknown_id (Inr next_delta) 1 (run sample_limits sample_ops)) = Inl StateError"
  by code_simp

theorem engine_errors_documented_witness:
  "snd (apply_delta unknown_id (Inr next_delta) 1 (run sample_limits sample_ops)) = Inl StateError \<and>
   error_of (snapshot unknown_id (Some 7) (run sample_limits sample_ops)) = None \<and>
   error_of (snd (activate_stream unknown_id (run sample_limits sample_ops))) = None"
proof -
  have v: "valid_op (Delta unknown_id (Inr next_delta) 1)" "valid_op (Depth unknown_id (Inl TypeError) 1)" using next_valid by simp_all
  note e = engine_errors_documented[OF sample_reachable v, of "Some 7"]
  have n: "normalize_identity unknown_id = Inr unknown_id" "map_of (streams (run sample_limits sample_ops)) unknown_id = None"
    "\<not> registry_full unknown_id (run sample_limits sample_ops)" by code_simp+
  have "error_of (snapshot unknown_id (Some 7) (run sample_limits sample_ops)) = None"
    "error_of (snd (activate_stream unknown_id (run sample_limits sample_ops))) = None"
    using e by (simp_all add: n)
  then show ?thesis using unknown_call by blast
qed

text \<open>
  A delta that removes a level of the seed inside the replay, and an empty delta after it.
\<close>

definition shrunk_ops :: "int op list" where
  "shrunk_ops = [Activate sample_id, Delta sample_id (Inr (sample_delta 9 12 8 [(5, 0)] [])) 1, Depth sample_id (Inr sample_seed) 1]"

definition empty_call :: "int engine \<times> int apply_result res" where
  "empty_call = apply_delta sample_id (Inr (sample_delta 13 14 12 [] [])) 1 (run sample_limits shrunk_ops)"

text \<open>
  The replay of the buffered deltas may leave fewer levels than the snapshot had; the stream then
  goes live and publishes its book, but \<open>install_snapshot\<close> does not test the trusted depth. The
  next delta survives only when it brings the missing levels back: one that restores a bid level
  is applied, one without any level update fails with a capacity error and clears the stream.
\<close>

definition refill_call :: "int engine \<times> int apply_result res" where
  "refill_call = apply_delta sample_id (Inr (sample_delta 13 14 12 [(5, 1)] [])) 1 (run sample_limits shrunk_ops)"

lemma shrunk_install_dies_on_empty_delta:
  "map_option status (map_of (streams (run sample_limits shrunk_ops)) sample_id) = Some Live"
  "map_sum id (\<lambda>r. (accepted r, rs_failure r)) (snd empty_call) = Inr (False, Some Capacity)"
  "map_option status (map_of (streams (fst empty_call)) sample_id) = Some ResyncRequired"
  "map_sum id (\<lambda>r. (accepted r, rs_failure r)) (snd refill_call) = Inr (True, None)"
  by code_simp+

end
