(* ===== verification/BrokerModels.thy ===== *)
theory BrokerModels
  imports LedgerBook
begin

text \<open>
  The domain values of the paper broker (\<open>backend/app/replay/broker/models.py\<close>): enumerations,
  the order status machine, positions and hedge books, instrument filters, limits and
  configuration, order requests, orders, fills, accounts, closed trades and warnings. Every
  constructor is \<open>__post_init__\<close> on its arguments by name, as JSON values, so that a value built
  by the program and one read from a snapshot pass the same checks; \<open>dataclasses.replace\<close> is the
  constructor on the changed dictionary.
\<close>

section \<open>Enumerations\<close>

datatype order_side = Buy | Sell

datatype position_mode = OneWay | Hedge

datatype position_side = Long | Short

datatype order_type = Market | Limit | StopMarket | TakeProfitMarket

datatype order_status = New | Open | PartiallyFilled | Filled | Canceled | Rejected | Expired

datatype liquidity_role = Maker | Taker | Synthetic

datatype fill_reason =
    MarketNextOpen | LimitTouch | LimitGap | StopTrigger | TakeProfitTrigger | SessionEndMarkClose | MarketTape
  | LimitStrictCross | StopTapeTrigger | TakeProfitTapeTrigger | MarketRevealedReference | LimitMarketableRevealed
  | StopRevealedTrigger | TakeProfitRevealedTrigger | HistoricalBookLevel

datatype warning_code = AmbiguousIntrabarWorstCase | EntryExitSameBarWorstCase | MarginBreachNoLiquidation

fun side_value :: "order_side \<Rightarrow> string" where
  "side_value Buy = ''BUY''"
| "side_value Sell = ''SELL''"

fun mode_value :: "position_mode \<Rightarrow> string" where
  "mode_value OneWay = ''ONE_WAY''"
| "mode_value Hedge = ''HEDGE''"

fun leg_value :: "position_side \<Rightarrow> string" where
  "leg_value Long = ''LONG''"
| "leg_value Short = ''SHORT''"

fun type_value :: "order_type \<Rightarrow> string" where
  "type_value Market = ''MARKET''"
| "type_value Limit = ''LIMIT''"
| "type_value StopMarket = ''STOP_MARKET''"
| "type_value TakeProfitMarket = ''TAKE_PROFIT_MARKET''"

fun status_value :: "order_status \<Rightarrow> string" where
  "status_value New = ''NEW''"
| "status_value Open = ''OPEN''"
| "status_value PartiallyFilled = ''PARTIALLY_FILLED''"
| "status_value Filled = ''FILLED''"
| "status_value Canceled = ''CANCELED''"
| "status_value Rejected = ''REJECTED''"
| "status_value Expired = ''EXPIRED''"

fun liquidity_value :: "liquidity_role \<Rightarrow> string" where
  "liquidity_value Maker = ''MAKER''"
| "liquidity_value Taker = ''TAKER''"
| "liquidity_value Synthetic = ''SYNTHETIC''"

fun reason_value :: "fill_reason \<Rightarrow> string" where
  "reason_value MarketNextOpen = ''MARKET_NEXT_OPEN''"
| "reason_value LimitTouch = ''LIMIT_TOUCH''"
| "reason_value LimitGap = ''LIMIT_GAP''"
| "reason_value StopTrigger = ''STOP_TRIGGER''"
| "reason_value TakeProfitTrigger = ''TAKE_PROFIT_TRIGGER''"
| "reason_value SessionEndMarkClose = ''SESSION_END_MARK_CLOSE''"
| "reason_value MarketTape = ''MARKET_TAPE''"
| "reason_value LimitStrictCross = ''LIMIT_STRICT_CROSS''"
| "reason_value StopTapeTrigger = ''STOP_TAPE_TRIGGER''"
| "reason_value TakeProfitTapeTrigger = ''TAKE_PROFIT_TAPE_TRIGGER''"
| "reason_value MarketRevealedReference = ''MARKET_REVEALED_REFERENCE''"
| "reason_value LimitMarketableRevealed = ''LIMIT_MARKETABLE_REVEALED''"
| "reason_value StopRevealedTrigger = ''STOP_REVEALED_TRIGGER''"
| "reason_value TakeProfitRevealedTrigger = ''TAKE_PROFIT_REVEALED_TRIGGER''"
| "reason_value HistoricalBookLevel = ''HISTORICAL_BOOK_LEVEL''"

fun warning_value :: "warning_code \<Rightarrow> string" where
  "warning_value AmbiguousIntrabarWorstCase = ''AMBIGUOUS_INTRABAR_WORST_CASE''"
| "warning_value EntryExitSameBarWorstCase = ''ENTRY_EXIT_SAME_BAR_WORST_CASE''"
| "warning_value MarginBreachNoLiquidation = ''MARGIN_BREACH_NO_LIQUIDATION''"

definition order_sides :: "order_side list" where
  "order_sides = [Buy, Sell]"

definition position_modes :: "position_mode list" where
  "position_modes = [OneWay, Hedge]"

definition position_sides :: "position_side list" where
  "position_sides = [Long, Short]"

definition order_types :: "order_type list" where
  "order_types = [Market, Limit, StopMarket, TakeProfitMarket]"

definition order_statuses :: "order_status list" where
  "order_statuses = [New, Open, PartiallyFilled, Filled, Canceled, Rejected, Expired]"

definition liquidity_roles :: "liquidity_role list" where
  "liquidity_roles = [Maker, Taker, Synthetic]"

definition fill_reasons :: "fill_reason list" where
  "fill_reasons = [MarketNextOpen, LimitTouch, LimitGap, StopTrigger, TakeProfitTrigger, SessionEndMarkClose, MarketTape,
     LimitStrictCross, StopTapeTrigger, TakeProfitTapeTrigger, MarketRevealedReference, LimitMarketableRevealed,
     StopRevealedTrigger, TakeProfitRevealedTrigger, HistoricalBookLevel]"

definition warning_codes :: "warning_code list" where
  "warning_codes = [AmbiguousIntrabarWorstCase, EntryExitSameBarWorstCase, MarginBreachNoLiquidation]"

fun side_sign :: "order_side \<Rightarrow> dec" where
  "side_sign Buy = Dec 1 0"
| "side_sign Sell = Dec (- 1) 0"

fun opposite :: "order_side \<Rightarrow> order_side" where
  "opposite Buy = Sell"
| "opposite Sell = Buy"

fun opening_order_side :: "position_side \<Rightarrow> order_side" where
  "opening_order_side Long = Buy"
| "opening_order_side Short = Sell"

definition closing_order_side :: "position_side \<Rightarrow> order_side" where
  "closing_order_side s = opposite (opening_order_side s)"

section \<open>The order status machine\<close>

definition terminal :: "order_status \<Rightarrow> bool" where
  "terminal s \<longleftrightarrow> s \<in> {Filled, Canceled, Rejected, Expired}"

fun order_transitions :: "order_status \<Rightarrow> order_status set" where
  "order_transitions New = {Open, Rejected}"
| "order_transitions Open = {PartiallyFilled, Filled, Canceled, Rejected, Expired}"
| "order_transitions PartiallyFilled = {PartiallyFilled, Filled, Canceled, Expired}"
| "order_transitions Filled = {}"
| "order_transitions Canceled = {}"
| "order_transitions Rejected = {}"
| "order_transitions Expired = {}"

definition validate_order_transition :: "order_status \<Rightarrow> order_status \<Rightarrow> unit res" where
  "validate_order_transition current target = guardr (target \<in> order_transitions current) ValueError"

text \<open>The loop over \<open>zip(history, history[1:])\<close>.\<close>

fun validate_history :: "order_status list \<Rightarrow> unit res" where
  "validate_history (a # b # rest) = bindr (validate_order_transition a b) (\<lambda>_. validate_history (b # rest))"
| "validate_history _ = Inr ()"

section \<open>Field checks\<close>

definition dec_lt :: "dec \<Rightarrow> dec \<Rightarrow> bool" where
  "dec_lt a b = (\<not> dec_le b a)"

definition decimal_arg :: "bool \<Rightarrow> bool \<Rightarrow> json \<Rightarrow> string res" where
  "decimal_arg positive nonnegative j =
     (case j of JStr s \<Rightarrow> canonical_decimal positive nonnegative s | _ \<Rightarrow> Inl TypeError)"

definition optional_decimal :: "bool \<Rightarrow> bool \<Rightarrow> json \<Rightarrow> string option res" where
  "optional_decimal positive nonnegative j =
     (case j of JNull \<Rightarrow> Inr None | _ \<Rightarrow> bindr (decimal_arg positive nonnegative j) (\<lambda>s. Inr (Some s)))"

definition optional_enum :: "'a list \<Rightarrow> ('a \<Rightarrow> string) \<Rightarrow> json \<Rightarrow> 'a option res" where
  "optional_enum members value j =
     (case j of JNull \<Rightarrow> Inr None | _ \<Rightarrow> bindr (coerce_enum members value j) (\<lambda>m. Inr (Some m)))"

definition bool_arg :: "json \<Rightarrow> bool res" where
  "bool_arg j = (case j of JBool b \<Rightarrow> Inr b | _ \<Rightarrow> Inl TypeError)"

definition positive_int :: "json \<Rightarrow> int res" where
  "positive_int j = (case j of JInt n \<Rightarrow> if n < 1 then Inl ValueError else Inr n | _ \<Rightarrow> Inl ValueError)"

definition optional_string :: "json \<Rightarrow> string option res" where
  "optional_string j = (case j of JNull \<Rightarrow> Inr None | JStr s \<Rightarrow> Inr (Some s) | _ \<Rightarrow> Inl TypeError)"

definition of_leg :: "position_side option \<Rightarrow> json" where
  "of_leg x = of_optional (map_option leg_value x)"

text \<open>A key that a dictionary holds only when its value is not \<open>None\<close>.\<close>

definition present :: "string \<Rightarrow> json \<Rightarrow> (string \<times> json) list" where
  "present k j = (if j = JNull then [] else [(k, j)])"

definition without :: "string list \<Rightarrow> (string \<times> json) list \<Rightarrow> (string \<times> json) list" where
  "without ks payload = List.filter (\<lambda>(k, _). k \<notin> set ks) payload"

section \<open>Positions\<close>

record position =
  po_quantity :: string
  po_entry_price :: "string option"
  po_mark_price :: string
  po_notional :: string
  po_realized_pnl :: string
  po_unrealized_pnl :: string
  po_leverage :: "string option"

text \<open>
  The two amounts a position derives from its quantity, mark and entry, computed under
  \<open>context.prec = 60\<close>; \<open>abs\<close> rounds to the context as every operation does.
\<close>

definition notional_of :: "dec \<Rightarrow> dec \<Rightarrow> dec" where
  "notional_of quantity mark = dec_mul 60 (dec_fix 60 (dec_abs quantity)) mark"

definition unrealized_of :: "dec \<Rightarrow> dec option \<Rightarrow> dec \<Rightarrow> dec" where
  "unrealized_of quantity entry mark =
     (if coeff quantity = 0 then dec_zero
      else case entry of None \<Rightarrow> dec_zero | Some e \<Rightarrow> dec_mul 60 (dec_sub 60 mark e) quantity)"

definition make_position :: "(string \<Rightarrow> json) \<Rightarrow> position res" where
  "make_position arg =
     bindr (decimal_arg False False (arg ''quantity'')) (\<lambda>q.
     bindr (optional_decimal True False (arg ''entry_price'')) (\<lambda>e.
     bindr (decimal_arg True False (arg ''mark_price'')) (\<lambda>m.
     bindr (decimal_arg False True (arg ''notional'')) (\<lambda>n.
     bindr (decimal_arg False False (arg ''realized_pnl'')) (\<lambda>r.
     bindr (decimal_arg False False (arg ''unrealized_pnl'')) (\<lambda>u.
     bindr (optional_decimal True False (arg ''leverage'')) (\<lambda>l.
       if (coeff (dec_of q) = 0) \<noteq> (e = None) then Inl ValueError
       else if \<not> dec_eq (dec_of n) (notional_of (dec_of q) (dec_of m)) then Inl ValueError
       else if \<not> dec_eq (dec_of u) (unrealized_of (dec_of q) (map_option dec_of e) (dec_of m)) then Inl ValueError
       else Inr \<lparr>po_quantity = q, po_entry_price = e, po_mark_price = m, po_notional = n, po_realized_pnl = r,
                 po_unrealized_pnl = u, po_leverage = l\<rparr>)))))))"

definition position_fields :: "string list" where
  "position_fields = [''quantity'', ''entry_price'', ''mark_price'', ''notional'', ''realized_pnl'', ''unrealized_pnl'']"

definition position_to_dict :: "position \<Rightarrow> (string \<times> json) list" where
  "position_to_dict p =
     [(''quantity'', JStr (po_quantity p)), (''entry_price'', of_optional (po_entry_price p)),
      (''mark_price'', JStr (po_mark_price p)), (''notional'', JStr (po_notional p)),
      (''realized_pnl'', JStr (po_realized_pnl p)), (''unrealized_pnl'', JStr (po_unrealized_pnl p))]
     @ present ''leverage'' (of_optional (po_leverage p))"

definition position_from_dict :: "(string \<times> json) list \<Rightarrow> position res" where
  "position_from_dict payload =
     bindr (exact_keys (without [''leverage''] payload) position_fields) (\<lambda>_. make_position (dict_get payload))"

text \<open>A position from its fields, as the program constructs one.\<close>

definition new_position :: "position \<Rightarrow> position res" where
  "new_position p = make_position (dict_get (position_to_dict p))"

definition position_flat :: "string \<Rightarrow> string option \<Rightarrow> position res" where
  "position_flat mark leverage =
     bindr (canonical_decimal True False mark) (\<lambda>m.
       new_position \<lparr>po_quantity = ''0'', po_entry_price = None, po_mark_price = m, po_notional = ''0'',
         po_realized_pnl = ''0'', po_unrealized_pnl = ''0'', po_leverage = leverage\<rparr>)"

text \<open>The two signed legs of a hedge book. Its mode is always \<open>HEDGE\<close>.\<close>

record position_book =
  bk_long :: position
  bk_short :: position

definition make_position_book :: "position \<Rightarrow> position \<Rightarrow> position_book res" where
  "make_position_book l s =
     (if coeff (dec_of (po_quantity l)) < 0 then Inl ValueError
      else if coeff (dec_of (po_quantity s)) > 0 then Inl ValueError
      else if \<not> dec_eq (dec_of (po_mark_price l)) (dec_of (po_mark_price s)) then Inl ValueError
      else if po_leverage l = None \<or> po_leverage s = None then Inl ValueError
      else Inr \<lparr>bk_long = l, bk_short = s\<rparr>)"

definition book_flat :: "string \<Rightarrow> string \<Rightarrow> position_book res" where
  "book_flat mark leverage =
     bindr (position_flat mark (Some leverage)) (\<lambda>l.
     bindr (position_flat mark (Some leverage)) (\<lambda>s. make_position_book l s))"

text \<open>The sums over the legs run in the context of the caller, of precision \<open>p\<close>.\<close>

definition book_quantity :: "nat \<Rightarrow> position_book \<Rightarrow> string" where
  "book_quantity p b = decimal_to_string (dec_add p (dec_of (po_quantity (bk_long b))) (dec_of (po_quantity (bk_short b))))"

definition book_entry_price :: "position_book \<Rightarrow> string option" where
  "book_entry_price b =
     (case List.filter (\<lambda>l. coeff (dec_of (po_quantity l)) \<noteq> 0) [bk_long b, bk_short b] of
        [l] \<Rightarrow> po_entry_price l | _ \<Rightarrow> None)"

definition book_mark_price :: "position_book \<Rightarrow> string" where
  "book_mark_price b = po_mark_price (bk_long b)"

definition book_notional :: "nat \<Rightarrow> position_book \<Rightarrow> string" where
  "book_notional p b = decimal_to_string (dec_add p (dec_of (po_notional (bk_long b))) (dec_of (po_notional (bk_short b))))"

definition book_realized_pnl :: "nat \<Rightarrow> position_book \<Rightarrow> string" where
  "book_realized_pnl p b =
     decimal_to_string (dec_add p (dec_of (po_realized_pnl (bk_long b))) (dec_of (po_realized_pnl (bk_short b))))"

definition book_unrealized_pnl :: "nat \<Rightarrow> position_book \<Rightarrow> string" where
  "book_unrealized_pnl p b =
     decimal_to_string (dec_add p (dec_of (po_unrealized_pnl (bk_long b))) (dec_of (po_unrealized_pnl (bk_short b))))"

definition book_is_flat :: "position_book \<Rightarrow> bool" where
  "book_is_flat b \<longleftrightarrow> coeff (dec_of (po_quantity (bk_long b))) = 0 \<and> coeff (dec_of (po_quantity (bk_short b))) = 0"

fun leg :: "position_side \<Rightarrow> position_book \<Rightarrow> position" where
  "leg Long b = bk_long b"
| "leg Short b = bk_short b"

fun with_leg :: "position_side \<Rightarrow> position \<Rightarrow> position_book \<Rightarrow> position_book res" where
  "with_leg Long p b = make_position_book p (bk_short b)"
| "with_leg Short p b = make_position_book (bk_long b) p"

definition book_to_dict :: "position_book \<Rightarrow> (string \<times> json) list" where
  "book_to_dict b =
     [(''position_mode'', JStr ''HEDGE''), (''long'', JObj (position_to_dict (bk_long b))),
      (''short'', JObj (position_to_dict (bk_short b)))]"

definition book_from_dict :: "(string \<times> json) list \<Rightarrow> position_book res" where
  "book_from_dict payload =
     bindr (exact_keys payload [''position_mode'', ''long'', ''short'']) (\<lambda>_.
       if dict_get payload ''position_mode'' \<noteq> JStr ''HEDGE'' then Inl ValueError
       else case (dict_get payload ''long'', dict_get payload ''short'') of
           (JObj l, JObj s) \<Rightarrow>
             bindr (position_from_dict l) (\<lambda>l'. bindr (position_from_dict s) (\<lambda>s'. make_position_book l' s'))
         | _ \<Rightarrow> Inl TypeError)"

datatype position_state = Net position | Legs position_book

fun state_mark_price :: "position_state \<Rightarrow> string" where
  "state_mark_price (Net p) = po_mark_price p"
| "state_mark_price (Legs b) = book_mark_price b"

fun state_notional :: "nat \<Rightarrow> position_state \<Rightarrow> string" where
  "state_notional c (Net p) = po_notional p"
| "state_notional c (Legs b) = book_notional c b"

fun state_unrealized_pnl :: "nat \<Rightarrow> position_state \<Rightarrow> string" where
  "state_unrealized_pnl c (Net p) = po_unrealized_pnl p"
| "state_unrealized_pnl c (Legs b) = book_unrealized_pnl c b"

fun state_to_dict :: "position_state \<Rightarrow> (string \<times> json) list" where
  "state_to_dict (Net p) = position_to_dict p"
| "state_to_dict (Legs b) = book_to_dict b"

definition position_state_from_dict :: "(string \<times> json) list \<Rightarrow> position_state res" where
  "position_state_from_dict payload =
     (if dict_get payload ''position_mode'' = JStr ''HEDGE'' then bindr (book_from_dict payload) (\<lambda>b. Inr (Legs b))
      else bindr (position_from_dict payload) (\<lambda>p. Inr (Net p)))"

section \<open>Configuration\<close>

record instrument_filters =
  price_tick :: string
  quantity_step :: string
  min_quantity :: string
  max_quantity :: string
  min_notional :: string
  max_notional :: string
  quote_step :: string

definition filter_fields :: "string list" where
  "filter_fields = [''price_tick'', ''quantity_step'', ''min_quantity'', ''max_quantity'', ''min_notional'', ''max_notional'',
     ''quote_step'']"

definition make_filters :: "(string \<Rightarrow> json) \<Rightarrow> instrument_filters res" where
  "make_filters arg =
     bindr (decimal_arg True False (arg ''price_tick'')) (\<lambda>tick.
     bindr (decimal_arg True False (arg ''quantity_step'')) (\<lambda>qs.
     bindr (decimal_arg True False (arg ''min_quantity'')) (\<lambda>minq.
     bindr (decimal_arg True False (arg ''max_quantity'')) (\<lambda>maxq.
     bindr (decimal_arg True False (arg ''min_notional'')) (\<lambda>minn.
     bindr (decimal_arg True False (arg ''max_notional'')) (\<lambda>maxn.
     bindr (decimal_arg True False (arg ''quote_step'')) (\<lambda>quote.
       if dec_lt (dec_of maxq) (dec_of minq) then Inl ValueError
       else if dec_lt (dec_of maxn) (dec_of minn) then Inl ValueError
       else Inr \<lparr>price_tick = tick, quantity_step = qs, min_quantity = minq, max_quantity = maxq, min_notional = minn,
                 max_notional = maxn, quote_step = quote\<rparr>)))))))"

definition filters_to_dict :: "instrument_filters \<Rightarrow> (string \<times> json) list" where
  "filters_to_dict f =
     [(''price_tick'', JStr (price_tick f)), (''quantity_step'', JStr (quantity_step f)),
      (''min_quantity'', JStr (min_quantity f)), (''max_quantity'', JStr (max_quantity f)),
      (''min_notional'', JStr (min_notional f)), (''max_notional'', JStr (max_notional f)),
      (''quote_step'', JStr (quote_step f))]"

definition filters_from_dict :: "(string \<times> json) list \<Rightarrow> instrument_filters res" where
  "filters_from_dict payload = bindr (exact_keys payload filter_fields) (\<lambda>_. make_filters (dict_get payload))"

record broker_limits =
  max_leverage :: string
  max_position_notional :: string
  max_order_quantity :: string
  max_open_orders :: int
  max_orders :: int
  max_fills :: int
  max_ledger_entries :: int
  max_warnings :: int

definition limit_fields :: "string list" where
  "limit_fields = [''max_leverage'', ''max_position_notional'', ''max_order_quantity'', ''max_open_orders'', ''max_orders'',
     ''max_fills'', ''max_ledger_entries'', ''max_warnings'']"

definition make_limits :: "(string \<Rightarrow> json) \<Rightarrow> broker_limits res" where
  "make_limits arg =
     bindr (decimal_arg True False (arg ''max_leverage'')) (\<lambda>ml.
     bindr (decimal_arg True False (arg ''max_position_notional'')) (\<lambda>mn.
     bindr (decimal_arg True False (arg ''max_order_quantity'')) (\<lambda>mq.
     bindr (positive_int (arg ''max_open_orders'')) (\<lambda>moo.
     bindr (positive_int (arg ''max_orders'')) (\<lambda>mo.
     bindr (positive_int (arg ''max_fills'')) (\<lambda>mf.
     bindr (positive_int (arg ''max_ledger_entries'')) (\<lambda>me.
     bindr (positive_int (arg ''max_warnings'')) (\<lambda>mw.
       if moo > mo then Inl ValueError
       else Inr \<lparr>max_leverage = ml, max_position_notional = mn, max_order_quantity = mq, max_open_orders = moo,
                 max_orders = mo, max_fills = mf, max_ledger_entries = me, max_warnings = mw\<rparr>))))))))"

definition limits_to_dict :: "broker_limits \<Rightarrow> (string \<times> json) list" where
  "limits_to_dict l =
     [(''max_leverage'', JStr (max_leverage l)), (''max_position_notional'', JStr (max_position_notional l)),
      (''max_order_quantity'', JStr (max_order_quantity l)), (''max_open_orders'', JInt (max_open_orders l)),
      (''max_orders'', JInt (max_orders l)), (''max_fills'', JInt (max_fills l)),
      (''max_ledger_entries'', JInt (max_ledger_entries l)), (''max_warnings'', JInt (max_warnings l))]"

definition limits_from_dict :: "(string \<times> json) list \<Rightarrow> broker_limits res" where
  "limits_from_dict payload = bindr (exact_keys payload limit_fields) (\<lambda>_. make_limits (dict_get payload))"

record broker_config =
  cf_initial_equity :: string
  cf_quote_asset :: string
  maker_bps :: string
  taker_bps :: string
  market_slippage_bps :: string
  initial_mark_price :: string
  instrument :: instrument_filters
  limits :: broker_limits
  position_mode :: position_mode

text \<open>\<open>BrokerConfig.__post_init__\<close>; the instrument and the limits arrive as values of their classes.\<close>

definition make_config :: "(string \<Rightarrow> json) \<Rightarrow> instrument_filters \<Rightarrow> broker_limits \<Rightarrow> broker_config res" where
  "make_config arg f l =
     bindr (decimal_arg True False (arg ''initial_equity'')) (\<lambda>eq.
     bindr (identifier_field (arg ''quote_asset'')) (\<lambda>qa.
     bindr (decimal_arg False True (arg ''maker_bps'')) (\<lambda>mb.
     bindr (decimal_arg False True (arg ''taker_bps'')) (\<lambda>tb.
     bindr (decimal_arg False True (arg ''market_slippage_bps'')) (\<lambda>sb.
     bindr (decimal_arg True False (arg ''initial_mark_price'')) (\<lambda>mp.
     bindr (coerce_enum position_modes mode_value (arg ''position_mode'')) (\<lambda>pm.
       Inr \<lparr>cf_initial_equity = eq, cf_quote_asset = qa, maker_bps = mb, taker_bps = tb, market_slippage_bps = sb,
            initial_mark_price = mp, instrument = f, limits = l, position_mode = pm\<rparr>)))))))"

definition config_fields :: "string list" where
  "config_fields = [''initial_equity'', ''quote_asset'', ''maker_bps'', ''taker_bps'', ''market_slippage_bps'',
     ''initial_mark_price'', ''instrument'', ''limits'']"

definition config_to_dict :: "broker_config \<Rightarrow> (string \<times> json) list" where
  "config_to_dict c =
     [(''initial_equity'', JStr (cf_initial_equity c)), (''quote_asset'', JStr (cf_quote_asset c)),
      (''maker_bps'', JStr (maker_bps c)), (''taker_bps'', JStr (taker_bps c)),
      (''market_slippage_bps'', JStr (market_slippage_bps c)), (''initial_mark_price'', JStr (initial_mark_price c)),
      (''instrument'', JObj (filters_to_dict (instrument c))), (''limits'', JObj (limits_to_dict (limits c)))]
     @ (if position_mode c = Hedge then [(''position_mode'', JStr (mode_value Hedge))] else [])"

text \<open>\<open>data.pop("position_mode", "ONE_WAY")\<close>.\<close>

definition config_args :: "(string \<times> json) list \<Rightarrow> string \<Rightarrow> json" where
  "config_args payload k =
     (if k = ''position_mode'' then (case map_of payload k of None \<Rightarrow> JStr (mode_value OneWay) | Some v \<Rightarrow> v)
      else dict_get payload k)"

definition config_from_dict :: "(string \<times> json) list \<Rightarrow> broker_config res" where
  "config_from_dict payload =
     bindr (exact_keys (without [''position_mode''] payload) config_fields) (\<lambda>_.
       case (dict_get payload ''instrument'', dict_get payload ''limits'') of
         (JObj i, JObj l) \<Rightarrow>
           bindr (filters_from_dict i) (\<lambda>f. bindr (limits_from_dict l) (\<lambda>ls. make_config (config_args payload) f ls))
       | _ \<Rightarrow> Inl TypeError)"

section \<open>Order requests\<close>

text \<open>Which prices an order of a type carries.\<close>

fun prices_fit :: "order_type \<Rightarrow> 'a option \<Rightarrow> 'a option \<Rightarrow> bool" where
  "prices_fit Market limit stop = (limit = None \<and> stop = None)"
| "prices_fit Limit limit stop = (limit \<noteq> None \<and> stop = None)"
| "prices_fit _ limit stop = (limit = None \<and> stop \<noteq> None)"

record order_request =
  rq_client_order_id :: string
  rq_side :: order_side
  rq_order_type :: order_type
  rq_quantity :: string
  rq_reduce_only :: bool
  rq_limit_price :: "string option"
  rq_stop_price :: "string option"
  rq_leverage :: "string option"
  rq_position_side :: "position_side option"

definition make_request :: "(string \<Rightarrow> json) \<Rightarrow> order_request res" where
  "make_request arg =
     bindr (identifier_field (arg ''client_order_id'')) (\<lambda>cid.
     bindr (coerce_enum order_sides side_value (arg ''side'')) (\<lambda>side.
     bindr (coerce_enum order_types type_value (arg ''order_type'')) (\<lambda>ty.
     bindr (decimal_arg True False (arg ''quantity'')) (\<lambda>q.
     bindr (bool_arg (arg ''reduce_only'')) (\<lambda>ro.
     bindr (optional_decimal True False (arg ''limit_price'')) (\<lambda>lp.
     bindr (optional_decimal True False (arg ''stop_price'')) (\<lambda>sp.
     bindr (optional_decimal True False (arg ''leverage'')) (\<lambda>lev.
     bindr (optional_enum position_sides leg_value (arg ''position_side'')) (\<lambda>ps.
       if \<not> prices_fit ty lp sp then Inl ValueError
       else Inr \<lparr>rq_client_order_id = cid, rq_side = side, rq_order_type = ty, rq_quantity = q, rq_reduce_only = ro,
                 rq_limit_price = lp, rq_stop_price = sp, rq_leverage = lev, rq_position_side = ps\<rparr>)))))))))"

definition request_to_dict :: "order_request \<Rightarrow> (string \<times> json) list" where
  "request_to_dict r =
     [(''client_order_id'', JStr (rq_client_order_id r)), (''side'', JStr (side_value (rq_side r))),
      (''order_type'', JStr (type_value (rq_order_type r))), (''quantity'', JStr (rq_quantity r)),
      (''reduce_only'', JBool (rq_reduce_only r)), (''limit_price'', of_optional (rq_limit_price r)),
      (''stop_price'', of_optional (rq_stop_price r))]
     @ present ''leverage'' (of_optional (rq_leverage r)) @ present ''position_side'' (of_leg (rq_position_side r))"

definition request_fields :: "string list" where
  "request_fields = [''client_order_id'', ''side'', ''order_type'', ''quantity'', ''reduce_only'', ''limit_price'', ''stop_price'']"

definition request_from_mapping :: "(string \<times> json) list \<Rightarrow> order_request res" where
  "request_from_mapping payload =
     bindr (exact_keys (without [''leverage'', ''position_side''] payload) request_fields) (\<lambda>_. make_request (dict_get payload))"

record capacity_request =
  cr_side :: order_side
  cr_order_type :: order_type
  cr_reduce_only :: bool
  cr_limit_price :: "string option"
  cr_stop_price :: "string option"
  cr_leverage :: "string option"
  cr_position_side :: "position_side option"

definition make_capacity_request :: "(string \<Rightarrow> json) \<Rightarrow> capacity_request res" where
  "make_capacity_request arg =
     bindr (coerce_enum order_sides side_value (arg ''side'')) (\<lambda>side.
     bindr (coerce_enum order_types type_value (arg ''order_type'')) (\<lambda>ty.
     bindr (bool_arg (arg ''reduce_only'')) (\<lambda>ro.
     bindr (optional_decimal True False (arg ''limit_price'')) (\<lambda>lp.
     bindr (optional_decimal True False (arg ''stop_price'')) (\<lambda>sp.
     bindr (optional_decimal True False (arg ''leverage'')) (\<lambda>lev.
     bindr (optional_enum position_sides leg_value (arg ''position_side'')) (\<lambda>ps.
       if \<not> prices_fit ty lp sp then Inl ValueError
       else Inr \<lparr>cr_side = side, cr_order_type = ty, cr_reduce_only = ro, cr_limit_price = lp, cr_stop_price = sp,
                 cr_leverage = lev, cr_position_side = ps\<rparr>)))))))"

definition capacity_request_to_dict :: "capacity_request \<Rightarrow> (string \<times> json) list" where
  "capacity_request_to_dict r =
     [(''side'', JStr (side_value (cr_side r))), (''order_type'', JStr (type_value (cr_order_type r))),
      (''reduce_only'', JBool (cr_reduce_only r)), (''limit_price'', of_optional (cr_limit_price r)),
      (''stop_price'', of_optional (cr_stop_price r))]
     @ present ''leverage'' (of_optional (cr_leverage r)) @ present ''position_side'' (of_leg (cr_position_side r))"

definition capacity_request_fields :: "string list" where
  "capacity_request_fields = [''side'', ''order_type'', ''reduce_only'', ''limit_price'', ''stop_price'']"

definition capacity_request_from_mapping :: "(string \<times> json) list \<Rightarrow> capacity_request res" where
  "capacity_request_from_mapping payload =
     bindr (exact_keys (without [''leverage'', ''position_side''] payload) capacity_request_fields)
       (\<lambda>_. make_capacity_request (dict_get payload))"

section \<open>Orders\<close>

text \<open>
  The precision of the default context, in which everything outside a \<open>localcontext\<close> block runs:
  no code under \<open>backend/app\<close> changes it.
\<close>

definition context_prec :: nat where
  "context_prec = 28"

definition supported_versions :: "string list" where
  "supported_versions = [''BAR_CONSERVATIVE_V1'', ''AGG_TRADE_TAPE_V1'', ''BAR_TOUCH_OR_TAPE_V2'', ''AGG_TRADE_TOUCH_OR_TAPE_V2'',
     ''BAR_TOUCH_OR_TAPE_HEDGE_MARGIN_V4'', ''AGG_TRADE_TOUCH_OR_TAPE_HEDGE_MARGIN_V4'']"

text \<open>\<open>value not in SUPPORTED\<close>; an unhashable value raises \<open>TypeError\<close>.\<close>

definition version_arg :: "json \<Rightarrow> string res" where
  "version_arg j =
     (case j of JStr s \<Rightarrow> if s \<in> set supported_versions then Inr s else Inl ValueError
      | JList _ \<Rightarrow> Inl TypeError | JObj _ \<Rightarrow> Inl TypeError | _ \<Rightarrow> Inl ValueError)"

record replay_order =
  or_order_id :: string
  or_client_order_id :: string
  or_side :: order_side
  or_order_type :: order_type
  or_quantity :: string
  or_reduce_only :: bool
  or_limit_price :: "string option"
  or_stop_price :: "string option"
  or_status :: order_status
  or_filled_quantity :: string
  or_remaining_quantity :: string
  or_average_fill_price :: "string option"
  or_accepted_source_sequence :: int
  or_created_time_ms :: int
  or_ordinal :: int
  or_reserved_margin :: string
  or_status_reason :: "string option"
  or_status_history :: "order_status list"
  or_model_version :: string
  or_position_side :: "position_side option"
  or_leverage :: "string option"

definition history_arg :: "json \<Rightarrow> order_status list res" where
  "history_arg j = (case j of JList xs \<Rightarrow> mapr (coerce_enum order_statuses status_value) xs | _ \<Rightarrow> Inl TypeError)"

definition history_endpoints :: "order_status list \<Rightarrow> order_status \<Rightarrow> bool" where
  "history_endpoints h s \<longleftrightarrow> h \<noteq> [] \<and> hd h = New \<and> last h = s"

text \<open>The checks that relate the status, the two quantities and the reserved margin.\<close>

definition status_quantities :: "order_status \<Rightarrow> dec \<Rightarrow> dec \<Rightarrow> dec \<Rightarrow> bool" where
  "status_quantities s filled remaining reserved \<longleftrightarrow>
     (s = New \<longrightarrow> coeff filled = 0 \<and> coeff remaining \<noteq> 0) \<and>
     (s = Open \<longrightarrow> coeff filled = 0) \<and>
     (s = PartiallyFilled \<longrightarrow> coeff filled \<noteq> 0 \<and> coeff remaining \<noteq> 0) \<and>
     (s = Filled \<longrightarrow> coeff remaining = 0) \<and>
     (s = Rejected \<longrightarrow> coeff filled = 0) \<and>
     (terminal s \<longrightarrow> coeff reserved = 0)"

definition make_order :: "(string \<Rightarrow> json) \<Rightarrow> replay_order res" where
  "make_order arg =
     bindr (identifier_field (arg ''order_id'')) (\<lambda>oid.
     bindr (identifier_field (arg ''client_order_id'')) (\<lambda>cid.
     bindr (coerce_enum order_sides side_value (arg ''side'')) (\<lambda>side.
     bindr (coerce_enum order_types type_value (arg ''order_type'')) (\<lambda>ty.
     bindr (coerce_enum order_statuses status_value (arg ''status'')) (\<lambda>st.
     bindr (history_arg (arg ''status_history'')) (\<lambda>hist.
     bindr (guardr (history_endpoints hist st) ValueError) (\<lambda>_.
     bindr (validate_history hist) (\<lambda>_.
     bindr (decimal_arg True False (arg ''quantity'')) (\<lambda>q.
     bindr (optional_decimal True False (arg ''limit_price'')) (\<lambda>lp.
     bindr (optional_decimal True False (arg ''stop_price'')) (\<lambda>sp.
     bindr (guardr (prices_fit ty lp sp) ValueError) (\<lambda>_.
     bindr (decimal_arg False True (arg ''filled_quantity'')) (\<lambda>fq.
     bindr (decimal_arg False True (arg ''remaining_quantity'')) (\<lambda>rem.
     bindr (decimal_arg False True (arg ''reserved_margin'')) (\<lambda>res.
     bindr (guardr (dec_eq (dec_add context_prec (dec_of fq) (dec_of rem)) (dec_of q)) ValueError) (\<lambda>_.
     bindr (optional_decimal True False (arg ''average_fill_price'')) (\<lambda>avg.
     bindr (guardr ((coeff (dec_of fq) = 0) = (avg = None)) ValueError) (\<lambda>_.
     bindr (guardr (status_quantities st (dec_of fq) (dec_of rem) (dec_of res)) ValueError) (\<lambda>_.
     bindr (counter_field (arg ''accepted_source_sequence'')) (\<lambda>sq.
     bindr (counter_field (arg ''created_time_ms'')) (\<lambda>tm.
     bindr (positive_int (arg ''ordinal'')) (\<lambda>ord.
     bindr (bool_arg (arg ''reduce_only'')) (\<lambda>ro.
     bindr (optional_string (arg ''status_reason'')) (\<lambda>reason.
     bindr (version_arg (arg ''model_version'')) (\<lambda>ver.
     bindr (optional_enum position_sides leg_value (arg ''position_side'')) (\<lambda>ps.
     bindr (optional_decimal True False (arg ''leverage'')) (\<lambda>lev.
       Inr \<lparr>or_order_id = oid, or_client_order_id = cid, or_side = side, or_order_type = ty, or_quantity = q,
            or_reduce_only = ro, or_limit_price = lp, or_stop_price = sp, or_status = st, or_filled_quantity = fq,
            or_remaining_quantity = rem, or_average_fill_price = avg, or_accepted_source_sequence = sq,
            or_created_time_ms = tm, or_ordinal = ord, or_reserved_margin = res, or_status_reason = reason,
            or_status_history = hist, or_model_version = ver, or_position_side = ps,
            or_leverage = lev\<rparr>)))))))))))))))))))))))))))"

definition order_to_dict :: "replay_order \<Rightarrow> (string \<times> json) list" where
  "order_to_dict r =
     [(''order_id'', JStr (or_order_id r)), (''client_order_id'', JStr (or_client_order_id r)),
      (''side'', JStr (side_value (or_side r))), (''order_type'', JStr (type_value (or_order_type r))),
      (''quantity'', JStr (or_quantity r)), (''reduce_only'', JBool (or_reduce_only r)),
      (''limit_price'', of_optional (or_limit_price r)), (''stop_price'', of_optional (or_stop_price r)),
      (''status'', JStr (status_value (or_status r))), (''filled_quantity'', JStr (or_filled_quantity r)),
      (''remaining_quantity'', JStr (or_remaining_quantity r)),
      (''average_fill_price'', of_optional (or_average_fill_price r)),
      (''accepted_source_sequence'', JInt (or_accepted_source_sequence r)),
      (''created_time_ms'', JInt (or_created_time_ms r)), (''ordinal'', JInt (or_ordinal r)),
      (''reserved_margin'', JStr (or_reserved_margin r)), (''status_reason'', of_optional (or_status_reason r)),
      (''status_history'', JList (map (\<lambda>s. JStr (status_value s)) (or_status_history r))),
      (''model_version'', JStr (or_model_version r))]
     @ present ''position_side'' (of_leg (or_position_side r)) @ present ''leverage'' (of_optional (or_leverage r))"

text \<open>\<open>dataclasses.replace\<close>, and construction from values of the right types.\<close>

definition new_order :: "replay_order \<Rightarrow> replay_order res" where
  "new_order r = make_order (dict_get (order_to_dict r))"

definition order_fields :: "string list" where
  "order_fields = [''order_id'', ''client_order_id'', ''side'', ''order_type'', ''quantity'', ''reduce_only'', ''limit_price'',
     ''stop_price'', ''status'', ''filled_quantity'', ''remaining_quantity'', ''average_fill_price'',
     ''accepted_source_sequence'', ''created_time_ms'', ''ordinal'', ''reserved_margin'', ''status_reason'',
     ''status_history'', ''model_version'']"

definition order_from_dict :: "(string \<times> json) list \<Rightarrow> replay_order res" where
  "order_from_dict payload =
     bindr (exact_keys (without [''position_side'', ''leverage''] payload) order_fields) (\<lambda>_.
       case dict_get payload ''status_history'' of JList _ \<Rightarrow> make_order (dict_get payload) | _ \<Rightarrow> Inl TypeError)"

section \<open>Fills, accounts, closed trades, warnings\<close>

record replay_fill =
  fl_fill_id :: string
  fl_order_id :: string
  fl_side :: order_side
  fl_quantity :: string
  fl_price :: string
  fl_notional :: string
  fl_fee :: string
  fl_fee_asset :: string
  fl_liquidity :: liquidity_role
  fl_reason :: fill_reason
  fl_source_sequence :: int
  fl_event_time_ms :: int
  fl_synthetic :: bool
  fl_historical_execution :: bool
  fl_model_version :: string
  fl_position_side :: "position_side option"

definition make_fill :: "(string \<Rightarrow> json) \<Rightarrow> replay_fill res" where
  "make_fill arg =
     bindr (identifier_field (arg ''fill_id'')) (\<lambda>fid.
     bindr (identifier_field (arg ''order_id'')) (\<lambda>oid.
     bindr (identifier_field (arg ''fee_asset'')) (\<lambda>asset.
     bindr (coerce_enum order_sides side_value (arg ''side'')) (\<lambda>side.
     bindr (coerce_enum liquidity_roles liquidity_value (arg ''liquidity'')) (\<lambda>liq.
     bindr (coerce_enum fill_reasons reason_value (arg ''reason'')) (\<lambda>reason.
     bindr (decimal_arg True False (arg ''quantity'')) (\<lambda>q.
     bindr (decimal_arg True False (arg ''price'')) (\<lambda>pr.
     bindr (decimal_arg True False (arg ''notional'')) (\<lambda>n.
     bindr (decimal_arg False True (arg ''fee'')) (\<lambda>fee.
     bindr (guardr (dec_eq (dec_of n) (dec_mul 60 (dec_of q) (dec_of pr))) ValueError) (\<lambda>_.
     bindr (counter_field (arg ''source_sequence'')) (\<lambda>sq.
     bindr (counter_field (arg ''event_time_ms'')) (\<lambda>tm.
     bindr (bool_arg (arg ''synthetic'')) (\<lambda>syn.
     bindr (bool_arg (arg ''historical_execution'')) (\<lambda>hist.
     bindr (version_arg (arg ''model_version'')) (\<lambda>ver.
     bindr (optional_enum position_sides leg_value (arg ''position_side'')) (\<lambda>ps.
       Inr \<lparr>fl_fill_id = fid, fl_order_id = oid, fl_side = side, fl_quantity = q, fl_price = pr, fl_notional = n,
            fl_fee = fee, fl_fee_asset = asset, fl_liquidity = liq, fl_reason = reason, fl_source_sequence = sq,
            fl_event_time_ms = tm, fl_synthetic = syn, fl_historical_execution = hist, fl_model_version = ver,
            fl_position_side = ps\<rparr>)))))))))))))))))"

definition fill_to_dict :: "replay_fill \<Rightarrow> (string \<times> json) list" where
  "fill_to_dict f =
     [(''fill_id'', JStr (fl_fill_id f)), (''order_id'', JStr (fl_order_id f)), (''side'', JStr (side_value (fl_side f))),
      (''quantity'', JStr (fl_quantity f)), (''price'', JStr (fl_price f)), (''notional'', JStr (fl_notional f)),
      (''fee'', JStr (fl_fee f)), (''fee_asset'', JStr (fl_fee_asset f)),
      (''liquidity'', JStr (liquidity_value (fl_liquidity f))), (''reason'', JStr (reason_value (fl_reason f))),
      (''source_sequence'', JInt (fl_source_sequence f)), (''event_time_ms'', JInt (fl_event_time_ms f)),
      (''synthetic'', JBool (fl_synthetic f)), (''historical_execution'', JBool (fl_historical_execution f)),
      (''model_version'', JStr (fl_model_version f))] @ present ''position_side'' (of_leg (fl_position_side f))"

definition new_fill :: "replay_fill \<Rightarrow> replay_fill res" where
  "new_fill f = make_fill (dict_get (fill_to_dict f))"

definition fill_fields :: "string list" where
  "fill_fields = [''fill_id'', ''order_id'', ''side'', ''quantity'', ''price'', ''notional'', ''fee'', ''fee_asset'',
     ''liquidity'', ''reason'', ''source_sequence'', ''event_time_ms'', ''synthetic'', ''historical_execution'',
     ''model_version'']"

definition fill_from_dict :: "(string \<times> json) list \<Rightarrow> replay_fill res" where
  "fill_from_dict payload =
     bindr (exact_keys (without [''position_side''] payload) fill_fields) (\<lambda>_. make_fill (dict_get payload))"

record account =
  ac_cash_balance :: string
  ac_equity :: string
  ac_available_equity :: string
  ac_margin_used :: string
  ac_reserved_margin :: string
  ac_realized_pnl :: string
  ac_unrealized_pnl :: string
  ac_fees_paid :: string
  ac_quote_asset :: string

definition make_account :: "(string \<Rightarrow> json) \<Rightarrow> account res" where
  "make_account arg =
     bindr (decimal_arg False False (arg ''cash_balance'')) (\<lambda>cash.
     bindr (decimal_arg False False (arg ''equity'')) (\<lambda>eq.
     bindr (decimal_arg False False (arg ''available_equity'')) (\<lambda>av.
     bindr (decimal_arg False False (arg ''realized_pnl'')) (\<lambda>rp.
     bindr (decimal_arg False False (arg ''unrealized_pnl'')) (\<lambda>up.
     bindr (decimal_arg False True (arg ''margin_used'')) (\<lambda>mu.
     bindr (decimal_arg False True (arg ''reserved_margin'')) (\<lambda>rm.
     bindr (decimal_arg False True (arg ''fees_paid'')) (\<lambda>fees.
     bindr (identifier_field (arg ''quote_asset'')) (\<lambda>qa.
       if \<not> dec_eq (dec_of eq) (dec_add 60 (dec_of cash) (dec_of up)) then Inl ValueError
       else if \<not> dec_eq (dec_of av) (dec_sub 60 (dec_sub 60 (dec_of eq) (dec_of mu)) (dec_of rm)) then Inl ValueError
       else Inr \<lparr>ac_cash_balance = cash, ac_equity = eq, ac_available_equity = av, ac_margin_used = mu,
                 ac_reserved_margin = rm, ac_realized_pnl = rp, ac_unrealized_pnl = up, ac_fees_paid = fees,
                 ac_quote_asset = qa\<rparr>)))))))))"

definition account_to_dict :: "account \<Rightarrow> (string \<times> json) list" where
  "account_to_dict a =
     [(''cash_balance'', JStr (ac_cash_balance a)), (''equity'', JStr (ac_equity a)),
      (''available_equity'', JStr (ac_available_equity a)), (''margin_used'', JStr (ac_margin_used a)),
      (''reserved_margin'', JStr (ac_reserved_margin a)), (''realized_pnl'', JStr (ac_realized_pnl a)),
      (''unrealized_pnl'', JStr (ac_unrealized_pnl a)), (''fees_paid'', JStr (ac_fees_paid a)),
      (''quote_asset'', JStr (ac_quote_asset a))]"

definition new_account :: "account \<Rightarrow> account res" where
  "new_account a = make_account (dict_get (account_to_dict a))"

record closed_trade =
  ct_trade_id :: string
  ct_order_id :: string
  ct_fill_id :: string
  ct_side :: order_side
  ct_quantity :: string
  ct_entry_price :: string
  ct_exit_price :: string
  ct_realized_pnl :: string
  ct_source_sequence :: int
  ct_position_side :: "position_side option"

text \<open>\<open>(exit - entry) * quantity * -side.sign\<close>, where the unary minus rounds as well.\<close>

definition trade_realized :: "order_side \<Rightarrow> dec \<Rightarrow> dec \<Rightarrow> dec \<Rightarrow> dec" where
  "trade_realized side quantity entry exit =
     dec_mul 60 (dec_mul 60 (dec_sub 60 exit entry) quantity) (dec_fix 60 (dec_neg (side_sign side)))"

definition make_trade :: "(string \<Rightarrow> json) \<Rightarrow> closed_trade res" where
  "make_trade arg =
     bindr (identifier_field (arg ''trade_id'')) (\<lambda>tid.
     bindr (identifier_field (arg ''order_id'')) (\<lambda>oid.
     bindr (identifier_field (arg ''fill_id'')) (\<lambda>fid.
     bindr (coerce_enum order_sides side_value (arg ''side'')) (\<lambda>side.
     bindr (optional_enum position_sides leg_value (arg ''position_side'')) (\<lambda>ps.
     bindr (decimal_arg True False (arg ''quantity'')) (\<lambda>q.
     bindr (decimal_arg True False (arg ''entry_price'')) (\<lambda>en.
     bindr (decimal_arg True False (arg ''exit_price'')) (\<lambda>ex.
     bindr (decimal_arg False False (arg ''realized_pnl'')) (\<lambda>rp.
     bindr (counter_field (arg ''source_sequence'')) (\<lambda>sq.
       if \<not> dec_eq (dec_of rp) (trade_realized side (dec_of q) (dec_of en) (dec_of ex)) then Inl ValueError
       else Inr \<lparr>ct_trade_id = tid, ct_order_id = oid, ct_fill_id = fid, ct_side = side, ct_quantity = q,
                 ct_entry_price = en, ct_exit_price = ex, ct_realized_pnl = rp, ct_source_sequence = sq,
                 ct_position_side = ps\<rparr>))))))))))"

definition trade_to_dict :: "closed_trade \<Rightarrow> (string \<times> json) list" where
  "trade_to_dict t =
     [(''trade_id'', JStr (ct_trade_id t)), (''order_id'', JStr (ct_order_id t)), (''fill_id'', JStr (ct_fill_id t)),
      (''side'', JStr (side_value (ct_side t))), (''quantity'', JStr (ct_quantity t)),
      (''entry_price'', JStr (ct_entry_price t)), (''exit_price'', JStr (ct_exit_price t)),
      (''realized_pnl'', JStr (ct_realized_pnl t)), (''source_sequence'', JInt (ct_source_sequence t))]
     @ present ''position_side'' (of_leg (ct_position_side t))"

definition new_trade :: "closed_trade \<Rightarrow> closed_trade res" where
  "new_trade t = make_trade (dict_get (trade_to_dict t))"

definition trade_fields :: "string list" where
  "trade_fields = [''trade_id'', ''order_id'', ''fill_id'', ''side'', ''quantity'', ''entry_price'', ''exit_price'',
     ''realized_pnl'', ''source_sequence'']"

definition trade_from_dict :: "(string \<times> json) list \<Rightarrow> closed_trade res" where
  "trade_from_dict payload =
     bindr (exact_keys (without [''position_side''] payload) trade_fields) (\<lambda>_. make_trade (dict_get payload))"

record broker_warning =
  wa_warning_id :: string
  wa_code :: warning_code
  wa_source_sequence :: int
  wa_order_ids :: "string list"
  wa_message :: string

text \<open>\<open>str.strip\<close> leaves something of the message.\<close>

definition blank :: "string \<Rightarrow> bool" where
  "blank s = list_all (\<lambda>c. let n = (of_char c :: nat) in n = 32 \<or> 9 \<le> n \<and> n \<le> 13 \<or> 28 \<le> n \<and> n \<le> 31) s"

definition make_warning :: "(string \<Rightarrow> json) \<Rightarrow> broker_warning res" where
  "make_warning arg =
     bindr (identifier_field (arg ''warning_id'')) (\<lambda>wid.
     bindr (coerce_enum warning_codes warning_value (arg ''code'')) (\<lambda>code.
     bindr (counter_field (arg ''source_sequence'')) (\<lambda>sq.
     bindr (case arg ''order_ids'' of JList xs \<Rightarrow> mapr identifier_field xs | _ \<Rightarrow> Inl TypeError) (\<lambda>ids.
       if ids = [] then Inl ValueError
       else case arg ''message'' of
           JStr m \<Rightarrow> if blank m then Inl ValueError
             else Inr \<lparr>wa_warning_id = wid, wa_code = code, wa_source_sequence = sq, wa_order_ids = ids, wa_message = m\<rparr>
         | _ \<Rightarrow> Inl ValueError))))"

definition warning_to_dict :: "broker_warning \<Rightarrow> (string \<times> json) list" where
  "warning_to_dict w =
     [(''warning_id'', JStr (wa_warning_id w)), (''code'', JStr (warning_value (wa_code w))),
      (''source_sequence'', JInt (wa_source_sequence w)), (''order_ids'', JList (map JStr (wa_order_ids w))),
      (''message'', JStr (wa_message w))]"

definition new_warning :: "broker_warning \<Rightarrow> broker_warning res" where
  "new_warning w = make_warning (dict_get (warning_to_dict w))"

definition warning_from_dict :: "(string \<times> json) list \<Rightarrow> broker_warning res" where
  "warning_from_dict payload =
     bindr (exact_keys payload [''warning_id'', ''code'', ''source_sequence'', ''order_ids'', ''message'']) (\<lambda>_.
       case dict_get payload ''order_ids'' of JList _ \<Rightarrow> make_warning (dict_get payload) | _ \<Rightarrow> Inl TypeError)"

section \<open>Constructors accept what they return\<close>

named_theorems again \<open>a field check accepts its own result\<close>

lemma dict_get_present [simp]:
  "dict_get (present k j @ d) k' = (if k = k' \<and> j \<noteq> JNull then j else dict_get d k')"
  "dict_get (present k j) k' = (if k = k' then j else JNull)"
  by (auto simp: present_def)

lemma coerce_member:
  "find (\<lambda>m. value m = value a) members = Some a \<Longrightarrow> coerce_enum members value (JStr (value a)) = Inr a"
  by (simp add: coerce_enum_def)

lemma coerce_simps [simp]:
  "coerce_enum order_sides side_value (JStr (side_value a)) = Inr a"
  "coerce_enum order_types type_value (JStr (type_value t)) = Inr t"
  "coerce_enum order_statuses status_value (JStr (status_value st)) = Inr st"
  "coerce_enum position_sides leg_value (JStr (leg_value l)) = Inr l"
  "coerce_enum position_modes mode_value (JStr (mode_value m)) = Inr m"
  "coerce_enum liquidity_roles liquidity_value (JStr (liquidity_value q)) = Inr q"
  "coerce_enum fill_reasons reason_value (JStr (reason_value r)) = Inr r"
  "coerce_enum warning_codes warning_value (JStr (warning_value w)) = Inr w"
  subgoal by (rule coerce_member, cases a) (simp_all add: order_sides_def)
  subgoal by (rule coerce_member, cases t) (simp_all add: order_types_def)
  subgoal by (rule coerce_member, cases st) (simp_all add: order_statuses_def)
  subgoal by (rule coerce_member, cases l) (simp_all add: position_sides_def)
  subgoal by (rule coerce_member, cases m) (simp_all add: position_modes_def)
  subgoal by (rule coerce_member, cases q) (simp_all add: liquidity_roles_def)
  subgoal by (rule coerce_member, cases r) (simp_all add: fill_reasons_def)
  subgoal by (rule coerce_member, cases w) (simp_all add: warning_codes_def)
  done

lemma null_args [simp]:
  "optional_decimal p n JNull = Inr None" "optional_enum ms v JNull = Inr None" "optional_string JNull = Inr None"
  by (simp_all add: optional_decimal_def optional_enum_def optional_string_def)

lemma decimal_arg_again [again]: "decimal_arg p n j = Inr s \<Longrightarrow> decimal_arg p n (JStr s) = Inr s"
  using canonical_decimal_again by (auto simp: decimal_arg_def split: json.splits)

lemma optional_decimal_again [again]: "optional_decimal p n j = Inr s \<Longrightarrow> optional_decimal p n (of_optional s) = Inr s"
  using decimal_arg_again[of p n j] by (auto simp: optional_decimal_def of_optional_def res_simps split: json.splits)

lemma optional_leg_again [again]: "optional_enum position_sides leg_value (of_leg x) = Inr x"
  by (cases x) (simp_all add: optional_enum_def of_leg_def of_optional_def)

lemma of_leg_None [simp]: "of_leg x = JNull \<longleftrightarrow> x = None" "of_leg None = JNull"
  by (cases x) (simp_all add: of_leg_def of_optional_def)

lemma of_optional_None [simp]: "of_optional x = JNull \<longleftrightarrow> x = None" "of_optional None = JNull"
  by (cases x) (simp_all add: of_optional_def)

lemma bool_arg_again [again]: "bool_arg (JBool b) = Inr b"
  by (simp add: bool_arg_def)

lemma positive_int_again [again]: "positive_int j = Inr n \<Longrightarrow> positive_int (JInt n) = Inr n"
  by (auto simp: positive_int_def split: json.splits if_splits)

lemma optional_string_again [again]: "optional_string (of_optional x) = Inr x"
  by (cases x) (simp_all add: optional_string_def of_optional_def)

lemma version_again [again]: "version_arg j = Inr s \<Longrightarrow> version_arg (JStr s) = Inr s"
  by (auto simp: version_arg_def split: json.splits if_splits)

lemma mapr_again: "(\<And>x. x \<in> set xs \<Longrightarrow> f (g x) = Inr x) \<Longrightarrow> mapr f (map g xs) = Inr xs"
  by (induction xs) simp_all

lemma history_again [again]: "history_arg (JList (map (\<lambda>s. JStr (status_value s)) h)) = Inr h"
  by (simp add: history_arg_def mapr_again)

lemma identifiers_again [again]: "mapr identifier_field xs = Inr ids \<Longrightarrow> mapr identifier_field (map JStr ids) = Inr ids"
  by (induction xs arbitrary: ids) (auto simp: res_simps identifier_again)

lemmas [again] = identifier_again counter_again

lemma make_position_again: "make_position arg = Inr p \<Longrightarrow> new_position p = Inr p"
  unfolding new_position_def make_position_def position_to_dict_def
  by (auto simp: res_simps again split: if_splits)

lemma make_filters_again: "make_filters arg = Inr f \<Longrightarrow> make_filters (dict_get (filters_to_dict f)) = Inr f"
  unfolding make_filters_def filters_to_dict_def by (auto simp: res_simps again split: if_splits)

lemma make_limits_again: "make_limits arg = Inr f \<Longrightarrow> make_limits (dict_get (limits_to_dict f)) = Inr f"
  unfolding make_limits_def limits_to_dict_def by (auto simp: res_simps again split: if_splits)

lemma make_request_again: "make_request arg = Inr r \<Longrightarrow> make_request (dict_get (request_to_dict r)) = Inr r"
  unfolding make_request_def request_to_dict_def by (auto simp: res_simps again split: if_splits)

lemma make_capacity_request_again:
  "make_capacity_request arg = Inr r \<Longrightarrow> make_capacity_request (dict_get (capacity_request_to_dict r)) = Inr r"
  unfolding make_capacity_request_def capacity_request_to_dict_def by (auto simp: res_simps again split: if_splits)

lemma make_order_again: "make_order arg = Inr r \<Longrightarrow> new_order r = Inr r"
  unfolding new_order_def make_order_def order_to_dict_def by (auto simp: res_simps again)

lemma make_fill_again: "make_fill arg = Inr f \<Longrightarrow> new_fill f = Inr f"
  unfolding new_fill_def make_fill_def fill_to_dict_def by (auto simp: res_simps again)

lemma make_account_again: "make_account arg = Inr a \<Longrightarrow> new_account a = Inr a"
  unfolding new_account_def make_account_def account_to_dict_def by (auto simp: res_simps again split: if_splits)

lemma make_trade_again: "make_trade arg = Inr t \<Longrightarrow> new_trade t = Inr t"
  unfolding new_trade_def make_trade_def trade_to_dict_def by (auto simp: res_simps again split: if_splits)

lemma make_warning_again: "make_warning arg = Inr w \<Longrightarrow> new_warning w = Inr w"
  unfolding new_warning_def make_warning_def warning_to_dict_def
  by (auto simp: res_simps again split: if_splits json.splits)

section \<open>Dictionaries and back\<close>

lemma without_simps [simp]:
  "without ks [] = []" "without ks ((k, j) # d) = (if k \<in> set ks then without ks d else (k, j) # without ks d)"
  "without ks (d @ d') = without ks d @ without ks d'"
  by (simp_all add: without_def)

lemma without_present [simp]: "k \<in> set ks \<Longrightarrow> without ks (present k j) = []"
  by (simp add: present_def)

lemmas to_from_simps = exact_keys_def

lemma position_round_trip: "make_position arg = Inr p \<Longrightarrow> position_from_dict (position_to_dict p) = Inr p"
  using make_position_again[of arg p]
  by (simp add: position_from_dict_def new_position_def to_from_simps position_fields_def) (simp add: position_to_dict_def insert_commute)

lemma filters_round_trip: "make_filters arg = Inr f \<Longrightarrow> filters_from_dict (filters_to_dict f) = Inr f"
  using make_filters_again[of arg f]
  by (simp add: filters_from_dict_def to_from_simps filter_fields_def) (simp add: filters_to_dict_def insert_commute)

lemma limits_round_trip: "make_limits arg = Inr f \<Longrightarrow> limits_from_dict (limits_to_dict f) = Inr f"
  using make_limits_again[of arg f]
  by (simp add: limits_from_dict_def to_from_simps limit_fields_def) (simp add: limits_to_dict_def insert_commute)

lemma request_round_trip: "make_request arg = Inr r \<Longrightarrow> request_from_mapping (request_to_dict r) = Inr r"
  using make_request_again[of arg r]
  by (simp add: request_from_mapping_def to_from_simps request_fields_def) (simp add: request_to_dict_def insert_commute)

lemma capacity_request_round_trip:
  "make_capacity_request arg = Inr r \<Longrightarrow> capacity_request_from_mapping (capacity_request_to_dict r) = Inr r"
  using make_capacity_request_again[of arg r]
  by (simp add: capacity_request_from_mapping_def to_from_simps capacity_request_fields_def)
     (simp add: capacity_request_to_dict_def insert_commute)

lemma order_round_trip: "make_order arg = Inr r \<Longrightarrow> order_from_dict (order_to_dict r) = Inr r"
proof -
  assume "make_order arg = Inr r"
  then have "new_order r = Inr r" by (rule make_order_again)
  moreover have "set (map fst (without [''position_side'', ''leverage''] (order_to_dict r))) = set order_fields"
    "dict_get (order_to_dict r) ''status_history'' = JList (map (\<lambda>s. JStr (status_value s)) (or_status_history r))"
    by (simp_all add: order_to_dict_def order_fields_def)
  ultimately show ?thesis by (simp add: order_from_dict_def to_from_simps new_order_def)
qed

lemma fill_round_trip: "make_fill arg = Inr f \<Longrightarrow> fill_from_dict (fill_to_dict f) = Inr f"
proof -
  assume "make_fill arg = Inr f"
  then have "new_fill f = Inr f" by (rule make_fill_again)
  moreover have "set (map fst (without [''position_side''] (fill_to_dict f))) = set fill_fields"
    by (simp add: fill_to_dict_def fill_fields_def)
  ultimately show ?thesis by (simp add: fill_from_dict_def to_from_simps new_fill_def)
qed

lemma trade_round_trip: "make_trade arg = Inr t \<Longrightarrow> trade_from_dict (trade_to_dict t) = Inr t"
proof -
  assume "make_trade arg = Inr t"
  then have "new_trade t = Inr t" by (rule make_trade_again)
  moreover have "set (map fst (without [''position_side''] (trade_to_dict t))) = set trade_fields"
    by (simp add: trade_to_dict_def trade_fields_def)
  ultimately show ?thesis by (simp add: trade_from_dict_def to_from_simps new_trade_def)
qed

lemma warning_round_trip: "make_warning arg = Inr w \<Longrightarrow> warning_from_dict (warning_to_dict w) = Inr w"
proof -
  assume "make_warning arg = Inr w"
  then have "new_warning w = Inr w" by (rule make_warning_again)
  then show ?thesis by (simp add: warning_from_dict_def to_from_simps new_warning_def) (simp add: warning_to_dict_def)
qed

text \<open>A hedge book of legs that were constructed.\<close>

lemma book_round_trip:
  assumes "make_position l = Inr (bk_long b)" "make_position s = Inr (bk_short b)" "make_position_book (bk_long b) (bk_short b) = Inr b"
  shows "book_from_dict (book_to_dict b) = Inr b"
  using assms position_round_trip by (simp add: book_from_dict_def book_to_dict_def to_from_simps insert_commute)

lemma config_round_trip:
  assumes "make_config arg (instrument c) (limits c) = Inr c" "make_filters fa = Inr (instrument c)" "make_limits la = Inr (limits c)"
  shows "config_from_dict (config_to_dict c) = Inr c"
proof -
  have args: "config_args (config_to_dict c) ''position_mode'' = JStr (mode_value (position_mode c))"
    "\<And>k. k \<noteq> ''position_mode'' \<Longrightarrow> config_args (config_to_dict c) k = dict_get (config_to_dict c) k"
    by (cases "position_mode c"; simp add: config_args_def config_to_dict_def) (simp add: config_args_def)
  have "make_config (config_args (config_to_dict c)) (instrument c) (limits c) = Inr c"
    using assms(1) coerce_simps(5)[of Hedge] coerce_simps(5)[of OneWay] unfolding make_config_def
    by (cases c; cases "position_mode c") (auto simp: res_simps again config_to_dict_def config_args_def)
  then show ?thesis using filters_round_trip[OF assms(2)] limits_round_trip[OF assms(3)]
    by (simp add: config_from_dict_def to_from_simps config_fields_def) (simp add: config_to_dict_def insert_commute)
qed

section \<open>The life of an order\<close>

lemma terminal_final: "terminal s \<longleftrightarrow> order_transitions s = {}"
  by (cases s) (simp_all add: terminal_def)

lemma validate_transition_iff [simp]: "validate_order_transition a b = Inr u \<longleftrightarrow> b \<in> order_transitions a"
  by (simp add: validate_order_transition_def)

lemma validate_history_iff:
  "validate_history h = Inr u \<longleftrightarrow> (\<forall>i. Suc i < length h \<longrightarrow> h ! Suc i \<in> order_transitions (h ! i))"
proof (induction h rule: validate_history.induct)
  case (1 a b rest)
  have "(\<forall>i. Suc i < length (a # b # rest) \<longrightarrow> (a # b # rest) ! Suc i \<in> order_transitions ((a # b # rest) ! i)) \<longleftrightarrow>
      b \<in> order_transitions a \<and> (\<forall>i. Suc i < length (b # rest) \<longrightarrow> (b # rest) ! Suc i \<in> order_transitions ((b # rest) ! i))"
    by (auto simp: nth_Cons split: nat.splits)
  then show ?case using 1 by (simp add: bindr_eq_Inr)
qed simp_all

text \<open>How far an order has come; only a partial fill may repeat.\<close>

fun stage :: "order_status \<Rightarrow> nat" where
  "stage New = 0"
| "stage Open = 1"
| "stage PartiallyFilled = 2"
| "stage _ = 3"

lemma transition_advances: "t \<in> order_transitions s \<Longrightarrow> stage s < stage t \<or> s = PartiallyFilled \<and> t = PartiallyFilled"
  by (cases s) auto

lemma validate_history_snoc:
  "h \<noteq> [] \<Longrightarrow> validate_history (h @ [s]) = Inr () \<longleftrightarrow> validate_history h = Inr () \<and> s \<in> order_transitions (last h)"
proof (induction h rule: validate_history.induct)
  case (1 a b rest)
  then show ?case by (auto simp: bindr_eq_Inr)
qed (auto simp: bindr_eq_Inr)

lemma history_advances:
  "validate_history (a # h) = Inr () \<Longrightarrow> x \<in> set h \<Longrightarrow> stage a < stage x \<or> a = PartiallyFilled \<and> x = PartiallyFilled"
proof (induction h arbitrary: a)
  case (Cons b h)
  have t: "b \<in> order_transitions a" and h: "validate_history (b # h) = Inr ()" using Cons.prems(1) by (auto simp: bindr_eq_Inr)
  note ab = transition_advances[OF t]
  show ?case
  proof (cases "x = b")
    case False
    then have "x \<in> set h" using Cons.prems(2) by simp
    then show ?thesis using Cons.IH[OF h] ab by auto
  qed (use ab in simp)
qed simp

lemma history_distinct: "validate_history h = Inr () \<Longrightarrow> distinct (List.filter (\<lambda>s. s \<noteq> PartiallyFilled) h)"
proof (induction h)
  case (Cons a h)
  have "validate_history h = Inr ()" using Cons.prems by (cases h) (auto simp: bindr_eq_Inr)
  then show ?case using Cons.IH history_advances[OF Cons.prems] by auto
qed simp

lemma history_open_ended:
  "validate_history h = Inr () \<Longrightarrow> Suc i < length h \<Longrightarrow> \<not> terminal (h ! i)"
  by (auto simp: validate_history_iff terminal_final)

lemma make_order_parts:
  assumes "make_order arg = Inr r"
  shows "history_endpoints (or_status_history r) (or_status r)" "validate_history (or_status_history r) = Inr ()"
    "dec_val (dec_add context_prec (dec_of (or_filled_quantity r)) (dec_of (or_remaining_quantity r))) = dec_val (dec_of (or_quantity r))"
    "status_quantities (or_status r) (dec_of (or_filled_quantity r)) (dec_of (or_remaining_quantity r)) (dec_of (or_reserved_margin r))"
    "prices_fit (or_order_type r) (or_limit_price r) (or_stop_price r)"
    "coeff (dec_of (or_filled_quantity r)) = 0 \<longleftrightarrow> or_average_fill_price r = None"
  using assms unfolding make_order_def by (auto simp: bindr_eq_Inr)

section \<open>Properties\<close>

text \<open>The life of an order. The history of an order that was constructed starts NEW, ends in its status
  and takes only allowed transitions; a terminal status has no successor, and no status but a
  partial fill occurs twice. Its quantities fit the status: what is filled and what remains add up
  to the quantity, an open order holds no fill, a filled one nothing to fill, and a terminal one no margin.\<close>

lemma order_lifecycle:
  assumes "make_order arg = Inr r"
  shows "hd (or_status_history r) = New \<and> last (or_status_history r) = or_status r \<and>
    (\<forall>i. Suc i < length (or_status_history r) \<longrightarrow>
      or_status_history r ! Suc i \<in> order_transitions (or_status_history r ! i) \<and> \<not> terminal (or_status_history r ! i)) \<and>
    distinct (List.filter (\<lambda>s. s \<noteq> PartiallyFilled) (or_status_history r)) \<and>
    dec_val (dec_add context_prec (dec_of (or_filled_quantity r)) (dec_of (or_remaining_quantity r))) = dec_val (dec_of (or_quantity r)) \<and>
    status_quantities (or_status r) (dec_of (or_filled_quantity r)) (dec_of (or_remaining_quantity r)) (dec_of (or_reserved_margin r))"
  using make_order_parts[OF assms] history_distinct[OF make_order_parts(2)[OF assms]] history_open_ended[OF make_order_parts(2)[OF assms]]
  by (auto simp: history_endpoints_def validate_history_iff)

definition sample_order :: replay_order where
  "sample_order = \<lparr>or_order_id = ''ord-0000000001'', or_client_order_id = ''c1'', or_side = Buy, or_order_type = Limit,
     or_quantity = ''2'', or_reduce_only = False, or_limit_price = Some ''99.5'', or_stop_price = None, or_status = PartiallyFilled,
     or_filled_quantity = ''0.5'', or_remaining_quantity = ''1.5'', or_average_fill_price = Some ''99.5'',
     or_accepted_source_sequence = 3, or_created_time_ms = 60000, or_ordinal = 1, or_reserved_margin = ''14.925'',
     or_status_reason = None, or_status_history = [New, Open, PartiallyFilled], or_model_version = ''AGG_TRADE_TAPE_V1'',
     or_position_side = None, or_leverage = None\<rparr>"

text \<open>Evaluation runs a computation before what follows it.\<close>

lemma bindr_weak_cong: "m = m' \<Longrightarrow> bindr m f = bindr m' f"
  by simp

lemma sample_order_fields:
  "identifier_field (JStr ''ord-0000000001'') = Inr ''ord-0000000001''" "identifier_field (JStr ''c1'') = Inr ''c1''"
  "decimal_arg True False (JStr ''2'') = Inr ''2''" "optional_decimal True False (JStr ''99.5'') = Inr (Some ''99.5'')"
  "decimal_arg False True (JStr ''0.5'') = Inr ''0.5''" "decimal_arg False True (JStr ''1.5'') = Inr ''1.5''"
  "decimal_arg False True (JStr ''14.925'') = Inr ''14.925''" "counter_field (JInt 3) = Inr 3" "counter_field (JInt 60000) = Inr 60000"
  "version_arg (JStr ''AGG_TRADE_TAPE_V1'') = Inr ''AGG_TRADE_TAPE_V1''"
  by code_simp+

lemma sample_order_checks:
  "history_endpoints [New, Open, PartiallyFilled] PartiallyFilled" "validate_history [New, Open, PartiallyFilled] = Inr ()"
  "dec_eq (dec_add context_prec (dec_of ''0.5'') (dec_of ''1.5'')) (dec_of ''2'')" "coeff (dec_of ''0.5'') \<noteq> 0"
  "status_quantities PartiallyFilled (dec_of ''0.5'') (dec_of ''1.5'') (dec_of ''14.925'')"
  by code_simp+

lemma sample_order_new: "make_order (dict_get (order_to_dict sample_order)) = Inr sample_order"
  unfolding make_order_def
  by (simp add: order_to_dict_def sample_order_def of_optional_def history_again[of "[New, Open, PartiallyFilled]", simplified]
      coerce_simps(1)[of Buy, simplified] coerce_simps(2)[of Limit, simplified] coerce_simps(3)[of PartiallyFilled, simplified]
      positive_int_def bool_arg_def sample_order_fields sample_order_checks del: dec_eq_val validate_history.simps cong: bindr_weak_cong)

lemma order_lifecycle_example:
  "PartiallyFilled \<in> order_transitions Open \<and> distinct (List.filter (\<lambda>s. s \<noteq> PartiallyFilled) (or_status_history sample_order))"
  using order_lifecycle[OF sample_order_new] by (auto simp: sample_order_def)

text \<open>C40: The broker's values survive a snapshot. Whatever a constructor of the domain returns, its dictionary
  is read back as the same value: positions, hedge books of constructed legs, filters, limits,
  configurations, order and capacity requests, orders, fills, closed trades and warnings.\<close>

theorem broker_values_round_trip:
  "(make_position arg = Inr p \<longrightarrow> position_from_dict (position_to_dict p) = Inr p) \<and>
   (make_position la = Inr (bk_long b) \<longrightarrow> make_position sa = Inr (bk_short b) \<longrightarrow>
      make_position_book (bk_long b) (bk_short b) = Inr b \<longrightarrow> position_state_from_dict (book_to_dict b) = Inr (Legs b)) \<and>
   (make_config ca (instrument c) (limits c) = Inr c \<longrightarrow> make_filters fa = Inr (instrument c) \<longrightarrow>
      make_limits lia = Inr (limits c) \<longrightarrow> config_from_dict (config_to_dict c) = Inr c) \<and>
   (make_request arg = Inr q \<longrightarrow> request_from_mapping (request_to_dict q) = Inr q) \<and>
   (make_capacity_request arg = Inr cq \<longrightarrow> capacity_request_from_mapping (capacity_request_to_dict cq) = Inr cq) \<and>
   (make_order arg = Inr r \<longrightarrow> order_from_dict (order_to_dict r) = Inr r) \<and>
   (make_fill arg = Inr f \<longrightarrow> fill_from_dict (fill_to_dict f) = Inr f) \<and>
   (make_trade arg = Inr t \<longrightarrow> trade_from_dict (trade_to_dict t) = Inr t) \<and>
   (make_warning arg = Inr w \<longrightarrow> warning_from_dict (warning_to_dict w) = Inr w)"
proof -
  have "dict_get (book_to_dict b) ''position_mode'' = JStr ''HEDGE''" by (simp add: book_to_dict_def)
  then show ?thesis
    using position_round_trip config_round_trip request_round_trip capacity_request_round_trip order_round_trip fill_round_trip
      trade_round_trip warning_round_trip book_round_trip[of la b sa]
    by (simp add: position_state_from_dict_def)
qed

theorem broker_values_round_trip_witness: "order_from_dict (order_to_dict sample_order) = Inr sample_order"
  using broker_values_round_trip[where arg = "dict_get (order_to_dict sample_order)" and r = sample_order] sample_order_new by blast

end
