(* ===== verification/DecimalLaws.thy ===== *)
theory DecimalLaws
  imports Decimals
begin

text \<open>
  Laws of context arithmetic on decimals: rounding to a precision as a function of integers, its
  sign, monotonicity, error and exactness, and the same laws for the operations a context rounds.
  They hold for values: the laws name the rational number a decimal stands for.
\<close>

section \<open>Rounding as a function on integers\<close>

definition round_int :: "nat \<Rightarrow> int \<Rightarrow> int" where
  "round_int p c =
     (if dec_digits c \<le> p then c else sgn c * round_half_even c (dec_digits c - p) * 10 ^ (dec_digits c - p))"

lemma digits_ge: "c \<noteq> 0 \<Longrightarrow> 10 ^ (dec_digits c - 1) \<le> \<bar>c\<bar>"
  using dec_of_nat_bounds[of "nat \<bar>c\<bar>"] by (simp add: dec_digits_def le_nat_iff)

lemma digits_pos [simp]: "0 < dec_digits c"
  by (simp add: dec_digits_def)

lemma digits_zero [simp]: "dec_digits 0 = 1"
  by (simp add: dec_digits_def dec_of_nat.simps)

lemma digits_abs [simp]: "dec_digits \<bar>c\<bar> = dec_digits c" "dec_digits (- c) = dec_digits c"
  by (simp_all add: dec_digits_def)

lemma digits_mono: "\<bar>c\<bar> \<le> \<bar>d\<bar> \<Longrightarrow> dec_digits c \<le> dec_digits d"
  by (rule dec_digits_le) (use dec_digits_less[of d] in simp_all)

lemma rhe_error: "2 * \<bar>round_half_even c k * 10 ^ k - \<bar>c\<bar>\<bar> \<le> 10 ^ k"
proof -
  define q r t where "q = \<bar>c\<bar> div 10 ^ k" and "r = \<bar>c\<bar> mod 10 ^ k" and "t = (10 ^ k :: int)"
  have c: "\<bar>c\<bar> = q * t + r" unfolding q_def r_def t_def by (rule div_mult_mod_eq[symmetric])
  have r: "0 \<le> r" "r < t" by (simp_all add: r_def t_def)
  have h: "round_half_even c k = (if 2 * r > t \<or> 2 * r = t \<and> odd q then q + 1 else q)"
    by (simp add: round_half_even_def Let_def q_def r_def t_def)
  have "round_half_even c k * t - \<bar>c\<bar> = (if 2 * r > t \<or> 2 * r = t \<and> odd q then t - r else - r)"
    unfolding h c by (simp add: distrib_right)
  then show ?thesis unfolding t_def[symmetric] using r by (auto split: if_splits)
qed

lemma rhe_mono:
  assumes "\<bar>c\<bar> \<le> \<bar>d\<bar>"
  shows "round_half_even c k \<le> round_half_even d k"
proof -
  have q: "\<bar>c\<bar> div 10 ^ k \<le> \<bar>d\<bar> div 10 ^ k" using assms by (rule zdiv_mono1) simp
  show ?thesis
  proof (cases "\<bar>c\<bar> div 10 ^ k = \<bar>d\<bar> div 10 ^ k")
    case True
    have "\<bar>c\<bar> mod 10 ^ k = \<bar>c\<bar> - \<bar>c\<bar> div 10 ^ k * 10 ^ k" "\<bar>d\<bar> mod 10 ^ k = \<bar>d\<bar> - \<bar>d\<bar> div 10 ^ k * 10 ^ k"
      by (simp_all add: minus_div_mult_eq_mod)
    then have "\<bar>c\<bar> mod 10 ^ k \<le> \<bar>d\<bar> mod 10 ^ k" using assms unfolding True by linarith
    then show ?thesis using True by (auto simp: round_half_even_def Let_def)
  next
    case False
    then show ?thesis using q by (auto simp: round_half_even_def Let_def)
  qed
qed

lemma rhe_power: "round_half_even (10 ^ (k + j)) k = 10 ^ j"
  by (simp add: round_half_even_def Let_def power_add)

lemma rhe_bounds:
  assumes "10 ^ (k + i) \<le> \<bar>c\<bar>" "\<bar>c\<bar> \<le> 10 ^ (k + j)"
  shows "10 ^ i \<le> round_half_even c k" "round_half_even c k \<le> 10 ^ j"
  using rhe_mono[of "10 ^ (k + i)" c k] rhe_mono[of c "10 ^ (k + j)" k] assms by (simp_all add: rhe_power)

lemma rhe_abs: "round_half_even (- c) k = round_half_even c k"
  by (simp add: round_half_even_def)

lemma round_int_neg: "round_int p (- c) = - round_int p c"
  by (simp add: round_int_def rhe_abs)

lemma round_int_zero [simp]: "round_int p 0 = 0"
  by (simp add: round_int_def)

lemma round_int_exact: "\<bar>c\<bar> < 10 ^ p \<Longrightarrow> 0 < p \<Longrightarrow> round_int p c = c"
  by (simp add: round_int_def dec_digits_le)

text \<open>A rounded number keeps its decade.\<close>

lemma round_int_decade:
  assumes "0 < c" "0 < p"
  shows "10 ^ (dec_digits c - 1) \<le> round_int p c" "round_int p c \<le> 10 ^ dec_digits c"
proof -
  have b: "10 ^ (dec_digits c - 1) \<le> \<bar>c\<bar>" "\<bar>c\<bar> < 10 ^ dec_digits c" using digits_ge[of c] dec_digits_less[of c] assms by simp_all
  show "10 ^ (dec_digits c - 1) \<le> round_int p c" "round_int p c \<le> 10 ^ dec_digits c"
  proof (atomize (full), cases "dec_digits c \<le> p")
    case True
    then show "10 ^ (dec_digits c - 1) \<le> round_int p c \<and> round_int p c \<le> 10 ^ dec_digits c" using b assms by (simp add: round_int_def)
  next
    case False
    define k where "k = dec_digits c - p"
    have e: "dec_digits c - 1 = k + (p - 1)" "dec_digits c = k + p" using False assms by (simp_all add: k_def)
    have "10 ^ (p - 1) \<le> round_half_even c k" "round_half_even c k \<le> 10 ^ p"
      using rhe_bounds[of k "p - 1" c p] b(1)[unfolded e(1)] b(2)[unfolded e(2)] by simp_all
    then have "10 ^ (p - 1) * 10 ^ k \<le> round_half_even c k * 10 ^ k" "round_half_even c k * 10 ^ k \<le> 10 ^ p * 10 ^ k"
      by (simp_all add: mult_right_mono)
    moreover have "(10 :: int) ^ (dec_digits c - 1) = 10 ^ (p - 1) * 10 ^ k" "(10 :: int) ^ dec_digits c = 10 ^ p * 10 ^ k"
      by (simp_all only: e(1)) (simp_all only: e(2) power_add mult.commute)
    moreover have "round_int p c = round_half_even c k * 10 ^ k" using False assms by (simp add: round_int_def k_def)
    ultimately show "10 ^ (dec_digits c - 1) \<le> round_int p c \<and> round_int p c \<le> 10 ^ dec_digits c"
      by linarith
  qed
qed

lemma round_int_pos: "0 < c \<Longrightarrow> 0 < p \<Longrightarrow> 0 < round_int p c"
  using round_int_decade(1)[of c p] by (meson less_le_trans zero_less_power zero_less_numeral)

lemma round_int_sgn: "0 < p \<Longrightarrow> sgn (round_int p c) = sgn c"
proof (cases c "0 :: int" rule: linorder_cases)
  case less
  assume "0 < p"
  then show ?thesis using round_int_pos[of "- c" p] round_int_neg[of p c] less by simp
qed (simp_all add: round_int_pos)

lemma round_int_mono_pos:
  assumes "0 < c" "c \<le> d" "0 < p"
  shows "round_int p c \<le> round_int p d"
proof -
  have le: "dec_digits c \<le> dec_digits d" using assms by (intro digits_mono) simp
  show ?thesis
  proof (cases "dec_digits c = dec_digits d")
    case True
    have "round_half_even c (dec_digits d - p) \<le> round_half_even d (dec_digits d - p)" using assms by (intro rhe_mono) simp
    then show ?thesis using True assms by (simp add: round_int_def mult_right_mono)
  next
    case False
    then have "dec_digits c \<le> dec_digits d - 1" using le by simp
    then have "(10 :: int) ^ dec_digits c \<le> 10 ^ (dec_digits d - 1)" by (rule power_increasing) simp
    then show ?thesis using round_int_decade(2)[of c p] round_int_decade(1)[of d p] assms by linarith
  qed
qed

lemma round_int_mono: "c \<le> d \<Longrightarrow> 0 < p \<Longrightarrow> round_int p c \<le> round_int p d"
proof -
  assume le: "c \<le> d" and p: "0 < p"
  have neg: "x < 0 \<Longrightarrow> round_int p x < 0" for x using round_int_sgn[OF p, of x] by (simp add: sgn_if split: if_splits)
  have nonneg: "0 \<le> x \<Longrightarrow> 0 \<le> round_int p x" for x using round_int_sgn[OF p, of x] by (simp add: sgn_if split: if_splits)
  consider "0 < c" | "d < 0" | "c \<le> 0" "0 \<le> d" by linarith
  then show ?thesis
  proof cases
    case 2
    then show ?thesis using round_int_mono_pos[of "- d" "- c" p] le p by (simp add: round_int_neg)
  next
    case 3
    then show ?thesis using neg[of c] nonneg[of d] by (cases "c = 0") simp_all
  qed (use round_int_mono_pos le p in simp)
qed

lemma round_int_error: "0 < p \<Longrightarrow> 2 * 10 ^ (p - 1) * \<bar>round_int p c - c\<bar> \<le> \<bar>c\<bar>"
proof (cases "dec_digits c \<le> p")
  case True
  then show ?thesis by (simp add: round_int_def)
next
  case False
  assume p: "0 < p"
  then have c: "c \<noteq> 0" using False by auto
  define k where "k = dec_digits c - p"
  have e: "dec_digits c - 1 = (p - 1) + k" using False p by (simp add: k_def)
  have "round_int p c - c = sgn c * (round_half_even c k * 10 ^ k - \<bar>c\<bar>)"
    using False by (simp add: round_int_def k_def right_diff_distrib sgn_mult_abs)
  then have "2 * \<bar>round_int p c - c\<bar> \<le> 10 ^ k" using rhe_error[of c k] c by (simp add: abs_mult)
  then have "10 ^ (p - 1) * (2 * \<bar>round_int p c - c\<bar>) \<le> 10 ^ (p - 1) * 10 ^ k" by (rule mult_left_mono) simp
  also have "\<dots> = 10 ^ (dec_digits c - 1)" by (simp only: e power_add)
  also have "\<dots> \<le> \<bar>c\<bar>" using digits_ge c by blast
  finally show ?thesis by (simp add: mult.assoc mult.left_commute)
qed

section \<open>Values of rounded decimals\<close>

lemma dec_fix_round: "0 < p \<Longrightarrow> dec_val (dec_fix p d) = of_int (round_int p (coeff d)) * 10 powi expo d"
proof (cases "dec_digits (coeff d) \<le> p")
  case True
  then show ?thesis by (simp add: dec_fix_def round_int_def dec_val_def)
next
  case False
  assume p: "0 < p"
  define k where "k = dec_digits (coeff d) - p"
  define q where "q = round_half_even (coeff d) k"
  have c: "coeff d \<noteq> 0" using False p by auto
  have e: "dec_digits (coeff d) - 1 = k + (p - 1)" "dec_digits (coeff d) = k + p" using False p by (simp_all add: k_def)
  have q: "10 ^ (p - 1) \<le> q" "q \<le> 10 ^ p"
    using rhe_bounds[of k "p - 1" "coeff d" p] digits_ge[OF c, unfolded e(1)] dec_digits_less[of "coeff d", unfolded e(2)]
    by (simp_all add: q_def)
  have pw: "(10 :: rat) powi (expo d + int k) = 10 ^ k * 10 powi expo d" "(10 :: rat) powi (expo d + int k + 1) = 10 * 10 ^ k * 10 powi expo d"
    by (simp_all add: power_int_add power_int_of_nat)
  have f: "dec_fix p d = (if dec_digits q > p then Dec (sgn (coeff d) * (q div 10)) (expo d + int k + 1)
      else Dec (sgn (coeff d) * q) (expo d + int k))"
    using False by (simp add: dec_fix_def Let_def k_def q_def)
  have ri: "round_int p (coeff d) = sgn (coeff d) * q * 10 ^ k" using False by (simp add: round_int_def k_def q_def)
  show ?thesis
  proof (cases "dec_digits q > p")
    case True
    have "q \<ge> 10 ^ p"
    proof (rule ccontr)
      assume "\<not> q \<ge> 10 ^ p"
      moreover have "0 \<le> q" using q(1) by (rule order_trans[rotated]) simp
      ultimately show False using True dec_digits_le[of q p] p by simp
    qed
    then have q': "q = 10 ^ p" using q(2) by simp
    obtain r where "p = Suc r" using p by (cases p) simp_all
    then have q10: "q div 10 = 10 ^ r" "(of_int q :: rat) = 10 * 10 ^ r" by (simp_all add: q')
    have "dec_val (dec_fix p d) = of_int (sgn (coeff d) * (q div 10)) * 10 powi (expo d + int k + 1)"
      using True by (simp add: f dec_val_def)
    also have "\<dots> = of_int (sgn (coeff d) * q * 10 ^ k) * 10 powi expo d"
      unfolding pw by (simp add: q10 mult_ac)
    finally show ?thesis by (simp only: ri)
  next
    case False
    then have "dec_val (dec_fix p d) = of_int (sgn (coeff d) * q) * 10 powi (expo d + int k)" by (simp add: f dec_val_def)
    then show ?thesis unfolding pw ri by (simp add: mult_ac)
  qed
qed

lemma round_int_sign [simp]:
  assumes "0 < p"
  shows "0 < round_int p c \<longleftrightarrow> 0 < c" "round_int p c < 0 \<longleftrightarrow> c < 0" "round_int p c = 0 \<longleftrightarrow> c = 0"
  using round_int_sgn[OF assms, of c] by (auto simp: sgn_if split: if_splits)

lemma dec_fix_sign [simp]:
  assumes "0 < p"
  shows "0 < coeff (dec_fix p d) \<longleftrightarrow> 0 < coeff d" "coeff (dec_fix p d) < 0 \<longleftrightarrow> coeff d < 0" "coeff (dec_fix p d) = 0 \<longleftrightarrow> coeff d = 0"
  using assms unfolding dec_val_sign[symmetric]
  by (simp_all add: dec_fix_round[OF assms] zero_less_mult_iff mult_less_0_iff)

text \<open>Two decimals over one exponent.\<close>

lemma align_dec: "m \<le> expo d \<Longrightarrow> dec_val (Dec (align m d) m) = dec_val d"
  by (simp add: dec_val_def[of "Dec _ _"] align_val)

lemma dec_fix_mono:
  assumes "dec_val a \<le> dec_val b" "0 < p"
  shows "dec_val (dec_fix p a) \<le> dec_val (dec_fix p b)"
proof -
  let ?m = "min (expo a) (expo b)"
  have "dec_le a b" using assms(1) by simp
  then have "align ?m a \<le> align ?m b" by (simp only: dec_le_def Let_def)
  then have "round_int p (align ?m a) \<le> round_int p (align ?m b)" using assms(2) by (rule round_int_mono)
  then have "dec_val (dec_fix p (Dec (align ?m a) ?m)) \<le> dec_val (dec_fix p (Dec (align ?m b) ?m))"
    by (simp add: dec_fix_round[OF assms(2)] mult_right_mono)
  then show ?thesis
    using dec_fix_value[OF align_dec[of ?m a] assms(2)] dec_fix_value[OF align_dec[of ?m b] assms(2)] by simp
qed

lemma dec_fix_error:
  assumes "0 < p"
  shows "2 * 10 ^ (p - 1) * \<bar>dec_val (dec_fix p d) - dec_val d\<bar> \<le> \<bar>dec_val d\<bar>"
proof -
  have "of_int (2 * 10 ^ (p - 1) * \<bar>round_int p (coeff d) - coeff d\<bar>) \<le> (of_int \<bar>coeff d\<bar> :: rat)"
    using round_int_error[OF assms, of "coeff d"] by (simp only: of_int_le_iff)
  then have "2 * 10 ^ (p - 1) * \<bar>of_int (round_int p (coeff d)) - of_int (coeff d)\<bar> * 10 powi expo d \<le> \<bar>of_int (coeff d)\<bar> * (10 powi expo d :: rat)"
    by (intro mult_right_mono) simp_all
  moreover have "\<bar>dec_val (dec_fix p d) - dec_val d\<bar> = \<bar>of_int (round_int p (coeff d)) - of_int (coeff d)\<bar> * 10 powi expo d"
    unfolding dec_fix_round[OF assms] by (simp add: dec_val_def left_diff_distrib[symmetric] abs_mult)
  ultimately show ?thesis by (simp add: dec_val_def[of d] abs_mult mult.assoc)
qed

text \<open>Numbers with \<open>k\<close> decimal places; of magnitude below \<open>10^(p - k)\<close> they need no rounding.\<close>

definition places :: "nat \<Rightarrow> rat \<Rightarrow> bool" where
  "places k x \<longleftrightarrow> x * 10 ^ k \<in> \<int>"

lemma places_zero [simp]: "places k 0"
  by (simp add: places_def)

lemma places_one [simp]: "places k 1"
  by (simp add: places_def)

lemma places_minus [simp]: "places k (- x) \<longleftrightarrow> places k x"
  by (simp add: places_def)

lemma places_abs [simp]: "places k \<bar>x\<bar> \<longleftrightarrow> places k x"
  by (simp add: abs_if)

lemma places_add: "places k x \<Longrightarrow> places k y \<Longrightarrow> places k (x + y)"
  by (simp add: places_def distrib_right)

lemma places_diff: "places k x \<Longrightarrow> places k y \<Longrightarrow> places k (x - y)"
  by (simp add: places_def left_diff_distrib)

lemma places_mult: "places k x \<Longrightarrow> places l y \<Longrightarrow> places (k + l) (x * y)"
proof -
  assume "places k x" "places l y"
  then have "(x * 10 ^ k) * (y * 10 ^ l) \<in> \<int>" by (simp only: places_def Ints_mult)
  moreover have "(x * 10 ^ k) * (y * 10 ^ l) = x * y * 10 ^ (k + l)" by (simp only: power_add mult_ac)
  ultimately show ?thesis by (simp add: places_def)
qed

lemma places_mono:
  assumes "places k x" "k \<le> l"
  shows "places l x"
proof -
  have "x * 10 ^ k * 10 ^ (l - k) \<in> \<int>" using assms(1) by (simp add: places_def)
  then show ?thesis using assms(2) by (simp add: places_def power_add[symmetric] mult.assoc)
qed

lemma dec_fix_places:
  assumes "places k (dec_val d)" "\<bar>dec_val d\<bar> * 10 ^ k < 10 ^ p" "0 < p"
  shows "dec_val (dec_fix p d) = dec_val d"
proof -
  obtain n where n: "dec_val d * 10 ^ k = of_int n" using assms(1) by (auto simp: places_def elim: Ints_cases)
  have v: "dec_val (Dec n (- int k)) = dec_val d"
    using n by (simp add: dec_val_def[of "Dec _ _"] power_int_minus divide_inverse[symmetric]) (simp add: field_simps)
  have "\<bar>dec_val d * 10 ^ k\<bar> < 10 ^ p" using assms(2) by (simp add: abs_mult)
  then have "of_int \<bar>n\<bar> < (10 ^ p :: rat)" by (simp add: n)
  then have "\<bar>n\<bar> < 10 ^ p" by (simp only: of_int_less_iff[where 'a = rat, symmetric] of_int_power of_int_numeral)
  then have "dec_fix p (Dec n (- int k)) = Dec n (- int k)" using assms(3) by (intro dec_fix_exact) (simp add: dec_digits_le)
  then show ?thesis using dec_fix_value[OF v assms(3)] v by simp
qed

lemma dec_fix_idem: "0 < p \<Longrightarrow> dec_val (dec_fix p (dec_fix p d)) = dec_val (dec_fix p d)"
proof -
  assume p: "0 < p"
  have "dec_digits (coeff (dec_fix p d)) \<le> p"
  proof (cases "dec_digits (coeff d) \<le> p")
    case True
    then show ?thesis by (simp add: dec_fix_def)
  next
    case False
    define k q where "k = dec_digits (coeff d) - p" and "q = round_half_even (coeff d) k"
    have c: "coeff d \<noteq> 0" using False p by auto
    have e: "dec_digits (coeff d) - 1 = k + (p - 1)" "dec_digits (coeff d) = k + p" using False p by (simp_all add: k_def)
    have q: "10 ^ (p - 1) \<le> q" "q \<le> 10 ^ p"
      using rhe_bounds[of k "p - 1" "coeff d" p] digits_ge[OF c, unfolded e(1)] dec_digits_less[of "coeff d", unfolded e(2)]
      by (simp_all add: q_def)
    have q0: "0 \<le> q" using q(1) by (rule order_trans[rotated]) simp
    have "(10 :: int) ^ p < 10 * 10 ^ p" by simp
    then have "q div 10 < 10 ^ p" using q(2) by linarith
    then have "dec_digits (q div 10) \<le> p" using q0 p by (intro dec_digits_le) (simp_all add: pos_imp_zdiv_nonneg_iff)
    moreover have "dec_digits (sgn (coeff d) * x) = dec_digits x" for x using c by (cases "0 < coeff d") simp_all
    ultimately show ?thesis using False by (auto simp: dec_fix_def Let_def k_def q_def)
  qed
  then show ?thesis by (simp add: dec_fix_exact)
qed

section \<open>Division\<close>

text \<open>The scaled quotient, of more than \<open>p\<close> digits, that a division rounds.\<close>

lemma dec_div_quotient:
  fixes a b :: dec and p :: nat
  assumes "coeff a \<noteq> 0" "coeff b \<noteq> 0"
  defines "shift \<equiv> int (dec_digits (coeff b)) - int (dec_digits (coeff a)) + int p + 1"
  defines "num \<equiv> \<bar>coeff a\<bar> * 10 ^ nat shift" and "den \<equiv> \<bar>coeff b\<bar> * 10 ^ nat (- shift)"
  shows "0 < den" "10 ^ p * den \<le> num"
    "\<bar>dec_val a / dec_val b\<bar> = of_int num / of_int den * 10 powi (expo a - expo b - shift)"
proof -
  let ?na = "dec_digits (coeff a)" and ?nb = "dec_digits (coeff b)"
  show "0 < den" using assms(2) by (simp add: den_def)
  have e: "?nb + nat (- shift) + p = (?na - 1) + nat shift"
    unfolding shift_def using digits_pos[of "coeff a"] by linarith
  have "10 ^ p * den \<le> 10 ^ p * (10 ^ ?nb * 10 ^ nat (- shift))"
    using dec_digits_less[of "coeff b"] by (simp add: den_def)
  also have "\<dots> = 10 ^ (?nb + nat (- shift) + p)" by (simp add: power_add mult_ac)
  also have "\<dots> = 10 ^ (?na - 1) * 10 ^ nat shift" by (simp only: e power_add)
  also have "\<dots> \<le> num" using digits_ge[OF assms(1)] by (simp add: num_def)
  finally show "10 ^ p * den \<le> num" .
  have "of_int num / of_int den = \<bar>of_int (coeff a) / of_int (coeff b)\<bar> * (10 powi shift :: rat)"
    by (cases "0 \<le> shift") (simp_all add: num_def den_def power_int_def abs_divide field_simps)
  then have "of_int num / of_int den * 10 powi (expo a - expo b - shift) =
      \<bar>of_int (coeff a) / of_int (coeff b)\<bar> * (10 powi shift * 10 powi (expo a - expo b - shift) :: rat)" by simp
  also have "10 powi shift * 10 powi (expo a - expo b - shift) = (10 powi (expo a - expo b) :: rat)"
    by (simp add: power_int_add[symmetric])
  finally show "\<bar>dec_val a / dec_val b\<bar> = of_int num / of_int den * 10 powi (expo a - expo b - shift)"
    by (simp add: dec_val_def abs_mult abs_divide power_int_diff)
qed

text \<open>A quotient is rounded from a number of its sign, off by at most its \<open>10^p\<close>th part, exact when the division is.\<close>

lemma dec_div_from:
  assumes "coeff b \<noteq> 0" "0 < p"
  obtains y where "dec_div p a b = Inr (dec_fix p y)" "sgn (dec_val y) = sgn (dec_val a / dec_val b)"
    "10 ^ p * \<bar>dec_val y - dec_val a / dec_val b\<bar> \<le> \<bar>dec_val a / dec_val b\<bar>"
    "\<And>k. places k (dec_val a / dec_val b) \<Longrightarrow> \<bar>dec_val a / dec_val b\<bar> * 10 ^ k < 10 ^ p \<Longrightarrow> dec_val y = dec_val a / dec_val b"
proof -
  define shift where "shift = int (dec_digits (coeff b)) - int (dec_digits (coeff a)) + int p + 1"
  define num where "num = \<bar>coeff a\<bar> * 10 ^ nat shift"
  define den where "den = \<bar>coeff b\<bar> * 10 ^ nat (- shift)"
  define q where "q = num div den"
  define q' where "q' = (if num mod den \<noteq> 0 \<and> q mod 5 = 0 then q + 1 else q)"
  define s where "s = sgn (coeff a) * sgn (coeff b)"
  define u where "u = (10 powi (expo a - expo b - shift) :: rat)"
  let ?y = "Dec (s * q') (expo a - expo b - shift)" and ?x = "dec_val a / dec_val b"
  have div: "dec_div p a b = Inr (dec_fix p ?y)"
    using assms(1) by (simp add: dec_div_def Let_def shift_def num_def den_def q_def q'_def s_def)
  have u: "0 < u" by (simp add: u_def)
  have y: "dec_val ?y = of_int s * (of_int q' * u)" by (simp add: dec_val_def u_def)
  have sx: "?x = of_int s * \<bar>?x\<bar>"
    by (cases "coeff a" "0 :: int" rule: linorder_cases; cases "coeff b" "0 :: int" rule: linorder_cases)
       (simp_all add: s_def dec_val_def abs_mult divide_nonneg_neg)
  show thesis
  proof (cases "coeff a = 0")
    case True
    have y0: "dec_val ?y = 0" "?x = 0" using True by (simp_all add: s_def y)
    show ?thesis by (rule that[OF div]) (simp_all only: y0, simp_all)
  next
    case False
    note Q = dec_div_quotient[OF False assms(1), where p = p, folded shift_def, folded num_def den_def, folded u_def]
    have ux: "\<bar>?x\<bar> = of_int num / of_int den * u" using Q(3) .
    have split: "num = q * den + num mod den" "0 \<le> num mod den" "num mod den < den" using Q(1) by (simp_all add: q_def)
    have qbig: "10 ^ p \<le> q" using Q(1,2) zdiv_mono1[OF Q(2) Q(1)] by (simp add: q_def)
    have q': "\<bar>of_int q' - of_int num / of_int den\<bar> \<le> (1 :: rat)"
    proof -
      define f where "f = of_int (num mod den) / (of_int den :: rat)"
      have "of_int num / of_int den = of_int q + f"
        using Q(1) by (subst split(1)) (simp add: add_divide_distrib f_def)
      moreover have "0 \<le> f" "f \<le> 1" using split(2) less_imp_le[OF split(3)] Q(1) by (simp_all add: f_def)
      ultimately show ?thesis by (simp add: q'_def)
    qed
    have s1: "\<bar>of_int s\<bar> = (1 :: rat)" using False assms(1) by (auto simp: s_def sgn_if)
    have "0 < q" using qbig by (rule less_le_trans[rotated]) simp
    then have pos: "0 < q'" by (simp add: q'_def)
    have "(10 :: rat) ^ p \<le> of_int num / of_int den"
      using Q(1,2) of_int_le_iff[of "10 ^ p * den" num, where 'a = rat] by (simp add: le_divide_eq)
    then have big: "10 ^ p * u \<le> \<bar>?x\<bar>" unfolding ux by (rule mult_right_mono) (use u in simp)
    have "?x = of_int s * (of_int num / of_int den * u)" using sx unfolding ux by simp
    then have diff: "dec_val ?y - ?x = of_int s * ((of_int q' - of_int num / of_int den) * u)"
      by (simp only: y right_diff_distrib left_diff_distrib)
    have "\<bar>dec_val ?y - ?x\<bar> = \<bar>of_int q' - of_int num / of_int den\<bar> * u"
      unfolding diff using u s1 by (simp add: abs_mult)
    also have "\<dots> \<le> u" using q' u by (simp add: mult_left_le_one_le)
    finally have err: "\<bar>dec_val ?y - ?x\<bar> \<le> u" .
    show ?thesis
    proof (rule that[OF div])
      have "sgn ?x = of_int s"
      proof -
        have "?x \<noteq> 0" using False assms(1) by simp
        then have "sgn \<bar>?x\<bar> = 1" by (simp add: abs_sgn_eq_1 del: abs_divide)
        moreover have "sgn (of_int s :: rat) = of_int s" using s1 by (auto simp: abs_if split: if_splits)
        ultimately show ?thesis by (subst sx) (simp only: sgn_mult mult_1_right)
      qed
      moreover have "sgn (dec_val ?y) = of_int s" using pos u s1 by (auto simp: y sgn_mult abs_if split: if_splits)
      ultimately show "sgn (dec_val ?y) = sgn ?x" by simp
      have "10 ^ p * \<bar>dec_val ?y - ?x\<bar> \<le> 10 ^ p * u" using err by simp
      then show "10 ^ p * \<bar>dec_val ?y - ?x\<bar> \<le> \<bar>?x\<bar>" using big by linarith
    next
      fix k assume k: "places k ?x" "\<bar>?x\<bar> * 10 ^ k < 10 ^ p"
      obtain n where n: "\<bar>?x\<bar> * 10 ^ k = of_int n" using k(1) unfolding places_abs[of k ?x, symmetric] by (auto simp: places_def elim: Ints_cases)
      have "10 ^ p * u * 10 ^ k \<le> \<bar>?x\<bar> * 10 ^ k" using big by (intro mult_right_mono) simp_all
      then have "10 ^ p * u * 10 ^ k < 10 ^ p" using k(2) by (rule le_less_trans)
      then have "10 ^ p * (u * 10 ^ k) < 10 ^ p * 1" by (simp only: mult.assoc mult_1_right)
      then have "u * 10 ^ k < 1" by simp
      then have small: "(10 :: rat) powi (expo a - expo b - shift + int k) < 1" by (simp add: u_def power_int_add power_int_of_nat)
      have neg: "expo a - expo b - shift + int k < 0"
      proof (rule ccontr)
        assume "\<not> expo a - expo b - shift + int k < 0"
        then have "(1 :: rat) \<le> 10 powi (expo a - expo b - shift + int k)" by (intro one_le_power_int) simp_all
        then show False using small by simp
      qed
      define j where "j = nat (- (expo a - expo b - shift + int k))"
      have uj: "u * 10 ^ k * 10 ^ j = 1"
      proof -
        have "u * 10 ^ k * 10 ^ j = 10 powi (expo a - expo b - shift + int k + int j)" by (simp add: u_def power_int_add power_int_of_nat)
        then show ?thesis using neg by (simp add: j_def)
      qed
      have "of_int num / of_int den = of_int num / of_int den * (u * 10 ^ k * 10 ^ j)" by (simp add: uj)
      also have "\<dots> = (of_int num / of_int den * u * 10 ^ k) * 10 ^ j" by (simp only: mult.assoc)
      also have "\<dots> = of_int n * 10 ^ j" by (simp only: n[unfolded ux])
      finally have "(of_int num :: rat) = of_int (n * 10 ^ j * den)" using Q(1) by (simp add: field_simps)
      then have numn: "num = n * 10 ^ j * den" by (simp only: of_int_eq_iff)
      then have "num mod den = 0" "q = n * 10 ^ j" using Q(1) by (simp_all add: q_def)
      then have "of_int q' = of_int num / (of_int den :: rat)" using numn Q(1) by (simp add: q'_def)
      then have "dec_val ?y = of_int s * \<bar>?x\<bar>" unfolding y ux by simp
      then show "dec_val ?y = ?x" using sx by simp
    qed
  qed
qed

lemma dec_div_total:
  assumes "coeff b \<noteq> 0" "0 < p"
  obtains d where "dec_div p a b = Inr d" "sgn (dec_val d) = sgn (dec_val a / dec_val b)"
    "10 ^ (p - 1) * \<bar>dec_val d - dec_val a / dec_val b\<bar> \<le> \<bar>dec_val a / dec_val b\<bar>"
    "\<And>k. places k (dec_val a / dec_val b) \<Longrightarrow> \<bar>dec_val a / dec_val b\<bar> * 10 ^ k < 10 ^ p \<Longrightarrow> dec_val d = dec_val a / dec_val b"
proof -
  obtain y where y: "dec_div p a b = Inr (dec_fix p y)" "sgn (dec_val y) = sgn (dec_val a / dec_val b)"
    "10 ^ p * \<bar>dec_val y - dec_val a / dec_val b\<bar> \<le> \<bar>dec_val a / dec_val b\<bar>"
    "\<And>k. places k (dec_val a / dec_val b) \<Longrightarrow> \<bar>dec_val a / dec_val b\<bar> * 10 ^ k < 10 ^ p \<Longrightarrow> dec_val y = dec_val a / dec_val b"
    using dec_div_from[OF assms] by blast
  define x where "x = dec_val a / dec_val b"
  let ?x = x and ?d = "dec_val (dec_fix p y)"
  note y = y[folded x_def]
  obtain r where r: "p = Suc r" using assms(2) by (cases p) simp_all
  define t where "t = (10 ^ r :: rat)"
  have t: "1 \<le> t" "10 ^ p = 10 * t" "10 ^ (p - 1) = t" by (simp_all add: t_def r)
  define v w where "v = \<bar>?d - dec_val y\<bar>" and "w = \<bar>dec_val y - x\<bar>"
  have e: "2 * t * v \<le> \<bar>dec_val y\<bar>" using dec_fix_error[OF assms(2), of y] by (simp add: r t_def v_def)
  have b: "10 * t * w \<le> \<bar>x\<bar>" using y(3) by (simp only: t w_def)
  have "10 * w \<le> 10 * t * w" using t(1) by (simp add: w_def mult_le_cancel_right1)
  then have "10 * w \<le> \<bar>x\<bar>" using b by (rule order_trans)
  moreover have "\<bar>dec_val y\<bar> \<le> \<bar>x\<bar> + w" by (simp add: w_def)
  ultimately have yx: "10 * \<bar>dec_val y\<bar> \<le> 11 * \<bar>x\<bar>" by linarith
  have "t * \<bar>?d - x\<bar> \<le> t * (v + w)" using t(1) by (intro mult_left_mono) (simp_all add: v_def w_def)
  then have "t * \<bar>?d - x\<bar> \<le> t * v + t * w" by (simp only: distrib_left)
  then have err: "10 ^ (p - 1) * \<bar>?d - x\<bar> \<le> \<bar>x\<bar>" unfolding t using e b yx by linarith
  have sgn: "sgn ?d = sgn ?x"
    using y(2) assms(2) dec_fix_sign[of p y] unfolding dec_val_sign[symmetric] by (auto simp: sgn_if simp del: dec_val_sign split: if_splits)
  show thesis
    by (rule that[OF y(1) sgn[unfolded x_def] err[unfolded x_def]], fold x_def) (metis y(4) dec_fix_places assms(2))
qed

lemma dec_div_none: "dec_div p a b = Inr d \<Longrightarrow> coeff b \<noteq> 0"
  by (auto simp: dec_div_def split: if_splits)

section \<open>Operations of a context\<close>

lemma coeff_simps [simp]:
  "coeff (dec_times a b) = coeff a * coeff b" "coeff (dec_neg a) = - coeff a" "coeff (dec_abs a) = \<bar>coeff a\<bar>"
  "coeff dec_zero = 0"
  by (simp_all add: dec_times_def dec_neg_def dec_abs_def dec_zero_def)

lemma dec_mul_sign [simp]:
  assumes "0 < p"
  shows "0 < coeff (dec_mul p a b) \<longleftrightarrow> 0 < coeff a * coeff b" "coeff (dec_mul p a b) < 0 \<longleftrightarrow> coeff a * coeff b < 0"
    "coeff (dec_mul p a b) = 0 \<longleftrightarrow> coeff a = 0 \<or> coeff b = 0"
  using assms by (simp_all add: dec_mul_def)

lemma dec_add_sign:
  assumes "0 < p"
  shows "0 < coeff (dec_add p a b) \<longleftrightarrow> 0 < dec_val a + dec_val b" "coeff (dec_add p a b) < 0 \<longleftrightarrow> dec_val a + dec_val b < 0"
    "coeff (dec_add p a b) = 0 \<longleftrightarrow> dec_val a + dec_val b = 0"
  unfolding dec_add_def dec_fix_sign[OF assms] by (simp_all only: dec_val_sign[symmetric] dec_val_plus)

lemma dec_sub_sign:
  assumes "0 < p"
  shows "0 < coeff (dec_sub p a b) \<longleftrightarrow> dec_val b < dec_val a" "coeff (dec_sub p a b) < 0 \<longleftrightarrow> dec_val a < dec_val b"
    "coeff (dec_sub p a b) = 0 \<longleftrightarrow> dec_val a = dec_val b"
  unfolding dec_sub_def dec_fix_sign[OF assms]
  by (simp_all only: dec_val_sign[symmetric] dec_val_plus dec_val_neg, linarith+)

text \<open>What a context computes depends on the values of the operands only.\<close>

lemma dec_op_cong:
  assumes "dec_val a = dec_val a'" "dec_val b = dec_val b'" "0 < p"
  shows "dec_val (dec_add p a b) = dec_val (dec_add p a' b')" "dec_val (dec_sub p a b) = dec_val (dec_sub p a' b')"
    "dec_val (dec_mul p a b) = dec_val (dec_mul p a' b')"
  unfolding dec_add_def dec_sub_def dec_mul_def using assms by (auto intro!: dec_fix_value)

text \<open>Results that fit the precision are exact.\<close>

lemma dec_mul_places:
  assumes "places k (dec_val a)" "places l (dec_val b)" "\<bar>dec_val a * dec_val b\<bar> * 10 ^ (k + l) < 10 ^ p" "0 < p"
  shows "dec_val (dec_mul p a b) = dec_val a * dec_val b"
  using dec_fix_places[of "k + l" "dec_times a b" p] places_mult[OF assms(1,2)] assms(3,4) by (simp add: dec_mul_def)

lemma dec_add_places:
  assumes "places k (dec_val a)" "places k (dec_val b)" "\<bar>dec_val a + dec_val b\<bar> * 10 ^ k < 10 ^ p" "0 < p"
  shows "dec_val (dec_add p a b) = dec_val a + dec_val b"
  using dec_fix_places[of k "dec_plus a b" p] places_add[OF assms(1,2)] assms(3,4) by (simp add: dec_add_def)

lemma dec_sub_places:
  assumes "places k (dec_val a)" "places k (dec_val b)" "\<bar>dec_val a - dec_val b\<bar> * 10 ^ k < 10 ^ p" "0 < p"
  shows "dec_val (dec_sub p a b) = dec_val a - dec_val b"
  using dec_fix_places[of k "dec_plus a (dec_neg b)" p] places_diff[OF assms(1,2)] assms(3,4) by (simp add: dec_sub_def)

lemma dec_lt_val [simp]: "\<not> dec_le b a \<longleftrightarrow> dec_val a < dec_val b"
  by (simp add: not_le)

section \<open>Evaluation\<close>

text \<open>Powers of ten by recursion, for the evaluation of concrete decimals.\<close>

fun pow10 :: "nat \<Rightarrow> int" where
  "pow10 0 = 1"
| "pow10 (Suc n) = 10 * pow10 n"

lemma pow10_power: "pow10 n = 10 ^ n"
  by (induction n) simp_all

lemma round_half_even_code [code]:
  "round_half_even c k =
     (let t = pow10 k; q = \<bar>c\<bar> div t; r = \<bar>c\<bar> mod t in if 2 * r > t \<or> 2 * r = t \<and> odd q then q + 1 else q)"
  by (simp add: round_half_even_def pow10_power Let_def)

lemma align_code [code]: "align m d = coeff d * pow10 (nat (expo d - m))"
  by (simp add: align_def pow10_power)

lemma dec_div_code [code]:
  "dec_div p a b =
     (if coeff b = 0 then Inl ZeroDivisionError
      else let shift = int (dec_digits (coeff b)) - int (dec_digits (coeff a)) + int p + 1;
               num = \<bar>coeff a\<bar> * pow10 (nat shift); den = \<bar>coeff b\<bar> * pow10 (nat (- shift));
               q = num div den;
               q' = (if num mod den \<noteq> 0 \<and> q mod 5 = 0 then q + 1 else q)
           in Inr (dec_fix p (Dec (sgn (coeff a) * sgn (coeff b) * q') (expo a - expo b - shift))))"
  by (simp add: dec_div_def pow10_power)

lemma digits_code [code]: "dec_digits c = (if \<bar>c\<bar> < 10 then 1 else Suc (dec_digits (\<bar>c\<bar> div 10)))"
proof (cases "\<bar>c\<bar> < 10")
  case True
  then have "dec_digits c \<le> 1" by (intro dec_digits_le) simp_all
  then have "dec_digits c = 1" using digits_pos[of c] by linarith
  then show ?thesis using True by simp
next
  case False
  let ?n = "\<bar>c\<bar> div 10"
  have n: "0 < ?n" using False by (simp add: pos_imp_zdiv_pos_iff not_less)
  have b: "10 ^ (dec_digits ?n - 1) \<le> ?n" "?n < 10 ^ dec_digits ?n" using digits_ge[of ?n] dec_digits_less[of ?n] n by simp_all
  have "10 * ?n \<le> \<bar>c\<bar>" "\<bar>c\<bar> < 10 * (?n + 1)" by simp_all
  then have "10 * 10 ^ (dec_digits ?n - 1) \<le> \<bar>c\<bar>" "\<bar>c\<bar> < 10 * (10 :: int) ^ dec_digits ?n" using b by linarith+
  moreover have "10 * (10 :: int) ^ (dec_digits ?n - 1) = 10 ^ dec_digits ?n" using digits_pos[of ?n] by (cases "dec_digits ?n") simp_all
  ultimately have "dec_digits c = Suc (dec_digits ?n)" by (intro dec_digits_eq) simp_all
  then show ?thesis using False by simp
qed

end
