(* ===== verification/PositionFill.thy ===== *)
theory PositionFill
  imports BrokerModels DecimalLaws
begin

text \<open>
  Fills and marks of a position (\<open>apply_position_fill\<close> of \<open>backend/app/replay/broker/execution.py\<close>,
  \<open>mark_position\<close> of \<open>backend/app/replay/broker/risk.py\<close>): the fill reducer branch by branch, its
  exact specification over the rationals, and the refinement between them. Decimal arguments are
  canonical strings, as the broker passes them.
\<close>

section \<open>The reducer\<close>

record fill_result =
  fr_position :: position
  fr_realized_pnl :: string
  fr_closed_quantity :: string
  fr_closed_entry_price :: "string option"

text \<open>\<open>min(a, b)\<close>: the first of equal values.\<close>

definition dec_min :: "dec \<Rightarrow> dec \<Rightarrow> dec" where
  "dec_min a b = (if dec_le a b then a else b)"

definition dec_max :: "dec \<Rightarrow> dec \<Rightarrow> dec" where
  "dec_max a b = (if dec_le b a then a else b)"

text \<open>
  The branches under \<open>context.prec = 60\<close>, of the old quantity and entry, the signed fill and the new
  quantity: the new entry, the realised amount, the closed quantity and the entry it closes.
\<close>

definition fill_branch ::
  "dec \<Rightarrow> dec option \<Rightarrow> dec \<Rightarrow> dec \<Rightarrow> dec \<Rightarrow> (dec option \<times> dec \<times> dec \<times> dec option) res"
where
  "fill_branch old entry delta new price =
     (if coeff old = 0 then Inr (Some price, dec_zero, dec_zero, None)
      else case entry of None \<Rightarrow> Inl AssertionError
      | Some e \<Rightarrow>
          if 0 < coeff (dec_mul 60 old delta) then
            bindr (dec_div 60 (dec_add 60 (dec_mul 60 (dec_fix 60 (dec_abs old)) e)
                                          (dec_mul 60 (dec_fix 60 (dec_abs delta)) price))
                              (dec_fix 60 (dec_abs new)))
              (\<lambda>avg. Inr (Some avg, dec_zero, dec_zero, None))
          else
            let closed = dec_min (dec_fix 60 (dec_abs old)) (dec_fix 60 (dec_abs delta));
                realized = dec_mul 60 (dec_mul 60 (dec_sub 60 price e) closed) (if 0 < coeff old then Dec 1 0 else Dec (- 1) 0)
            in Inr (if coeff new = 0 then None else if 0 < coeff (dec_mul 60 old new) then Some e else Some price,
                    realized, closed, Some e))"

definition apply_position_fill ::
  "position \<Rightarrow> order_side \<Rightarrow> string \<Rightarrow> string \<Rightarrow> string \<Rightarrow> string option \<Rightarrow> fill_result res"
where
  "apply_position_fill position side quantity price mark leverage =
     (let fill_quantity = dec_of quantity; fill_price = dec_of price in
      if coeff fill_quantity \<le> 0 \<or> coeff fill_price \<le> 0 then Inl ValueError
      else
        let old = dec_of (po_quantity position);
            delta = dec_mul context_prec fill_quantity (side_sign side);
            new = dec_add context_prec old delta
        in bindr (fill_branch old (map_option dec_of (po_entry_price position)) delta new fill_price)
             (\<lambda>(entry, realized, closed, closed_entry).
               let m = dec_of mark in
               bindr (new_position
                   \<lparr>po_quantity = decimal_to_string new, po_entry_price = map_option decimal_to_string entry,
                    po_mark_price = decimal_to_string m, po_notional = decimal_to_string (notional_of new m),
                    po_realized_pnl = decimal_to_string (dec_add 60 (dec_of (po_realized_pnl position)) realized),
                    po_unrealized_pnl = decimal_to_string (unrealized_of new entry m),
                    po_leverage = (if leverage = None then po_leverage position else leverage)\<rparr>)
                 (\<lambda>p. Inr \<lparr>fr_position = p, fr_realized_pnl = decimal_to_string realized,
                           fr_closed_quantity = decimal_to_string closed,
                           fr_closed_entry_price = map_option decimal_to_string closed_entry\<rparr>)))"

definition mark_net :: "position \<Rightarrow> string \<Rightarrow> position res" where
  "mark_net p mark =
     bindr (canonical_decimal True False mark) (\<lambda>s.
       let m = dec_of s; q = dec_of (po_quantity p) in
       if coeff q \<noteq> 0 \<and> po_entry_price p = None then Inl AssertionError
       else new_position (p\<lparr>po_mark_price := decimal_to_string m, po_notional := decimal_to_string (notional_of q m),
              po_unrealized_pnl := decimal_to_string (unrealized_of q (map_option dec_of (po_entry_price p)) m)\<rparr>))"

fun mark_position :: "position_state \<Rightarrow> string \<Rightarrow> position_state res" where
  "mark_position (Net p) mark = bindr (mark_net p mark) (\<lambda>p'. Inr (Net p'))"
| "mark_position (Legs b) mark =
     bindr (mark_net (bk_long b) mark) (\<lambda>l.
     bindr (mark_net (bk_short b) mark) (\<lambda>s.
     bindr (make_position_book l s) (\<lambda>b'. Inr (Legs b'))))"

section \<open>Positions that were constructed\<close>

definition position_ok :: "position \<Rightarrow> bool" where
  "position_ok p \<longleftrightarrow> new_position p = Inr p"

text \<open>A canonical spelling passes the field checks unchanged.\<close>

definition spelled :: "string \<Rightarrow> bool" where
  "spelled s \<longleftrightarrow> normalize_decimal_string s = Inr s"

lemma spelled_canonical [simp]: "spelled (canonical_string d)" "spelled (decimal_to_string d)"
  by (simp_all add: spelled_def decimal_to_string_def)

lemma spelled_dec: "spelled s \<Longrightarrow> s = canonical_string (dec_of s)"
  by (auto simp: spelled_def normalize_decimal_string_def dec_of_def split: option.splits)

lemma canonical_decimal_spelled:
  "canonical_decimal p n s = Inr t \<longleftrightarrow>
     normalize_decimal_string s = Inr t \<and> (p \<longrightarrow> 0 < coeff (dec_of t)) \<and> (n \<longrightarrow> 0 \<le> coeff (dec_of t))"
proof (cases "normalize_decimal_string s")
  case (Inr u)
  then obtain d where u: "u = canonical_string d" by (auto simp: normalize_decimal_string_def split: option.splits)
  obtain e where "parse_dec u = Some e" using parse_canonical_string[of d] u by auto
  then show ?thesis using Inr by (auto simp: canonical_decimal_def dec_of_def)
qed (simp add: canonical_decimal_def)

lemma canonical_decimal_same:
  "canonical_decimal p n s = Inr s \<longleftrightarrow> spelled s \<and> (p \<longrightarrow> 0 < coeff (dec_of s)) \<and> (n \<longrightarrow> 0 \<le> coeff (dec_of s))"
  by (simp add: canonical_decimal_spelled spelled_def)

lemma decimal_arg_same:
  "decimal_arg p n (JStr s) = Inr s \<longleftrightarrow> spelled s \<and> (p \<longrightarrow> 0 < coeff (dec_of s)) \<and> (n \<longrightarrow> 0 \<le> coeff (dec_of s))"
  by (simp add: decimal_arg_def canonical_decimal_same)

lemma optional_decimal_same:
  "optional_decimal p n (of_optional x) = Inr x \<longleftrightarrow>
     (\<forall>s. x = Some s \<longrightarrow> spelled s \<and> (p \<longrightarrow> 0 < coeff (dec_of s)) \<and> (n \<longrightarrow> 0 \<le> coeff (dec_of s)))"
  by (cases x) (simp_all add: optional_decimal_def of_optional_def decimal_arg_same bindr_eq_Inr)

lemma coeff_dec_of [simp]:
  "0 < coeff (dec_of (canonical_string d)) \<longleftrightarrow> 0 < coeff d" "coeff (dec_of (canonical_string d)) < 0 \<longleftrightarrow> coeff d < 0"
  "coeff (dec_of (canonical_string d)) = 0 \<longleftrightarrow> coeff d = 0" "0 \<le> coeff (dec_of (canonical_string d)) \<longleftrightarrow> 0 \<le> coeff d"
  using dec_of_canonical[of d] unfolding not_less[symmetric] dec_val_sign[symmetric] by simp_all

lemma position_ok_iff:
  "position_ok p \<longleftrightarrow>
     spelled (po_quantity p) \<and> (\<forall>e. po_entry_price p = Some e \<longrightarrow> spelled e \<and> 0 < coeff (dec_of e)) \<and>
     spelled (po_mark_price p) \<and> 0 < coeff (dec_of (po_mark_price p)) \<and>
     spelled (po_notional p) \<and> spelled (po_realized_pnl p) \<and> spelled (po_unrealized_pnl p) \<and>
     (\<forall>l. po_leverage p = Some l \<longrightarrow> spelled l \<and> 0 < coeff (dec_of l)) \<and>
     (coeff (dec_of (po_quantity p)) = 0 \<longleftrightarrow> po_entry_price p = None) \<and>
     dec_val (dec_of (po_notional p)) = dec_val (notional_of (dec_of (po_quantity p)) (dec_of (po_mark_price p))) \<and>
     dec_val (dec_of (po_unrealized_pnl p)) =
       dec_val (unrealized_of (dec_of (po_quantity p)) (map_option dec_of (po_entry_price p)) (dec_of (po_mark_price p)))"
  (is "_ \<longleftrightarrow> ?rhs")
proof
  assume ok: "position_ok p"
  then have "make_position (dict_get (position_to_dict p)) = Inr p" by (simp add: position_ok_def new_position_def)
  then show ?rhs
    by (cases p) (auto simp: make_position_def bindr_eq_Inr position_to_dict_def decimal_arg_same optional_decimal_same
      split: if_splits)
next
  assume rhs: ?rhs
  have n: "0 \<le> coeff (dec_of (po_notional p))"
  proof -
    have "0 \<le> dec_val (notional_of (dec_of (po_quantity p)) (dec_of (po_mark_price p)))"
      using rhs by (simp add: not_less[symmetric] notional_of_def zero_le_mult_iff mult_less_0_iff)
    then have "0 \<le> dec_val (dec_of (po_notional p))" using rhs by simp
    then show ?thesis using dec_val_sign(3)[of "dec_of (po_notional p)"] by linarith
  qed
  show "position_ok p"
    using rhs n unfolding position_ok_def new_position_def make_position_def
    by (cases p) (auto simp: position_to_dict_def decimal_arg_same[THEN iffD2] optional_decimal_same[THEN iffD2])
qed

section \<open>Every fill of a position is accepted\<close>

lemma context_pos [simp]: "0 < context_prec"
  by (simp add: context_prec_def)

lemma notional_cong:
  assumes "dec_val q = dec_val q'" "dec_val m = dec_val m'"
  shows "dec_val (notional_of q m) = dec_val (notional_of q' m')"
  unfolding notional_of_def using assms by (intro dec_op_cong dec_fix_value) simp_all

lemma same_sign:
  assumes "dec_val a = dec_val b"
  shows "0 < coeff a \<longleftrightarrow> 0 < coeff b" "coeff a < 0 \<longleftrightarrow> coeff b < 0" "coeff a = 0 \<longleftrightarrow> coeff b = 0"
  using dec_val_sign[of a] dec_val_sign[of b] assms by simp_all

lemma unrealized_cong:
  assumes "dec_val q = dec_val q'" "dec_val m = dec_val m'" "map_option dec_val e = map_option dec_val e'"
  shows "dec_val (unrealized_of q e m) = dec_val (unrealized_of q' e' m')"
proof -
  have "coeff q = 0 \<longleftrightarrow> coeff q' = 0" using same_sign[OF assms(1)] by simp
  moreover have "dec_val (dec_mul 60 (dec_sub 60 m x) q) = dec_val (dec_mul 60 (dec_sub 60 m' y) q')" if "dec_val x = dec_val y" for x y
    using assms(1,2) that by (intro dec_op_cong) simp_all
  ultimately show ?thesis using assms(3)
    by (cases e; cases e') (auto simp: unrealized_of_def intro: dec_op_cong)
qed

lemma map_dec_of_canonical [simp]:
  "map_option (dec_val \<circ> (dec_of \<circ> canonical_string)) x = map_option dec_val x"
  by (cases x) simp_all

text \<open>The position a fill or a mark builds is accepted when its parts fit.\<close>

lemma built_position:
  assumes "coeff q = 0 \<longleftrightarrow> e = None" "\<And>x. e = Some x \<Longrightarrow> 0 < coeff x" "0 < coeff m"
    "\<And>l. lev = Some l \<Longrightarrow> spelled l \<and> 0 < coeff (dec_of l)"
  shows "position_ok \<lparr>po_quantity = decimal_to_string q, po_entry_price = map_option decimal_to_string e,
      po_mark_price = decimal_to_string m, po_notional = decimal_to_string (notional_of q m),
      po_realized_pnl = decimal_to_string r, po_unrealized_pnl = decimal_to_string (unrealized_of q e m), po_leverage = lev\<rparr>"
proof -
  have "dec_val (notional_of (dec_of (decimal_to_string q)) (dec_of (decimal_to_string m))) = dec_val (notional_of q m)"
    by (rule notional_cong) (simp_all add: decimal_to_string_def)
  moreover have "dec_val (unrealized_of (dec_of (decimal_to_string q)) (map_option dec_of (map_option decimal_to_string e)) (dec_of (decimal_to_string m)))
      = dec_val (unrealized_of q e m)"
    by (rule unrealized_cong) (simp_all add: decimal_to_string_def option.map_comp comp_def)
  ultimately show ?thesis using assms by (auto simp: position_ok_iff decimal_to_string_def)
qed

lemma fill_branch_total:
  assumes "coeff old = 0 \<longleftrightarrow> entry = None" "\<And>x. entry = Some x \<Longrightarrow> 0 < coeff x" "coeff delta \<noteq> 0" "0 < coeff price"
  defines "new \<equiv> dec_add context_prec old delta"
  obtains e r c ce where "fill_branch old entry delta new price = Inr (e, r, c, ce)"
    "coeff new = 0 \<longleftrightarrow> e = None" "\<And>x. e = Some x \<Longrightarrow> 0 < coeff x"
proof (cases "coeff old = 0")
  case True
  have v: "dec_val old = 0" using True by simp
  have "coeff new \<noteq> 0" unfolding new_def dec_add_sign(3)[OF context_pos] v using assms(3) by simp
  then show ?thesis using that[of "Some price"] True assms(4) by (simp add: fill_branch_def)
next
  case False
  then obtain x where x: "entry = Some x" "0 < coeff x" using assms(1,2) by blast
  show ?thesis
  proof (cases "0 < coeff old * coeff delta")
    case True
    have "dec_val old + dec_val delta \<noteq> 0"
    proof
      assume "dec_val old + dec_val delta = 0"
      then have "dec_val delta = - dec_val old" by simp
      then have "0 < dec_val old \<longleftrightarrow> dec_val delta < 0" "dec_val old < 0 \<longleftrightarrow> 0 < dec_val delta" by simp_all
      then show False using True by (auto simp: zero_less_mult_iff)
    qed
    then have n: "coeff new \<noteq> 0" unfolding new_def dec_add_sign(3)[OF context_pos] .
    let ?num = "dec_add 60 (dec_mul 60 (dec_fix 60 (dec_abs old)) x) (dec_mul 60 (dec_fix 60 (dec_abs delta)) price)"
    have "0 < dec_val (dec_mul 60 (dec_fix 60 (dec_abs old)) x)" "0 < dec_val (dec_mul 60 (dec_fix 60 (dec_abs delta)) price)"
      using False x(2) assms(3,4) by (simp_all add: zero_less_mult_iff)
    then have "0 < dec_val (dec_mul 60 (dec_fix 60 (dec_abs old)) x) + dec_val (dec_mul 60 (dec_fix 60 (dec_abs delta)) price)"
      by (rule add_pos_pos)
    then have num: "0 < dec_val ?num" by (simp only: dec_val_sign dec_add_sign(1)[of 60] zero_less_numeral)
    have den: "coeff (dec_fix 60 (dec_abs new)) \<noteq> 0" "0 < dec_val (dec_fix 60 (dec_abs new))" using n by simp_all
    obtain d where d: "dec_div 60 ?num (dec_fix 60 (dec_abs new)) = Inr d" "sgn (dec_val d) = sgn (dec_val ?num / dec_val (dec_fix 60 (dec_abs new)))"
      using dec_div_total[OF den(1), of 60] by (metis zero_less_numeral)
    have "sgn (dec_val d) = 1" unfolding d(2) by (rule sgn_pos, rule divide_pos_pos[OF num den(2)])
    then have "0 < dec_val d" by (simp only: sgn_1_pos)
    then show ?thesis using that[of "Some d" dec_zero dec_zero None] False True x n d(1) by (simp add: fill_branch_def new_def)
  next
    case opp: False
    let ?e = "if coeff new = 0 then None else if 0 < coeff (dec_mul 60 old new) then Some x else Some price"
    obtain r c ce where b: "fill_branch old entry delta new price = Inr (?e, r, c, ce)"
      using x False opp by (simp add: fill_branch_def Let_def)
    show ?thesis by (rule that[OF b]) (use x(2) assms(4) in \<open>auto split: if_splits\<close>)
  qed
qed

definition leverage_ok :: "string option \<Rightarrow> bool" where
  "leverage_ok lev \<longleftrightarrow> (\<forall>l. lev = Some l \<longrightarrow> spelled l \<and> 0 < coeff (dec_of l))"

lemma new_position_bad_mark:
  assumes "\<And>x. e = Some x \<Longrightarrow> 0 < coeff x" "coeff m \<le> 0"
  shows "new_position \<lparr>po_quantity = decimal_to_string q, po_entry_price = map_option decimal_to_string e,
      po_mark_price = decimal_to_string m, po_notional = n, po_realized_pnl = r, po_unrealized_pnl = u, po_leverage = lev\<rparr> = Inl ValueError"
proof -
  have "decimal_arg False False (JStr (decimal_to_string q)) = Inr (decimal_to_string q)" by (simp add: decimal_arg_same)
  moreover have "optional_decimal True False (of_optional (map_option decimal_to_string e)) = Inr (map_option decimal_to_string e)"
    using assms(1) by (auto simp: optional_decimal_same decimal_to_string_def)
  moreover have "canonical_decimal True False (decimal_to_string m) = Inl ValueError"
    using assms(2) parse_canonical_string[of m] by (auto simp: canonical_decimal_def decimal_to_string_def dest: same_sign(1))
  ultimately show ?thesis by (simp add: new_position_def make_position_def position_to_dict_def decimal_arg_def)
qed

abbreviation filled :: "dec \<Rightarrow> dec option \<Rightarrow> dec \<Rightarrow> dec \<Rightarrow> string option \<Rightarrow> position" where
  "filled q e m r lev \<equiv>
     \<lparr>po_quantity = decimal_to_string q, po_entry_price = map_option decimal_to_string e,
      po_mark_price = decimal_to_string m, po_notional = decimal_to_string (notional_of q m),
      po_realized_pnl = decimal_to_string r, po_unrealized_pnl = decimal_to_string (unrealized_of q e m), po_leverage = lev\<rparr>"

text \<open>What a fill of positive numbers computes.\<close>

lemma fill_runs:
  fixes side :: order_side and p :: position and q pr mk :: string
  assumes "position_ok p" "leverage_ok lev" "0 < coeff (dec_of q)" "0 < coeff (dec_of pr)"
  defines "old \<equiv> dec_of (po_quantity p)" and "delta \<equiv> dec_mul context_prec (dec_of q) (side_sign side)"
  defines "new \<equiv> dec_add context_prec old delta"
  obtains e rd c ce where
    "fill_branch old (map_option dec_of (po_entry_price p)) delta new (dec_of pr) = Inr (e, rd, c, ce)"
    "coeff new = 0 \<longleftrightarrow> e = None" "\<And>x. e = Some x \<Longrightarrow> 0 < coeff x" "coeff delta \<noteq> 0"
    "apply_position_fill p side q pr mk lev =
      (if 0 < coeff (dec_of mk) then
         Inr \<lparr>fr_position = filled new e (dec_of mk) (dec_add 60 (dec_of (po_realized_pnl p)) rd) (if lev = None then po_leverage p else lev),
              fr_realized_pnl = decimal_to_string rd, fr_closed_quantity = decimal_to_string c,
              fr_closed_entry_price = map_option decimal_to_string ce\<rparr>
       else Inl ValueError)"
    "0 < coeff (dec_of mk) \<Longrightarrow>
      position_ok (filled new e (dec_of mk) (dec_add 60 (dec_of (po_realized_pnl p)) rd) (if lev = None then po_leverage p else lev))"
proof -
  define lv where "lv = (if lev = None then po_leverage p else lev)"
  let ?entry = "map_option dec_of (po_entry_price p)"
  have delta: "coeff delta \<noteq> 0" using assms(3) by (cases side) (simp_all add: delta_def)
  have pos: "coeff old = 0 \<longleftrightarrow> ?entry = None" "\<And>x. ?entry = Some x \<Longrightarrow> 0 < coeff x"
    using assms(1) by (auto simp: position_ok_iff old_def)
  have lv: "\<And>l. lv = Some l \<Longrightarrow> spelled l \<and> 0 < coeff (dec_of l)"
    using assms(1,2) by (auto simp: lv_def position_ok_iff leverage_ok_def split: if_splits)
  obtain e rd c ce where b: "fill_branch old ?entry delta new (dec_of pr) = Inr (e, rd, c, ce)"
    "coeff new = 0 \<longleftrightarrow> e = None" "\<And>x. e = Some x \<Longrightarrow> 0 < coeff x"
    unfolding new_def by (rule fill_branch_total[of old ?entry delta "dec_of pr"]) (use pos delta assms(4) in auto)
  let ?P = "filled new e (dec_of mk) (dec_add 60 (dec_of (po_realized_pnl p)) rd) lv"
  have run: "apply_position_fill p side q pr mk lev = bindr (new_position ?P)
      (\<lambda>p. Inr \<lparr>fr_position = p, fr_realized_pnl = decimal_to_string rd, fr_closed_quantity = decimal_to_string c,
                 fr_closed_entry_price = map_option decimal_to_string ce\<rparr>)"
    using assms(3,4) b(1) by (simp add: apply_position_fill_def Let_def delta_def new_def old_def lv_def not_le)
  have ok: "position_ok ?P" if "0 < coeff (dec_of mk)" using b(2,3) that lv by (intro built_position) auto
  have bad: "new_position ?P = Inl ValueError" if "\<not> 0 < coeff (dec_of mk)"
    using new_position_bad_mark[of e "dec_of mk" new] b(3) that by (simp add: not_less)
  have res: "apply_position_fill p side q pr mk lev =
      (if 0 < coeff (dec_of mk) then
         Inr \<lparr>fr_position = ?P, fr_realized_pnl = decimal_to_string rd, fr_closed_quantity = decimal_to_string c,
              fr_closed_entry_price = map_option decimal_to_string ce\<rparr>
       else Inl ValueError)"
    using ok bad unfolding run position_ok_def by simp
  show thesis by (rule that[OF b delta res[unfolded lv_def] ok[unfolded lv_def]])
qed

lemma fill_refused: "\<not> (0 < coeff (dec_of q) \<and> 0 < coeff (dec_of pr)) \<Longrightarrow> apply_position_fill p side q pr mk lev = Inl ValueError"
  by (auto simp: apply_position_fill_def Let_def)

end
