(* ===== verification/PositionLaws.thy ===== *)
theory PositionLaws
  imports PositionFill
begin

section \<open>The exact account of a fill\<close>

text \<open>
  A position over the rationals: quantity, entry (zero when flat) and realised amount; what a signed
  fill at a price does to it, and what it is worth at a mark.
\<close>

type_synonym exact_position = "rat \<times> rat \<times> rat"

fun exact_fill :: "exact_position \<Rightarrow> rat \<Rightarrow> rat \<Rightarrow> exact_position" where
  "exact_fill (q, e, r) d p =
     (if q = 0 then (d, p, r)
      else if 0 < q * d then (q + d, (\<bar>q\<bar> * e + \<bar>d\<bar> * p) / \<bar>q + d\<bar>, r)
      else (q + d, if q + d = 0 then 0 else if 0 < q * (q + d) then e else p, r + (p - e) * min \<bar>q\<bar> \<bar>d\<bar> * sgn q))"

fun worth :: "exact_position \<Rightarrow> rat \<Rightarrow> rat" where
  "worth (q, e, r) m = r + (m - e) * q"

definition exact_of :: "position \<Rightarrow> exact_position" where
  "exact_of p = (dec_val (dec_of (po_quantity p)),
     case po_entry_price p of None \<Rightarrow> 0 | Some e \<Rightarrow> dec_val (dec_of e),
     dec_val (dec_of (po_realized_pnl p)))"

text \<open>A fill is worth nothing at its own price: it only changes what later marks are worth.\<close>

lemma exact_fill_worth: "d \<noteq> 0 \<Longrightarrow> worth (exact_fill (q, e, r) d p) m = worth (q, e, r) m + (m - p) * d"
proof -
  assume d: "d \<noteq> 0"
  show ?thesis
  proof (cases "q = 0 \<or> 0 < q * d")
    case True
    then consider "q = 0" | "q \<noteq> 0" "0 < q" "0 < d" | "q \<noteq> 0" "q < 0" "d < 0" by (auto simp: zero_less_mult_iff)
    then show ?thesis
    proof cases
      case 2
      then show ?thesis by (simp add: field_simps)
    next
      case 3
      then have "q + d < 0" "0 < q * d" by (simp_all add: mult_neg_neg)
      then show ?thesis using 3 by (simp add: field_simps)
    qed (simp add: algebra_simps)
  next
    case False
    then consider "0 < q" "d < 0" | "q < 0" "0 < d" using d by (auto simp: zero_less_mult_iff not_less)
    then show ?thesis
    proof cases
      case 1
      then have nd: "\<not> 0 < q * d" "q \<noteq> 0" by (simp_all add: mult_pos_neg not_less less_imp_le)
      consider "q + d = 0" | "0 < q + d" | "q + d < 0" by linarith
      then show ?thesis
      proof cases
        case 2
        then have "0 < q * (q + d)" using 1 by simp
        then show ?thesis using 1 2 nd by (simp add: algebra_simps)
      next
        case 3
        then have "\<not> 0 < q * (q + d)" using 1 by (simp add: mult_pos_neg not_less less_imp_le)
        then show ?thesis using 1 3 nd by (simp add: algebra_simps)
      qed (use 1 nd in \<open>simp add: algebra_simps add_eq_0_iff\<close>)
    next
      case 2
      then have nd: "\<not> 0 < q * d" "q \<noteq> 0" by (simp_all add: mult_neg_pos not_less less_imp_le)
      consider "q + d = 0" | "0 < q + d" | "q + d < 0" by linarith
      then show ?thesis
      proof cases
        case z: 3
        then have "0 < q * (q + d)" using 2 by (simp add: mult_neg_neg)
        then show ?thesis using 2 z nd by (simp add: algebra_simps)
      next
        case z: 2
        then have "\<not> 0 < q * (q + d)" using 2 by (simp add: mult_neg_pos not_less less_imp_le)
        then show ?thesis using 2 z nd by (simp add: algebra_simps)
      qed (use 2 nd in \<open>simp add: algebra_simps add_eq_0_iff\<close>)
    qed
  qed
qed

section \<open>Rounding errors of a fill\<close>

text \<open>\<open>near n a b s\<close>: \<open>a\<close> and \<open>b\<close> differ by at most \<open>n\<close> units in the 60th digit of \<open>s\<close>.\<close>

definition near :: "rat \<Rightarrow> rat \<Rightarrow> rat \<Rightarrow> rat \<Rightarrow> bool" where
  "near n a b s \<longleftrightarrow> 2 * 10 ^ 59 * \<bar>a - b\<bar> \<le> n * s"

lemma near_fix: "near 1 (dec_val (dec_fix 60 d)) (dec_val d) \<bar>dec_val d\<bar>"
  using dec_fix_error[of 60 d] by (simp add: near_def)

lemma near_trans: "near n a b s \<Longrightarrow> near m b c s \<Longrightarrow> near (n + m) a c s"
  unfolding near_def using abs_triangle_ineq[of "a - b" "b - c"] by (simp add: distrib_right)

lemma near_add: "near n a b s \<Longrightarrow> near n a' b' s' \<Longrightarrow> near n (a + a') (b + b') (s + s')"
  unfolding near_def using abs_triangle_ineq[of "a - b" "a' - b'"] by (simp add: distrib_left add_diff_add)

lemma near_scale: "near n a b s \<Longrightarrow> near n (a * c) (b * c) (s * \<bar>c\<bar>)"
proof -
  assume "near n a b s"
  then have "2 * 10 ^ 59 * \<bar>a - b\<bar> * \<bar>c\<bar> \<le> n * s * \<bar>c\<bar>" unfolding near_def by (rule mult_right_mono) simp
  then show ?thesis by (simp add: near_def left_diff_distrib[symmetric] abs_mult mult.assoc)
qed

lemma near_mono: "near n a b s \<Longrightarrow> 0 \<le> n \<Longrightarrow> n \<le> n' \<Longrightarrow> s \<le> s' \<Longrightarrow> 0 \<le> s' \<Longrightarrow> near n' a b s'"
  unfolding near_def by (meson mult_left_mono mult_right_mono order_trans)

text \<open>What is near a number of size at most \<open>s\<close> is itself of size at most \<open>2 s\<close>, and rounds near it.\<close>

lemma near_size: "near n a b s \<Longrightarrow> n \<le> 100 \<Longrightarrow> \<bar>b\<bar> \<le> s \<Longrightarrow> \<bar>a\<bar> \<le> 2 * s"
proof -
  assume n: "near n a b s" "n \<le> 100" "\<bar>b\<bar> \<le> s"
  have "n * s \<le> 100 * s" using n(2,3) by (intro mult_right_mono) linarith+
  then have "2 * 10 ^ 59 * \<bar>a - b\<bar> \<le> 100 * s" using n(1) unfolding near_def by linarith
  moreover have "0 \<le> s" using n(3) by linarith
  ultimately have "\<bar>a - b\<bar> \<le> s" by simp
  then show ?thesis using n(3) by linarith
qed

lemma near_round:
  assumes "near n (dec_val d) b s" "n \<le> 100" "\<bar>b\<bar> \<le> s"
  shows "near (n + 2) (dec_val (dec_fix 60 d)) b s"
proof -
  have "near 1 (dec_val (dec_fix 60 d)) (dec_val d) (2 * s)"
    using near_mono[OF near_fix[of d], of 1 "2 * s"] near_size[OF assms] assms(3) by simp
  then have "near 2 (dec_val (dec_fix 60 d)) (dec_val d) s" by (simp add: near_def)
  from near_trans[OF this assms(1)] show ?thesis by (simp add: add.commute)
qed

lemma near_div:
  assumes "dec_div 60 a b = Inr d" "0 < dec_val a" "0 < dec_val b" "near n (dec_val a) S S" "n \<le> 10" "0 \<le> S"
  shows "near (n + 4) (dec_val d * dec_val b) S S"
proof -
  have b: "coeff b \<noteq> 0" using assms(3) by simp
  obtain d' where d': "dec_div 60 a b = Inr d'" "10 ^ (60 - 1) * \<bar>dec_val d' - dec_val a / dec_val b\<bar> \<le> \<bar>dec_val a / dec_val b\<bar>"
    by (rule dec_div_total[OF b, of 60 a]) simp_all
  have "10 ^ 59 * \<bar>dec_val d - dec_val a / dec_val b\<bar> \<le> dec_val a / dec_val b" using d' assms(1-3) by simp
  then have "10 ^ 59 * \<bar>dec_val d - dec_val a / dec_val b\<bar> * dec_val b \<le> dec_val a / dec_val b * dec_val b"
    by (rule mult_right_mono) (use assms(3) in \<open>rule less_imp_le\<close>)
  moreover have "\<bar>dec_val d - dec_val a / dec_val b\<bar> * dec_val b = \<bar>dec_val d * dec_val b - dec_val a\<bar>"
  proof -
    have "(dec_val d - dec_val a / dec_val b) * dec_val b = dec_val d * dec_val b - dec_val a" using assms(3) by (simp add: left_diff_distrib)
    then show ?thesis using assms(3) by (metis abs_mult abs_of_pos)
  qed
  ultimately have "10 ^ 59 * \<bar>dec_val d * dec_val b - dec_val a\<bar> \<le> dec_val a" using assms(3) by (simp add: mult.assoc)
  moreover have "\<bar>dec_val a\<bar> \<le> 2 * S" using near_size[OF assms(4)] assms(5,6) by simp
  ultimately have "near 4 (dec_val d * dec_val b) (dec_val a) S" unfolding near_def by linarith
  from near_trans[OF this assms(4)] show ?thesis by (simp add: add.commute)
qed

text \<open>The branch that adds to a position: the average is near the exact one, weighed by the new quantity.\<close>

lemma average_near:
  assumes "dec_div 60 (dec_add 60 (dec_mul 60 a e) (dec_mul 60 b p)) n = Inr d"
    "0 < dec_val a" "0 < dec_val b" "0 < dec_val e" "0 < dec_val p" "0 < dec_val n"
  shows "near 10 (dec_val d * dec_val n) (dec_val a * dec_val e + dec_val b * dec_val p) (dec_val a * dec_val e + dec_val b * dec_val p)"
proof -
  let ?x = "dec_val a * dec_val e" and ?y = "dec_val b * dec_val p"
  have pos: "0 < ?x" "0 < ?y" using assms(2-5) by simp_all
  have "near 1 (dec_val (dec_mul 60 a e)) ?x ?x" "near 1 (dec_val (dec_mul 60 b p)) ?y ?y"
    using near_fix[of "dec_times a e"] near_fix[of "dec_times b p"] pos by (simp_all add: dec_mul_def)
  from near_add[OF this] have "near 1 (dec_val (dec_plus (dec_mul 60 a e) (dec_mul 60 b p))) (?x + ?y) (?x + ?y)" by simp
  from near_round[OF this] have s: "near 3 (dec_val (dec_add 60 (dec_mul 60 a e) (dec_mul 60 b p))) (?x + ?y) (?x + ?y)"
    using pos by (simp add: dec_add_def)
  have m: "0 < dec_val (dec_mul 60 a e)" "0 < dec_val (dec_mul 60 b p)" using assms(2-5) by simp_all
  then have "0 < dec_val (dec_add 60 (dec_mul 60 a e) (dec_mul 60 b p))"
    using dec_add_sign(1)[of 60 "dec_mul 60 a e" "dec_mul 60 b p"] by (simp add: add_pos_pos del: dec_mul_sign)
  from near_mono[OF near_div[OF assms(1) this assms(6) s], of 10 "?x + ?y"] pos show ?thesis by simp
qed

text \<open>The branch that closes: the realised amount is near the exact one.\<close>

lemma realized_near:
  assumes "0 < dec_val e" "0 < dec_val p" "0 < dec_val c" "\<bar>dec_val u\<bar> = 1"
  shows "near 10 (dec_val (dec_mul 60 (dec_mul 60 (dec_sub 60 p e) c) u)) ((dec_val p - dec_val e) * dec_val c * dec_val u)
    ((dec_val p + dec_val e) * dec_val c)"
proof -
  let ?s = "(dec_val p + dec_val e) * dec_val c"
  have b: "\<bar>dec_val p - dec_val e\<bar> \<le> dec_val p + dec_val e" using assms(1,2) by linarith
  have "near 1 (dec_val (dec_sub 60 p e)) (dec_val p - dec_val e) (dec_val p + dec_val e)"
    using near_mono[OF near_fix[of "dec_plus p (dec_neg e)"], of 1 "dec_val p + dec_val e"] b assms(1,2) by (simp add: dec_sub_def)
  from near_scale[OF this, of "dec_val c"]
  have "near 1 (dec_val (dec_times (dec_sub 60 p e) c)) ((dec_val p - dec_val e) * dec_val c) ?s" using assms(3) by simp
  moreover have bs: "\<bar>(dec_val p - dec_val e) * dec_val c\<bar> \<le> ?s" using b assms(3) by (simp add: abs_mult mult_right_mono del: dec_val_sign)
  ultimately have "near 3 (dec_val (dec_mul 60 (dec_sub 60 p e) c)) ((dec_val p - dec_val e) * dec_val c) ?s"
    using near_round[of 1 "dec_times (dec_sub 60 p e) c"] by (simp add: dec_mul_def)
  from near_scale[OF this, of "dec_val u"]
  have "near 3 (dec_val (dec_times (dec_mul 60 (dec_sub 60 p e) c) u)) ((dec_val p - dec_val e) * dec_val c * dec_val u) ?s"
    using assms(4) by simp
  then have "near 5 (dec_val (dec_fix 60 (dec_times (dec_mul 60 (dec_sub 60 p e) c) u))) ((dec_val p - dec_val e) * dec_val c * dec_val u) ?s"
    using near_round[of 3 "dec_times (dec_mul 60 (dec_sub 60 p e) c) u"] bs assms(4) by (simp add: abs_mult)
  from near_mono[OF this, of 10 ?s] assms(1-3) show ?thesis by (simp add: dec_mul_def[of 60 _ u])
qed

lemma realized_sum_near:
  assumes "near 10 (dec_val rd) R s" "\<bar>R\<bar> \<le> s"
  shows "near 20 (dec_val (dec_add 60 r0 rd)) (dec_val r0 + R) (\<bar>dec_val r0\<bar> + s)"
proof -
  have s: "0 \<le> s" using assms(2) by linarith
  have "near 10 (dec_val r0 + dec_val rd) (dec_val r0 + R) s" using assms(1) by (simp add: near_def)
  from near_mono[OF this, of 10 "\<bar>dec_val r0\<bar> + s"] have "near 10 (dec_val (dec_plus r0 rd)) (dec_val r0 + R) (\<bar>dec_val r0\<bar> + s)" using s by simp
  moreover have "\<bar>dec_val r0 + R\<bar> \<le> \<bar>dec_val r0\<bar> + s" using abs_triangle_ineq[of "dec_val r0" R] assms(2) by linarith
  ultimately have "near 12 (dec_val (dec_fix 60 (dec_plus r0 rd))) (dec_val r0 + R) (\<bar>dec_val r0\<bar> + s)"
    using near_round[of 10 "dec_plus r0 rd"] by simp
  from near_mono[OF this, of 20 "\<bar>dec_val r0\<bar> + s"] s show ?thesis by (simp add: dec_add_def)
qed

lemma near_combine:
  assumes "near 2 a b s" "near 10 c d s'" "w - w' = a - b - u * (c - d)" "\<bar>u\<bar> \<le> 1" "s' \<le> s" "0 \<le> s"
  shows "near 20 w w' s"
proof -
  have "\<bar>u * (c - d)\<bar> \<le> \<bar>c - d\<bar>" using assms(4) by (simp add: abs_mult mult_left_le_one_le)
  then have "\<bar>w - w'\<bar> \<le> \<bar>a - b\<bar> + \<bar>c - d\<bar>" using assms(3) by linarith
  then have "2 * 10 ^ 59 * \<bar>w - w'\<bar> \<le> 2 * 10 ^ 59 * \<bar>a - b\<bar> + 2 * 10 ^ 59 * \<bar>c - d\<bar>" by simp
  moreover have "2 * s + 10 * s' \<le> 20 * s" using assms(5,6) by simp
  ultimately show ?thesis using add_mono[OF assms(1,2)[unfolded near_def]] unfolding near_def by (meson order_trans)
qed

text \<open>A fill branch by branch, when the three quantities need no rounding.\<close>

lemma fill_branch_near:
  assumes b: "fill_branch old entry delta new price = Inr (e', rd, c, ce)"
    and sizes: "dec_val (dec_fix 60 (dec_abs old)) = \<bar>dec_val old\<bar>" "dec_val (dec_fix 60 (dec_abs delta)) = \<bar>dec_val delta\<bar>"
      "dec_val (dec_fix 60 (dec_abs new)) = \<bar>dec_val new\<bar>" "dec_val new = dec_val old + dec_val delta"
    and pos: "0 < dec_val price" "coeff delta \<noteq> 0" "\<And>x. entry = Some x \<Longrightarrow> 0 < dec_val x"
  defines "q \<equiv> dec_val old" and "d \<equiv> dec_val delta" and "e \<equiv> (case entry of None \<Rightarrow> 0 | Some x \<Rightarrow> dec_val x)"
    and "en \<equiv> (case e' of None \<Rightarrow> 0 | Some x \<Rightarrow> dec_val x)"
  shows "near 20 (worth (q + d, en, dec_val (dec_add 60 r0 rd)) m)
    (worth (exact_fill (q, e, dec_val r0) d (dec_val price)) m) (\<bar>dec_val r0\<bar> + (\<bar>q\<bar> + \<bar>d\<bar>) * (e + dec_val price))"
proof -
  have d0: "d \<noteq> 0" "0 < \<bar>d\<bar>" using pos(2) by (simp_all add: d_def)
  have e0: "0 \<le> e" using pos(3) by (auto simp: e_def less_imp_le simp del: dec_val_sign split: option.splits)
  let ?s = "(\<bar>q\<bar> + \<bar>d\<bar>) * (e + dec_val price)"
  have s0: "0 \<le> ?s" using e0 pos(1) by (simp add: add_nonneg_nonneg mult_nonneg_nonneg del: dec_val_sign)
  have zero: "near 20 (dec_val (dec_add 60 r0 dec_zero)) (dec_val r0) (\<bar>dec_val r0\<bar> + ?s)"
    using realized_sum_near[of dec_zero 0 ?s r0] s0 by (simp add: near_def)
  show ?thesis
  proof (cases "coeff old = 0")
    case True
    then have "q = 0" by (simp add: q_def)
    moreover have "en = dec_val price" "rd = dec_zero" using b True by (auto simp: fill_branch_def en_def)
    ultimately show ?thesis using zero by (simp add: near_def)
  next
    case False
    then obtain x where x: "entry = Some x" using b by (cases entry) (simp_all add: fill_branch_def)
    have ev: "e = dec_val x" "0 < dec_val x" using x pos(3) by (simp_all add: e_def)
    have q0: "q \<noteq> 0" "0 < \<bar>q\<bar>" using False by (simp_all add: q_def)
    have sgn: "0 < coeff old * coeff delta \<longleftrightarrow> 0 < q * d"
      by (simp add: q_def d_def zero_less_mult_iff)
    show ?thesis
    proof (cases "0 < q * d")
      case True
      obtain avg where avg: "dec_div 60 (dec_add 60 (dec_mul 60 (dec_fix 60 (dec_abs old)) x) (dec_mul 60 (dec_fix 60 (dec_abs delta)) price))
          (dec_fix 60 (dec_abs new)) = Inr avg" "e' = Some avg" "rd = dec_zero"
        using b False x True sgn by (auto simp: fill_branch_def bindr_eq_Inr)
      have n: "\<bar>q + d\<bar> = \<bar>q\<bar> + \<bar>d\<bar>" using True by (auto simp: zero_less_mult_iff)
      let ?S = "\<bar>q\<bar> * e + \<bar>d\<bar> * dec_val price"
      have "near 10 (dec_val avg * \<bar>q + d\<bar>) ?S ?S"
        using average_near[OF avg(1)] sizes q0(2) d0(2) ev pos(1) n by (simp add: q_def[symmetric] d_def[symmetric])
      then have "near 10 (dec_val avg * \<bar>q + d\<bar>) ?S ?s"
        by (rule near_mono) (use e0 pos(1) in \<open>simp_all add: distrib_left distrib_right add_nonneg_nonneg del: dec_val_sign\<close>)
      moreover have "worth (q + d, en, R) m - worth (exact_fill (q, e, dec_val r0) d (dec_val price)) m
          = R - dec_val r0 - sgn q * (dec_val avg * \<bar>q + d\<bar> - ?S)" for R
      proof -
        have s: "q + d = sgn q * \<bar>q + d\<bar>" "q + d \<noteq> 0" using True by (auto simp: zero_less_mult_iff sgn_if)
        have "worth (exact_fill (q, e, dec_val r0) d (dec_val price)) m = dec_val r0 + m * (q + d) - ?S / \<bar>q + d\<bar> * (q + d)"
          using True q0 by (simp add: left_diff_distrib)
        also have "?S / \<bar>q + d\<bar> * (q + d) = sgn q * ?S" using s(2) by (subst (2) s(1)) simp
        finally show ?thesis using avg(2) s(1) by (simp add: en_def algebra_simps)
      qed
      moreover have "near 2 (dec_val (dec_add 60 r0 rd)) (dec_val r0) (\<bar>dec_val r0\<bar> + ?s)"
        using near_mono[OF near_fix[of "dec_plus r0 dec_zero"], of 2 "\<bar>dec_val r0\<bar> + ?s"] s0 avg(3) by (simp add: dec_add_def)
      ultimately show ?thesis
        using s0 by (intro near_combine[where u = "sgn q"]) (auto simp: sgn_if)
    next
      case opp: False
      define c' where "c' = dec_min (dec_fix 60 (dec_abs old)) (dec_fix 60 (dec_abs delta))"
      define u where "u = (if 0 < coeff old then Dec 1 0 else Dec (- 1) 0)"
      have br: "rd = dec_mul 60 (dec_mul 60 (dec_sub 60 price x) c') u"
        "e' = (if coeff new = 0 then None else if 0 < coeff (dec_mul 60 old new) then Some x else Some price)"
        using b False x opp sgn by (auto simp: fill_branch_def Let_def c'_def u_def)
      have u: "dec_val u = sgn q" "\<bar>sgn q\<bar> = 1" using False q0 by (auto simp: u_def q_def dec_val_def[of "Dec _ _"] sgn_if)
      have c: "dec_val c' = min \<bar>q\<bar> \<bar>d\<bar>" using sizes(1,2) by (simp add: c'_def dec_min_def q_def d_def min_def)
      let ?R = "(dec_val price - e) * min \<bar>q\<bar> \<bar>d\<bar> * sgn q"
      have cs: "0 < min \<bar>q\<bar> \<bar>d\<bar>" "min \<bar>q\<bar> \<bar>d\<bar> \<le> \<bar>q\<bar> + \<bar>d\<bar>" using q0 d0 by simp_all
      have "near 10 (dec_val rd) ?R ((dec_val price + e) * min \<bar>q\<bar> \<bar>d\<bar>)"
        using realized_near[of x price c' u] ev pos(1) cs(1) u by (simp add: br(1) c ev(1))
      moreover have le: "(dec_val price + e) * min \<bar>q\<bar> \<bar>d\<bar> \<le> ?s"
        using cs e0 pos(1) by (simp add: mult.commute add.commute mult_left_mono del: dec_val_sign)
      ultimately have "near 10 (dec_val rd) ?R ?s" using near_mono s0 by fastforce
      moreover have "\<bar>?R\<bar> \<le> ?s"
      proof -
        have "\<bar>?R\<bar> = \<bar>dec_val price - e\<bar> * min \<bar>q\<bar> \<bar>d\<bar>" using u(2) cs(1) by (simp add: abs_mult)
        also have "\<dots> \<le> (dec_val price + e) * min \<bar>q\<bar> \<bar>d\<bar>" using cs(1) e0 pos(1) by (intro mult_right_mono) linarith+
        finally show ?thesis using le by linarith
      qed
      ultimately have n: "near 20 (dec_val (dec_add 60 r0 rd)) (dec_val r0 + ?R) (\<bar>dec_val r0\<bar> + ?s)" by (rule realized_sum_near)
      have nw: "coeff new = 0 \<longleftrightarrow> q + d = 0" "0 < coeff old * coeff new \<longleftrightarrow> 0 < q * (q + d)"
        using sizes(4) dec_val_sign[of new] by (auto simp: q_def d_def zero_less_mult_iff)
      have "en = (if q + d = 0 then 0 else if 0 < q * (q + d) then e else dec_val price)"
        using br(2) nw ev(1) by (auto simp: en_def)
      then show ?thesis using n q0 opp by (simp add: near_def algebra_simps)
    qed
  qed
qed

definition signed :: "order_side \<Rightarrow> rat \<Rightarrow> rat" where
  "signed side x = (if side = Buy then x else - x)"

text \<open>Quantities of \<open>k\<close> decimal places that fit the default context together.\<close>

definition quantities_fit :: "nat \<Rightarrow> rat \<Rightarrow> rat \<Rightarrow> bool" where
  "quantities_fit k a b \<longleftrightarrow> places k a \<and> places k b \<and> (\<bar>a\<bar> + \<bar>b\<bar>) * 10 ^ k < 10 ^ 28"

lemma quantities_fit_exact:
  fixes side :: order_side
  assumes "quantities_fit k (dec_val old) (dec_val fq)"
  defines "delta \<equiv> dec_mul context_prec fq (side_sign side)"
  shows "dec_val delta = signed side (dec_val fq)" "dec_val (dec_add context_prec old delta) = dec_val old + signed side (dec_val fq)"
    "dec_val (dec_fix 60 (dec_abs old)) = \<bar>dec_val old\<bar>" "dec_val (dec_fix 60 (dec_abs delta)) = \<bar>dec_val delta\<bar>"
    "dec_val (dec_fix 60 (dec_abs (dec_add context_prec old delta))) = \<bar>dec_val (dec_add context_prec old delta)\<bar>"
proof -
  have pl: "places k (dec_val old)" "places k (dec_val fq)" and sz: "(\<bar>dec_val old\<bar> + \<bar>dec_val fq\<bar>) * 10 ^ k < 10 ^ 28"
    using assms(1) by (simp_all add: quantities_fit_def)
  have le: "\<bar>x\<bar> * 10 ^ k < 10 ^ 28" if "\<bar>x\<bar> \<le> \<bar>dec_val old\<bar> + \<bar>dec_val fq\<bar>" for x
    using mult_right_mono[OF that, of "10 ^ k"] sz by (meson le_less_trans zero_le_numeral zero_le_power)
  have le60: "\<bar>x\<bar> * 10 ^ k < 10 ^ 60" if "\<bar>x\<bar> \<le> \<bar>dec_val old\<bar> + \<bar>dec_val fq\<bar>" for x
    using le[OF that] by (rule less_trans) simp
  have sv: "dec_val (side_sign side) = (if side = Buy then 1 else - 1)" by (cases side) (simp_all add: dec_val_def)
  show d: "dec_val delta = signed side (dec_val fq)"
    using dec_mul_places[of k fq 0 "side_sign side" context_prec] pl(2) le[of "dec_val fq"] sv
    by (simp add: delta_def signed_def context_prec_def split: if_splits)
  have pd: "places k (dec_val delta)" and sd: "\<bar>dec_val delta\<bar> = \<bar>dec_val fq\<bar>" using pl(2) by (simp_all add: d signed_def)
  have tri: "\<bar>dec_val old + dec_val delta\<bar> \<le> \<bar>dec_val old\<bar> + \<bar>dec_val fq\<bar>" using abs_triangle_ineq[of "dec_val old"] sd by metis
  show n: "dec_val (dec_add context_prec old delta) = dec_val old + signed side (dec_val fq)"
    using dec_add_places[of k old delta context_prec] pl(1) pd le[OF tri] by (simp add: d context_prec_def)
  show "dec_val (dec_fix 60 (dec_abs old)) = \<bar>dec_val old\<bar>" using dec_fix_places[of k "dec_abs old" 60] pl(1) le60[of "dec_val old"] by simp
  have "places k \<bar>dec_val delta\<bar>" using pd by simp
  moreover have "\<bar>dec_val delta\<bar> * 10 ^ k < 10 ^ 60" using le60[of "dec_val delta"] sd by simp
  ultimately show "dec_val (dec_fix 60 (dec_abs delta)) = \<bar>dec_val delta\<bar>" using dec_fix_places[of k "dec_abs delta" 60] by (simp del: places_abs)
  have "places k (dec_val (dec_add context_prec old delta))" using places_add[OF pl(1) pd] by (simp add: n d)
  then show "dec_val (dec_fix 60 (dec_abs (dec_add context_prec old delta))) = \<bar>dec_val (dec_add context_prec old delta)\<bar>"
    using dec_fix_places[of k "dec_abs (dec_add context_prec old delta)" 60] le60[OF tri] by (simp add: n d)
qed

text \<open>The entry of a position as the exact account sees it.\<close>

lemma exact_of_parts:
  "exact_of p = (dec_val (dec_of (po_quantity p)), (case map_option dec_of (po_entry_price p) of None \<Rightarrow> 0 | Some x \<Rightarrow> dec_val x),
     dec_val (dec_of (po_realized_pnl p)))"
  by (simp add: exact_of_def split: option.splits)

lemma exact_of_filled:
  "exact_of (filled q e m r lev) = (dec_val q, (case e of None \<Rightarrow> 0 | Some x \<Rightarrow> dec_val x), dec_val r)"
  by (auto simp: exact_of_def decimal_to_string_def split: option.splits)

fun size_of :: "exact_position \<Rightarrow> rat \<Rightarrow> rat \<Rightarrow> rat" where
  "size_of (q, e, r) d p = \<bar>r\<bar> + (\<bar>q\<bar> + \<bar>d\<bar>) * (e + p)"

lemma fill_near:
  assumes "position_ok p" "leverage_ok lev" "0 < coeff (dec_of q)" "0 < coeff (dec_of pr)"
    "apply_position_fill p side q pr mk lev = Inr r"
    "quantities_fit k (dec_val (dec_of (po_quantity p))) (dec_val (dec_of q))"
  defines "d \<equiv> signed side (dec_val (dec_of q))"
  shows "fst (exact_of (fr_position r)) = fst (exact_of p) + d"
    "near 20 (worth (exact_of (fr_position r)) m) (worth (exact_fill (exact_of p) d (dec_val (dec_of pr))) m)
       (size_of (exact_of p) d (dec_val (dec_of pr)))"
proof -
  let ?old = "dec_of (po_quantity p)" and ?delta = "dec_mul context_prec (dec_of q) (side_sign side)"
    and ?entry = "map_option dec_of (po_entry_price p)"
  let ?new = "dec_add context_prec ?old ?delta"
  obtain e rd c ce where b: "fill_branch ?old ?entry ?delta ?new (dec_of pr) = Inr (e, rd, c, ce)" "coeff ?delta \<noteq> 0"
    and run: "apply_position_fill p side q pr mk lev =
      (if 0 < coeff (dec_of mk) then
         Inr \<lparr>fr_position = filled ?new e (dec_of mk) (dec_add 60 (dec_of (po_realized_pnl p)) rd) (if lev = None then po_leverage p else lev),
              fr_realized_pnl = decimal_to_string rd, fr_closed_quantity = decimal_to_string c,
              fr_closed_entry_price = map_option decimal_to_string ce\<rparr>
       else Inl ValueError)"
    by (rule fill_runs[OF assms(1-4), of side mk])
  have P: "fr_position r = filled ?new e (dec_of mk) (dec_add 60 (dec_of (po_realized_pnl p)) rd) (if lev = None then po_leverage p else lev)"
    using assms(5) unfolding run by (auto split: if_splits)
  note F = quantities_fit_exact[OF assms(6)]
  note fit = F(1)[of side, folded d_def] F(2)[of side, folded d_def] F(3) F(4)[of side] F(5)[of side]
  show "fst (exact_of (fr_position r)) = fst (exact_of p) + d" unfolding P exact_of_filled by (simp add: exact_of_parts fit(2))
  have ent: "0 < dec_val x" if "?entry = Some x" for x using assms(1) that by (auto simp: position_ok_iff)
  have "near 20 (worth (dec_val ?old + d, (case e of None \<Rightarrow> 0 | Some x \<Rightarrow> dec_val x), dec_val (dec_add 60 (dec_of (po_realized_pnl p)) rd)) m)
      (worth (exact_fill (exact_of p) d (dec_val (dec_of pr))) m) (size_of (exact_of p) d (dec_val (dec_of pr)))"
    using fill_branch_near[OF b(1) fit(3) fit(4) fit(5) _ _ b(2) ent, of "dec_of (po_realized_pnl p)" m] assms(4)
    by (simp add: exact_of_parts fit(1,2))
  then show "near 20 (worth (exact_of (fr_position r)) m) (worth (exact_fill (exact_of p) d (dec_val (dec_of pr))) m)
       (size_of (exact_of p) d (dec_val (dec_of pr)))"
    unfolding P exact_of_filled by (simp add: fit(2))
qed

section \<open>Properties\<close>

text \<open>C10: A fill neither creates nor destroys money. When the old and the filled quantity fit 28 digits
  together, the new quantity is exactly their signed sum, and at every mark the position is worth
  what it was worth before plus the fill's own gain at that mark; opening, averaging, closing and
  flipping alike are off by less than one part in 10^58 of the amounts involved.\<close>

theorem fill_conserves_worth:
  assumes "position_ok p" "leverage_ok lev" "apply_position_fill p side q pr mk lev = Inr r"
    "quantities_fit k (fst (exact_of p)) (dec_val (dec_of q))"
  shows "fst (exact_of (fr_position r)) = fst (exact_of p) + signed side (dec_val (dec_of q)) \<and>
    10 ^ 58 * \<bar>worth (exact_of (fr_position r)) m -
        (worth (exact_of p) m + (m - dec_val (dec_of pr)) * signed side (dec_val (dec_of q)))\<bar>
      \<le> size_of (exact_of p) (dec_val (dec_of q)) (dec_val (dec_of pr))"
proof -
  let ?d = "signed side (dec_val (dec_of q))"
  have pos: "0 < coeff (dec_of q)" "0 < coeff (dec_of pr)" using assms(3) fill_refused[of q pr] by force+
  have fit: "quantities_fit k (dec_val (dec_of (po_quantity p))) (dec_val (dec_of q))" using assms(4) by (simp add: exact_of_def)
  note N = fill_near[OF assms(1,2) pos assms(3) fit]
  have d: "?d \<noteq> 0" using pos(1) by (simp add: signed_def)
  obtain a e b where p: "exact_of p = (a, e, b)" by (cases "exact_of p")
  have sz: "size_of (exact_of p) ?d (dec_val (dec_of pr)) = size_of (exact_of p) (dec_val (dec_of q)) (dec_val (dec_of pr))"
    by (simp add: p signed_def)
  have "2 * 10 ^ 59 * x \<le> 20 * y \<Longrightarrow> 10 ^ 58 * x \<le> y" for x y :: rat by simp
  from this[OF N(2)[of m, unfolded near_def sz]] N(1) show ?thesis unfolding p exact_fill_worth[OF d] by simp
qed

definition sample_long :: position where
  "sample_long = \<lparr>po_quantity = ''2'', po_entry_price = Some ''100'', po_mark_price = ''110'', po_notional = ''220'',
     po_realized_pnl = ''5'', po_unrealized_pnl = ''20'', po_leverage = None\<rparr>"

definition sample_flip :: fill_result where
  "sample_flip = \<lparr>fr_position = \<lparr>po_quantity = ''-1.5'', po_entry_price = Some ''120'', po_mark_price = ''120'',
       po_notional = ''180'', po_realized_pnl = ''45'', po_unrealized_pnl = ''0'', po_leverage = None\<rparr>,
     fr_realized_pnl = ''40'', fr_closed_quantity = ''2'', fr_closed_entry_price = Some ''100''\<rparr>"

lemma sample_fill: "apply_position_fill sample_long Sell ''3.5'' ''120'' ''120'' None = Inr sample_flip"
  by code_simp

lemma sample_long_ok: "position_ok sample_long" "leverage_ok None"
  unfolding position_ok_def leverage_ok_def by code_simp simp

lemma sample_long_values: "dec_of ''2'' = Dec 2 0" "dec_of ''3.5'' = Dec 35 (- 1)" "dec_of ''100'' = Dec 100 0" "dec_of ''5'' = Dec 5 0"
  "dec_of ''120'' = Dec 120 0" "dec_of ''-1.5'' = Dec (- 15) (- 1)" "dec_of ''45'' = Dec 45 0"
  by code_simp+

lemma sample_exact:
  "exact_of sample_long = (2, 100, 5)" "exact_of (fr_position sample_flip) = (- 3 / 2, 120, 45)" "dec_val (dec_of ''3.5'') = 7 / 2"
  by (simp_all add: exact_of_def sample_long_def sample_flip_def sample_long_values dec_val_def power_int_def)

theorem fill_conserves_worth_witness:
  "10 ^ 58 * \<bar>worth (exact_of (fr_position sample_flip)) 130 - (worth (exact_of sample_long) 130 + (130 - 120) * - (7 / 2))\<bar> \<le> (5 + (2 + 7 / 2) * (100 + 120) :: rat)"
proof -
  have "quantities_fit 1 (fst (exact_of sample_long)) (dec_val (dec_of ''3.5''))"
    by (simp add: sample_exact quantities_fit_def places_def)
  from fill_conserves_worth[OF sample_long_ok sample_fill this, of 130] show ?thesis
    by (simp add: sample_exact signed_def sample_long_values(5) dec_val_def[of "Dec _ _"])
qed

text \<open>A position never breaks. A fill of a valid position with a positive quantity, price and mark is
  always accepted, without an assertion or a division failing, and leaves a valid position whose
  notional and unrealised amount reconcile; any other fill is refused with a value error.\<close>

lemma fill_accepted_or_refused:
  assumes "position_ok p" "leverage_ok lev"
  shows "if 0 < coeff (dec_of q) \<and> 0 < coeff (dec_of pr) \<and> 0 < coeff (dec_of mk)
    then \<exists>r. apply_position_fill p side q pr mk lev = Inr r \<and> position_ok (fr_position r)
    else apply_position_fill p side q pr mk lev = Inl ValueError"
proof (cases "0 < coeff (dec_of q) \<and> 0 < coeff (dec_of pr)")
  case False
  then show ?thesis using fill_refused[OF False] by auto
next
  case True
  then have q: "0 < coeff (dec_of q)" and pr: "0 < coeff (dec_of pr)" by simp_all
  show ?thesis by (rule fill_runs[OF assms q pr, of side mk]) (use True in auto)
qed

lemma fill_accepted_or_refused_example:
  "position_ok (fr_position sample_flip) \<and> apply_position_fill sample_long Buy ''0'' ''120'' ''120'' None = Inl ValueError"
proof -
  have z: "coeff (dec_of ''0'') = 0" by code_simp
  show ?thesis
    using fill_accepted_or_refused[OF sample_long_ok, of "''3.5''" "''120''" "''120''" Sell]
      fill_accepted_or_refused[OF sample_long_ok, of "''0''" "''120''" "''120''" Buy]
    by (simp add: sample_long_values sample_fill z)
qed

end
