(* ===== verification/Risk.thy ===== *)
theory Risk
  imports PositionLaws
begin

text \<open>
  Instrument and account risk of the paper broker (\<open>backend/app/replay/broker/risk.py\<close>): rounding
  to steps, slipped prices and fees, the checks of an order request, the capacity and the preview
  of an order, and the account a position gives. A function takes the order context it reads, of
  an order request or of a capacity request, as a \<open>capacity_request\<close>.
\<close>

section \<open>Steps, prices and fees\<close>

text \<open>\<open>value % step == 0\<close>: a quotient of more digits than the context holds raises.\<close>

definition decimal_multiple :: "dec \<Rightarrow> dec \<Rightarrow> bool res" where
  "decimal_multiple v s =
     (let m = min (expo v) (expo s); a = \<bar>align m v\<bar>; b = \<bar>align m s\<bar> in
      if b = 0 \<or> pow10 context_prec \<le> a div b then Inl InvalidOperation else Inr (a mod b = 0))"

text \<open>\<open>to_integral_value\<close> with \<open>ROUND_FLOOR\<close> or \<open>ROUND_CEILING\<close>; it does not round to the context.\<close>

definition dec_floor :: "dec \<Rightarrow> int" where
  "dec_floor d = (if 0 \<le> expo d then coeff d * pow10 (nat (expo d)) else coeff d div pow10 (nat (- expo d)))"

definition dec_ceiling :: "dec \<Rightarrow> int" where
  "dec_ceiling d = - dec_floor (dec_neg d)"

definition round_to_step :: "dec \<Rightarrow> dec \<Rightarrow> bool \<Rightarrow> dec res" where
  "round_to_step v s upward =
     (if coeff v < 0 \<or> coeff s \<le> 0 then Inl ValueError
      else bindr (dec_div 60 v s) (\<lambda>u. Inr (dec_mul 60 (Dec (if upward then dec_ceiling u else dec_floor u) 0) s)))"

definition quote_round_up :: "dec \<Rightarrow> broker_config \<Rightarrow> dec res" where
  "quote_round_up v config = round_to_step v (dec_of (quote_step (instrument config))) True"

definition adverse_market_price :: "string \<Rightarrow> order_side \<Rightarrow> broker_config \<Rightarrow> string res" where
  "adverse_market_price reference side config =
     bindr (dec_div context_prec (dec_of (market_slippage_bps config)) (Dec 10000 0)) (\<lambda>bps.
       let slipped = dec_mul context_prec (dec_of reference)
                       (dec_add context_prec (Dec 1 0) (dec_mul context_prec bps (side_sign side)))
       in bindr (round_to_step slipped (dec_of (price_tick (instrument config))) (side = Buy)) (\<lambda>rounded.
            Inr (decimal_to_string rounded)))"

definition fee_for_fill :: "dec \<Rightarrow> bool \<Rightarrow> broker_config \<Rightarrow> string res" where
  "fee_for_fill notional maker config =
     bindr (dec_div context_prec (dec_mul context_prec notional (dec_of (if maker then maker_bps config else taker_bps config))) (Dec 10000 0))
       (\<lambda>raw. bindr (quote_round_up raw config) (\<lambda>fee. Inr (decimal_to_string fee)))"

section \<open>The context of an order\<close>

definition context_of :: "order_request \<Rightarrow> capacity_request" where
  "context_of r = \<lparr>cr_side = rq_side r, cr_order_type = rq_order_type r, cr_reduce_only = rq_reduce_only r,
     cr_limit_price = rq_limit_price r, cr_stop_price = rq_stop_price r, cr_leverage = rq_leverage r,
     cr_position_side = rq_position_side r\<rparr>"

definition position_for_order :: "broker_config \<Rightarrow> capacity_request \<Rightarrow> position_state \<Rightarrow> position res" where
  "position_for_order config request position =
     (if position_mode config = OneWay then
        if cr_position_side request \<noteq> None then Inl OrderRejected
        else (case position of Net p \<Rightarrow> Inr p | Legs _ \<Rightarrow> Inl TypeError)
      else case cr_position_side request of None \<Rightarrow> Inl OrderRejected
        | Some ps \<Rightarrow> (case position of Net _ \<Rightarrow> Inl TypeError
            | Legs b \<Rightarrow>
                if cr_side request \<noteq> (if cr_reduce_only request then closing_order_side ps else opening_order_side ps)
                then Inl OrderRejected else Inr (leg ps b)))"

definition reference_price :: "string option \<Rightarrow> string option \<Rightarrow> string \<Rightarrow> dec" where
  "reference_price limit stop mark =
     (case limit of Some l \<Rightarrow> dec_of l | None \<Rightarrow> (case stop of Some s \<Rightarrow> dec_of s | None \<Rightarrow> dec_of mark))"

definition order_reference_price :: "capacity_request \<Rightarrow> string \<Rightarrow> dec" where
  "order_reference_price request mark = reference_price (cr_limit_price request) (cr_stop_price request) mark"

definition order_reference_price_for_existing :: "replay_order \<Rightarrow> string \<Rightarrow> dec" where
  "order_reference_price_for_existing order mark = reference_price (or_limit_price order) (or_stop_price order) mark"

definition position_leverage :: "position \<Rightarrow> broker_config \<Rightarrow> dec res" where
  "position_leverage p config =
     (let maximum = dec_of (max_leverage (limits config)) in
      case po_leverage p of
        None \<Rightarrow> if coeff maximum \<le> 0 then Inl RiskLimitExceeded else Inr maximum
      | Some l \<Rightarrow>
          let v = dec_of l in
          if dec_lt v (Dec 1 0) \<or> dec_lt maximum v then Inl RiskLimitExceeded else Inr v)"

definition effective_order_leverage :: "capacity_request \<Rightarrow> broker_config \<Rightarrow> position option \<Rightarrow> dec res" where
  "effective_order_leverage request config position =
     (let maximum = dec_of (max_leverage (limits config)) in
      case cr_leverage request of
        None \<Rightarrow> (case position of None \<Rightarrow> Inr maximum | Some p \<Rightarrow> position_leverage p config)
      | Some l \<Rightarrow>
          let v = dec_of l in
          if dec_lt v (Dec 1 0) then Inl OrderRejected
          else if dec_lt maximum v then Inl RiskLimitExceeded else Inr v)"

section \<open>The checks of an order\<close>

definition check_tick :: "broker_config \<Rightarrow> string option \<Rightarrow> unit res" where
  "check_tick config x =
     (case x of None \<Rightarrow> Inr ()
      | Some s \<Rightarrow> bindr (decimal_multiple (dec_of s) (dec_of (price_tick (instrument config)))) (\<lambda>ok. guardr ok OrderRejected))"

text \<open>The leverage check of an order that opens on a leg which is not flat.\<close>

definition check_leg_leverage :: "broker_config \<Rightarrow> capacity_request \<Rightarrow> position \<Rightarrow> dec \<Rightarrow> unit res" where
  "check_leg_leverage config request target leverage =
     (if \<not> cr_reduce_only request \<and> coeff (dec_of (po_quantity target)) \<noteq> 0 \<and> cr_leverage request \<noteq> None
      then bindr (position_leverage target config) (\<lambda>l. guardr (dec_eq leverage l) RiskLimitExceeded)
      else Inr ())"

definition check_quantity :: "broker_config \<Rightarrow> dec \<Rightarrow> unit res" where
  "check_quantity config q =
     (let f = instrument config in
      bindr (decimal_multiple q (dec_of (quantity_step f))) (\<lambda>ok.
        if \<not> ok then Inl OrderRejected
        else if dec_lt q (dec_of (min_quantity f)) \<or> dec_lt (dec_of (max_quantity f)) q then Inl OrderRejected
        else guardr (dec_le q (dec_of (max_order_quantity (limits config)))) RiskLimitExceeded))"

text \<open>A reduce-only order closes part of an open position.\<close>

definition check_reduce_side :: "capacity_request \<Rightarrow> dec \<Rightarrow> unit res" where
  "check_reduce_side request pq =
     (if coeff pq = 0 then Inl OrderRejected
      else guardr (cr_side request = (if 0 < coeff pq then Sell else Buy)) OrderRejected)"

fun order_exposure :: "string \<Rightarrow> dec \<Rightarrow> replay_order list \<Rightarrow> dec" where
  "order_exposure mark acc [] = acc"
| "order_exposure mark acc (ord # ords) =
     order_exposure mark
       (if or_reduce_only ord \<or> terminal (or_status ord) then acc
        else dec_add context_prec acc (dec_mul context_prec (dec_of (or_remaining_quantity ord)) (order_reference_price_for_existing ord mark)))
       ords"

definition validate_order_risk ::
  "broker_config \<Rightarrow> order_request \<Rightarrow> position_state \<Rightarrow> account \<Rightarrow> replay_order list \<Rightarrow> string res"
where
  "validate_order_risk config request position account open_orders =
     (let ctx = context_of request; f = instrument config; quantity = dec_of (rq_quantity request) in
      bindr (position_for_order config ctx position) (\<lambda>target.
      bindr (effective_order_leverage ctx config (Some target)) (\<lambda>leverage.
      bindr (check_leg_leverage config ctx target leverage) (\<lambda>_.
      bindr (check_quantity config quantity) (\<lambda>_.
      bindr (check_tick config (rq_limit_price request)) (\<lambda>_.
      bindr (check_tick config (rq_stop_price request)) (\<lambda>_.
        let reference = order_reference_price ctx (state_mark_price position);
            notional = dec_mul context_prec reference quantity
        in if \<not> rq_reduce_only request \<and> (dec_lt notional (dec_of (min_notional f)) \<or> dec_lt (dec_of (max_notional f)) notional)
           then Inl OrderRejected
           else if rq_reduce_only request then
             let pq = dec_of (po_quantity target) in
             bindr (check_reduce_side ctx pq) (\<lambda>_.
               if dec_lt (dec_fix context_prec (dec_abs pq)) quantity then Inl OrderRejected else Inr ''0'')
           else
             let exposure = order_exposure (state_mark_price position) (dec_of (state_notional context_prec position)) open_orders;
                 projected = dec_add context_prec exposure notional
             in if dec_lt (dec_of (max_position_notional (limits config))) projected then Inl RiskLimitExceeded
                else bindr (dec_div context_prec notional leverage) (\<lambda>margin.
                  bindr (quote_round_up margin config) (\<lambda>reservation.
                    if dec_lt (dec_of (ac_available_equity account)) reservation then Inl RiskLimitExceeded
                    else Inr (decimal_to_string reservation))))))))))"

section \<open>Capacity and preview\<close>

definition is_open :: "replay_order \<Rightarrow> bool" where
  "is_open ord \<longleftrightarrow> or_status ord = Open \<or> or_status ord = PartiallyFilled"

definition check_capacity :: "broker_config \<Rightarrow> replay_order list \<Rightarrow> unit res" where
  "check_capacity config orders =
     (if int (length orders) \<ge> max_orders (limits config) then Inl ScanLimitExceeded
      else guardr (int (length (List.filter is_open orders)) < max_open_orders (limits config)) RiskLimitExceeded)"

text \<open>The largest quantity of an opening order: five bounds, each divided in the default context.\<close>

definition opening_maximum ::
  "broker_config \<Rightarrow> position_state \<Rightarrow> account \<Rightarrow> replay_order list \<Rightarrow> dec \<Rightarrow> dec \<Rightarrow> dec res"
where
  "opening_maximum config position account open_orders reference leverage =
     (let exposure = order_exposure (state_mark_price position) (dec_of (state_notional context_prec position)) open_orders;
          notional_capacity = dec_max dec_zero (dec_sub context_prec (dec_of (max_position_notional (limits config))) exposure);
          margin_capacity = dec_mul context_prec (dec_max dec_zero (dec_of (ac_available_equity account))) leverage
      in bindr (dec_div context_prec (dec_of (max_notional (instrument config))) reference) (\<lambda>by_notional.
         bindr (dec_div context_prec notional_capacity reference) (\<lambda>by_exposure.
         bindr (dec_div context_prec margin_capacity reference) (\<lambda>by_margin.
           Inr (foldl dec_min (dec_of (max_quantity (instrument config)))
             [dec_of (max_order_quantity (limits config)), by_notional, by_exposure, by_margin])))))"

definition capacity_quantity ::
  "broker_config \<Rightarrow> capacity_request \<Rightarrow> position_state \<Rightarrow> account \<Rightarrow> replay_order list \<Rightarrow> (dec \<times> dec) res"
where
  "capacity_quantity config request position account orders =
     (let f = instrument config; open_orders = List.filter is_open orders in
      bindr (check_capacity config orders) (\<lambda>_.
      bindr (check_tick config (cr_limit_price request)) (\<lambda>_.
      bindr (check_tick config (cr_stop_price request)) (\<lambda>_.
      bindr (position_for_order config request position) (\<lambda>target.
        let reference = order_reference_price request (state_mark_price position) in
        bindr (effective_order_leverage request config (Some target)) (\<lambda>leverage.
        bindr (if cr_reduce_only request then
                 let pq = dec_of (po_quantity target) in
                 bindr (check_reduce_side request pq) (\<lambda>_. Inr (dec_fix context_prec (dec_abs pq)))
               else opening_maximum config position account open_orders reference leverage) (\<lambda>bound.
        bindr (round_to_step (dec_max dec_zero bound) (dec_of (quantity_step f)) False) (\<lambda>maximum.
        bindr (if cr_reduce_only request then Inr (dec_of (min_quantity f))
               else bindr (dec_div context_prec (dec_of (min_notional f)) reference) (\<lambda>least.
                    bindr (round_to_step least (dec_of (quantity_step f)) True) (\<lambda>stepped.
                      Inr (dec_max (dec_of (min_quantity f)) stepped)))) (\<lambda>minimum.
          Inr (reference, if dec_lt maximum minimum then dec_zero else maximum))))))))))"

definition build_order_capacity ::
  "broker_config \<Rightarrow> capacity_request \<Rightarrow> position_state \<Rightarrow> account \<Rightarrow> replay_order list \<Rightarrow> (string \<times> json) list res"
where
  "build_order_capacity config request position account orders =
     bindr (capacity_quantity config request position account orders) (\<lambda>(reference, maximum).
       Inr [(''schema_version'', JStr ''replay.order-capacity.v1''), (''context'', JObj (capacity_request_to_dict request)),
            (''reference_price'', JStr (decimal_to_string reference)), (''max_quantity'', JStr (decimal_to_string maximum)),
            (''quote_asset'', JStr (ac_quote_asset account)), (''max_leverage'', JStr (max_leverage (limits config)))])"

definition build_order_preview ::
  "broker_config \<Rightarrow> order_request \<Rightarrow> position_state \<Rightarrow> account \<Rightarrow> replay_order list \<Rightarrow> (string \<times> json) list res"
where
  "build_order_preview config request position account orders =
     (if rq_client_order_id request \<in> set (map or_client_order_id orders) then Inl OrderRejected
      else
      bindr (check_capacity config orders) (\<lambda>_.
      bindr (make_capacity_request (dict_get (capacity_request_to_dict (context_of request)))) (\<lambda>ctx.
      bindr (build_order_capacity config ctx position account orders) (\<lambda>capacity.
      bindr (validate_order_risk config request position account (List.filter is_open orders)) (\<lambda>reservation.
        let reference = order_reference_price (context_of request) (state_mark_price position) in
        bindr (if rq_limit_price request = None \<and> rq_stop_price request = None
               then bindr (adverse_market_price (state_mark_price position) (rq_side request) config) (\<lambda>s. Inr (dec_of s))
               else Inr reference) (\<lambda>estimated.
        let notional = dec_mul context_prec estimated (dec_of (rq_quantity request)) in
        bindr (fee_for_fill notional False config) (\<lambda>fee.
          let after = dec_sub context_prec (dec_of (ac_available_equity account)) (dec_of reservation) in
          Inr [(''schema_version'', JStr ''replay.order-preview.v1''), (''order'', JObj (request_to_dict request)),
               (''reference_price'', JStr (decimal_to_string reference)),
               (''estimated_fill_price'', JStr (decimal_to_string estimated)),
               (''estimated_notional'', JStr (decimal_to_string notional)), (''reserved_margin'', JStr reservation),
               (''estimated_fee'', JStr fee), (''fee_basis'', JStr ''TAKER_WORST_CASE''),
               (''available_equity_after'', JStr (decimal_to_string after)),
               (''max_quantity'', dict_get capacity ''max_quantity''),
               (''quote_asset'', JStr (ac_quote_asset account)), (''max_leverage'', JStr (max_leverage (limits config)))])))))))"

section \<open>The account\<close>

fun legs_of :: "position_state \<Rightarrow> position list" where
  "legs_of (Net p) = [p]"
| "legs_of (Legs b) = [bk_long b, bk_short b]"

definition leg_margin :: "broker_config \<Rightarrow> position \<Rightarrow> dec res" where
  "leg_margin config p =
     bindr (position_leverage p config) (\<lambda>l. bindr (dec_div 60 (dec_of (po_notional p)) l) (\<lambda>m. quote_round_up m config))"

definition build_account ::
  "broker_config \<Rightarrow> position_state \<Rightarrow> string \<Rightarrow> string \<Rightarrow> string \<Rightarrow> string option \<Rightarrow> account res"
where
  "build_account config position realized_pnl fees_paid reserved_margin cash_balance =
     (let realized = dec_of realized_pnl; fees = dec_of fees_paid; reserved = dec_of reserved_margin;
          unrealized = state_unrealized_pnl 60 position;
          cash = (case cash_balance of
                    None \<Rightarrow> dec_sub 60 (dec_add 60 (dec_of (cf_initial_equity config)) realized) fees
                  | Some c \<Rightarrow> dec_of c);
          equity = dec_add 60 cash (dec_of unrealized)
      in bindr (mapr (leg_margin config) (legs_of position)) (\<lambda>margins.
           let used = dec_sum 60 margins; available = dec_sub 60 (dec_sub 60 equity used) reserved in
           new_account \<lparr>ac_cash_balance = decimal_to_string cash, ac_equity = decimal_to_string equity,
             ac_available_equity = decimal_to_string available, ac_margin_used = decimal_to_string used,
             ac_reserved_margin = decimal_to_string reserved, ac_realized_pnl = decimal_to_string realized,
             ac_unrealized_pnl = unrealized, ac_fees_paid = decimal_to_string fees,
             ac_quote_asset = cf_quote_asset config\<rparr>))"

definition validate_trigger_position_notional :: "broker_config \<Rightarrow> position_state \<Rightarrow> unit res" where
  "validate_trigger_position_notional config position =
     (let notional = dec_of (state_notional context_prec position) in
      guardr (\<not> dec_lt (dec_of (max_notional (instrument config))) notional \<and>
              \<not> dec_lt (dec_of (max_position_notional (limits config))) notional) RiskLimitExceeded)"

end
