(* ===== verification/RiskLaws.thy ===== *)
theory RiskLaws
  imports Risk
begin

text \<open>
  What the risk functions guarantee: rounding to a step is exact and one-sided, a slipped price is
  never better than its reference, and an accepted order respects every limit.
\<close>

section \<open>Rounding to a step\<close>

lemma dec_floor_val: "dec_floor d = \<lfloor>dec_val d\<rfloor>"
proof (cases "0 \<le> expo d")
  case True
  then have "dec_val d = of_int (coeff d * 10 ^ nat (expo d))" by (simp add: dec_val_def power_int_def)
  then show ?thesis using True by (simp only: dec_floor_def pow10_power floor_of_int if_True)
next
  case False
  then have "(10 :: rat) powi expo d = inverse (10 ^ nat (- expo d))" by (simp add: power_int_def power_one_over inverse_eq_divide)
  then have "dec_val d = of_int (coeff d) / of_int (10 ^ nat (- expo d))" by (simp add: dec_val_def divide_inverse)
  then show ?thesis using False by (simp only: dec_floor_def pow10_power floor_divide_of_int_eq if_False)
qed

lemma dec_ceiling_val: "dec_ceiling d = \<lceil>dec_val d\<rceil>"
  by (simp add: dec_ceiling_def dec_floor_val ceiling_def)

text \<open>A quotient of integers that is off by less than the reciprocal of its denominator keeps its neighbours.\<close>

lemma floor_near:
  assumes "0 < d" "\<bar>u - of_int n / of_int d\<bar> < (1 / of_int d :: rat)" "\<not> d dvd n"
  shows "\<lfloor>u\<rfloor> = n div d" "\<lceil>u\<rceil> = n div d + 1"
proof -
  have split: "n = n div d * d + n mod d" by simp
  have m: "1 \<le> n mod d" "n mod d \<le> d - 1" using assms(1,3) pos_mod_bound[OF assms(1), of n] pos_mod_sign[OF assms(1), of n]
    by (auto simp: dvd_eq_mod_eq_0 order.order_iff_strict)
  have "(of_int n :: rat) = of_int (n div d) * of_int d + of_int (n mod d)" by (metis of_int_add of_int_mult split)
  then have x: "(of_int n :: rat) / of_int d = of_int (n div d) + of_int (n mod d) / of_int d"
    using assms(1) by (simp add: field_simps)
  have f: "1 / of_int d \<le> of_int (n mod d) / (of_int d :: rat)" "of_int (n mod d) / (of_int d :: rat) \<le> 1 - 1 / of_int d"
  proof -
    show "1 / of_int d \<le> of_int (n mod d) / (of_int d :: rat)" using m(1) assms(1) by (intro divide_right_mono) simp_all
    have "(of_int (n mod d) :: rat) \<le> of_int (d - 1)" using m(2) by (rule of_int_le_iff[THEN iffD2])
    then have "of_int (n mod d) / (of_int d :: rat) \<le> of_int (d - 1) / of_int d" by (rule divide_right_mono) (use assms(1) in simp)
    then show "of_int (n mod d) / (of_int d :: rat) \<le> 1 - 1 / of_int d" using assms(1) by (simp add: diff_divide_distrib)
  qed
  define f where "f = of_int (n mod d) / (of_int d :: rat)"
  define t where "t = 1 / (of_int d :: rat)"
  have "of_int (n div d) < u" "u < of_int (n div d) + 1"
    using assms(2) f[folded f_def t_def] unfolding x f_def[symmetric] t_def[symmetric] by linarith+
  then show "\<lfloor>u\<rfloor> = n div d" "\<lceil>u\<rceil> = n div d + 1" by (simp_all add: floor_eq_iff ceiling_eq_iff)
qed

text \<open>Steps of \<open>k\<close> places below \<open>10^59\<close> units.\<close>

definition step_fits :: "nat \<Rightarrow> dec \<Rightarrow> dec \<Rightarrow> bool" where
  "step_fits k v s \<longleftrightarrow> places k (dec_val v) \<and> places k (dec_val s) \<and> 0 \<le> coeff v \<and> 0 < coeff s \<and>
     dec_val v * 10 ^ k < 10 ^ 59 \<and> dec_val s * 10 ^ k < 10 ^ 59"

lemma quotient_keeps_neighbours:
  assumes "step_fits k v s" "dec_div 60 v s = Inr u"
  shows "\<lfloor>dec_val u\<rfloor> = \<lfloor>dec_val v / dec_val s\<rfloor>" "\<lceil>dec_val u\<rceil> = \<lceil>dec_val v / dec_val s\<rceil>"
proof -
  obtain n d where n: "dec_val v * 10 ^ k = of_int n" and d: "dec_val s * 10 ^ k = of_int d"
    using assms(1) by (auto simp: step_fits_def places_def elim!: Ints_cases)
  have s: "0 < dec_val s" "0 \<le> dec_val v" using assms(1) by (simp_all add: step_fits_def not_less[symmetric])
  have "0 < (of_int d :: rat)" unfolding d[symmetric] by (rule mult_pos_pos[OF s(1)]) simp
  then have d0: "0 < d" by simp
  have "0 \<le> (of_int n :: rat)" unfolding n[symmetric] by (rule mult_nonneg_nonneg[OF s(2)]) simp
  then have n0: "0 \<le> n" by simp
  have "(of_int n :: rat) < 10 ^ 59" using assms(1) n by (simp add: step_fits_def)
  then have nlt: "n < 10 ^ 59" by simp
  have x: "dec_val v / dec_val s = of_int n / of_int d"
    unfolding n[symmetric] d[symmetric] by simp
  have cs: "coeff s \<noteq> 0" using s(1) by simp
  obtain u' where u': "dec_div 60 v s = Inr u'" "10 ^ (60 - 1) * \<bar>dec_val u' - dec_val v / dec_val s\<bar> \<le> \<bar>dec_val v / dec_val s\<bar>"
    "\<And>k. places k (dec_val v / dec_val s) \<Longrightarrow> \<bar>dec_val v / dec_val s\<bar> * 10 ^ k < 10 ^ 60 \<Longrightarrow> dec_val u' = dec_val v / dec_val s"
    by (rule dec_div_total[OF cs, of 60 v]) simp_all
  have u: "u' = u" using u'(1) assms(2) by simp
  have "\<lfloor>dec_val u\<rfloor> = \<lfloor>dec_val v / dec_val s\<rfloor> \<and> \<lceil>dec_val u\<rceil> = \<lceil>dec_val v / dec_val s\<rceil>"
  proof (cases "d dvd n")
    case True
    then obtain c where c: "n = d * c" by blast
    then have xv: "dec_val v / dec_val s = of_int c" using d0 by (simp add: x)
    have "0 \<le> c" "c \<le> n" using c n0 d0 by (simp_all add: zero_le_mult_iff mult_le_cancel_right1)
    then have "\<bar>of_int c\<bar> < (10 ^ 60 :: rat)" using nlt by simp
    then have "dec_val u' = dec_val v / dec_val s" using u'(3)[of 0] by (simp add: xv places_def)
    then show ?thesis by (simp add: u)
  next
    case False
    have "10 ^ 59 * \<bar>dec_val u - of_int n / of_int d\<bar> \<le> of_int n / of_int d" using u'(2) n0 d0 by (simp add: u x)
    also have "\<dots> < 10 ^ 59 * (1 / of_int d)" using nlt d0 by (simp add: divide_strict_right_mono)
    finally have "\<bar>dec_val u - of_int n / of_int d\<bar> < 1 / of_int d" by simp
    from floor_near[OF d0 this False] have "\<lfloor>dec_val u\<rfloor> = n div d" "\<lceil>dec_val u\<rceil> = n div d + 1" .
    moreover have "\<lfloor>of_int n / (of_int d :: rat)\<rfloor> = n div d" "\<lceil>of_int n / (of_int d :: rat)\<rceil> = n div d + 1"
      using floor_near[OF d0 _ False, of "of_int n / of_int d"] d0 by simp_all
    ultimately show ?thesis by (simp add: x)
  qed
  then show "\<lfloor>dec_val u\<rfloor> = \<lfloor>dec_val v / dec_val s\<rfloor>" "\<lceil>dec_val u\<rceil> = \<lceil>dec_val v / dec_val s\<rceil>" by simp_all
qed

lemma round_to_step_exact:
  assumes "step_fits k v s"
  obtains r where "round_to_step v s up = Inr r"
    "dec_val r = of_int (if up then \<lceil>dec_val v / dec_val s\<rceil> else \<lfloor>dec_val v / dec_val s\<rfloor>) * dec_val s"
proof -
  have s: "0 < dec_val s" "0 \<le> dec_val v" "coeff s \<noteq> 0" "\<not> coeff v < 0" "\<not> coeff s \<le> 0"
    using assms by (auto simp: step_fits_def not_less[symmetric])
  obtain u where u: "dec_div 60 v s = Inr u" by (rule dec_div_total[OF s(3), of 60 v]) simp_all
  define n where "n = (if up then \<lceil>dec_val v / dec_val s\<rceil> else \<lfloor>dec_val v / dec_val s\<rfloor>)"
  have n: "(if up then dec_ceiling u else dec_floor u) = n"
    using quotient_keeps_neighbours[OF assms u] by (simp add: n_def dec_floor_val dec_ceiling_val)
  have run: "round_to_step v s up = Inr (dec_mul 60 (Dec n 0) s)" using s(4,5) u n by (simp add: round_to_step_def)
  have x0: "0 \<le> dec_val v / dec_val s" using s(1,2) by (simp del: dec_val_sign)
  have n0: "0 \<le> n" using x0 by (simp add: n_def)
  have "of_int n \<le> dec_val v / dec_val s + 1" unfolding n_def using x0 by (auto simp: ceiling_correct le_floor_iff) linarith+
  then have "of_int n * dec_val s \<le> dec_val v + dec_val s" using s(1) by (simp add: field_simps)
  then have "of_int n * dec_val s * 10 ^ k \<le> (dec_val v + dec_val s) * 10 ^ k" by (rule mult_right_mono) simp
  also have "\<dots> < 10 ^ 60" using assms by (simp add: step_fits_def distrib_right)
  finally have "\<bar>of_int n * dec_val s\<bar> * 10 ^ (0 + k) < (10 ^ 60 :: rat)" using n0 s(1) by (simp add: abs_mult del: dec_val_sign)
  moreover have "places 0 (dec_val (Dec n 0))" "dec_val (Dec n 0) = of_int n" by (simp_all add: places_def dec_val_def)
  ultimately have "dec_val (dec_mul 60 (Dec n 0) s) = of_int n * dec_val s"
    using dec_mul_places[of 0 "Dec n 0" k s 60] assms by (simp add: step_fits_def)
  then show thesis using that[OF run] by (simp add: n_def)
qed

text \<open>Up is at or above and less than a step away; down is at or below and less than a step away.\<close>

lemma round_to_step_bounds:
  assumes "step_fits k v s" "round_to_step v s up = Inr r"
  shows "\<exists>n. dec_val r = of_int n * dec_val s" "up \<Longrightarrow> dec_val v \<le> dec_val r \<and> dec_val r < dec_val v + dec_val s"
    "\<not> up \<Longrightarrow> dec_val r \<le> dec_val v \<and> dec_val v < dec_val r + dec_val s"
proof -
  have s: "0 < dec_val s" using assms(1) by (simp add: step_fits_def)
  obtain r' where r': "round_to_step v s up = Inr r'"
    "dec_val r' = of_int (if up then \<lceil>dec_val v / dec_val s\<rceil> else \<lfloor>dec_val v / dec_val s\<rfloor>) * dec_val s"
    by (rule round_to_step_exact[OF assms(1)])
  have r: "dec_val r = of_int (if up then \<lceil>dec_val v / dec_val s\<rceil> else \<lfloor>dec_val v / dec_val s\<rfloor>) * dec_val s"
    using r' assms(2) by simp
  show "\<exists>n. dec_val r = of_int n * dec_val s" unfolding r by blast
  define x where "x = dec_val v / dec_val s"
  have v: "dec_val v = x * dec_val s" using s by (simp add: x_def)
  have c: "x \<le> of_int \<lceil>x\<rceil>" "of_int \<lceil>x\<rceil> < x + 1" "of_int \<lfloor>x\<rfloor> \<le> x" "x < of_int \<lfloor>x\<rfloor> + 1" by linarith+
  have m: "a \<le> b \<Longrightarrow> a * dec_val s \<le> b * dec_val s" "a < b \<Longrightarrow> a * dec_val s < b * dec_val s" for a b
    using s by (simp_all add: mult_right_mono less_imp_le del: dec_val_sign)
  note rx = r[folded x_def]
  have d: "(y + 1) * dec_val s = y * dec_val s + dec_val s" for y by (simp add: distrib_right)
  show "up \<Longrightarrow> dec_val v \<le> dec_val r \<and> dec_val r < dec_val v + dec_val s"
    using m(1)[OF c(1)] m(2)[OF c(2)] unfolding d rx v by (simp only: if_True)
  show "\<not> up \<Longrightarrow> dec_val r \<le> dec_val v \<and> dec_val v < dec_val r + dec_val s"
    using m(1)[OF c(3)] m(2)[OF c(4)] unfolding d rx v by (simp only: if_False)
qed

section \<open>Slipped prices and fees\<close>

lemma places_fix:
  assumes "places k (dec_val d)" "0 < p"
  shows "places k (dec_val (dec_fix p d))"
proof -
  obtain n where n: "dec_val d * 10 ^ k = of_int n" using assms(1) by (auto simp: places_def elim: Ints_cases)
  have e: "(10 :: rat) powi (- int k) * 10 ^ k = 1" by (simp add: power_int_minus)
  have "dec_val (Dec n (- int k)) = dec_val d"
    using n by (simp add: dec_val_def[of "Dec _ _"] power_int_minus divide_inverse[symmetric]) (simp add: field_simps)
  then have "dec_val (dec_fix p d) = dec_val (dec_fix p (Dec n (- int k)))" using assms(2) by (intro dec_fix_value) simp_all
  also have "\<dots> = of_int (round_int p n) * 10 powi (- int k)" by (simp add: dec_fix_round[OF assms(2)])
  finally have "dec_val (dec_fix p d) * 10 ^ k = of_int (round_int p n)" using e by (simp only: mult.assoc mult_1_right)
  then show ?thesis by (simp add: places_def)
qed

text \<open>Prices and ticks of up to ten decimal places below \<open>10^18\<close>, and a slippage of at most 100 percent.\<close>

definition market_sized :: "broker_config \<Rightarrow> string \<Rightarrow> bool" where
  "market_sized config reference \<longleftrightarrow>
     places 10 (dec_val (dec_of reference)) \<and> 0 < dec_val (dec_of reference) \<and> dec_val (dec_of reference) < 10 ^ 18 \<and>
     places 10 (dec_val (dec_of (price_tick (instrument config)))) \<and> 0 < dec_val (dec_of (price_tick (instrument config))) \<and>
     dec_val (dec_of (price_tick (instrument config))) < 10 ^ 18 \<and>
     places 4 (dec_val (dec_of (market_slippage_bps config))) \<and> 0 \<le> dec_val (dec_of (market_slippage_bps config)) \<and>
     dec_val (dec_of (market_slippage_bps config)) \<le> 10 ^ 4"

lemma slippage_factor:
  assumes "places 4 (dec_val s)" "0 \<le> dec_val s" "dec_val s \<le> 10 ^ 4"
  obtains b where "dec_div context_prec s (Dec 10000 0) = Inr b"
    "dec_val (dec_add context_prec (Dec 1 0) (dec_mul context_prec b (side_sign side))) = 1 + signed side (dec_val s / 10 ^ 4)"
    "places 8 (1 + signed side (dec_val s / 10 ^ 4))"
proof -
  have v: "dec_val (Dec 10000 0) = 10 ^ 4" "dec_val (Dec 1 0) = 1" by (simp_all add: dec_val_def)
  let ?x = "dec_val s / 10 ^ 4"
  have x: "places 8 ?x" "0 \<le> ?x" "?x \<le> 1" using assms by (simp_all add: places_def mult.commute)
  obtain b where b: "dec_div context_prec s (Dec 10000 0) = Inr b"
    "\<And>k. places k (dec_val s / dec_val (Dec 10000 0)) \<Longrightarrow> \<bar>dec_val s / dec_val (Dec 10000 0)\<bar> * 10 ^ k < 10 ^ context_prec \<Longrightarrow>
      dec_val b = dec_val s / dec_val (Dec 10000 0)"
    by (rule dec_div_total[of "Dec 10000 0" context_prec s]) simp_all
  have bv: "dec_val b = ?x" using b(2)[of 8] x unfolding v by (simp add: context_prec_def)
  have sv: "dec_val (Dec (- 1) 0) = - 1" by (simp add: dec_val_def)
  have small: "dec_val s < 10 ^ 24" using assms(3) by (rule le_less_trans) simp
  have m: "dec_val (dec_mul context_prec b (side_sign side)) = signed side ?x"
    using dec_mul_places[of 8 b 0 "Dec 1 0" context_prec] dec_mul_places[of 8 b 0 "Dec (- 1) 0" context_prec] x small
    by (cases side) (simp_all add: bv v(2) sv signed_def context_prec_def)
  have pl: "places 8 (signed side ?x)" "places 8 (1 + signed side ?x)" using x(1) by (simp_all add: signed_def places_add places_diff)
  have "\<bar>1 + signed side ?x\<bar> \<le> 2" using x(2,3) by (auto simp: signed_def)
  then have "\<bar>1 + signed side ?x\<bar> * 10 ^ 8 \<le> 2 * 10 ^ 8" by (rule mult_right_mono) simp
  then have "\<bar>1 + signed side ?x\<bar> * 10 ^ 8 < 10 ^ context_prec" by (rule le_less_trans) (simp add: context_prec_def)
  then have "dec_val (dec_add context_prec (Dec 1 0) (dec_mul context_prec b (side_sign side))) = 1 + signed side ?x"
    using dec_add_places[of 8 "Dec 1 0" "dec_mul context_prec b (side_sign side)" context_prec] pl(1) by (simp add: v(2) m)
  then show thesis using that[OF b(1)] pl(2) by blast
qed

lemma adverse_price:
  fixes side :: order_side
  assumes "market_sized config reference"
  defines "p \<equiv> dec_val (dec_of reference)" and "tick \<equiv> dec_val (dec_of (price_tick (instrument config)))"
    and "y \<equiv> 1 + signed side (dec_val (dec_of (market_slippage_bps config)) / 10 ^ 4)"
  obtains r n where "adverse_market_price reference side config = Inr (decimal_to_string r)" "dec_val r = of_int n * tick"
    "side = Buy \<Longrightarrow> p \<le> dec_val r" "side = Sell \<Longrightarrow> dec_val r \<le> p" "\<bar>dec_val r - p * y\<bar> \<le> tick + p / 10 ^ 27"
proof -
  let ?P = "dec_of reference" and ?T = "dec_of (price_tick (instrument config))"
  have A: "places 10 p" "0 < p" "p < 10 ^ 18" "places 10 tick" "0 < tick" "tick < 10 ^ 18"
    "places 4 (dec_val (dec_of (market_slippage_bps config)))" "0 \<le> dec_val (dec_of (market_slippage_bps config))"
    "dec_val (dec_of (market_slippage_bps config)) \<le> 10 ^ 4"
    using assms(1) by (simp_all add: market_sized_def p_def tick_def)
  obtain b where b: "dec_div context_prec (dec_of (market_slippage_bps config)) (Dec 10000 0) = Inr b"
    "dec_val (dec_add context_prec (Dec 1 0) (dec_mul context_prec b (side_sign side))) = y" "places 8 y"
    unfolding y_def by (rule slippage_factor[OF A(7-9), of side])
  define Y where "Y = dec_add context_prec (Dec 1 0) (dec_mul context_prec b (side_sign side))"
  define S where "S = dec_mul context_prec ?P Y"
  have y: "0 \<le> y" "y \<le> 2" "side = Buy \<Longrightarrow> 1 \<le> y" "side = Sell \<Longrightarrow> y \<le> 1" using A(8,9) by (auto simp: y_def signed_def)
  have py: "dec_val (dec_times ?P Y) = p * y" using b(2) by (simp add: Y_def p_def)
  have S: "S = dec_fix context_prec (dec_times ?P Y)" by (simp add: S_def dec_mul_def)
  have "places (10 + 8) (p * y)" using places_mult A(1) b(3) by blast
  then have plS: "places 18 (dec_val S)" unfolding S by (intro places_fix) (simp_all only: py, simp_all)
  have fixp: "dec_val (dec_fix context_prec ?P) = p"
    using dec_fix_places[of 10 ?P context_prec] A(1-3) by (simp add: p_def[symmetric] context_prec_def)
  have le2: "p * y \<le> 2 * 10 ^ 18" using mult_mono[of p "10 ^ 18" y 2] A(2,3) y(1,2) by simp
  have "dec_val S \<le> dec_val (dec_fix context_prec (Dec 2 18))"
    unfolding S by (rule dec_fix_mono) (use le2 in \<open>simp_all only: py dec_val_def[of "Dec _ _"], simp_all\<close>)
  also have "dec_fix context_prec (Dec 2 18) = Dec 2 18" by (rule dec_fix_exact) (simp add: dec_digits_le context_prec_def)
  finally have S2: "dec_val S \<le> 2 * 10 ^ 18" by (simp add: dec_val_def[of "Dec _ _"])
  have S0: "0 \<le> coeff S"
  proof -
    have "0 \<le> p * y" using A(2) y(1) by simp
    then have "\<not> coeff (dec_times ?P Y) < 0" using dec_val_sign(3)[of "dec_times ?P Y"] py by linarith
    then show ?thesis unfolding S using dec_fix_sign(2)[OF context_pos, of "dec_times ?P Y"] by linarith
  qed
  have T18: "places 18 (dec_val ?T)" using places_mono[OF A(4), of 18] by (simp add: tick_def)
  have fits: "step_fits 18 S ?T"
    unfolding step_fits_def using plS T18 S0 A(5,6) S2 by (simp add: tick_def)
  obtain r where r: "round_to_step S ?T (side = Buy) = Inr r" by (rule round_to_step_exact[OF fits])
  obtain n where n: "dec_val r = of_int n * tick" using round_to_step_bounds(1)[OF fits r] by (auto simp: tick_def)
  note R = round_to_step_bounds(2,3)[OF fits r, folded tick_def]
  have run: "adverse_market_price reference side config = Inr (decimal_to_string r)"
    using b(1) r by (simp add: adverse_market_price_def S_def Y_def Let_def)
  have up: "p \<le> dec_val S" if "side = Buy"
  proof -
    have "dec_val (dec_fix context_prec ?P) \<le> dec_val S"
      unfolding S using y(3)[OF that] A(2) by (intro dec_fix_mono) (simp_all only: py p_def[symmetric] mult_le_cancel_left1, simp_all)
    then show ?thesis using fixp by simp
  qed
  have down: "dec_val S \<le> p" if "side = Sell"
  proof -
    have "dec_val S \<le> dec_val (dec_fix context_prec ?P)"
      unfolding S using y(4)[OF that] A(2) by (intro dec_fix_mono) (simp_all only: py p_def[symmetric] mult_le_cancel_left2, simp_all)
    then show ?thesis using fixp by simp
  qed
  have err: "\<bar>dec_val S - p * y\<bar> \<le> p / 10 ^ 27"
  proof -
    have "2 * 10 ^ 27 * \<bar>dec_val S - p * y\<bar> \<le> \<bar>p * y\<bar>"
      using dec_fix_error[of context_prec "dec_times ?P Y"] unfolding S[symmetric] py by (simp add: context_prec_def)
    also have "\<dots> \<le> p * 2" using A(2) y(1,2) by simp
    finally show ?thesis by simp
  qed
  show thesis
  proof (rule that[OF run n])
    show "side = Buy \<Longrightarrow> p \<le> dec_val r" using up R(1) by simp
    show "side = Sell \<Longrightarrow> dec_val r \<le> p" using down R(2) by simp
    have "\<bar>dec_val r - dec_val S\<bar> \<le> tick"
    proof (cases "side = Buy")
      case True
      then show ?thesis using R(1) by simp
    next
      case False
      then show ?thesis using R(2) by simp
    qed
    then show "\<bar>dec_val r - p * y\<bar> \<le> tick + p / 10 ^ 27" using err by linarith
  qed
qed

section \<open>What an accepted order satisfies\<close>











section \<open>Properties\<close>

text \<open>A simulated market order is never filled better than the market. For prices, ticks and slippage
  of market size the slipped price is a multiple of the tick, at or above the reference for a buyer
  and at or below it for a seller, and within a tick (and a part in 10^27) of the exact slippage.\<close>

lemma adverse_price_never_better:
  assumes "market_sized config reference"
  shows "\<exists>r n. adverse_market_price reference side config = Inr (decimal_to_string r) \<and>
    dec_val r = of_int n * dec_val (dec_of (price_tick (instrument config))) \<and>
    (if side = Buy then dec_val (dec_of reference) \<le> dec_val r else dec_val r \<le> dec_val (dec_of reference)) \<and>
    \<bar>dec_val r - dec_val (dec_of reference) * (1 + signed side (dec_val (dec_of (market_slippage_bps config)) / 10 ^ 4))\<bar>
      \<le> dec_val (dec_of (price_tick (instrument config))) + dec_val (dec_of reference) / 10 ^ 27"
  by (rule adverse_price[OF assms, of side]) (cases side, auto)

definition sample_filters :: instrument_filters where
  "sample_filters = \<lparr>price_tick = ''0.5'', quantity_step = ''0.001'', min_quantity = ''0.001'', max_quantity = ''1000'',
     min_notional = ''5'', max_notional = ''1000000'', quote_step = ''0.01''\<rparr>"

definition sample_limits :: broker_limits where
  "sample_limits = \<lparr>max_leverage = ''10'', max_position_notional = ''1000000'', max_order_quantity = ''500'', max_open_orders = 10,
     max_orders = 100, max_fills = 100, max_ledger_entries = 1000, max_warnings = 10\<rparr>"

definition sample_config :: broker_config where
  "sample_config = \<lparr>cf_initial_equity = ''1000'', cf_quote_asset = ''USDT'', maker_bps = ''2'', taker_bps = ''5'',
     market_slippage_bps = ''10'', initial_mark_price = ''100'', instrument = sample_filters, limits = sample_limits,
     position_mode = OneWay\<rparr>"

lemma sample_spellings: "dec_of ''0.5'' = Dec 5 (- 1)" "dec_of ''10'' = Dec 10 0" "dec_of ''100'' = Dec 100 0" "dec_of ''0.01'' = Dec 1 (- 2)"
  by code_simp+

lemma adverse_price_never_better_example:
  "\<exists>r n. adverse_market_price ''100'' Buy sample_config = Inr (decimal_to_string r) \<and> dec_val r = of_int n * (1 / 2) \<and> 100 \<le> dec_val r"
proof -
  have "market_sized sample_config ''100''"
    by (simp add: market_sized_def sample_config_def sample_filters_def sample_spellings dec_val_def power_int_def places_def)
  then show ?thesis using adverse_price_never_better[of sample_config "''100''" Buy]
    by (auto simp: sample_config_def sample_filters_def sample_spellings dec_val_def[of "Dec _ _"] power_int_def)
qed


definition sample_account :: account where
  "sample_account = \<lparr>ac_cash_balance = ''1000'', ac_equity = ''1000'', ac_available_equity = ''1000'', ac_margin_used = ''0'',
     ac_reserved_margin = ''0'', ac_realized_pnl = ''0'', ac_unrealized_pnl = ''0'', ac_fees_paid = ''0'', ac_quote_asset = ''USDT''\<rparr>"

definition sample_flat :: position where
  "sample_flat = \<lparr>po_quantity = ''0'', po_entry_price = None, po_mark_price = ''100'', po_notional = ''0'', po_realized_pnl = ''0'',
     po_unrealized_pnl = ''0'', po_leverage = None\<rparr>"

definition sample_request :: order_request where
  "sample_request = \<lparr>rq_client_order_id = ''c1'', rq_side = Buy, rq_order_type = Market, rq_quantity = ''2.5'', rq_reduce_only = False,
     rq_limit_price = None, rq_stop_price = None, rq_leverage = None, rq_position_side = None\<rparr>"



definition cent_config :: broker_config where
  "cent_config = sample_config\<lparr>limits := sample_limits\<lparr>max_leverage := ''1''\<rparr>\<rparr>"

definition cent_request :: order_request where
  "cent_request = sample_request\<lparr>rq_quantity := ''100.005''\<rparr>"

definition cent_account :: account where
  "cent_account = sample_account\<lparr>ac_available_equity := ''100.005''\<rparr>"

definition cent_position :: position where
  "cent_position = sample_flat\<lparr>po_mark_price := ''1''\<rparr>"

lemma cent_bounds:
  "dec_div context_prec (dec_of (max_notional (instrument cent_config))) (Dec 1 0) = Inr (Dec 1000000000000000000000000000 (- 21))"
  "dec_div context_prec (dec_max dec_zero (dec_sub context_prec (dec_of (max_position_notional (limits cent_config)))
      (order_exposure (state_mark_price (Net cent_position)) (dec_of (state_notional context_prec (Net cent_position))) []))) (Dec 1 0) = Inr (Dec 1000000000000000000000000000 (- 21))"
  "dec_div context_prec (dec_mul context_prec (dec_max dec_zero (dec_of (ac_available_equity cent_account))) (Dec 1 0)) (Dec 1 0) = Inr (Dec 1000050000000000000000000000 (- 25))"
  "foldl dec_min (dec_of (max_quantity (instrument cent_config))) [dec_of (max_order_quantity (limits cent_config)),
     Dec 1000000000000000000000000000 (- 21), Dec 1000000000000000000000000000 (- 21), Dec 1000050000000000000000000000 (- 25)] = Dec 1000050000000000000000000000 (- 25)"
  by code_simp+

lemma cent_maximum: "opening_maximum cent_config (Net cent_position) cent_account [] (Dec 1 0) (Dec 1 0) = Inr (Dec 1000050000000000000000000000 (- 25))"
  unfolding opening_maximum_def Let_def cent_bounds bindr_Inr ..

lemma cent_parts:
  "check_capacity cent_config [] = Inr ()" "check_tick cent_config (cr_limit_price (context_of cent_request)) = Inr ()"
  "check_tick cent_config (cr_stop_price (context_of cent_request)) = Inr ()"
  "position_for_order cent_config (context_of cent_request) (Net cent_position) = Inr cent_position"
  "order_reference_price (context_of cent_request) (state_mark_price (Net cent_position)) = Dec 1 0"
  "effective_order_leverage (context_of cent_request) cent_config (Some cent_position) = Inr (Dec 1 0)"
  "cr_reduce_only (context_of cent_request) = False"
  "round_to_step (dec_max dec_zero (Dec 1000050000000000000000000000 (- 25))) (dec_of (quantity_step (instrument cent_config))) False = Inr (Dec 100005 (- 3))"
  "dec_div context_prec (dec_of (min_notional (instrument cent_config))) (Dec 1 0) = Inr (Dec 5000000000000000000000000000 (- 27))"
  "round_to_step (Dec 5000000000000000000000000000 (- 27)) (dec_of (quantity_step (instrument cent_config))) True = Inr (Dec 5000 (- 3))"
  "dec_lt (Dec 100005 (- 3)) (dec_max (dec_of (min_quantity (instrument cent_config))) (Dec 5000 (- 3))) = False"
  by code_simp+

lemma cent_capacity: "capacity_quantity cent_config (context_of cent_request) (Net cent_position) cent_account [] = Inr (Dec 1 0, Dec 100005 (- 3))"
  by (simp only: capacity_quantity_def Let_def cent_parts cent_maximum bindr_Inr if_False List.filter.simps)

text \<open>The maximum a capacity answer names may be refused. With an available equity that is no multiple
  of the quote step, the answer offers a quantity whose reservation, rounded up to the quote step,
  exceeds that equity: the order of exactly this quantity fails with a risk error.\<close>

lemma capacity_offer_refused:
  "bindr (build_order_capacity cent_config (context_of cent_request) (Net cent_position) cent_account [])
     (\<lambda>d. Inr (dict_get d ''max_quantity'')) = Inr (JStr ''100.005'') \<and>
   rq_quantity cent_request = ''100.005'' \<and>
   validate_order_risk cent_config cent_request (Net cent_position) cent_account [] = Inl RiskLimitExceeded"
proof -
  have "decimal_to_string (Dec 100005 (- 3)) = ''100.005''" "rq_quantity cent_request = ''100.005''"
    "validate_order_risk cent_config cent_request (Net cent_position) cent_account [] = Inl RiskLimitExceeded"
    by code_simp+
  then show ?thesis by (simp add: build_order_capacity_def cent_capacity)
qed

end
