(* ===== verification/Spec2Isabelle.thy ===== *)
theory Spec2Isabelle
  imports TimeBucket HistoryPlan GapDetector BarCache IntervalRouting Finalizer DependencyGraph LedgerBook Checkpoints OrderBookLaws PositionLaws RiskLaws
begin

text \<open>
  A verification library for CandleScope (\<open>src/backend/app\<close>), the market-data and replay
  backend: Python services that collect candles, keep them in memory, plan what history to fetch,
  build bars from live input, reconstruct order books, and replay history with an exact account.

  \<^bold>\<open>The parts and how they meet.\<close> An interval string is parsed to a grid of bucket boundaries;
  every other part of the data engine asks that grid. A request for history is cut to what a
  provider, a calendar and the forming bar allow; the gap detector compares what the storage holds
  with what the grid and the calendar expect; the bar cache keeps the result within a budget, and
  arbitrates between sources of different quality. Live input is merged into forming bars, which a
  chain of finalizer strategies seals. A request for an interval that the exchange does not serve
  is routed to one it serves. Beside this, the order book engine keeps one book per stream from
  snapshots and deltas. The replay domain writes every account movement to a double-entry ledger,
  hashes what it writes as canonical JSON, and keeps checkpoints it can fall back to; its paper
  broker checks an order against the risk limits and applies fills to a position in exact decimals.

  \<^bold>\<open>Theories and the code they model\<close> (paths below \<open>backend/app\<close>):
  \<^item> \<open>Prelude\<close>, \<open>Grid\<close>, \<open>Bisect\<close>, \<open>HashChain\<close>: exceptions as values (\<open>res\<close>), ASCII strings,
    ordered dictionaries, the bucket-grid locales, \<open>bisect\<close>, and the locale of a hash chain.
  \<^item> \<open>Gregorian\<close>, \<open>IntervalPolicy\<close>: \<open>data_engine/interval_policy.py\<close>; parsing, the fixed, weekly
    and calendar-month grids, tiling, the edge of the last closed bar.
  \<^item> \<open>TimeBucket\<close>: \<open>data_engine/bar_aggregator/time_bucket.py\<close>.
  \<^item> \<open>HistoryModels\<close>, \<open>TradingCalendar\<close>, \<open>HistoryPlan\<close>: \<open>data_engine/history/models.py\<close>,
    \<open>calendar.py\<close>, \<open>planner.py\<close>.
  \<^item> \<open>GapDetector\<close>: \<open>data_engine/backfill/gap_detector.py\<close> and its models.
  \<^item> \<open>SourceQuality\<close>, \<open>BarSeries\<close>, \<open>BarCache\<close>: \<open>data_engine/kline_quality.py\<close>,
    \<open>data_engine/data_manager/cache.py\<close> with its configuration and models.
  \<^item> \<open>IntervalRouting\<close>: \<open>data_engine/interval_resolution.py\<close>, \<open>interval_work_plan.py\<close>.
  \<^item> \<open>BarState\<close>, \<open>Finalizer\<close>: \<open>data_engine/bar_aggregator/bar_state.py\<close>, \<open>finalizer.py\<close>, and the
    pipeline steps of \<open>aggregator.py\<close>.
  \<^item> \<open>BookSide\<close>, \<open>OrderBook\<close>, \<open>OrderBookLaws\<close>: \<open>data_engine/market_data/full_order_book.py\<close>; the
    two sides with their price index and the revisions of lazy snapshots, the engine, its laws.
  \<^item> \<open>DependencyGraph\<close>: \<open>indicator/dependency.py\<close>.
  \<^item> \<open>Decimals\<close>, \<open>Canonical\<close>, \<open>JsonBytes\<close>, \<open>LedgerBook\<close>, \<open>Checkpoints\<close>: the decimal strings of
    \<open>replay/models.py\<close> and \<open>replay/broker/models.py\<close>, \<open>replay/canonical.py\<close> and
    \<open>source_chain.py\<close> (texts, then bytes and the limits of the interpreter),
    \<open>replay/broker/ledger.py\<close>, \<open>replay/checkpoints.py\<close>.
  \<^item> \<open>BrokerModels\<close>, \<open>PositionFill\<close>, \<open>Risk\<close>: the values of \<open>replay/broker/models.py\<close>, the fill reducer
    of \<open>execution.py\<close>, \<open>risk.py\<close>; \<open>DecimalLaws\<close> bounds the rounding of context arithmetic and
    \<open>PositionLaws\<close>, \<open>RiskLaws\<close> hold what follows for positions and orders.
  A class is a \<open>record\<close> with the fields of the class, an enumeration a \<open>datatype\<close>, a method a
  definition of the same name from state to state; a method that may raise returns a sum. A
  \<open>dict\<close> is an association list in insertion order; prices of a book side are an association list
  beside the sorted index the code keeps. Loops are recursive definitions of their own, named in
  the map beside the method they belong to.

  \<^bold>\<open>What the lemmas show.\<close> Interfaces are locales, each discharged on the model: a grid floors,
  steps and partitions time (\<open>bucket_grid\<close>, for the interval policy and the bucket engine); a
  lawful calendar (\<open>lawful_calendar\<close>, for the always-open one); a store of book levels
  (\<open>level_store\<close>, for dictionary and index); a hash chain (\<open>hash_chain\<close>, for the ledger and the
  source chain). Invariants by induction over reachable states hold for the cache, the bar engine
  behind the pipeline, the ledger and the order book engine. Refinements relate the code to what
  it promises: a cached series to a map of times, the local book to the exchange's book, lazy
  snapshots to eager copies, the checkpoint ring to the history it retains, a filled position to
  its reckoning over the rationals. Safety and
  completeness hold of the planner and the gap detector; round trips of decimals, canonical JSON,
  ledger snapshots, checkpoints and the broker's values; tamper evidence holds up to a collision of the hash function,
  which the statement exhibits. Error behaviour is stated on every branch that raises.

  \<^bold>\<open>Bounds and fuel.\<close> Integers are Python's, hence \<open>int\<close>. Loops that Python's semantics makes
  finite are total functions. The reader of JSON has fuel \<open>2 * length + 2\<close>, one unit for each step
  into a token, which \<open>fuel_enough\<close> proves to suffice for every text, valid or not. Reading and writing
  bytes is bounded as CPython bounds it: by 4300 digits of an integer and by depths of nesting, the
  argument \<open>json_stack\<close>, beyond which they raise. The cycle check of the dependency graph takes the
  number of interpreter frames, since Python stops it there; the laws of built graphs are about
  calls that did not end in that RecursionError, and \<open>recursion_error_keeps_edge\<close> shows why. The
  decompression loop of a checkpoint is a partial function, proved to end for a decompressor that
  consumes input or produces output. Ledger entry names carry ten digits, so the ledger laws hold
  up to \<open>10 ^ 10\<close> entries.

  \<^bold>\<open>Parameters.\<close> Code outside the repository enters as an argument: SHA-256 and zlib, the wall
  clock, the queries of the storage, the registry of exchange capabilities, and binary floating
  point: operations on floats in \<open>BarState\<close> are arguments, and the order book, which only compares
  floats, is stated for any linear order with a zero.

  \<^bold>\<open>Not modelled.\<close> Asynchronous coordination (backfill jobs, actors, the event bus, the replay and
  training services), SQL and files (storage, archives, repositories), websocket and HTTP clients,
  the API routes, plugin processes and their cryptography, indicator formulas and alert rules on
  floats, and the TypeScript client: they are I/O, or need a model of a library the repository
  does not hold. Session calendars of exchanges and the broker's order loop
  over bars and trades (the rest of \<open>execution.py\<close>) are not modelled. Diagnostics, printing, logging
  and counters nothing reads are left out where the component note says so.
\<close>

end
